(* ===== verification/Dfk_Prelude.thy ===== *)
theory Dfk_Prelude
  imports Main "HOL-Library.Word" "HOL-Library.Monad_Syntax"
begin

text \<open>
  The vocabulary the component theories share: machine addresses and sizes, the
  memory of a C struct type as a finite-support map from addresses to struct values,
  checked loads and stores, assertions, and the list and word lemmas the component
  proofs rely on.

  A C function that may abort (a failed \<^verbatim>\<open>assert\<close>) or touch memory it must not
  (a \<^verbatim>\<open>NULL\<close> or unallocated pointer) is a function into \<open>'a option\<close>; \<^term>\<open>None\<close> is
  the abort or the fault, so every theorem that concludes with \<^term>\<open>Some\<close> also states
  that neither happens.
\<close>

unbundle bit_operations_syntax

section \<open>Machine types\<close>

type_synonym addr = "64 word"
type_synonym size_t = "64 word"
type_synonym byte = "8 word"
type_synonym 'a mem = "addr \<Rightarrow> 'a option"

abbreviation NULL :: addr where
  "NULL \<equiv> 0"

named_theorems rep_intros \<open>introduction rules of the representation predicates\<close>
named_theorems mem_simps \<open>rewriting of checked loads, stores and assertions\<close>

section \<open>Assertions and checked memory access\<close>

text \<open>\<^verbatim>\<open>assert(b)\<close> in a build without \<^verbatim>\<open>NDEBUG\<close>.\<close>

definition c_assert :: "bool \<Rightarrow> unit option" where
  "c_assert b = (if b then Some () else None)"

definition load :: "'a mem \<Rightarrow> addr \<Rightarrow> 'a option" where
  "load h p = (if p = NULL then None else h p)"

definition modify :: "'a mem \<Rightarrow> addr \<Rightarrow> ('a \<Rightarrow> 'a) \<Rightarrow> 'a mem option" where
  "modify h p f = (case load h p of None \<Rightarrow> None | Some v \<Rightarrow> Some (h(p \<mapsto> f v)))"

lemma c_assert_True [simp, mem_simps]: "c_assert True = Some ()"
  by (simp add: c_assert_def)

lemma c_assert_False [simp]: "c_assert False = None"
  by (simp add: c_assert_def)

lemma c_assert_Some [simp]: "c_assert b = Some u \<longleftrightarrow> b"
  by (simp add: c_assert_def)

lemma c_assert_bind [simp]: "(c_assert b \<bind> f) = (if b then f () else None)"
  by (simp add: c_assert_def)

lemma load_NULL [simp]: "load h NULL = None"
  by (simp add: load_def)

lemma load_Some [simp, mem_simps]: "p \<noteq> NULL \<Longrightarrow> h p = Some v \<Longrightarrow> load h p = Some v"
  by (simp add: load_def)

lemma load_eq_Some: "load h p = Some v \<longleftrightarrow> p \<noteq> NULL \<and> h p = Some v"
  by (simp add: load_def)

lemma load_upd_same [simp]: "p \<noteq> NULL \<Longrightarrow> load (h(p \<mapsto> v)) p = Some v"
  by (simp add: load_def)

lemma load_upd_other [simp]: "p \<noteq> q \<Longrightarrow> load (h(q \<mapsto> v)) p = load h p"
  by (simp add: load_def)

lemma modify_Some [simp, mem_simps]:
  "p \<noteq> NULL \<Longrightarrow> h p = Some v \<Longrightarrow> modify h p f = Some (h(p \<mapsto> f v))"
  by (simp add: modify_def)

lemma modify_NULL [simp]: "modify h NULL f = None"
  by (simp add: modify_def)

text \<open>Two memories that agree on every address outside a set, with the same allocations.\<close>

definition same_outside :: "addr set \<Rightarrow> 'a mem \<Rightarrow> 'a mem \<Rightarrow> bool" where
  "same_outside S h h' \<longleftrightarrow> (\<forall>a. a \<notin> S \<longrightarrow> h' a = h a) \<and> dom h' = dom h"

lemma same_outside_refl [simp]: "same_outside S h h"
  by (simp add: same_outside_def)

lemma same_outside_trans:
  "same_outside S h h' \<Longrightarrow> same_outside T h' h'' \<Longrightarrow> same_outside (S \<union> T) h h''"
  by (auto simp: same_outside_def)

lemma same_outside_mono: "same_outside S h h' \<Longrightarrow> S \<subseteq> T \<Longrightarrow> same_outside T h h'"
  by (auto simp: same_outside_def)

lemma same_outside_join:
  "same_outside S h h' \<Longrightarrow> same_outside T h' h'' \<Longrightarrow> S \<union> T \<subseteq> U \<Longrightarrow> same_outside U h h''"
  by (rule same_outside_mono [OF same_outside_trans])

lemma same_outside_upd [simp, rep_intros]:
  "same_outside S h h' \<Longrightarrow> a \<in> S \<Longrightarrow> h a \<noteq> None \<Longrightarrow> same_outside S h (h'(a \<mapsto> v))"
  by (auto simp: same_outside_def)

lemma same_outside_eq: "same_outside S h h' \<Longrightarrow> a \<notin> S \<Longrightarrow> h' a = h a"
  by (simp add: same_outside_def)

lemma same_outside_dom: "same_outside S h h' \<Longrightarrow> dom h' = dom h"
  by (simp add: same_outside_def)

section \<open>First and last element with a default\<close>

definition hd_or :: "'a list \<Rightarrow> 'a \<Rightarrow> 'a" where
  "hd_or xs d = (case xs of [] \<Rightarrow> d | x # _ \<Rightarrow> x)"

definition last_or :: "'a list \<Rightarrow> 'a \<Rightarrow> 'a" where
  "last_or xs d = (if xs = [] then d else last xs)"

lemma hd_or_simps [simp]: "hd_or [] d = d" "hd_or (x # xs) d = x"
  by (simp_all add: hd_or_def)

lemma last_or_simps [simp]:
  "last_or [] d = d" "last_or (xs @ [x]) d = x" "last_or (x # xs) d = last_or xs x"
  by (simp_all add: last_or_def)

lemma hd_or_append [simp]: "hd_or (xs @ ys) d = hd_or xs (hd_or ys d)"
  by (cases xs) simp_all

lemma last_or_append [simp]: "last_or (xs @ ys) d = last_or ys (last_or xs d)"
  by (induction xs arbitrary: d) simp_all

lemma hd_or_in: "xs \<noteq> [] \<Longrightarrow> hd_or xs d \<in> set xs"
  by (cases xs) simp_all

lemma last_or_in: "xs \<noteq> [] \<Longrightarrow> last_or xs d \<in> set xs"
  by (simp add: last_or_def)

lemma hd_or_neq [simp]:
  "z \<noteq> d \<Longrightarrow> z \<notin> set xs \<Longrightarrow> hd_or xs d \<noteq> z" "z \<noteq> d \<Longrightarrow> z \<notin> set xs \<Longrightarrow> z \<noteq> hd_or xs d"
  by (cases xs; auto)+

lemma last_or_neq [simp]:
  "z \<noteq> d \<Longrightarrow> z \<notin> set xs \<Longrightarrow> last_or xs d \<noteq> z" "z \<noteq> d \<Longrightarrow> z \<notin> set xs \<Longrightarrow> z \<noteq> last_or xs d"
  by (cases xs rule: rev_cases; auto)+

lemma hd_or_default [simp]: "x \<notin> set xs \<Longrightarrow> hd_or xs x = x \<longleftrightarrow> xs = []"
  by (cases xs) auto

lemma last_or_default [simp]: "x \<notin> set xs \<Longrightarrow> last_or xs x = x \<longleftrightarrow> xs = []"
  by (cases xs rule: rev_cases) auto

lemma hd_or_nth: "xs \<noteq> [] \<Longrightarrow> hd_or xs d = xs ! 0"
  by (cases xs) simp_all

lemma last_or_nth: "xs \<noteq> [] \<Longrightarrow> last_or xs d = xs ! (length xs - 1)"
  by (simp add: last_or_def last_conv_nth)

lemma hd_or_rev [simp]: "hd_or (rev xs) d = last_or xs d"
  by (induction xs arbitrary: d) simp_all

lemma last_or_rev [simp]: "last_or (rev xs) d = hd_or xs d"
  by (cases xs) simp_all

lemma hd_or_NULL: "NULL \<notin> set xs \<Longrightarrow> hd_or xs NULL = NULL \<longleftrightarrow> xs = []"
  by (cases xs) auto

lemma last_or_NULL: "NULL \<notin> set xs \<Longrightarrow> last_or xs NULL = NULL \<longleftrightarrow> xs = []"
  by (cases xs rule: rev_cases) auto

lemma hd_or_eq_last_or:
  "distinct xs \<Longrightarrow> NULL \<notin> set xs \<Longrightarrow> hd_or xs NULL = last_or xs NULL \<longleftrightarrow> length xs \<le> 1"
  using last_or_in [of "tl xs" "hd xs"] by (cases xs; cases "tl xs = []") auto

section \<open>Counting addresses\<close>

text \<open>
  A list of distinct non-\<^verbatim>\<open>NULL\<close> addresses is shorter than \<open>2\<^sup>6\<^sup>4\<close>, so a
  \<^verbatim>\<open>size_t\<close> counter of its elements never wraps around.
\<close>

lemma distinct_addr_bound:
  fixes xs :: "addr list"
  assumes "distinct xs" "NULL \<notin> set xs"
  shows "length xs < 2 ^ 64"
proof -
  have "length xs = card (set xs)"
    using assms(1) by (simp add: distinct_card)
  also have "\<dots> < card (insert NULL (set xs))"
    using assms(2) by simp
  also have "\<dots> \<le> card (UNIV :: addr set)"
    by (rule card_mono) simp_all
  finally show ?thesis by (simp add: card_word)
qed

lemma unat_of_nat_addr: "n < 2 ^ 64 \<Longrightarrow> unat (of_nat n :: 64 word) = n"
  by (simp add: unat_of_nat take_bit_nat_eq_self)

lemma of_nat_size_eq_iff:
  "m < 2 ^ 64 \<Longrightarrow> n < 2 ^ 64 \<Longrightarrow> (of_nat m :: size_t) = of_nat n \<longleftrightarrow> m = n"
  by (metis unat_of_nat_addr)

lemma of_nat_size_less_iff:
  "m < 2 ^ 64 \<Longrightarrow> n < 2 ^ 64 \<Longrightarrow> (of_nat m :: size_t) < of_nat n \<longleftrightarrow> m < n"
  by (simp add: word_less_nat_alt unat_of_nat_addr)

lemma of_nat_size_le_iff:
  "m < 2 ^ 64 \<Longrightarrow> n < 2 ^ 64 \<Longrightarrow> (of_nat m :: size_t) \<le> of_nat n \<longleftrightarrow> m \<le> n"
  by (simp add: word_le_nat_alt unat_of_nat_addr)

end
