(* ===== verification/Dfk_List_Spec.thy ===== *)
theory Dfk_List_Spec
  imports Dfk_Prelude
begin

text \<open>
  The contract of the intrusive list (\<^verbatim>\<open>include/dfk/list.h\<close>) as clients use it,
  independent of how the hooks are linked. The list is built in one of two
  configurations, with two link pointers per hook or with one XOR-ed pointer; both
  offer the operations of the record \<open>deque_impl\<close> below and both are shown to satisfy
  the locale \<open>deque\<close>. A sequence of operations then has the same observable results
  as the same sequence on a plain list of addresses, whatever the configuration.
\<close>

section \<open>The operations of one configuration\<close>

record ('h, 'l, 'i) deque_impl =
  d_init :: "'h \<Rightarrow> 'l option"
  d_append :: "'h \<Rightarrow> 'l \<Rightarrow> addr \<Rightarrow> ('h \<times> 'l) option"
  d_prepend :: "'h \<Rightarrow> 'l \<Rightarrow> addr \<Rightarrow> ('h \<times> 'l) option"
  d_pop_front :: "'h \<Rightarrow> 'l \<Rightarrow> ('h \<times> 'l) option"
  d_pop_back :: "'h \<Rightarrow> 'l \<Rightarrow> ('h \<times> 'l) option"
  d_front :: "'h \<Rightarrow> 'l \<Rightarrow> addr option"
  d_back :: "'h \<Rightarrow> 'l \<Rightarrow> addr option"
  d_size :: "'h \<Rightarrow> 'l \<Rightarrow> size_t option"
  d_empty :: "'h \<Rightarrow> 'l \<Rightarrow> bool option"
  d_begin :: "'h \<Rightarrow> 'l \<Rightarrow> 'i option"
  d_it_next :: "'h \<Rightarrow> 'i \<Rightarrow> 'i option"
  d_it_value :: "'i \<Rightarrow> addr"
  d_insert :: "'h \<Rightarrow> 'l \<Rightarrow> addr \<Rightarrow> 'i \<Rightarrow> ('h \<times> 'l) option"
  d_erase :: "'h \<Rightarrow> 'l \<Rightarrow> 'i \<Rightarrow> ('h \<times> 'l) option"

section \<open>Operation sequences and what they show\<close>

datatype deque_op =
    Append addr | Prepend addr | Pop_front | Pop_back | Front | Back | Size | Empty
  | Insert_at nat addr | Erase_at nat | Value_at nat

datatype deque_obs = Unit | Addr addr | Count size_t | Flag bool

fun advance :: "('h, 'l, 'i) deque_impl \<Rightarrow> 'h \<Rightarrow> nat \<Rightarrow> 'i \<Rightarrow> 'i option" where
  "advance D h 0 it = Some it"
| "advance D h (Suc n) it = do { it \<leftarrow> d_it_next D h it; advance D h n it }"

fun deque_step ::
  "('h, 'l, 'i) deque_impl \<Rightarrow> 'h \<Rightarrow> 'l \<Rightarrow> deque_op \<Rightarrow> ('h \<times> 'l \<times> deque_obs) option" where
  "deque_step D h l (Append a) = do { (h, l) \<leftarrow> d_append D h l a; Some (h, l, Unit) }"
| "deque_step D h l (Prepend a) = do { (h, l) \<leftarrow> d_prepend D h l a; Some (h, l, Unit) }"
| "deque_step D h l Pop_front = do { (h, l) \<leftarrow> d_pop_front D h l; Some (h, l, Unit) }"
| "deque_step D h l Pop_back = do { (h, l) \<leftarrow> d_pop_back D h l; Some (h, l, Unit) }"
| "deque_step D h l Front = do { a \<leftarrow> d_front D h l; Some (h, l, Addr a) }"
| "deque_step D h l Back = do { a \<leftarrow> d_back D h l; Some (h, l, Addr a) }"
| "deque_step D h l Size = do { n \<leftarrow> d_size D h l; Some (h, l, Count n) }"
| "deque_step D h l Empty = do { b \<leftarrow> d_empty D h l; Some (h, l, Flag b) }"
| "deque_step D h l (Insert_at i a) = do {
     it \<leftarrow> d_begin D h l;
     it \<leftarrow> advance D h i it;
     (h, l) \<leftarrow> d_insert D h l a it;
     Some (h, l, Unit) }"
| "deque_step D h l (Erase_at i) = do {
     it \<leftarrow> d_begin D h l;
     it \<leftarrow> advance D h i it;
     (h, l) \<leftarrow> d_erase D h l it;
     Some (h, l, Unit) }"
| "deque_step D h l (Value_at i) = do {
     it \<leftarrow> d_begin D h l;
     it \<leftarrow> advance D h i it;
     Some (h, l, Addr (d_it_value D it)) }"

fun deque_run ::
  "('h, 'l, 'i) deque_impl \<Rightarrow> 'h \<Rightarrow> 'l \<Rightarrow> deque_op list \<Rightarrow> deque_obs list option" where
  "deque_run D h l [] = Some []"
| "deque_run D h l (x # ops) = do {
     (h, l, r) \<leftarrow> deque_step D h l x;
     rs \<leftarrow> deque_run D h l ops;
     Some (r # rs) }"

section \<open>The same operations on a list of addresses\<close>

definition value_at :: "addr list \<Rightarrow> nat \<Rightarrow> addr" where
  "value_at xs i = (if i < length xs then xs ! i else NULL)"

lemma value_at_simps [simp]:
  "value_at xs 0 = hd_or xs NULL" "value_at (x # xs) (Suc i) = value_at xs i"
  by (cases xs) (simp_all add: value_at_def)

lemma split_nth: "i < length xs \<Longrightarrow> xs = take i xs @ xs ! i # drop (Suc i) xs"
  by (rule id_take_nth_drop)

lemma value_at_hd_or: "value_at xs i = hd_or (drop i xs) NULL"
  by (cases "i < length xs") (simp_all add: value_at_def hd_or_def Cons_nth_drop_Suc [symmetric])

fun spec_step :: "addr list \<Rightarrow> deque_op \<Rightarrow> addr list \<times> deque_obs" where
  "spec_step xs (Append a) = (xs @ [a], Unit)"
| "spec_step xs (Prepend a) = (a # xs, Unit)"
| "spec_step xs Pop_front = (tl xs, Unit)"
| "spec_step xs Pop_back = (butlast xs, Unit)"
| "spec_step xs Front = (xs, Addr (hd_or xs NULL))"
| "spec_step xs Back = (xs, Addr (last_or xs NULL))"
| "spec_step xs Size = (xs, Count (of_nat (length xs)))"
| "spec_step xs Empty = (xs, Flag (xs = []))"
| "spec_step xs (Insert_at i a) = (take i xs @ a # drop i xs, Unit)"
| "spec_step xs (Erase_at i) = (take i xs @ drop (Suc i) xs, Unit)"
| "spec_step xs (Value_at i) = (xs, Addr (value_at xs i))"

fun spec_run :: "addr list \<Rightarrow> deque_op list \<Rightarrow> deque_obs list" where
  "spec_run xs [] = []"
| "spec_run xs (x # ops) = (case spec_step xs x of (xs', r) \<Rightarrow> r # spec_run xs' ops)"

text \<open>
  What a client must respect: a hook that is inserted is allocated and not in the list
  already, elements are taken from non-empty lists only, and iterators stay in range.
\<close>

fun op_ok :: "(addr \<Rightarrow> bool) \<Rightarrow> addr list \<Rightarrow> deque_op \<Rightarrow> bool" where
  "op_ok al xs (Append a) \<longleftrightarrow> a \<noteq> NULL \<and> al a \<and> a \<notin> set xs"
| "op_ok al xs (Prepend a) \<longleftrightarrow> a \<noteq> NULL \<and> al a \<and> a \<notin> set xs"
| "op_ok al xs Pop_front \<longleftrightarrow> xs \<noteq> []"
| "op_ok al xs Pop_back \<longleftrightarrow> xs \<noteq> []"
| "op_ok al xs (Insert_at i a) \<longleftrightarrow> i \<le> length xs \<and> a \<noteq> NULL \<and> al a \<and> a \<notin> set xs"
| "op_ok al xs (Erase_at i) \<longleftrightarrow> i < length xs"
| "op_ok al xs (Value_at i) \<longleftrightarrow> i \<le> length xs"
| "op_ok al xs _ \<longleftrightarrow> True"

fun ops_ok :: "(addr \<Rightarrow> bool) \<Rightarrow> addr list \<Rightarrow> deque_op list \<Rightarrow> bool" where
  "ops_ok al xs [] \<longleftrightarrow> True"
| "ops_ok al xs (x # ops) \<longleftrightarrow> op_ok al xs x \<and> ops_ok al (fst (spec_step xs x)) ops"

text \<open>Filling an empty list and draining it from the front.\<close>

definition drain :: "addr list \<Rightarrow> deque_op list" where
  "drain as = concat (map (\<lambda>_. [Front, Pop_front]) as)"

lemma drain_simps [simp]: "drain [] = []" "drain (a # as) = Front # Pop_front # drain as"
  by (simp_all add: drain_def)

lemma spec_run_drain: "spec_run as (drain as) = concat (map (\<lambda>a. [Addr a, Unit]) as)"
  by (induction as) simp_all

lemma ops_ok_drain: "ops_ok al as (drain as)"
  by (induction as) simp_all

lemma spec_run_fill:
  "spec_run xs (map Append as @ ops) = replicate (length as) Unit @ spec_run (xs @ as) ops"
  by (induction as arbitrary: xs) simp_all

lemma ops_ok_fill:
  "distinct (xs @ as) \<Longrightarrow> \<forall>a \<in> set as. a \<noteq> NULL \<and> al a \<Longrightarrow>
   ops_ok al xs (map Append as @ ops) \<longleftrightarrow> ops_ok al (xs @ as) ops"
  by (induction as arbitrary: xs) simp_all

section \<open>The contract\<close>

text \<open>
  \<open>rep h l xs\<close>: in memory \<open>h\<close> the list object \<open>l\<close> holds the hooks \<open>xs\<close>.
  \<open>at h xs i it\<close>: the iterator \<open>it\<close> stands at index \<open>i\<close> of that list, or at its end when
  \<open>i\<close> is its length. \<open>al h a\<close>: the address \<open>a\<close> is an allocated hook.
\<close>

locale deque =
  fixes D :: "('h, 'l, 'i) deque_impl"
    and rep :: "'h \<Rightarrow> 'l \<Rightarrow> addr list \<Rightarrow> bool"
    and at :: "'h \<Rightarrow> addr list \<Rightarrow> nat \<Rightarrow> 'i \<Rightarrow> bool"
    and al :: "'h \<Rightarrow> addr \<Rightarrow> bool"
  assumes init_law: "\<exists>l. d_init D h = Some l \<and> rep h l []"
    and append_law: "rep h l xs \<Longrightarrow> a \<noteq> NULL \<Longrightarrow> al h a \<Longrightarrow> a \<notin> set xs \<Longrightarrow>
      \<exists>h' l'. d_append D h l a = Some (h', l') \<and> rep h' l' (xs @ [a]) \<and> al h' = al h"
    and prepend_law: "rep h l xs \<Longrightarrow> a \<noteq> NULL \<Longrightarrow> al h a \<Longrightarrow> a \<notin> set xs \<Longrightarrow>
      \<exists>h' l'. d_prepend D h l a = Some (h', l') \<and> rep h' l' (a # xs) \<and> al h' = al h"
    and pop_front_law: "rep h l xs \<Longrightarrow> xs \<noteq> [] \<Longrightarrow>
      \<exists>h' l'. d_pop_front D h l = Some (h', l') \<and> rep h' l' (tl xs) \<and> al h' = al h"
    and pop_back_law: "rep h l xs \<Longrightarrow> xs \<noteq> [] \<Longrightarrow>
      \<exists>h' l'. d_pop_back D h l = Some (h', l') \<and> rep h' l' (butlast xs) \<and> al h' = al h"
    and front_law: "rep h l xs \<Longrightarrow> d_front D h l = Some (hd_or xs NULL)"
    and back_law: "rep h l xs \<Longrightarrow> d_back D h l = Some (last_or xs NULL)"
    and size_law: "rep h l xs \<Longrightarrow> d_size D h l = Some (of_nat (length xs))"
    and empty_law: "rep h l xs \<Longrightarrow> d_empty D h l = Some (xs = [])"
    and begin_law: "rep h l xs \<Longrightarrow> \<exists>it. d_begin D h l = Some it \<and> at h xs 0 it"
    and next_law: "rep h l xs \<Longrightarrow> at h xs i it \<Longrightarrow> i < length xs \<Longrightarrow>
      \<exists>it'. d_it_next D h it = Some it' \<and> at h xs (Suc i) it'"
    and value_law: "rep h l xs \<Longrightarrow> at h xs i it \<Longrightarrow> d_it_value D it = value_at xs i"
    and insert_law: "rep h l xs \<Longrightarrow> at h xs i it \<Longrightarrow> i \<le> length xs \<Longrightarrow> a \<noteq> NULL \<Longrightarrow> al h a \<Longrightarrow>
      a \<notin> set xs \<Longrightarrow>
      \<exists>h' l'. d_insert D h l a it = Some (h', l') \<and> rep h' l' (take i xs @ a # drop i xs)
        \<and> al h' = al h"
    and erase_law: "rep h l xs \<Longrightarrow> at h xs i it \<Longrightarrow> i < length xs \<Longrightarrow>
      \<exists>h' l'. d_erase D h l it = Some (h', l') \<and> rep h' l' (take i xs @ drop (Suc i) xs)
        \<and> al h' = al h"
begin

lemma advance_law:
  "rep h l xs \<Longrightarrow> at h xs i it \<Longrightarrow> i + n \<le> length xs \<Longrightarrow>
   \<exists>it'. advance D h n it = Some it' \<and> at h xs (i + n) it'"
proof (induction n arbitrary: i it)
  case 0
  then show ?case by simp
next
  case (Suc n)
  then obtain it' where it': "d_it_next D h it = Some it'" "at h xs (Suc i) it'"
    using next_law [of h l xs i it] by auto
  with Suc show ?case using Suc.IH [of "Suc i" it'] by auto
qed

lemma iterator_at:
  assumes "rep h l xs" "i \<le> length xs"
  shows "\<exists>it it'. d_begin D h l = Some it \<and> advance D h i it = Some it' \<and> at h xs i it'"
proof -
  obtain it where it: "d_begin D h l = Some it" "at h xs 0 it"
    using begin_law [OF assms(1)] by blast
  moreover obtain it' where "advance D h i it = Some it'" "at h xs (0 + i) it'"
    using advance_law [OF assms(1) it(2)] assms(2) by fastforce
  ultimately show ?thesis by simp
qed

lemma step_law:
  assumes "rep h l xs" "op_ok (al h) xs x"
  shows "\<exists>h' l'. deque_step D h l x = Some (h', l', snd (spec_step xs x))
           \<and> rep h' l' (fst (spec_step xs x)) \<and> al h' = al h"
proof (cases x)
  case (Insert_at i a)
  then obtain it it' where it: "d_begin D h l = Some it" "advance D h i it = Some it'" "at h xs i it'"
    using assms iterator_at [of h l xs i] by auto
  with Insert_at assms insert_law [of h l xs i it' a] show ?thesis by auto
next
  case (Erase_at i)
  then obtain it it' where it: "d_begin D h l = Some it" "advance D h i it = Some it'" "at h xs i it'"
    using assms iterator_at [of h l xs i] by auto
  with Erase_at assms erase_law [of h l xs i it'] show ?thesis by auto
next
  case (Value_at i)
  then obtain it it' where it: "d_begin D h l = Some it" "advance D h i it = Some it'" "at h xs i it'"
    using assms iterator_at [of h l xs i] by auto
  with Value_at assms value_law [of h l xs i it'] show ?thesis by auto
qed (use assms append_law prepend_law pop_front_law pop_back_law front_law back_law
       size_law empty_law in fastforce)+

lemma run_law:
  "rep h l xs \<Longrightarrow> ops_ok (al h) xs ops \<Longrightarrow> deque_run D h l ops = Some (spec_run xs ops)"
proof (induction ops arbitrary: h l xs)
  case Nil
  then show ?case by simp
next
  case (Cons x ops)
  then obtain h' l' where s: "deque_step D h l x = Some (h', l', snd (spec_step xs x))"
    "rep h' l' (fst (spec_step xs x))" "al h' = al h"
    using step_law [of h l xs x] by auto
  then have "deque_run D h' l' ops = Some (spec_run (fst (spec_step xs x)) ops)"
    using Cons by auto
  with s show ?case by (simp add: case_prod_beta)
qed

text \<open>First in, first out: hooks leave at the front in the order they were appended.\<close>

lemma fifo_law:
  assumes "rep h l []" "distinct as" "\<forall>a \<in> set as. a \<noteq> NULL \<and> al h a"
  shows "deque_run D h l (map Append as @ drain as)
           = Some (replicate (length as) Unit @ concat (map (\<lambda>a. [Addr a, Unit]) as))"
  using run_law [OF assms(1), of "map Append as @ drain as"] assms(2,3)
  by (simp add: spec_run_fill ops_ok_fill spec_run_drain ops_ok_drain)

end

end
