(* ===== verification/Dfk_List.thy ===== *)
theory Dfk_List
  imports Dfk_List_Spec
begin

text \<open>
  The intrusive doubly linked list of \<^verbatim>\<open>src/list.c\<close> in its default configuration
  (\<^verbatim>\<open>DFK_LIST_MEMORY_OPTIMIZED\<close> off, \<^verbatim>\<open>DFK_LIST_CONSTANT_TIME_SIZE\<close> on,
  \<^verbatim>\<open>DFK_DEBUG\<close> off, assertions enabled). The hooks live in a memory from addresses
  to \<open>dfk_list_hook_t\<close>; a list object and an iterator are passed and returned by
  value. The run-time invariant checks of the code are part of the model: every
  operation calls them where the code does.
\<close>

section \<open>Data\<close>

record dfk_list_hook_t =
  hook_next :: addr
  hook_prev :: addr

record dfk_list_t =
  list_head :: addr
  list_tail :: addr
  list_size :: size_t

record dfk_list_it =
  it_value :: addr

record dfk_list_rit =
  rit_value :: addr

type_synonym hooks = "dfk_list_hook_t mem"

section \<open>Run-time invariant checks\<close>

text \<open>One conditional hop of the fast pointer: \<^verbatim>\<open>if (j) j = j->field\<close>.\<close>

definition hop :: "(dfk_list_hook_t \<Rightarrow> addr) \<Rightarrow> hooks \<Rightarrow> addr \<Rightarrow> addr option" where
  "hop field h j = (if j = NULL then Some NULL else do { v \<leftarrow> load h j; Some (field v) })"

text \<open>
  The two-speed traversal of \<^verbatim>\<open>dfk__list_check_invariants\<close>: the code has it twice, once
  along \<^verbatim>\<open>_next\<close> from head to tail and once along \<^verbatim>\<open>_prev\<close> from tail to head.
\<close>

partial_function (option) list_check_walk ::
  "(dfk_list_hook_t \<Rightarrow> addr) \<Rightarrow> hooks \<Rightarrow> addr \<Rightarrow> size_t \<Rightarrow> addr \<Rightarrow> addr \<Rightarrow> size_t
    \<Rightarrow> (addr \<times> addr \<times> size_t) option" where
  "list_check_walk field h stop sz i j nhops =
     (if i \<noteq> stop then do {
        c_assert (i \<noteq> NULL);
        vi \<leftarrow> load h i;
        j1 \<leftarrow> hop field h j;
        j2 \<leftarrow> hop field h j1;
        c_assert (field vi \<noteq> j2);
        c_assert (nhops + 1 < sz);
        list_check_walk field h stop sz (field vi) j2 (nhops + 1)
      } else Some (i, j, nhops))"

definition dfk__list_check_invariants :: "hooks \<Rightarrow> dfk_list_t \<Rightarrow> unit option" where
  "dfk__list_check_invariants h l =
     (if list_head l = NULL \<or> list_tail l = NULL then do {
        c_assert (list_head l = NULL);
        c_assert (list_tail l = NULL);
        c_assert (list_size l = 0)
      } else if list_head l = list_tail l then do {
        v \<leftarrow> load h (list_head l);
        c_assert (hook_next v = NULL);
        c_assert (hook_prev v = NULL);
        c_assert (list_size l = 1)
      } else do {
        vh \<leftarrow> load h (list_head l);
        c_assert (hook_prev vh = NULL);
        vt \<leftarrow> load h (list_tail l);
        c_assert (hook_next vt = NULL);
        (i, j, nhops) \<leftarrow> list_check_walk hook_next h (list_tail l) (list_size l)
           (list_head l) (list_head l) 0;
        c_assert (i = list_tail l);
        c_assert (j = NULL);
        c_assert (nhops + 1 = list_size l);
        (i, j, nhops) \<leftarrow> list_check_walk hook_prev h (list_head l) (list_size l)
           (list_tail l) (list_tail l) 0;
        c_assert (i = list_head l);
        c_assert (j = NULL);
        c_assert (nhops + 1 = list_size l)
      })"

text \<open>The traversals of \<^verbatim>\<open>dfk__list_hook_check_invariants\<close>, which stop at a \<^verbatim>\<open>NULL\<close> link.\<close>

partial_function (option) hook_check_walk ::
  "(dfk_list_hook_t \<Rightarrow> addr) \<Rightarrow> hooks \<Rightarrow> addr \<Rightarrow> addr \<Rightarrow> unit option" where
  "hook_check_walk field h i j = do {
     vi \<leftarrow> load h i;
     if field vi \<noteq> NULL then do {
       j1 \<leftarrow> hop field h j;
       j2 \<leftarrow> hop field h j1;
       c_assert (field vi \<noteq> j2);
       hook_check_walk field h (field vi) j2
     } else Some ()
   }"

definition dfk__list_hook_check_invariants :: "hooks \<Rightarrow> addr \<Rightarrow> unit option" where
  "dfk__list_hook_check_invariants h hook = do {
     c_assert (hook \<noteq> NULL);
     hook_check_walk hook_next h hook hook;
     hook_check_walk hook_prev h hook hook
   }"

definition dfk__list_it_check_invariants :: "hooks \<Rightarrow> dfk_list_it \<Rightarrow> unit option" where
  "dfk__list_it_check_invariants h it =
     (if it_value it \<noteq> NULL then dfk__list_hook_check_invariants h (it_value it) else Some ())"

definition dfk__list_rit_check_invariants :: "hooks \<Rightarrow> dfk_list_rit \<Rightarrow> unit option" where
  "dfk__list_rit_check_invariants h rit =
     (if rit_value rit \<noteq> NULL then dfk__list_hook_check_invariants h (rit_value rit) else Some ())"

section \<open>Operations\<close>

definition dfk_list_init :: "hooks \<Rightarrow> dfk_list_t option" where
  "dfk_list_init h = do {
     let l = \<lparr>list_head = NULL, list_tail = NULL, list_size = 0\<rparr>;
     dfk__list_check_invariants h l;
     Some l
   }"

definition dfk_list_hook_init :: "hooks \<Rightarrow> addr \<Rightarrow> hooks option" where
  "dfk_list_hook_init h hook = do {
     c_assert (hook \<noteq> NULL);
     h \<leftarrow> modify h hook (hook_next_update (\<lambda>_. NULL));
     h \<leftarrow> modify h hook (hook_prev_update (\<lambda>_. NULL));
     dfk__list_hook_check_invariants h hook;
     Some h
   }"

definition dfk_list_front :: "hooks \<Rightarrow> dfk_list_t \<Rightarrow> addr option" where
  "dfk_list_front h l = do { dfk__list_check_invariants h l; Some (list_head l) }"

definition dfk_list_back :: "hooks \<Rightarrow> dfk_list_t \<Rightarrow> addr option" where
  "dfk_list_back h l = do { dfk__list_check_invariants h l; Some (list_tail l) }"

definition dfk_list_append :: "hooks \<Rightarrow> dfk_list_t \<Rightarrow> addr \<Rightarrow> (hooks \<times> dfk_list_t) option" where
  "dfk_list_append h l hook = do {
     dfk__list_check_invariants h l;
     c_assert (hook \<noteq> NULL);
     h \<leftarrow> modify h hook (hook_next_update (\<lambda>_. NULL));
     h \<leftarrow> modify h hook (hook_prev_update (\<lambda>_. list_tail l));
     h \<leftarrow> (if list_tail l \<noteq> NULL
          then modify h (list_tail l) (hook_next_update (\<lambda>_. hook)) else Some h);
     let l = (if list_head l = NULL then l\<lparr>list_head := hook\<rparr> else l);
     let l = l\<lparr>list_tail := hook\<rparr>;
     let l = l\<lparr>list_size := list_size l + 1\<rparr>;
     dfk__list_check_invariants h l;
     dfk__list_hook_check_invariants h hook;
     Some (h, l)
   }"

definition dfk_list_prepend :: "hooks \<Rightarrow> dfk_list_t \<Rightarrow> addr \<Rightarrow> (hooks \<times> dfk_list_t) option" where
  "dfk_list_prepend h l hook = do {
     dfk__list_check_invariants h l;
     c_assert (hook \<noteq> NULL);
     h \<leftarrow> modify h hook (hook_prev_update (\<lambda>_. NULL));
     h \<leftarrow> modify h hook (hook_next_update (\<lambda>_. list_head l));
     h \<leftarrow> (if list_head l \<noteq> NULL
          then modify h (list_head l) (hook_prev_update (\<lambda>_. hook)) else Some h);
     let l = l\<lparr>list_head := hook\<rparr>;
     let l = (if list_tail l = NULL then l\<lparr>list_tail := hook\<rparr> else l);
     let l = l\<lparr>list_size := list_size l + 1\<rparr>;
     dfk__list_check_invariants h l;
     dfk__list_hook_check_invariants h hook;
     Some (h, l)
   }"

definition dfk_list_insert ::
  "hooks \<Rightarrow> dfk_list_t \<Rightarrow> addr \<Rightarrow> dfk_list_it \<Rightarrow> (hooks \<times> dfk_list_t) option" where
  "dfk_list_insert h l hook position = do {
     dfk__list_check_invariants h l;
     c_assert (hook \<noteq> NULL);
     dfk__list_it_check_invariants h position;
     (h, before) \<leftarrow>
       (if it_value position \<noteq> NULL then do {
          v \<leftarrow> load h (it_value position);
          h \<leftarrow> modify h (it_value position) (hook_prev_update (\<lambda>_. hook));
          Some (h, hook_prev v)
        } else Some (h, if list_tail l \<noteq> NULL then list_tail l else NULL));
     h \<leftarrow> (if before \<noteq> NULL then modify h before (hook_next_update (\<lambda>_. hook)) else Some h);
     h \<leftarrow> modify h hook (hook_prev_update (\<lambda>_. before));
     h \<leftarrow> modify h hook (hook_next_update (\<lambda>_. it_value position));
     let l = (if before = NULL then l\<lparr>list_head := hook\<rparr> else l);
     let l = (if it_value position = NULL then l\<lparr>list_tail := hook\<rparr> else l);
     let l = l\<lparr>list_size := list_size l + 1\<rparr>;
     dfk__list_check_invariants h l;
     dfk__list_hook_check_invariants h hook;
     dfk__list_it_check_invariants h position;
     Some (h, l)
   }"

definition dfk_list_rinsert ::
  "hooks \<Rightarrow> dfk_list_t \<Rightarrow> addr \<Rightarrow> dfk_list_rit \<Rightarrow> (hooks \<times> dfk_list_t) option" where
  "dfk_list_rinsert h l hook position = do {
     dfk__list_check_invariants h l;
     c_assert (hook \<noteq> NULL);
     dfk__list_rit_check_invariants h position;
     (h, before) \<leftarrow>
       (if rit_value position \<noteq> NULL then do {
          v \<leftarrow> load h (rit_value position);
          h \<leftarrow> modify h (rit_value position) (hook_next_update (\<lambda>_. hook));
          Some (h, hook_next v)
        } else Some (h, if list_tail l \<noteq> NULL then list_head l else NULL));
     h \<leftarrow> (if before \<noteq> NULL then modify h before (hook_prev_update (\<lambda>_. hook)) else Some h);
     h \<leftarrow> modify h hook (hook_next_update (\<lambda>_. before));
     h \<leftarrow> modify h hook (hook_prev_update (\<lambda>_. rit_value position));
     let l = (if rit_value position = NULL then l\<lparr>list_head := hook\<rparr> else l);
     let l = (if before = NULL then l\<lparr>list_tail := hook\<rparr> else l);
     let l = l\<lparr>list_size := list_size l + 1\<rparr>;
     dfk__list_check_invariants h l;
     dfk__list_hook_check_invariants h hook;
     dfk__list_rit_check_invariants h position;
     Some (h, l)
   }"

definition dfk_list_clear :: "hooks \<Rightarrow> dfk_list_t \<Rightarrow> dfk_list_t option" where
  "dfk_list_clear h l = do {
     dfk__list_check_invariants h l;
     let l = l\<lparr>list_head := NULL, list_tail := NULL\<rparr>;
     let l = l\<lparr>list_size := 0\<rparr>;
     dfk__list_check_invariants h l;
     Some l
   }"

definition dfk_list_size :: "hooks \<Rightarrow> dfk_list_t \<Rightarrow> size_t option" where
  "dfk_list_size h l = do { dfk__list_check_invariants h l; Some (list_size l) }"

definition dfk_list_empty :: "hooks \<Rightarrow> dfk_list_t \<Rightarrow> bool option" where
  "dfk_list_empty h l = do { dfk__list_check_invariants h l; Some (list_head l = NULL) }"

definition dfk_list_erase ::
  "hooks \<Rightarrow> dfk_list_t \<Rightarrow> dfk_list_it \<Rightarrow> (hooks \<times> dfk_list_t) option" where
  "dfk_list_erase h l it = do {
     dfk__list_check_invariants h l;
     dfk__list_it_check_invariants h it;
     n \<leftarrow> dfk_list_size h l;
     c_assert (n \<noteq> 0);
     let hook = it_value it;
     (h, l) \<leftarrow>
       (if list_head l = list_tail l then do {
          c_assert (list_head l = hook);
          Some (h, l\<lparr>list_head := NULL, list_tail := NULL\<rparr>)
        } else if hook = list_head l then do {
          v \<leftarrow> load h hook;
          c_assert (hook_next v \<noteq> NULL);
          h \<leftarrow> modify h (hook_next v) (hook_prev_update (\<lambda>_. NULL));
          v \<leftarrow> load h hook;
          Some (h, l\<lparr>list_head := hook_next v\<rparr>)
        } else if hook = list_tail l then do {
          v \<leftarrow> load h hook;
          c_assert (hook_prev v \<noteq> NULL);
          h \<leftarrow> modify h (hook_prev v) (hook_next_update (\<lambda>_. NULL));
          v \<leftarrow> load h hook;
          Some (h, l\<lparr>list_tail := hook_prev v\<rparr>)
        } else do {
          v \<leftarrow> load h hook;
          c_assert (hook_prev v \<noteq> NULL);
          c_assert (hook_next v \<noteq> NULL);
          h \<leftarrow> modify h (hook_prev v) (hook_next_update (\<lambda>_. hook_next v));
          v \<leftarrow> load h hook;
          h \<leftarrow> modify h (hook_next v) (hook_prev_update (\<lambda>_. hook_prev v));
          Some (h, l)
        });
     let l = l\<lparr>list_size := list_size l - 1\<rparr>;
     dfk__list_check_invariants h l;
     Some (h, l)
   }"

definition dfk_list_rerase ::
  "hooks \<Rightarrow> dfk_list_t \<Rightarrow> dfk_list_rit \<Rightarrow> (hooks \<times> dfk_list_t) option" where
  "dfk_list_rerase h l rit = do {
     dfk__list_check_invariants h l;
     dfk__list_rit_check_invariants h rit;
     (h, l) \<leftarrow> dfk_list_erase h l \<lparr>it_value = rit_value rit\<rparr>;
     dfk__list_check_invariants h l;
     Some (h, l)
   }"

definition dfk_list_begin :: "hooks \<Rightarrow> dfk_list_t \<Rightarrow> dfk_list_it option" where
  "dfk_list_begin h l = do {
     dfk__list_check_invariants h l;
     let it = \<lparr>it_value = list_head l\<rparr>;
     dfk__list_it_check_invariants h it;
     Some it
   }"

definition dfk_list_end :: "hooks \<Rightarrow> dfk_list_t \<Rightarrow> dfk_list_it option" where
  "dfk_list_end h l = do {
     dfk__list_check_invariants h l;
     let it = \<lparr>it_value = NULL\<rparr>;
     dfk__list_it_check_invariants h it;
     Some it
   }"

definition dfk_list_it_from_value ::
  "hooks \<Rightarrow> dfk_list_t \<Rightarrow> addr \<Rightarrow> dfk_list_it option" where
  "dfk_list_it_from_value h l v = do {
     dfk__list_check_invariants h l;
     dfk__list_hook_check_invariants h v;
     let it = \<lparr>it_value = v\<rparr>;
     dfk__list_it_check_invariants h it;
     dfk__list_hook_check_invariants h v;
     dfk__list_check_invariants h l;
     Some it
   }"

definition dfk_list_it_next :: "hooks \<Rightarrow> dfk_list_it \<Rightarrow> dfk_list_it option" where
  "dfk_list_it_next h it = do {
     dfk__list_it_check_invariants h it;
     v \<leftarrow> load h (it_value it);
     let it = it\<lparr>it_value := hook_next v\<rparr>;
     dfk__list_it_check_invariants h it;
     Some it
   }"

definition dfk_list_it_equal :: "hooks \<Rightarrow> dfk_list_it \<Rightarrow> dfk_list_it \<Rightarrow> bool option" where
  "dfk_list_it_equal h lhs rhs = do {
     dfk__list_it_check_invariants h lhs;
     dfk__list_it_check_invariants h rhs;
     Some (it_value lhs = it_value rhs)
   }"

definition dfk_list_rbegin :: "hooks \<Rightarrow> dfk_list_t \<Rightarrow> dfk_list_rit option" where
  "dfk_list_rbegin h l = do {
     dfk__list_check_invariants h l;
     let rit = \<lparr>rit_value = list_tail l\<rparr>;
     dfk__list_rit_check_invariants h rit;
     Some rit
   }"

definition dfk_list_rend :: "hooks \<Rightarrow> dfk_list_t \<Rightarrow> dfk_list_rit option" where
  "dfk_list_rend h l = do {
     dfk__list_check_invariants h l;
     let rit = \<lparr>rit_value = NULL\<rparr>;
     dfk__list_rit_check_invariants h rit;
     Some rit
   }"

definition dfk_list_rit_from_value ::
  "hooks \<Rightarrow> dfk_list_t \<Rightarrow> addr \<Rightarrow> dfk_list_rit option" where
  "dfk_list_rit_from_value h l v = do {
     dfk__list_check_invariants h l;
     dfk__list_hook_check_invariants h v;
     let rit = \<lparr>rit_value = v\<rparr>;
     dfk__list_rit_check_invariants h rit;
     dfk__list_hook_check_invariants h v;
     dfk__list_check_invariants h l;
     Some rit
   }"

definition dfk_list_rit_next :: "hooks \<Rightarrow> dfk_list_rit \<Rightarrow> dfk_list_rit option" where
  "dfk_list_rit_next h rit = do {
     dfk__list_rit_check_invariants h rit;
     v \<leftarrow> load h (rit_value rit);
     let rit = rit\<lparr>rit_value := hook_prev v\<rparr>;
     dfk__list_rit_check_invariants h rit;
     Some rit
   }"

definition dfk_list_rit_equal :: "hooks \<Rightarrow> dfk_list_rit \<Rightarrow> dfk_list_rit \<Rightarrow> bool option" where
  "dfk_list_rit_equal h lhs rhs = do {
     dfk__list_rit_check_invariants h lhs;
     dfk__list_rit_check_invariants h rhs;
     Some (rit_value lhs = rit_value rhs)
   }"

definition dfk_list_pop_front :: "hooks \<Rightarrow> dfk_list_t \<Rightarrow> (hooks \<times> dfk_list_t) option" where
  "dfk_list_pop_front h l = do {
     dfk__list_check_invariants h l;
     n \<leftarrow> dfk_list_size h l;
     c_assert (n \<noteq> 0);
     begin \<leftarrow> dfk_list_begin h l;
     (h, l) \<leftarrow> dfk_list_erase h l begin;
     dfk__list_check_invariants h l;
     Some (h, l)
   }"

definition dfk_list_pop_back :: "hooks \<Rightarrow> dfk_list_t \<Rightarrow> (hooks \<times> dfk_list_t) option" where
  "dfk_list_pop_back h l = do {
     dfk__list_check_invariants h l;
     n \<leftarrow> dfk_list_size h l;
     c_assert (n \<noteq> 0);
     rbegin \<leftarrow> dfk_list_rbegin h l;
     (h, l) \<leftarrow> dfk_list_rerase h l rbegin;
     dfk__list_check_invariants h l;
     Some (h, l)
   }"

text \<open>Move and swap copy the two list objects; the pair is \<open>(src, dst)\<close> and \<open>(lhs, rhs)\<close>.\<close>

definition dfk_list_move ::
  "hooks \<Rightarrow> dfk_list_t \<Rightarrow> dfk_list_t \<Rightarrow> (dfk_list_t \<times> dfk_list_t) option" where
  "dfk_list_move h src dst = do {
     dfk__list_check_invariants h src;
     dfk__list_check_invariants h dst;
     let dst = src;
     let src = \<lparr>list_head = 0, list_tail = 0, list_size = 0\<rparr>;
     dfk__list_check_invariants h dst;
     dfk__list_check_invariants h src;
     Some (src, dst)
   }"

definition dfk_list_swap ::
  "hooks \<Rightarrow> dfk_list_t \<Rightarrow> dfk_list_t \<Rightarrow> (dfk_list_t \<times> dfk_list_t) option" where
  "dfk_list_swap h lhs rhs = do {
     dfk__list_check_invariants h lhs;
     dfk__list_check_invariants h rhs;
     let copy = lhs;
     let lhs = rhs;
     let rhs = copy;
     dfk__list_check_invariants h lhs;
     dfk__list_check_invariants h rhs;
     Some (lhs, rhs)
   }"

section \<open>Representation\<close>

text \<open>
  \<open>dlseg h p xs n\<close>: the hooks \<open>xs\<close> are linked in both directions, the first one's
  \<^verbatim>\<open>_prev\<close> being \<open>p\<close> and the last one's \<^verbatim>\<open>_next\<close> being \<open>n\<close>.
\<close>

fun dlseg :: "hooks \<Rightarrow> addr \<Rightarrow> addr list \<Rightarrow> addr \<Rightarrow> bool" where
  "dlseg h p [] n \<longleftrightarrow> True"
| "dlseg h p (x # xs) n \<longleftrightarrow>
     x \<noteq> NULL \<and> h x = Some \<lparr>hook_next = hd_or xs n, hook_prev = p\<rparr> \<and> dlseg h x xs n"

definition list_rep :: "hooks \<Rightarrow> dfk_list_t \<Rightarrow> addr list \<Rightarrow> bool" where
  "list_rep h l xs \<longleftrightarrow>
     dlseg h NULL xs NULL \<and> distinct xs \<and>
     l = \<lparr>list_head = hd_or xs NULL, list_tail = last_or xs NULL, list_size = of_nat (length xs)\<rparr>"

text \<open>Writing every field of a struct determines it.\<close>

lemma hook_write_all [simp]:
  "v\<lparr>hook_next := a, hook_prev := b\<rparr> = \<lparr>hook_next = a, hook_prev = b\<rparr>"
  "v\<lparr>hook_prev := b, hook_next := a\<rparr> = \<lparr>hook_next = a, hook_prev = b\<rparr>" for v :: dfk_list_hook_t
  by (cases v; simp)+

lemma list_write_all [simp]:
  "l\<lparr>list_head := a, list_tail := b, list_size := c\<rparr>
     = \<lparr>list_head = a, list_tail = b, list_size = c\<rparr>" for l :: dfk_list_t
  by (cases l) simp

lemma dlseg_append [simp]:
  "dlseg h p (xs @ ys) n \<longleftrightarrow> dlseg h p xs (hd_or ys n) \<and> dlseg h (last_or xs p) ys n"
  by (induction xs arbitrary: p) auto

lemma dlseg_upd [simp]: "a \<notin> set xs \<Longrightarrow> dlseg (h(a \<mapsto> v)) p xs n = dlseg h p xs n"
  by (induction xs arbitrary: p) auto

lemma dlseg_cong: "dlseg h p xs n \<Longrightarrow> \<forall>a \<in> set xs. h' a = h a \<Longrightarrow> dlseg h' p xs n"
  by (induction xs arbitrary: p) auto

lemma dlseg_not_NULL: "dlseg h p xs n \<Longrightarrow> NULL \<notin> set xs"
  by (induction xs arbitrary: p) auto

lemma dlseg_dom: "dlseg h p xs n \<Longrightarrow> set xs \<subseteq> dom h"
  by (induction xs arbitrary: p) auto

lemma dlseg_alloc: "dlseg h p xs n \<Longrightarrow> a \<in> set xs \<Longrightarrow> h a \<noteq> None"
  using dlseg_dom [of h p xs n] by auto

lemma list_rep_Nil: "list_rep h l [] \<longleftrightarrow> l = \<lparr>list_head = NULL, list_tail = NULL, list_size = 0\<rparr>"
  by (auto simp: list_rep_def)

lemma list_rep_not_NULL: "list_rep h l xs \<Longrightarrow> NULL \<notin> set xs"
  by (auto simp: list_rep_def dest: dlseg_not_NULL)

lemma list_rep_dom: "list_rep h l xs \<Longrightarrow> set xs \<subseteq> dom h"
  by (auto simp: list_rep_def dest: dlseg_dom)

lemma list_rep_distinct: "list_rep h l xs \<Longrightarrow> distinct xs"
  by (simp add: list_rep_def)

lemma list_rep_length: "list_rep h l xs \<Longrightarrow> length xs < 2 ^ 64"
  by (rule distinct_addr_bound) (auto dest: list_rep_distinct list_rep_not_NULL)

lemma list_rep_frame: "list_rep h l xs \<Longrightarrow> same_outside S h h' \<Longrightarrow> S \<inter> set xs = {} \<Longrightarrow> list_rep h' l xs"
  unfolding list_rep_def by (auto intro!: dlseg_cong [of h] simp: same_outside_def disjoint_iff)

lemma list_rep_fields:
  assumes "list_rep h l xs"
  shows "list_head l = hd_or xs NULL" "list_tail l = last_or xs NULL"
    "list_size l = of_nat (length xs)"
  using assms by (simp_all add: list_rep_def)

section \<open>The invariant checks pass on represented lists\<close>

text \<open>A chain along one link field, ended by \<^verbatim>\<open>NULL\<close>; \<open>value_at\<close> reads past the end as \<^verbatim>\<open>NULL\<close>.\<close>

fun chain :: "(dfk_list_hook_t \<Rightarrow> addr) \<Rightarrow> hooks \<Rightarrow> addr list \<Rightarrow> bool" where
  "chain field h [] \<longleftrightarrow> True"
| "chain field h (x # xs) \<longleftrightarrow>
     x \<noteq> NULL \<and> (\<exists>v. h x = Some v \<and> field v = hd_or xs NULL) \<and> chain field h xs"

lemma dlseg_chain_next: "dlseg h p xs NULL \<Longrightarrow> chain hook_next h xs"
  by (induction xs arbitrary: p) auto

lemma dlseg_chain_prev: "dlseg h NULL xs n \<Longrightarrow> chain hook_prev h (rev xs)"
proof (induction xs arbitrary: n rule: rev_induct)
  case Nil
  then show ?case by simp
next
  case (snoc x xs)
  then show ?case by auto
qed

lemma chain_nth:
  "chain field h xs \<Longrightarrow> i < length xs \<Longrightarrow>
   xs ! i \<noteq> NULL \<and> (\<exists>v. h (xs ! i) = Some v \<and> field v = value_at xs (Suc i))"
proof (induction xs arbitrary: i)
  case Nil
  then show ?case by simp
next
  case (Cons x xs)
  then show ?case by (cases i) auto
qed

lemma chain_drop: "chain field h xs \<Longrightarrow> chain field h (drop n xs)"
  by (induction xs arbitrary: n) (auto simp: drop_Cons split: nat.splits)

lemma hop_value_at: "chain field h xs \<Longrightarrow> hop field h (value_at xs i) = Some (value_at xs (Suc i))"
  using chain_nth [of field h xs i] by (cases "i < length xs") (auto simp: hop_def value_at_def)

lemma value_at_distinct:
  assumes "chain field h xs" "distinct xs" "i < length xs" "i < j"
  shows "xs ! i \<noteq> value_at xs j"
  using assms chain_nth [of field h xs i] by (auto simp: value_at_def nth_eq_iff_index_eq)

lemma list_check_walk_chain:
  assumes "chain field h xs" "distinct xs" "length xs < 2 ^ 64" "k < length xs" "2 \<le> length xs"
  shows "list_check_walk field h (xs ! (length xs - 1)) (of_nat (length xs)) (xs ! k)
           (value_at xs (2 * k)) (of_nat k)
         = Some (xs ! (length xs - 1), NULL, of_nat (length xs - 1))"
  using assms(4)
proof (induction "length xs - 1 - k" arbitrary: k)
  case 0
  with assms(5) have "k = length xs - 1" "2 * k \<ge> length xs" by auto
  then show ?case
    by (subst list_check_walk.simps) (simp add: value_at_def)
next
  case (Suc m)
  then have k: "Suc k < length xs" by arith
  obtain v where v: "xs ! k \<noteq> NULL" "h (xs ! k) = Some v" "field v = xs ! Suc k"
    using chain_nth [OF assms(1) Suc.prems] k by (auto simp: value_at_def)
  have ne: "xs ! k \<noteq> xs ! (length xs - 1)"
    using assms(2) k by (simp add: nth_eq_iff_index_eq)
  have ne2: "xs ! Suc k \<noteq> value_at xs (Suc (Suc (2 * k)))"
    using value_at_distinct [OF assms(1,2) k] by simp
  have lt: "of_nat k + 1 < (of_nat (length xs) :: size_t)"
    using of_nat_size_less_iff [of "Suc k" "length xs"] k assms(3) by (simp add: add.commute)
  have IH: "list_check_walk field h (xs ! (length xs - 1)) (of_nat (length xs)) (xs ! Suc k)
           (value_at xs (2 * Suc k)) (of_nat (Suc k))
         = Some (xs ! (length xs - 1), NULL, of_nat (length xs - 1))"
    using Suc.hyps k by (intro Suc.hyps(1)) auto
  show ?case
    using v ne ne2 lt IH assms(1)
    by (subst list_check_walk.simps) (simp add: hop_value_at add.commute)
qed

lemma hook_check_walk_chain:
  assumes "chain field h xs" "distinct xs" "k < length xs"
  shows "hook_check_walk field h (xs ! k) (value_at xs (2 * k)) = Some ()"
  using assms(3)
proof (induction "length xs - 1 - k" arbitrary: k)
  case 0
  then have "\<not> Suc k < length xs" by arith
  with chain_nth [OF assms(1) \<open>k < length xs\<close>] show ?case
    by (subst hook_check_walk.simps) (auto simp: value_at_def)
next
  case (Suc m)
  then have k: "Suc k < length xs" by arith
  obtain v where v: "xs ! k \<noteq> NULL" "h (xs ! k) = Some v" "field v = xs ! Suc k"
    using chain_nth [OF assms(1) Suc.prems] k by (auto simp: value_at_def)
  have ne2: "xs ! Suc k \<noteq> value_at xs (Suc (Suc (2 * k)))"
    using value_at_distinct [OF assms(1,2) k] by simp
  have IH: "hook_check_walk field h (xs ! Suc k) (value_at xs (2 * Suc k)) = Some ()"
    using Suc.hyps k by (intro Suc.hyps(1)) auto
  show ?case
    using v ne2 IH assms(1) chain_nth [OF assms(1) k]
    by (subst hook_check_walk.simps) (simp add: hop_value_at)
qed

lemma hook_check_walk_member:
  assumes "chain field h xs" "distinct xs" "x \<in> set xs"
  shows "hook_check_walk field h x x = Some ()"
proof -
  obtain n where n: "n < length xs" "xs ! n = x"
    using assms(3) by (auto simp: in_set_conv_nth)
  then show ?thesis
    using hook_check_walk_chain [of field h "drop n xs" 0] chain_drop [OF assms(1)] assms(2)
    by (auto simp: value_at_def)
qed

lemma list_check_ok [simp]:
  assumes "list_rep h l xs"
  shows "dfk__list_check_invariants h l = Some ()"
proof -
  note rep = assms [unfolded list_rep_def]
  have seg: "dlseg h NULL xs NULL" and dist: "distinct xs" using rep by auto
  have nn: "NULL \<notin> set xs" and len: "length xs < 2 ^ 64"
    using list_rep_not_NULL [OF assms] list_rep_length [OF assms] by auto
  consider "xs = []" | x where "xs = [x]" | "2 \<le> length xs"
    by (cases xs; cases "tl xs") auto
  then show ?thesis
  proof cases
    case 3
    then obtain a b ys where xs: "xs = a # ys @ [b]"
      by (cases xs; cases "tl xs" rule: rev_cases) auto
    have w1: "list_check_walk hook_next h b (of_nat (length xs)) a a 0
        = Some (b, NULL, of_nat (length xs - 1))"
      using list_check_walk_chain [OF dlseg_chain_next [OF seg] dist len, of 0] 3 xs
      by (simp add: value_at_def nth_append)
    have w2: "list_check_walk hook_prev h a (of_nat (length xs)) b b 0
        = Some (a, NULL, of_nat (length xs - 1))"
      using list_check_walk_chain [OF dlseg_chain_prev [OF seg], of 0] dist len 3 xs
      by (auto simp: value_at_def nth_append)
    show ?thesis
      using rep seg nn dist w1 w2 xs
      by (auto simp: dfk__list_check_invariants_def)
  qed (use rep in \<open>auto simp: dfk__list_check_invariants_def\<close>)
qed

lemma hook_check_ok [simp]:
  assumes "list_rep h l xs" "x \<in> set xs"
  shows "dfk__list_hook_check_invariants h x = Some ()"
proof -
  have "dlseg h NULL xs NULL" "distinct xs" using assms(1) by (auto simp: list_rep_def)
  then show ?thesis
    using assms list_rep_not_NULL [OF assms(1)]
      hook_check_walk_member [OF dlseg_chain_next, of h NULL xs x]
      hook_check_walk_member [OF dlseg_chain_prev, of h xs NULL x]
    by (auto simp: dfk__list_hook_check_invariants_def)
qed

lemma it_check_ok [simp]:
  "list_rep h l xs \<Longrightarrow> it_value it \<in> set xs \<union> {NULL} \<Longrightarrow>
   dfk__list_it_check_invariants h it = Some ()"
  by (auto simp: dfk__list_it_check_invariants_def)

lemma rit_check_ok [simp]:
  "list_rep h l xs \<Longrightarrow> rit_value rit \<in> set xs \<union> {NULL} \<Longrightarrow>
   dfk__list_rit_check_invariants h rit = Some ()"
  by (auto simp: dfk__list_rit_check_invariants_def)

section \<open>Functional behaviour of the operations\<close>

lemma list_init_spec: "\<exists>l. dfk_list_init h = Some l \<and> list_rep h l []"
  using list_check_ok [of h "\<lparr>list_head = NULL, list_tail = NULL, list_size = 0\<rparr>" "[]"]
  by (simp add: dfk_list_init_def list_rep_Nil)

lemma list_front_spec: "list_rep h l xs \<Longrightarrow> dfk_list_front h l = Some (hd_or xs NULL)"
  by (simp add: dfk_list_front_def list_rep_fields)

lemma list_back_spec: "list_rep h l xs \<Longrightarrow> dfk_list_back h l = Some (last_or xs NULL)"
  by (simp add: dfk_list_back_def list_rep_fields)

lemma list_size_spec: "list_rep h l xs \<Longrightarrow> dfk_list_size h l = Some (of_nat (length xs))"
  by (simp add: dfk_list_size_def list_rep_fields)

lemma list_empty_spec: "list_rep h l xs \<Longrightarrow> dfk_list_empty h l = Some (xs = [])"
  using list_rep_not_NULL [of h l xs]
  by (simp add: dfk_list_empty_def list_rep_fields hd_or_NULL)

lemma list_append_spec:
  assumes rep: "list_rep h l xs" and hook: "hook \<noteq> NULL" "hook \<in> dom h" "hook \<notin> set xs"
  shows "\<exists>h' l'. dfk_list_append h l hook = Some (h', l') \<and> list_rep h' l' (xs @ [hook])
           \<and> same_outside (insert hook (set xs)) h h'"
proof -
  have nn: "NULL \<notin> set xs" using list_rep_not_NULL [OF rep] .
  obtain v where v: "h hook = Some v" using hook(2) by auto
  define h1 where "h1 = h(hook \<mapsto> \<lparr>hook_next = NULL, hook_prev = last_or xs NULL\<rparr>)"
  define h' where "h' = (if xs = [] then h1 else
    h1(last_or xs NULL \<mapsto> \<lparr>hook_next = hook, hook_prev = last_or (butlast xs) NULL\<rparr>))"
  define l' where "l' = \<lparr>list_head = hd_or xs hook, list_tail = hook,
    list_size = of_nat (length xs) + 1\<rparr>"
  have rep': "list_rep h' l' (xs @ [hook])"
    using rep hook unfolding list_rep_def h'_def h1_def l'_def
    by (cases xs rule: rev_cases) auto
  have out: "same_outside (insert hook (set xs)) h h'"
    using hook list_rep_dom [OF rep] unfolding h'_def h1_def
    by (cases xs rule: rev_cases) auto
  have "dfk_list_append h l hook = Some (h', l')"
    using rep hook v nn rep' list_check_ok [OF rep] list_check_ok [OF rep']
      hook_check_ok [OF rep', of hook]
    unfolding dfk_list_append_def h'_def h1_def l'_def list_rep_fields [OF rep]
    by (cases xs rule: rev_cases) (auto simp: list_rep_def)
  with rep' out show ?thesis by blast
qed

lemma list_prepend_spec:
  assumes rep: "list_rep h l xs" and hook: "hook \<noteq> NULL" "hook \<in> dom h" "hook \<notin> set xs"
  shows "\<exists>h' l'. dfk_list_prepend h l hook = Some (h', l') \<and> list_rep h' l' (hook # xs)
           \<and> same_outside (insert hook (set xs)) h h'"
proof -
  have nn: "NULL \<notin> set xs" using list_rep_not_NULL [OF rep] .
  obtain v where v: "h hook = Some v" using hook(2) by auto
  define h1 where "h1 = h(hook \<mapsto> \<lparr>hook_next = hd_or xs NULL, hook_prev = NULL\<rparr>)"
  define h' where "h' = (if xs = [] then h1 else
    h1(hd_or xs NULL \<mapsto> \<lparr>hook_next = hd_or (tl xs) NULL, hook_prev = hook\<rparr>))"
  define l' where "l' = \<lparr>list_head = hook, list_tail = last_or xs hook,
    list_size = of_nat (length xs) + 1\<rparr>"
  have rep': "list_rep h' l' (hook # xs)"
    using rep hook unfolding list_rep_def h'_def h1_def l'_def
    by (cases xs) auto
  have out: "same_outside (insert hook (set xs)) h h'"
    using hook list_rep_dom [OF rep] unfolding h'_def h1_def
    by (cases xs) auto
  have "dfk_list_prepend h l hook = Some (h', l')"
    using rep hook v nn rep' list_check_ok [OF rep] list_check_ok [OF rep']
      hook_check_ok [OF rep', of hook]
    unfolding dfk_list_prepend_def h'_def h1_def l'_def list_rep_fields [OF rep]
    by (cases xs) (auto simp: list_rep_def)
  with rep' out show ?thesis by blast
qed

text \<open>
  Insertion before an iterator position: the iterator at index \<open>i\<close> holds the \<open>i\<close>-th hook,
  the end iterator holds \<^verbatim>\<open>NULL\<close> and stands for the position after the last one.
\<close>

lemma list_insert_spec:
  assumes rep: "list_rep h l (xs @ ys)"
    and hook: "hook \<noteq> NULL" "hook \<in> dom h" "hook \<notin> set (xs @ ys)"
    and pos: "it_value pos = hd_or ys NULL"
  shows "\<exists>h' l'. dfk_list_insert h l hook pos = Some (h', l') \<and> list_rep h' l' (xs @ hook # ys)
           \<and> same_outside (insert hook (set (xs @ ys))) h h'"
proof -
  have nn: "NULL \<notin> set xs" "NULL \<notin> set ys" using list_rep_not_NULL [OF rep] by auto
  obtain v where v: "h hook = Some v" using hook(2) by auto
  define h1 where "h1 = (if ys = [] then h else
    h(hd_or ys NULL \<mapsto> \<lparr>hook_next = hd_or (tl ys) NULL, hook_prev = hook\<rparr>))"
  define h2 where "h2 = (if xs = [] then h1 else
    h1(last_or xs NULL \<mapsto> \<lparr>hook_next = hook, hook_prev = last_or (butlast xs) NULL\<rparr>))"
  define h' where "h' = h2(hook \<mapsto> \<lparr>hook_next = hd_or ys NULL, hook_prev = last_or xs NULL\<rparr>)"
  define l' where "l' = \<lparr>list_head = hd_or (xs @ [hook]) NULL, list_tail = last_or (hook # ys) NULL,
     list_size = of_nat (length (xs @ ys)) + 1\<rparr>"
  have rep': "list_rep h' l' (xs @ hook # ys)"
    using rep hook unfolding list_rep_def h'_def h2_def h1_def l'_def
    by (cases ys; cases xs rule: rev_cases) (auto simp: add.commute)
  have out: "same_outside (insert hook (set (xs @ ys))) h h'"
    using hook list_rep_dom [OF rep] unfolding h'_def h2_def h1_def
    by (cases ys; cases xs rule: rev_cases) auto
  have "dfk_list_insert h l hook pos = Some (h', l')"
    using rep hook v pos nn rep' it_check_ok [OF rep, of pos] it_check_ok [OF rep', of pos]
      list_check_ok [OF rep] list_check_ok [OF rep'] hook_check_ok [OF rep', of hook]
    unfolding dfk_list_insert_def h'_def h2_def h1_def l'_def list_rep_fields [OF rep]
    by (cases ys; cases xs rule: rev_cases) (auto simp: list_rep_def)
  with rep' out show ?thesis by blast
qed

lemma list_rinsert_spec:
  assumes rep: "list_rep h l (xs @ ys)"
    and hook: "hook \<noteq> NULL" "hook \<in> dom h" "hook \<notin> set (xs @ ys)"
    and pos: "rit_value pos = last_or xs NULL"
  shows "\<exists>h' l'. dfk_list_rinsert h l hook pos = Some (h', l') \<and> list_rep h' l' (xs @ hook # ys)
           \<and> same_outside (insert hook (set (xs @ ys))) h h'"
proof -
  have nn: "NULL \<notin> set xs" "NULL \<notin> set ys" using list_rep_not_NULL [OF rep] by auto
  obtain v where v: "h hook = Some v" using hook(2) by auto
  define h1 where "h1 = (if xs = [] then h else
    h(last_or xs NULL \<mapsto> \<lparr>hook_next = hook, hook_prev = last_or (butlast xs) NULL\<rparr>))"
  define h2 where "h2 = (if ys = [] then h1 else
    h1(hd_or ys NULL \<mapsto> \<lparr>hook_next = hd_or (tl ys) NULL, hook_prev = hook\<rparr>))"
  define h' where "h' = h2(hook \<mapsto> \<lparr>hook_next = hd_or ys NULL, hook_prev = last_or xs NULL\<rparr>)"
  define l' where "l' = \<lparr>list_head = hd_or (xs @ [hook]) NULL, list_tail = last_or (hook # ys) NULL,
     list_size = of_nat (length (xs @ ys)) + 1\<rparr>"
  have rep': "list_rep h' l' (xs @ hook # ys)"
    using rep hook unfolding list_rep_def h'_def h2_def h1_def l'_def
    by (cases ys; cases xs rule: rev_cases) (auto simp: add.commute)
  have out: "same_outside (insert hook (set (xs @ ys))) h h'"
    using hook list_rep_dom [OF rep] unfolding h'_def h2_def h1_def
    by (cases ys; cases xs rule: rev_cases) auto
  have "dfk_list_rinsert h l hook pos = Some (h', l')"
    using rep hook v pos nn rep' rit_check_ok [OF rep, of pos] rit_check_ok [OF rep', of pos]
      list_check_ok [OF rep] list_check_ok [OF rep'] hook_check_ok [OF rep', of hook]
    unfolding dfk_list_rinsert_def h'_def h2_def h1_def l'_def list_rep_fields [OF rep]
    by (cases ys; cases xs rule: rev_cases) (auto simp: list_rep_def)
  with rep' out show ?thesis by blast
qed

lemma list_clear_spec: "list_rep h l xs \<Longrightarrow> \<exists>l'. dfk_list_clear h l = Some l' \<and> list_rep h l' []"
  using list_check_ok [of h "\<lparr>list_head = NULL, list_tail = NULL, list_size = 0\<rparr>" "[]"]
  by (auto simp: dfk_list_clear_def list_rep_Nil)

lemma list_erase_spec:
  assumes rep: "list_rep h l (xs @ x # ys)" and it: "it_value it = x"
  shows "\<exists>h' l'. dfk_list_erase h l it = Some (h', l') \<and> list_rep h' l' (xs @ ys)
           \<and> same_outside (set (xs @ ys)) h h'"
proof -
  have nn: "NULL \<notin> set (xs @ x # ys)" using list_rep_not_NULL [OF rep] .
  have sz: "of_nat (length (xs @ x # ys)) \<noteq> (0 :: size_t)"
    using of_nat_size_eq_iff [of "length (xs @ x # ys)" 0] list_rep_length [OF rep] by simp
  define h1 where "h1 = (if xs = [] then h else
    h(last_or xs NULL \<mapsto> \<lparr>hook_next = hd_or ys NULL, hook_prev = last_or (butlast xs) NULL\<rparr>))"
  define h' where "h' = (if ys = [] then h1 else
    h1(hd_or ys NULL \<mapsto> \<lparr>hook_next = hd_or (tl ys) NULL, hook_prev = last_or xs NULL\<rparr>))"
  define l' where "l' = \<lparr>list_head = hd_or (xs @ ys) NULL, list_tail = last_or (xs @ ys) NULL,
     list_size = of_nat (length (xs @ x # ys)) - 1\<rparr>"
  have rep': "list_rep h' l' (xs @ ys)"
    using rep unfolding list_rep_def h'_def h1_def l'_def
    by (cases ys; cases xs rule: rev_cases) auto
  have out: "same_outside (set (xs @ ys)) h h'"
    using list_rep_dom [OF rep] unfolding h'_def h1_def
    by (cases ys; cases xs rule: rev_cases) auto
  have ends: "hd_or xs x = x \<longleftrightarrow> xs = []" "last_or ys x = x \<longleftrightarrow> ys = []"
    "hd_or xs x = last_or ys x \<longleftrightarrow> xs = [] \<and> ys = []"
    using list_rep_distinct [OF rep] hd_or_eq_last_or [OF list_rep_distinct [OF rep] nn] by auto
  have "dfk_list_erase h l it = Some (h', l')"
    using rep it nn sz ends rep' it_check_ok [OF rep, of it]
      list_check_ok [OF rep] list_check_ok [OF rep'] list_size_spec [OF rep]
    unfolding dfk_list_erase_def h'_def h1_def l'_def list_rep_fields [OF rep]
    by (cases ys; cases xs rule: rev_cases) (auto simp: list_rep_def)
  with rep' out show ?thesis by blast
qed

lemma list_rerase_spec:
  assumes rep: "list_rep h l (xs @ x # ys)" and rit: "rit_value rit = x"
  shows "\<exists>h' l'. dfk_list_rerase h l rit = Some (h', l') \<and> list_rep h' l' (xs @ ys)
           \<and> same_outside (set (xs @ ys)) h h'"
  using list_erase_spec [OF rep, of "\<lparr>it_value = x\<rparr>"] rep rit
    list_check_ok [OF rep] rit_check_ok [OF rep, of rit]
  by (auto simp: dfk_list_rerase_def)

section \<open>Iterators, both ends, move and swap\<close>

lemma list_begin_spec: "list_rep h l xs \<Longrightarrow> dfk_list_begin h l = Some \<lparr>it_value = hd_or xs NULL\<rparr>"
  by (cases xs) (auto simp: dfk_list_begin_def list_rep_fields)

lemma list_rbegin_spec: "list_rep h l xs \<Longrightarrow> dfk_list_rbegin h l = Some \<lparr>rit_value = last_or xs NULL\<rparr>"
  by (cases xs rule: rev_cases) (auto simp: dfk_list_rbegin_def list_rep_fields)

lemma list_end_spec: "list_rep h l xs \<Longrightarrow> dfk_list_end h l = Some \<lparr>it_value = NULL\<rparr>"
  by (auto simp: dfk_list_end_def)

lemma list_rend_spec: "list_rep h l xs \<Longrightarrow> dfk_list_rend h l = Some \<lparr>rit_value = NULL\<rparr>"
  by (auto simp: dfk_list_rend_def)

lemma list_it_next_spec:
  assumes rep: "list_rep h l (xs @ x # ys)" and it: "it_value it = x"
  shows "dfk_list_it_next h it = Some \<lparr>it_value = hd_or ys NULL\<rparr>"
proof -
  have "h x = Some \<lparr>hook_next = hd_or ys NULL, hook_prev = last_or xs NULL\<rparr>" "x \<noteq> NULL"
    using rep by (auto simp: list_rep_def)
  moreover have "hd_or ys NULL \<in> set (xs @ x # ys) \<union> {NULL}"
    by (cases ys) auto
  ultimately show ?thesis
    using it it_check_ok [OF rep, of it] it_check_ok [OF rep, of "\<lparr>it_value = hd_or ys NULL\<rparr>"]
    by (cases it) (auto simp: dfk_list_it_next_def)
qed

lemma list_rit_next_spec:
  assumes rep: "list_rep h l (xs @ x # ys)" and rit: "rit_value rit = x"
  shows "dfk_list_rit_next h rit = Some \<lparr>rit_value = last_or xs NULL\<rparr>"
proof -
  have "h x = Some \<lparr>hook_next = hd_or ys NULL, hook_prev = last_or xs NULL\<rparr>" "x \<noteq> NULL"
    using rep by (auto simp: list_rep_def)
  moreover have "last_or xs NULL \<in> set (xs @ x # ys) \<union> {NULL}"
    by (cases xs rule: rev_cases) auto
  ultimately show ?thesis
    using rit rit_check_ok [OF rep, of rit] rit_check_ok [OF rep, of "\<lparr>rit_value = last_or xs NULL\<rparr>"]
    by (cases rit) (auto simp: dfk_list_rit_next_def)
qed

lemma list_it_equal_spec:
  "list_rep h l xs \<Longrightarrow> it_value a \<in> set xs \<union> {NULL} \<Longrightarrow> it_value b \<in> set xs \<union> {NULL} \<Longrightarrow>
   dfk_list_it_equal h a b = Some (it_value a = it_value b)"
  by (simp add: dfk_list_it_equal_def)

lemma list_rit_equal_spec:
  "list_rep h l xs \<Longrightarrow> rit_value a \<in> set xs \<union> {NULL} \<Longrightarrow> rit_value b \<in> set xs \<union> {NULL} \<Longrightarrow>
   dfk_list_rit_equal h a b = Some (rit_value a = rit_value b)"
  by (simp add: dfk_list_rit_equal_def)

lemma list_it_from_value_spec:
  "list_rep h l xs \<Longrightarrow> x \<in> set xs \<Longrightarrow> dfk_list_it_from_value h l x = Some \<lparr>it_value = x\<rparr>"
  by (simp add: dfk_list_it_from_value_def)

lemma list_rit_from_value_spec:
  "list_rep h l xs \<Longrightarrow> x \<in> set xs \<Longrightarrow> dfk_list_rit_from_value h l x = Some \<lparr>rit_value = x\<rparr>"
  by (simp add: dfk_list_rit_from_value_def)

lemma list_size_nonzero: "list_rep h l xs \<Longrightarrow> xs \<noteq> [] \<Longrightarrow> of_nat (length xs) \<noteq> (0 :: size_t)"
  using of_nat_size_eq_iff [of "length xs" 0] list_rep_length [of h l xs] by simp

lemma list_pop_front_spec:
  assumes rep: "list_rep h l (x # xs)"
  shows "\<exists>h' l'. dfk_list_pop_front h l = Some (h', l') \<and> list_rep h' l' xs
           \<and> same_outside (set xs) h h'"
  using list_erase_spec [of h l "[]" x xs "\<lparr>it_value = x\<rparr>"] rep list_size_spec [OF rep]
    list_begin_spec [OF rep] list_size_nonzero [OF rep]
  by (auto simp: dfk_list_pop_front_def)

lemma list_pop_back_spec:
  assumes rep: "list_rep h l (xs @ [x])"
  shows "\<exists>h' l'. dfk_list_pop_back h l = Some (h', l') \<and> list_rep h' l' xs
           \<and> same_outside (set xs) h h'"
  using list_rerase_spec [of h l xs x "[]" "\<lparr>rit_value = x\<rparr>"] rep list_size_spec [OF rep]
    list_rbegin_spec [OF rep] list_size_nonzero [OF rep]
  by (auto simp: dfk_list_pop_back_def)

lemma list_pop_front_empty: "list_rep h l [] \<Longrightarrow> dfk_list_pop_front h l = None"
  by (simp add: dfk_list_pop_front_def list_size_spec)

lemma list_move_spec:
  assumes "list_rep h src xs" "list_rep h dst ys"
  shows "\<exists>src' dst'. dfk_list_move h src dst = Some (src', dst')
           \<and> list_rep h src' [] \<and> list_rep h dst' xs"
  using assms list_check_ok [of h "\<lparr>list_head = NULL, list_tail = NULL, list_size = 0\<rparr>" "[]"]
  by (auto simp: dfk_list_move_def list_rep_Nil)

lemma list_swap_spec:
  "list_rep h lhs xs \<Longrightarrow> list_rep h rhs ys \<Longrightarrow> dfk_list_swap h lhs rhs = Some (rhs, lhs)"
  by (simp add: dfk_list_swap_def)

section \<open>The list satisfies the contract\<close>

definition dlist_impl :: "(hooks, dfk_list_t, dfk_list_it) deque_impl" where
  "dlist_impl = \<lparr>
     d_init = dfk_list_init, d_append = dfk_list_append, d_prepend = dfk_list_prepend,
     d_pop_front = dfk_list_pop_front, d_pop_back = dfk_list_pop_back,
     d_front = dfk_list_front, d_back = dfk_list_back, d_size = dfk_list_size,
     d_empty = dfk_list_empty, d_begin = dfk_list_begin, d_it_next = dfk_list_it_next,
     d_it_value = it_value, d_insert = dfk_list_insert, d_erase = dfk_list_erase\<rparr>"

interpretation dlist: deque dlist_impl list_rep
  "\<lambda>h xs i it. it_value it = value_at xs i" "\<lambda>h a. a \<in> dom h"
proof (unfold_locales, goal_cases)
  case (1 h)
  then show ?case using list_init_spec by (simp add: dlist_impl_def)
next
  case (2 h l xs a)
  then show ?case using list_append_spec [of h l xs a]
    by (force simp: dlist_impl_def dest: same_outside_dom)
next
  case (3 h l xs a)
  then show ?case using list_prepend_spec [of h l xs a]
    by (force simp: dlist_impl_def dest: same_outside_dom)
next
  case (4 h l xs)
  then show ?case using list_pop_front_spec [of h l "hd xs" "tl xs"]
    by (force simp: dlist_impl_def dest: same_outside_dom)
next
  case (5 h l xs)
  then show ?case using list_pop_back_spec [of h l "butlast xs" "last xs"]
    by (force simp: dlist_impl_def dest: same_outside_dom)
next
  case (10 h l xs)
  then show ?case by (simp add: dlist_impl_def list_begin_spec value_at_hd_or)
next
  case (11 h l xs i it)
  then show ?case
    using list_it_next_spec [of h l "take i xs" "xs ! i" "drop (Suc i) xs" it] split_nth [of i xs]
    by (simp add: dlist_impl_def value_at_hd_or [of xs "Suc i"] value_at_def [of xs i])
next
  case (13 h l xs i it a)
  then show ?case
    using list_insert_spec [of h l "take i xs" "drop i xs" a it]
    by (force simp: dlist_impl_def value_at_hd_or dest: same_outside_dom)
next
  case (14 h l xs i it)
  then show ?case
    using list_erase_spec [of h l "take i xs" "xs ! i" "drop (Suc i) xs" it] split_nth [of i xs]
    by (force simp: dlist_impl_def value_at_def dest: same_outside_dom)
qed (simp_all add: dlist_impl_def list_front_spec list_back_spec list_size_spec list_empty_spec)

section \<open>Properties\<close>

text \<open>Three allocated hooks with arbitrary link values, for concrete runs.\<close>

abbreviation three_hooks :: hooks where
  "three_hooks \<equiv> [8 \<mapsto> \<lparr>hook_next = 5, hook_prev = 9\<rparr>, 16 \<mapsto> \<lparr>hook_next = 5, hook_prev = 9\<rparr>,
                  24 \<mapsto> \<lparr>hook_next = 0, hook_prev = 0\<rparr>]"

abbreviation empty_list :: dfk_list_t where
  "empty_list \<equiv> \<lparr>list_head = NULL, list_tail = NULL, list_size = 0\<rparr>"

text \<open>
  C6. Refinement of the doubly-linked list: on a well-formed list every sequence of
  append, prepend, insert, erase, pop and query operations that respects the client
  rules runs without a failed assertion or an invalid memory access, and returns exactly
  what the same sequence returns on a plain list of hook addresses.
\<close>

theorem list_run_refines:
  assumes "list_rep h l xs" "ops_ok (\<lambda>a. a \<in> dom h) xs ops"
  shows "deque_run dlist_impl h l ops = Some (spec_run xs ops)"
  using assms by (rule dlist.run_law)

theorem list_run_refines_witness:
  "deque_run dlist_impl three_hooks empty_list
     [Append 8, Prepend 16, Insert_at 1 24, Value_at 1, Erase_at 2, Back, Size, Pop_front, Front]
   = Some [Unit, Unit, Unit, Addr 24, Unit, Addr 24, Count 2, Unit, Addr 24]"
  using list_run_refines [of three_hooks empty_list "[]"
     "[Append 8, Prepend 16, Insert_at 1 24, Value_at 1, Erase_at 2, Back, Size, Pop_front, Front]"]
  by (simp add: list_rep_Nil value_at_def)

text \<open>
  Separation of lists: in a memory that holds two disjoint lists, inserting a hook of
  neither into the first and erasing an element of the first leave the second list as it
  was. The scheduler, mutexes and condition variables keep their fibers in such lists.
\<close>

theorem list_ops_separate:
  assumes "list_rep h l (xs @ x # ys)" "list_rep h m zs" "set (xs @ x # ys) \<inter> set zs = {}"
    and "hook \<noteq> NULL" "hook \<in> dom h" "hook \<notin> set (xs @ x # ys) \<union> set zs"
  shows "\<exists>h1 l1 h2 l2. dfk_list_erase h l \<lparr>it_value = x\<rparr> = Some (h1, l1)
      \<and> list_rep h1 l1 (xs @ ys) \<and> list_rep h1 m zs
      \<and> dfk_list_insert h l hook \<lparr>it_value = x\<rparr> = Some (h2, l2)
      \<and> list_rep h2 l2 (xs @ hook # x # ys) \<and> list_rep h2 m zs"
proof -
  obtain h1 l1 where e: "dfk_list_erase h l \<lparr>it_value = x\<rparr> = Some (h1, l1)"
    "list_rep h1 l1 (xs @ ys)" "same_outside (set (xs @ ys)) h h1"
    using list_erase_spec [OF assms(1), of "\<lparr>it_value = x\<rparr>"] by auto
  obtain h2 l2 where i: "dfk_list_insert h l hook \<lparr>it_value = x\<rparr> = Some (h2, l2)"
    "list_rep h2 l2 (xs @ hook # x # ys)" "same_outside (insert hook (set (xs @ x # ys))) h h2"
    using list_insert_spec [OF assms(1) assms(4,5), of "\<lparr>it_value = x\<rparr>"] assms(6) by auto
  have "list_rep h1 m zs" "list_rep h2 m zs"
    using list_rep_frame [OF assms(2) e(3)] list_rep_frame [OF assms(2) i(3)] assms(3,6) by auto
  with e i show ?thesis by blast
qed

abbreviation two_lists :: hooks where
  "two_lists \<equiv> [8 \<mapsto> \<lparr>hook_next = 16, hook_prev = 0\<rparr>, 16 \<mapsto> \<lparr>hook_next = 0, hook_prev = 8\<rparr>,
                24 \<mapsto> \<lparr>hook_next = 0, hook_prev = 0\<rparr>, 32 \<mapsto> \<lparr>hook_next = 3, hook_prev = 3\<rparr>]"

theorem list_ops_separate_witness:
  "\<exists>h1 l1 h2 l2.
     dfk_list_erase two_lists \<lparr>list_head = 8, list_tail = 16, list_size = 2\<rparr> \<lparr>it_value = 16\<rparr>
       = Some (h1, l1)
     \<and> list_rep h1 l1 [8] \<and> list_rep h1 \<lparr>list_head = 24, list_tail = 24, list_size = 1\<rparr> [24]
     \<and> dfk_list_insert two_lists \<lparr>list_head = 8, list_tail = 16, list_size = 2\<rparr> 32 \<lparr>it_value = 16\<rparr>
       = Some (h2, l2)
     \<and> list_rep h2 l2 [8, 32, 16]
     \<and> list_rep h2 \<lparr>list_head = 24, list_tail = 24, list_size = 1\<rparr> [24]"
  using list_ops_separate [of two_lists "\<lparr>list_head = 8, list_tail = 16, list_size = 2\<rparr>" "[8]" 16 "[]"
     "\<lparr>list_head = 24, list_tail = 24, list_size = 1\<rparr>" "[24]" 32]
  by (simp add: list_rep_def)

end
