(* ===== verification/Dfk_List_Xor.thy ===== *)
theory Dfk_List_Xor
  imports Dfk_List_Spec
begin

text \<open>
  The intrusive list of \<^verbatim>\<open>src/list.c\<close> built with \<^verbatim>\<open>DFK_LIST_MEMORY_OPTIMIZED\<close>: a
  hook holds one pointer \<^verbatim>\<open>_p\<close>, the XOR of the addresses of its two neighbours
  (\<^verbatim>\<open>NULL\<close> where there is none), and an iterator carries the address of the previous
  hook. The names carry the suffix \<^verbatim>\<open>_x\<close>; list objects and code lines are those of the
  default configuration.
\<close>

section \<open>Data\<close>

record xlist_hook_t =
  hook_p :: addr

record xlist_t =
  xlist_head :: addr
  xlist_tail :: addr
  xlist_size :: size_t

record xlist_it =
  xit_prev :: addr
  xit_value :: addr

record xlist_rit =
  xrit_prev :: addr
  xrit_value :: addr

type_synonym xhooks = "xlist_hook_t mem"

definition ptr_xor :: "addr \<Rightarrow> addr \<Rightarrow> addr" where
  "ptr_xor x y = x XOR y"

definition ptr_xor3 :: "addr \<Rightarrow> addr \<Rightarrow> addr \<Rightarrow> addr" where
  "ptr_xor3 x y z = x XOR y XOR z"

section \<open>Run-time invariant checks\<close>

text \<open>The fast pointer with its predecessor: \<^verbatim>\<open>if (j) { nextpj = j; j = pj ^ j->_p; pj = nextpj; }\<close>.\<close>

definition xhop :: "xhooks \<Rightarrow> addr \<times> addr \<Rightarrow> (addr \<times> addr) option" where
  "xhop h pj_j = (case pj_j of (pj, j) \<Rightarrow>
     if j = NULL then Some (pj, j) else do { v \<leftarrow> load h j; Some (j, ptr_xor pj (hook_p v)) })"

partial_function (option) xlist_check_walk ::
  "xhooks \<Rightarrow> addr \<Rightarrow> size_t \<Rightarrow> addr \<times> addr \<Rightarrow> addr \<times> addr \<Rightarrow> size_t
    \<Rightarrow> (addr \<times> addr \<times> size_t) option" where
  "xlist_check_walk h stop sz pi_i pj_j nhops =
     (if snd pi_i \<noteq> stop then do {
        c_assert (snd pi_i \<noteq> NULL);
        vi \<leftarrow> load h (snd pi_i);
        let i' = ptr_xor (fst pi_i) (hook_p vi);
        pj_j \<leftarrow> xhop h pj_j;
        pj_j \<leftarrow> xhop h pj_j;
        c_assert (i' \<noteq> snd pj_j);
        c_assert (nhops + 1 < sz);
        xlist_check_walk h stop sz (snd pi_i, i') pj_j (nhops + 1)
      } else Some (snd pi_i, snd pj_j, nhops))"

definition dfk__list_check_invariants_x :: "xhooks \<Rightarrow> xlist_t \<Rightarrow> unit option" where
  "dfk__list_check_invariants_x h l =
     (if xlist_head l = NULL \<or> xlist_tail l = NULL then do {
        c_assert (xlist_head l = NULL);
        c_assert (xlist_tail l = NULL);
        c_assert (xlist_size l = 0)
      } else if xlist_head l = xlist_tail l then do {
        v \<leftarrow> load h (xlist_head l);
        c_assert (hook_p v = NULL);
        c_assert (xlist_size l = 1)
      } else do {
        (i, j, nhops) \<leftarrow> xlist_check_walk h (xlist_tail l) (xlist_size l)
           (NULL, xlist_head l) (NULL, xlist_head l) 0;
        c_assert (i = xlist_tail l);
        c_assert (j = NULL);
        c_assert (nhops + 1 = xlist_size l);
        (i, j, nhops) \<leftarrow> xlist_check_walk h (xlist_head l) (xlist_size l)
           (NULL, xlist_tail l) (NULL, xlist_tail l) 0;
        c_assert (i = xlist_head l);
        c_assert (j = NULL);
        c_assert (nhops + 1 = xlist_size l)
      })"

text \<open>In this configuration the hook and iterator checks only test the pointers.\<close>

definition dfk__list_hook_check_invariants_x :: "addr \<Rightarrow> unit option" where
  "dfk__list_hook_check_invariants_x hook = c_assert (hook \<noteq> NULL)"

definition dfk__list_it_check_invariants_x :: "xlist_it \<Rightarrow> unit option" where
  "dfk__list_it_check_invariants_x it =
     (if xit_value it \<noteq> NULL then dfk__list_hook_check_invariants_x (xit_value it) else Some ())"

definition dfk__list_rit_check_invariants_x :: "xlist_rit \<Rightarrow> unit option" where
  "dfk__list_rit_check_invariants_x rit =
     (if xrit_value rit \<noteq> NULL then dfk__list_hook_check_invariants_x (xrit_value rit) else Some ())"

section \<open>Operations\<close>

definition dfk_list_init_x :: "xhooks \<Rightarrow> xlist_t option" where
  "dfk_list_init_x h = do {
     let l = \<lparr>xlist_head = NULL, xlist_tail = NULL, xlist_size = 0\<rparr>;
     dfk__list_check_invariants_x h l;
     Some l
   }"

definition dfk_list_hook_init_x :: "xhooks \<Rightarrow> addr \<Rightarrow> xhooks option" where
  "dfk_list_hook_init_x h hook = do {
     c_assert (hook \<noteq> NULL);
     h \<leftarrow> modify h hook (hook_p_update (\<lambda>_. NULL));
     dfk__list_hook_check_invariants_x hook;
     Some h
   }"

definition dfk_list_front_x :: "xhooks \<Rightarrow> xlist_t \<Rightarrow> addr option" where
  "dfk_list_front_x h l = do { dfk__list_check_invariants_x h l; Some (xlist_head l) }"

definition dfk_list_back_x :: "xhooks \<Rightarrow> xlist_t \<Rightarrow> addr option" where
  "dfk_list_back_x h l = do { dfk__list_check_invariants_x h l; Some (xlist_tail l) }"

definition dfk_list_append_x :: "xhooks \<Rightarrow> xlist_t \<Rightarrow> addr \<Rightarrow> (xhooks \<times> xlist_t) option" where
  "dfk_list_append_x h l hook = do {
     dfk__list_check_invariants_x h l;
     c_assert (hook \<noteq> NULL);
     h \<leftarrow> modify h hook (hook_p_update (\<lambda>_. xlist_tail l));
     h \<leftarrow> (if xlist_tail l \<noteq> NULL
          then modify h (xlist_tail l) (hook_p_update (\<lambda>p. ptr_xor p hook)) else Some h);
     let l = (if xlist_head l = NULL then l\<lparr>xlist_head := hook\<rparr> else l);
     let l = l\<lparr>xlist_tail := hook\<rparr>;
     let l = l\<lparr>xlist_size := xlist_size l + 1\<rparr>;
     dfk__list_check_invariants_x h l;
     dfk__list_hook_check_invariants_x hook;
     Some (h, l)
   }"

definition dfk_list_prepend_x :: "xhooks \<Rightarrow> xlist_t \<Rightarrow> addr \<Rightarrow> (xhooks \<times> xlist_t) option" where
  "dfk_list_prepend_x h l hook = do {
     dfk__list_check_invariants_x h l;
     c_assert (hook \<noteq> NULL);
     h \<leftarrow> modify h hook (hook_p_update (\<lambda>_. xlist_head l));
     h \<leftarrow> (if xlist_head l \<noteq> NULL
          then modify h (xlist_head l) (hook_p_update (\<lambda>p. ptr_xor p hook)) else Some h);
     let l = l\<lparr>xlist_head := hook\<rparr>;
     let l = (if xlist_tail l = NULL then l\<lparr>xlist_tail := hook\<rparr> else l);
     let l = l\<lparr>xlist_size := xlist_size l + 1\<rparr>;
     dfk__list_check_invariants_x h l;
     dfk__list_hook_check_invariants_x hook;
     Some (h, l)
   }"

definition dfk_list_insert_x ::
  "xhooks \<Rightarrow> xlist_t \<Rightarrow> addr \<Rightarrow> xlist_it \<Rightarrow> (xhooks \<times> xlist_t) option" where
  "dfk_list_insert_x h l hook position = do {
     dfk__list_check_invariants_x h l;
     c_assert (hook \<noteq> NULL);
     dfk__list_it_check_invariants_x position;
     (h, before) \<leftarrow>
       (if xit_value position \<noteq> NULL then do {
          let before = xit_prev position;
          h \<leftarrow> modify h (xit_value position) (hook_p_update (\<lambda>p. ptr_xor3 p before hook));
          Some (h, before)
        } else Some (h, if xlist_tail l \<noteq> NULL then xlist_tail l else NULL));
     h \<leftarrow> (if before \<noteq> NULL
          then modify h before (hook_p_update (\<lambda>p. ptr_xor3 p hook (xit_value position)))
          else Some h);
     h \<leftarrow> modify h hook (hook_p_update (\<lambda>_. ptr_xor before (xit_value position)));
     let l = (if before = NULL then l\<lparr>xlist_head := hook\<rparr> else l);
     let l = (if xit_value position = NULL then l\<lparr>xlist_tail := hook\<rparr> else l);
     let l = l\<lparr>xlist_size := xlist_size l + 1\<rparr>;
     dfk__list_check_invariants_x h l;
     dfk__list_hook_check_invariants_x hook;
     dfk__list_it_check_invariants_x position;
     Some (h, l)
   }"

definition dfk_list_rinsert_x ::
  "xhooks \<Rightarrow> xlist_t \<Rightarrow> addr \<Rightarrow> xlist_rit \<Rightarrow> (xhooks \<times> xlist_t) option" where
  "dfk_list_rinsert_x h l hook position = do {
     dfk__list_check_invariants_x h l;
     c_assert (hook \<noteq> NULL);
     dfk__list_rit_check_invariants_x position;
     (h, before) \<leftarrow>
       (if xrit_value position \<noteq> NULL then do {
          let before = xrit_prev position;
          h \<leftarrow> modify h (xrit_value position) (hook_p_update (\<lambda>p. ptr_xor3 p before hook));
          Some (h, before)
        } else Some (h, if xlist_tail l \<noteq> NULL then xlist_head l else NULL));
     h \<leftarrow> (if before \<noteq> NULL
          then modify h before (hook_p_update (\<lambda>p. ptr_xor3 p hook (xrit_value position)))
          else Some h);
     h \<leftarrow> modify h hook (hook_p_update (\<lambda>_. ptr_xor before (xrit_value position)));
     let l = (if xrit_value position = NULL then l\<lparr>xlist_head := hook\<rparr> else l);
     let l = (if before = NULL then l\<lparr>xlist_tail := hook\<rparr> else l);
     let l = l\<lparr>xlist_size := xlist_size l + 1\<rparr>;
     dfk__list_check_invariants_x h l;
     dfk__list_hook_check_invariants_x hook;
     dfk__list_rit_check_invariants_x position;
     Some (h, l)
   }"

definition dfk_list_clear_x :: "xhooks \<Rightarrow> xlist_t \<Rightarrow> xlist_t option" where
  "dfk_list_clear_x h l = do {
     dfk__list_check_invariants_x h l;
     let l = l\<lparr>xlist_head := NULL, xlist_tail := NULL\<rparr>;
     let l = l\<lparr>xlist_size := 0\<rparr>;
     dfk__list_check_invariants_x h l;
     Some l
   }"

definition dfk_list_size_x :: "xhooks \<Rightarrow> xlist_t \<Rightarrow> size_t option" where
  "dfk_list_size_x h l = do { dfk__list_check_invariants_x h l; Some (xlist_size l) }"

definition dfk_list_empty_x :: "xhooks \<Rightarrow> xlist_t \<Rightarrow> bool option" where
  "dfk_list_empty_x h l = do { dfk__list_check_invariants_x h l; Some (xlist_head l = NULL) }"

definition dfk_list_erase_x ::
  "xhooks \<Rightarrow> xlist_t \<Rightarrow> xlist_it \<Rightarrow> (xhooks \<times> xlist_t) option" where
  "dfk_list_erase_x h l it = do {
     dfk__list_check_invariants_x h l;
     dfk__list_it_check_invariants_x it;
     n \<leftarrow> dfk_list_size_x h l;
     c_assert (n \<noteq> 0);
     let hook = xit_value it;
     (h, l) \<leftarrow>
       (if xlist_head l = xlist_tail l then do {
          c_assert (xlist_head l = hook);
          Some (h, l\<lparr>xlist_head := NULL, xlist_tail := NULL\<rparr>)
        } else if hook = xlist_head l then do {
          v \<leftarrow> load h hook;
          let l = l\<lparr>xlist_head := hook_p v\<rparr>;
          h \<leftarrow> modify h (xlist_head l) (hook_p_update (\<lambda>p. ptr_xor p hook));
          Some (h, l)
        } else if hook = xlist_tail l then do {
          v \<leftarrow> load h hook;
          let l = l\<lparr>xlist_tail := hook_p v\<rparr>;
          h \<leftarrow> modify h (xlist_tail l) (hook_p_update (\<lambda>p. ptr_xor p hook));
          Some (h, l)
        } else do {
          v \<leftarrow> load h hook;
          let next = ptr_xor (hook_p v) (xit_prev it);
          c_assert (next \<noteq> NULL);
          c_assert (xit_prev it \<noteq> NULL);
          h \<leftarrow> modify h next (hook_p_update (\<lambda>p. ptr_xor3 p hook (xit_prev it)));
          h \<leftarrow> modify h (xit_prev it) (hook_p_update (\<lambda>p. ptr_xor3 p hook next));
          Some (h, l)
        });
     let l = l\<lparr>xlist_size := xlist_size l - 1\<rparr>;
     dfk__list_check_invariants_x h l;
     Some (h, l)
   }"

text \<open>
  The conversion of a reverse iterator into a direct one, exactly as the code writes it:
  the new \<^verbatim>\<open>_prev\<close> is the XOR of the reverse iterator's \<^verbatim>\<open>_prev\<close> with the hook's own address.
\<close>

definition dfk_list_rerase_x ::
  "xhooks \<Rightarrow> xlist_t \<Rightarrow> xlist_rit \<Rightarrow> (xhooks \<times> xlist_t) option" where
  "dfk_list_rerase_x h l rit = do {
     dfk__list_check_invariants_x h l;
     dfk__list_rit_check_invariants_x rit;
     (h, l) \<leftarrow> dfk_list_erase_x h l
        \<lparr>xit_prev = ptr_xor (xrit_prev rit) (xrit_value rit), xit_value = xrit_value rit\<rparr>;
     dfk__list_check_invariants_x h l;
     Some (h, l)
   }"

definition dfk_list_begin_x :: "xhooks \<Rightarrow> xlist_t \<Rightarrow> xlist_it option" where
  "dfk_list_begin_x h l = do {
     dfk__list_check_invariants_x h l;
     let it = \<lparr>xit_prev = NULL, xit_value = xlist_head l\<rparr>;
     dfk__list_it_check_invariants_x it;
     Some it
   }"

definition dfk_list_end_x :: "xhooks \<Rightarrow> xlist_t \<Rightarrow> xlist_it option" where
  "dfk_list_end_x h l = do {
     dfk__list_check_invariants_x h l;
     let it = \<lparr>xit_prev = NULL, xit_value = NULL\<rparr>;
     dfk__list_it_check_invariants_x it;
     Some it
   }"

definition dfk_list_it_next_x :: "xhooks \<Rightarrow> xlist_it \<Rightarrow> xlist_it option" where
  "dfk_list_it_next_x h it = do {
     dfk__list_it_check_invariants_x it;
     v \<leftarrow> load h (xit_value it);
     let it = \<lparr>xit_prev = xit_value it, xit_value = ptr_xor (xit_prev it) (hook_p v)\<rparr>;
     dfk__list_it_check_invariants_x it;
     Some it
   }"

definition dfk_list_it_equal_x :: "xlist_it \<Rightarrow> xlist_it \<Rightarrow> bool option" where
  "dfk_list_it_equal_x lhs rhs = do {
     dfk__list_it_check_invariants_x lhs;
     dfk__list_it_check_invariants_x rhs;
     Some (xit_value lhs = xit_value rhs)
   }"

partial_function (option) it_from_value_loop_x :: "xhooks \<Rightarrow> addr \<Rightarrow> xlist_it \<Rightarrow> xlist_it option" where
  "it_from_value_loop_x h v it =
     (if xit_value it \<noteq> v then do {
        it \<leftarrow> dfk_list_it_next_x h it;
        it_from_value_loop_x h v it
      } else Some it)"

definition dfk_list_it_from_value_x :: "xhooks \<Rightarrow> xlist_t \<Rightarrow> addr \<Rightarrow> xlist_it option" where
  "dfk_list_it_from_value_x h l v = do {
     dfk__list_check_invariants_x h l;
     dfk__list_hook_check_invariants_x v;
     it \<leftarrow> dfk_list_begin_x h l;
     it \<leftarrow> it_from_value_loop_x h v it;
     dfk__list_it_check_invariants_x it;
     dfk__list_hook_check_invariants_x v;
     dfk__list_check_invariants_x h l;
     Some it
   }"

definition dfk_list_rbegin_x :: "xhooks \<Rightarrow> xlist_t \<Rightarrow> xlist_rit option" where
  "dfk_list_rbegin_x h l = do {
     dfk__list_check_invariants_x h l;
     let rit = \<lparr>xrit_prev = NULL, xrit_value = xlist_tail l\<rparr>;
     dfk__list_rit_check_invariants_x rit;
     Some rit
   }"

definition dfk_list_rend_x :: "xhooks \<Rightarrow> xlist_t \<Rightarrow> xlist_rit option" where
  "dfk_list_rend_x h l = do {
     dfk__list_check_invariants_x h l;
     let rit = \<lparr>xrit_prev = NULL, xrit_value = NULL\<rparr>;
     dfk__list_rit_check_invariants_x rit;
     Some rit
   }"

definition dfk_list_rit_next_x :: "xhooks \<Rightarrow> xlist_rit \<Rightarrow> xlist_rit option" where
  "dfk_list_rit_next_x h rit = do {
     dfk__list_rit_check_invariants_x rit;
     v \<leftarrow> load h (xrit_value rit);
     let rit = \<lparr>xrit_prev = xrit_value rit, xrit_value = ptr_xor (xrit_prev rit) (hook_p v)\<rparr>;
     dfk__list_rit_check_invariants_x rit;
     Some rit
   }"

definition dfk_list_rit_equal_x :: "xlist_rit \<Rightarrow> xlist_rit \<Rightarrow> bool option" where
  "dfk_list_rit_equal_x lhs rhs = do {
     dfk__list_rit_check_invariants_x lhs;
     dfk__list_rit_check_invariants_x rhs;
     Some (xrit_value lhs = xrit_value rhs)
   }"

partial_function (option) rit_from_value_loop_x :: "xhooks \<Rightarrow> addr \<Rightarrow> xlist_rit \<Rightarrow> xlist_rit option" where
  "rit_from_value_loop_x h v rit =
     (if xrit_value rit \<noteq> v then do {
        rit \<leftarrow> dfk_list_rit_next_x h rit;
        rit_from_value_loop_x h v rit
      } else Some rit)"

definition dfk_list_rit_from_value_x :: "xhooks \<Rightarrow> xlist_t \<Rightarrow> addr \<Rightarrow> xlist_rit option" where
  "dfk_list_rit_from_value_x h l v = do {
     dfk__list_check_invariants_x h l;
     dfk__list_hook_check_invariants_x v;
     rit \<leftarrow> dfk_list_rbegin_x h l;
     rit \<leftarrow> rit_from_value_loop_x h v rit;
     dfk__list_rit_check_invariants_x rit;
     dfk__list_hook_check_invariants_x v;
     dfk__list_check_invariants_x h l;
     Some rit
   }"

definition dfk_list_pop_front_x :: "xhooks \<Rightarrow> xlist_t \<Rightarrow> (xhooks \<times> xlist_t) option" where
  "dfk_list_pop_front_x h l = do {
     dfk__list_check_invariants_x h l;
     n \<leftarrow> dfk_list_size_x h l;
     c_assert (n \<noteq> 0);
     begin \<leftarrow> dfk_list_begin_x h l;
     (h, l) \<leftarrow> dfk_list_erase_x h l begin;
     dfk__list_check_invariants_x h l;
     Some (h, l)
   }"

definition dfk_list_pop_back_x :: "xhooks \<Rightarrow> xlist_t \<Rightarrow> (xhooks \<times> xlist_t) option" where
  "dfk_list_pop_back_x h l = do {
     dfk__list_check_invariants_x h l;
     n \<leftarrow> dfk_list_size_x h l;
     c_assert (n \<noteq> 0);
     rbegin \<leftarrow> dfk_list_rbegin_x h l;
     (h, l) \<leftarrow> dfk_list_rerase_x h l rbegin;
     dfk__list_check_invariants_x h l;
     Some (h, l)
   }"

definition dfk_list_move_x ::
  "xhooks \<Rightarrow> xlist_t \<Rightarrow> xlist_t \<Rightarrow> (xlist_t \<times> xlist_t) option" where
  "dfk_list_move_x h src dst = do {
     dfk__list_check_invariants_x h src;
     dfk__list_check_invariants_x h dst;
     let dst = src;
     let src = \<lparr>xlist_head = 0, xlist_tail = 0, xlist_size = 0\<rparr>;
     dfk__list_check_invariants_x h dst;
     dfk__list_check_invariants_x h src;
     Some (src, dst)
   }"

definition dfk_list_swap_x ::
  "xhooks \<Rightarrow> xlist_t \<Rightarrow> xlist_t \<Rightarrow> (xlist_t \<times> xlist_t) option" where
  "dfk_list_swap_x h lhs rhs = do {
     dfk__list_check_invariants_x h lhs;
     dfk__list_check_invariants_x h rhs;
     let copy = lhs;
     let lhs = rhs;
     let rhs = copy;
     dfk__list_check_invariants_x h lhs;
     dfk__list_check_invariants_x h rhs;
     Some (lhs, rhs)
   }"

section \<open>Representation\<close>

fun xseg :: "xhooks \<Rightarrow> addr \<Rightarrow> addr list \<Rightarrow> addr \<Rightarrow> bool" where
  "xseg h p [] n \<longleftrightarrow> True"
| "xseg h p (x # xs) n \<longleftrightarrow>
     x \<noteq> NULL \<and> h x = Some \<lparr>hook_p = p XOR hd_or xs n\<rparr> \<and> xseg h x xs n"

definition xlist_rep :: "xhooks \<Rightarrow> xlist_t \<Rightarrow> addr list \<Rightarrow> bool" where
  "xlist_rep h l xs \<longleftrightarrow>
     xseg h NULL xs NULL \<and> distinct xs \<and>
     l = \<lparr>xlist_head = hd_or xs NULL, xlist_tail = last_or xs NULL,
          xlist_size = of_nat (length xs)\<rparr>"

lemma xor_cancel [simp]: "a XOR (a XOR b) = (b :: addr)" "(b XOR a) XOR a = (b :: addr)"
  "(a XOR b) XOR a = (b :: addr)"
  by (simp_all add: bit_eq_iff bit_xor_iff) blast+

lemma hook_p_write [simp]: "v\<lparr>hook_p := a\<rparr> = \<lparr>hook_p = a\<rparr>" for v :: xlist_hook_t
  by (cases v) simp

lemma xlist_write_all [simp]:
  "l\<lparr>xlist_head := a, xlist_tail := b, xlist_size := c\<rparr>
     = \<lparr>xlist_head = a, xlist_tail = b, xlist_size = c\<rparr>" for l :: xlist_t
  by (cases l) simp

lemma xseg_append [simp]:
  "xseg h p (xs @ ys) n \<longleftrightarrow> xseg h p xs (hd_or ys n) \<and> xseg h (last_or xs p) ys n"
  by (induction xs arbitrary: p) auto

lemma xseg_upd [simp]: "a \<notin> set xs \<Longrightarrow> xseg (h(a \<mapsto> v)) p xs n = xseg h p xs n"
  by (induction xs arbitrary: p) auto

lemma xseg_not_NULL: "xseg h p xs n \<Longrightarrow> NULL \<notin> set xs"
  by (induction xs arbitrary: p) auto

lemma xseg_dom: "xseg h p xs n \<Longrightarrow> set xs \<subseteq> dom h"
  by (induction xs arbitrary: p) auto

text \<open>The XOR encoding is symmetric: a segment read backwards is a segment.\<close>

lemma xseg_rev: "xseg h p xs n \<Longrightarrow> xseg h n (rev xs) p"
  by (induction xs arbitrary: p) (auto simp: xor.commute)

lemma xlist_rep_Nil: "xlist_rep h l [] \<longleftrightarrow> l = \<lparr>xlist_head = NULL, xlist_tail = NULL, xlist_size = 0\<rparr>"
  by (auto simp: xlist_rep_def)

lemma xlist_rep_not_NULL: "xlist_rep h l xs \<Longrightarrow> NULL \<notin> set xs"
  by (auto simp: xlist_rep_def dest: xseg_not_NULL)

lemma xlist_rep_dom: "xlist_rep h l xs \<Longrightarrow> set xs \<subseteq> dom h"
  by (auto simp: xlist_rep_def dest: xseg_dom)

lemma xlist_rep_distinct: "xlist_rep h l xs \<Longrightarrow> distinct xs"
  by (simp add: xlist_rep_def)

lemma xlist_rep_length: "xlist_rep h l xs \<Longrightarrow> length xs < 2 ^ 64"
  by (rule distinct_addr_bound) (auto dest: xlist_rep_distinct xlist_rep_not_NULL)

lemma xlist_rep_fields:
  assumes "xlist_rep h l xs"
  shows "xlist_head l = hd_or xs NULL" "xlist_tail l = last_or xs NULL"
    "xlist_size l = of_nat (length xs)"
  using assms by (simp_all add: xlist_rep_def)

lemmas ptr_xors = ptr_xor_def ptr_xor3_def

lemmas xor_ac = xor.assoc xor.commute xor.left_commute

section \<open>The invariant checks pass on represented lists\<close>

text \<open>The address before index \<open>i\<close>, \<^verbatim>\<open>NULL\<close> in front of the first element.\<close>

definition value_before :: "addr list \<Rightarrow> nat \<Rightarrow> addr" where
  "value_before xs i = (if i = 0 then NULL else xs ! (i - 1))"

lemma value_before_simps [simp]:
  "value_before xs 0 = NULL" "value_before xs (Suc i) = xs ! i"
  by (simp_all add: value_before_def)

lemma value_before_last_or: "i \<le> length xs \<Longrightarrow> value_before xs i = last_or (take i xs) NULL"
  by (cases i) (simp_all add: value_before_def take_Suc_conv_app_nth)

lemma xseg_nth:
  assumes "xseg h NULL xs NULL" "i < length xs"
  shows "xs ! i \<noteq> NULL" "h (xs ! i) = Some \<lparr>hook_p = value_before xs i XOR value_at xs (Suc i)\<rparr>"
proof -
  have "xseg h NULL (take i xs @ xs ! i # drop (Suc i) xs) NULL"
    using assms split_nth [OF assms(2)] by simp
  then show "xs ! i \<noteq> NULL" "h (xs ! i) = Some \<lparr>hook_p = value_before xs i XOR value_at xs (Suc i)\<rparr>"
    using assms(2) by (auto simp: value_at_hd_or value_before_last_or)
qed

text \<open>A pair of a predecessor and a position; past the end the predecessor is arbitrary.\<close>

definition xpos :: "addr list \<Rightarrow> nat \<Rightarrow> addr \<times> addr \<Rightarrow> bool" where
  "xpos xs i p = (snd p = value_at xs i \<and> (i < length xs \<longrightarrow> fst p = value_before xs i))"

lemma xhop_xpos:
  assumes "xseg h NULL xs NULL" "xpos xs i p"
  shows "\<exists>p'. xhop h p = Some p' \<and> xpos xs (Suc i) p'"
proof (cases "i < length xs")
  case True
  then show ?thesis
    using assms xseg_nth [OF assms(1) True]
    by (cases p) (simp add: xpos_def xhop_def ptr_xors value_at_def [of xs i])
next
  case False
  then show ?thesis
    using assms(2) by (cases p) (simp add: xpos_def xhop_def value_at_def)
qed

lemma xlist_check_walk_ok:
  assumes "xseg h NULL xs NULL" "distinct xs" "length xs < 2 ^ 64" "k < length xs" "2 \<le> length xs"
    and "xpos xs (2 * k) p"
  shows "xlist_check_walk h (xs ! (length xs - 1)) (of_nat (length xs)) (value_before xs k, xs ! k)
           p (of_nat k)
         = Some (xs ! (length xs - 1), NULL, of_nat (length xs - 1))"
  using assms(4,6)
proof (induction "length xs - 1 - k" arbitrary: k p)
  case 0
  with assms(5) have "k = length xs - 1" "2 * k \<ge> length xs" by auto
  with 0 show ?case
    by (subst xlist_check_walk.simps) (simp add: value_at_def xpos_def)
next
  case (Suc m)
  then have k: "Suc k < length xs" by arith
  note i = xseg_nth [OF assms(1) Suc.prems(1)]
  have ne: "xs ! k \<noteq> xs ! (length xs - 1)"
    using assms(2) k by (simp add: nth_eq_iff_index_eq)
  obtain p1 p2 where p: "xhop h p = Some p1" "xhop h p1 = Some p2" "xpos xs (2 * Suc k) p2"
    using xhop_xpos [OF assms(1) Suc.prems(2)] xhop_xpos [OF assms(1)] by fastforce
  have ne2: "xs ! Suc k \<noteq> snd p2"
    using p(3) k assms(2) xseg_nth(1) [OF assms(1) k]
    by (auto simp: xpos_def value_at_def nth_eq_iff_index_eq)
  have lt: "of_nat k + 1 < (of_nat (length xs) :: size_t)"
    using of_nat_size_less_iff [of "Suc k" "length xs"] k assms(3) by (simp add: add.commute)
  have IH: "xlist_check_walk h (xs ! (length xs - 1)) (of_nat (length xs))
      (value_before xs (Suc k), xs ! Suc k) p2 (of_nat (Suc k))
         = Some (xs ! (length xs - 1), NULL, of_nat (length xs - 1))"
    using Suc.hyps k p(3) by (intro Suc.hyps(1)) auto
  show ?case
    using i ne ne2 lt IH p k
    by (subst xlist_check_walk.simps) (simp add: ptr_xors value_at_def add.commute)
qed

lemma xlist_check_ok [simp]:
  assumes "xlist_rep h l xs"
  shows "dfk__list_check_invariants_x h l = Some ()"
proof -
  note rep = assms [unfolded xlist_rep_def]
  have seg: "xseg h NULL xs NULL" and dist: "distinct xs" using rep by auto
  have nn: "NULL \<notin> set xs" and len: "length xs < 2 ^ 64"
    using xlist_rep_not_NULL [OF assms] xlist_rep_length [OF assms] by auto
  consider "xs = []" | x where "xs = [x]" | "2 \<le> length xs"
    by (cases xs; cases "tl xs") auto
  then show ?thesis
  proof cases
    case 3
    then obtain a b ys where xs: "xs = a # ys @ [b]"
      by (cases xs; cases "tl xs" rule: rev_cases) auto
    have w1: "xlist_check_walk h b (of_nat (length xs)) (NULL, a) (NULL, a) 0
        = Some (b, NULL, of_nat (length xs - 1))"
      using xlist_check_walk_ok [OF seg dist len, of 0 "(NULL, a)"] 3 xs
      by (simp add: xpos_def nth_append)
    have w2: "xlist_check_walk h a (of_nat (length xs)) (NULL, b) (NULL, b) 0
        = Some (a, NULL, of_nat (length xs - 1))"
      using xlist_check_walk_ok [OF xseg_rev [OF seg], of 0 "(NULL, b)"] dist len 3 xs
      by (auto simp: xpos_def nth_append)
    show ?thesis
      using rep seg nn dist w1 w2 xs
      by (auto simp: dfk__list_check_invariants_x_def)
  qed (use rep in \<open>auto simp: dfk__list_check_invariants_x_def\<close>)
qed

lemma xhook_check_ok [simp]: "hook \<noteq> NULL \<Longrightarrow> dfk__list_hook_check_invariants_x hook = Some ()"
  by (simp add: dfk__list_hook_check_invariants_x_def)

lemma xit_check_ok [simp]: "dfk__list_it_check_invariants_x it = Some ()"
  by (simp add: dfk__list_it_check_invariants_x_def)

lemma xrit_check_ok [simp]: "dfk__list_rit_check_invariants_x rit = Some ()"
  by (simp add: dfk__list_rit_check_invariants_x_def)

section \<open>Functional behaviour of the operations\<close>

lemma xlist_init_spec: "\<exists>l. dfk_list_init_x h = Some l \<and> xlist_rep h l []"
  using xlist_check_ok [of h "\<lparr>xlist_head = NULL, xlist_tail = NULL, xlist_size = 0\<rparr>" "[]"]
  by (simp add: dfk_list_init_x_def xlist_rep_Nil)

lemma xlist_front_spec: "xlist_rep h l xs \<Longrightarrow> dfk_list_front_x h l = Some (hd_or xs NULL)"
  by (simp add: dfk_list_front_x_def xlist_rep_fields)

lemma xlist_back_spec: "xlist_rep h l xs \<Longrightarrow> dfk_list_back_x h l = Some (last_or xs NULL)"
  by (simp add: dfk_list_back_x_def xlist_rep_fields)

lemma xlist_size_spec: "xlist_rep h l xs \<Longrightarrow> dfk_list_size_x h l = Some (of_nat (length xs))"
  by (simp add: dfk_list_size_x_def xlist_rep_fields)

lemma xlist_empty_spec: "xlist_rep h l xs \<Longrightarrow> dfk_list_empty_x h l = Some (xs = [])"
  using xlist_rep_not_NULL [of h l xs]
  by (simp add: dfk_list_empty_x_def xlist_rep_fields hd_or_NULL)

lemma xlist_append_spec:
  assumes rep: "xlist_rep h l xs" and hook: "hook \<noteq> NULL" "hook \<in> dom h" "hook \<notin> set xs"
  shows "\<exists>h' l'. dfk_list_append_x h l hook = Some (h', l') \<and> xlist_rep h' l' (xs @ [hook])
           \<and> same_outside (insert hook (set xs)) h h'"
proof -
  have nn: "NULL \<notin> set xs" using xlist_rep_not_NULL [OF rep] .
  obtain v where v: "h hook = Some v" using hook(2) by auto
  define h1 where "h1 = h(hook \<mapsto> \<lparr>hook_p = last_or xs NULL\<rparr>)"
  define h' where "h' = (if xs = [] then h1 else
    h1(last_or xs NULL \<mapsto> \<lparr>hook_p = last_or (butlast xs) NULL XOR hook\<rparr>))"
  define l' where "l' = \<lparr>xlist_head = hd_or xs hook, xlist_tail = hook,
    xlist_size = of_nat (length xs) + 1\<rparr>"
  have rep': "xlist_rep h' l' (xs @ [hook])"
    using rep hook unfolding xlist_rep_def h'_def h1_def l'_def
    by (cases xs rule: rev_cases) auto
  have out: "same_outside (insert hook (set xs)) h h'"
    using hook xlist_rep_dom [OF rep] unfolding h'_def h1_def
    by (cases xs rule: rev_cases) auto
  have "dfk_list_append_x h l hook = Some (h', l')"
    using rep hook v nn rep' xlist_check_ok [OF rep] xlist_check_ok [OF rep']
    unfolding dfk_list_append_x_def h'_def h1_def l'_def xlist_rep_fields [OF rep]
    by (cases xs rule: rev_cases) (auto simp: xlist_rep_def ptr_xors)
  with rep' out show ?thesis by blast
qed

lemma xlist_prepend_spec:
  assumes rep: "xlist_rep h l xs" and hook: "hook \<noteq> NULL" "hook \<in> dom h" "hook \<notin> set xs"
  shows "\<exists>h' l'. dfk_list_prepend_x h l hook = Some (h', l') \<and> xlist_rep h' l' (hook # xs)
           \<and> same_outside (insert hook (set xs)) h h'"
proof -
  have nn: "NULL \<notin> set xs" using xlist_rep_not_NULL [OF rep] .
  obtain v where v: "h hook = Some v" using hook(2) by auto
  define h1 where "h1 = h(hook \<mapsto> \<lparr>hook_p = hd_or xs NULL\<rparr>)"
  define h' where "h' = (if xs = [] then h1 else
    h1(hd_or xs NULL \<mapsto> \<lparr>hook_p = hd_or (tl xs) NULL XOR hook\<rparr>))"
  define l' where "l' = \<lparr>xlist_head = hook, xlist_tail = last_or xs hook,
    xlist_size = of_nat (length xs) + 1\<rparr>"
  have rep': "xlist_rep h' l' (hook # xs)"
    using rep hook unfolding xlist_rep_def h'_def h1_def l'_def
    by (cases xs) (auto simp: xor.commute)
  have out: "same_outside (insert hook (set xs)) h h'"
    using hook xlist_rep_dom [OF rep] unfolding h'_def h1_def
    by (cases xs) auto
  have "dfk_list_prepend_x h l hook = Some (h', l')"
    using rep hook v nn rep' xlist_check_ok [OF rep] xlist_check_ok [OF rep']
    unfolding dfk_list_prepend_x_def h'_def h1_def l'_def xlist_rep_fields [OF rep]
    by (cases xs) (auto simp: xlist_rep_def ptr_xors)
  with rep' out show ?thesis by blast
qed

lemma xlist_insert_spec:
  assumes rep: "xlist_rep h l (xs @ ys)"
    and hook: "hook \<noteq> NULL" "hook \<in> dom h" "hook \<notin> set (xs @ ys)"
    and pos: "xit_value pos = hd_or ys NULL" "ys \<noteq> [] \<Longrightarrow> xit_prev pos = last_or xs NULL"
  shows "\<exists>h' l'. dfk_list_insert_x h l hook pos = Some (h', l') \<and> xlist_rep h' l' (xs @ hook # ys)
           \<and> same_outside (insert hook (set (xs @ ys))) h h'"
proof -
  have nn: "NULL \<notin> set xs" "NULL \<notin> set ys" using xlist_rep_not_NULL [OF rep] by auto
  obtain v where v: "h hook = Some v" using hook(2) by auto
  define h1 where "h1 = (if ys = [] then h else
    h(hd_or ys NULL \<mapsto> \<lparr>hook_p = hook XOR hd_or (tl ys) NULL\<rparr>))"
  define h2 where "h2 = (if xs = [] then h1 else
    h1(last_or xs NULL \<mapsto> \<lparr>hook_p = last_or (butlast xs) NULL XOR hook\<rparr>))"
  define h' where "h' = h2(hook \<mapsto> \<lparr>hook_p = last_or xs NULL XOR hd_or ys NULL\<rparr>)"
  define l' where "l' = \<lparr>xlist_head = hd_or (xs @ [hook]) NULL, xlist_tail = last_or (hook # ys) NULL,
     xlist_size = of_nat (length (xs @ ys)) + 1\<rparr>"
  have rep': "xlist_rep h' l' (xs @ hook # ys)"
    using rep hook unfolding xlist_rep_def h'_def h2_def h1_def l'_def
    by (cases ys; cases xs rule: rev_cases) (auto simp: add.commute)
  have out: "same_outside (insert hook (set (xs @ ys))) h h'"
    using hook xlist_rep_dom [OF rep] unfolding h'_def h2_def h1_def
    by (cases ys; cases xs rule: rev_cases) auto
  have "dfk_list_insert_x h l hook pos = Some (h', l')"
    using rep hook v pos nn rep' xlist_check_ok [OF rep] xlist_check_ok [OF rep']
    unfolding dfk_list_insert_x_def h'_def h2_def h1_def l'_def xlist_rep_fields [OF rep]
    by (cases ys; cases xs rule: rev_cases) (auto simp: xlist_rep_def ptr_xors xor_ac)
  with rep' out show ?thesis by blast
qed

lemma xlist_rinsert_spec:
  assumes rep: "xlist_rep h l (xs @ ys)"
    and hook: "hook \<noteq> NULL" "hook \<in> dom h" "hook \<notin> set (xs @ ys)"
    and pos: "xrit_value pos = last_or xs NULL" "xs \<noteq> [] \<Longrightarrow> xrit_prev pos = hd_or ys NULL"
  shows "\<exists>h' l'. dfk_list_rinsert_x h l hook pos = Some (h', l') \<and> xlist_rep h' l' (xs @ hook # ys)
           \<and> same_outside (insert hook (set (xs @ ys))) h h'"
proof -
  have nn: "NULL \<notin> set xs" "NULL \<notin> set ys" using xlist_rep_not_NULL [OF rep] by auto
  obtain v where v: "h hook = Some v" using hook(2) by auto
  define h1 where "h1 = (if xs = [] then h else
    h(last_or xs NULL \<mapsto> \<lparr>hook_p = last_or (butlast xs) NULL XOR hook\<rparr>))"
  define h2 where "h2 = (if ys = [] then h1 else
    h1(hd_or ys NULL \<mapsto> \<lparr>hook_p = hook XOR hd_or (tl ys) NULL\<rparr>))"
  define h' where "h' = h2(hook \<mapsto> \<lparr>hook_p = hd_or ys NULL XOR last_or xs NULL\<rparr>)"
  define l' where "l' = \<lparr>xlist_head = hd_or (xs @ [hook]) NULL, xlist_tail = last_or (hook # ys) NULL,
     xlist_size = of_nat (length (xs @ ys)) + 1\<rparr>"
  have rep': "xlist_rep h' l' (xs @ hook # ys)"
    using rep hook unfolding xlist_rep_def h'_def h2_def h1_def l'_def
    by (cases ys; cases xs rule: rev_cases) (auto simp: add.commute xor.commute)
  have out: "same_outside (insert hook (set (xs @ ys))) h h'"
    using hook xlist_rep_dom [OF rep] unfolding h'_def h2_def h1_def
    by (cases ys; cases xs rule: rev_cases) auto
  have "dfk_list_rinsert_x h l hook pos = Some (h', l')"
    using rep hook v pos nn rep' xlist_check_ok [OF rep] xlist_check_ok [OF rep']
    unfolding dfk_list_rinsert_x_def h'_def h2_def h1_def l'_def xlist_rep_fields [OF rep]
    by (cases ys; cases xs rule: rev_cases) (auto simp: xlist_rep_def ptr_xors xor_ac)
  with rep' out show ?thesis by blast
qed

lemma xlist_clear_spec: "xlist_rep h l xs \<Longrightarrow> \<exists>l'. dfk_list_clear_x h l = Some l' \<and> xlist_rep h l' []"
  using xlist_check_ok [of h "\<lparr>xlist_head = NULL, xlist_tail = NULL, xlist_size = 0\<rparr>" "[]"]
  by (auto simp: dfk_list_clear_x_def xlist_rep_Nil)

lemma xlist_size_nonzero: "xlist_rep h l xs \<Longrightarrow> xs \<noteq> [] \<Longrightarrow> of_nat (length xs) \<noteq> (0 :: size_t)"
  using of_nat_size_eq_iff [of "length xs" 0] xlist_rep_length [of h l xs] by simp

text \<open>
  Only the erasure of an inner element looks at the iterator's \<^verbatim>\<open>_prev\<close>: at either end the
  hook's own pointer is its only neighbour.
\<close>

lemma xlist_erase_spec:
  assumes rep: "xlist_rep h l (xs @ x # ys)" and it: "xit_value it = x"
    and prev: "xs \<noteq> [] \<Longrightarrow> ys \<noteq> [] \<Longrightarrow> xit_prev it = last_or xs NULL"
  shows "\<exists>h' l'. dfk_list_erase_x h l it = Some (h', l') \<and> xlist_rep h' l' (xs @ ys)
           \<and> same_outside (set (xs @ ys)) h h'"
proof -
  have nn: "NULL \<notin> set (xs @ x # ys)" using xlist_rep_not_NULL [OF rep] .
  have sz: "of_nat (length (xs @ x # ys)) \<noteq> (0 :: size_t)"
    using xlist_size_nonzero [OF rep] by simp
  define h1 where "h1 = (if ys = [] then h else
    h(hd_or ys NULL \<mapsto> \<lparr>hook_p = last_or xs NULL XOR hd_or (tl ys) NULL\<rparr>))"
  define h' where "h' = (if xs = [] then h1 else
    h1(last_or xs NULL \<mapsto> \<lparr>hook_p = last_or (butlast xs) NULL XOR hd_or ys NULL\<rparr>))"
  define l' where "l' = \<lparr>xlist_head = hd_or (xs @ ys) NULL, xlist_tail = last_or (xs @ ys) NULL,
     xlist_size = of_nat (length (xs @ x # ys)) - 1\<rparr>"
  have rep': "xlist_rep h' l' (xs @ ys)"
    using rep unfolding xlist_rep_def h'_def h1_def l'_def
    by (cases ys; cases xs rule: rev_cases) auto
  have out: "same_outside (set (xs @ ys)) h h'"
    using xlist_rep_dom [OF rep] unfolding h'_def h1_def
    by (cases ys; cases xs rule: rev_cases) auto
  have ends: "hd_or xs x = x \<longleftrightarrow> xs = []" "last_or ys x = x \<longleftrightarrow> ys = []"
    "x = hd_or xs x \<longleftrightarrow> xs = []" "x = last_or ys x \<longleftrightarrow> ys = []"
    "hd_or xs x = last_or ys x \<longleftrightarrow> xs = [] \<and> ys = []"
    using xlist_rep_distinct [OF rep] hd_or_eq_last_or [OF xlist_rep_distinct [OF rep] nn]
    by (auto simp: eq_commute [of x])
  have "dfk_list_erase_x h l it = Some (h', l')"
    using rep it prev nn sz ends rep' xlist_check_ok [OF rep] xlist_check_ok [OF rep']
      xlist_size_spec [OF rep]
    unfolding dfk_list_erase_x_def h'_def h1_def l'_def xlist_rep_fields [OF rep]
    by (cases ys; cases xs rule: rev_cases) (auto simp: xlist_rep_def ptr_xors xor_ac)
  with rep' out show ?thesis by blast
qed

text \<open>Erasing through a reverse iterator works at both ends, where \<^verbatim>\<open>_prev\<close> is not used.\<close>

lemma xlist_rerase_end_spec:
  assumes rep: "xlist_rep h l (xs @ x # ys)" and rit: "xrit_value rit = x" and "xs = [] \<or> ys = []"
  shows "\<exists>h' l'. dfk_list_rerase_x h l rit = Some (h', l') \<and> xlist_rep h' l' (xs @ ys)
           \<and> same_outside (set (xs @ ys)) h h'"
  using xlist_erase_spec [OF rep, of "\<lparr>xit_prev = ptr_xor (xrit_prev rit) x, xit_value = x\<rparr>"]
    assms xlist_check_ok [OF rep]
  by (auto simp: dfk_list_rerase_x_def)

section \<open>Iterators, both ends, move and swap\<close>

definition xit_at :: "addr list \<Rightarrow> nat \<Rightarrow> xlist_it \<Rightarrow> bool" where
  "xit_at xs i it \<longleftrightarrow> xpos xs i (xit_prev it, xit_value it)"

definition xrit_at :: "addr list \<Rightarrow> nat \<Rightarrow> xlist_rit \<Rightarrow> bool" where
  "xrit_at xs i rit \<longleftrightarrow> xpos (rev xs) i (xrit_prev rit, xrit_value rit)"

lemma xlist_begin_spec: "xlist_rep h l xs \<Longrightarrow> \<exists>it. dfk_list_begin_x h l = Some it \<and> xit_at xs 0 it"
  by (simp add: dfk_list_begin_x_def xlist_rep_fields xit_at_def xpos_def)

lemma xlist_rbegin_spec: "xlist_rep h l xs \<Longrightarrow> \<exists>rit. dfk_list_rbegin_x h l = Some rit \<and> xrit_at xs 0 rit"
  by (simp add: dfk_list_rbegin_x_def xlist_rep_fields xrit_at_def xpos_def)

lemma xlist_end_spec:
  "xlist_rep h l xs \<Longrightarrow> \<exists>it. dfk_list_end_x h l = Some it \<and> xit_at xs (length xs) it"
  by (simp add: dfk_list_end_x_def xit_at_def xpos_def value_at_def)

lemma xlist_rend_spec:
  "xlist_rep h l xs \<Longrightarrow> \<exists>rit. dfk_list_rend_x h l = Some rit \<and> xrit_at xs (length xs) rit"
  by (simp add: dfk_list_rend_x_def xrit_at_def xpos_def value_at_def)

lemma xlist_it_next_spec:
  assumes "xlist_rep h l xs" "xit_at xs i it" "i < length xs"
  shows "\<exists>it'. dfk_list_it_next_x h it = Some it' \<and> xit_at xs (Suc i) it'"
proof -
  have seg: "xseg h NULL xs NULL" using assms(1) by (simp add: xlist_rep_def)
  show ?thesis
    using assms(2,3) xseg_nth [OF seg assms(3)]
    by (simp add: dfk_list_it_next_x_def xit_at_def xpos_def ptr_xors value_at_def [of xs i])
qed

lemma xlist_rit_next_spec:
  assumes "xlist_rep h l xs" "xrit_at xs i rit" "i < length xs"
  shows "\<exists>rit'. dfk_list_rit_next_x h rit = Some rit' \<and> xrit_at xs (Suc i) rit'"
proof -
  have seg: "xseg h NULL (rev xs) NULL" using assms(1) xseg_rev by (simp add: xlist_rep_def)
  show ?thesis
    using assms(2,3) xseg_nth [OF seg, of i]
    by (simp add: dfk_list_rit_next_x_def xrit_at_def xpos_def ptr_xors value_at_def [of "rev xs" i])
qed

text \<open>The search loop of \<^verbatim>\<open>dfk_list_it_from_value\<close> ends, and it ends at the hook it was given.\<close>

lemma it_from_value_loop_x_ok:
  assumes "xlist_rep h l xs" "xit_at xs i it" "i \<le> k" "k < length xs"
  shows "\<exists>it'. it_from_value_loop_x h (xs ! k) it = Some it' \<and> xit_at xs k it'"
  using assms(2,3)
proof (induction "k - i" arbitrary: i it)
  case 0
  then show ?case
    using assms(4) by (subst it_from_value_loop_x.simps) (simp add: xit_at_def xpos_def value_at_def)
next
  case (Suc m)
  then have i: "i < k" "i < length xs" using assms(4) by auto
  obtain it1 where it1: "dfk_list_it_next_x h it = Some it1" "xit_at xs (Suc i) it1"
    using xlist_it_next_spec [OF assms(1) Suc.prems(1) i(2)] by blast
  obtain it' where it': "it_from_value_loop_x h (xs ! k) it1 = Some it'" "xit_at xs k it'"
    using Suc.hyps(1) [OF _ it1(2)] Suc.hyps(2) i by fastforce
  have "xit_value it \<noteq> xs ! k"
    using Suc.prems(1) i assms(4) xlist_rep_distinct [OF assms(1)]
    by (simp add: xit_at_def xpos_def value_at_def nth_eq_iff_index_eq)
  with it1 it' show ?case by (subst it_from_value_loop_x.simps) simp
qed

lemma rit_from_value_loop_x_ok:
  assumes "xlist_rep h l xs" "xrit_at xs i rit" "i \<le> k" "k < length xs"
  shows "\<exists>rit'. rit_from_value_loop_x h (rev xs ! k) rit = Some rit' \<and> xrit_at xs k rit'"
  using assms(2,3)
proof (induction "k - i" arbitrary: i rit)
  case 0
  then show ?case
    using assms(4) by (subst rit_from_value_loop_x.simps) (simp add: xrit_at_def xpos_def value_at_def)
next
  case (Suc m)
  then have i: "i < k" "i < length xs" using assms(4) by auto
  obtain rit1 where rit1: "dfk_list_rit_next_x h rit = Some rit1" "xrit_at xs (Suc i) rit1"
    using xlist_rit_next_spec [OF assms(1) Suc.prems(1) i(2)] by blast
  obtain rit' where rit': "rit_from_value_loop_x h (rev xs ! k) rit1 = Some rit'" "xrit_at xs k rit'"
    using Suc.hyps(1) [OF _ rit1(2)] Suc.hyps(2) i by fastforce
  have "xrit_value rit \<noteq> rev xs ! k"
    using Suc.prems(1) i assms(4) xlist_rep_distinct [OF assms(1)] nth_eq_iff_index_eq [of "rev xs" i k]
    by (simp add: xrit_at_def xpos_def value_at_def)
  with rit1 rit' show ?case by (subst rit_from_value_loop_x.simps) simp
qed

lemma xlist_it_from_value_spec:
  assumes "xlist_rep h l xs" "k < length xs"
  shows "\<exists>it. dfk_list_it_from_value_x h l (xs ! k) = Some it \<and> xit_at xs k it"
proof -
  obtain it where it: "dfk_list_begin_x h l = Some it" "xit_at xs 0 it"
    using xlist_begin_spec [OF assms(1)] by blast
  moreover have "xs ! k \<noteq> NULL" using xlist_rep_not_NULL [OF assms(1)] nth_mem [OF assms(2)] by metis
  ultimately show ?thesis
    using it_from_value_loop_x_ok [OF assms(1) it(2) _ assms(2)] assms(1)
    by (auto simp: dfk_list_it_from_value_x_def)
qed

lemma xlist_rit_from_value_spec:
  assumes "xlist_rep h l xs" "k < length xs"
  shows "\<exists>rit. dfk_list_rit_from_value_x h l (rev xs ! k) = Some rit \<and> xrit_at xs k rit"
proof -
  obtain rit where rit: "dfk_list_rbegin_x h l = Some rit" "xrit_at xs 0 rit"
    using xlist_rbegin_spec [OF assms(1)] by blast
  moreover have "rev xs ! k \<noteq> NULL"
    using xlist_rep_not_NULL [OF assms(1)] nth_mem [of k "rev xs"] assms(2) by fastforce
  ultimately show ?thesis
    using rit_from_value_loop_x_ok [OF assms(1) rit(2) _ assms(2)] assms(1)
    by (auto simp: dfk_list_rit_from_value_x_def)
qed

lemma xlist_pop_front_spec:
  assumes rep: "xlist_rep h l (x # xs)"
  shows "\<exists>h' l'. dfk_list_pop_front_x h l = Some (h', l') \<and> xlist_rep h' l' xs
           \<and> same_outside (set xs) h h'"
  using xlist_erase_spec [of h l "[]" x xs "\<lparr>xit_prev = NULL, xit_value = x\<rparr>"] rep
    xlist_size_spec [OF rep] xlist_size_nonzero [OF rep]
  by (auto simp: dfk_list_pop_front_x_def dfk_list_begin_x_def xlist_rep_fields)

lemma xlist_pop_back_spec:
  assumes rep: "xlist_rep h l (xs @ [x])"
  shows "\<exists>h' l'. dfk_list_pop_back_x h l = Some (h', l') \<and> xlist_rep h' l' xs
           \<and> same_outside (set xs) h h'"
  using xlist_rerase_end_spec [of h l xs x "[]" "\<lparr>xrit_prev = NULL, xrit_value = x\<rparr>"] rep
    xlist_size_spec [OF rep] xlist_size_nonzero [OF rep]
  by (auto simp: dfk_list_pop_back_x_def dfk_list_rbegin_x_def xlist_rep_fields)

lemma xlist_move_spec:
  assumes "xlist_rep h src xs" "xlist_rep h dst ys"
  shows "\<exists>src' dst'. dfk_list_move_x h src dst = Some (src', dst')
           \<and> xlist_rep h src' [] \<and> xlist_rep h dst' xs"
  using assms xlist_check_ok [of h "\<lparr>xlist_head = NULL, xlist_tail = NULL, xlist_size = 0\<rparr>" "[]"]
  by (auto simp: dfk_list_move_x_def xlist_rep_Nil)

lemma xlist_swap_spec:
  "xlist_rep h lhs xs \<Longrightarrow> xlist_rep h rhs ys \<Longrightarrow> dfk_list_swap_x h lhs rhs = Some (rhs, lhs)"
  by (simp add: dfk_list_swap_x_def)

section \<open>The list satisfies the contract\<close>

definition xlist_impl :: "(xhooks, xlist_t, xlist_it) deque_impl" where
  "xlist_impl = \<lparr>
     d_init = dfk_list_init_x, d_append = dfk_list_append_x, d_prepend = dfk_list_prepend_x,
     d_pop_front = dfk_list_pop_front_x, d_pop_back = dfk_list_pop_back_x,
     d_front = dfk_list_front_x, d_back = dfk_list_back_x, d_size = dfk_list_size_x,
     d_empty = dfk_list_empty_x, d_begin = dfk_list_begin_x, d_it_next = dfk_list_it_next_x,
     d_it_value = xit_value, d_insert = dfk_list_insert_x, d_erase = dfk_list_erase_x\<rparr>"

lemma xit_at_value: "xit_at xs i it \<Longrightarrow> xit_value it = hd_or (drop i xs) NULL"
  by (simp add: xit_at_def xpos_def value_at_hd_or)

lemma xit_at_prev: "xit_at xs i it \<Longrightarrow> i < length xs \<Longrightarrow> xit_prev it = last_or (take i xs) NULL"
  by (simp add: xit_at_def xpos_def value_before_last_or)

interpretation xlist: deque xlist_impl xlist_rep "\<lambda>h. xit_at" "\<lambda>h a. a \<in> dom h"
proof (unfold_locales, goal_cases)
  case (1 h)
  then show ?case using xlist_init_spec by (simp add: xlist_impl_def)
next
  case (2 h l xs a)
  then show ?case using xlist_append_spec [of h l xs a]
    by (force simp: xlist_impl_def dest: same_outside_dom)
next
  case (3 h l xs a)
  then show ?case using xlist_prepend_spec [of h l xs a]
    by (force simp: xlist_impl_def dest: same_outside_dom)
next
  case (4 h l xs)
  then show ?case using xlist_pop_front_spec [of h l "hd xs" "tl xs"]
    by (force simp: xlist_impl_def dest: same_outside_dom)
next
  case (5 h l xs)
  then show ?case using xlist_pop_back_spec [of h l "butlast xs" "last xs"]
    by (force simp: xlist_impl_def dest: same_outside_dom)
next
  case (13 h l xs i it a)
  then show ?case
    using xlist_insert_spec [of h l "take i xs" "drop i xs" a it] xit_at_value [of xs i it]
      xit_at_prev [of xs i it]
    by (force simp: xlist_impl_def dest: same_outside_dom)
next
  case (14 h l xs i it)
  then show ?case
    using xlist_erase_spec [of h l "take i xs" "xs ! i" "drop (Suc i) xs" it] split_nth [of i xs]
      xit_at_value [of xs i it] xit_at_prev [of xs i it]
    by (force simp: xlist_impl_def value_at_hd_or [symmetric] value_at_def dest: same_outside_dom)
qed (simp_all add: xlist_impl_def xlist_front_spec xlist_back_spec xlist_size_spec xlist_empty_spec
      xlist_begin_spec xlist_it_next_spec, simp add: xit_at_def xpos_def)

section \<open>Properties\<close>

text \<open>
  C13. Refinement of the memory-optimised list: with one XOR-ed pointer per hook, every
  sequence of appending, prepending, taking off at either end, reading both ends, size and emptiness, and inserting, erasing and reading at an
  iterator that has been moved forward from the beginning, which respects the client rules, runs without failed assertions
  or invalid accesses and returns what it returns on a plain list of addresses. Reverse iterators are not among the operations:
  erasing through one faults in this configuration (\<open>xlist_rerase_middle_fails\<close>).
\<close>

theorem xlist_run_refines:
  assumes "xlist_rep h l xs" "ops_ok (\<lambda>a. a \<in> dom h) xs ops"
  shows "deque_run xlist_impl h l ops = Some (spec_run xs ops)"
  using assms by (rule xlist.run_law)

abbreviation three_xhooks :: xhooks where
  "three_xhooks \<equiv> [8 \<mapsto> \<lparr>hook_p = 16\<rparr>, 16 \<mapsto> \<lparr>hook_p = 8 XOR 40\<rparr>, 40 \<mapsto> \<lparr>hook_p = 16\<rparr>]"

abbreviation three_xlist :: xlist_t where
  "three_xlist \<equiv> \<lparr>xlist_head = 8, xlist_tail = 40, xlist_size = 3\<rparr>"

theorem xlist_run_refines_witness:
  "deque_run xlist_impl three_xhooks three_xlist
     [Value_at 1, Erase_at 1, Back, Size, Prepend 16, Pop_back, Front, Value_at 1]
   = Some [Addr 16, Unit, Addr 40, Count 2, Unit, Unit, Addr 16, Addr 8]"
  using xlist_run_refines [of three_xhooks three_xlist "[8, 16, 40]"
     "[Value_at 1, Erase_at 1, Back, Size, Prepend 16, Pop_back, Front, Value_at 1]"]
  by (simp add: xlist_rep_def value_at_def)

text \<open>
  Iterator lookup in the memory-optimised list: for a hook of the list the search from
  the head terminates with the iterator at that hook, whose \<^verbatim>\<open>_prev\<close> is the neighbour before
  it, and erasing through it removes exactly that hook.
\<close>

theorem xlist_find_erase:
  assumes rep: "xlist_rep h l (xs @ x # ys)"
  shows "\<exists>it h' l'. dfk_list_it_from_value_x h l x = Some it
      \<and> xit_value it = x \<and> xit_prev it = last_or xs NULL
      \<and> dfk_list_erase_x h l it = Some (h', l') \<and> xlist_rep h' l' (xs @ ys)"
proof -
  obtain it where it: "dfk_list_it_from_value_x h l x = Some it" "xit_at (xs @ x # ys) (length xs) it"
    using xlist_it_from_value_spec [OF rep, of "length xs"] by auto
  have "xit_value it = x" "xit_prev it = last_or xs NULL"
    using xit_at_value [OF it(2)] xit_at_prev [OF it(2)] by simp_all
  with it xlist_erase_spec [OF rep] show ?thesis by blast
qed

theorem xlist_find_erase_witness:
  "\<exists>it h' l'. dfk_list_it_from_value_x three_xhooks three_xlist 16 = Some it
      \<and> xit_value it = 16 \<and> xit_prev it = 8
      \<and> dfk_list_erase_x three_xhooks three_xlist it = Some (h', l') \<and> xlist_rep h' l' [8, 40]"
  using xlist_find_erase [of three_xhooks three_xlist "[8]" 16 "[40]"]
  by (simp add: xlist_rep_def)

text \<open>
  A defect of the memory-optimised \<^verbatim>\<open>dfk_list_rerase\<close>: it derives the direct iterator's
  \<^verbatim>\<open>_prev\<close> from the hook's address instead of the hook's \<^verbatim>\<open>_p\<close>. On a well-formed list of
  three hooks, with the reverse iterator correctly at the middle one, the call faults
  instead of erasing the element, while the direct iterator erases it.
\<close>

theorem xlist_rerase_middle_fails:
  "xlist_rep three_xhooks three_xlist [8, 16, 40]
   \<and> dfk_list_rit_from_value_x three_xhooks three_xlist 16 = Some \<lparr>xrit_prev = 40, xrit_value = 16\<rparr>
   \<and> dfk_list_rerase_x three_xhooks three_xlist \<lparr>xrit_prev = 40, xrit_value = 16\<rparr> = None"
proof -
  have rep: "xlist_rep three_xhooks three_xlist [8, 16, 40]"
    by (simp add: xlist_rep_def)
  obtain rit where rit: "dfk_list_rit_from_value_x three_xhooks three_xlist 16 = Some rit"
    "xrit_at [8, 16, 40] 1 rit"
    using xlist_rit_from_value_spec [OF rep, of 1] by auto
  then have "rit = \<lparr>xrit_prev = 40, xrit_value = 16\<rparr>"
    by (cases rit) (simp add: xrit_at_def xpos_def value_at_def)
  moreover have "dfk_list_rerase_x three_xhooks three_xlist \<lparr>xrit_prev = 40, xrit_value = 16\<rparr> = None"
    using xlist_check_ok [OF rep] xlist_size_spec [OF rep]
    by (simp add: dfk_list_rerase_x_def dfk_list_erase_x_def ptr_xors modify_def load_def)
  ultimately show ?thesis using rep rit by simp
qed

end
