(* ===== verification/Dfk_Avl_Spec.thy ===== *)
theory Dfk_Avl_Spec
  imports Dfk_Prelude
begin

text \<open>
  Balanced trees of hook addresses with balance factors, as \<^verbatim>\<open>src/avltree.c\<close> keeps them, but
  without the heap: trees, one-hole contexts (the path from a node up to the root), the AVL
  property, the two rotations, and the two rebalancing procedures as functions on a tree with
  a hole. The theory of the C code shows that its pointer manipulations compute these functions.
\<close>

section \<open>Trees and contexts\<close>

datatype avl = Leaf | Node avl addr int avl

fun root :: "avl \<Rightarrow> addr" where
  "root Leaf = NULL"
| "root (Node l a b r) = a"

fun root_bal :: "avl \<Rightarrow> int" where
  "root_bal Leaf = 0"
| "root_bal (Node l a b r) = b"

fun inorder :: "avl \<Rightarrow> addr list" where
  "inorder Leaf = []"
| "inorder (Node l a b r) = inorder l @ a # inorder r"

fun height :: "avl \<Rightarrow> nat" where
  "height Leaf = 0"
| "height (Node l a b r) = 1 + max (height l) (height r)"

text \<open>Every balance factor is the height of the right subtree minus that of the left one.\<close>

fun balanced :: "avl \<Rightarrow> bool" where
  "balanced Leaf \<longleftrightarrow> True"
| "balanced (Node l a b r) \<longleftrightarrow>
     b = int (height r) - int (height l) \<and> \<bar>b\<bar> \<le> 1 \<and> balanced l \<and> balanced r"

text \<open>A step of the path from a hole upwards: the hole is the left or the right child.\<close>

datatype step = Lt addr int avl | Rt avl addr int

type_synonym ctx = "step list"

fun step_addr :: "step \<Rightarrow> addr" where
  "step_addr (Lt a b r) = a"
| "step_addr (Rt l a b) = a"

fun step_bal :: "step \<Rightarrow> int" where
  "step_bal (Lt a b r) = b"
| "step_bal (Rt l a b) = b"

fun step_dir :: "step \<Rightarrow> int" where
  "step_dir (Lt a b r) = - 1"
| "step_dir (Rt l a b) = 1"

fun step_fill :: "avl \<Rightarrow> step \<Rightarrow> avl" where
  "step_fill t (Lt a b r) = Node t a b r"
| "step_fill t (Rt l a b) = Node l a b t"

fun plug :: "avl \<Rightarrow> ctx \<Rightarrow> avl" where
  "plug t [] = t"
| "plug t (s # c) = plug (step_fill t s) c"

definition ctx_parent :: "ctx \<Rightarrow> addr" where
  "ctx_parent c = (case c of [] \<Rightarrow> NULL | s # _ \<Rightarrow> step_addr s)"

definition ctx_dir :: "ctx \<Rightarrow> int" where
  "ctx_dir c = (case c of [] \<Rightarrow> 0 | s # _ \<Rightarrow> step_dir s)"

fun ctx_left :: "ctx \<Rightarrow> addr list" where
  "ctx_left [] = []"
| "ctx_left (Lt a b r # c) = ctx_left c"
| "ctx_left (Rt l a b # c) = ctx_left c @ inorder l @ [a]"

fun ctx_right :: "ctx \<Rightarrow> addr list" where
  "ctx_right [] = []"
| "ctx_right (Lt a b r # c) = a # inorder r @ ctx_right c"
| "ctx_right (Rt l a b # c) = ctx_right c"

lemma ctx_parent_simps [simp]: "ctx_parent [] = NULL" "ctx_parent (s # c) = step_addr s"
  by (simp_all add: ctx_parent_def)

lemma ctx_dir_simps [simp]: "ctx_dir [] = 0" "ctx_dir (s # c) = step_dir s"
  by (simp_all add: ctx_dir_def)

lemma plug_append [simp]: "plug t (c @ d) = plug (plug t c) d"
  by (induction c arbitrary: t) simp_all

lemma inorder_plug [simp]: "inorder (plug t c) = ctx_left c @ inorder t @ ctx_right c"
  by (induction c arbitrary: t rule: ctx_left.induct) simp_all

lemma ctx_left_append [simp]: "ctx_left (c @ d) = ctx_left d @ ctx_left c"
  by (induction c rule: ctx_left.induct) simp_all

lemma ctx_right_append [simp]: "ctx_right (c @ d) = ctx_right c @ ctx_right d"
  by (induction c rule: ctx_right.induct) simp_all

lemma inorder_empty [simp]: "inorder t = [] \<longleftrightarrow> t = Leaf"
  by (cases t) simp_all

lemma height_zero [simp]: "height t = 0 \<longleftrightarrow> t = Leaf"
  by (cases t) simp_all

lemma root_in: "t \<noteq> Leaf \<Longrightarrow> root t \<in> set (inorder t)"
  by (cases t) simp_all

lemma plug_Leaf [simp]: "plug t c = Leaf \<longleftrightarrow> t = Leaf \<and> c = []"
proof (induction c arbitrary: t)
  case (Cons s c)
  then show ?case by (cases s) simp_all
qed simp

text \<open>Every element of a tree is the root of some subtree.\<close>

lemma split_at_element:
  "inorder t = xs @ a # ys \<Longrightarrow>
   \<exists>l b r c. t = plug (Node l a b r) c \<and> xs = ctx_left c @ inorder l \<and> ys = inorder r @ ctx_right c"
proof (induction t arbitrary: xs ys)
  case Leaf
  then show ?case by simp
next
  case (Node l a' b r)
  from Node.prems consider
      "xs = inorder l" "a = a'" "ys = inorder r"
    | us where "inorder l = xs @ a # us" "ys = us @ a' # inorder r"
    | us where "xs = inorder l @ a' # us" "inorder r = us @ a # ys"
    by (auto simp: append_eq_append_conv2 Cons_eq_append_conv append_eq_Cons_conv)
  then show ?case
  proof cases
    case 1
    then have "Node l a' b r = plug (Node l a b r) []" by simp
    with 1 show ?thesis by (metis ctx_left.simps(1) ctx_right.simps(1) append_Nil append_Nil2)
  next
    case 2
    then obtain l' b' r' c where c: "l = plug (Node l' a b' r') c"
      "xs = ctx_left c @ inorder l'" "us = inorder r' @ ctx_right c"
      using Node.IH(1) [of xs us] by blast
    then have "Node l a' b r = plug (Node l' a b' r') (c @ [Lt a' b r])" by simp
    with c 2 show ?thesis by fastforce
  next
    case 3
    then obtain l' b' r' c where c: "r = plug (Node l' a b' r') c"
      "us = ctx_left c @ inorder l'" "ys = inorder r' @ ctx_right c"
      using Node.IH(2) [of us ys] by blast
    then have "Node l a' b r = plug (Node l' a b' r') (c @ [Rt l a' b])" by simp
    with c 3 show ?thesis by fastforce
  qed
qed

section \<open>Balanced contexts\<close>

text \<open>\<open>ctx_balanced n c\<close>: a balanced tree of height \<open>n\<close> in the hole makes a balanced whole.\<close>

fun ctx_balanced :: "nat \<Rightarrow> ctx \<Rightarrow> bool" where
  "ctx_balanced n [] \<longleftrightarrow> True"
| "ctx_balanced n (Lt a b r # c) \<longleftrightarrow> b = int (height r) - int n \<and> \<bar>b\<bar> \<le> 1 \<and> balanced r
     \<and> ctx_balanced (1 + max n (height r)) c"
| "ctx_balanced n (Rt l a b # c) \<longleftrightarrow> b = int n - int (height l) \<and> \<bar>b\<bar> \<le> 1 \<and> balanced l
     \<and> ctx_balanced (1 + max (height l) n) c"

lemma balanced_plug [simp]: "balanced (plug t c) \<longleftrightarrow> balanced t \<and> ctx_balanced (height t) c"
proof (induction c arbitrary: t)
  case (Cons s c)
  then show ?case by (cases s) auto
qed simp

lemma ctx_balanced_append:
  "ctx_balanced (height t) (c @ d) \<longleftrightarrow> ctx_balanced (height t) c \<and> ctx_balanced (height (plug t c)) d"
proof (induction c arbitrary: t)
  case (Cons s c)
  then show ?case by (cases s) (use Cons.IH [of "step_fill t s"] in auto)
qed simp

section \<open>Rotations\<close>

text \<open>The tree above a node whose balance factor became 2 or -2, and the tree after the rotation.\<close>

fun single_rot :: "avl \<Rightarrow> avl" where
  "single_rot (Node l a b r) =
     (if b = 2 then (case r of Node rl x xb rr \<Rightarrow> Node (Node l a (1 - xb) rl) x (xb - 1) rr | Leaf \<Rightarrow> Leaf)
      else (case l of Node ll x xb lr \<Rightarrow> Node ll x (xb + 1) (Node lr a (- 1 - xb) r) | Leaf \<Rightarrow> Leaf))"
| "single_rot Leaf = Leaf"

fun double_rot :: "avl \<Rightarrow> avl" where
  "double_rot (Node l a ab r) =
     (if ab = 2 then
        (case r of Node (Node xl x xb xr) b _ rr \<Rightarrow>
           Node (Node l a (if xb = 1 then - 1 else 0) xl) x 0 (Node xr b (if xb = - 1 then 1 else 0) rr)
         | _ \<Rightarrow> Leaf)
      else
        (case l of Node ll b _ (Node xl x xb xr) \<Rightarrow>
           Node (Node ll b (if xb = 1 then - 1 else 0) xl) x 0 (Node xr a (if xb = - 1 then 1 else 0) r)
         | _ \<Rightarrow> Leaf))"
| "double_rot Leaf = Leaf"

definition rot_node :: "avl \<Rightarrow> avl" where
  "rot_node t = (case t of
     Node l a b r \<Rightarrow>
       if b = 2 \<and> root_bal r = - 1 \<or> b = - 2 \<and> root_bal l = 1 then double_rot t else single_rot t
   | Leaf \<Rightarrow> Leaf)"

lemma height_SucD: "height t = Suc n \<Longrightarrow> \<exists>l a b r. t = Node l a b r \<and> n = max (height l) (height r)"
  by (cases t) auto

text \<open>
  A node with balanced subtrees that is too heavy on the right by two: the rotation restores
  balance, keeps the order, and the height drops by one unless the heavy child was even.
\<close>

lemma rotate_right_heavy:
  assumes "balanced l" "balanced r" "height r = height l + 2"
  shows "balanced (rot_node (Node l a 2 r))" "inorder (rot_node (Node l a 2 r)) = inorder (Node l a 2 r)"
    "height (rot_node (Node l a 2 r)) = (if root_bal r = 0 then height l + 3 else height l + 2)"
proof -
  obtain rl x xb rr where r: "r = Node rl x xb rr" using assms(3) by (cases r) auto
  have xb: "xb = - 1 \<or> xb = 0 \<or> xb = 1" using assms(2) r by auto
  show "balanced (rot_node (Node l a 2 r))"
    using assms r xb by (cases rl) (auto simp: rot_node_def max_def split: if_splits)
  show "inorder (rot_node (Node l a 2 r)) = inorder (Node l a 2 r)"
    using assms r xb by (cases rl) (auto simp: rot_node_def max_def)
  show "height (rot_node (Node l a 2 r)) = (if root_bal r = 0 then height l + 3 else height l + 2)"
    using assms r xb by (cases rl) (auto simp: rot_node_def max_def split: if_splits)
qed

lemma rotate_left_heavy:
  assumes "balanced l" "balanced r" "height l = height r + 2"
  shows "balanced (rot_node (Node l a (- 2) r))"
    "inorder (rot_node (Node l a (- 2) r)) = inorder (Node l a (- 2) r)"
    "height (rot_node (Node l a (- 2) r)) = (if root_bal l = 0 then height r + 3 else height r + 2)"
proof -
  obtain ll x xb lr where l: "l = Node ll x xb lr" using assms(3) by (cases l) auto
  have xb: "xb = - 1 \<or> xb = 0 \<or> xb = 1" using assms(1) l by auto
  show "balanced (rot_node (Node l a (- 2) r))"
    using assms l xb by (cases lr) (auto simp: rot_node_def max_def split: if_splits)
  show "inorder (rot_node (Node l a (- 2) r)) = inorder (Node l a (- 2) r)"
    using assms l xb by (cases lr) (auto simp: rot_node_def max_def)
  show "height (rot_node (Node l a (- 2) r)) = (if root_bal l = 0 then height r + 3 else height r + 2)"
    using assms l xb by (cases lr) (auto simp: rot_node_def max_def split: if_splits)
qed

section \<open>Insertion at a hole\<close>

text \<open>
  After a new leaf was put below the hole, every balance factor on the path from the lowest
  unbalanced ancestor down to the leaf moves by one towards the leaf.
\<close>

fun bump :: "step \<Rightarrow> step" where
  "bump (Lt a b r) = Lt a (b - 1) r"
| "bump (Rt l a b) = Rt l a (b + 1)"

lemma bump_simps [simp]:
  "step_addr (bump s) = step_addr s" "step_dir (bump s) = step_dir s"
  by (cases s; simp)+

lemma ctx_bump [simp]:
  "ctx_left (map bump c) = ctx_left c" "ctx_right (map bump c) = ctx_right c"
  "ctx_parent (map bump c) = ctx_parent c" "ctx_dir (map bump c) = ctx_dir c"
  by (induction c rule: ctx_left.induct) simp_all

text \<open>Along a path of even nodes the height grows all the way up.\<close>

lemma bump_zero_path:
  assumes "balanced t" "ctx_balanced n c" "\<forall>s \<in> set c. step_bal s = 0"
    and "height t = n + 1" "n = height u"
  shows "balanced (plug t (map bump c))" "height (plug t (map bump c)) = height (plug u c) + 1"
    "c \<noteq> [] \<Longrightarrow> root_bal (plug t (map bump c)) \<noteq> 0"
proof -
  have "balanced (plug t (map bump c)) \<and> height (plug t (map bump c)) = height (plug u c) + 1
      \<and> (c \<noteq> [] \<longrightarrow> root_bal (plug t (map bump c)) \<noteq> 0)"
    using assms
  proof (induction c arbitrary: t n u)
    case (Cons s c)
    show ?case
    proof (cases s)
      case (Lt a b r)
      with Cons.prems have "height r = n" "b = 0" by auto
      then show ?thesis
        using Lt Cons.prems Cons.IH [of "step_fill t (bump s)" "n + 1" "step_fill u s"]
        by (cases "c = []") auto
    next
      case (Rt l a b)
      with Cons.prems have "height l = n" "b = 0" by auto
      then show ?thesis
        using Rt Cons.prems Cons.IH [of "step_fill t (bump s)" "n + 1" "step_fill u s"]
        by (cases "c = []") auto
    qed
  qed simp
  then show "balanced (plug t (map bump c))" "height (plug t (map bump c)) = height (plug u c) + 1"
    "c \<noteq> [] \<Longrightarrow> root_bal (plug t (map bump c)) \<noteq> 0" by auto
qed

definition rotate_if_needed :: "avl \<Rightarrow> avl" where
  "rotate_if_needed t = (if root_bal t = 2 \<or> root_bal t = - 2 then rot_node t else t)"

text \<open>
  The tree after an insertion: \<open>d\<close> is the path of even nodes from the new leaf up to the
  prime node \<open>p\<close>, whose subtree is rotated if it tips over; \<open>c\<close> is the unchanged rest.
\<close>

definition insert_at :: "addr \<Rightarrow> ctx \<Rightarrow> step \<Rightarrow> avl" where
  "insert_at e d p = rotate_if_needed (plug (Node Leaf e 0 Leaf) (map bump (d @ [p])))"

text \<open>The prime node, its subtree on the path having grown by one.\<close>

lemma prime_step:
  assumes t: "balanced t" "height t = n + 1" "ctx_balanced n [p]"
    and tip: "0 < n \<Longrightarrow> root_bal t \<noteq> 0"
  shows "balanced (rotate_if_needed (step_fill t (bump p)))
    \<and> inorder (rotate_if_needed (step_fill t (bump p))) = inorder (step_fill t p)
    \<and> (step_bal p \<noteq> 0 \<longrightarrow> height s = n \<longrightarrow>
         height (rotate_if_needed (step_fill t (bump p))) = height (step_fill s p))"
proof (cases p)
  case (Lt a b r)
  with t(3) consider "b = 1" "height r = n + 1" "balanced r" | "b = 0" "height r = n" "balanced r"
    | "b = - 1" "n = height r + 1" "balanced r" by force
  then show ?thesis
    by cases (use Lt t tip rotate_left_heavy [of t r a] in \<open>auto simp: rotate_if_needed_def\<close>)
next
  case (Rt l a b)
  with t(3) consider "b = - 1" "height l = n + 1" "balanced l" | "b = 0" "height l = n" "balanced l"
    | "b = 1" "n = height l + 1" "balanced l" by force
  then show ?thesis
    by cases (use Rt t tip rotate_right_heavy [of l t a] in \<open>auto simp: rotate_if_needed_def\<close>)
qed

lemma insert_at_ok:
  assumes "ctx_balanced 0 (d @ [p])" "\<forall>s \<in> set d. step_bal s = 0"
  shows "inorder (insert_at e d p) = ctx_left (d @ [p]) @ e # ctx_right (d @ [p])"
    and "balanced (insert_at e d p)"
    and "step_bal p \<noteq> 0 \<Longrightarrow> height (insert_at e d p) = height (plug Leaf (d @ [p]))"
proof -
  let ?t = "plug (Node Leaf e 0 Leaf) (map bump d)" and ?u = "plug Leaf d"
  have bd: "ctx_balanced 0 d" "ctx_balanced (height ?u) [p]"
    using assms(1) ctx_balanced_append [of Leaf d "[p]"] by auto
  have t: "balanced ?t" "height ?t = height ?u + 1" "d \<noteq> [] \<Longrightarrow> root_bal ?t \<noteq> 0"
    using bump_zero_path [of "Node Leaf e 0 Leaf" 0 d Leaf] bd assms(2) by auto
  have tip: "root_bal ?t \<noteq> 0" if "0 < height ?u"
    using that t(3) by (cases "d = []") simp_all
  have "inorder (step_fill ?t p) = ctx_left (d @ [p]) @ e # ctx_right (d @ [p])"
    by (cases p) simp_all
  then show "inorder (insert_at e d p) = ctx_left (d @ [p]) @ e # ctx_right (d @ [p])"
    "balanced (insert_at e d p)"
    "step_bal p \<noteq> 0 \<Longrightarrow> height (insert_at e d p) = height (plug Leaf (d @ [p]))"
    using prime_step [OF t(1,2) bd(2) tip, of ?u] by (simp_all add: insert_at_def)
qed

text \<open>If the prime node tips over, its heavy child is uneven and has children of its own.\<close>

definition tips_over :: "avl \<Rightarrow> bool" where
  "tips_over t \<longleftrightarrow> (case t of Leaf \<Rightarrow> False | Node l a b r \<Rightarrow>
     (b = 2 \<longrightarrow> balanced r \<and> 2 \<le> height r \<and> root_bal r \<noteq> 0) \<and>
     (b = - 2 \<longrightarrow> balanced l \<and> 2 \<le> height l \<and> root_bal l \<noteq> 0))"

lemma insert_at_tips_over:
  assumes "ctx_balanced 0 (d @ [p])" "\<forall>s \<in> set d. step_bal s = 0"
  shows "tips_over (plug (Node Leaf e 0 Leaf) (map bump (d @ [p])))"
proof -
  let ?t = "plug (Node Leaf e 0 Leaf) (map bump d)" and ?u = "plug Leaf d"
  have bd: "ctx_balanced 0 d" "ctx_balanced (height ?u) [p]"
    using assms(1) ctx_balanced_append [of Leaf d "[p]"] by auto
  have t: "balanced ?t" "height ?t = height ?u + 1" "d \<noteq> [] \<Longrightarrow> root_bal ?t \<noteq> 0"
    using bump_zero_path [of "Node Leaf e 0 Leaf" 0 d Leaf] bd assms(2) by auto
  have tip: "root_bal ?t \<noteq> 0" if "0 < height ?u"
    using that t(3) by (cases "d = []") simp_all
  show ?thesis
    using bd(2) t(1,2) tip by (cases p) (auto simp: tips_over_def)
qed

section \<open>Rebalancing after a removal\<close>

text \<open>
  The subtree \<open>t\<close> in the hole of the context has become lower by one. Each step upwards
  adjusts the balance factor, rotates if needed, and stops when the height is unchanged.
\<close>

fun shrink_step :: "avl \<Rightarrow> step \<Rightarrow> avl \<times> bool" where
  "shrink_step t (Lt a b r) =
     (if b + 1 = 1 then (Node t a 1 r, True)
      else if b + 1 = 2 then (rot_node (Node t a 2 r), root_bal r = 0)
      else (Node t a (b + 1) r, False))"
| "shrink_step t (Rt l a b) =
     (if b - 1 = - 1 then (Node l a (- 1) t, True)
      else if b - 1 = - 2 then (rot_node (Node l a (- 2) t), root_bal l = 0)
      else (Node l a (b - 1) t, False))"

fun shrink :: "avl \<Rightarrow> ctx \<Rightarrow> avl" where
  "shrink t [] = t"
| "shrink t (s # c) = (case shrink_step t s of (t', stop) \<Rightarrow> if stop then plug t' c else shrink t' c)"

lemma shrink_step_ok:
  assumes "balanced t" "ctx_balanced (height t + 1) (s # c)" "shrink_step t s = (t', stop)"
  shows "balanced t' \<and> inorder t' = inorder (step_fill t s)
    \<and> ctx_balanced (if stop then height t' else height t' + 1) c"
proof (cases s)
  case (Lt a b r)
  then have up: "ctx_balanced (1 + max (height t + 1) (height r)) c" using assms(2) by simp
  from assms(2) Lt consider "b = 1" "height r = height t + 2" "balanced r"
    | "b = 0" "height r = height t + 1" "balanced r" | "b = - 1" "height r = height t" "balanced r"
    by force
  then show ?thesis
    by cases (use Lt assms(1,3) up rotate_right_heavy [of t r a] in \<open>auto simp: numeral_3_eq_3\<close>)
next
  case (Rt l a b)
  then have up: "ctx_balanced (1 + max (height l) (height t + 1)) c" using assms(2) by simp
  from assms(2) Rt consider "b = - 1" "height l = height t + 2" "balanced l"
    | "b = 0" "height l = height t + 1" "balanced l" | "b = 1" "height l = height t" "balanced l"
    by force
  then show ?thesis
    by cases (use Rt assms(1,3) up rotate_left_heavy [of l t a] in \<open>auto simp: numeral_3_eq_3\<close>)
qed

lemma shrink_ok:
  "balanced t \<Longrightarrow> ctx_balanced (height t + 1) c \<Longrightarrow>
   balanced (shrink t c) \<and> inorder (shrink t c) = ctx_left c @ inorder t @ ctx_right c"
proof (induction c arbitrary: t)
  case Nil
  then show ?case by simp
next
  case (Cons s c)
  obtain t' stop where s: "shrink_step t s = (t', stop)" by fastforce
  have eq: "shrink t (s # c) = (if stop then plug t' c else shrink t' c)" by (simp add: s)
  have io: "ctx_left (s # c) @ inorder t @ ctx_right (s # c) = ctx_left c @ inorder (step_fill t s) @ ctx_right c"
    by (cases s) simp_all
  show ?case
    unfolding eq io using shrink_step_ok [OF Cons.prems s] Cons.IH [of t'] by (cases stop) simp_all
qed

section \<open>Ordered lists and the comparison callback\<close>

text \<open>
  The callback's contract on a set of elements, as a three-way comparison: a positive result
  places the second argument after the first one, a negative result before it.
\<close>

definition cmp_ok :: "addr set \<Rightarrow> (addr \<Rightarrow> addr \<Rightarrow> int) \<Rightarrow> bool" where
  "cmp_ok A cmp \<longleftrightarrow> (\<forall>x\<in>A. \<forall>y\<in>A. cmp x y < 0 \<longleftrightarrow> 0 < cmp y x) \<and>
     (\<forall>x\<in>A. \<forall>y\<in>A. \<forall>z\<in>A. 0 < cmp x y \<longrightarrow> 0 < cmp y z \<longrightarrow> 0 < cmp x z)"

definition ordered :: "(addr \<Rightarrow> addr \<Rightarrow> int) \<Rightarrow> addr list \<Rightarrow> bool" where
  "ordered cmp xs \<longleftrightarrow> sorted_wrt (\<lambda>x y. 0 < cmp x y) xs"

lemma ordered_append:
  "ordered cmp (xs @ ys) \<longleftrightarrow> ordered cmp xs \<and> ordered cmp ys \<and> (\<forall>x\<in>set xs. \<forall>y\<in>set ys. 0 < cmp x y)"
  by (simp add: ordered_def sorted_wrt_append)

lemma ordered_Cons: "ordered cmp (x # xs) \<longleftrightarrow> (\<forall>y\<in>set xs. 0 < cmp x y) \<and> ordered cmp xs"
  by (simp add: ordered_def)

lemma ordered_Nil [simp]: "ordered cmp []"
  by (simp add: ordered_def)

lemmas ordered_simps = ordered_append ordered_Cons

lemma cmp_okD:
  assumes "cmp_ok A cmp"
  shows "x \<in> A \<Longrightarrow> y \<in> A \<Longrightarrow> cmp x y < 0 \<longleftrightarrow> 0 < cmp y x"
    "x \<in> A \<Longrightarrow> y \<in> A \<Longrightarrow> z \<in> A \<Longrightarrow> 0 < cmp x y \<Longrightarrow> 0 < cmp y z \<Longrightarrow> 0 < cmp x z"
  using assms unfolding cmp_ok_def by blast+

lemma cmp_ok_mono: "cmp_ok A cmp \<Longrightarrow> B \<subseteq> A \<Longrightarrow> cmp_ok B cmp"
  unfolding cmp_ok_def by blast

lemma cmp_ok_empty [simp]: "cmp_ok {} cmp"
  by (simp add: cmp_ok_def)

lemma ordered_distinct: "cmp_ok (set xs) cmp \<Longrightarrow> ordered cmp xs \<Longrightarrow> distinct xs"
proof (induction xs)
  case (Cons x xs)
  have "x \<notin> set xs"
    using cmp_okD(1) [OF Cons.prems(1), of x x] Cons.prems(2) by (auto simp: ordered_Cons)
  with Cons cmp_ok_mono [OF Cons.prems(1)] show ?case by (auto simp: ordered_Cons)
qed simp

text \<open>Insertion into an ordered list; an element that compares equal is already there.\<close>

fun ins :: "(addr \<Rightarrow> addr \<Rightarrow> int) \<Rightarrow> addr \<Rightarrow> addr list \<Rightarrow> addr list" where
  "ins cmp e [] = [e]"
| "ins cmp e (x # xs) =
     (if cmp x e < 0 then e # x # xs else if 0 < cmp x e then x # ins cmp e xs else x # xs)"

lemma ins_split:
  assumes "\<forall>x\<in>set ls. 0 < cmp x e" "\<forall>x\<in>set rs. cmp x e < 0"
  shows "ins cmp e (ls @ rs) = ls @ e # rs"
  using assms by (induction ls) (cases rs; simp)+

lemma set_ins_subset: "set (ins cmp e xs) \<subseteq> insert e (set xs)"
  by (induction xs) auto

lemma ordered_ins: "cmp_ok (insert e (set xs)) cmp \<Longrightarrow> ordered cmp xs \<Longrightarrow> ordered cmp (ins cmp e xs)"
proof (induction xs)
  case (Cons x xs)
  have ok: "cmp_ok (insert e (set xs)) cmp" using cmp_ok_mono [OF Cons.prems(1)] by auto
  note d = cmp_okD [OF Cons.prems(1)]
  have "0 < cmp e y" if "cmp x e < 0" "y \<in> set xs" for y
    using d(1) [of x e] d(2) [of e x y] that Cons.prems(2) by (auto simp: ordered_Cons)
  with Cons.prems Cons.IH [OF ok] d(1) [of x e] set_ins_subset [of cmp e xs] show ?case
    by (auto simp: ordered_Cons)
qed (simp add: ordered_def)

end
