(* ===== verification/Dfk_Avltree.thy ===== *)
theory Dfk_Avltree
  imports Dfk_Avl_Spec
begin

text \<open>
  The intrusive AVL tree of \<^verbatim>\<open>src/avltree.c\<close>: hooks with child and parent pointers and a
  \<^verbatim>\<open>signed char\<close> balance factor, insertion with the search for the prime node, erasure with
  bottom-up rebalancing, lookup and in-order iteration, with the run-time invariant checks of
  a build without \<^verbatim>\<open>NDEBUG\<close>. The first part translates the C code; the second shows that it
  computes the functions of the theory of balanced trees.
\<close>

section \<open>Data\<close>

record dfk_avltree_hook_t =
  avl_left :: addr
  avl_right :: addr
  avl_parent :: addr
  avl_bal :: int

type_synonym avl_hooks = "dfk_avltree_hook_t mem"

record dfk_avltree_t =
  avl_root :: addr
  avl_cmp :: "addr \<Rightarrow> addr \<Rightarrow> int"
  avl_size :: size_t

record dfk_avltree_it =
  avl_it_value :: addr

text \<open>Conversion to \<^verbatim>\<open>signed char\<close>, and the value of a C logical negation.\<close>

definition schar :: "int \<Rightarrow> int" where
  "schar x = (x + 128) mod 256 - 128"

definition c_not :: "int \<Rightarrow> int" where
  "c_not x = (if x = 0 then 1 else 0)"

text \<open>Reading one field of a struct.\<close>

definition field :: "'a mem \<Rightarrow> addr \<Rightarrow> ('a \<Rightarrow> 'b) \<Rightarrow> 'b option" where
  "field h p f = do { v \<leftarrow> load h p; Some (f v) }"

abbreviation set_left :: "avl_hooks \<Rightarrow> addr \<Rightarrow> addr \<Rightarrow> avl_hooks option" where
  "set_left h p x \<equiv> modify h p (avl_left_update (\<lambda>_. x))"

abbreviation set_right :: "avl_hooks \<Rightarrow> addr \<Rightarrow> addr \<Rightarrow> avl_hooks option" where
  "set_right h p x \<equiv> modify h p (avl_right_update (\<lambda>_. x))"

abbreviation set_parent :: "avl_hooks \<Rightarrow> addr \<Rightarrow> addr \<Rightarrow> avl_hooks option" where
  "set_parent h p x \<equiv> modify h p (avl_parent_update (\<lambda>_. x))"

abbreviation set_bal :: "avl_hooks \<Rightarrow> addr \<Rightarrow> int \<Rightarrow> avl_hooks option" where
  "set_bal h p x \<equiv> modify h p (avl_bal_update (\<lambda>_. schar x))"

text \<open>\<^verbatim>\<open>if (p) p->_parent = q;\<close>\<close>

definition set_parent_opt :: "avl_hooks \<Rightarrow> addr \<Rightarrow> addr \<Rightarrow> avl_hooks option" where
  "set_parent_opt h p q = (if p \<noteq> NULL then set_parent h p q else Some h)"

section \<open>Run-time invariant checks\<close>

partial_function (option) dfk__avltree_check_invariants_node ::
  "avl_hooks \<Rightarrow> addr \<Rightarrow> size_t option" where
  "dfk__avltree_check_invariants_node h node = do {
     c_assert (node \<noteq> NULL);
     l \<leftarrow> field h node avl_left;
     lheight \<leftarrow> (if l \<noteq> NULL then do {
         p \<leftarrow> field h l avl_parent;
         c_assert (p = node);
         dfk__avltree_check_invariants_node h l
       } else Some 0);
     r \<leftarrow> field h node avl_right;
     rheight \<leftarrow> (if r \<noteq> NULL then do {
         p \<leftarrow> field h r avl_parent;
         c_assert (p = node);
         dfk__avltree_check_invariants_node h r
       } else Some 0);
     c_assert (\<bar>sint (ucast (lheight - rheight) :: 32 word)\<bar> \<le> 1);
     b \<leftarrow> field h node avl_bal;
     c_assert (b = sint (ucast (rheight - lheight) :: 8 word));
     Some (1 + max lheight rheight)
   }"

definition dfk__avltree_check_invariants :: "avl_hooks \<Rightarrow> dfk_avltree_t \<Rightarrow> unit option" where
  "dfk__avltree_check_invariants h tree =
     (if avl_root tree \<noteq> NULL then do {
        p \<leftarrow> field h (avl_root tree) avl_parent;
        c_assert (p = NULL);
        dfk__avltree_check_invariants_node h (avl_root tree);
        Some ()
      } else Some ())"

section \<open>Initialisation\<close>

definition dfk_avltree_init :: "avl_hooks \<Rightarrow> (addr \<Rightarrow> addr \<Rightarrow> int) \<Rightarrow> dfk_avltree_t option" where
  "dfk_avltree_init h cmp = do {
     let tree = \<lparr>avl_root = NULL, avl_cmp = cmp, avl_size = 0\<rparr>;
     dfk__avltree_check_invariants h tree;
     Some tree
   }"

definition dfk_avltree_hook_init :: "avl_hooks \<Rightarrow> addr \<Rightarrow> avl_hooks option" where
  "dfk_avltree_hook_init h hook = do {
     c_assert (hook \<noteq> NULL);
     h \<leftarrow> set_left h hook NULL;
     h \<leftarrow> set_right h hook NULL;
     h \<leftarrow> set_parent h hook NULL;
     h \<leftarrow> set_bal h hook 0;
     Some h
   }"

section \<open>Rotations\<close>

definition dfk__avltree_single_rot :: "avl_hooks \<Rightarrow> addr \<Rightarrow> (avl_hooks \<times> addr) option" where
  "dfk__avltree_single_rot h prime = do {
     pbal \<leftarrow> field h prime avl_bal;
     if pbal = 2 then do {
       x \<leftarrow> field h prime avl_right;
       c_assert (x \<noteq> NULL);
       xbal \<leftarrow> field h x avl_bal;
       c_assert (xbal = 0 \<or> xbal = 1);
       xl \<leftarrow> field h x avl_left;
       h \<leftarrow> set_right h prime xl;
       xl \<leftarrow> field h x avl_left;
       h \<leftarrow> set_parent_opt h xl prime;
       h \<leftarrow> set_left h x prime;
       h \<leftarrow> set_parent h prime x;
       xbal \<leftarrow> field h x avl_bal;
       h \<leftarrow> set_bal h prime (1 - xbal);
       xbal \<leftarrow> field h x avl_bal;
       h \<leftarrow> set_bal h x (xbal - 1);
       Some (h, x)
     } else do {
       x \<leftarrow> field h prime avl_left;
       c_assert (pbal = - 2);
       c_assert (x \<noteq> NULL);
       xbal \<leftarrow> field h x avl_bal;
       c_assert (xbal = 0 \<or> xbal = - 1);
       xr \<leftarrow> field h x avl_right;
       h \<leftarrow> set_left h prime xr;
       xr \<leftarrow> field h x avl_right;
       h \<leftarrow> set_parent_opt h xr prime;
       h \<leftarrow> set_right h x prime;
       h \<leftarrow> set_parent h prime x;
       xbal \<leftarrow> field h x avl_bal;
       h \<leftarrow> set_bal h prime (- 1 - xbal);
       xbal \<leftarrow> field h x avl_bal;
       h \<leftarrow> set_bal h x (xbal + 1);
       Some (h, x)
     }
   }"

definition dfk__avltree_double_rot :: "avl_hooks \<Rightarrow> addr \<Rightarrow> (avl_hooks \<times> addr) option" where
  "dfk__avltree_double_rot h prime = do {
     pbal \<leftarrow> field h prime avl_bal;
     if pbal = 2 then do {
       b \<leftarrow> field h prime avl_right;
       x \<leftarrow> field h b avl_left;
       xl \<leftarrow> field h x avl_left;
       h \<leftarrow> set_right h prime xl;
       h \<leftarrow> set_parent_opt h xl prime;
       h \<leftarrow> set_left h x prime;
       h \<leftarrow> set_parent h prime x;
       xr \<leftarrow> field h x avl_right;
       h \<leftarrow> set_left h b xr;
       h \<leftarrow> set_parent_opt h xr b;
       h \<leftarrow> set_right h x b;
       h \<leftarrow> set_parent h b x;
       xbal \<leftarrow> field h x avl_bal;
       h \<leftarrow> set_bal h b (c_not (xbal + 1));
       xbal \<leftarrow> field h x avl_bal;
       h \<leftarrow> set_bal h prime (0 - c_not (xbal - 1));
       h \<leftarrow> set_bal h x 0;
       Some (h, x)
     } else do {
       b \<leftarrow> field h prime avl_left;
       x \<leftarrow> field h b avl_right;
       xr \<leftarrow> field h x avl_right;
       h \<leftarrow> set_left h prime xr;
       h \<leftarrow> set_parent_opt h xr prime;
       h \<leftarrow> set_right h x prime;
       h \<leftarrow> set_parent h prime x;
       xl \<leftarrow> field h x avl_left;
       h \<leftarrow> set_right h b xl;
       h \<leftarrow> set_parent_opt h xl b;
       h \<leftarrow> set_left h x b;
       h \<leftarrow> set_parent h b x;
       xbal \<leftarrow> field h x avl_bal;
       h \<leftarrow> set_bal h b (0 - c_not (xbal - 1));
       xbal \<leftarrow> field h x avl_bal;
       h \<leftarrow> set_bal h prime (c_not (xbal + 1));
       h \<leftarrow> set_bal h x 0;
       Some (h, x)
     }
   }"

definition dfk__avltree_promote_prime ::
  "avl_hooks \<Rightarrow> int \<Rightarrow> addr \<Rightarrow> addr \<Rightarrow> dfk_avltree_t \<Rightarrow> (avl_hooks \<times> dfk_avltree_t) option" where
  "dfk__avltree_promote_prime h prime_parent_dir prime prime_parent tree =
     (if prime_parent_dir = 0 then do {
        let tree = tree\<lparr>avl_root := prime\<rparr>;
        h \<leftarrow> set_parent h (avl_root tree) NULL;
        Some (h, tree)
      } else do {
        h \<leftarrow> (if prime_parent_dir = 1 then set_right h prime_parent prime
             else do { c_assert (prime_parent_dir = - 1); set_left h prime_parent prime });
        h \<leftarrow> set_parent h prime prime_parent;
        Some (h, tree)
      })"

section \<open>Insertion\<close>

text \<open>
  The loop that looks for the insertion point and links \<open>e\<close> there, keeping the lowest node with
  a non-zero balance as \<open>prime\<close>. \<^term>\<open>Some (h, None)\<close> is the early return for an element that
  compares equal to one in the tree.
\<close>

partial_function (option) insert_search ::
  "(addr \<Rightarrow> addr \<Rightarrow> int) \<Rightarrow> addr \<Rightarrow> avl_hooks \<Rightarrow> addr \<Rightarrow> addr \<Rightarrow> addr \<Rightarrow> int
    \<Rightarrow> (avl_hooks \<times> (addr \<times> addr \<times> int) option) option" where
  "insert_search cmp e h i prime prime_parent prime_parent_dir =
     (if cmp i e < 0 then do {
        l \<leftarrow> field h i avl_left;
        if l \<noteq> NULL then do {
          lbal \<leftarrow> field h l avl_bal;
          if lbal \<noteq> 0 then insert_search cmp e h l l i (- 1)
          else insert_search cmp e h l prime prime_parent prime_parent_dir
        } else do {
          h \<leftarrow> set_left h i e;
          h \<leftarrow> set_parent h e i;
          Some (h, Some (prime, prime_parent, prime_parent_dir))
        }
      } else if cmp i e > 0 then do {
        r \<leftarrow> field h i avl_right;
        if r \<noteq> NULL then do {
          rbal \<leftarrow> field h r avl_bal;
          if rbal \<noteq> 0 then insert_search cmp e h r r i 1
          else insert_search cmp e h r prime prime_parent prime_parent_dir
        } else do {
          h \<leftarrow> set_right h i e;
          h \<leftarrow> set_parent h e i;
          Some (h, Some (prime, prime_parent, prime_parent_dir))
        }
      } else Some (h, None))"

partial_function (option) insert_update_bal ::
  "(addr \<Rightarrow> addr \<Rightarrow> int) \<Rightarrow> addr \<Rightarrow> avl_hooks \<Rightarrow> addr \<Rightarrow> avl_hooks option" where
  "insert_update_bal cmp e h i =
     (if i \<noteq> e then
        (if cmp i e < 0 then do {
           b \<leftarrow> field h i avl_bal;
           h \<leftarrow> set_bal h i (b - 1);
           i \<leftarrow> field h i avl_left;
           insert_update_bal cmp e h i
         } else do {
           c_assert (cmp i e > 0);
           b \<leftarrow> field h i avl_bal;
           h \<leftarrow> set_bal h i (b + 1);
           i \<leftarrow> field h i avl_right;
           insert_update_bal cmp e h i
         })
      else Some h)"

text \<open>The rotation at the prime node, \<^verbatim>\<open>NULL\<close> when none is needed.\<close>

definition insert_rotate :: "avl_hooks \<Rightarrow> addr \<Rightarrow> (avl_hooks \<times> addr) option" where
  "insert_rotate h prime = do {
     pbal \<leftarrow> field h prime avl_bal;
     double \<leftarrow>
       (if pbal = 2 then do { r \<leftarrow> field h prime avl_right; rb \<leftarrow> field h r avl_bal; Some (rb = - 1) }
        else if pbal = - 2 then do { l \<leftarrow> field h prime avl_left; lb \<leftarrow> field h l avl_bal; Some (lb = 1) }
        else Some False);
     if double then dfk__avltree_double_rot h prime
     else if pbal = 2 \<or> pbal = - 2 then do {
       ok \<leftarrow>
         (if pbal = 2 then do { r \<leftarrow> field h prime avl_right; rb \<leftarrow> field h r avl_bal; Some (rb = 1) }
          else do { l \<leftarrow> field h prime avl_left; lb \<leftarrow> field h l avl_bal; Some (lb = - 1) });
       c_assert ok;
       dfk__avltree_single_rot h prime
     } else Some (h, NULL)
   }"

text \<open>The third component of the result is the returned pointer.\<close>

definition dfk_avltree_insert ::
  "avl_hooks \<Rightarrow> dfk_avltree_t \<Rightarrow> addr \<Rightarrow> (avl_hooks \<times> dfk_avltree_t \<times> addr) option" where
  "dfk_avltree_insert h tree e = do {
     dfk__avltree_check_invariants h tree;
     c_assert (e \<noteq> NULL);
     v \<leftarrow> load h e;
     c_assert (avl_left v = NULL);
     c_assert (avl_right v = NULL);
     c_assert (avl_parent v = NULL);
     c_assert (avl_bal v = 0);
     if avl_root tree = NULL then do {
       let tree = tree\<lparr>avl_root := e\<rparr>;
       let tree = tree\<lparr>avl_size := 1\<rparr>;
       Some (h, tree, avl_root tree)
     } else do {
       (h, found) \<leftarrow> insert_search (avl_cmp tree) e h (avl_root tree) (avl_root tree) NULL 0;
       (case found of
          None \<Rightarrow> Some (h, tree, NULL)
        | Some (prime, prime_parent, prime_parent_dir) \<Rightarrow> do {
            h \<leftarrow> insert_update_bal (avl_cmp tree) e h prime;
            (h, new_prime) \<leftarrow> insert_rotate h prime;
            (h, tree) \<leftarrow> (if new_prime \<noteq> NULL
              then dfk__avltree_promote_prime h prime_parent_dir new_prime prime_parent tree
              else Some (h, tree));
            let tree = tree\<lparr>avl_size := avl_size tree + 1\<rparr>;
            dfk__avltree_check_invariants h tree;
            Some (h, tree, e)
          })
     }
   }"

section \<open>Erasure\<close>

text \<open>\<^verbatim>\<open>parent ? (parent->_left == p ? -1 : 1) : 0\<close>\<close>

definition child_dir :: "avl_hooks \<Rightarrow> addr \<Rightarrow> addr \<Rightarrow> int option" where
  "child_dir h parent p =
     (if parent \<noteq> NULL then do { l \<leftarrow> field h parent avl_left; Some (if l = p then - 1 else 1) }
      else Some 0)"

text \<open>\<^verbatim>\<open>while (i->_left->_left) i = i->_left;\<close>\<close>

partial_function (option) erase_lookup_x :: "avl_hooks \<Rightarrow> addr \<Rightarrow> addr option" where
  "erase_lookup_x h i = do {
     l \<leftarrow> field h i avl_left;
     ll \<leftarrow> field h l avl_left;
     if ll \<noteq> NULL then erase_lookup_x h l else Some i
   }"

text \<open>
  The three cases of unlinking \<open>e\<close>: the node that takes its place, the node to rebalance from
  and the side of it that lost a node.
\<close>

definition erase_unlink :: "avl_hooks \<Rightarrow> addr \<Rightarrow> (avl_hooks \<times> addr \<times> addr \<times> int) option" where
  "erase_unlink h e = do {
     er \<leftarrow> field h e avl_right;
     if er = NULL then do {
       newe \<leftarrow> field h e avl_left;
       prime \<leftarrow> field h e avl_parent;
       dir \<leftarrow> child_dir h prime e;
       Some (h, newe, prime, dir)
     } else do {
       erl \<leftarrow> field h er avl_left;
       if erl = NULL then do {
         let r = er;
         a \<leftarrow> field h e avl_left;
         h \<leftarrow> set_left h r a;
         h \<leftarrow> set_parent_opt h a r;
         eb \<leftarrow> field h e avl_bal;
         h \<leftarrow> set_bal h r eb;
         Some (h, r, r, 1)
       } else do {
         let r = er;
         a \<leftarrow> field h e avl_left;
         rl \<leftarrow> field h r avl_left;
         c_assert (rl \<noteq> NULL);
         x \<leftarrow> erase_lookup_x h r;
         y \<leftarrow> field h x avl_left;
         c_assert (y \<noteq> NULL);
         yl \<leftarrow> field h y avl_left;
         c_assert (yl = NULL);
         z \<leftarrow> field h y avl_right;
         el \<leftarrow> field h e avl_left;
         h \<leftarrow> set_left h y el;
         er \<leftarrow> field h e avl_right;
         h \<leftarrow> set_right h y er;
         eb \<leftarrow> field h e avl_bal;
         h \<leftarrow> set_bal h y eb;
         h \<leftarrow> set_parent h r y;
         h \<leftarrow> set_parent h a y;
         h \<leftarrow> set_left h x z;
         h \<leftarrow> set_parent_opt h z x;
         Some (h, y, x, - 1)
       }
     }
   }"

text \<open>The node \<open>newe\<close> takes the place of \<open>e\<close> below the parent of \<open>e\<close>.\<close>

definition erase_relink ::
  "avl_hooks \<Rightarrow> dfk_avltree_t \<Rightarrow> addr \<Rightarrow> addr \<Rightarrow> (avl_hooks \<times> dfk_avltree_t) option" where
  "erase_relink h tree e newe = do {
     ep \<leftarrow> field h e avl_parent;
     (h, tree) \<leftarrow>
       (if ep \<noteq> NULL then do {
          epl \<leftarrow> field h ep avl_left;
          h \<leftarrow> (if epl = e then set_left h ep newe else set_right h ep newe);
          Some (h, tree)
        } else Some (h, tree\<lparr>avl_root := newe\<rparr>));
     ep \<leftarrow> field h e avl_parent;
     h \<leftarrow> set_parent_opt h newe ep;
     Some (h, tree)
   }"

text \<open>One rotation of the rebalancing loop: the node, the balance of its heavy child.\<close>

definition erase_rotate ::
  "avl_hooks \<Rightarrow> dfk_avltree_t \<Rightarrow> addr \<Rightarrow> int \<Rightarrow> int \<Rightarrow> (avl_hooks \<times> dfk_avltree_t \<times> addr) option" where
  "erase_rotate h tree prime childbal inner = do {
     parent \<leftarrow> field h prime avl_parent;
     dir \<leftarrow> child_dir h parent prime;
     (h, new_prime) \<leftarrow> (if childbal = inner then dfk__avltree_double_rot h prime
                        else dfk__avltree_single_rot h prime);
     (h, tree) \<leftarrow> dfk__avltree_promote_prime h dir new_prime parent tree;
     Some (h, tree, new_prime)
   }"

text \<open>
  One iteration of the rebalancing loop: the last component tells whether the loop is left
  by \<^verbatim>\<open>break\<close>.
\<close>

definition erase_step ::
  "avl_hooks \<Rightarrow> dfk_avltree_t \<Rightarrow> addr \<Rightarrow> int \<Rightarrow> (avl_hooks \<times> dfk_avltree_t \<times> addr \<times> bool) option" where
  "erase_step h tree prime erase_direction =
     (if erase_direction = - 1 then do {
        b \<leftarrow> field h prime avl_bal;
        h \<leftarrow> set_bal h prime (b + 1);
        b \<leftarrow> field h prime avl_bal;
        if b = 1 then Some (h, tree, prime, True)
        else if b = 2 then do {
          r \<leftarrow> field h prime avl_right;
          rightbal \<leftarrow> field h r avl_bal;
          (h, tree, prime) \<leftarrow> erase_rotate h tree prime rightbal (- 1);
          Some (h, tree, prime, rightbal = 0)
        } else Some (h, tree, prime, False)
      } else do {
        c_assert (erase_direction = 1);
        b \<leftarrow> field h prime avl_bal;
        h \<leftarrow> set_bal h prime (b - 1);
        b \<leftarrow> field h prime avl_bal;
        if b = - 1 then Some (h, tree, prime, True)
        else if b = - 2 then do {
          l \<leftarrow> field h prime avl_left;
          leftbal \<leftarrow> field h l avl_bal;
          (h, tree, prime) \<leftarrow> erase_rotate h tree prime leftbal 1;
          Some (h, tree, prime, leftbal = 0)
        } else Some (h, tree, prime, False)
      })"

partial_function (option) erase_rebalance ::
  "avl_hooks \<Rightarrow> dfk_avltree_t \<Rightarrow> addr \<Rightarrow> int \<Rightarrow> (avl_hooks \<times> dfk_avltree_t) option" where
  "erase_rebalance h tree prime erase_direction =
     (if prime = NULL then Some (h, tree)
      else do {
        (h, tree, prime, stop) \<leftarrow> erase_step h tree prime erase_direction;
        if stop then Some (h, tree)
        else do {
          parent \<leftarrow> field h prime avl_parent;
          dir \<leftarrow> child_dir h parent prime;
          erase_rebalance h tree parent dir
        }
      })"

definition dfk_avltree_erase ::
  "avl_hooks \<Rightarrow> dfk_avltree_t \<Rightarrow> addr \<Rightarrow> (avl_hooks \<times> dfk_avltree_t) option" where
  "dfk_avltree_erase h tree e = do {
     dfk__avltree_check_invariants h tree;
     c_assert (e \<noteq> NULL);
     c_assert (avl_size tree \<noteq> 0);
     (h, newe, prime, erase_direction) \<leftarrow> erase_unlink h e;
     (h, tree) \<leftarrow> erase_relink h tree e newe;
     (h, tree) \<leftarrow> erase_rebalance h tree prime erase_direction;
     let tree = tree\<lparr>avl_size := avl_size tree - 1\<rparr>;
     dfk__avltree_check_invariants h tree;
     Some (h, tree)
   }"

section \<open>Lookup, size and iteration\<close>

text \<open>The lookup key is whatever the callback of \<^verbatim>\<open>dfk_avltree_find\<close> compares with.\<close>

partial_function (option) find_loop :: "(addr \<Rightarrow> int) \<Rightarrow> avl_hooks \<Rightarrow> addr \<Rightarrow> addr option" where
  "find_loop cmp h i =
     (if i \<noteq> NULL then
        (if cmp i < 0 then do { i \<leftarrow> field h i avl_left; find_loop cmp h i }
         else if cmp i > 0 then do { i \<leftarrow> field h i avl_right; find_loop cmp h i }
         else Some i)
      else Some NULL)"

definition dfk_avltree_find ::
  "avl_hooks \<Rightarrow> dfk_avltree_t \<Rightarrow> 'k \<Rightarrow> (addr \<Rightarrow> 'k \<Rightarrow> int) \<Rightarrow> addr option" where
  "dfk_avltree_find h tree e cmp = do {
     dfk__avltree_check_invariants h tree;
     find_loop (\<lambda>i. cmp i e) h (avl_root tree)
   }"

partial_function (option) leftmost_loop :: "avl_hooks \<Rightarrow> addr \<Rightarrow> addr option" where
  "leftmost_loop h v = do {
     l \<leftarrow> field h v avl_left;
     if l \<noteq> NULL then leftmost_loop h l else Some v
   }"

definition dfk_avltree_begin :: "avl_hooks \<Rightarrow> dfk_avltree_t \<Rightarrow> dfk_avltree_it option" where
  "dfk_avltree_begin h tree = do {
     dfk__avltree_check_invariants h tree;
     v \<leftarrow> (if avl_root tree \<noteq> NULL then leftmost_loop h (avl_root tree) else Some (avl_root tree));
     dfk__avltree_check_invariants h tree;
     Some \<lparr>avl_it_value = v\<rparr>
   }"

definition dfk_avltree_end :: "avl_hooks \<Rightarrow> dfk_avltree_t \<Rightarrow> dfk_avltree_it option" where
  "dfk_avltree_end h tree = do {
     dfk__avltree_check_invariants h tree;
     let it = \<lparr>avl_it_value = NULL\<rparr>;
     dfk__avltree_check_invariants h tree;
     Some it
   }"

partial_function (option) climb_loop :: "avl_hooks \<Rightarrow> addr \<Rightarrow> addr option" where
  "climb_loop h v = do {
     p \<leftarrow> field h v avl_parent;
     if p \<noteq> NULL then do {
       pr \<leftarrow> field h p avl_right;
       if pr = v then climb_loop h p else Some v
     } else Some v
   }"

definition dfk_avltree_it_next :: "avl_hooks \<Rightarrow> dfk_avltree_it \<Rightarrow> dfk_avltree_it option" where
  "dfk_avltree_it_next h it = do {
     c_assert (avl_it_value it \<noteq> NULL);
     r \<leftarrow> field h (avl_it_value it) avl_right;
     if r \<noteq> NULL then do {
       v \<leftarrow> leftmost_loop h r;
       Some \<lparr>avl_it_value = v\<rparr>
     } else do {
       v \<leftarrow> climb_loop h (avl_it_value it);
       p \<leftarrow> field h v avl_parent;
       Some \<lparr>avl_it_value = p\<rparr>
     }
   }"

definition dfk_avltree_it_equal :: "dfk_avltree_it \<Rightarrow> dfk_avltree_it \<Rightarrow> bool option" where
  "dfk_avltree_it_equal lhs rhs = Some (avl_it_value lhs = avl_it_value rhs)"

text \<open>With constant-time size the stored counter, otherwise a traversal.\<close>

definition dfk_avltree_size :: "avl_hooks \<Rightarrow> dfk_avltree_t \<Rightarrow> size_t option" where
  "dfk_avltree_size h tree = do { dfk__avltree_check_invariants h tree; Some (avl_size tree) }"

partial_function (option) size_loop ::
  "avl_hooks \<Rightarrow> dfk_avltree_it \<Rightarrow> dfk_avltree_it \<Rightarrow> size_t \<Rightarrow> size_t option" where
  "size_loop h it end_it n = do {
     eq \<leftarrow> dfk_avltree_it_equal it end_it;
     if eq then Some n
     else do {
       it' \<leftarrow> dfk_avltree_it_next h it;
       size_loop h it' end_it (n + 1)
     }
   }"

definition dfk_avltree_size_traverse :: "avl_hooks \<Rightarrow> dfk_avltree_t \<Rightarrow> size_t option" where
  "dfk_avltree_size_traverse h tree = do {
     dfk__avltree_check_invariants h tree;
     it \<leftarrow> dfk_avltree_begin h tree;
     end_it \<leftarrow> dfk_avltree_end h tree;
     size_loop h it end_it 0
   }"

end
