(* ===== verification/Dfk_Avltree_Refine.thy ===== *)
theory Dfk_Avltree_Refine
  imports Dfk_Avltree
begin

text \<open>
  The heap layout of a tree and of a context, and the proofs that the C routines of the AVL tree
  compute the functions on trees: the checks pass on balanced trees, the rotations rotate,
  insertion inserts at the place the comparison determines, erasure removes exactly the given
  node, lookup and iteration follow the order. No routine fails an assertion or reads \<^verbatim>\<open>NULL\<close>.
\<close>

section \<open>Heap layout\<close>

abbreviation hook :: "addr \<Rightarrow> addr \<Rightarrow> addr \<Rightarrow> int \<Rightarrow> dfk_avltree_hook_t" where
  "hook l r p b \<equiv> \<lparr>avl_left = l, avl_right = r, avl_parent = p, avl_bal = b\<rparr>"

fun tree_at :: "avl_hooks \<Rightarrow> addr \<Rightarrow> avl \<Rightarrow> bool" where
  "tree_at h p Leaf \<longleftrightarrow> True"
| "tree_at h p (Node l a b r) \<longleftrightarrow>
     a \<noteq> NULL \<and> h a = Some (hook (root l) (root r) p b) \<and> tree_at h a l \<and> tree_at h a r"

text \<open>The path above a hole whose content has the root address \<open>q\<close>.\<close>

fun ctx_at :: "avl_hooks \<Rightarrow> addr \<Rightarrow> ctx \<Rightarrow> bool" where
  "ctx_at h q [] \<longleftrightarrow> True"
| "ctx_at h q (Lt a b r # c) \<longleftrightarrow>
     a \<noteq> NULL \<and> h a = Some (hook q (root r) (ctx_parent c) b) \<and> tree_at h a r \<and> ctx_at h a c"
| "ctx_at h q (Rt l a b # c) \<longleftrightarrow>
     a \<noteq> NULL \<and> h a = Some (hook (root l) q (ctx_parent c) b) \<and> tree_at h a l \<and> ctx_at h a c"

definition ctx_set :: "ctx \<Rightarrow> addr set" where
  "ctx_set c = set (ctx_left c) \<union> set (ctx_right c)"

definition avl_rep :: "avl_hooks \<Rightarrow> dfk_avltree_t \<Rightarrow> avl \<Rightarrow> bool" where
  "avl_rep h tree t \<longleftrightarrow> tree_at h NULL t \<and> distinct (inorder t) \<and> balanced t
     \<and> avl_root tree = root t \<and> avl_size tree = of_nat (length (inorder t))"

lemma field_simps [simp]: "field h NULL f = None"
  "p \<noteq> NULL \<Longrightarrow> h p = Some v \<Longrightarrow> field h p f = Some (f v)"
  by (simp_all add: field_def)

lemma schar_id [simp]: "- 128 \<le> x \<Longrightarrow> x < 128 \<Longrightarrow> schar x = x"
  by (simp add: schar_def)

lemma ctx_set_simps [simp]:
  "ctx_set [] = {}"
  "ctx_set (Lt a b r # c) = insert a (set (inorder r) \<union> ctx_set c)"
  "ctx_set (Rt l a b # c) = insert a (set (inorder l) \<union> ctx_set c)"
  "ctx_set (c @ d) = ctx_set c \<union> ctx_set d"
  by (auto simp: ctx_set_def)

lemma tree_at_upd [simp]: "a \<notin> set (inorder t) \<Longrightarrow> tree_at (h(a \<mapsto> v)) p t = tree_at h p t"
  by (induction t arbitrary: p) auto

lemma ctx_at_upd [simp]: "a \<notin> ctx_set c \<Longrightarrow> ctx_at (h(a \<mapsto> v)) q c = ctx_at h q c"
  by (induction h q c rule: ctx_at.induct) auto

lemma tree_at_frame:
  "tree_at h p t \<Longrightarrow> same_outside S h h' \<Longrightarrow> S \<inter> set (inorder t) = {} \<Longrightarrow> tree_at h' p t"
  by (induction t arbitrary: p) (auto simp: same_outside_eq)

lemma ctx_at_frame:
  "ctx_at h q c \<Longrightarrow> same_outside S h h' \<Longrightarrow> S \<inter> ctx_set c = {} \<Longrightarrow> ctx_at h' q c"
  by (induction h q c rule: ctx_at.induct) (auto simp: same_outside_eq intro: tree_at_frame)

lemma tree_at_not_NULL: "tree_at h p t \<Longrightarrow> NULL \<notin> set (inorder t)"
  by (induction t arbitrary: p) auto

lemma ctx_at_not_NULL: "ctx_at h q c \<Longrightarrow> NULL \<notin> ctx_set c"
  by (induction h q c rule: ctx_at.induct) (auto dest: tree_at_not_NULL)

lemma tree_at_dom: "tree_at h p t \<Longrightarrow> set (inorder t) \<subseteq> dom h"
  by (induction t arbitrary: p) (auto, blast+)

lemma ctx_at_dom: "ctx_at h q c \<Longrightarrow> ctx_set c \<subseteq> dom h"
  by (induction h q c rule: ctx_at.induct) (auto dest: tree_at_dom)

lemma root_NULL: "tree_at h p t \<Longrightarrow> root t = NULL \<longleftrightarrow> t = Leaf"
  by (cases t) auto

lemma ctx_parent_NULL: "ctx_at h q c \<Longrightarrow> ctx_parent c = NULL \<longleftrightarrow> c = []"
  by (induction h q c rule: ctx_at.induct) auto

text \<open>A tree with a marked subtree is the subtree and the context around it.\<close>

lemma tree_at_plug:
  "tree_at h NULL (plug t c) \<longleftrightarrow> tree_at h (ctx_parent c) t \<and> ctx_at h (root t) c"
proof (induction c arbitrary: t)
  case (Cons s c)
  then show ?case by (cases s) auto
qed simp

lemma distinct_plug:
  "distinct (inorder (plug t c)) \<Longrightarrow> distinct (inorder t) \<and> set (inorder t) \<inter> ctx_set c = {}"
  by (auto simp: ctx_set_def)

lemma ctx_parent_in: "c \<noteq> [] \<Longrightarrow> ctx_parent c \<in> ctx_set c"
  by (cases c; cases "hd c") auto

section \<open>The invariant checks pass on balanced trees\<close>

lemma height_le_length: "height t \<le> length (inorder t)"
  by (induction t) auto

lemma minus_one_words:
  "sint (ucast (- 1 :: size_t) :: 32 word) = - 1" "sint (ucast (- 1 :: size_t) :: 8 word) = - 1"
  by code_simp+

lemma height_words:
  assumes "m < 2 ^ 64" "n < 2 ^ 64" "\<bar>int n - int m\<bar> \<le> 1"
  shows "\<bar>sint (ucast (of_nat m - of_nat n :: size_t) :: 32 word)\<bar> \<le> 1"
    "sint (ucast (of_nat n - of_nat m :: size_t) :: 8 word) = int n - int m"
    "1 + max (of_nat m) (of_nat n) = (of_nat (1 + max m n) :: size_t)"
proof -
  consider "n = m" | "n = Suc m" | "m = Suc n" using assms(3) by arith
  then have "\<bar>sint (ucast (of_nat m - of_nat n :: size_t) :: 32 word)\<bar> \<le> 1 \<and>
    sint (ucast (of_nat n - of_nat m :: size_t) :: 8 word) = int n - int m"
  proof cases
    case 2
    then have "of_nat m - of_nat n = (- 1 :: size_t)" "of_nat n - of_nat m = (1 :: size_t)" by simp_all
    with 2 show ?thesis by (simp only: minus_one_words) simp
  next
    case 3
    then have "of_nat m - of_nat n = (1 :: size_t)" "of_nat n - of_nat m = (- 1 :: size_t)" by simp_all
    with 3 show ?thesis by (simp only: minus_one_words) simp
  qed simp
  then show "\<bar>sint (ucast (of_nat m - of_nat n :: size_t) :: 32 word)\<bar> \<le> 1"
    "sint (ucast (of_nat n - of_nat m :: size_t) :: 8 word) = int n - int m" by simp_all
  show "1 + max (of_nat m) (of_nat n) = (of_nat (1 + max m n) :: size_t)"
    using of_nat_size_le_iff [OF assms(1,2)] by (simp add: max_def)
qed

lemma check_node_ok:
  "tree_at h p t \<Longrightarrow> t \<noteq> Leaf \<Longrightarrow> balanced t \<Longrightarrow> height t < 2 ^ 64 \<Longrightarrow>
   dfk__avltree_check_invariants_node h (root t) = Some (of_nat (height t))"
proof (induction t arbitrary: p)
  case (Node l a b r)
  define m n where "m = (of_nat (height l) :: size_t)" "n = (of_nat (height r) :: size_t)"
  have w: "\<bar>sint (ucast (m - n) :: 32 word)\<bar> \<le> 1" "b = sint (ucast (n - m) :: 8 word)"
    "1 + max m n = of_nat (height (Node l a b r))"
    using Node.prems height_words [of "height l" "height r"] unfolding m_n_def by auto
  have a: "a \<noteq> NULL" "h a = Some (hook (root l) (root r) p b)" using Node.prems by auto
  have l: "l = Leaf \<and> m = 0 \<or> root l \<noteq> NULL \<and> field h (root l) avl_parent = Some a \<and>
      dfk__avltree_check_invariants_node h (root l) = Some m"
    using Node unfolding m_n_def by (cases l) auto
  have r: "r = Leaf \<and> n = 0 \<or> root r \<noteq> NULL \<and> field h (root r) avl_parent = Some a \<and>
      dfk__avltree_check_invariants_node h (root r) = Some n"
    using Node unfolding m_n_def by (cases r) auto
  have "dfk__avltree_check_invariants_node h a = Some (1 + max m n)"
    using a l r w(1,2) by (subst dfk__avltree_check_invariants_node.simps) auto
  then show ?case by (simp only: w(3) root.simps)
qed simp

lemma tree_at_length: "tree_at h p t \<Longrightarrow> distinct (inorder t) \<Longrightarrow> length (inorder t) < 2 ^ 64"
  by (rule distinct_addr_bound) (auto dest: tree_at_not_NULL)

lemma avl_check_ok [simp]:
  assumes "avl_rep h tree t"
  shows "dfk__avltree_check_invariants h tree = Some ()"
proof -
  have "height t < 2 ^ 64"
    using assms tree_at_length [of h NULL t] height_le_length [of t] by (auto simp: avl_rep_def)
  then show ?thesis
    using assms check_node_ok [of h NULL t]
    by (cases t) (auto simp: avl_rep_def dfk__avltree_check_invariants_def)
qed

section \<open>Rotations\<close>

lemma hook_upds [simp]:
  "avl_left_update (\<lambda>_. x) (hook l r p b) = hook x r p b"
  "avl_right_update (\<lambda>_. x) (hook l r p b) = hook l x p b"
  "avl_parent_update (\<lambda>_. x) (hook l r p b) = hook l r x b"
  "avl_bal_update (\<lambda>_. y) (hook l r p b) = hook l r p y"
  by simp_all

lemma set_parent_opt_tree:
  assumes "tree_at h p t" "distinct (inorder t)"
  shows "\<exists>h'. set_parent_opt h (root t) q = Some h' \<and> tree_at h' q t
           \<and> same_outside (set (inorder t)) h h' \<and> (\<forall>a. a \<noteq> root t \<longrightarrow> h' a = h a)"
  using assms by (cases t) (auto simp: set_parent_opt_def)

lemma single_rot_right:
  assumes "tree_at h p (Node l a 2 (Node rl x xb rr))" "distinct (inorder (Node l a 2 (Node rl x xb rr)))"
    and "xb = 0 \<or> xb = 1"
  shows "\<exists>h'. dfk__avltree_single_rot h a = Some (h', x)
    \<and> tree_at h' a (Node (Node l a (1 - xb) rl) x (xb - 1) rr)
    \<and> same_outside (set (inorder (Node l a 2 (Node rl x xb rr)))) h h'"
  using assms
  by (cases rl) (auto simp: dfk__avltree_single_rot_def set_parent_opt_def)

lemma single_rot_left:
  assumes "tree_at h p (Node (Node ll x xb lr) a (- 2) r)" "distinct (inorder (Node (Node ll x xb lr) a (- 2) r))"
    and "xb = 0 \<or> xb = - 1"
  shows "\<exists>h'. dfk__avltree_single_rot h a = Some (h', x)
    \<and> tree_at h' a (Node ll x (xb + 1) (Node lr a (- 1 - xb) r))
    \<and> same_outside (set (inorder (Node (Node ll x xb lr) a (- 2) r))) h h'"
  using assms
  by (cases lr) (auto simp: dfk__avltree_single_rot_def set_parent_opt_def)

lemma double_rot_right:
  assumes "tree_at h p (Node l a 2 (Node (Node xl x xb xr) b bb rr))"
    and "distinct (inorder (Node l a 2 (Node (Node xl x xb xr) b bb rr)))"
  shows "\<exists>h'. dfk__avltree_double_rot h a = Some (h', x)
    \<and> tree_at h' b (Node (Node l a (if xb = 1 then - 1 else 0) xl) x 0
                        (Node xr b (if xb = - 1 then 1 else 0) rr))
    \<and> same_outside (set (inorder (Node l a 2 (Node (Node xl x xb xr) b bb rr)))) h h'"
  using assms
  by (cases xl; cases xr) (auto simp: dfk__avltree_double_rot_def set_parent_opt_def c_not_def)

lemma double_rot_left:
  assumes "tree_at h p (Node (Node ll b bb (Node xl x xb xr)) a (- 2) r)"
    and "distinct (inorder (Node (Node ll b bb (Node xl x xb xr)) a (- 2) r))"
  shows "\<exists>h'. dfk__avltree_double_rot h a = Some (h', x)
    \<and> tree_at h' b (Node (Node ll b (if xb = 1 then - 1 else 0) xl) x 0
                        (Node xr a (if xb = - 1 then 1 else 0) r))
    \<and> same_outside (set (inorder (Node (Node ll b bb (Node xl x xb xr)) a (- 2) r))) h h'"
  using assms
  by (cases xl; cases xr) (auto simp: dfk__avltree_double_rot_def set_parent_opt_def c_not_def)

lemma balanced_node_cases:
  assumes "balanced t" "2 \<le> height t"
  shows "(\<exists>l a r. t = Node l a 0 r) \<or> (\<exists>xl x xb xr a r. t = Node (Node xl x xb xr) a (- 1) r)
    \<or> (\<exists>l a xl x xb xr. t = Node l a 1 (Node xl x xb xr))"
proof (cases t)
  case (Node l a b r)
  with assms(1) have "b = - 1 \<or> b = 0 \<or> b = 1" by auto
  with Node assms(1) show ?thesis by (cases l; cases r) auto
qed (use assms in simp)

lemma rot_node_heap:
  assumes "tree_at h p (Node l a b r)" "distinct (inorder (Node l a b r))"
    and heavy: "b = 2 \<and> balanced r \<and> 2 \<le> height r \<or> b = - 2 \<and> balanced l \<and> 2 \<le> height l"
  shows "\<exists>h' q. (if b = 2 \<and> root_bal r = - 1 \<or> b = - 2 \<and> root_bal l = 1
                then dfk__avltree_double_rot h a else dfk__avltree_single_rot h a)
             = Some (h', root (rot_node (Node l a b r)))
           \<and> tree_at h' q (rot_node (Node l a b r)) \<and> rot_node (Node l a b r) \<noteq> Leaf
           \<and> inorder (rot_node (Node l a b r)) = inorder (Node l a b r)
           \<and> same_outside (set (inorder (Node l a b r))) h h'"
proof -
  from heavy consider
      rl x xb rr where "b = 2" "r = Node rl x xb rr" "xb = 0 \<or> xb = 1"
    | xl y yb xr x rr where "b = 2" "r = Node (Node xl y yb xr) x (- 1) rr"
    | ll x xb lr where "b = - 2" "l = Node ll x xb lr" "xb = 0 \<or> xb = - 1"
    | ll x xl y yb xr where "b = - 2" "l = Node ll x 1 (Node xl y yb xr)"
    using balanced_node_cases [of l] balanced_node_cases [of r] by fastforce
  then show ?thesis
  proof cases
    case 1
    then show ?thesis
      using assms(1,2) single_rot_right [of h p l a rl x xb rr] by (auto simp: rot_node_def)
  next
    case 2
    then show ?thesis
      using assms(1,2) double_rot_right [of h p l a xl y yb xr x "- 1" rr] by (auto simp: rot_node_def)
  next
    case 3
    then show ?thesis
      using assms(1,2) single_rot_left [of h p ll x xb lr a r] by (auto simp: rot_node_def)
  next
    case 4
    then show ?thesis
      using assms(1,2) double_rot_left [of h p ll x 1 xl y yb xr a r] by (auto simp: rot_node_def)
  qed
qed

text \<open>Hanging a subtree into the place a context has for it.\<close>

lemma root_plug: "c \<noteq> [] \<Longrightarrow> root (plug t c) = step_addr (last c)"
proof (induction c arbitrary: t)
  case (Cons s c)
  then show ?case by (cases s; cases "c = []") auto
qed simp

lemma promote_ok:
  assumes "tree_at h p t" "t \<noteq> Leaf" "ctx_at h q c" "distinct (inorder (plug t c))"
    and "avl_root tree = root (plug u c)"
  shows "\<exists>h'. dfk__avltree_promote_prime h (ctx_dir c) (root t) (ctx_parent c) tree
             = Some (h', tree\<lparr>avl_root := root (plug t c)\<rparr>)
           \<and> tree_at h' NULL (plug t c) \<and> same_outside (set (inorder (plug t c))) h h'"
proof -
  obtain l a b r where t: "t = Node l a b r" using assms(2) by (cases t) auto
  have d: "distinct (inorder t)" "set (inorder t) \<inter> ctx_set c = {}"
    using distinct_plug [OF assms(4)] by auto
  have root: "avl_root tree = root (plug t c)" if "c \<noteq> []"
    using assms(5) root_plug [OF that] by simp
  then have same: "c \<noteq> [] \<Longrightarrow> tree\<lparr>avl_root := root (plug t c)\<rparr> = tree"
    by (cases tree) auto
  show ?thesis
  proof (cases c)
    case Nil
    then show ?thesis using assms(1) t d by (auto simp: dfk__avltree_promote_prime_def)
  next
    case (Cons s c')
    have d': "distinct (inorder (step_fill t s))" "set (inorder (step_fill t s)) \<inter> ctx_set c' = {}"
      using distinct_plug [of "step_fill t s" c'] assms(4) Cons by auto
    show ?thesis
      using assms(1,3) t d' same Cons
      by (cases s) (auto simp: dfk__avltree_promote_prime_def tree_at_plug)
  qed
qed

section \<open>Insertion\<close>

text \<open>A path that turns at every node the way the comparison with \<open>e\<close> says.\<close>

fun follows :: "(addr \<Rightarrow> addr \<Rightarrow> int) \<Rightarrow> addr \<Rightarrow> ctx \<Rightarrow> bool" where
  "follows cmp e [] \<longleftrightarrow> True"
| "follows cmp e (Lt a b r # c) \<longleftrightarrow> cmp a e < 0 \<and> follows cmp e c"
| "follows cmp e (Rt l a b # c) \<longleftrightarrow> 0 < cmp a e \<and> follows cmp e c"

lemma follows_append [simp]: "follows cmp e (c @ d) \<longleftrightarrow> follows cmp e c \<and> follows cmp e d"
  by (induction cmp e c rule: follows.induct) auto

lemma follows_order:
  assumes "cmp_ok (insert e (ctx_set c)) cmp" "follows cmp e c" "ordered cmp (ctx_left c @ ctx_right c)"
  shows "(\<forall>x\<in>set (ctx_left c). 0 < cmp x e) \<and> (\<forall>x\<in>set (ctx_right c). cmp x e < 0)"
  using assms
proof (induction cmp e c rule: follows.induct)
  case (2 cmp' e a b r c)
  have ok: "cmp_ok (insert e (ctx_set c)) cmp'" using cmp_ok_mono [OF "2.prems"(1)] by auto
  from 2 have *: "cmp' a e < 0" "\<forall>x\<in>set (inorder r). 0 < cmp' a x" "ordered cmp' (ctx_left c @ ctx_right c)"
    by (auto simp: ordered_simps)
  have "cmp' x e < 0" if "x \<in> set (inorder r)" for x
    using cmp_okD(1) [OF "2.prems"(1), of a e] cmp_okD(1) [OF "2.prems"(1), of x e]
      cmp_okD(2) [OF "2.prems"(1), of e a x] * that by simp
  with * ok 2 show ?case by auto
next
  case (3 cmp' e l a b c)
  have ok: "cmp_ok (insert e (ctx_set c)) cmp'" using cmp_ok_mono [OF "3.prems"(1)] by auto
  from 3 have *: "0 < cmp' a e" "\<forall>x\<in>set (inorder l). 0 < cmp' x a" "ordered cmp' (ctx_left c @ ctx_right c)"
    by (auto simp: ordered_simps)
  have "0 < cmp' x e" if "x \<in> set (inorder l)" for x
    using cmp_okD(2) [OF "3.prems"(1), of x a e] * that by simp
  with * ok 3 show ?case by auto
qed simp

text \<open>What the search leaves behind: the new leaf linked in below its parent, and the prime node.\<close>

definition search_result ::
  "(addr \<Rightarrow> addr \<Rightarrow> int) \<Rightarrow> addr \<Rightarrow> avl_hooks \<Rightarrow> avl \<Rightarrow> avl_hooks
    \<Rightarrow> (addr \<times> addr \<times> int) option \<Rightarrow> bool" where
  "search_result cmp e h t h' res \<longleftrightarrow> (case res of
     None \<Rightarrow> h' = h \<and> (\<exists>x\<in>set (inorder t). cmp x e = 0)
   | Some (prime, prime_parent, dir) \<Rightarrow> \<exists>d p c.
       t = plug Leaf (d @ p # c) \<and> follows cmp e (d @ p # c) \<and>
       (\<forall>s\<in>set d. step_bal s = 0) \<and> (c = [] \<or> step_bal p \<noteq> 0) \<and>
       prime = step_addr p \<and> prime_parent = ctx_parent c \<and> dir = ctx_dir c \<and>
       tree_at h' NULL (plug (Node Leaf e 0 Leaf) (d @ p # c)) \<and>
       same_outside (insert e (set (inorder t))) h h')"

lemma link_leaf:
  assumes "tree_at h NULL (plug Leaf (s # c))" "distinct (inorder (plug Leaf (s # c)))"
    and "e \<notin> set (inorder (plug Leaf (s # c)))" "e \<noteq> NULL" "h e = Some (hook NULL NULL NULL 0)"
  shows "\<exists>h1 h'. (case s of Lt a b r \<Rightarrow> set_left h a e | Rt l a b \<Rightarrow> set_right h a e) = Some h1
      \<and> set_parent h1 e (step_addr s) = Some h'
      \<and> tree_at h' NULL (plug (Node Leaf e 0 Leaf) (s # c))
      \<and> same_outside (insert e (set (inorder (plug Leaf (s # c))))) h h'"
proof -
  have d: "set (inorder (step_fill Leaf s)) \<inter> ctx_set c = {}" "e \<notin> ctx_set c"
    "distinct (inorder (step_fill Leaf s))" "e \<notin> set (inorder (step_fill Leaf s))"
    using assms(2,3) distinct_plug [of "step_fill Leaf s" c] by (auto simp: ctx_set_def)
  have c: "tree_at h (ctx_parent c) (step_fill Leaf s)" "ctx_at h (step_addr s) c"
    using assms(1) unfolding plug.simps tree_at_plug by (cases s; simp)+
  show ?thesis
    using c d assms(4,5) by (cases s) (auto simp: tree_at_plug)
qed

lemma step_fill_root [simp]: "root (step_fill t s) = step_addr s" "root_bal (step_fill t s) = step_bal s"
  by (cases s; simp)+

lemma root_bal_plug: "c \<noteq> [] \<Longrightarrow> root_bal (plug t c) = step_bal (last c)"
proof (induction c arbitrary: t)
  case (Cons s c)
  then show ?case by (cases s; cases "c = []") auto
qed simp

text \<open>
  The search stands at the subtree \<open>s\<close> below the path \<open>d @ c\<close>, and the prime node is the root of
  \<open>s\<close> under \<open>d\<close>: the nodes below it on the path are even, and it is the root or uneven.
\<close>

definition prime_inv :: "avl \<Rightarrow> ctx \<Rightarrow> ctx \<Rightarrow> bool" where
  "prime_inv s d c \<longleftrightarrow> (\<forall>x\<in>set (butlast d). step_bal x = 0) \<and> (d \<noteq> [] \<longrightarrow> root_bal s = 0)
     \<and> (c = [] \<or> root_bal (plug s d) \<noteq> 0)"

lemma prime_inv_down:
  assumes "prime_inv (step_fill t x) d c"
  shows "root_bal t \<noteq> 0 \<Longrightarrow> prime_inv t [] (x # d @ c)"
    and "root_bal t = 0 \<Longrightarrow> prime_inv t (x # d) c"
proof -
  show "root_bal t \<noteq> 0 \<Longrightarrow> prime_inv t [] (x # d @ c)" "root_bal t = 0 \<Longrightarrow> prime_inv t (x # d) c"
    using assms by (auto simp: prime_inv_def)
qed

lemma prime_inv_leaf:
  assumes "prime_inv (step_fill Leaf x) d c"
  shows "\<exists>d' p. x # d @ c = d' @ p # c \<and> (\<forall>s\<in>set d'. step_bal s = 0) \<and> (c = [] \<or> step_bal p \<noteq> 0)
           \<and> root (plug (step_fill Leaf x) d) = step_addr p"
proof (cases d rule: rev_cases)
  case Nil
  then show ?thesis using assms by (cases x) (auto simp: prime_inv_def)
next
  case (snoc d' p)
  then have "x # d @ c = (x # d') @ p # c" "step_bal x = 0"
    using assms by (cases x; auto simp: prime_inv_def)+
  with snoc assms show ?thesis
    by (intro exI [of _ "x # d'"] exI [of _ p]) (auto simp: prime_inv_def root_bal_plug root_plug)
qed

lemma insert_search_link:
  assumes "tree_at h NULL (plug Leaf (x # d @ c))" "distinct (inorder (plug Leaf (x # d @ c)))"
    and "e \<notin> set (inorder (plug Leaf (x # d @ c)))" "e \<noteq> NULL" "h e = Some (hook NULL NULL NULL 0)"
    and "follows cmp e (x # d @ c)" "prime_inv (step_fill Leaf x) d c"
  shows "\<exists>h' res. insert_search cmp e h (step_addr x) (root (plug (step_fill Leaf x) d)) (ctx_parent c)
      (ctx_dir c) = Some (h', res) \<and> search_result cmp e h (plug Leaf (x # d @ c)) h' res"
proof -
  obtain h1 h' where h: "(case x of Lt a b r \<Rightarrow> set_left h a e | Rt l a b \<Rightarrow> set_right h a e) = Some h1"
      "set_parent h1 e (step_addr x) = Some h'" "tree_at h' NULL (plug (Node Leaf e 0 Leaf) (x # d @ c))"
      "same_outside (insert e (set (inorder (plug Leaf (x # d @ c))))) h h'"
    using link_leaf [OF assms(1-5)] by blast
  obtain d' p where dp: "x # d @ c = d' @ p # c" "\<forall>s\<in>set d'. step_bal s = 0" "c = [] \<or> step_bal p \<noteq> 0"
    "root (plug (step_fill Leaf x) d) = step_addr p"
    using prime_inv_leaf [OF assms(7)] by blast
  have at: "tree_at h (ctx_parent (d @ c)) (step_fill Leaf x)"
    using assms(1) unfolding plug.simps tree_at_plug by blast
  have "insert_search cmp e h (step_addr x) (step_addr p) (ctx_parent c) (ctx_dir c)
      = Some (h', Some (step_addr p, ctx_parent c, ctx_dir c))"
    using at assms(6) h(1,2) by (subst insert_search.simps, cases x) auto
  moreover have "search_result cmp e h (plug Leaf (x # d @ c)) h'
      (Some (step_addr p, ctx_parent c, ctx_dir c))"
    using dp(2,3) h(3,4) assms(6) unfolding search_result_def option.case prod.case dp(1) by blast
  ultimately show ?thesis using dp(4) by auto
qed

lemma insert_search_ok:
  assumes "tree_at h NULL (plug s (d @ c))" "s \<noteq> Leaf" "distinct (inorder (plug s (d @ c)))"
    and "e \<notin> set (inorder (plug s (d @ c)))" "e \<noteq> NULL" "h e = Some (hook NULL NULL NULL 0)"
    and "follows cmp e (d @ c)" "prime_inv s d c"
  shows "\<exists>h' res. insert_search cmp e h (root s) (root (plug s d)) (ctx_parent c) (ctx_dir c) = Some (h', res)
           \<and> search_result cmp e h (plug s (d @ c)) h' res"
  using assms
proof (induction s arbitrary: d c)
  case (Node l i b r)
  note s = insert_search.simps [of cmp e h i]
  have at: "tree_at h (ctx_parent (d @ c)) (Node l i b r)" using Node.prems(1) unfolding tree_at_plug by blast
  consider "cmp i e < 0" | "0 < cmp i e" | "cmp i e = 0" by linarith
  then show ?case
  proof cases
    case 1
    note IH = Node.IH(1) [of "[]" "Lt i b r # d @ c"] Node.IH(1) [of "Lt i b r # d" c]
    have inv: "prime_inv (step_fill l (Lt i b r)) d c" using Node.prems by simp
    show ?thesis
      using 1 Node.prems insert_search_link [of h "Lt i b r" d c e cmp] IH at prime_inv_down [OF inv]
      by (cases l; cases "root_bal l = 0") (auto simp: s)
  next
    case 2
    note IH = Node.IH(2) [of "[]" "Rt l i b # d @ c"] Node.IH(2) [of "Rt l i b # d" c]
    have inv: "prime_inv (step_fill r (Rt l i b)) d c" using Node.prems by simp
    show ?thesis
      using 2 Node.prems insert_search_link [of h "Rt l i b" d c e cmp] IH at prime_inv_down [OF inv]
      by (cases r; cases "root_bal r = 0") (auto simp: s)
  next
    case 3
    then show ?thesis by (auto simp: s search_result_def)
  qed
qed simp

lemma root_plug_bump [simp]: "root (plug t (map bump c)) = root (plug t c)"
  by (cases "c = []") (simp_all add: root_plug last_map)

lemma insert_update_bal_ok:
  assumes "tree_at h p (plug (Node Leaf e 0 Leaf) d)" "distinct (inorder (plug (Node Leaf e 0 Leaf) d))"
    and "follows cmp e d" "\<forall>s\<in>set d. \<bar>step_bal s\<bar> \<le> 1"
  shows "\<exists>h'. insert_update_bal cmp e h (root (plug (Node Leaf e 0 Leaf) d)) = Some h'
           \<and> tree_at h' p (plug (Node Leaf e 0 Leaf) (map bump d))
           \<and> same_outside (set (inorder (plug (Node Leaf e 0 Leaf) d))) h h'"
  using assms
proof (induction d arbitrary: h p rule: rev_induct)
  case Nil
  then show ?case by (subst insert_update_bal.simps) auto
next
  case (snoc s d)
  let ?t = "plug (Node Leaf e 0 Leaf) d" and ?a = "step_addr s"
  obtain v where v: "h ?a = Some v" "?a \<noteq> NULL" "avl_bal v = step_bal s"
    using snoc.prems(1) by (cases s) auto
  define h1 where "h1 = h(?a \<mapsto> v\<lparr>avl_bal := step_bal (bump s)\<rparr>)"
  have a: "?a \<notin> set (inorder ?t)" "?a \<noteq> e" using snoc.prems(2) by (cases s; auto)+
  have "tree_at h1 ?a ?t" "distinct (inorder ?t)"
    using snoc.prems(1,2) a unfolding h1_def by (cases s; auto)+
  then obtain h' where h': "insert_update_bal cmp e h1 (root ?t) = Some h'"
      "tree_at h' ?a (plug (Node Leaf e 0 Leaf) (map bump d))" "same_outside (set (inorder ?t)) h1 h'"
    using snoc.IH [of h1 ?a] snoc.prems(3,4) by auto
  have step: "insert_update_bal cmp e h ?a = Some h'"
    using snoc.prems(1,3,4) v a h'(1) unfolding h1_def
    by (subst insert_update_bal.simps, cases s) auto
  have eq: "h' ?a = h1 ?a" using same_outside_eq [OF h'(3) a(1)] .
  have out: "same_outside (set (inorder (plug (Node Leaf e 0 Leaf) (d @ [s])))) h h'"
    by (rule same_outside_mono [OF same_outside_trans [OF _ h'(3), of "{?a}"]])
       (use v in \<open>cases s; auto simp: h1_def\<close>)+
  have "tree_at h' p (plug (Node Leaf e 0 Leaf) (map bump (d @ [s])))"
  proof (cases s)
    case (Lt a b r)
    then have "tree_at h1 a r" "set (inorder ?t) \<inter> set (inorder r) = {}"
      using snoc.prems(1,2) unfolding h1_def by auto
    then have "tree_at h' a r" using tree_at_frame [OF _ h'(3)] by blast
    then show ?thesis using Lt h'(2) eq snoc.prems(1) v by (auto simp: h1_def)
  next
    case (Rt l a b)
    then have "tree_at h1 a l" "set (inorder ?t) \<inter> set (inorder l) = {}"
      using snoc.prems(1,2) unfolding h1_def by auto
    then have "tree_at h' a l" using tree_at_frame [OF _ h'(3)] by blast
    then show ?thesis using Rt h'(2) eq snoc.prems(1) v by (auto simp: h1_def)
  qed
  with step out show ?case by simp
qed

lemma insert_rotate_ok:
  assumes "tree_at h q t" "distinct (inorder t)" "tips_over t"
  shows "\<exists>h' q'. insert_rotate h (root t)
             = Some (h', if root_bal t = 2 \<or> root_bal t = - 2 then root (rotate_if_needed t) else NULL)
           \<and> tree_at h' q' (rotate_if_needed t) \<and> rotate_if_needed t \<noteq> Leaf
           \<and> (root_bal t \<noteq> 2 \<longrightarrow> root_bal t \<noteq> - 2 \<longrightarrow> q' = q)
           \<and> inorder (rotate_if_needed t) = inorder t \<and> same_outside (set (inorder t)) h h'"
proof -
  obtain l a b r where t: "t = Node l a b r" using assms(3) by (cases t) (auto simp: tips_over_def)
  have a: "a \<noteq> NULL" "h a = Some (hook (root l) (root r) q b)" using assms(1) t by auto
  consider "b \<noteq> 2" "b \<noteq> - 2" | "b = 2" | "b = - 2" by blast
  then show ?thesis
  proof cases
    case 1
    then show ?thesis using assms t a by (auto simp: insert_rotate_def rotate_if_needed_def)
  next
    case 2
    then have r: "balanced r" "2 \<le> height r" "root_bal r = 1 \<or> root_bal r = - 1"
      using assms(3) t by (cases r; auto simp: tips_over_def)+
    then have "root r \<noteq> NULL" "field h (root r) avl_bal = Some (root_bal r)"
      using assms(1) t by (cases r; auto)+
    then show ?thesis
      using 2 r t a rot_node_heap [of h q l a b r] assms(1,2)
      by (auto simp: insert_rotate_def rotate_if_needed_def)
  next
    case 3
    then have l: "balanced l" "2 \<le> height l" "root_bal l = 1 \<or> root_bal l = - 1"
      using assms(3) t by (cases l; auto simp: tips_over_def)+
    then have "root l \<noteq> NULL" "field h (root l) avl_bal = Some (root_bal l)"
      using assms(1) t by (cases l; auto)+
    then show ?thesis
      using 3 l t a rot_node_heap [of h q l a b r] assms(1,2)
      by (auto simp: insert_rotate_def rotate_if_needed_def)
  qed
qed

lemma ctx_balanced_steps: "ctx_balanced n c \<Longrightarrow> s \<in> set c \<Longrightarrow> \<bar>step_bal s\<bar> \<le> 1"
  by (induction n c rule: ctx_balanced.induct) auto

text \<open>
  The second half of the insertion, after the new leaf is linked: balance factors, rotation and
  the hook of the rotated subtree into its parent.
\<close>

lemma insert_fix_ok:
  fixes e d p c
  defines "T0 \<equiv> plug (Node Leaf e 0 Leaf) (d @ [p])" and "T2 \<equiv> insert_at e d p"
  assumes at: "tree_at h NULL (plug T0 c)" and dist: "distinct (inorder (plug T0 c))"
    and fol: "follows cmp e (d @ [p])"
    and bal: "ctx_balanced 0 (d @ [p])" "\<forall>s\<in>set d. step_bal s = 0"
    and root: "avl_root tree = root (plug u c)" "u \<noteq> Leaf" "root u = step_addr p"
  shows "\<exists>h1 h2 h' new_prime. insert_update_bal cmp e h (step_addr p) = Some h1
      \<and> insert_rotate h1 (step_addr p) = Some (h2, new_prime)
      \<and> (if new_prime \<noteq> NULL
          then dfk__avltree_promote_prime h2 (ctx_dir c) new_prime (ctx_parent c) tree
          else Some (h2, tree)) = Some (h', tree\<lparr>avl_root := root (plug T2 c)\<rparr>)
      \<and> tree_at h' NULL (plug T2 c) \<and> inorder T2 = inorder T0
      \<and> same_outside (set (inorder (plug T0 c))) h h'"
proof -
  let ?T1 = "plug (Node Leaf e 0 Leaf) (map bump (d @ [p]))"
  have at0: "tree_at h (ctx_parent c) T0" "ctx_at h (root T0) c"
    using at unfolding tree_at_plug by auto
  have d0: "distinct (inorder T0)" "set (inorder T0) \<inter> ctx_set c = {}"
    using distinct_plug [OF dist] by auto
  have rT0: "root T0 = step_addr p" unfolding T0_def by (simp add: root_plug)
  obtain h1 where h1: "insert_update_bal cmp e h (step_addr p) = Some h1" "tree_at h1 (ctx_parent c) ?T1"
      "same_outside (set (inorder T0)) h h1"
    using insert_update_bal_ok [OF at0(1) [unfolded T0_def] d0(1) [unfolded T0_def] fol]
      ctx_balanced_steps [OF bal(1)] rT0 unfolding T0_def by auto
  have T1: "inorder ?T1 = inorder T0" "root ?T1 = step_addr p"
    unfolding T0_def by (simp_all only: inorder_plug ctx_bump root_plug_bump root_plug)
      (simp_all add: root_plug)
  obtain h2 q where h2: "insert_rotate h1 (step_addr p) = Some (h2,
        if root_bal ?T1 = 2 \<or> root_bal ?T1 = - 2 then root T2 else NULL)"
      "tree_at h2 q T2" "T2 \<noteq> Leaf" "inorder T2 = inorder T0" "same_outside (set (inorder T0)) h1 h2"
      "root_bal ?T1 \<noteq> 2 \<longrightarrow> root_bal ?T1 \<noteq> - 2 \<longrightarrow> q = ctx_parent c"
    using insert_rotate_ok [OF h1(2) _ insert_at_tips_over [OF bal]] d0(1) T1
    unfolding T2_def insert_at_def by auto
  have out: "same_outside (set (inorder T0)) h h2"
    using same_outside_trans [OF h1(3) h2(5)] by simp
  have c2: "ctx_at h2 (root T0) c" by (rule ctx_at_frame [OF at0(2) out d0(2)])
  have dist2: "distinct (inorder (plug T2 c))" using dist h2(4) by simp
  have sub: "set (inorder T0) \<subseteq> set (inorder (plug T0 c))" by auto
  show ?thesis
  proof (cases "root_bal ?T1 = 2 \<or> root_bal ?T1 = - 2")
    case True
    obtain h' where h': "dfk__avltree_promote_prime h2 (ctx_dir c) (root T2) (ctx_parent c) tree
          = Some (h', tree\<lparr>avl_root := root (plug T2 c)\<rparr>)" "tree_at h' NULL (plug T2 c)"
        "same_outside (set (inorder (plug T2 c))) h2 h'"
      using promote_ok [OF h2(2,3) c2 dist2 root(1)] by blast
    have out': "same_outside (set (inorder (plug T0 c))) h h'"
      using same_outside_mono [OF same_outside_trans [OF out h'(3)], of "set (inorder (plug T0 c))"]
        sub by (simp add: h2(4))
    have np: "insert_rotate h1 (step_addr p) = Some (h2, root T2)" "root T2 \<noteq> NULL"
      using h2(1,3) True root_NULL [OF h2(2)] by simp_all
    show ?thesis
      by (intro exI [of _ h1] exI [of _ h2] exI [of _ h'] exI [of _ "root T2"])
         (simp add: h1(1) np h'(1,2) h2(4) out' del: inorder_plug)
  next
    case False
    then have T2: "T2 = ?T1" unfolding T2_def insert_at_def rotate_if_needed_def by simp
    have "tree_at h2 NULL (plug T2 c)"
      using h2(2,6) False c2 T1(2) rT0 unfolding tree_at_plug T2 by simp
    moreover have "avl_root tree = root (plug T2 c)"
      using root T1(2) T2 by (cases "c = []") (simp_all add: root_plug)
    moreover have "same_outside (set (inorder (plug T0 c))) h h2"
      using same_outside_mono [OF out sub] .
    moreover have "insert_rotate h1 (step_addr p) = Some (h2, NULL)" using h2(1) False by simp
    ultimately show ?thesis
      by (intro exI [of _ h1] exI [of _ h2] exI [of _ h2] exI [of _ NULL])
         (simp add: h1(1) h2(4) del: inorder_plug)
  qed
qed

lemma insert_spec:
  assumes rep: "avl_rep h tree t" and e: "e \<noteq> NULL" "h e = Some (hook NULL NULL NULL 0)" "e \<notin> set (inorder t)"
  shows "(\<exists>x\<in>set (inorder t). avl_cmp tree x e = 0) \<and> dfk_avltree_insert h tree e = Some (h, tree, NULL)
    \<or> (\<exists>h' tree' t' c. dfk_avltree_insert h tree e = Some (h', tree', e) \<and> avl_rep h' tree' t'
         \<and> inorder t = ctx_left c @ ctx_right c \<and> inorder t' = ctx_left c @ e # ctx_right c
         \<and> follows (avl_cmp tree) e c \<and> avl_cmp tree' = avl_cmp tree
         \<and> same_outside (insert e (set (inorder t))) h h')"
proof (cases "t = Leaf")
  case True
  let ?t = "Node Leaf e 0 Leaf"
  have "avl_rep h (tree\<lparr>avl_root := e, avl_size := 1\<rparr>) ?t" using e by (simp add: avl_rep_def)
  moreover have "dfk_avltree_insert h tree e = Some (h, tree\<lparr>avl_root := e, avl_size := 1\<rparr>, e)"
    using rep e True avl_check_ok [OF rep] by (simp add: dfk_avltree_insert_def avl_rep_def)
  ultimately show ?thesis using True
    by (intro disjI2 exI [of _ h] exI [of _ "tree\<lparr>avl_root := e, avl_size := 1\<rparr>"] exI [of _ ?t]
        exI [of _ "[]"]) simp
next
  case False
  note r = rep [unfolded avl_rep_def]
  have root: "avl_root tree = root t" "root t \<noteq> NULL"
    using r False root_NULL [of h NULL t] by auto
  obtain h1 res where s: "insert_search (avl_cmp tree) e h (root t) (root t) NULL 0 = Some (h1, res)"
      "search_result (avl_cmp tree) e h t h1 res"
    using insert_search_ok [of h t "[]" "[]" e "avl_cmp tree"] False r e by (auto simp: prime_inv_def)
  note start = dfk_avltree_insert_def avl_check_ok [OF rep] root e s(1)
  show ?thesis
  proof (cases res)
    case None
    then show ?thesis using s(2) by (simp add: start search_result_def)
  next
    case (Some res')
    obtain pr pp dir where res': "res' = (pr, pp, dir)" by (cases res')
    obtain d p c where dpc: "res = Some (step_addr p, ctx_parent c, ctx_dir c)"
        "t = plug Leaf (d @ p # c)" "follows (avl_cmp tree) e (d @ p # c)"
        "\<forall>s\<in>set d. step_bal s = 0" "c = [] \<or> step_bal p \<noteq> 0"
        "tree_at h1 NULL (plug (Node Leaf e 0 Leaf) (d @ p # c))"
        "same_outside (insert e (set (inorder t))) h h1"
      using s(2) unfolding Some res' search_result_def option.case prod.case by blast
    let ?u = "plug Leaf (d @ [p])" and ?T0 = "plug (Node Leaf e 0 Leaf) (d @ [p])"
      and ?t' = "plug (insert_at e d p) c"
    have t: "t = plug ?u c" "plug (Node Leaf e 0 Leaf) (d @ p # c) = plug ?T0 c" using dpc(2) by simp_all
    have "balanced (plug Leaf ((d @ [p]) @ c))" using r dpc(2) by simp
    then have bal: "ctx_balanced 0 (d @ [p])" "ctx_balanced (height ?u) c"
      unfolding balanced_plug using ctx_balanced_append [of Leaf "d @ [p]" c] by simp_all
    have io: "inorder (plug ?T0 c) = ctx_left (d @ p # c) @ e # ctx_right (d @ p # c)"
      "inorder t = ctx_left (d @ p # c) @ ctx_right (d @ p # c)"
      using dpc(2) by (cases p; simp)+
    have dist: "distinct (inorder (plug ?T0 c))" using r e(3) unfolding io by simp
    have pre: "tree_at h1 NULL (plug ?T0 c)" "follows (avl_cmp tree) e (d @ [p])"
      "avl_root tree = root (plug ?u c)" "?u \<noteq> Leaf" "root ?u = step_addr p"
      using dpc(3,6) root t by (cases p; simp)+
    obtain h2 h3 h' np where f: "insert_update_bal (avl_cmp tree) e h1 (step_addr p) = Some h2"
        "insert_rotate h2 (step_addr p) = Some (h3, np)"
        "(if np \<noteq> NULL then dfk__avltree_promote_prime h3 (ctx_dir c) np (ctx_parent c) tree
          else Some (h3, tree)) = Some (h', tree\<lparr>avl_root := root ?t'\<rparr>)"
        "tree_at h' NULL ?t'" "inorder (insert_at e d p) = inorder ?T0"
        "same_outside (set (inorder (plug ?T0 c))) h1 h'"
      using insert_fix_ok [OF pre(1) dist pre(2) bal(1) dpc(4) pre(3-5)] by blast
    have io': "inorder ?t' = inorder (plug ?T0 c)" using f(5) by simp
    have len: "of_nat (length (inorder ?t')) = avl_size tree + 1"
      using r unfolding io' io by simp
    have "balanced ?t'"
      using insert_at_ok [OF bal(1) dpc(4), of e] bal(2) dpc(5) by auto
    then have rep': "avl_rep h' (tree\<lparr>avl_root := root ?t', avl_size := avl_size tree + 1\<rparr>) ?t'"
      using f(4) dist len unfolding avl_rep_def io' by (simp del: inorder_plug balanced_plug)
    moreover have "dfk_avltree_insert h tree e
        = Some (h', tree\<lparr>avl_root := root ?t', avl_size := avl_size tree + 1\<rparr>, e)"
      using f(1-3) avl_check_ok [OF rep'] dpc(1) by (simp add: start Let_def)
    moreover have "insert e (set (inorder t)) \<union> set (inorder (plug ?T0 c)) \<subseteq> insert e (set (inorder t))"
      unfolding io by auto
    then have "same_outside (insert e (set (inorder t))) h h'"
      by (rule same_outside_mono [OF same_outside_trans [OF dpc(7) f(6)]])
    ultimately show ?thesis using io(2) trans [OF io' io(1)] dpc(3)
      by (intro disjI2 exI [of _ h'] exI [of _ "tree\<lparr>avl_root := root ?t', avl_size := avl_size tree + 1\<rparr>"]
          exI [of _ ?t'] exI [of _ "d @ p # c"] conjI) simp_all
  qed
qed

end
