(* ===== verification/Dfk_Avltree_Erase.thy ===== *)
theory Dfk_Avltree_Erase
  imports Dfk_Avltree_Refine
begin

text \<open>
  Erasure from the AVL tree: unlinking a node in the three cases of the code, hanging its
  replacement into the parent, and the bottom-up rebalancing loop, each shown to compute the
  corresponding function on trees and contexts. In the third case the code dereferences the
  left child without a test; the balance invariant is what makes that safe.
\<close>

section \<open>Rebalancing\<close>

lemma child_dir_ok:
  assumes "ctx_at h (root t) c" "tree_at h p t" "t \<noteq> Leaf" "distinct (inorder (plug t c))"
  shows "child_dir h (ctx_parent c) (root t) = Some (ctx_dir c)"
proof (cases c)
  case (Cons s c')
  have r: "root t \<in> set (inorder t)" "root t \<noteq> NULL"
    using root_in root_NULL assms(2,3) by auto
  have "distinct (inorder (step_fill t s))" using assms(4) distinct_plug [of "step_fill t s" c'] Cons by auto
  then have "root l \<noteq> root t" if "s = Rt l a b" for l a b
    using that r by (cases l) auto
  then show ?thesis using assms(1) Cons by (cases s) (auto simp: child_dir_def)
qed (simp add: child_dir_def)

lemma set_bal_tree:
  assumes "tree_at h NULL (plug (Node l a b r) c)" "distinct (inorder (plug (Node l a b r) c))"
  shows "h a = Some (hook (root l) (root r) (ctx_parent c) b)" "a \<noteq> NULL"
    and "tree_at (h(a \<mapsto> hook (root l) (root r) (ctx_parent c) b')) NULL (plug (Node l a b' r) c)"
proof -
  have "a \<notin> ctx_set c" "distinct (inorder (Node l a b r))"
    using distinct_plug [OF assms(2)] by auto
  then show "h a = Some (hook (root l) (root r) (ctx_parent c) b)" "a \<noteq> NULL"
    and "tree_at (h(a \<mapsto> hook (root l) (root r) (ctx_parent c) b')) NULL (plug (Node l a b' r) c)"
    using assms(1) by (auto simp: tree_at_plug)
qed

lemma erase_rotate_ok:
  fixes l a b r
  defines "T \<equiv> Node l a b r"
  assumes at: "tree_at h NULL (plug T c)" and dist: "distinct (inorder (plug T c))"
    and root: "avl_root tree = root (plug u c)"
    and heavy: "b = 2 \<and> balanced r \<and> 2 \<le> height r \<and> childbal = root_bal r \<and> inner = - 1
      \<or> b = - 2 \<and> balanced l \<and> 2 \<le> height l \<and> childbal = root_bal l \<and> inner = 1"
  shows "\<exists>h'. erase_rotate h tree a childbal inner
        = Some (h', tree\<lparr>avl_root := root (plug (rot_node T) c)\<rparr>, root (rot_node T))
      \<and> tree_at h' NULL (plug (rot_node T) c) \<and> rot_node T \<noteq> Leaf \<and> inorder (rot_node T) = inorder T
      \<and> same_outside (set (inorder (plug T c))) h h'"
proof -
  have t: "tree_at h (ctx_parent c) T" "ctx_at h a c" using at T_def unfolding tree_at_plug by auto
  have d: "distinct (inorder T)" "set (inorder T) \<inter> ctx_set c = {}" using distinct_plug [OF dist] by auto
  have dir: "child_dir h (ctx_parent c) a = Some (ctx_dir c)"
    using child_dir_ok [of h T c "ctx_parent c"] t dist T_def by simp
  obtain h1 q where h1: "(if childbal = inner then dfk__avltree_double_rot h a
        else dfk__avltree_single_rot h a) = Some (h1, root (rot_node T))"
      "tree_at h1 q (rot_node T)" "rot_node T \<noteq> Leaf" "inorder (rot_node T) = inorder T"
      "same_outside (set (inorder T)) h h1"
    using rot_node_heap [of h "ctx_parent c" l a b r] t(1) d(1) heavy unfolding T_def by auto
  have c1: "ctx_at h1 a c" by (rule ctx_at_frame [OF t(2) h1(5) d(2)])
  have dist1: "distinct (inorder (plug (rot_node T) c))" using dist h1(4) by simp
  obtain h' where h': "dfk__avltree_promote_prime h1 (ctx_dir c) (root (rot_node T)) (ctx_parent c) tree
        = Some (h', tree\<lparr>avl_root := root (plug (rot_node T) c)\<rparr>)" "tree_at h' NULL (plug (rot_node T) c)"
      "same_outside (set (inorder (plug (rot_node T) c))) h1 h'"
    using promote_ok [OF h1(2,3) c1 dist1 root] by blast
  have "same_outside (set (inorder (plug T c))) h h'"
    using same_outside_mono [OF same_outside_trans [OF h1(5) h'(3)], of "set (inorder (plug T c))"]
    by (auto simp: h1(4))
  moreover have "field h a avl_parent = Some (ctx_parent c)" using t(1) T_def by simp
  ultimately show ?thesis
    using dir h1 h' by (simp add: erase_rotate_def del: inorder_plug)
qed

lemma rebalance_next:
  assumes "tree_at h NULL (plug t c)" "t \<noteq> Leaf" "distinct (inorder (plug t c))"
  shows "field h (root t) avl_parent = Some (ctx_parent c)"
    "child_dir h (ctx_parent c) (root t) = Some (ctx_dir c)"
  using assms child_dir_ok [of h t c "ctx_parent c"] unfolding tree_at_plug by (cases t; auto)+

lemma root_update_same:
  "avl_root tree = root (plug t c) \<Longrightarrow> root t' = root t \<Longrightarrow> tree\<lparr>avl_root := root (plug t' c)\<rparr> = tree"
  by (cases "c = []"; cases tree) (auto simp: root_plug)

lemma erase_step_ok:
  assumes at: "tree_at h NULL (plug t (s # c))" and dist: "distinct (inorder (plug t (s # c)))"
    and bal: "balanced t" "ctx_balanced (height t + 1) (s # c)"
    and root: "avl_root tree = root (plug t (s # c))" and step: "shrink_step t s = (t', stop)"
  shows "\<exists>h'. erase_step h tree (step_addr s) (step_dir s)
        = Some (h', tree\<lparr>avl_root := root (plug t' c)\<rparr>, root t', stop)
      \<and> tree_at h' NULL (plug t' c) \<and> t' \<noteq> Leaf \<and> same_outside (set (inorder (plug t (s # c)))) h h'"
proof (cases s)
  case (Lt a b r)
  define h1 where "h1 = h(a \<mapsto> hook (root t) (root r) (ctx_parent c) (b + 1))"
  have at': "tree_at h NULL (plug (Node t a b r) c)" and dist': "\<And>b'. distinct (inorder (plug (Node t a b' r) c))"
    using at dist Lt by auto
  note a = set_bal_tree(1,2) [OF at' dist'] and at1 = set_bal_tree(3) [OF at' dist', of "b + 1", folded h1_def]
  have out1: "same_outside (set (inorder (plug t (s # c)))) h h1"
    using a Lt unfolding h1_def by auto
  have b: "b = 1 \<and> height r = height t + 2 \<and> balanced r \<or> b = 0 \<or> b = - 1" "\<bar>b\<bar> \<le> 1"
    using bal(2) Lt by force+
  then have start: "field h a avl_bal = Some b" "set_bal h a (b + 1) = Some h1"
    "field h1 a avl_bal = Some (b + 1)" "field h1 a avl_right = Some (root r)"
    using a by (auto simp: h1_def)
  have r1: "avl_root tree = root (plug (Node t a b r) c)" using root Lt by simp
  have same: "tree\<lparr>avl_root := root (plug (Node t a b' r) c)\<rparr> = tree" for b'
    using root_update_same [of tree "Node t a b r" c "Node t a b' r"] root Lt by simp
  show ?thesis
  proof (cases "b = 1")
    case True
    then have rb: "field h1 (root r) avl_bal = Some (root_bal r)"
      using at1 b unfolding tree_at_plug by (cases r) auto
    have b2: "b + 1 = 2" using True by simp
    obtain h2 where h2: "erase_rotate h1 tree a (root_bal r) (- 1)
          = Some (h2, tree\<lparr>avl_root := root (plug (rot_node (Node t a 2 r)) c)\<rparr>, root (rot_node (Node t a 2 r)))"
        "tree_at h2 NULL (plug (rot_node (Node t a 2 r)) c)" "rot_node (Node t a 2 r) \<noteq> Leaf"
        "same_outside (set (inorder (plug (Node t a 2 r) c))) h1 h2"
      using erase_rotate_ok [OF at1 [unfolded b2] dist' r1] b True by auto
    have "same_outside (set (inorder (plug t (s # c)))) h h2"
      by (rule same_outside_join [OF out1 h2(4)]) (simp add: Lt)
    then show ?thesis
      using h2 Lt start rb step True by (auto simp: erase_step_def simp del: inorder_plug)
  next
    case False
    then show ?thesis
      using b Lt start at1 out1 same [of "b + 1"] step by (auto simp: erase_step_def)
  qed
next
  case (Rt l a b)
  define h1 where "h1 = h(a \<mapsto> hook (root l) (root t) (ctx_parent c) (b - 1))"
  have at': "tree_at h NULL (plug (Node l a b t) c)" and dist': "\<And>b'. distinct (inorder (plug (Node l a b' t) c))"
    using at dist Rt by auto
  note a = set_bal_tree(1,2) [OF at' dist'] and at1 = set_bal_tree(3) [OF at' dist', of "b - 1", folded h1_def]
  have out1: "same_outside (set (inorder (plug t (s # c)))) h h1"
    using a Rt unfolding h1_def by auto
  have b: "b = - 1 \<and> height l = height t + 2 \<and> balanced l \<or> b = 0 \<or> b = 1" "\<bar>b\<bar> \<le> 1"
    using bal(2) Rt by force+
  then have start: "field h a avl_bal = Some b" "set_bal h a (b - 1) = Some h1"
    "field h1 a avl_bal = Some (b - 1)" "field h1 a avl_left = Some (root l)"
    using a by (auto simp: h1_def)
  have r1: "avl_root tree = root (plug (Node l a b t) c)" using root Rt by simp
  have same: "tree\<lparr>avl_root := root (plug (Node l a b' t) c)\<rparr> = tree" for b'
    using root_update_same [of tree "Node l a b t" c "Node l a b' t"] root Rt by simp
  show ?thesis
  proof (cases "b = - 1")
    case True
    then have lb: "field h1 (root l) avl_bal = Some (root_bal l)"
      using at1 b unfolding tree_at_plug by (cases l) auto
    have b2: "b - 1 = - 2" using True by simp
    obtain h2 where h2: "erase_rotate h1 tree a (root_bal l) 1
          = Some (h2, tree\<lparr>avl_root := root (plug (rot_node (Node l a (- 2) t)) c)\<rparr>, root (rot_node (Node l a (- 2) t)))"
        "tree_at h2 NULL (plug (rot_node (Node l a (- 2) t)) c)" "rot_node (Node l a (- 2) t) \<noteq> Leaf"
        "same_outside (set (inorder (plug (Node l a (- 2) t) c))) h1 h2"
      using erase_rotate_ok [OF at1 [unfolded b2] dist' r1] b True by auto
    have "same_outside (set (inorder (plug t (s # c)))) h h2"
      by (rule same_outside_join [OF out1 h2(4)]) (simp add: Rt)
    then show ?thesis
      using h2 Rt start lb step True by (auto simp: erase_step_def simp del: inorder_plug)
  next
    case False
    then show ?thesis
      using b Rt start at1 out1 same [of "b - 1"] step by (auto simp: erase_step_def)
  qed
qed

lemma erase_rebalance_ok:
  assumes "tree_at h NULL (plug t c)" "distinct (inorder (plug t c))" "balanced t"
    and "ctx_balanced (height t + 1) c" "avl_root tree = root (plug t c)"
  shows "\<exists>h'. erase_rebalance h tree (ctx_parent c) (ctx_dir c)
             = Some (h', tree\<lparr>avl_root := root (shrink t c)\<rparr>)
           \<and> tree_at h' NULL (shrink t c) \<and> same_outside (set (inorder (plug t c))) h h'"
  using assms
proof (induction c arbitrary: t h tree)
  case Nil
  then show ?case by (subst erase_rebalance.simps, cases tree) auto
next
  case (Cons s c)
  obtain t' stop where s: "shrink_step t s = (t', stop)" by fastforce
  obtain h1 where h1: "erase_step h tree (step_addr s) (step_dir s)
        = Some (h1, tree\<lparr>avl_root := root (plug t' c)\<rparr>, root t', stop)"
      "tree_at h1 NULL (plug t' c)" "t' \<noteq> Leaf" "same_outside (set (inorder (plug t (s # c)))) h h1"
    using erase_step_ok [OF Cons.prems s] by blast
  note ok = shrink_step_ok [OF Cons.prems(3,4) s]
  have io: "inorder (plug t' c) = inorder (plug t (s # c))" using ok by simp
  have nn: "step_addr s \<noteq> NULL" using Cons.prems(1) unfolding tree_at_plug by (cases s) auto
  show ?case
  proof (cases stop)
    case True
    then show ?thesis
      using h1 nn s by (subst erase_rebalance.simps) (simp del: inorder_plug)
  next
    case False
    then obtain h' where h': "erase_rebalance h1 (tree\<lparr>avl_root := root (plug t' c)\<rparr>) (ctx_parent c) (ctx_dir c)
          = Some (h', tree\<lparr>avl_root := root (shrink t' c)\<rparr>)" "tree_at h' NULL (shrink t' c)"
        "same_outside (set (inorder (plug t' c))) h1 h'"
      using Cons.IH [OF h1(2), of "tree\<lparr>avl_root := root (plug t' c)\<rparr>"] ok Cons.prems(2) io
      by (auto simp del: inorder_plug)
    have "same_outside (set (inorder (plug t (s # c)))) h h'"
      by (rule same_outside_join [OF h1(4) h'(3)]) (simp only: io Un_absorb order_refl)
    moreover have "distinct (inorder (plug t' c))" using Cons.prems(2) io by simp
    ultimately show ?thesis
      using False h1 h' nn s rebalance_next [OF h1(2,3)]
      by (subst erase_rebalance.simps) (simp del: inorder_plug)
  qed
qed

section \<open>Unlinking\<close>

text \<open>A path inside a subtree whose root has the parent \<open>p\<close>.\<close>

definition ctx_top :: "ctx \<Rightarrow> addr \<Rightarrow> addr" where
  "ctx_top c p = (case c of [] \<Rightarrow> p | s # _ \<Rightarrow> step_addr s)"

fun ctx_seg :: "avl_hooks \<Rightarrow> addr \<Rightarrow> ctx \<Rightarrow> addr \<Rightarrow> bool" where
  "ctx_seg h q [] p \<longleftrightarrow> True"
| "ctx_seg h q (Lt a b r # c) p \<longleftrightarrow>
     a \<noteq> NULL \<and> h a = Some (hook q (root r) (ctx_top c p) b) \<and> tree_at h a r \<and> ctx_seg h a c p"
| "ctx_seg h q (Rt l a b # c) p \<longleftrightarrow>
     a \<noteq> NULL \<and> h a = Some (hook (root l) q (ctx_top c p) b) \<and> tree_at h a l \<and> ctx_seg h a c p"

lemma ctx_top_simps [simp]: "ctx_top [] p = p" "ctx_top (s # c) p = step_addr s"
  by (simp_all add: ctx_top_def)

lemma tree_at_plug_seg:
  "tree_at h p (plug t c) \<longleftrightarrow> tree_at h (ctx_top c p) t \<and> ctx_seg h (root t) c p"
proof (induction c arbitrary: t)
  case (Cons s c)
  then show ?case by (cases s) auto
qed simp

lemma ctx_seg_upd [simp]: "a \<notin> ctx_set c \<Longrightarrow> ctx_seg (h(a \<mapsto> v)) q c p = ctx_seg h q c p"
  by (induction h q c p rule: ctx_seg.induct) auto

lemma ctx_seg_frame:
  "ctx_seg h q c p \<Longrightarrow> same_outside S h h' \<Longrightarrow> S \<inter> ctx_set c = {} \<Longrightarrow> ctx_seg h' q c p"
  by (induction h q c p rule: ctx_seg.induct) (auto simp: same_outside_eq intro: tree_at_frame)

text \<open>The leftmost node below a right child that has a left child.\<close>

lemma erase_lookup_x_ok:
  assumes "tree_at h p (Node rl ra rb rr)" "rl \<noteq> Leaf"
  shows "\<exists>y yb z x xb xr d. Node rl ra rb rr = plug (Node Leaf y yb z) (Lt x xb xr # d)
      \<and> ctx_left d = [] \<and> erase_lookup_x h ra = Some x"
  using assms
proof (induction rl arbitrary: p ra rb rr)
  case (Node rll rla rlb rlr)
  show ?case
  proof (cases "rll = Leaf")
    case True
    then have "Node (Node rll rla rlb rlr) ra rb rr = plug (Node Leaf rla rlb rlr) (Lt ra rb rr # [])" by simp
    moreover have "erase_lookup_x h ra = Some ra"
      using True Node.prems by (subst erase_lookup_x.simps) auto
    ultimately show ?thesis by (metis ctx_left.simps(1))
  next
    case False
    then obtain y yb z x xb xr d where *: "Node rll rla rlb rlr = plug (Node Leaf y yb z) (Lt x xb xr # d)"
      "ctx_left d = []" "erase_lookup_x h rla = Some x"
      using Node.IH(1) [of ra rla rlb rlr] Node.prems by auto
    moreover have "root rll \<noteq> NULL" using False Node.prems by (cases rll) auto
    then have "erase_lookup_x h ra = erase_lookup_x h rla"
      using Node.prems by (subst erase_lookup_x.simps) auto
    moreover have "Node (Node rll rla rlb rlr) ra rb rr = plug (Node Leaf y yb z) (Lt x xb xr # d @ [Lt ra rb rr])"
      using *(1) by simp
    ultimately show ?thesis using *(2,3) by (metis ctx_left_append ctx_left.simps(1,2) append_Nil)
  qed
qed simp

lemma ctx_seg_snoc:
  "ctx_seg h q (d @ [s]) p \<longleftrightarrow>
     ctx_seg h q d (step_addr s) \<and> ctx_seg h (if d = [] then q else step_addr (last d)) [s] p"
proof (induction d arbitrary: q)
  case (Cons x d)
  then show ?case by (cases x; cases d) auto
qed simp

lemma ctx_seg_reparent:
  assumes "ctx_seg h q d p" "d \<noteq> []" "distinct (ctx_left d @ ctx_right d)" "r = step_addr (last d)"
  shows "\<exists>h'. set_parent h r p' = Some h' \<and> ctx_seg h' q d p' \<and> (\<forall>a. a \<noteq> r \<longrightarrow> h' a = h a)
           \<and> dom h' = dom h"
proof -
  obtain d' s where d: "d = d' @ [s]" using assms(2) by (cases d rule: rev_cases) auto
  have "r \<notin> ctx_set d'" using assms(3,4) d by (cases s) (auto simp: ctx_set_def)
  with assms(1,3,4) show ?thesis unfolding d ctx_seg_snoc
    by (cases s) (auto simp: modify_def load_def split: option.splits)
qed

lemma step_addr_in: "s \<in> set c \<Longrightarrow> step_addr s \<in> ctx_set c"
  by (induction c rule: ctx_left.induct) auto

text \<open>
  The state between unlinking and relinking: the replacement of \<open>e\<close> is a subtree \<open>s\<close>, lower by
  one than what the path \<open>d\<close> and the context \<open>c\<close> around it are balanced for; rebalancing
  starts at the bottom of that path. The hook of \<open>e\<close> itself is unchanged.
\<close>

definition unlinked ::
  "avl_hooks \<Rightarrow> addr \<Rightarrow> avl \<Rightarrow> avl \<Rightarrow> ctx \<Rightarrow> avl_hooks \<times> addr \<times> addr \<times> int \<Rightarrow> bool" where
  "unlinked h e l r c res \<longleftrightarrow> (case res of (h1, newe, prime, dir) \<Rightarrow> \<exists>s d q.
     newe = root (plug s d) \<and> prime = ctx_parent (d @ c) \<and> dir = ctx_dir (d @ c)
     \<and> tree_at h1 q (plug s d) \<and> h1 e = h e \<and> same_outside (set (inorder l) \<union> set (inorder r)) h h1
     \<and> inorder (plug s d) = inorder l @ inorder r \<and> balanced s \<and> ctx_balanced (height s + 1) (d @ c))"

lemma erase_unlink_simple:
  assumes "tree_at h NULL (plug (Node l e b Leaf) c)" "distinct (inorder (plug (Node l e b Leaf) c))"
    and "balanced (plug (Node l e b Leaf) c)"
  shows "\<exists>res. erase_unlink h e = Some res \<and> unlinked h e l Leaf c res"
proof -
  have t: "tree_at h (ctx_parent c) (Node l e b Leaf)" "ctx_at h e c"
    using assms(1) unfolding tree_at_plug by auto
  have "child_dir h (ctx_parent c) e = Some (ctx_dir c)"
    using child_dir_ok [of h "Node l e b Leaf" c "ctx_parent c"] t assms(2) by simp
  then have "erase_unlink h e = Some (h, root l, ctx_parent c, ctx_dir c)"
    using t by (simp add: erase_unlink_def)
  moreover have "unlinked h e l Leaf c (h, root l, ctx_parent c, ctx_dir c)"
    using t assms(3) unfolding unlinked_def
    by (simp, intro exI [of _ l] exI [of _ "[]"] exI [of _ e]) auto
  ultimately show ?thesis by blast
qed

lemma erase_unlink_child:
  assumes "tree_at h NULL (plug (Node l e b (Node Leaf ra rb rr)) c)"
    and "distinct (inorder (plug (Node l e b (Node Leaf ra rb rr)) c))"
    and "balanced (plug (Node l e b (Node Leaf ra rb rr)) c)"
  shows "\<exists>res. erase_unlink h e = Some res \<and> unlinked h e l (Node Leaf ra rb rr) c res"
proof -
  have t: "tree_at h (ctx_parent c) (Node l e b (Node Leaf ra rb rr))"
    using assms(1) unfolding tree_at_plug by auto
  have d: "distinct (inorder (Node l e b (Node Leaf ra rb rr)))" using distinct_plug [OF assms(2)] by blast
  have b: "\<bar>b\<bar> \<le> 1" using assms(3) by auto
  have "\<exists>h1. erase_unlink h e = Some (h1, ra, ra, 1) \<and> tree_at h1 e (Node l ra b rr) \<and> h1 e = h e
      \<and> same_outside (set (inorder l) \<union> set (inorder (Node Leaf ra rb rr))) h h1"
    using t d b by (cases l) (auto simp: erase_unlink_def set_parent_opt_def)
  then obtain h1 where h1: "erase_unlink h e = Some (h1, ra, ra, 1)" "tree_at h1 e (Node l ra b rr)"
      "h1 e = h e" "same_outside (set (inorder l) \<union> set (inorder (Node Leaf ra rb rr))) h h1" by blast
  have "unlinked h e l (Node Leaf ra rb rr) c (h1, ra, ra, 1)"
    using h1(2-4) assms(3) unfolding unlinked_def prod.case
    by (intro exI [of _ rr] exI [of _ "[Rt l ra b]"] exI [of _ e]) auto
  with h1(1) show ?thesis by blast
qed

lemma erase_unlink_deep_heap:
  fixes y yb z x xb xr d
  defines "r \<equiv> plug (Node Leaf y yb z) (Lt x xb xr # d)"
  assumes t: "tree_at h p (Node l e b r)" and dist: "distinct (inorder (Node l e b r))"
    and b: "\<bar>b\<bar> \<le> 1" and l: "l \<noteq> Leaf" and x: "erase_lookup_x h (root r) = Some x"
    and rl: "field h (root r) avl_left = Some rl" "rl \<noteq> NULL"
  shows "\<exists>h1. erase_unlink h e = Some (h1, y, x, - 1)
      \<and> tree_at h1 x (Node l y b (plug z (Lt x xb xr # d))) \<and> h1 e = h e
      \<and> same_outside (set (inorder l) \<union> set (inorder r)) h h1"
proof -
  let ?d = "Lt x xb xr # d"
  have "tree_at h e (plug (Node Leaf y yb z) ?d)" using t unfolding r_def by simp
  then have seg: "tree_at h x (Node Leaf y yb z)" "ctx_seg h y ?d e"
    unfolding tree_at_plug_seg by simp_all
  have rr: "root r = step_addr (last ?d)" unfolding r_def by (rule root_plug) simp
  have ds: "distinct (y # inorder z @ ctx_left ?d @ ctx_right ?d @ inorder l @ [e])"
    using dist unfolding r_def by auto
  then have ds': "y \<notin> ctx_set ?d" "e \<notin> ctx_set ?d" "set (inorder z) \<inter> ctx_set ?d = {}"
    "set (inorder l) \<inter> ctx_set ?d = {}" unfolding ctx_set_def by auto
  have rin: "root r \<in> ctx_set ?d" "root l \<in> set (inorder l)" "root l \<noteq> NULL" "root z = NULL \<or> root z \<in> set (inorder z)"
    using rr step_addr_in [of "last ?d" ?d] root_in [OF l] root_NULL [of h e l] l t root_in [of z]
    by (cases z; auto split: if_splits)+
  have hy: "h y = Some (hook NULL (root z) x yb)" "y \<noteq> NULL" "tree_at h y z" using seg(1) by auto
  have he: "h e = Some (hook (root l) (root r) p b)" "e \<noteq> NULL" "tree_at h e l" using t by auto
  have hx: "h x = Some (hook y (root xr) (ctx_top d e) xb)" "x \<noteq> NULL" using seg(2) by auto
  have ne: "y \<noteq> e" "root r \<noteq> e" "root l \<noteq> e" "x \<noteq> e" "root z \<noteq> e" "root r \<noteq> y" "root l \<noteq> y" "x \<noteq> y" "root z \<noteq> y"
    using ds ds' rin he(2) hy(2) by auto
  define h1 where "h1 = h(y \<mapsto> hook (root l) (root r) x b)"
  have s1: "ctx_seg h1 y ?d e" "tree_at h1 y z" "tree_at h1 e l"
    unfolding h1_def using seg(2) hy(3) he(3) ds ds' by auto
  have zl: "set (inorder z) \<inter> set (inorder l) = {}" using ds by auto
  have dd: "distinct (ctx_left ?d @ ctx_right ?d)" using ds by auto
  obtain h2 where h2: "set_parent h1 (root r) y = Some h2" "ctx_seg h2 y ?d y" "\<forall>a. a \<noteq> root r \<longrightarrow> h2 a = h1 a"
      "dom h2 = dom h1"
    using ctx_seg_reparent [OF s1(1) _ dd rr] by blast
  have o2: "same_outside {root r} h1 h2" using h2(3,4) by (simp add: same_outside_def)
  have s2: "tree_at h2 y z" "tree_at h2 e l"
    using tree_at_frame [OF s1(2) o2] tree_at_frame [OF s1(3) o2] rin(1) ds' by auto
  obtain h3 where h3: "set_parent h2 (root l) y = Some h3" "tree_at h3 y l" "same_outside (set (inorder l)) h2 h3"
    using set_parent_opt_tree [OF s2(2), of y] ds rin(3) by (auto simp: set_parent_opt_def)
  have s3: "tree_at h3 y z" using tree_at_frame [OF s2(1) h3(3)] ds by auto
  have c3: "ctx_seg h3 y ?d y" by (rule ctx_seg_frame [OF h2(2) h3(3) ds'(4)])
  define h4 where "h4 = h3(x \<mapsto> hook (root z) (root xr) (ctx_top d y) xb)"
  have h4: "set_left h3 x (root z) = Some h4" "ctx_seg h4 (root z) ?d y" "tree_at h4 y z" "tree_at h4 y l"
    unfolding h4_def using c3 s3 h3(2) ds ds' by (auto simp: ctx_set_def)
  obtain h5 where h5: "set_parent_opt h4 (root z) x = Some h5" "tree_at h5 x z" "same_outside (set (inorder z)) h4 h5"
    using set_parent_opt_tree [OF h4(3), of x] ds by auto
  have s5: "ctx_seg h5 (root z) ?d y" "tree_at h5 y l"
    using ctx_seg_frame [OF h4(2) h5(3) ds'(3)] tree_at_frame [OF h4(4) h5(3) zl] by blast+
  have keep: "h5 a = h1 a" if "a = y \<or> a = e" for a
    using that h2(3) ne ds same_outside_eq [OF h3(3), of a] same_outside_eq [OF h5(3), of a]
    by (auto simp: h4_def)
  have "tree_at h5 y (plug z ?d)" unfolding tree_at_plug_seg using h5(2) s5(1) by simp
  moreover have "root (plug z ?d) = root r" unfolding rr by (rule root_plug) simp
  ultimately have "tree_at h5 x (Node l y b (plug z ?d))"
    using s5(2) keep [of y] hy(2) by (simp add: h1_def)
  moreover have "same_outside (set (inorder l) \<union> set (inorder r)) h h5"
  proof -
    have "same_outside (insert y (ctx_set ?d) \<union> set (inorder l) \<union> set (inorder z)) h h5"
      using o2 h3(3) h5(3) rin(1) c3 hy(1) unfolding h1_def h4_def same_outside_def by auto
    then show ?thesis
      by (rule same_outside_mono) (auto simp: r_def ctx_set_def)
  qed
  moreover have "h5 e = h e" using keep [of e] ne(1) by (simp add: h1_def)
  moreover have "erase_unlink h e = Some (h5, y, x, - 1)"
    using he hy hx rl x h2(1) h3(1) h4(1) h5(1) ne b rin root_NULL [of h e r]
    by (auto simp: erase_unlink_def h1_def)
  ultimately show ?thesis by blast
qed

lemma erase_unlink_deep:
  assumes at: "tree_at h NULL (plug (Node l e b (Node rl ra rb rr)) c)" and "rl \<noteq> Leaf"
    and dist: "distinct (inorder (plug (Node l e b (Node rl ra rb rr)) c))"
    and bal: "balanced (plug (Node l e b (Node rl ra rb rr)) c)"
  shows "\<exists>res. erase_unlink h e = Some res \<and> unlinked h e l (Node rl ra rb rr) c res"
proof -
  let ?r = "Node rl ra rb rr"
  have t: "tree_at h (ctx_parent c) (Node l e b ?r)" using at unfolding tree_at_plug by auto
  have d: "distinct (inorder (Node l e b ?r))" using distinct_plug [OF dist] by blast
  have b: "\<bar>b\<bar> \<le> 1" "balanced ?r" "l \<noteq> Leaf" "b = int (height ?r) - int (height l)" "balanced l"
    "ctx_balanced (1 + max (height l) (height ?r)) c"
    using bal assms(2) by (auto simp: height_zero [symmetric] simp del: height_zero)
  have "tree_at h e ?r" using t by simp
  then obtain y yb z x xb xr d where r: "?r = plug (Node Leaf y yb z) (Lt x xb xr # d)"
      "ctx_left d = []" "erase_lookup_x h ra = Some x"
    using erase_lookup_x_ok assms(2) by blast
  have rl: "field h ra avl_left = Some (root rl)" "root rl \<noteq> NULL"
    using t assms(2) root_NULL [of h ra rl] by auto
  have rr: "root (plug (Node Leaf y yb z) (Lt x xb xr # d)) = ra" using r(1) by (metis root.simps(2))
  obtain h1 where h1: "erase_unlink h e = Some (h1, y, x, - 1)"
      "tree_at h1 x (Node l y b (plug z (Lt x xb xr # d)))" "h1 e = h e"
      "same_outside (set (inorder l) \<union> set (inorder ?r)) h h1"
    using erase_unlink_deep_heap [OF t [unfolded r(1)] d [unfolded r(1)] b(1,3)] rr r rl by metis
  let ?d = "Lt x xb xr # d @ [Rt l y b]"
  have "balanced (plug (Node Leaf y yb z) (Lt x xb xr # d))" using b(2) unfolding r(1) .
  then have z: "balanced z" "ctx_balanced (height z + 1) (Lt x xb xr # d)" "yb = int (height z)"
    unfolding balanced_plug by auto
  have "ctx_balanced (height z + 1) ((Lt x xb xr # d) @ Rt l y b # c)"
    using ctx_balanced_append [of "Node Leaf y yb z" "Lt x xb xr # d" "Rt l y b # c"] z(2) b r(1)
    by (auto simp: max.commute)
  moreover have "inorder ?r = y # inorder z @ x # inorder xr @ ctx_right d" using r(1,2) by simp
  ultimately have "unlinked h e l ?r c (h1, y, x, - 1)"
    using h1(2-4) z(1) r(2) unfolding unlinked_def prod.case
    by (intro exI [of _ z] exI [of _ ?d] exI [of _ x]) auto
  with h1(1) show ?thesis by blast
qed

lemma erase_unlink_ok:
  assumes "tree_at h NULL (plug (Node l e b r) c)" "distinct (inorder (plug (Node l e b r) c))"
    and "balanced (plug (Node l e b r) c)"
  shows "\<exists>res. erase_unlink h e = Some res \<and> unlinked h e l r c res"
proof (cases r)
  case Leaf
  then show ?thesis using erase_unlink_simple [of h l e b c] assms by blast
next
  case (Node rl ra rb rr)
  then show ?thesis
    using erase_unlink_child [of h l e b ra rb rr c] erase_unlink_deep [of h l e b rl ra rb rr c] assms
    by (cases "rl = Leaf") blast+
qed

lemma erase_relink_ok:
  assumes n: "tree_at h q n" and ctx: "ctx_at h e c" and he: "h e = Some v" "avl_parent v = ctx_parent c" "e \<noteq> NULL"
    and dist: "distinct (inorder (plug n c))" and e: "e \<notin> set (inorder (plug n c))"
    and root: "avl_root tree = root (plug u c)"
  shows "\<exists>h'. erase_relink h tree e (root n) = Some (h', tree\<lparr>avl_root := root (plug n c)\<rparr>)
      \<and> tree_at h' NULL (plug n c) \<and> same_outside (set (inorder (plug n c))) h h'"
proof -
  have d: "distinct (inorder n)" "set (inorder n) \<inter> ctx_set c = {}" using distinct_plug [OF dist] by auto
  obtain h1 where h1: "(if ctx_parent c \<noteq> NULL then do {
          epl \<leftarrow> field h (ctx_parent c) avl_left;
          h \<leftarrow> (if epl = e then set_left h (ctx_parent c) (root n) else set_right h (ctx_parent c) (root n));
          Some (h, tree) } else Some (h, tree\<lparr>avl_root := root n\<rparr>))
        = Some (h1, tree\<lparr>avl_root := root (plug n c)\<rparr>)"
      "ctx_at h1 (root n) c" "tree_at h1 q n" "same_outside (ctx_set c) h h1"
  proof (cases c)
    case Nil
    then show ?thesis using that [of h] n by simp
  next
    case (Cons s c')
    have same: "tree\<lparr>avl_root := root (plug n c)\<rparr> = tree"
      using root root_plug [of c] Cons by (cases tree) (simp del: plug.simps)
    have ds: "distinct (inorder (step_fill n s))" "set (inorder (step_fill n s)) \<inter> ctx_set c' = {}"
      using distinct_plug [of "step_fill n s" c'] dist Cons by auto
    define h1 where "h1 = h(step_addr s \<mapsto> (case s of Lt a b r \<Rightarrow> hook (root n) (root r) (ctx_parent c') b
       | Rt l a b \<Rightarrow> hook (root l) (root n) (ctx_parent c') b))"
    have "root l \<noteq> e" if "s = Rt l a b" for l a b
      using e Cons he(3) that by (cases l) auto
    then show ?thesis using that [of h1] ctx n Cons ds same d unfolding h1_def
      by (cases s) auto
  qed
  obtain h2 where h2: "set_parent_opt h1 (root n) (ctx_parent c) = Some h2" "tree_at h2 (ctx_parent c) n"
      "same_outside (set (inorder n)) h1 h2"
    using set_parent_opt_tree [OF h1(3) d(1)] by blast
  have "e \<notin> ctx_set c" using e by (auto simp: ctx_set_def)
  then have "h1 e = Some v" using same_outside_eq [OF h1(4)] he(1) by simp
  then have "erase_relink h tree e (root n) = Some (h2, tree\<lparr>avl_root := root (plug n c)\<rparr>)"
    using he h1(1) h2(1) by (simp add: erase_relink_def)
  moreover have "tree_at h2 NULL (plug n c)"
    unfolding tree_at_plug using h2(2) ctx_at_frame [OF h1(2) h2(3) d(2)] by blast
  moreover have "same_outside (set (inorder (plug n c))) h h2"
    by (rule same_outside_join [OF h1(4) h2(3)]) (auto simp: ctx_set_def)
  ultimately show ?thesis by blast
qed

section \<open>The whole erasure\<close>

lemma erase_spec:
  assumes rep: "avl_rep h tree t" and io: "inorder t = xs @ e # ys"
  shows "\<exists>h' tree' t'. dfk_avltree_erase h tree e = Some (h', tree') \<and> avl_rep h' tree' t'
      \<and> inorder t' = xs @ ys \<and> avl_cmp tree' = avl_cmp tree \<and> same_outside (set (xs @ ys)) h h'"
proof -
  note r = rep [unfolded avl_rep_def]
  obtain l b rr c where t: "t = plug (Node l e b rr) c" "xs = ctx_left c @ inorder l" "ys = inorder rr @ ctx_right c"
    using split_at_element [OF io] by blast
  have at: "tree_at h (ctx_parent c) (Node l e b rr)" "ctx_at h e c"
    using r t(1) tree_at_plug [of h "Node l e b rr" c] by auto
  obtain h1 newe prime dir where u: "erase_unlink h e = Some (h1, newe, prime, dir)"
      "unlinked h e l rr c (h1, newe, prime, dir)"
    using erase_unlink_ok [of h l e b rr c] r t(1) by fastforce
  then obtain s d q where u': "newe = root (plug s d)" "prime = ctx_parent (d @ c)" "dir = ctx_dir (d @ c)"
      "tree_at h1 q (plug s d)" "h1 e = h e" "same_outside (set (inorder l) \<union> set (inorder rr)) h h1"
      "inorder (plug s d) = inorder l @ inorder rr" "balanced s" "ctx_balanced (height s + 1) (d @ c)"
    unfolding unlinked_def prod.case by blast
  have ion: "inorder (plug s (d @ c)) = xs @ ys" "inorder (plug (plug s d) c) = xs @ ys"
    using u'(7) t(2,3) by simp_all
  have dist: "distinct (xs @ ys)" "e \<notin> set (xs @ ys)" using r io by auto
  have "set (inorder (Node l e b rr)) \<inter> ctx_set c = {}"
    using distinct_plug [of "Node l e b rr" c] r t(1) by blast
  then have c1: "ctx_at h1 e c" using ctx_at_frame [OF at(2) u'(6)] by auto
  have he: "h1 e = Some (hook (root l) (root rr) (ctx_parent c) b)" "e \<noteq> NULL" using at(1) u'(5) by auto
  have rt: "avl_root tree = root (plug (Node l e b rr) c)" using r t(1) by simp
  have pre: "distinct (inorder (plug (plug s d) c))" "e \<notin> set (inorder (plug (plug s d) c))"
    using dist unfolding ion(2) by auto
  obtain h2 where h2: "erase_relink h1 tree e newe = Some (h2, tree\<lparr>avl_root := root (plug s (d @ c))\<rparr>)"
      "tree_at h2 NULL (plug s (d @ c))" "same_outside (set (xs @ ys)) h1 h2"
    using erase_relink_ok [OF u'(4) c1 he(1) _ he(2) pre rt] unfolding u'(1) ion(2) plug_append by auto
  obtain h3 where h3: "erase_rebalance h2 (tree\<lparr>avl_root := root (plug s (d @ c))\<rparr>) prime dir
        = Some (h3, tree\<lparr>avl_root := root (shrink s (d @ c))\<rparr>)"
      "tree_at h3 NULL (shrink s (d @ c))" "same_outside (set (xs @ ys)) h2 h3"
    using erase_rebalance_ok [OF h2(2) _ u'(8,9), of "tree\<lparr>avl_root := root (plug s (d @ c))\<rparr>"] u'(2,3) ion dist
    by (auto simp del: inorder_plug plug_append)
  let ?t' = "shrink s (d @ c)"
    and ?tree' = "tree\<lparr>avl_root := root (shrink s (d @ c)), avl_size := avl_size tree - 1\<rparr>"
  have ok: "balanced ?t'" "inorder ?t' = xs @ ys"
    using shrink_ok [OF u'(8,9)] ion(1) by (simp_all only: inorder_plug)
  have rep': "avl_rep h3 ?tree' ?t'" using r h3(2) ok dist io by (simp add: avl_rep_def)
  have "of_nat (length (inorder t)) \<noteq> (0 :: size_t)"
    using of_nat_size_eq_iff [of "length (inorder t)" 0] tree_at_length [of h NULL t] r io by auto
  then have "dfk_avltree_erase h tree e = Some (h3, ?tree')"
    using rep r at(1) u(1) h2(1) h3(1) avl_check_ok [OF rep'] by (simp add: dfk_avltree_erase_def)
  moreover have "same_outside (set (xs @ ys)) h h3"
    using same_outside_join [OF u'(6) same_outside_trans [OF h2(3) h3(3)], of "set (xs @ ys)"]
    by (auto simp: t(2,3))
  ultimately show ?thesis using rep' ok by (intro exI [of _ h3] exI [of _ ?tree'] exI [of _ ?t']) simp
qed

section \<open>Lookup and iteration\<close>

lemma leftmost_loop_ok: "tree_at h p t \<Longrightarrow> t \<noteq> Leaf \<Longrightarrow> leftmost_loop h (root t) = Some (hd_or (inorder t) NULL)"
proof (induction t arbitrary: p)
  case (Node l a b r)
  then show ?case by (subst leftmost_loop.simps, cases l) auto
qed simp

lemma begin_spec: "avl_rep h tree t \<Longrightarrow> dfk_avltree_begin h tree = Some \<lparr>avl_it_value = hd_or (inorder t) NULL\<rparr>"
  using leftmost_loop_ok [of h NULL t] root_NULL [of h NULL t]
  by (cases "t = Leaf") (auto simp: dfk_avltree_begin_def, auto simp: avl_rep_def)

lemma climb_loop_ok:
  assumes "tree_at h NULL (plug t c)" "distinct (inorder (plug t c))" "t \<noteq> Leaf"
  shows "\<exists>v. climb_loop h (root t) = Some v \<and> field h v avl_parent = Some (hd_or (ctx_right c) NULL)"
  using assms
proof (induction c arbitrary: t)
  case Nil
  then show ?case by (subst climb_loop.simps, cases t) auto
next
  case (Cons s c)
  have p: "field h (root t) avl_parent = Some (step_addr s)" "ctx_at h (root t) (s # c)"
    using rebalance_next(1) [OF Cons.prems(1,3,2)] Cons.prems(1) unfolding tree_at_plug by auto
  have d: "distinct (inorder (step_fill t s))"
    using distinct_plug [of "step_fill t s" c] Cons.prems(2) by auto
  have "root t \<in> set (inorder t)" "root t \<noteq> NULL"
    using root_in [OF Cons.prems(3)] root_NULL Cons.prems(1,3) unfolding tree_at_plug by blast+
  then have ne: "root r \<noteq> root t" if "s = Lt a b r" for a b r
    using d that by (cases r) auto
  show ?case
    using p ne Cons.IH [of "step_fill t s"] Cons.prems
    by (subst climb_loop.simps, cases s) auto
qed

lemma it_next_spec:
  assumes rep: "avl_rep h tree t" and io: "inorder t = xs @ a # ys"
  shows "dfk_avltree_it_next h \<lparr>avl_it_value = a\<rparr> = Some \<lparr>avl_it_value = hd_or ys NULL\<rparr>"
proof -
  note r = rep [unfolded avl_rep_def]
  obtain l b rr c where t: "t = plug (Node l a b rr) c" "ys = inorder rr @ ctx_right c"
    using split_at_element [OF io] by blast
  have at: "tree_at h (ctx_parent c) (Node l a b rr)" using r t(1) tree_at_plug by auto
  show ?thesis
  proof (cases "rr = Leaf")
    case True
    obtain v where "climb_loop h a = Some v" "field h v avl_parent = Some (hd_or (ctx_right c) NULL)"
      using climb_loop_ok [of h "Node l a b rr" c] r t(1) by auto
    with True at t(2) show ?thesis by (simp add: dfk_avltree_it_next_def)
  next
    case False
    then have "hd_or (inorder rr) (hd_or (ctx_right c) NULL) = hd_or (inorder rr) NULL"
      by (cases "inorder rr") auto
    with False at t(2) leftmost_loop_ok [of h a rr] root_NULL [of h a rr] show ?thesis
      by (simp add: dfk_avltree_it_next_def)
  qed
qed

lemma size_loop_ok:
  assumes rep: "avl_rep h tree t"
  shows "inorder t = xs @ ys \<Longrightarrow>
    size_loop h \<lparr>avl_it_value = hd_or ys NULL\<rparr> \<lparr>avl_it_value = NULL\<rparr> n = Some (n + of_nat (length ys))"
proof (induction ys arbitrary: xs n)
  case Nil
  then show ?case by (subst size_loop.simps) (simp add: dfk_avltree_it_equal_def)
next
  case (Cons y ys)
  have "y \<noteq> NULL" using rep Cons.prems tree_at_not_NULL [of h NULL t] by (auto simp: avl_rep_def)
  then show ?case
    using Cons.IH [of "xs @ [y]" "n + 1"] Cons.prems it_next_spec [OF rep Cons.prems]
    by (subst size_loop.simps) (simp add: dfk_avltree_it_equal_def add.assoc)
qed

lemma size_spec:
  assumes rep: "avl_rep h tree t"
  shows "dfk_avltree_size h tree = Some (of_nat (length (inorder t)))"
    "dfk_avltree_size_traverse h tree = Some (of_nat (length (inorder t)))"
  using rep size_loop_ok [OF rep, of "[]" "inorder t" 0] begin_spec [OF rep]
  by (simp_all add: dfk_avltree_size_def dfk_avltree_size_traverse_def dfk_avltree_end_def,
      simp add: avl_rep_def)

text \<open>
  Lookup with a key: when the comparison with the key changes sign along the order, first
  positive, then zero, then negative, the search finds an element that compares equal, if any.
\<close>

lemma find_loop_ok:
  assumes "tree_at h p t" "sorted_wrt (\<lambda>x y. sgn (cmp y) \<le> sgn (cmp x)) (inorder t)"
  shows "\<exists>a. find_loop cmp h (root t) = Some a \<and>
    (if \<exists>x\<in>set (inorder t). cmp x = 0 then a \<in> set (inorder t) \<and> cmp a = 0 else a = NULL)"
  using assms
proof (induction t arbitrary: p)
  case Leaf
  then show ?case by (subst find_loop.simps) simp
next
  case (Node l a b r)
  have s: "sorted_wrt (\<lambda>x y. sgn (cmp y) \<le> sgn (cmp x)) (inorder l)"
    "sorted_wrt (\<lambda>x y. sgn (cmp y) \<le> sgn (cmp x)) (inorder r)"
    "\<forall>x\<in>set (inorder l). sgn (cmp a) \<le> sgn (cmp x)" "\<forall>x\<in>set (inorder r). sgn (cmp x) \<le> sgn (cmp a)"
    using Node.prems(2) by (auto simp: sorted_wrt_append)
  have at: "tree_at h a l" "tree_at h a r" "a \<noteq> NULL" "h a = Some (hook (root l) (root r) p b)"
    using Node.prems(1) by auto
  consider "cmp a < 0" "\<forall>x\<in>set (inorder r). cmp x \<noteq> 0" | "0 < cmp a" "\<forall>x\<in>set (inorder l). cmp x \<noteq> 0"
    | "cmp a = 0" using s(3,4) by (fastforce simp: sgn_if split: if_splits)
  then show ?case
  proof cases
    case 1
    obtain v where "find_loop cmp h (root l) = Some v"
      "if \<exists>x\<in>set (inorder l). cmp x = 0 then v \<in> set (inorder l) \<and> cmp v = 0 else v = NULL"
      using Node.IH(1) [OF at(1) s(1)] by blast
    with 1 at(3,4) show ?thesis
      by (intro exI [of _ v], subst find_loop.simps) (auto split: if_splits)
  next
    case 2
    obtain v where "find_loop cmp h (root r) = Some v"
      "if \<exists>x\<in>set (inorder r). cmp x = 0 then v \<in> set (inorder r) \<and> cmp v = 0 else v = NULL"
      using Node.IH(2) [OF at(2) s(2)] by blast
    with 2 at(3,4) show ?thesis
      by (intro exI [of _ v], subst find_loop.simps) (auto split: if_splits)
  next
    case 3
    then show ?thesis using at(3) by (subst find_loop.simps) auto
  qed
qed

end
