(* ===== verification/Dfk_Avl_Set.thy ===== *)
theory Dfk_Avl_Set
  imports Dfk_Avltree_Erase
begin

text \<open>
  The AVL tree as its clients see it: an ordered collection of hooks. The contract is a locale
  over the insertion, erasure and iteration operations; what a client does with them, building
  a collection and walking over it, is proved once in the locale. The tree of
  \<^verbatim>\<open>src/avltree.c\<close> satisfies the contract, and the properties of the component follow.
\<close>

section \<open>Client loops\<close>

text \<open>Walking over a collection from its first element, at most \<open>n\<close> steps.\<close>

fun walk :: "('h \<Rightarrow> addr \<Rightarrow> addr option) \<Rightarrow> 'h \<Rightarrow> nat \<Rightarrow> addr \<Rightarrow> addr list option" where
  "walk nxt h 0 a = Some []"
| "walk nxt h (Suc n) a = (if a = NULL then Some [] else do { b \<leftarrow> nxt h a; as \<leftarrow> walk nxt h n b; Some (a # as) })"

fun insert_all ::
  "('h \<Rightarrow> 't \<Rightarrow> addr \<Rightarrow> ('h \<times> 't \<times> addr) option) \<Rightarrow> 'h \<Rightarrow> 't \<Rightarrow> addr list \<Rightarrow> ('h \<times> 't) option" where
  "insert_all f h t [] = Some (h, t)"
| "insert_all f h t (a # as) = do { (h, t, r) \<leftarrow> f h t a; insert_all f h t as }"

fun ins_all :: "(addr \<Rightarrow> addr \<Rightarrow> int) \<Rightarrow> addr list \<Rightarrow> addr list \<Rightarrow> addr list" where
  "ins_all cmp [] xs = xs"
| "ins_all cmp (a # as) xs = ins_all cmp as (ins cmp a xs)"

lemma set_ins: "\<forall>x\<in>set xs. cmp x e \<noteq> 0 \<Longrightarrow> set (ins cmp e xs) = insert e (set xs)"
  by (induction xs) auto

lemma length_ins: "\<forall>x\<in>set xs. cmp x e \<noteq> 0 \<Longrightarrow> length (ins cmp e xs) = Suc (length xs)"
  by (induction xs) auto

text \<open>Pairwise different under the comparison.\<close>

definition all_differ :: "(addr \<Rightarrow> addr \<Rightarrow> int) \<Rightarrow> addr list \<Rightarrow> bool" where
  "all_differ cmp xs \<longleftrightarrow> distinct xs \<and> (\<forall>x\<in>set xs. \<forall>y\<in>set xs. x \<noteq> y \<longrightarrow> cmp x y \<noteq> 0)"

lemma ins_all_props:
  "cmp_ok (set (as @ xs)) cmp \<Longrightarrow> ordered cmp xs \<Longrightarrow> all_differ cmp (as @ xs) \<Longrightarrow>
   ordered cmp (ins_all cmp as xs) \<and> set (ins_all cmp as xs) = set as \<union> set xs
   \<and> length (ins_all cmp as xs) = length as + length xs"
proof (induction as arbitrary: xs)
  case (Cons a as)
  then have n: "\<forall>x\<in>set xs. cmp x a \<noteq> 0" by (fastforce simp: all_differ_def)
  have s: "set (ins cmp a xs) = insert a (set xs)" using set_ins n by blast
  have o: "ordered cmp (ins cmp a xs)" by (rule ordered_ins [OF cmp_ok_mono [OF Cons.prems(1)] Cons.prems(2)]) auto
  have ok: "cmp_ok (set (as @ ins cmp a xs)) cmp" using Cons.prems(1) s by simp
  have "distinct (ins cmp a xs)" by (rule ordered_distinct [OF cmp_ok_mono [OF ok] o]) auto
  then have "all_differ cmp (as @ ins cmp a xs)"
    using Cons.prems(3) s by (auto simp: all_differ_def)
  then show ?case
    using Cons.IH [OF ok o] s length_ins [of xs cmp a] n by auto
qed simp

section \<open>The contract\<close>

text \<open>
  \<open>rep h t xs\<close>: the collection \<open>t\<close> in memory \<open>h\<close> holds the hooks \<open>xs\<close>, in this order.
  \<open>fresh h a\<close>: the hook \<open>a\<close> is initialised and in no collection.
\<close>

locale ordered_index =
  fixes rep :: "'h \<Rightarrow> 't \<Rightarrow> addr list \<Rightarrow> bool"
    and cmp :: "'t \<Rightarrow> addr \<Rightarrow> addr \<Rightarrow> int"
    and fresh :: "'h \<Rightarrow> addr \<Rightarrow> bool"
    and ins_op :: "'h \<Rightarrow> 't \<Rightarrow> addr \<Rightarrow> ('h \<times> 't \<times> addr) option"
    and del_op :: "'h \<Rightarrow> 't \<Rightarrow> addr \<Rightarrow> ('h \<times> 't) option"
    and first_op :: "'h \<Rightarrow> 't \<Rightarrow> addr option"
    and next_op :: "'h \<Rightarrow> addr \<Rightarrow> addr option"
  assumes rep_ordered: "rep h t xs \<Longrightarrow> cmp_ok (set xs) (cmp t) \<and> ordered (cmp t) xs \<and> NULL \<notin> set xs"
    and ins_new: "rep h t xs \<Longrightarrow> fresh h e \<Longrightarrow> e \<notin> set xs \<Longrightarrow>
      cmp_ok (insert e (set xs)) (cmp t) \<Longrightarrow> \<forall>x\<in>set xs. cmp t x e \<noteq> 0 \<Longrightarrow>
      \<exists>h' t'. ins_op h t e = Some (h', t', e) \<and> rep h' t' (ins (cmp t) e xs) \<and> cmp t' = cmp t
        \<and> (\<forall>a. a \<notin> insert e (set xs) \<longrightarrow> fresh h' a = fresh h a)"
    and ins_dup: "rep h t xs \<Longrightarrow> fresh h e \<Longrightarrow> e \<notin> set xs \<Longrightarrow>
      cmp_ok (insert e (set xs)) (cmp t) \<Longrightarrow> \<exists>x\<in>set xs. cmp t x e = 0 \<Longrightarrow>
      ins_op h t e = Some (h, t, NULL)"
    and del_law: "rep h t (xs @ e # ys) \<Longrightarrow>
      \<exists>h' t'. del_op h t e = Some (h', t') \<and> rep h' t' (xs @ ys) \<and> cmp t' = cmp t"
    and first_law: "rep h t xs \<Longrightarrow> first_op h t = Some (hd_or xs NULL)"
    and next_law: "rep h t (xs @ a # ys) \<Longrightarrow> next_op h a = Some (hd_or ys NULL)"
begin

lemma walk_law: "rep h t (xs @ ys) \<Longrightarrow> walk next_op h (length ys) (hd_or ys NULL) = Some ys"
proof (induction ys arbitrary: xs)
  case (Cons y ys)
  then have "y \<noteq> NULL" using rep_ordered by fastforce
  with Cons.IH [of "xs @ [y]"] Cons.prems next_law [OF Cons.prems] show ?case by simp
qed simp

lemma iterate_law: "rep h t xs \<Longrightarrow>
    (first_op h t \<bind> walk next_op h (length xs)) = Some xs"
  using walk_law [of h t "[]" xs] first_law by simp

lemma insert_all_law:
  "rep h t xs \<Longrightarrow> \<forall>a\<in>set as. fresh h a \<Longrightarrow> all_differ (cmp t) (as @ xs) \<Longrightarrow>
   cmp_ok (set (as @ xs)) (cmp t) \<Longrightarrow>
   \<exists>h' t'. insert_all ins_op h t as = Some (h', t') \<and> rep h' t' (ins_all (cmp t) as xs)
     \<and> cmp t' = cmp t"
proof (induction as arbitrary: h t xs)
  case (Cons a as)
  then have a: "a \<notin> set xs" "\<forall>x\<in>set xs. cmp t x a \<noteq> 0" "fresh h a" by (fastforce simp: all_differ_def)+
  obtain h1 t1 where 1: "ins_op h t a = Some (h1, t1, a)" "rep h1 t1 (ins (cmp t) a xs)" "cmp t1 = cmp t"
      "\<forall>b. b \<notin> insert a (set xs) \<longrightarrow> fresh h1 b = fresh h b"
    using ins_new [OF Cons.prems(1) a(3,1) _ a(2)] cmp_ok_mono [OF Cons.prems(4), of "insert a (set xs)"]
    by auto
  have "distinct (ins (cmp t) a xs)"
    using rep_ordered [OF 1(2)] ordered_distinct by metis
  then have "all_differ (cmp t1) (as @ ins (cmp t) a xs)" "\<forall>b\<in>set as. fresh h1 b"
    "cmp_ok (set (as @ ins (cmp t) a xs)) (cmp t1)"
    using Cons.prems(2,3,4) set_ins [of xs "cmp t" a] a(2) 1(3,4) by (auto simp: all_differ_def)
  with Cons.IH [OF 1(2)] 1 show ?case by auto
qed simp

text \<open>Filling an empty collection and walking over it visits all elements in order.\<close>

lemma build_and_iterate:
  assumes "rep h t []" "\<forall>a\<in>set as. fresh h a" "all_differ (cmp t) as" "cmp_ok (set as) (cmp t)"
  shows "\<exists>h' t' xs. insert_all ins_op h t as = Some (h', t')
    \<and> (first_op h' t' \<bind> walk next_op h' (length as)) = Some xs
    \<and> set xs = set as \<and> ordered (cmp t) xs"
proof -
  obtain h' t' where 1: "insert_all ins_op h t as = Some (h', t')" "rep h' t' (ins_all (cmp t) as [])"
    using insert_all_law [OF assms(1,2)] assms(3,4) by auto
  then show ?thesis
    using iterate_law [OF 1(2)] ins_all_props [of as "[]" "cmp t"] assms(3,4)
    by auto
qed

text \<open>Erasing what was just inserted restores the collection.\<close>

lemma insert_erase:
  assumes "rep h t (xs @ ys)" "fresh h e" "e \<notin> set (xs @ ys)"
    and "\<forall>x\<in>set xs. 0 < cmp t x e" "\<forall>y\<in>set ys. cmp t y e < 0" "cmp_ok (insert e (set (xs @ ys))) (cmp t)"
  shows "\<exists>h1 t1 h2 t2. ins_op h t e = Some (h1, t1, e) \<and> rep h1 t1 (xs @ e # ys)
    \<and> del_op h1 t1 e = Some (h2, t2) \<and> rep h2 t2 (xs @ ys)"
proof -
  have "\<forall>x\<in>set (xs @ ys). cmp t x e \<noteq> 0" using assms(4,5) by fastforce
  then obtain h1 t1 where "ins_op h t e = Some (h1, t1, e)" "rep h1 t1 (xs @ e # ys)"
    using ins_new [OF assms(1,2,3,6)] ins_split [of xs "cmp t" e ys] assms(4,5) by auto
  with del_law show ?thesis by blast
qed

end

section \<open>The AVL tree satisfies the contract\<close>

definition avl_set :: "avl_hooks \<Rightarrow> dfk_avltree_t \<Rightarrow> addr list \<Rightarrow> bool" where
  "avl_set h tree xs \<longleftrightarrow> (\<exists>t. avl_rep h tree t \<and> inorder t = xs)
     \<and> cmp_ok (set xs) (avl_cmp tree) \<and> ordered (avl_cmp tree) xs"

definition avl_fresh :: "avl_hooks \<Rightarrow> addr \<Rightarrow> bool" where
  "avl_fresh h a \<longleftrightarrow> a \<noteq> NULL \<and> h a = Some (hook NULL NULL NULL 0)"

definition avl_first :: "avl_hooks \<Rightarrow> dfk_avltree_t \<Rightarrow> addr option" where
  "avl_first h tree = map_option avl_it_value (dfk_avltree_begin h tree)"

definition avl_next :: "avl_hooks \<Rightarrow> addr \<Rightarrow> addr option" where
  "avl_next h a = map_option avl_it_value (dfk_avltree_it_next h \<lparr>avl_it_value = a\<rparr>)"

lemma avl_insert_set:
  assumes set: "avl_set h tree xs" and fresh: "avl_fresh h e" "e \<notin> set xs"
    and ok: "cmp_ok (insert e (set xs)) (avl_cmp tree)"
  shows "(if \<exists>x\<in>set xs. avl_cmp tree x e = 0 then dfk_avltree_insert h tree e = Some (h, tree, NULL)
    else \<exists>h' tree'. dfk_avltree_insert h tree e = Some (h', tree', e)
      \<and> avl_set h' tree' (ins (avl_cmp tree) e xs) \<and> avl_cmp tree' = avl_cmp tree
      \<and> same_outside (insert e (set xs)) h h')"
proof -
  obtain t where t: "avl_rep h tree t" "inorder t = xs" "cmp_ok (set xs) (avl_cmp tree)" "ordered (avl_cmp tree) xs"
    using set by (auto simp: avl_set_def)
  from insert_spec [OF t(1), of e] fresh t(2) consider
      "\<exists>x\<in>set xs. avl_cmp tree x e = 0" "dfk_avltree_insert h tree e = Some (h, tree, NULL)"
    | h' tree' t' c where "dfk_avltree_insert h tree e = Some (h', tree', e)" "avl_rep h' tree' t'"
        "xs = ctx_left c @ ctx_right c" "inorder t' = ctx_left c @ e # ctx_right c"
        "follows (avl_cmp tree) e c" "avl_cmp tree' = avl_cmp tree" "same_outside (insert e (set xs)) h h'"
    by (auto simp: avl_fresh_def)
  then show ?thesis
  proof cases
    case 2
    have "(\<forall>x\<in>set (ctx_left c). 0 < avl_cmp tree x e) \<and> (\<forall>x\<in>set (ctx_right c). avl_cmp tree x e < 0)"
      using follows_order [OF _ 2(5)] ok t(4) 2(3) by (simp add: ctx_set_def)
    then have "ins (avl_cmp tree) e xs = inorder t'" "\<not> (\<exists>x\<in>set xs. avl_cmp tree x e = 0)"
      using ins_split [of "ctx_left c" "avl_cmp tree" e "ctx_right c"] 2(3,4) by auto
    moreover from this have "cmp_ok (set (ins (avl_cmp tree) e xs)) (avl_cmp tree)"
      using ok set_ins [of xs "avl_cmp tree" e] by auto
    ultimately show ?thesis using 2 ordered_ins [OF ok t(4)] by (auto simp: avl_set_def)
  qed simp
qed

lemma avl_find_set:
  assumes "avl_set h tree xs" "sorted_wrt (\<lambda>x y. sgn (cmp y k) \<le> sgn (cmp x k)) xs"
  shows "\<exists>a. dfk_avltree_find h tree k cmp = Some a \<and>
    (if \<exists>x\<in>set xs. cmp x k = 0 then a \<in> set xs \<and> cmp a k = 0 else a = NULL)"
proof -
  obtain t where t: "avl_rep h tree t" "inorder t = xs" using assms(1) by (auto simp: avl_set_def)
  then have at: "tree_at h NULL t" "avl_root tree = root t" by (auto simp: avl_rep_def)
  have "\<exists>a. find_loop (\<lambda>i. cmp i k) h (avl_root tree) = Some a \<and>
    (if \<exists>x\<in>set xs. cmp x k = 0 then a \<in> set xs \<and> cmp a k = 0 else a = NULL)"
    unfolding at(2) by (rule find_loop_ok [OF at(1), of "\<lambda>i. cmp i k", unfolded t(2), OF assms(2)])
  moreover have "dfk_avltree_find h tree k cmp = find_loop (\<lambda>i. cmp i k) h (avl_root tree)"
    using avl_check_ok [OF t(1)] by (simp add: dfk_avltree_find_def)
  ultimately show ?thesis by (simp only:)
qed

interpretation avl: ordered_index avl_set avl_cmp avl_fresh dfk_avltree_insert dfk_avltree_erase avl_first avl_next
proof (unfold_locales, goal_cases)
  case (1 h t xs)
  then show ?case using tree_at_not_NULL by (auto simp: avl_set_def avl_rep_def)
next
  case (2 h t xs e)
  then show ?case using avl_insert_set [of h t xs e] by (fastforce simp: avl_fresh_def same_outside_eq)
next
  case (3 h t xs e)
  then show ?case using avl_insert_set [of h t xs e] by auto
next
  case (4 h t xs e ys)
  have "set (xs @ ys) \<subseteq> set (xs @ e # ys)" by auto
  with 4 show ?case using erase_spec [of h t _ xs e ys]
    by (fastforce simp: avl_set_def ordered_simps intro: cmp_ok_mono)
next
  case (5 h t xs)
  then show ?case using begin_spec by (fastforce simp: avl_set_def avl_first_def)
next
  case (6 h t xs a ys)
  then show ?case using it_next_spec by (fastforce simp: avl_set_def avl_next_def)
qed

section \<open>Properties\<close>

text \<open>Hooks ordered by their address, and a tree of two of them.\<close>

abbreviation by_address :: "addr \<Rightarrow> addr \<Rightarrow> int" where
  "by_address \<equiv> \<lambda>x y. uint y - uint x"

lemma cmp_ok_by_address [simp]: "cmp_ok A by_address"
  by (simp add: cmp_ok_def)

abbreviation two_nodes :: avl_hooks where
  "two_nodes \<equiv> [16 \<mapsto> hook NULL 24 NULL 1, 24 \<mapsto> hook NULL NULL 16 0, 32 \<mapsto> hook NULL NULL NULL 0,
                40 \<mapsto> hook NULL NULL NULL 0]"

abbreviation two_tree :: dfk_avltree_t where
  "two_tree \<equiv> \<lparr>avl_root = 16, avl_cmp = by_address, avl_size = 2\<rparr>"

lemma two_tree_rep: "avl_rep two_nodes two_tree (Node Leaf 16 1 (Node Leaf 24 0 Leaf))"
  by (simp add: avl_rep_def)

lemma two_tree_set: "avl_set two_nodes two_tree [16, 24]"
  using two_tree_rep
  by (auto simp: avl_set_def cmp_ok_by_address ordered_def intro!: exI [of _ "Node Leaf 16 1 (Node Leaf 24 0 Leaf)"])

text \<open>
  C7. AVL insertion, both branches: inserting an initialised hook into a well-formed tree never
  fails an assertion or dereferences \<^verbatim>\<open>NULL\<close>. If an element compares equal, the tree is
  unchanged and \<^verbatim>\<open>NULL\<close> is returned; otherwise the hook is returned and the result is again a
  balanced, correctly linked search tree of one more element, whose order is the old order with
  the hook inserted at its place. Nothing outside the tree and the hook is written.
\<close>

theorem avl_insert_correct:
  assumes "avl_set h tree xs" "avl_fresh h e" "e \<notin> set xs" "cmp_ok (insert e (set xs)) (avl_cmp tree)"
  shows "(if \<exists>x\<in>set xs. avl_cmp tree x e = 0 then dfk_avltree_insert h tree e = Some (h, tree, NULL)
    else \<exists>h' tree'. dfk_avltree_insert h tree e = Some (h', tree', e)
      \<and> avl_set h' tree' (ins (avl_cmp tree) e xs) \<and> avl_size tree' = of_nat (Suc (length xs))
      \<and> same_outside (insert e (set xs)) h h')"
proof (cases "\<exists>x\<in>set xs. avl_cmp tree x e = 0")
  case True
  then show ?thesis using avl_insert_set [OF assms] by simp
next
  case False
  then obtain h' tree' where 1: "dfk_avltree_insert h tree e = Some (h', tree', e)"
      "avl_set h' tree' (ins (avl_cmp tree) e xs)" "same_outside (insert e (set xs)) h h'"
    using avl_insert_set [OF assms] by auto
  then have "avl_size tree' = of_nat (Suc (length xs))"
    using length_ins [of xs "avl_cmp tree" e] False by (auto simp: avl_set_def avl_rep_def)
  with 1 False show ?thesis by auto
qed

theorem avl_insert_correct_witness:
  "\<exists>h' tree'. dfk_avltree_insert two_nodes two_tree 32 = Some (h', tree', 32)
     \<and> avl_set h' tree' [16, 24, 32] \<and> avl_size tree' = 3 \<and> h' 40 = Some (hook NULL NULL NULL 0)"
  using avl_insert_correct [OF two_tree_set, of 32]
  by (force simp: avl_fresh_def same_outside_def)

text \<open>
  C8. AVL erasure: erasing any element of a well-formed tree succeeds, in particular the
  untested dereference of the left child in the third case is safe, and leaves a balanced,
  correctly linked search tree with exactly that element removed. The erased hook itself and
  everything outside the tree are not written.
\<close>

theorem avl_erase_correct:
  assumes "avl_set h tree (xs @ e # ys)"
  shows "\<exists>h' tree'. dfk_avltree_erase h tree e = Some (h', tree') \<and> avl_set h' tree' (xs @ ys)
    \<and> avl_size tree' = of_nat (length (xs @ ys)) \<and> same_outside (set (xs @ ys)) h h'"
proof -
  obtain t where "avl_rep h tree t" "inorder t = xs @ e # ys" "cmp_ok (set (xs @ e # ys)) (avl_cmp tree)"
      "ordered (avl_cmp tree) (xs @ e # ys)"
    using assms by (auto simp: avl_set_def)
  moreover from this have "cmp_ok (set (xs @ ys)) (avl_cmp tree)" by (auto intro: cmp_ok_mono)
  ultimately show ?thesis
    using erase_spec [of h tree t xs e ys]
    by (fastforce simp: avl_set_def ordered_simps avl_rep_def)
qed

theorem avl_erase_correct_witness:
  "\<exists>h' tree'. dfk_avltree_erase two_nodes two_tree 16 = Some (h', tree') \<and> avl_set h' tree' [24]
     \<and> avl_size tree' = 1 \<and> h' 16 = two_nodes 16"
  using avl_erase_correct [of two_nodes two_tree "[]" 16 "[24]"] two_tree_set
  by (force simp: same_outside_def)

text \<open>
  Building and traversing: inserting pairwise different hooks into an empty tree one by one
  and then iterating from \<^verbatim>\<open>dfk_avltree_begin\<close> with \<^verbatim>\<open>dfk_avltree_it_next\<close> visits each of them
  exactly once, in the order of the comparison.
\<close>

theorem avl_build_iterate:
  assumes "\<forall>a\<in>set as. avl_fresh h a" "all_differ cmp as" "cmp_ok (set as) cmp"
  shows "\<exists>tree h' tree' xs. dfk_avltree_init h cmp = Some tree
    \<and> insert_all dfk_avltree_insert h tree as = Some (h', tree')
    \<and> (avl_first h' tree' \<bind> walk avl_next h' (length as)) = Some xs
    \<and> set xs = set as \<and> ordered cmp xs"
proof -
  let ?t = "\<lparr>avl_root = NULL, avl_cmp = cmp, avl_size = 0\<rparr>"
  have rep: "avl_rep h ?t Leaf" by (simp add: avl_rep_def)
  then have "avl_set h ?t []" using assms(3) by (auto simp: avl_set_def)
  moreover have "dfk_avltree_init h cmp = Some ?t" using avl_check_ok [OF rep] by (simp add: dfk_avltree_init_def)
  ultimately show ?thesis using avl.build_and_iterate [of h ?t as] assms by auto
qed

theorem avl_build_iterate_witness:
  "\<exists>tree h' tree' xs.
    dfk_avltree_init [32 \<mapsto> hook NULL NULL NULL 0, 8 \<mapsto> hook NULL NULL NULL 0, 16 \<mapsto> hook NULL NULL NULL 0]
      by_address = Some tree
    \<and> insert_all dfk_avltree_insert
       [32 \<mapsto> hook NULL NULL NULL 0, 8 \<mapsto> hook NULL NULL NULL 0, 16 \<mapsto> hook NULL NULL NULL 0]
       tree [32, 8, 16] = Some (h', tree')
    \<and> (avl_first h' tree' \<bind> walk avl_next h' (length [32, 8, 16 :: addr])) = Some xs
    \<and> set xs = set [32, 8, 16] \<and> ordered by_address xs"
  by (rule avl_build_iterate) (auto simp: avl_fresh_def all_differ_def)

text \<open>
  Lookup: if along the tree's order the comparison with a key is first positive, then zero,
  then negative, \<^verbatim>\<open>dfk_avltree_find\<close> returns an element that compares equal to the key when there
  is one, and \<^verbatim>\<open>NULL\<close> otherwise.
\<close>

theorem avl_find_correct:
  assumes "avl_set h tree xs" "sorted_wrt (\<lambda>x y. sgn (cmp y k) \<le> sgn (cmp x k)) xs"
  shows "\<exists>a. dfk_avltree_find h tree k cmp = Some a \<and>
    (if \<exists>x\<in>set xs. cmp x k = 0 then a \<in> set xs \<and> cmp a k = 0 else a = NULL)"
  using assms by (rule avl_find_set)

theorem avl_find_correct_witness:
  "dfk_avltree_find two_nodes two_tree (24 :: int) (\<lambda>x k. k - uint x) = Some 24
   \<and> dfk_avltree_find two_nodes two_tree (20 :: int) (\<lambda>x k. k - uint x) = Some NULL"
  using avl_find_correct [OF two_tree_set, of "\<lambda>x k. k - uint x" 24]
    avl_find_correct [OF two_tree_set, of "\<lambda>x k. k - uint x" 20]
  by (auto simp: sgn_if)

text \<open>
  The two configurations of the size agree: the stored counter and the traversal that
  \<^verbatim>\<open>dfk_avltree_size\<close> performs without constant-time size both return the number of elements.
\<close>

theorem avl_size_configurations_agree:
  assumes "avl_set h tree xs"
  shows "dfk_avltree_size h tree = Some (of_nat (length xs))
    \<and> dfk_avltree_size_traverse h tree = Some (of_nat (length xs))"
  using assms size_spec by (auto simp: avl_set_def)

theorem avl_size_configurations_agree_witness:
  "dfk_avltree_size two_nodes two_tree = Some 2 \<and> dfk_avltree_size_traverse two_nodes two_tree = Some 2"
  using avl_size_configurations_agree [OF two_tree_set] by simp

text \<open>A balanced tree of height \<open>h\<close> has at least about \<open>2\<^bsup>h/2\<^esup>\<close> elements.\<close>

lemma balanced_size: "balanced t \<Longrightarrow> 2 ^ (height t div 2) \<le> length (inorder t) + 1"
proof (induction t)
  case (Node l a b r)
  define m where "m = min (height l) (height r)"
  have m: "height (Node l a b r) \<le> m + 2" "m \<le> height l" "m \<le> height r"
    using Node.prems by (auto simp: m_def)
  have "2 ^ (m div 2) \<le> length (inorder l) + 1" "2 ^ (m div 2) \<le> length (inorder r) + 1"
    using Node m(2,3) by (meson balanced.simps(2) div_le_mono le_trans one_le_numeral power_increasing)+
  moreover have "2 ^ (height (Node l a b r) div 2) \<le> (2 :: nat) ^ ((m + 2) div 2)"
    using m(1) by (intro power_increasing div_le_mono) simp_all
  ultimately show ?case by simp
qed simp

text \<open>
  Logarithmic height: every path of a well-formed tree, and so every search, insertion and
  erasure loop, is at most about twice the binary logarithm of the number of elements long.
\<close>

theorem avl_height_bound:
  assumes "avl_rep h tree t"
  shows "2 ^ (height t div 2) \<le> length (inorder t) + 1"
  using assms balanced_size by (simp add: avl_rep_def)

theorem avl_height_bound_witness:
  "2 ^ (height (Node Leaf 16 1 (Node Leaf 24 0 Leaf)) div 2)
     \<le> length (inorder (Node Leaf 16 1 (Node Leaf 24 0 Leaf))) + 1"
  using avl_height_bound [OF two_tree_rep] .

end
