(* ===== verification/Dfk_Strmap.thy ===== *)
theory Dfk_Strmap
  imports Dfk_Avl_Set "HOL-Library.Sublist"
begin

text \<open>
  The string map of \<^verbatim>\<open>src/strmap.c\<close>: items with a key and a value, kept in an AVL tree under a
  comparison of the keys. An item's hook is its first member, so an item and its hook have the
  same address. Buffers are modelled by their contents; the value of an item is \<^term>\<open>None\<close> for a
  \<^verbatim>\<open>NULL\<close> pointer. The map behaves as an associative array exactly as long as no key is a proper
  prefix of another one; the last section shows what happens otherwise.
\<close>

section \<open>Data\<close>

record dfk_strmap_item_t =
  item_key :: "byte list"
  item_value :: "byte list option"

type_synonym strmap_items = "dfk_strmap_item_t mem"

record dfk_strmap_t =
  strmap_cont :: dfk_avltree_t

record dfk_strmap_it =
  strmap_it :: dfk_avltree_it

section \<open>Comparison of keys\<close>

text \<open>
  The C library's \<^verbatim>\<open>strncmp\<close> on two buffers of at least \<open>n\<close> bytes: it stops at a difference, at a
  zero byte, or after \<open>n\<close> bytes. Of the result only the sign is specified and used.
\<close>

fun strncmp :: "byte list \<Rightarrow> byte list \<Rightarrow> nat \<Rightarrow> int" where
  "strncmp (a # s) (b # t) (Suc n) = (if a \<noteq> b then uint a - uint b else if a = 0 then 0 else strncmp s t n)"
| "strncmp s t n = 0"

definition dfk__strmap_lookup_cmp :: "strmap_items \<Rightarrow> addr \<Rightarrow> byte list \<Rightarrow> int" where
  "dfk__strmap_lookup_cmp items l rh = (case items l of
     None \<Rightarrow> 0
   | Some lh \<Rightarrow>
       let tocmp = min (length (item_key lh)) (length rh);
           res = strncmp (item_key lh) rh tocmp
       in if res \<noteq> 0 then res else if length rh < length (item_key lh) then 1 else 0)"

definition dfk__strmap_cmp :: "strmap_items \<Rightarrow> addr \<Rightarrow> addr \<Rightarrow> int" where
  "dfk__strmap_cmp items l r = (case items r of
     None \<Rightarrow> 0
   | Some rh \<Rightarrow> dfk__strmap_lookup_cmp items l (item_key rh))"

text \<open>The tree of a map, its callback reading the items as they are at the call.\<close>

definition cont :: "strmap_items \<Rightarrow> dfk_strmap_t \<Rightarrow> dfk_avltree_t" where
  "cont items smap = (strmap_cont smap)\<lparr>avl_cmp := dfk__strmap_cmp items\<rparr>"

section \<open>Items\<close>

definition dfk_strmap_item_init ::
  "avl_hooks \<Rightarrow> strmap_items \<Rightarrow> addr \<Rightarrow> byte list \<Rightarrow> byte list option \<Rightarrow> (avl_hooks \<times> strmap_items) option" where
  "dfk_strmap_item_init h items item key value = do {
     c_assert (item \<noteq> NULL);
     c_assert (key \<noteq> []);
     h \<leftarrow> dfk_avltree_hook_init h item;
     let items = items(item \<mapsto> \<lparr>item_key = key, item_value = value\<rparr>);
     Some (h, items)
   }"

text \<open>
  The copying constructors: \<open>mem\<close> is what \<^verbatim>\<open>dfk__malloc\<close> returned for the block, the address and
  the indeterminate contents of the hook inside it, or \<^term>\<open>None\<close> for \<^verbatim>\<open>NULL\<close>. The copies placed
  behind the item in the block have the contents of the originals; a copied value is never a
  \<^verbatim>\<open>NULL\<close> pointer.
\<close>

definition strmap_item_new ::
  "avl_hooks \<Rightarrow> strmap_items \<Rightarrow> (addr \<times> dfk_avltree_hook_t) option \<Rightarrow> byte list \<Rightarrow> byte list option
    \<Rightarrow> (avl_hooks \<times> strmap_items \<times> addr) option" where
  "strmap_item_new h items mem key value = (case mem of
     None \<Rightarrow> Some (h, items, NULL)
   | Some (item, junk) \<Rightarrow> do {
       let h = h(item \<mapsto> junk);
       (h, items) \<leftarrow> dfk_strmap_item_init h items item key value;
       Some (h, items, item)
     })"

definition bytes_of :: "byte list option \<Rightarrow> byte list" where
  "bytes_of v = (case v of None \<Rightarrow> [] | Some bs \<Rightarrow> bs)"

definition dfk_strmap_item_copy ::
  "avl_hooks \<Rightarrow> strmap_items \<Rightarrow> (addr \<times> dfk_avltree_hook_t) option \<Rightarrow> byte list \<Rightarrow> byte list option
    \<Rightarrow> (avl_hooks \<times> strmap_items \<times> addr) option" where
  "dfk_strmap_item_copy h items mem key value = do {
     c_assert (key \<noteq> []);
     strmap_item_new h items mem key (Some (bytes_of value))
   }"

definition dfk_strmap_item_copy_key ::
  "avl_hooks \<Rightarrow> strmap_items \<Rightarrow> (addr \<times> dfk_avltree_hook_t) option \<Rightarrow> byte list \<Rightarrow> byte list option
    \<Rightarrow> (avl_hooks \<times> strmap_items \<times> addr) option" where
  "dfk_strmap_item_copy_key h items mem key value = do {
     c_assert (key \<noteq> []);
     strmap_item_new h items mem key value
   }"

definition dfk_strmap_item_copy_value ::
  "avl_hooks \<Rightarrow> strmap_items \<Rightarrow> (addr \<times> dfk_avltree_hook_t) option \<Rightarrow> byte list \<Rightarrow> byte list option
    \<Rightarrow> (avl_hooks \<times> strmap_items \<times> addr) option" where
  "dfk_strmap_item_copy_value h items mem key value = do {
     c_assert (key \<noteq> []);
     strmap_item_new h items mem key (Some (bytes_of value))
   }"

section \<open>The map\<close>

definition dfk_strmap_init :: "avl_hooks \<Rightarrow> strmap_items \<Rightarrow> dfk_strmap_t option" where
  "dfk_strmap_init h items = do {
     tree \<leftarrow> dfk_avltree_init h (dfk__strmap_cmp items);
     Some \<lparr>strmap_cont = tree\<rparr>
   }"

definition dfk_strmap_size :: "avl_hooks \<Rightarrow> strmap_items \<Rightarrow> dfk_strmap_t \<Rightarrow> size_t option" where
  "dfk_strmap_size h items smap = dfk_avltree_size h (cont items smap)"

text \<open>\<^term>\<open>Some None\<close> is the buffer \<^verbatim>\<open>{NULL, 0}\<close>, also returned for an absent key.\<close>

definition dfk_strmap_get ::
  "avl_hooks \<Rightarrow> strmap_items \<Rightarrow> dfk_strmap_t \<Rightarrow> byte list \<Rightarrow> byte list option option" where
  "dfk_strmap_get h items smap key = do {
     c_assert (key \<noteq> []);
     item \<leftarrow> dfk_avltree_find h (cont items smap) key (dfk__strmap_lookup_cmp items);
     if item \<noteq> NULL then do { it \<leftarrow> load items item; Some (item_value it) } else Some None
   }"

definition dfk_strmap_insert ::
  "avl_hooks \<Rightarrow> strmap_items \<Rightarrow> dfk_strmap_t \<Rightarrow> addr \<Rightarrow> (avl_hooks \<times> dfk_strmap_t) option" where
  "dfk_strmap_insert h items smap item = do {
     c_assert (item \<noteq> NULL);
     (h, tree, ret) \<leftarrow> dfk_avltree_insert h (cont items smap) item;
     Some (h, smap\<lparr>strmap_cont := tree\<rparr>)
   }"

definition dfk_strmap_erase ::
  "avl_hooks \<Rightarrow> strmap_items \<Rightarrow> dfk_strmap_t \<Rightarrow> dfk_strmap_it \<Rightarrow> (avl_hooks \<times> dfk_strmap_t) option" where
  "dfk_strmap_erase h items smap it = do {
     (h, tree) \<leftarrow> dfk_avltree_erase h (cont items smap) (avl_it_value (strmap_it it));
     Some (h, smap\<lparr>strmap_cont := tree\<rparr>)
   }"

definition dfk_strmap_begin ::
  "avl_hooks \<Rightarrow> strmap_items \<Rightarrow> dfk_strmap_t \<Rightarrow> dfk_strmap_it option" where
  "dfk_strmap_begin h items smap = do {
     it \<leftarrow> dfk_avltree_begin h (cont items smap);
     Some \<lparr>strmap_it = it\<rparr>
   }"

definition dfk_strmap_end ::
  "avl_hooks \<Rightarrow> strmap_items \<Rightarrow> dfk_strmap_t \<Rightarrow> dfk_strmap_it option" where
  "dfk_strmap_end h items smap = do {
     it \<leftarrow> dfk_avltree_end h (cont items smap);
     Some \<lparr>strmap_it = it\<rparr>
   }"

definition dfk_strmap_it_next :: "avl_hooks \<Rightarrow> dfk_strmap_it \<Rightarrow> dfk_strmap_it option" where
  "dfk_strmap_it_next h it = do {
     it' \<leftarrow> dfk_avltree_it_next h (strmap_it it);
     Some \<lparr>strmap_it = it'\<rparr>
   }"

definition dfk_strmap_it_equal :: "dfk_strmap_it \<Rightarrow> dfk_strmap_it \<Rightarrow> bool option" where
  "dfk_strmap_it_equal lhs rhs = dfk_avltree_it_equal (strmap_it lhs) (strmap_it rhs)"

section \<open>When the comparison is one\<close>

text \<open>Keys without zero bytes, none of which is a proper prefix of another.\<close>

definition keys_ok :: "byte list set \<Rightarrow> bool" where
  "keys_ok K \<longleftrightarrow> (\<forall>k\<in>K. 0 \<notin> set k \<and> k \<noteq> []) \<and> (\<forall>k\<in>K. \<forall>k'\<in>K. prefix k k' \<longrightarrow> k = k')"

definition key_of :: "strmap_items \<Rightarrow> addr \<Rightarrow> byte list" where
  "key_of items a = (case items a of Some it \<Rightarrow> item_key it | None \<Rightarrow> [])"

lemma keys_ok_mono: "keys_ok K \<Longrightarrow> K' \<subseteq> K \<Longrightarrow> keys_ok K'"
  unfolding keys_ok_def by blast

abbreviation cmp_min :: "byte list \<Rightarrow> byte list \<Rightarrow> int" where
  "cmp_min s t \<equiv> strncmp s t (min (length s) (length t))"

lemma cmp_min_Cons:
  "cmp_min (a # s) (b # t) = (if a \<noteq> b then uint a - uint b else if a = 0 then 0 else cmp_min s t)"
  by simp

lemma cmp_min_antisym: "cmp_min t s = - cmp_min s t"
proof (induction s arbitrary: t)
  case (Cons a s)
  then show ?case by (cases t) (simp_all add: min_Suc_Suc)
qed simp

lemma cmp_min_zero: "0 \<notin> set s \<Longrightarrow> cmp_min s t = 0 \<longleftrightarrow> prefix s t \<or> prefix t s"
proof (induction s arbitrary: t)
  case (Cons a s)
  then show ?case by (cases t) (auto simp: word_eq_iff_unsigned [symmetric])
qed simp

lemma cmp_min_trans: "0 < cmp_min s t \<Longrightarrow> 0 < cmp_min t u \<Longrightarrow> 0 < cmp_min s u"
proof (induction s arbitrary: t u)
  case (Cons a s)
  then obtain b t' where t: "t = b # t'" by (cases t) auto
  with Cons.prems obtain c u' where u: "u = c # u'" by (cases u) auto
  show ?case
    using Cons.IH [of t' u'] Cons.prems t u by (auto split: if_splits)
qed simp

lemma lookup_cmp_keys_ok:
  assumes "items a \<noteq> None" "keys_ok (insert k K)" "key_of items a \<in> K"
  shows "dfk__strmap_lookup_cmp items a k = cmp_min (key_of items a) k"
    "dfk__strmap_lookup_cmp items a k = 0 \<longleftrightarrow> key_of items a = k"
proof -
  obtain it where it: "items a = Some it" using assms(1) by auto
  have k: "0 \<notin> set (item_key it)" "prefix (item_key it) k \<longrightarrow> item_key it = k"
    "prefix k (item_key it) \<longrightarrow> item_key it = k"
    using assms(2,3) it by (auto simp: keys_ok_def key_of_def)
  show "dfk__strmap_lookup_cmp items a k = cmp_min (key_of items a) k"
    using k cmp_min_zero [OF k(1), of k] it
    by (auto simp: dfk__strmap_lookup_cmp_def key_of_def Let_def)
  with cmp_min_zero [OF k(1), of k] k it
  show "dfk__strmap_lookup_cmp items a k = 0 \<longleftrightarrow> key_of items a = k"
    by (auto simp: key_of_def)
qed

lemma strmap_cmp_keys_ok:
  assumes "items a \<noteq> None" "items b \<noteq> None" "keys_ok K" "key_of items a \<in> K" "key_of items b \<in> K"
  shows "dfk__strmap_cmp items a b = cmp_min (key_of items a) (key_of items b)"
    "dfk__strmap_cmp items a b = 0 \<longleftrightarrow> key_of items a = key_of items b"
proof -
  have "keys_ok (insert (key_of items b) K)" using assms(3,5) by (simp add: insert_absorb)
  from lookup_cmp_keys_ok [OF assms(1) this assms(4)]
  show "dfk__strmap_cmp items a b = cmp_min (key_of items a) (key_of items b)"
    "dfk__strmap_cmp items a b = 0 \<longleftrightarrow> key_of items a = key_of items b"
    using assms(2) by (auto simp: dfk__strmap_cmp_def key_of_def split: option.splits)
qed

lemma strmap_cmp_ok:
  assumes "\<forall>a\<in>A. items a \<noteq> None" "keys_ok (key_of items ` A)"
  shows "cmp_ok A (dfk__strmap_cmp items)"
proof -
  have eq: "dfk__strmap_cmp items a b = cmp_min (key_of items a) (key_of items b)" if "a \<in> A" "b \<in> A" for a b
    by (rule strmap_cmp_keys_ok(1) [OF _ _ assms(2)]) (use assms(1) that in auto)
  have "(dfk__strmap_cmp items a b < 0) = (0 < dfk__strmap_cmp items b a)" if "a \<in> A" "b \<in> A" for a b
    using eq [OF that] eq [OF that(2,1)] cmp_min_antisym [of "key_of items b" "key_of items a"] by simp
  moreover have "0 < dfk__strmap_cmp items a c" if "a \<in> A" "b \<in> A" "c \<in> A"
    "0 < dfk__strmap_cmp items a b" "0 < dfk__strmap_cmp items b c" for a b c
    using that cmp_min_trans [of "key_of items a" "key_of items b" "key_of items c"] by (simp add: eq)
  ultimately show ?thesis unfolding cmp_ok_def by blast
qed

section \<open>The map refines an associative array\<close>

text \<open>
  \<open>strmap_rep h items smap xs m\<close>: the map holds the items \<open>xs\<close>, and their keys and values are
  those of the associative array \<open>m\<close>.
\<close>

definition strmap_rep ::
  "avl_hooks \<Rightarrow> strmap_items \<Rightarrow> dfk_strmap_t \<Rightarrow> addr list \<Rightarrow> (byte list \<rightharpoonup> byte list option) \<Rightarrow> bool" where
  "strmap_rep h items smap xs m \<longleftrightarrow> avl_set h (cont items smap) xs
     \<and> (\<forall>a\<in>set xs. items a \<noteq> None) \<and> keys_ok (key_of items ` set xs)
     \<and> (\<forall>k v. m k = Some v \<longleftrightarrow> (\<exists>a\<in>set xs. items a = Some \<lparr>item_key = k, item_value = v\<rparr>))"

text \<open>An initialised item with the given key and value that is in no map.\<close>

definition item_fresh :: "avl_hooks \<Rightarrow> strmap_items \<Rightarrow> addr \<Rightarrow> byte list \<Rightarrow> byte list option \<Rightarrow> bool" where
  "item_fresh h items a k v \<longleftrightarrow> avl_fresh h a \<and> items a = Some \<lparr>item_key = k, item_value = v\<rparr>"

lemma cont_cmp [simp]: "avl_cmp (cont items smap) = dfk__strmap_cmp items"
  by (simp add: cont_def)

lemma cont_update [simp]:
  "avl_cmp tree = dfk__strmap_cmp items \<Longrightarrow> cont items (smap\<lparr>strmap_cont := tree\<rparr>) = tree"
  by (cases tree) (simp add: cont_def)

lemma strmap_dom:
  assumes "\<forall>k v. m k = Some v \<longleftrightarrow> (\<exists>a\<in>set xs. items a = Some \<lparr>item_key = k, item_value = v\<rparr>)"
    and "\<forall>a\<in>set xs. items a \<noteq> None"
  shows "dom m = key_of items ` set xs"
proof -
  have "key_of items a \<in> dom m" if a: "a \<in> set xs" for a
  proof -
    obtain it where "items a = Some it" using assms(2) a by auto
    moreover obtain k v where "it = \<lparr>item_key = k, item_value = v\<rparr>" by (rule dfk_strmap_item_t.cases)
    ultimately show ?thesis using assms(1) a by (auto simp: key_of_def dom_def)
  qed
  moreover have "k \<in> key_of items ` set xs" if "k \<in> dom m" for k
    using assms(1) that by (force simp: key_of_def dom_def)
  ultimately show ?thesis by blast
qed

lemma strmap_init_spec: "\<exists>smap. dfk_strmap_init h items = Some smap \<and> strmap_rep h items smap [] Map.empty"
proof -
  let ?t = "\<lparr>avl_root = NULL, avl_cmp = dfk__strmap_cmp items, avl_size = 0\<rparr>"
  have "avl_rep h ?t Leaf" by (simp add: avl_rep_def)
  then have "avl_set h ?t []" "dfk__avltree_check_invariants h ?t = Some ()" by (auto simp: avl_set_def)
  then show ?thesis
    by (auto simp: dfk_strmap_init_def dfk_avltree_init_def strmap_rep_def cont_def keys_ok_def)
qed

lemma strmap_get_spec:
  assumes "strmap_rep h items smap xs m" "keys_ok (insert k (dom m))"
  shows "dfk_strmap_get h items smap k = Some (case m k of None \<Rightarrow> None | Some v \<Rightarrow> v)"
proof -
  have xs: "avl_set h (cont items smap) xs" "\<forall>a\<in>set xs. items a \<noteq> None"
      "keys_ok (key_of items ` set xs)"
      "\<forall>k v. m k = Some v \<longleftrightarrow> (\<exists>a\<in>set xs. items a = Some \<lparr>item_key = k, item_value = v\<rparr>)"
    using assms(1) by (auto simp: strmap_rep_def)
  have dom: "dom m = key_of items ` set xs" by (rule strmap_dom [OF xs(4,2)])
  note look = lookup_cmp_keys_ok [OF _ assms(2)]
  have ord: "ordered (dfk__strmap_cmp items) xs" using xs(1) by (simp add: avl_set_def cont_def)
  have look: "dfk__strmap_lookup_cmp items a k = cmp_min (key_of items a) k"
      "dfk__strmap_lookup_cmp items a k = 0 \<longleftrightarrow> key_of items a = k" if "a \<in> set xs" for a
    using look xs(2) dom that by auto
  have "sgn (dfk__strmap_lookup_cmp items y k) \<le> sgn (dfk__strmap_lookup_cmp items x k)"
    if "x \<in> set xs" "y \<in> set xs" "0 < dfk__strmap_cmp items x y" for x y
  proof -
    have "0 < cmp_min (key_of items x) (key_of items y)"
      using strmap_cmp_keys_ok(1) [OF _ _ xs(3), of items x y] xs(2) that by auto
    then show ?thesis
      using look(1) [OF that(1)] look [OF that(2)] cmp_min_trans [of "key_of items x" "key_of items y" k]
      by (cases "key_of items y = k") (auto simp: sgn_if)
  qed
  then have srt: "sorted_wrt (\<lambda>x y. sgn (dfk__strmap_lookup_cmp items y k) \<le> sgn (dfk__strmap_lookup_cmp items x k)) xs"
    using ord unfolding ordered_def by (rule sorted_wrt_mono_rel)
  obtain a where a: "dfk_avltree_find h (cont items smap) k (dfk__strmap_lookup_cmp items) = Some a"
      "if \<exists>x\<in>set xs. dfk__strmap_lookup_cmp items x k = 0
       then a \<in> set xs \<and> dfk__strmap_lookup_cmp items a k = 0 else a = NULL"
    using avl_find_set [of h "cont items smap" xs "dfk__strmap_lookup_cmp items" k] xs(1) srt by blast
  have k: "k \<noteq> []" using assms(2) by (auto simp: keys_ok_def)
  show ?thesis
  proof (cases "k \<in> dom m")
    case True
    then have "a \<in> set xs" "key_of items a = k" using a(2) look(2) dom by (auto split: if_splits)
    moreover then obtain it where "items a = Some it" "item_key it = k"
      using xs(2) by (auto simp: key_of_def)
    moreover then have "m k = Some (item_value it)" using xs(4) \<open>a \<in> set xs\<close> by (cases it) auto
    moreover have "a \<noteq> NULL" using avl.rep_ordered [OF xs(1)] \<open>a \<in> set xs\<close> by auto
    ultimately show ?thesis using a(1) k by (simp add: dfk_strmap_get_def)
  next
    case False
    then have "a = NULL" "m k = None" using a(2) look(2) dom by (auto split: if_splits)
    then show ?thesis using a(1) k by (simp add: dfk_strmap_get_def)
  qed
qed

lemma strmap_insert_spec:
  assumes rep: "strmap_rep h items smap xs m" and a: "item_fresh h items a k v" "a \<notin> set xs"
    and ok: "keys_ok (insert k (dom m))"
  shows "\<exists>h' smap' xs'. dfk_strmap_insert h items smap a = Some (h', smap')
    \<and> strmap_rep h' items smap' xs' (if k \<in> dom m then m else m(k \<mapsto> v))
    \<and> set xs' = (if k \<in> dom m then set xs else insert a (set xs)) \<and> same_outside (insert a (set xs)) h h'"
proof -
  note r = rep [unfolded strmap_rep_def]
  have dom: "dom m = key_of items ` set xs" using strmap_dom r by blast
  have ia: "items a = Some \<lparr>item_key = k, item_value = v\<rparr>" "key_of items a = k" "a \<noteq> NULL" "avl_fresh h a"
    using a(1) by (auto simp: item_fresh_def key_of_def avl_fresh_def)
  have ok': "keys_ok (key_of items ` insert a (set xs))" using ok dom ia(2) by simp
  have cok: "cmp_ok (insert a (set xs)) (dfk__strmap_cmp items)"
    using strmap_cmp_ok [OF _ ok'] r ia(1) by auto
  have eq: "dfk__strmap_cmp items x a = 0 \<longleftrightarrow> key_of items x = k" if "x \<in> set xs" for x
    using strmap_cmp_keys_ok(2) [OF _ _ ok', of items x a] r ia that by auto
  have dup: "(\<exists>x\<in>set xs. avl_cmp (cont items smap) x a = 0) \<longleftrightarrow> k \<in> dom m" using eq dom by auto
  note ins = avl_insert_set [OF conjunct1 [OF r] ia(4) a(2) cok [folded cont_cmp [of items smap]], unfolded dup]
  show ?thesis
  proof (cases "k \<in> dom m")
    case True
    then have "dfk_strmap_insert h items smap a = Some (h, smap\<lparr>strmap_cont := cont items smap\<rparr>)"
      using ins ia(3) by (simp add: dfk_strmap_insert_def)
    moreover have "strmap_rep h items (smap\<lparr>strmap_cont := cont items smap\<rparr>) xs m"
      using rep by (simp add: strmap_rep_def)
    ultimately show ?thesis using True by auto
  next
    case False
    then obtain h' tree' where t: "dfk_avltree_insert h (cont items smap) a = Some (h', tree', a)"
        "avl_set h' tree' (ins (dfk__strmap_cmp items) a xs)" "avl_cmp tree' = dfk__strmap_cmp items"
        "same_outside (insert a (set xs)) h h'"
      using ins by auto
    have s: "set (ins (dfk__strmap_cmp items) a xs) = insert a (set xs)"
      using set_ins [of xs "dfk__strmap_cmp items" a] False dup by auto
    have nk: "\<not> (\<exists>b\<in>set xs. items b = Some \<lparr>item_key = k, item_value = w\<rparr>)" for w
      using False dom by (force simp: key_of_def)
    have "strmap_rep h' items (smap\<lparr>strmap_cont := tree'\<rparr>) (ins (dfk__strmap_cmp items) a xs) (m(k \<mapsto> v))"
      unfolding strmap_rep_def s using t(2,3) r ia ok' nk by auto
    then show ?thesis
      using False t ia(3) s by (auto simp: dfk_strmap_insert_def)
  qed
qed

lemma strmap_erase_spec:
  assumes rep: "strmap_rep h items smap (xs @ a # ys) m"
  shows "\<exists>h' smap'. dfk_strmap_erase h items smap \<lparr>strmap_it = \<lparr>avl_it_value = a\<rparr>\<rparr> = Some (h', smap')
    \<and> strmap_rep h' items smap' (xs @ ys) (m(key_of items a := None))"
proof -
  note r = rep [unfolded strmap_rep_def]
  obtain h' tree' where t: "dfk_avltree_erase h (cont items smap) a = Some (h', tree')"
      "avl_set h' tree' (xs @ ys)" "avl_cmp tree' = dfk__strmap_cmp items"
    using avl.del_law [of h "cont items smap" xs a ys] r by auto
  have ord: "ordered (dfk__strmap_cmp items) (xs @ a # ys)" using r by (simp add: avl_set_def)
  have ne: "key_of items b \<noteq> key_of items a" if b: "b \<in> set (xs @ ys)" for b
  proof -
    have "dfk__strmap_cmp items b a \<noteq> 0 \<or> dfk__strmap_cmp items a b \<noteq> 0"
      using ord b by (auto simp: ordered_simps)
    then show ?thesis
      using strmap_cmp_keys_ok(2) [of items b a "key_of items ` set (xs @ a # ys)"]
        strmap_cmp_keys_ok(2) [of items a b "key_of items ` set (xs @ a # ys)"] r b by auto
  qed
  have m: "(m(key_of items a := None)) k = Some v \<longleftrightarrow>
      (\<exists>b\<in>set (xs @ ys). items b = Some \<lparr>item_key = k, item_value = v\<rparr>)" for k v
    using r ne by (force simp: key_of_def split: if_splits)
  have "key_of items ` set (xs @ ys) \<subseteq> key_of items ` set (xs @ a # ys)" by auto
  then have "strmap_rep h' items (smap\<lparr>strmap_cont := tree'\<rparr>) (xs @ ys) (m(key_of items a := None))"
    using t(2,3) r m keys_ok_mono unfolding strmap_rep_def by auto
  with t(1) show ?thesis by (auto simp: dfk_strmap_erase_def)
qed

lemma strmap_size_spec:
  assumes "strmap_rep h items smap xs m"
  shows "dfk_strmap_size h items smap = Some (of_nat (length xs))" "card (dom m) = length xs"
proof -
  note r = assms [unfolded strmap_rep_def]
  show "dfk_strmap_size h items smap = Some (of_nat (length xs))"
    using r size_spec(1) by (auto simp: dfk_strmap_size_def avl_set_def)
  have ord: "ordered (dfk__strmap_cmp items) xs" "distinct xs"
    using r ordered_distinct [of xs "dfk__strmap_cmp items"] by (auto simp: avl_set_def)
  have "inj_on (key_of items) (set xs)"
  proof (rule inj_onI)
    fix a b assume ab: "a \<in> set xs" "b \<in> set xs" "key_of items a = key_of items b"
    then have z: "dfk__strmap_cmp items a b = 0" "dfk__strmap_cmp items b a = 0"
      using strmap_cmp_keys_ok(2) [of items a b "key_of items ` set xs"]
        strmap_cmp_keys_ok(2) [of items b a "key_of items ` set xs"] r by auto
    obtain i j where ij: "i < length xs" "j < length xs" "xs ! i = a" "xs ! j = b"
      using ab(1,2) by (auto simp: in_set_conv_nth)
    then show "a = b"
      using ord(1) z sorted_wrt_nth_less [of "\<lambda>x y. 0 < dfk__strmap_cmp items x y" xs i j]
        sorted_wrt_nth_less [of "\<lambda>x y. 0 < dfk__strmap_cmp items x y" xs j i]
      unfolding ordered_def by (cases i j rule: linorder_cases) auto
  qed
  then show "card (dom m) = length xs"
    using strmap_dom [of m xs items] r ord(2) by (simp add: card_image distinct_card)
qed

section \<open>The contract of the map\<close>

text \<open>
  An associative array that keeps the first value stored under a key, as the HTTP parser and
  its clients use it: \<open>rep s H m\<close> says that \<open>s\<close> holds the items \<open>H\<close> with the contents \<open>m\<close>.
\<close>

fun put_all :: "('s \<Rightarrow> addr \<Rightarrow> 's option) \<Rightarrow> 's \<Rightarrow> addr list \<Rightarrow> 's option" where
  "put_all f s [] = Some s"
| "put_all f s (a # as) = do { s \<leftarrow> f s a; put_all f s as }"

lemma list_all2_mono_mem:
  "list_all2 P as bs \<Longrightarrow> (\<And>a b. a \<in> set as \<Longrightarrow> P a b \<Longrightarrow> Q a b) \<Longrightarrow> list_all2 Q as bs"
  by (induction rule: list_all2_induct) auto

locale assoc_array =
  fixes rep :: "'s \<Rightarrow> addr set \<Rightarrow> ('k \<rightharpoonup> 'v) \<Rightarrow> bool"
    and fresh :: "'s \<Rightarrow> addr \<Rightarrow> 'k \<Rightarrow> 'v \<Rightarrow> bool"
    and ok :: "'k set \<Rightarrow> bool"
    and ins_op :: "'s \<Rightarrow> addr \<Rightarrow> 's option"
    and get_op :: "'s \<Rightarrow> 'k \<Rightarrow> 'r option"
    and res :: "'v option \<Rightarrow> 'r"
  assumes ok_mono: "ok K \<Longrightarrow> K' \<subseteq> K \<Longrightarrow> ok K'"
    and ins_law: "rep s H m \<Longrightarrow> fresh s a k v \<Longrightarrow> a \<notin> H \<Longrightarrow> ok (insert k (dom m)) \<Longrightarrow>
      \<exists>s' H'. ins_op s a = Some s' \<and> rep s' H' (if k \<in> dom m then m else m(k \<mapsto> v)) \<and> H' \<subseteq> insert a H
        \<and> (\<forall>b k' v'. b \<notin> insert a H \<longrightarrow> fresh s b k' v' \<longrightarrow> fresh s' b k' v')"
    and get_law: "rep s H m \<Longrightarrow> ok (insert k (dom m)) \<Longrightarrow> get_op s k = Some (res (m k))"
begin

lemma put_all_law:
  "rep s H m \<Longrightarrow> list_all2 (\<lambda>a (k, v). fresh s a k v) as kvs \<Longrightarrow> distinct as \<Longrightarrow> set as \<inter> H = {} \<Longrightarrow>
   ok (fst ` set kvs \<union> dom m) \<Longrightarrow>
   \<exists>s' H'. put_all ins_op s as = Some s' \<and> rep s' H' (map_of kvs ++ m)"
proof (induction as arbitrary: s H m kvs)
  case Nil
  then show ?case by auto
next
  case (Cons a as)
  then obtain k v kvs' where kvs: "kvs = (k, v) # kvs'" "fresh s a k v" "list_all2 (\<lambda>a (k, v). fresh s a k v) as kvs'"
    by (auto simp: list_all2_Cons1)
  have "ok (insert k (dom m))" by (rule ok_mono [OF Cons.prems(5)]) (auto simp: kvs(1))
  then obtain s1 H1 where s1: "ins_op s a = Some s1" "rep s1 H1 (if k \<in> dom m then m else m(k \<mapsto> v))"
      "H1 \<subseteq> insert a H" "\<forall>b k' v'. b \<notin> insert a H \<longrightarrow> fresh s b k' v' \<longrightarrow> fresh s1 b k' v'"
    using ins_law [OF Cons.prems(1) kvs(2)] Cons.prems(4) by fastforce
  have "list_all2 (\<lambda>a (k, v). fresh s1 a k v) as kvs'"
    using kvs(3)
  proof (rule list_all2_mono_mem)
    show "\<And>b kv. b \<in> set as \<Longrightarrow> (case kv of (k, v) \<Rightarrow> fresh s b k v) \<Longrightarrow> (case kv of (k, v) \<Rightarrow> fresh s1 b k v)"
      using s1(4) Cons.prems(3,4) by auto
  qed
  moreover have "set as \<inter> H1 = {}" using s1(3) Cons.prems(3,4) by auto
  moreover have "ok (fst ` set kvs' \<union> dom (if k \<in> dom m then m else m(k \<mapsto> v)))"
    by (rule ok_mono [OF Cons.prems(5)]) (auto simp: kvs(1))
  moreover have "map_of kvs' ++ (if k \<in> dom m then m else m(k \<mapsto> v)) = map_of kvs ++ m"
    unfolding kvs(1) by (auto simp: map_add_def fun_eq_iff dom_def split: option.splits)
  ultimately show ?case using Cons.IH [OF s1(2), of kvs'] s1(1) Cons.prems(3) by auto
qed

text \<open>Storing and reading back: every key has the value that was stored under it first.\<close>

lemma put_all_get:
  assumes "rep s {} Map.empty" "list_all2 (\<lambda>a (k, v). fresh s a k v) as kvs" "distinct as"
    and "ok (insert k (fst ` set kvs))"
  shows "\<exists>s'. put_all ins_op s as = Some s' \<and> get_op s' k = Some (res (map_of kvs k))"
proof -
  obtain s' H' where "put_all ins_op s as = Some s'" "rep s' H' (map_of kvs)"
    using put_all_law [OF assms(1,2,3)] ok_mono [OF assms(4)] by fastforce
  moreover have "ok (insert k (dom (map_of kvs)))" using assms(4) by (simp add: dom_map_of_conv_image_fst)
  ultimately show ?thesis using get_law by blast
qed

end

text \<open>The map's state is the hook memory and the map object; the items are fixed.\<close>

interpretation strmap: assoc_array
  "\<lambda>(h, smap) H m. \<exists>xs. H = set xs \<and> strmap_rep h items smap xs m"
  "\<lambda>(h, smap) a k v. item_fresh h items a k v" keys_ok
  "\<lambda>(h, smap) a. dfk_strmap_insert h items smap a"
  "\<lambda>(h, smap) k. dfk_strmap_get h items smap k" "\<lambda>r. case r of None \<Rightarrow> None | Some v \<Rightarrow> v"
  for items
proof (unfold_locales, goal_cases)
  case (1 K K')
  then show ?case by (rule keys_ok_mono)
next
  case (2 s H m a k v)
  then obtain h smap xs where *: "s = (h, smap)" "H = set xs" "strmap_rep h items smap xs m" by (cases s) auto
  obtain h' smap' xs' where 1: "dfk_strmap_insert h items smap a = Some (h', smap')"
      "strmap_rep h' items smap' xs' (if k \<in> dom m then m else m(k \<mapsto> v))"
      "set xs' = (if k \<in> dom m then set xs else insert a (set xs))" "same_outside (insert a (set xs)) h h'"
    using strmap_insert_spec [OF *(3), of a k v] 2 *(1,2) by auto
  show ?case
  proof (intro exI [of _ "(h', smap')"] exI [of _ "set xs'"] conjI)
    show "(case (h', smap') of (h, smap) \<Rightarrow> \<lambda>H m. \<exists>xs. H = set xs \<and> strmap_rep h items smap xs m)
        (set xs') (if k \<in> dom m then m else m(k \<mapsto> v))"
      using 1(2) unfolding prod.case by blast
  qed (use 1(1,3,4) in \<open>auto simp: * item_fresh_def avl_fresh_def same_outside_eq\<close>)
next
  case (3 s H m k)
  then show ?case using strmap_get_spec by (cases s) auto
qed

section \<open>Properties\<close>

text \<open>The ASCII bytes of a string.\<close>

definition str :: "string \<Rightarrow> byte list" where
  "str s = map of_char s"

text \<open>
  C9. The string map as an associative array, for keys that are not empty, contain no zero byte and of which none is a proper
  prefix of another, the key that is looked up included: inserting different initialised items with such keys into an
  initialised map succeeds, and looking up such a key then returns the value of the first item inserted under that key, or
  the null buffer if there is none. For keys with one a prefix of the other the map is not an associative array.
\<close>

theorem strmap_insert_get:
  assumes "list_all2 (\<lambda>a (k, v). item_fresh h items a k v) as kvs" "distinct as"
    and "keys_ok (insert k (fst ` set kvs))"
  shows "\<exists>smap h' smap'. dfk_strmap_init h items = Some smap
    \<and> put_all (\<lambda>(h, smap) a. dfk_strmap_insert h items smap a) (h, smap) as = Some (h', smap')
    \<and> dfk_strmap_get h' items smap' k = Some (case map_of kvs k of None \<Rightarrow> None | Some v \<Rightarrow> v)"
proof -
  obtain smap where s: "dfk_strmap_init h items = Some smap" "strmap_rep h items smap [] Map.empty"
    using strmap_init_spec by blast
  then show ?thesis
    using strmap.put_all_get [of items "(h, smap)" as kvs k] assms by (force simp: case_prod_beta)
qed

abbreviation two_items :: strmap_items where
  "two_items \<equiv> [16 \<mapsto> \<lparr>item_key = str ''Host'', item_value = Some (str ''a'')\<rparr>,
               24 \<mapsto> \<lparr>item_key = str ''Accept'', item_value = Some (str ''b'')\<rparr>,
               32 \<mapsto> \<lparr>item_key = str ''Host'', item_value = Some (str ''c'')\<rparr>]"

abbreviation item_hooks :: avl_hooks where
  "item_hooks \<equiv> [16 \<mapsto> hook NULL NULL NULL 0, 24 \<mapsto> hook NULL NULL NULL 0, 32 \<mapsto> hook NULL NULL NULL 0]"

theorem strmap_insert_get_witness:
  "\<exists>smap h' smap'. dfk_strmap_init item_hooks two_items = Some smap
    \<and> put_all (\<lambda>(h, smap) a. dfk_strmap_insert h two_items smap a) (item_hooks, smap) [16, 24, 32]
       = Some (h', smap')
    \<and> dfk_strmap_get h' two_items smap' (str ''Host'') = Some (Some (str ''a''))"
  using strmap_insert_get [of item_hooks two_items "[16, 24, 32]"
     "[(str ''Host'', Some (str ''a'')), (str ''Accept'', Some (str ''b'')), (str ''Host'', Some (str ''c''))]"
     "str ''Host''"]
  by (simp add: item_fresh_def avl_fresh_def keys_ok_def str_def)

text \<open>
  Erasing through an iterator removes exactly the key of that item: afterwards the key is
  absent, every other key keeps its value, and the size is one less and equals the number of
  keys.
\<close>

theorem strmap_erase_correct:
  assumes "strmap_rep h items smap (xs @ a # ys) m" "keys_ok (insert k (dom m))"
  shows "\<exists>h' smap'. dfk_strmap_erase h items smap \<lparr>strmap_it = \<lparr>avl_it_value = a\<rparr>\<rparr> = Some (h', smap')
    \<and> dfk_strmap_get h' items smap' k
        = Some (if k = key_of items a then None else case m k of None \<Rightarrow> None | Some v \<Rightarrow> v)
    \<and> dfk_strmap_size h' items smap' = Some (of_nat (card (dom m) - 1))"
proof -
  obtain h' smap' where 1: "dfk_strmap_erase h items smap \<lparr>strmap_it = \<lparr>avl_it_value = a\<rparr>\<rparr> = Some (h', smap')"
      "strmap_rep h' items smap' (xs @ ys) (m(key_of items a := None))"
    using strmap_erase_spec [OF assms(1)] by blast
  have "keys_ok (insert k (dom (m(key_of items a := None))))"
    by (rule keys_ok_mono [OF assms(2)]) auto
  with 1 strmap_get_spec [OF 1(2)] strmap_size_spec [OF 1(2)] strmap_size_spec(2) [OF assms(1)] show ?thesis
    by auto
qed

lemma one_item_rep:
  "strmap_rep [16 \<mapsto> hook NULL NULL NULL 0] two_items
     \<lparr>strmap_cont = \<lparr>avl_root = 16, avl_cmp = dfk__strmap_cmp two_items, avl_size = 1\<rparr>\<rparr>
     [16] [str ''Host'' \<mapsto> Some (str ''a'')]"
proof -
  have "avl_rep [16 \<mapsto> hook NULL NULL NULL 0] \<lparr>avl_root = 16, avl_cmp = dfk__strmap_cmp two_items, avl_size = 1\<rparr>
      (Node Leaf 16 0 Leaf)" by (simp add: avl_rep_def)
  then have "avl_set [16 \<mapsto> hook NULL NULL NULL 0]
      \<lparr>avl_root = 16, avl_cmp = dfk__strmap_cmp two_items, avl_size = 1\<rparr> [16]"
    by (auto simp: avl_set_def ordered_def cmp_ok_def dfk__strmap_cmp_def dfk__strmap_lookup_cmp_def str_def
        intro!: exI [of _ "Node Leaf 16 0 Leaf"])
  then show ?thesis by (auto simp: strmap_rep_def cont_def keys_ok_def key_of_def str_def)
qed

theorem strmap_erase_correct_witness:
  "\<exists>h' smap'. dfk_strmap_erase [16 \<mapsto> hook NULL NULL NULL 0] two_items
      \<lparr>strmap_cont = \<lparr>avl_root = 16, avl_cmp = dfk__strmap_cmp two_items, avl_size = 1\<rparr>\<rparr>
      \<lparr>strmap_it = \<lparr>avl_it_value = 16\<rparr>\<rparr> = Some (h', smap')
    \<and> dfk_strmap_get h' two_items smap' (str ''Host'') = Some None
    \<and> dfk_strmap_size h' two_items smap' = Some 0"
  using strmap_erase_correct [of "[16 \<mapsto> hook NULL NULL NULL 0]" two_items
      "\<lparr>strmap_cont = \<lparr>avl_root = 16, avl_cmp = dfk__strmap_cmp two_items, avl_size = 1\<rparr>\<rparr>" "[]" 16 "[]"
      "[str ''Host'' \<mapsto> Some (str ''a'')]" "str ''Host''"] one_item_rep
  by (simp add: keys_ok_def key_of_def str_def)

text \<open>
  A defect of the key comparison: it returns 0 when the stored key is a proper prefix of
  the other one. With an item \<^verbatim>\<open>Content\<close> stored, inserting an item \<^verbatim>\<open>Content-Length\<close> is silently
  ignored and looking up \<^verbatim>\<open>Content-Length\<close> returns the value of \<^verbatim>\<open>Content\<close>.
\<close>

theorem strmap_prefix_confusion:
  fixes items :: strmap_items
  defines "items \<equiv> [16 \<mapsto> \<lparr>item_key = str ''Content'', item_value = Some (str ''x'')\<rparr>,
                   24 \<mapsto> \<lparr>item_key = str ''Content-Length'', item_value = Some (str ''5'')\<rparr>]"
  shows "\<exists>smap h1 smap1 h2 smap2.
    dfk_strmap_init [16 \<mapsto> hook NULL NULL NULL 0, 24 \<mapsto> hook NULL NULL NULL 0] items = Some smap
    \<and> dfk_strmap_insert [16 \<mapsto> hook NULL NULL NULL 0, 24 \<mapsto> hook NULL NULL NULL 0] items smap 16 = Some (h1, smap1)
    \<and> dfk_strmap_insert h1 items smap1 24 = Some (h2, smap2)
    \<and> dfk_strmap_get h2 items smap2 (str ''Content-Length'') = Some (Some (str ''x''))
    \<and> dfk_strmap_size h2 items smap2 = Some 1"
proof -
  let ?h = "[16 \<mapsto> hook NULL NULL NULL 0, 24 \<mapsto> hook NULL NULL NULL 0]"
  let ?t0 = "\<lparr>avl_root = NULL, avl_cmp = dfk__strmap_cmp items, avl_size = 0\<rparr>"
  let ?t1 = "\<lparr>avl_root = 16, avl_cmp = dfk__strmap_cmp items, avl_size = 1\<rparr>"
  have r: "avl_rep ?h ?t0 Leaf" "avl_rep ?h ?t1 (Node Leaf 16 0 Leaf)" by (simp_all add: avl_rep_def)
  note c = avl_check_ok [OF r(1)] avl_check_ok [OF r(2)]
  have z: "dfk__strmap_lookup_cmp items 16 (str ''Content-Length'') = 0" "dfk__strmap_cmp items 16 24 = 0"
    by (simp_all add: items_def dfk__strmap_lookup_cmp_def dfk__strmap_cmp_def str_def)
  have i: "dfk_strmap_init ?h items = Some \<lparr>strmap_cont = ?t0\<rparr>"
    using c(1) by (simp add: dfk_strmap_init_def dfk_avltree_init_def)
  have a: "dfk_strmap_insert ?h items \<lparr>strmap_cont = ?t0\<rparr> 16 = Some (?h, \<lparr>strmap_cont = ?t1\<rparr>)"
    using c(1) by (simp add: dfk_strmap_insert_def dfk_avltree_insert_def cont_def)
  have b: "dfk_strmap_insert ?h items \<lparr>strmap_cont = ?t1\<rparr> 24 = Some (?h, \<lparr>strmap_cont = ?t1\<rparr>)"
    using c(2) z(2) by (simp add: dfk_strmap_insert_def dfk_avltree_insert_def cont_def insert_search.simps)
  have g: "dfk_strmap_get ?h items \<lparr>strmap_cont = ?t1\<rparr> (str ''Content-Length'') = Some (Some (str ''x''))"
    using c(2) z(1)
    by (simp add: dfk_strmap_get_def dfk_avltree_find_def cont_def find_loop.simps str_def, simp add: items_def str_def)
  have "dfk_strmap_size ?h items \<lparr>strmap_cont = ?t1\<rparr> = Some 1"
    using c(2) by (simp add: dfk_strmap_size_def dfk_avltree_size_def cont_def)
  with i a b g show ?thesis by blast
qed

end
