(* ===== verification/Dfk_Memory.thy ===== *)
theory Dfk_Memory
  imports Dfk_Prelude
begin

text \<open>
  Byte-addressed memory with its allocation table, shared by the components that do pointer
  arithmetic on raw buffers: checked reads and writes of byte ranges, and \<^verbatim>\<open>dfk__malloc\<close> and
  \<^verbatim>\<open>dfk__free\<close> of \<^verbatim>\<open>src/malloc.c\<close> over a user-provided allocator.
\<close>

named_theorems byte_simps \<open>rewriting of reads and writes of byte ranges\<close>

section \<open>Ranges of addresses\<close>

text \<open>The \<open>n\<close> addresses from \<open>p\<close> on, and that they do not wrap around.\<close>

definition range_of :: "addr \<Rightarrow> nat \<Rightarrow> addr set" where
  "range_of p n = (\<lambda>i. p + of_nat i) ` {..<n}"

definition fits :: "addr \<Rightarrow> nat \<Rightarrow> bool" where
  "fits p n \<longleftrightarrow> p \<noteq> NULL \<and> unat p + n < 2 ^ 64"

lemma range_of_0 [simp]: "range_of p 0 = {}"
  by (simp add: range_of_def)

lemma range_of_Suc: "range_of p (Suc n) = insert p (range_of (p + 1) n)"
proof -
  have "range_of p (Suc n) = insert p ((\<lambda>i. p + of_nat (Suc i)) ` {..<n})"
    unfolding range_of_def lessThan_Suc_eq_insert_0 by (simp add: image_image del: of_nat_Suc)
  then show ?thesis by (simp add: range_of_def algebra_simps)
qed

lemma fits_mono: "fits p n \<Longrightarrow> m \<le> n \<Longrightarrow> fits p m"
  by (simp add: fits_def)

lemma unat_add_fits: "fits p n \<Longrightarrow> i \<le> n \<Longrightarrow> unat (p + of_nat i) = unat p + i"
  by (simp add: fits_def unat_word_ariths unat_of_nat_addr)

lemma fits_add: "fits p n \<Longrightarrow> i \<le> n \<Longrightarrow> fits (p + of_nat i) (n - i)"
  using unat_add_fits [of p n i] by (auto simp: fits_def unat_eq_0 [symmetric] simp del: unat_eq_0)

lemma fits_Suc: "fits p (Suc n) \<Longrightarrow> fits (p + 1) n" "fits p (Suc n) \<Longrightarrow> fits (1 + p) n"
  using fits_add [of p "Suc n" 1] by (simp_all add: add.commute)

lemma unat_Suc_fits: "fits p (Suc n) \<Longrightarrow> unat (p + 1) = Suc (unat p)"
  using unat_add_fits [of p "Suc n" 1] by simp

lemma of_nat_unat_addr: "of_nat (unat a) = (a :: addr)"
  by simp

lemma range_of_unat: "fits p n \<Longrightarrow> a \<in> range_of p n \<longleftrightarrow> unat p \<le> unat a \<and> unat a < unat p + n"
proof
  assume f: "fits p n" and "a \<in> range_of p n"
  then obtain i where "i < n" "a = p + of_nat i" by (auto simp: range_of_def)
  then show "unat p \<le> unat a \<and> unat a < unat p + n" using unat_add_fits [OF f, of i] by simp
next
  assume f: "fits p n" and a: "unat p \<le> unat a \<and> unat a < unat p + n"
  then have "a = p + of_nat (unat a - unat p)"
    by (metis le_add_diff_inverse of_nat_add of_nat_unat_addr)
  moreover have "unat a - unat p < n" using a by linarith
  ultimately show "a \<in> range_of p n" unfolding range_of_def by blast
qed

lemma range_of_disjoint:
  "fits p m \<Longrightarrow> fits q n \<Longrightarrow> unat p + m \<le> unat q \<or> unat q + n \<le> unat p \<Longrightarrow> range_of p m \<inter> range_of q n = {}"
  by (auto simp: range_of_unat)

lemma range_of_append: "range_of p (m + n) = range_of p m \<union> range_of (p + of_nat m) n"
  by (induction m arbitrary: p) (auto simp: range_of_Suc algebra_simps)

lemma range_of_mono: "m \<le> n \<Longrightarrow> range_of p m \<subseteq> range_of p n"
  by (auto simp: range_of_def)

lemma range_of_sub: "i + m \<le> n \<Longrightarrow> range_of (p + of_nat i) m \<subseteq> range_of p n"
  using range_of_append [of p i m] range_of_mono [of "i + m" n p] by auto

lemma range_of_finite [simp]: "finite (range_of p n)"
  by (simp add: range_of_def)

section \<open>Reading and writing ranges\<close>

fun load_bytes :: "byte mem \<Rightarrow> addr \<Rightarrow> nat \<Rightarrow> byte list option" where
  "load_bytes m p 0 = Some []"
| "load_bytes m p (Suc n) = do { b \<leftarrow> load m p; bs \<leftarrow> load_bytes m (p + 1) n; Some (b # bs) }"

definition store :: "byte mem \<Rightarrow> addr \<Rightarrow> byte \<Rightarrow> byte mem option" where
  "store m p b = modify m p (\<lambda>_. b)"

fun store_bytes :: "byte mem \<Rightarrow> addr \<Rightarrow> byte list \<Rightarrow> byte mem option" where
  "store_bytes m p [] = Some m"
| "store_bytes m p (b # bs) = do { m \<leftarrow> store m p b; store_bytes m (p + 1) bs }"

text \<open>\<^verbatim>\<open>memcpy\<close> of \<open>n\<close> bytes between ranges that do not overlap.\<close>

definition memcpy :: "byte mem \<Rightarrow> addr \<Rightarrow> addr \<Rightarrow> nat \<Rightarrow> byte mem option" where
  "memcpy m dst src n = do { bs \<leftarrow> load_bytes m src n; store_bytes m dst bs }"

text \<open>\<open>bytes_at m p xs\<close>: the bytes \<open>xs\<close> stand at \<open>p\<close>.\<close>

definition bytes_at :: "byte mem \<Rightarrow> addr \<Rightarrow> byte list \<Rightarrow> bool" where
  "bytes_at m p xs \<longleftrightarrow> fits p (length xs) \<and> (\<forall>i<length xs. m (p + of_nat i) = Some (xs ! i))"

definition allocated :: "byte mem \<Rightarrow> addr \<Rightarrow> nat \<Rightarrow> bool" where
  "allocated m p n \<longleftrightarrow> fits p n \<and> range_of p n \<subseteq> dom m"

lemma bytes_at_fits: "bytes_at m p xs \<Longrightarrow> fits p (length xs)"
  by (simp add: bytes_at_def)

lemma bytes_at_Nil [simp]: "bytes_at m p [] \<longleftrightarrow> fits p 0"
  by (simp add: bytes_at_def)

lemma bytes_at_Cons:
  "bytes_at m p (x # xs) \<longleftrightarrow> fits p (Suc (length xs)) \<and> m p = Some x \<and> bytes_at m (p + 1) xs"
  by (auto simp: bytes_at_def nth_Cons algebra_simps fits_Suc less_Suc_eq_0_disj split: nat.splits)

lemma bytes_at_append:
  "bytes_at m p (xs @ ys) \<longleftrightarrow> fits p (length xs + length ys) \<and> bytes_at m p xs \<and> bytes_at m (p + of_nat (length xs)) ys"
proof (induction xs arbitrary: p)
  case Nil
  then show ?case by (auto simp: bytes_at_def intro: fits_mono)
next
  case (Cons x xs)
  then show ?case by (auto simp: bytes_at_Cons algebra_simps intro: fits_mono fits_Suc)
qed

lemma bytes_at_cong:
  "bytes_at m p xs \<Longrightarrow> (\<And>a. a \<in> range_of p (length xs) \<Longrightarrow> m' a = m a) \<Longrightarrow> bytes_at m' p xs"
  by (auto simp: bytes_at_def range_of_def)

lemma bytes_at_same_outside:
  "bytes_at m p xs \<Longrightarrow> same_outside S m m' \<Longrightarrow> range_of p (length xs) \<inter> S = {} \<Longrightarrow> bytes_at m' p xs"
  by (erule bytes_at_cong) (auto simp: same_outside_def)

lemma bytes_at_allocated: "bytes_at m p xs \<Longrightarrow> allocated m p (length xs)"
  by (auto simp: bytes_at_def allocated_def range_of_def)

lemma allocated_bytes: "allocated m p n \<Longrightarrow> \<exists>xs. length xs = n \<and> bytes_at m p xs"
  by (rule exI [of _ "map (\<lambda>i. the (m (p + of_nat i))) [0..<n]"])
    (fastforce simp: allocated_def bytes_at_def range_of_def dom_def)

lemma load_bytes_at [byte_simps]: "bytes_at m p xs \<Longrightarrow> load_bytes m p (length xs) = Some xs"
  by (induction xs arbitrary: p) (auto simp: bytes_at_Cons fits_def)

lemma allocated_same_outside: "allocated m p n \<Longrightarrow> same_outside S m m' \<Longrightarrow> allocated m' p n"
  by (simp add: allocated_def same_outside_def)

lemma allocated_Suc: "allocated m p (Suc n) \<Longrightarrow> p \<noteq> NULL \<and> p \<in> dom m \<and> allocated m (p + 1) n"
  by (auto simp: allocated_def range_of_Suc fits_Suc) (simp add: fits_def)

lemma allocated_mono: "allocated m p n \<Longrightarrow> k \<le> n \<Longrightarrow> allocated m p k"
  using range_of_mono [of k n p] fits_mono [of p n k] by (auto simp: allocated_def)

lemma allocated_sub: "allocated m p n \<Longrightarrow> i + k \<le> n \<Longrightarrow> allocated m (p + of_nat i) k"
  using range_of_sub [of i k n p] fits_add [of p n i] fits_mono [of "p + of_nat i" "n - i" k]
  by (auto simp: allocated_def)

lemma store_Some [byte_simps]: "p \<noteq> NULL \<Longrightarrow> p \<in> dom m \<Longrightarrow> store m p b = Some (m(p \<mapsto> b))"
  by (auto simp: store_def)

lemma not_in_range_Suc: "fits p (Suc n) \<Longrightarrow> p \<notin> range_of (p + 1) n"
  using range_of_unat [OF fits_Suc(1), of p n p] unat_Suc_fits [of p n] by simp

lemma stored_first:
  assumes "fits p (Suc (length xs))" "p \<in> dom m"
    and "bytes_at m' (p + 1) xs" "same_outside (range_of (p + 1) (length xs)) (m(p \<mapsto> x)) m'"
  shows "bytes_at m' p (x # xs)" "same_outside (range_of p (Suc (length xs))) m m'"
proof -
  have "m' p = Some x"
    using same_outside_eq [OF assms(4) not_in_range_Suc [OF assms(1)]] by simp
  then show "bytes_at m' p (x # xs)" using assms by (simp add: bytes_at_Cons)
  have so: "same_outside {p} m (m(p \<mapsto> x))" using assms(2) by auto
  show "same_outside (range_of p (Suc (length xs))) m m'"
    by (rule same_outside_join [OF so assms(4)]) (auto simp: range_of_Suc)
qed

lemma store_bytes_at:
  "allocated m p (length xs) \<Longrightarrow>
     \<exists>m'. store_bytes m p xs = Some m' \<and> bytes_at m' p xs \<and> same_outside (range_of p (length xs)) m m'"
proof (induction xs arbitrary: m p)
  case (Cons x xs)
  have p: "p \<noteq> NULL" "p \<in> dom m" "allocated m (p + 1) (length xs)"
    using allocated_Suc Cons.prems by auto
  have so: "same_outside {p} m (m(p \<mapsto> x))" using p(2) by auto
  from Cons.IH [OF allocated_same_outside [OF p(3) so]] obtain m' where
    m': "store_bytes (m(p \<mapsto> x)) (p + 1) xs = Some m'" "bytes_at m' (p + 1) xs"
      "same_outside (range_of (p + 1) (length xs)) (m(p \<mapsto> x)) m'"
    by blast
  have fit: "fits p (Suc (length xs))" using Cons.prems by (simp add: allocated_def)
  from stored_first [OF fit p(2) m'(2,3)] show ?case using m'(1) p(1,2) by (simp add: byte_simps)
qed (simp add: allocated_def)

section \<open>Allocation\<close>

text \<open>The process memory: its bytes, and the size of every block handed out and not yet freed.\<close>

record cmem =
  mem_bytes :: "byte mem"
  mem_blocks :: "addr \<rightharpoonup> nat"

definition mem_store :: "cmem \<Rightarrow> addr \<Rightarrow> byte list \<Rightarrow> cmem option" where
  "mem_store m p bs = do { bytes \<leftarrow> store_bytes (mem_bytes m) p bs; Some (m\<lparr>mem_bytes := bytes\<rparr>) }"

definition mem_load :: "cmem \<Rightarrow> addr \<Rightarrow> nat \<Rightarrow> byte list option" where
  "mem_load m p n = load_bytes (mem_bytes m) p n"

text \<open>
  The environment of the library. The user-provided callback \<^verbatim>\<open>dfk->malloc\<close> returns the address
  and the indeterminate contents of the new block, or \<^term>\<open>None\<close> for \<^verbatim>\<open>NULL\<close>; the other fields are
  constants of the generated \<^verbatim>\<open>dfk/config.h\<close>, which the build detects or the user sets.
\<close>

record dfk_env =
  dfk_malloc :: "cmem \<Rightarrow> size_t \<Rightarrow> (addr \<times> byte list) option"
  DFK_MALLOC_ALIGNMENT :: nat
  DFK_PAGE_SIZE :: size_t
  DFK_ARENA_SEGMENT_SIZE :: size_t

definition ALIGNED :: "dfk_env \<Rightarrow> addr \<Rightarrow> bool" where
  "ALIGNED env p \<longleftrightarrow> unat p mod DFK_MALLOC_ALIGNMENT env = 0"

fun put_bytes :: "byte mem \<Rightarrow> addr \<Rightarrow> byte list \<Rightarrow> byte mem" where
  "put_bytes m p [] = m"
| "put_bytes m p (b # bs) = put_bytes (m(p \<mapsto> b)) (p + 1) bs"

definition dfk__malloc :: "dfk_env \<Rightarrow> cmem \<Rightarrow> size_t \<Rightarrow> (cmem \<times> addr) option" where
  "dfk__malloc env m nbytes = do {
     c_assert (nbytes \<noteq> 0);
     case dfk_malloc env m nbytes of
       None \<Rightarrow> Some (m, NULL)
     | Some (res, junk) \<Rightarrow> do {
         c_assert (ALIGNED env res);
         Some (\<lparr>mem_bytes = put_bytes (mem_bytes m) res junk, mem_blocks = (mem_blocks m)(res \<mapsto> length junk)\<rparr>, res)
       }
   }"

text \<open>Freeing an address that is not the start of a live block is a fault.\<close>

definition dfk__free :: "dfk_env \<Rightarrow> cmem \<Rightarrow> addr \<Rightarrow> cmem option" where
  "dfk__free env m p = do {
     c_assert (p \<noteq> NULL);
     c_assert (ALIGNED env p);
     n \<leftarrow> mem_blocks m p;
     Some \<lparr>mem_bytes = (\<lambda>a. if a \<in> range_of p n then None else mem_bytes m a),
           mem_blocks = (mem_blocks m)(p := None)\<rparr>
   }"

text \<open>
  What \<^verbatim>\<open>malloc\<close> is documented to do: a block it returns is aligned, has the size asked for, and
  overlaps nothing that is allocated. Blocks lie below \<open>2\<^sup>6\<^sup>2\<close>, the user half of the address space.
\<close>

definition alloc_ok :: "dfk_env \<Rightarrow> bool" where
  "alloc_ok env \<longleftrightarrow> (\<forall>m n p junk. dfk_malloc env m n = Some (p, junk) \<longrightarrow>
     p \<noteq> NULL \<and> ALIGNED env p \<and> length junk = unat n \<and> unat p + unat n < 2 ^ 62
     \<and> range_of p (unat n) \<inter> dom (mem_bytes m) = {} \<and> p \<notin> dom (mem_blocks m))"

text \<open>A concrete allocator: the first of some fixed places that is free.\<close>

definition slots :: "addr list" where
  "slots = [0x1000, 0x100000, 0x10000000, 0x1000000000]"

definition free_at :: "cmem \<Rightarrow> size_t \<Rightarrow> addr \<Rightarrow> bool" where
  "free_at m n p \<longleftrightarrow> unat n < 2 ^ 32 \<and> (\<forall>i\<in>set [0..<unat n]. mem_bytes m (p + of_nat i) = None) \<and> mem_blocks m p = None"

definition slot_alloc :: "cmem \<Rightarrow> size_t \<Rightarrow> (addr \<times> byte list) option" where
  "slot_alloc m n = (case filter (free_at m n) slots of
     [] \<Rightarrow> None | p # _ \<Rightarrow> Some (p, replicate (unat n) 0))"

definition small_env :: dfk_env where
  "small_env = \<lparr>dfk_malloc = slot_alloc, DFK_MALLOC_ALIGNMENT = 16, DFK_PAGE_SIZE = 4096,
     DFK_ARENA_SEGMENT_SIZE = 40960\<rparr>"

lemma small_env_ok: "alloc_ok small_env"
proof -
  have "p \<noteq> NULL \<and> ALIGNED small_env p \<and> length junk = unat n \<and> unat p + unat n < 2 ^ 62
     \<and> range_of p (unat n) \<inter> dom (mem_bytes m) = {} \<and> p \<notin> dom (mem_blocks m)"
    if a: "slot_alloc m n = Some (p, junk)" for m n p junk
  proof -
    obtain ps where ps: "filter (free_at m n) slots = p # ps" and j: "junk = replicate (unat n) 0"
      using a by (auto simp: slot_alloc_def split: list.splits)
    then have "p \<in> set (filter (free_at m n) slots)" by simp
    then have p: "p \<in> set slots" "free_at m n p" by simp_all
    have "p \<noteq> NULL \<and> ALIGNED small_env p \<and> unat p \<le> 0x1000000000"
      using p(1) by (auto simp: slots_def ALIGNED_def small_env_def)
    moreover have "unat n < 2 ^ 32" "mem_blocks m p = None"
      and "\<forall>i<unat n. mem_bytes m (p + of_nat i) = None"
      using p(2) by (simp_all add: free_at_def)
    ultimately show ?thesis using j by (auto simp: range_of_def)
  qed
  then have "\<forall>m n p junk. slot_alloc m n = Some (p, junk) \<longrightarrow> p \<noteq> NULL \<and> ALIGNED small_env p
     \<and> length junk = unat n \<and> unat p + unat n < 2 ^ 62
     \<and> range_of p (unat n) \<inter> dom (mem_bytes m) = {} \<and> p \<notin> dom (mem_blocks m)" by blast
  then show ?thesis unfolding alloc_ok_def by (simp add: small_env_def)
qed

subsection \<open>Facts about allocation\<close>

lemma put_bytes_outside: "a \<notin> range_of p (length xs) \<Longrightarrow> put_bytes m p xs a = m a"
  by (induction xs arbitrary: m p) (auto simp: range_of_Suc)

lemma put_bytes_at: "fits p (length xs) \<Longrightarrow> bytes_at (put_bytes m p xs) p xs"
proof (induction xs arbitrary: m p)
  case (Cons x xs)
  have "put_bytes (m(p \<mapsto> x)) (p + 1) xs p = Some x"
    using put_bytes_outside [OF not_in_range_Suc] Cons.prems by simp
  then show ?case using Cons fits_Suc by (simp add: bytes_at_Cons)
qed simp

lemma put_bytes_dom: "dom (put_bytes m p xs) = dom m \<union> range_of p (length xs)"
  by (induction xs arbitrary: m p) (auto simp: range_of_Suc)

text \<open>A live block: its bytes are allocated and lie below the address limit.\<close>

definition block :: "dfk_env \<Rightarrow> cmem \<Rightarrow> addr \<Rightarrow> nat \<Rightarrow> bool" where
  "block env m p n \<longleftrightarrow> p \<noteq> NULL \<and> ALIGNED env p \<and> unat p + n < 2 ^ 62 \<and> mem_blocks m p = Some n
     \<and> allocated (mem_bytes m) p n"

lemma malloc_cases:
  assumes "alloc_ok env" "n \<noteq> 0"
  obtains (nomem) "dfk__malloc env m n = Some (m, NULL)"
    | (mem) p m' where "dfk__malloc env m n = Some (m', p)" "p \<noteq> NULL" "block env m' p (unat n)"
        "\<forall>a. a \<notin> range_of p (unat n) \<longrightarrow> mem_bytes m' a = mem_bytes m a"
        "range_of p (unat n) \<inter> dom (mem_bytes m) = {}"
        "mem_blocks m' = (mem_blocks m)(p \<mapsto> unat n)" "p \<notin> dom (mem_blocks m)"
proof (cases "dfk_malloc env m n")
  case None
  then show ?thesis using nomem assms(2) by (simp add: dfk__malloc_def)
next
  case (Some r)
  obtain p junk where r: "r = (p, junk)" by (cases r)
  let ?m = "\<lparr>mem_bytes = put_bytes (mem_bytes m) p junk, mem_blocks = (mem_blocks m)(p \<mapsto> length junk)\<rparr>"
  have ok: "p \<noteq> NULL" "ALIGNED env p" "length junk = unat n" "unat p + unat n < 2 ^ 62"
     "range_of p (unat n) \<inter> dom (mem_bytes m) = {}" "p \<notin> dom (mem_blocks m)"
    using assms(1) Some r by (auto simp: alloc_ok_def)
  have "fits p (unat n)" using ok by (simp add: fits_def)
  then have "block env ?m p (unat n)" using ok by (simp add: block_def allocated_def put_bytes_dom)
  moreover have "dfk__malloc env m n = Some (?m, p)"
    using Some r ok assms(2) by (simp add: dfk__malloc_def)
  ultimately show ?thesis
    using mem [of ?m p] ok by (simp add: put_bytes_outside)
qed

lemma free_block:
  assumes "block env m p n"
  obtains m' where "dfk__free env m p = Some m'" "mem_blocks m' = (mem_blocks m)(p := None)"
    "\<forall>a. mem_bytes m' a = (if a \<in> range_of p n then None else mem_bytes m a)"
  using assms by (auto simp: dfk__free_def block_def)

lemma block_fits: "block env m p n \<Longrightarrow> fits p n"
  by (simp add: block_def allocated_def)

text \<open>A block survives every change that keeps its entry and its bytes allocated.\<close>

lemma block_keep:
  "block env m p n \<Longrightarrow> mem_blocks m' p = mem_blocks m p \<Longrightarrow> range_of p n \<subseteq> dom (mem_bytes m') \<Longrightarrow> block env m' p n"
  by (simp add: block_def allocated_def)

lemma block_dom: "block env m p n \<Longrightarrow> range_of p n \<subseteq> dom (mem_bytes m)"
  by (simp add: block_def allocated_def)

lemma store_in_block:
  assumes "block env m p n" "i + length bs \<le> n"
  obtains m' where "mem_store m (p + of_nat i) bs = Some m'" "mem_blocks m' = mem_blocks m" "block env m' p n"
    "bytes_at (mem_bytes m') (p + of_nat i) bs"
    "same_outside (range_of (p + of_nat i) (length bs)) (mem_bytes m) (mem_bytes m')"
proof -
  have "allocated (mem_bytes m) (p + of_nat i) (length bs)"
    using assms allocated_sub by (auto simp: block_def)
  from store_bytes_at [OF this] obtain b where b: "store_bytes (mem_bytes m) (p + of_nat i) bs = Some b"
    "bytes_at b (p + of_nat i) bs" "same_outside (range_of (p + of_nat i) (length bs)) (mem_bytes m) b" by blast
  show ?thesis
    by (rule that [of "m\<lparr>mem_bytes := b\<rparr>"])
      (use assms b in \<open>auto simp: mem_store_def block_def intro: allocated_same_outside\<close>)
qed

lemma split_range_disjoint:
  assumes "fits p n" "i \<le> n"
  shows "range_of p i \<inter> range_of (p + of_nat i) (n - i) = {}"
  using assms unat_add_fits [OF assms] fits_add [OF assms] fits_mono [OF assms]
  by (intro range_of_disjoint) auto

text \<open>A heap in which every live block is allocated and no two of them overlap.\<close>

definition heap_ok :: "dfk_env \<Rightarrow> cmem \<Rightarrow> bool" where
  "heap_ok env m \<longleftrightarrow> (\<forall>p n. mem_blocks m p = Some n \<longrightarrow> block env m p n)
     \<and> (\<forall>p n q k. mem_blocks m p = Some n \<longrightarrow> mem_blocks m q = Some k \<longrightarrow> p \<noteq> q \<longrightarrow> range_of p n \<inter> range_of q k = {})"

lemma heap_ok_malloc:
  assumes "heap_ok env m" "block env m' p n" "range_of p n \<inter> dom (mem_bytes m) = {}" "p \<notin> dom (mem_blocks m)"
    and "\<forall>a. a \<notin> range_of p n \<longrightarrow> mem_bytes m' a = mem_bytes m a" "mem_blocks m' = (mem_blocks m)(p \<mapsto> n)"
  shows "heap_ok env m'"
proof -
  have old: "block env m' q k \<and> range_of q k \<inter> range_of p n = {}" if q: "mem_blocks m q = Some k" for q k
  proof -
    have b: "block env m q k" using assms(1) q by (simp add: heap_ok_def)
    have d: "range_of q k \<inter> range_of p n = {}" using block_dom [OF b] assms(3) by blast
    then have "range_of q k \<subseteq> dom (mem_bytes m')" using block_dom [OF b] assms(5) by (fastforce simp: dom_def)
    moreover have "q \<noteq> p" using assms(4) q by auto
    ultimately show ?thesis using block_keep [OF b, of m'] d assms(6) by simp
  qed
  show ?thesis
    unfolding heap_ok_def assms(6)
  proof (intro conjI allI impI)
    fix q k
    assume "((mem_blocks m)(p \<mapsto> n)) q = Some k"
    then show "block env m' q k" using old assms(2) by (cases "q = p") auto
  next
    fix q k r l
    assume "((mem_blocks m)(p \<mapsto> n)) q = Some k" "((mem_blocks m)(p \<mapsto> n)) r = Some l" "q \<noteq> r"
    then show "range_of q k \<inter> range_of r l = {}"
      using old [of q k] old [of r l] assms(1) by (auto simp: heap_ok_def split: if_splits)
  qed
qed

lemma heap_ok_free:
  assumes "heap_ok env m" "mem_blocks m p = Some n"
  obtains m' where "dfk__free env m p = Some m'" "heap_ok env m'" "mem_blocks m' = (mem_blocks m)(p := None)"
proof -
  have "block env m p n" using assms by (simp add: heap_ok_def)
  then obtain m' where m': "dfk__free env m p = Some m'" "mem_blocks m' = (mem_blocks m)(p := None)"
    "\<forall>a. mem_bytes m' a = (if a \<in> range_of p n then None else mem_bytes m a)" by (rule free_block)
  have "block env m' q k" if "q \<noteq> p" "mem_blocks m q = Some k" for q k
  proof (rule block_keep)
    show "block env m q k" using assms(1) that by (simp add: heap_ok_def)
    then have "range_of q k \<subseteq> dom (mem_bytes m)" by (rule block_dom)
    moreover have "range_of q k \<inter> range_of p n = {}" using assms that by (simp add: heap_ok_def)
    ultimately show "range_of q k \<subseteq> dom (mem_bytes m')" using m'(3) by (fastforce simp: dom_def)
  qed (simp add: m'(2) that)
  then have "heap_ok env m'" using assms(1) m'(2) by (auto simp: heap_ok_def split: if_splits)
  then show ?thesis using that m' by blast
qed

lemma heap_ok_bytes:
  "heap_ok env m \<Longrightarrow> mem_blocks m' = mem_blocks m \<Longrightarrow> dom (mem_bytes m') = dom (mem_bytes m) \<Longrightarrow> heap_ok env m'"
  by (simp add: heap_ok_def block_def allocated_def)

end
