(* ===== verification/Dfk_Arena.thy ===== *)
theory Dfk_Arena
  imports Dfk_Memory Dfk_List
begin

text \<open>
  The arena allocator of \<^verbatim>\<open>src/arena.c\<close>: segments obtained from \<^verbatim>\<open>dfk__malloc\<close> and kept in an
  intrusive list, objects carved from the last segment, and objects with a cleanup callback kept
  in a second list. The header of a segment and of an object with cleanup are structs that lie in
  the segment's own bytes; their fields are kept in typed memories at the same addresses.
\<close>

section \<open>Data\<close>

record segment_t =
  seg_size :: size_t
  seg_used :: size_t

text \<open>A cleanup callback is identified by its address.\<close>

record owc_t =
  owc_cleanup :: addr

record arena_mem =
  am_heap :: cmem
  am_hooks :: hooks
  am_segs :: "segment_t mem"
  am_owcs :: "owc_t mem"

record dfk_arena_t =
  arena_segments :: dfk_list_t
  arena_owc :: dfk_list_t

text \<open>The sizes of the two headers with two pointers per list hook.\<close>

definition sizeof_segment :: size_t where
  "sizeof_segment = 32"

definition sizeof_owc :: size_t where
  "sizeof_owc = 24"

section \<open>Operations\<close>

definition dfk_arena_init :: "arena_mem \<Rightarrow> dfk_arena_t option" where
  "dfk_arena_init st = do {
     segments \<leftarrow> dfk_list_init (am_hooks st);
     owc \<leftarrow> dfk_list_init (am_hooks st);
     Some \<lparr>arena_segments = segments, arena_owc = owc\<rparr>
   }"

text \<open>
  Releasing an arena returns the cleanup calls it makes, in order, each with the callback and the
  address of the object; the callbacks themselves are the client's.
\<close>

partial_function (option) arena_cleanups :: "arena_mem \<Rightarrow> dfk_list_it \<Rightarrow> dfk_list_it \<Rightarrow> (addr \<times> addr) list option" where
  "arena_cleanups st it stop = do {
     eq \<leftarrow> dfk_list_it_equal (am_hooks st) it stop;
     if eq then Some []
     else do {
       ob \<leftarrow> load (am_owcs st) (it_value it);
       let call = (owc_cleanup ob, it_value it + sizeof_owc);
       it \<leftarrow> dfk_list_it_next (am_hooks st) it;
       calls \<leftarrow> arena_cleanups st it stop;
       Some (call # calls)
     }
   }"

partial_function (option) arena_release :: "dfk_env \<Rightarrow> arena_mem \<Rightarrow> dfk_list_t \<Rightarrow> (arena_mem \<times> dfk_list_t) option" where
  "arena_release env st segments = do {
     e \<leftarrow> dfk_list_empty (am_hooks st) segments;
     if e then Some (st, segments)
     else do {
       segment \<leftarrow> dfk_list_front (am_hooks st) segments;
       (hooks, segments) \<leftarrow> dfk_list_pop_front (am_hooks st) segments;
       heap \<leftarrow> dfk__free env (am_heap st) segment;
       arena_release env (st\<lparr>am_heap := heap, am_hooks := hooks\<rparr>) segments
     }
   }"

definition dfk_arena_free :: "dfk_env \<Rightarrow> arena_mem \<Rightarrow> dfk_arena_t \<Rightarrow> (arena_mem \<times> dfk_arena_t \<times> (addr \<times> addr) list) option" where
  "dfk_arena_free env st arena = do {
     it \<leftarrow> dfk_list_begin (am_hooks st) (arena_owc arena);
     stop \<leftarrow> dfk_list_end (am_hooks st) (arena_owc arena);
     calls \<leftarrow> arena_cleanups st it stop;
     (st, segments) \<leftarrow> arena_release env st (arena_segments arena);
     Some (st, arena\<lparr>arena_segments := segments\<rparr>, calls)
   }"

definition dfk__arena_current_segment :: "arena_mem \<Rightarrow> dfk_arena_t \<Rightarrow> addr option" where
  "dfk__arena_current_segment st arena = dfk_list_back (am_hooks st) (arena_segments arena)"

definition dfk__arena_bytes_available :: "arena_mem \<Rightarrow> dfk_arena_t \<Rightarrow> size_t option" where
  "dfk__arena_bytes_available st arena = do {
     seg \<leftarrow> dfk__arena_current_segment st arena;
     c_assert (seg \<noteq> NULL);
     v \<leftarrow> load (am_segs st) seg;
     c_assert (seg_used v < seg_size v);
     Some (seg_size v - seg_used v)
   }"

text \<open>The list hook in fresh memory is indeterminate; \<^verbatim>\<open>dfk_list_hook_init\<close> writes both its fields.\<close>

definition fresh_hook :: "hooks \<Rightarrow> addr \<Rightarrow> hooks" where
  "fresh_hook h a = h(a \<mapsto> \<lparr>hook_next = 0xDEADBEEF, hook_prev = 0xDEADBEEF\<rparr>)"

definition dfk_arena_alloc ::
  "dfk_env \<Rightarrow> arena_mem \<Rightarrow> dfk_arena_t \<Rightarrow> size_t \<Rightarrow> (arena_mem \<times> dfk_arena_t \<times> addr) option" where
  "dfk_arena_alloc env st arena sz = do {
     c_assert (sz \<noteq> 0);
     e \<leftarrow> dfk_list_empty (am_hooks st) (arena_segments arena);
     new \<leftarrow> (if e then Some True else do { avail \<leftarrow> dfk__arena_bytes_available st arena; Some (avail < sz) });
     if new then do {
       let toalloc = max (DFK_ARENA_SEGMENT_SIZE env) (sz + sizeof_segment);
       (heap, s) \<leftarrow> dfk__malloc env (am_heap st) toalloc;
       if s = NULL then Some (st\<lparr>am_heap := heap\<rparr>, arena, NULL)
       else do {
         h \<leftarrow> dfk_list_hook_init (fresh_hook (am_hooks st) s) s;
         (h, segments) \<leftarrow> dfk_list_append h (arena_segments arena) s;
         let v = \<lparr>seg_size = DFK_ARENA_SEGMENT_SIZE env - sizeof_segment, seg_used = sizeof_segment + sz\<rparr>;
         Some (st\<lparr>am_heap := heap, am_hooks := h, am_segs := (am_segs st)(s \<mapsto> v)\<rparr>,
               arena\<lparr>arena_segments := segments\<rparr>, s + sizeof_segment)
       }
     } else do {
       seg \<leftarrow> dfk__arena_current_segment st arena;
       v \<leftarrow> load (am_segs st) seg;
       let ret = seg + seg_used v;
       segs \<leftarrow> modify (am_segs st) seg (\<lambda>v. v\<lparr>seg_used := seg_used v + sz\<rparr>);
       Some (st\<lparr>am_segs := segs\<rparr>, arena, ret)
     }
   }"

text \<open>The data to copy is given by its contents.\<close>

definition dfk_arena_alloc_copy ::
  "dfk_env \<Rightarrow> arena_mem \<Rightarrow> dfk_arena_t \<Rightarrow> byte list \<Rightarrow> (arena_mem \<times> dfk_arena_t \<times> addr) option" where
  "dfk_arena_alloc_copy env st arena data = do {
     c_assert (data \<noteq> []);
     (st, arena, allocated) \<leftarrow> dfk_arena_alloc env st arena (of_nat (length data));
     if allocated \<noteq> NULL then do {
       heap \<leftarrow> mem_store (am_heap st) allocated data;
       Some (st\<lparr>am_heap := heap\<rparr>, arena, allocated)
     } else Some (st, arena, allocated)
   }"

definition dfk_arena_alloc_ex ::
  "dfk_env \<Rightarrow> arena_mem \<Rightarrow> dfk_arena_t \<Rightarrow> size_t \<Rightarrow> addr \<Rightarrow> (arena_mem \<times> dfk_arena_t \<times> addr) option" where
  "dfk_arena_alloc_ex env st arena sz cleanup = do {
     c_assert (sz \<noteq> 0);
     c_assert (cleanup \<noteq> NULL);
     (st, arena, owc) \<leftarrow> dfk_arena_alloc env st arena (sizeof_owc + sz);
     if owc = NULL then Some (st, arena, NULL)
     else do {
       h \<leftarrow> dfk_list_hook_init (fresh_hook (am_hooks st) owc) owc;
       (h, owcs) \<leftarrow> dfk_list_append h (arena_owc arena) owc;
       Some (st\<lparr>am_hooks := h, am_owcs := (am_owcs st)(owc \<mapsto> \<lparr>owc_cleanup = cleanup\<rparr>)\<rparr>,
             arena\<lparr>arena_owc := owcs\<rparr>, owc + sizeof_owc)
     }
   }"

definition dfk_arena_alloc_copy_ex ::
  "dfk_env \<Rightarrow> arena_mem \<Rightarrow> dfk_arena_t \<Rightarrow> byte list \<Rightarrow> addr \<Rightarrow> (arena_mem \<times> dfk_arena_t \<times> addr) option" where
  "dfk_arena_alloc_copy_ex env st arena data cleanup = do {
     c_assert (data \<noteq> []);
     c_assert (cleanup \<noteq> NULL);
     (st, arena, allocated) \<leftarrow> dfk_arena_alloc_ex env st arena (of_nat (length data)) cleanup;
     if allocated \<noteq> NULL then do {
       heap \<leftarrow> mem_store (am_heap st) allocated data;
       Some (st\<lparr>am_heap := heap\<rparr>, arena, allocated)
     } else Some (st, arena, allocated)
   }"

section \<open>Invariant\<close>

text \<open>
  \<open>arena_inv env st arena ss os regs\<close>: the segments are \<open>ss\<close>, the objects with cleanup \<open>os\<close>, and the
  regions handed out \<open>regs\<close> (address and size) lie behind the header and below the \<^verbatim>\<open>used\<close> mark of
  their segment and do not overlap.
\<close>

definition in_segment :: "arena_mem \<Rightarrow> addr \<Rightarrow> addr \<times> nat \<Rightarrow> bool" where
  "in_segment st s r \<longleftrightarrow> (case am_segs st s of None \<Rightarrow> False
     | Some v \<Rightarrow> unat s + 32 \<le> unat (fst r) \<and> unat (fst r) + snd r \<le> unat s + unat (seg_used v))"

definition segment_ok :: "dfk_env \<Rightarrow> arena_mem \<Rightarrow> addr \<Rightarrow> bool" where
  "segment_ok env st s \<longleftrightarrow> (\<exists>v n. am_segs st s = Some v \<and> seg_size v = DFK_ARENA_SEGMENT_SIZE env - sizeof_segment
     \<and> mem_blocks (am_heap st) s = Some n \<and> unat (DFK_ARENA_SEGMENT_SIZE env) \<le> n
     \<and> 32 < unat (seg_used v) \<and> unat (seg_used v) \<le> n)"

definition arena_inv ::
  "dfk_env \<Rightarrow> arena_mem \<Rightarrow> dfk_arena_t \<Rightarrow> addr list \<Rightarrow> addr list \<Rightarrow> (addr \<times> nat) list \<Rightarrow> bool" where
  "arena_inv env st arena ss os regs \<longleftrightarrow>
     list_rep (am_hooks st) (arena_segments arena) ss \<and> list_rep (am_hooks st) (arena_owc arena) os
     \<and> heap_ok env (am_heap st) \<and> 64 < unat (DFK_ARENA_SEGMENT_SIZE env)
     \<and> (\<forall>s\<in>set ss. segment_ok env st s)
     \<and> (\<forall>r\<in>set regs. \<exists>s\<in>set ss. in_segment st s r)
     \<and> (\<forall>a\<in>set os. (\<exists>k\<ge>24. (a, k) \<in> set regs) \<and> am_owcs st a \<noteq> None)
     \<and> sorted_wrt (\<lambda>r r'. range_of (fst r) (snd r) \<inter> range_of (fst r') (snd r') = {}) regs"

subsection \<open>Hooks in fresh memory\<close>

lemma list_rep_upd: "list_rep h l xs \<Longrightarrow> a \<notin> set xs \<Longrightarrow> list_rep (h(a \<mapsto> v)) l xs"
  by (simp add: list_rep_def)

lemma hook_init_spec:
  assumes "a \<noteq> NULL" "h a = Some v"
  shows "dfk_list_hook_init h a = Some (h(a \<mapsto> \<lparr>hook_next = NULL, hook_prev = NULL\<rparr>))"
proof -
  let ?h = "h(a \<mapsto> \<lparr>hook_next = NULL, hook_prev = NULL\<rparr>)"
  have "list_rep ?h \<lparr>list_head = a, list_tail = a, list_size = 1\<rparr> [a]"
    using assms by (simp add: list_rep_def)
  then have "dfk__list_hook_check_invariants ?h a = Some ()" by (rule hook_check_ok) simp
  then show ?thesis using assms by (simp add: dfk_list_hook_init_def)
qed

text \<open>Linking a hook that lies in fresh memory into one of two disjoint lists.\<close>

lemma link_fresh:
  assumes "list_rep h l xs" "list_rep h l2 ys" "a \<noteq> NULL" "a \<notin> set xs" "a \<notin> set ys" "set xs \<inter> set ys = {}"
  obtains h1 h2 l' where "dfk_list_hook_init (fresh_hook h a) a = Some h1" "dfk_list_append h1 l a = Some (h2, l')"
    "list_rep h2 l' (xs @ [a])" "list_rep h2 l2 ys"
proof -
  let ?h = "h(a \<mapsto> \<lparr>hook_next = NULL, hook_prev = NULL\<rparr>)"
  have 1: "dfk_list_hook_init (fresh_hook h a) a = Some ?h"
    using hook_init_spec [OF assms(3)] by (simp add: fresh_hook_def)
  obtain h2 l' where 2: "dfk_list_append ?h l a = Some (h2, l')" "list_rep h2 l' (xs @ [a])"
      "same_outside (insert a (set xs)) ?h h2"
    using list_append_spec [of ?h l xs a] list_rep_upd [OF assms(1,4)] assms(3,4) by auto
  have "list_rep h2 l2 ys"
    by (rule list_rep_frame [OF list_rep_upd [OF assms(2,5)] 2(3)]) (use assms(5,6) in auto)
  then show ?thesis using that 1 2 by blast
qed

subsection \<open>Regions and segments\<close>

lemma region_in_block:
  assumes "heap_ok env (am_heap st)" "segment_ok env st s" "in_segment st s r"
  obtains n where "mem_blocks (am_heap st) s = Some n" "block env (am_heap st) s n" "fits (fst r) (snd r)"
    "range_of (fst r) (snd r) \<subseteq> range_of s n" "s \<notin> range_of (fst r) (snd r)" "range_of s 1 \<subseteq> range_of s n"
proof -
  obtain v n where v: "am_segs st s = Some v" "mem_blocks (am_heap st) s = Some n" "unat (seg_used v) \<le> n" "32 < unat (seg_used v)"
    using assms(2) by (auto simp: segment_ok_def)
  have b: "block env (am_heap st) s n" using assms(1) v(2) by (simp add: heap_ok_def)
  have r: "unat s + 32 \<le> unat (fst r)" "unat (fst r) + snd r \<le> unat s + n"
    using assms(3) v by (auto simp: in_segment_def)
  have f: "fits s n" by (rule block_fits [OF b])
  have fr: "fits (fst r) (snd r)" using f r by (auto simp: fits_def)
  have "range_of (fst r) (snd r) \<subseteq> range_of s n"
    using r range_of_unat [OF fr] range_of_unat [OF f] by force
  moreover have "s \<notin> range_of (fst r) (snd r)" using range_of_unat [OF fr, of s] r by simp
  moreover have "range_of s 1 \<subseteq> range_of s n" by (rule range_of_mono) (use v in simp)
  ultimately show ?thesis using that v(2) b fr by blast
qed

lemma regions_allocated:
  assumes "arena_inv env st arena ss os regs" "r \<in> set regs"
  shows "range_of (fst r) (snd r) \<subseteq> dom (mem_bytes (am_heap st))" "fits (fst r) (snd r)"
    "set ss \<inter> range_of (fst r) (snd r) = {}"
proof -
  obtain s where s: "s \<in> set ss" "in_segment st s r" and h: "heap_ok env (am_heap st)"
    and ok: "\<forall>s\<in>set ss. segment_ok env st s"
    using assms by (auto simp: arena_inv_def)
  obtain n where n: "mem_blocks (am_heap st) s = Some n" "block env (am_heap st) s n" "fits (fst r) (snd r)"
    "range_of (fst r) (snd r) \<subseteq> range_of s n" "s \<notin> range_of (fst r) (snd r)"
    by (rule region_in_block [OF h _ s(2)]) (use ok s in auto)
  show "range_of (fst r) (snd r) \<subseteq> dom (mem_bytes (am_heap st))" "fits (fst r) (snd r)"
    using n block_dom [OF n(2)] by auto
  have "t \<notin> range_of (fst r) (snd r)" if t: "t \<in> set ss" for t
  proof (cases "t = s")
    case False
    obtain k where k: "mem_blocks (am_heap st) t = Some k" "0 < k" using ok t by (fastforce simp: segment_ok_def)
    have "t \<in> range_of t k" using k(2) by (cases k) (auto simp: range_of_Suc)
    moreover have "range_of t k \<inter> range_of s n = {}" using h k(1) n(1) False unfolding heap_ok_def by blast
    ultimately show ?thesis using n(4) by blast
  qed (use n(5) in simp)
  then show "set ss \<inter> range_of (fst r) (snd r) = {}" by blast
qed

lemma head_in_range: "0 < n \<Longrightarrow> p \<in> range_of p n"
  by (cases n) (auto simp: range_of_Suc)

lemma owcs_disjoint:
  assumes "arena_inv env st arena ss os regs"
  shows "set ss \<inter> set os = {}" "set os \<subseteq> dom (mem_bytes (am_heap st))"
proof -
  have "\<exists>k. (a, k) \<in> set regs \<and> a \<in> range_of a k" if "a \<in> set os" for a
    using assms that head_in_range [of _ a] unfolding arena_inv_def by force
  then show "set ss \<inter> set os = {}" "set os \<subseteq> dom (mem_bytes (am_heap st))"
    using regions_allocated [OF assms] by fastforce+
qed

subsection \<open>Allocation\<close>

text \<open>The condition under which \<^verbatim>\<open>dfk_arena_alloc\<close> does not run into its own assertion.\<close>

definition arena_ready :: "arena_mem \<Rightarrow> addr list \<Rightarrow> bool" where
  "arena_ready st ss \<longleftrightarrow> ss = [] \<or> (\<exists>v. am_segs st (last ss) = Some v \<and> seg_used v < seg_size v)"

text \<open>
  What an allocation that returns a region guarantees. The blocks of the heap that are not
  segments of the arena are the same as before.
\<close>

definition other_blocks :: "arena_mem \<Rightarrow> addr list \<Rightarrow> addr \<rightharpoonup> nat" where
  "other_blocks st ss = mem_blocks (am_heap st) |` (- set ss)"

definition alloc_post ::
  "dfk_env \<Rightarrow> arena_mem \<Rightarrow> addr list \<Rightarrow> arena_mem \<Rightarrow> dfk_arena_t \<Rightarrow> addr list \<Rightarrow> (addr \<times> nat) list \<Rightarrow> addr \<Rightarrow> nat \<Rightarrow> bool" where
  "alloc_post env st ss st' arena' os regs p n \<longleftrightarrow> p \<noteq> NULL
     \<and> (\<exists>ss'. arena_inv env st' arena' ss' os ((p, n) # regs) \<and> other_blocks st' ss' = other_blocks st ss)
     \<and> am_owcs st' = am_owcs st
     \<and> (\<forall>a\<in>dom (mem_bytes (am_heap st)) - range_of p n. mem_bytes (am_heap st') a = mem_bytes (am_heap st) a)"

lemma alloc_in_segment:
  assumes inv: "arena_inv env st arena (ss @ [s]) os regs" and v: "am_segs st s = Some v" "seg_used v < seg_size v"
    and sz: "sz \<noteq> 0" "sz \<le> seg_size v - seg_used v"
  defines "st' \<equiv> st\<lparr>am_segs := (am_segs st)(s \<mapsto> v\<lparr>seg_used := seg_used v + sz\<rparr>)\<rparr>"
  shows "dfk_arena_alloc env st arena sz = Some (st', arena, s + seg_used v)
    \<and> alloc_post env st (ss @ [s]) st' arena os regs (s + seg_used v) (unat sz)
    \<and> arena_inv env st' arena (ss @ [s]) os ((s + seg_used v, unat sz) # regs)"
proof -
  let ?used = "unat (seg_used v)" and ?v = "v\<lparr>seg_used := seg_used v + sz\<rparr>" and ?p = "s + seg_used v"
  let ?st = "st\<lparr>am_segs := (am_segs st)(s \<mapsto> ?v)\<rparr>"
  have reps: "list_rep (am_hooks st) (arena_segments arena) (ss @ [s])" "list_rep (am_hooks st) (arena_owc arena) os"
    and heap: "heap_ok env (am_heap st)" and seg64: "64 < unat (DFK_ARENA_SEGMENT_SIZE env)"
    and ok: "\<forall>s\<in>set (ss @ [s]). segment_ok env st s"
    and rin: "\<forall>r\<in>set regs. \<exists>t\<in>set (ss @ [s]). in_segment st t r"
    using inv by (simp_all add: arena_inv_def)
  have nn: "s \<noteq> NULL" using list_rep_not_NULL [OF reps(1)] by auto
  obtain n where n: "seg_size v = DFK_ARENA_SEGMENT_SIZE env - sizeof_segment" "mem_blocks (am_heap st) s = Some n"
      "unat (DFK_ARENA_SEGMENT_SIZE env) \<le> n" "32 < ?used" "?used \<le> n"
    using ok v(1) by (auto simp: segment_ok_def)
  have "unat (seg_size v) = unat (DFK_ARENA_SEGMENT_SIZE env) - 32"
    using n(1) seg64 by (simp add: sizeof_segment_def unat_sub word_le_nat_alt)
  moreover have "?used + unat sz \<le> unat (seg_size v)"
    using sz(2) v(2) by (simp add: word_le_nat_alt word_less_nat_alt unat_sub)
  ultimately have room: "?used + unat sz \<le> n" using n(3) by linarith
  have b: "block env (am_heap st) s n" using heap n(2) by (simp add: heap_ok_def)
  have f: "fits s n" by (rule block_fits [OF b])
  have used': "unat (seg_used v + sz) = ?used + unat sz"
    using room f unat_of_nat_addr [of "?used + unat sz"] by (simp add: fits_def)
  have p: "unat ?p = unat s + ?used" using unat_add_fits [OF f n(5)] by simp
  have fp: "fits ?p (unat sz)" using f p room nn by (auto simp: fits_def unat_eq_0 [symmetric] simp del: unat_eq_0)
  have psub: "range_of ?p (unat sz) \<subseteq> range_of s n"
    using range_of_unat [OF fp] range_of_unat [OF f] p room by force
  have mono: "in_segment ?st t r" if "in_segment st t r" for t r
    using that v(1) used' by (auto simp: in_segment_def)
  have "segment_ok env ?st t" if "t \<in> set (ss @ [s])" for t
  proof -
    have "segment_ok env st t" using ok that by blast
    then show ?thesis
      using v n room used' by (cases "t = s") (auto simp: segment_ok_def)
  qed
  moreover have "in_segment ?st s (?p, unat sz)" using p n used' by (simp add: in_segment_def)
  moreover have "range_of ?p (unat sz) \<inter> range_of (fst r) (snd r) = {}" if r: "r \<in> set regs" for r
  proof -
    obtain t where t: "t \<in> set (ss @ [s])" "in_segment st t r" using rin r by blast
    obtain k where k: "mem_blocks (am_heap st) t = Some k" "fits (fst r) (snd r)" "range_of (fst r) (snd r) \<subseteq> range_of t k"
      by (rule region_in_block [OF heap _ t(2)]) (use ok t in auto)
    show ?thesis
    proof (cases "t = s")
      case True
      then show ?thesis using t(2) v(1) p by (intro range_of_disjoint fp k(2)) (auto simp: in_segment_def)
    next
      case False
      then have "range_of t k \<inter> range_of s n = {}" using heap k(1) n(2) unfolding heap_ok_def by blast
      then show ?thesis using psub k(3) by blast
    qed
  qed
  ultimately have "arena_inv env ?st arena (ss @ [s]) os ((?p, unat sz) # regs)"
    using inv mono unfolding arena_inv_def by fastforce
  moreover have "dfk_arena_alloc env st arena sz = Some (?st, arena, ?p)"
    using list_empty_spec [OF reps(1)] list_back_spec [OF reps(1)] v sz leD [OF sz(2)] nn
    by (simp add: dfk_arena_alloc_def dfk__arena_bytes_available_def dfk__arena_current_segment_def)
  ultimately show ?thesis using fp unfolding alloc_post_def fits_def other_blocks_def st'_def by auto
qed

lemma alloc_same_segment:
  assumes "arena_inv env st arena (ss @ [s]) os regs" "am_segs st s = Some v" "seg_used v < seg_size v"
    and "sz \<noteq> 0" "sz \<le> seg_size v - seg_used v"
  shows "\<exists>st'. dfk_arena_alloc env st arena sz = Some (st', arena, s + seg_used v)
    \<and> alloc_post env st (ss @ [s]) st' arena os regs (s + seg_used v) (unat sz)"
  using alloc_in_segment [OF assms] by blast

text \<open>A new segment, when there is none or the request does not fit the last one.\<close>

lemma alloc_new_segment:
  assumes ok: "alloc_ok env" and inv: "arena_inv env st arena ss os regs" and sz: "sz \<noteq> 0" "unat sz < 2 ^ 62"
    and new: "ss = [] \<or> (\<exists>v. am_segs st (last ss) = Some v \<and> seg_used v < seg_size v \<and> seg_size v - seg_used v < sz)"
  shows "dfk_arena_alloc env st arena sz = Some (st, arena, NULL)
    \<or> (\<exists>st' arena' s. dfk_arena_alloc env st arena sz = Some (st', arena', s + sizeof_segment)
         \<and> alloc_post env st ss st' arena' os regs (s + sizeof_segment) (unat sz)
         \<and> arena_inv env st' arena' (ss @ [s]) os ((s + sizeof_segment, unat sz) # regs)
         \<and> am_segs st' s = Some \<lparr>seg_size = DFK_ARENA_SEGMENT_SIZE env - sizeof_segment, seg_used = sizeof_segment + sz\<rparr>)"
proof -
  have reps: "list_rep (am_hooks st) (arena_segments arena) ss" "list_rep (am_hooks st) (arena_owc arena) os"
    and heap: "heap_ok env (am_heap st)" and seg64: "64 < unat (DFK_ARENA_SEGMENT_SIZE env)"
    and segs: "\<forall>s\<in>set ss. segment_ok env st s"
    using inv by (simp_all add: arena_inv_def)
  let ?n = "max (DFK_ARENA_SEGMENT_SIZE env) (sz + sizeof_segment)"
  have un: "unat (sz + sizeof_segment) = unat sz + 32"
    using sz(2) by (simp add: sizeof_segment_def unat_word_ariths)
  then have un': "unat ?n = max (unat (DFK_ARENA_SEGMENT_SIZE env)) (unat sz + 32)"
    by (simp add: max_def word_le_nat_alt)
  then have nz: "?n \<noteq> 0" by (metis add_is_0 le_zero_eq max.cobounded2 unat_0 zero_neq_numeral)
  define enter where "enter = (do {
       (heap, s) \<leftarrow> dfk__malloc env (am_heap st) ?n;
       if s = NULL then Some (st\<lparr>am_heap := heap\<rparr>, arena, NULL)
       else do {
         h \<leftarrow> dfk_list_hook_init (fresh_hook (am_hooks st) s) s;
         (h, segments) \<leftarrow> dfk_list_append h (arena_segments arena) s;
         let v = \<lparr>seg_size = DFK_ARENA_SEGMENT_SIZE env - sizeof_segment, seg_used = sizeof_segment + sz\<rparr>;
         Some (st\<lparr>am_heap := heap, am_hooks := h, am_segs := (am_segs st)(s \<mapsto> v)\<rparr>,
               arena\<lparr>arena_segments := segments\<rparr>, s + sizeof_segment)
       } })"
  have nn: "last ss \<noteq> NULL" if "ss \<noteq> []" using list_rep_not_NULL [OF reps(1)] last_in_set [OF that] by auto
  have alloc: "dfk_arena_alloc env st arena sz = enter"
    using new list_empty_spec [OF reps(1)] list_back_spec [OF reps(1)] sz nn
    by (cases "ss = []") (auto simp: dfk_arena_alloc_def dfk__arena_bytes_available_def
        dfk__arena_current_segment_def enter_def last_or_def)
  show ?thesis
  proof (cases rule: malloc_cases [OF ok nz, of "am_heap st", case_names nomem mem])
    case nomem
    then show ?thesis unfolding alloc by (simp add: enter_def)
  next
    case (mem s heap)
    have "s \<in> range_of s (unat ?n)" using un' seg64 by (intro head_in_range) simp
    then have fresh: "s \<notin> set ss" "s \<notin> set os"
      using segs mem(5,7) owcs_disjoint(2) [OF inv] by (auto simp: segment_ok_def dom_def)
    obtain h1 h2 l' where h: "dfk_list_hook_init (fresh_hook (am_hooks st) s) s = Some h1"
        "dfk_list_append h1 (arena_segments arena) s = Some (h2, l')" "list_rep h2 l' (ss @ [s])"
        "list_rep h2 (arena_owc arena) os"
      by (rule link_fresh [OF reps mem(2) fresh owcs_disjoint(1) [OF inv]])
    let ?v = "\<lparr>seg_size = DFK_ARENA_SEGMENT_SIZE env - sizeof_segment, seg_used = sizeof_segment + sz\<rparr>"
    let ?st = "st\<lparr>am_heap := heap, am_hooks := h2, am_segs := (am_segs st)(s \<mapsto> ?v)\<rparr>"
    let ?p = "s + sizeof_segment"
    have f: "fits s (unat ?n)" by (rule block_fits [OF mem(3)])
    have p: "unat ?p = unat s + 32" using unat_add_fits [OF f, of 32] un' by (simp add: sizeof_segment_def)
    have fp: "fits ?p (unat sz)" using f p un' mem(2) by (auto simp: fits_def unat_eq_0 [symmetric] simp del: unat_eq_0)
    have psub: "range_of ?p (unat sz) \<subseteq> range_of s (unat ?n)"
      using range_of_unat [OF fp] range_of_unat [OF f] p un' by force
    have keep: "in_segment ?st t r" if "in_segment st t r" "t \<in> set ss" for t r
      using that fresh(1) by (auto simp: in_segment_def)
    have hok: "heap_ok env heap" by (rule heap_ok_malloc [OF heap mem(3,5,7,4,6)])
    have "segment_ok env ?st t" if "t \<in> set ss" for t
      using segs that fresh(1) mem(6) by (fastforce simp: segment_ok_def)
    moreover have "segment_ok env ?st s" "in_segment ?st s (?p, unat sz)"
      using mem(6) un un' p sz(1) by (auto simp: segment_ok_def in_segment_def add.commute unat_eq_0 [symmetric] simp del: unat_eq_0)
    moreover have "range_of ?p (unat sz) \<inter> range_of (fst r) (snd r) = {}" if "r \<in> set regs" for r
      using regions_allocated(1) [OF inv that] psub mem(5) by blast
    ultimately have inv': "arena_inv env ?st (arena\<lparr>arena_segments := l'\<rparr>) (ss @ [s]) os ((?p, unat sz) # regs)"
      using inv h(3,4) hok keep unfolding arena_inv_def by fastforce
    moreover have "other_blocks ?st (ss @ [s]) = other_blocks st ss"
      using mem(6,7) by (auto simp: other_blocks_def restrict_map_def fun_eq_iff)
    ultimately have "alloc_post env st ss ?st (arena\<lparr>arena_segments := l'\<rparr>) os regs ?p (unat sz)"
      using fp mem(4,5) unfolding alloc_post_def fits_def by fastforce
    moreover have "enter = Some (?st, arena\<lparr>arena_segments := l'\<rparr>, ?p)"
      using mem(1,2) h(1,2) by (simp add: enter_def)
    ultimately show ?thesis using inv' unfolding alloc by (intro disjI2) fastforce
  qed
qed

lemma alloc_spec:
  assumes ok: "alloc_ok env" and inv: "arena_inv env st arena ss os regs" and sz: "sz \<noteq> 0" "unat sz < 2 ^ 62"
    and ready: "arena_ready st ss"
  shows "dfk_arena_alloc env st arena sz = Some (st, arena, NULL)
    \<or> (\<exists>st' arena' p. dfk_arena_alloc env st arena sz = Some (st', arena', p)
         \<and> alloc_post env st ss st' arena' os regs p (unat sz))"
proof (cases "\<exists>v. ss \<noteq> [] \<and> am_segs st (last ss) = Some v \<and> seg_used v < seg_size v \<and> sz \<le> seg_size v - seg_used v")
  case True
  then obtain s ss' v where "ss = ss' @ [s]" "am_segs st s = Some v" "seg_used v < seg_size v" "sz \<le> seg_size v - seg_used v"
    by (cases ss rule: rev_cases) auto
  then show ?thesis using alloc_same_segment [of env st arena ss' s os regs v sz] inv sz(1) by auto
next
  case False
  then show ?thesis
    using ready alloc_new_segment [OF ok inv sz] by (auto simp: arena_ready_def not_le)
qed

text \<open>Conversely, without room behind the \<^verbatim>\<open>used\<close> mark every allocation aborts.\<close>

lemma alloc_not_ready:
  assumes "arena_inv env st arena ss os regs" "\<not> arena_ready st ss"
  shows "dfk_arena_alloc env st arena sz = None"
proof -
  have reps: "list_rep (am_hooks st) (arena_segments arena) ss" using assms by (simp add: arena_inv_def)
  have ne: "ss \<noteq> []" using assms(2) by (auto simp: arena_ready_def)
  then have "\<exists>v. am_segs st (last ss) = Some v"
    using assms(1) last_in_set [OF ne] by (auto simp: arena_inv_def segment_ok_def)
  then show ?thesis
    using list_empty_spec [OF reps] list_back_spec [OF reps] ne assms(2)
    by (auto simp: dfk_arena_alloc_def dfk__arena_bytes_available_def dfk__arena_current_segment_def
        arena_ready_def last_or_def load_def)
qed

lemma arena_inv_bytes:
  assumes "arena_inv env st arena ss os regs" "mem_blocks heap = mem_blocks (am_heap st)"
    and "dom (mem_bytes heap) = dom (mem_bytes (am_heap st))"
  shows "arena_inv env (st\<lparr>am_heap := heap\<rparr>) arena ss os regs"
  using assms heap_ok_bytes [of env "am_heap st" heap]
  by (simp add: arena_inv_def segment_ok_def in_segment_def)

lemma store_region:
  assumes "arena_inv env st arena ss os regs" "(p, n) \<in> set regs" "i + length data \<le> n"
  obtains heap where "mem_store (am_heap st) (p + of_nat i) data = Some heap"
    "arena_inv env (st\<lparr>am_heap := heap\<rparr>) arena ss os regs" "bytes_at (mem_bytes heap) (p + of_nat i) data"
    "mem_blocks heap = mem_blocks (am_heap st)"
    "same_outside (range_of p n) (mem_bytes (am_heap st)) (mem_bytes heap)"
proof -
  have "allocated (mem_bytes (am_heap st)) p n"
    using regions_allocated [OF assms(1,2)] by (simp add: allocated_def)
  then have "allocated (mem_bytes (am_heap st)) (p + of_nat i) (length data)" using allocated_sub assms(3) by blast
  from store_bytes_at [OF this] obtain b where b: "store_bytes (mem_bytes (am_heap st)) (p + of_nat i) data = Some b"
    "bytes_at b (p + of_nat i) data"
    "same_outside (range_of (p + of_nat i) (length data)) (mem_bytes (am_heap st)) b" by blast
  show ?thesis
  proof (rule that [of "am_heap st\<lparr>mem_bytes := b\<rparr>"])
    show "arena_inv env (st\<lparr>am_heap := am_heap st\<lparr>mem_bytes := b\<rparr>\<rparr>) arena ss os regs"
      by (rule arena_inv_bytes [OF assms(1)]) (use same_outside_dom [OF b(3)] in auto)
    show "same_outside (range_of p n) (mem_bytes (am_heap st)) (mem_bytes (am_heap st\<lparr>mem_bytes := b\<rparr>))"
      using same_outside_mono [OF b(3) range_of_sub [OF assms(3)]] by simp
  qed (use b in \<open>auto simp: mem_store_def\<close>)
qed

text \<open>Room for more than \<open>n\<close> bytes in the last segment: allocations of up to \<open>n\<close> bytes in all succeed.\<close>

definition arena_room :: "arena_mem \<Rightarrow> addr list \<Rightarrow> nat \<Rightarrow> bool" where
  "arena_room st ss n \<longleftrightarrow> ss \<noteq> [] \<and> (case am_segs st (last ss) of None \<Rightarrow> False
     | Some v \<Rightarrow> unat (seg_used v) + n < unat (seg_size v))"

lemma arena_room_mono: "arena_room st ss n \<Longrightarrow> k \<le> n \<Longrightarrow> arena_room st ss k"
  by (auto simp: arena_room_def split: option.splits)

lemma alloc_room:
  assumes inv: "arena_inv env st arena ss os regs" and room: "arena_room st ss (unat sz + n)" and sz: "sz \<noteq> 0"
  shows "\<exists>st' p. dfk_arena_alloc env st arena sz = Some (st', arena, p) \<and> p \<noteq> NULL
    \<and> arena_inv env st' arena ss os ((p, unat sz) # regs) \<and> arena_room st' ss n
    \<and> am_heap st' = am_heap st \<and> am_hooks st' = am_hooks st"
proof -
  obtain ss' s where ss: "ss = ss' @ [s]" using room by (cases ss rule: rev_cases) (auto simp: arena_room_def)
  obtain v where v: "am_segs st s = Some v" "unat (seg_used v) + (unat sz + n) < unat (seg_size v)"
    using room ss by (auto simp: arena_room_def split: option.splits)
  have lt: "seg_used v < seg_size v" using v(2) by (simp add: word_less_nat_alt)
  have le: "sz \<le> seg_size v - seg_used v" using v(2) lt by (simp add: word_le_nat_alt unat_sub)
  note a = alloc_in_segment [OF inv [unfolded ss] v(1) lt sz le]
  have "unat (seg_size v) < 2 ^ 64" using unsigned_less [of "seg_size v"] by simp
  then have "unat (seg_used v + sz) = unat (seg_used v) + unat sz"
    using v(2) unat_of_nat_addr [of "unat (seg_used v) + unat sz"] by simp
  then show ?thesis using a v ss by (auto simp: arena_room_def alloc_post_def)
qed

text \<open>
  An allocation with a copy: the region holds the data, and every byte allocated before that lies
  outside it keeps its value.
\<close>

lemma alloc_copy_spec:
  assumes ok: "alloc_ok env" and inv: "arena_inv env st arena ss os regs" and data: "data \<noteq> []" "length data < 2 ^ 62"
    and ready: "arena_ready st ss"
  shows "dfk_arena_alloc_copy env st arena data = Some (st, arena, NULL)
    \<or> (\<exists>st' arena' p. dfk_arena_alloc_copy env st arena data = Some (st', arena', p)
         \<and> alloc_post env st ss st' arena' os regs p (length data) \<and> bytes_at (mem_bytes (am_heap st')) p data)"
proof -
  have un: "unat (of_nat (length data) :: size_t) = length data" using data(2) by (simp add: unat_of_nat_addr)
  then have nz: "(of_nat (length data) :: size_t) \<noteq> 0" using data(1) by (metis length_0_conv unat_0)
  consider "dfk_arena_alloc env st arena (of_nat (length data)) = Some (st, arena, NULL)"
    | st1 arena' p where "dfk_arena_alloc env st arena (of_nat (length data)) = Some (st1, arena', p)"
        "alloc_post env st ss st1 arena' os regs p (length data)"
    using alloc_spec [OF ok inv nz _ ready] un data(2) by auto
  then show ?thesis
  proof cases
    case 1
    then show ?thesis using data(1) by (simp add: dfk_arena_alloc_copy_def)
  next
    case 2
    obtain ss' where inv1: "arena_inv env st1 arena' ss' os ((p, length data) # regs)" and p: "p \<noteq> NULL"
      and ob: "other_blocks st1 ss' = other_blocks st ss"
      and old: "am_owcs st1 = am_owcs st" "\<forall>a\<in>dom (mem_bytes (am_heap st)) - range_of p (length data). mem_bytes (am_heap st1) a = mem_bytes (am_heap st) a"
      using 2(2) by (auto simp: alloc_post_def)
    obtain heap where h: "mem_store (am_heap st1) p data = Some heap"
        "arena_inv env (st1\<lparr>am_heap := heap\<rparr>) arena' ss' os ((p, length data) # regs)"
        "bytes_at (mem_bytes heap) p data" "mem_blocks heap = mem_blocks (am_heap st1)"
        "same_outside (range_of p (length data)) (mem_bytes (am_heap st1)) (mem_bytes heap)"
      using store_region [OF inv1, of p "length data" 0 data] by auto
    have "alloc_post env st ss (st1\<lparr>am_heap := heap\<rparr>) arena' os regs p (length data)"
      using h(2,4,5) p old ob unfolding alloc_post_def same_outside_def other_blocks_def by auto
    then show ?thesis using 2(1) h(1,3) p data(1) by (auto simp: dfk_arena_alloc_copy_def)
  qed
qed

lemma alloc_copy_room:
  assumes inv: "arena_inv env st arena ss os regs" and room: "arena_room st ss (length data + n)"
    and data: "data \<noteq> []" "length data < 2 ^ 62"
  shows "\<exists>st' p. dfk_arena_alloc_copy env st arena data = Some (st', arena, p) \<and> p \<noteq> NULL
    \<and> arena_inv env st' arena ss os ((p, length data) # regs) \<and> arena_room st' ss n"
proof -
  have un: "unat (of_nat (length data) :: size_t) = length data" using data(2) by (simp add: unat_of_nat_addr)
  then have nz: "(of_nat (length data) :: size_t) \<noteq> 0" using data(1) by (metis length_0_conv unat_0)
  obtain st1 p where a: "dfk_arena_alloc env st arena (of_nat (length data)) = Some (st1, arena, p)" "p \<noteq> NULL"
      "arena_inv env st1 arena ss os ((p, length data) # regs)" "arena_room st1 ss n"
    using alloc_room [OF inv _ nz, of n] room un by auto
  obtain heap where h: "mem_store (am_heap st1) p data = Some heap"
      "arena_inv env (st1\<lparr>am_heap := heap\<rparr>) arena ss os ((p, length data) # regs)"
    using store_region [OF a(3), of p "length data" 0 data] by auto
  then show ?thesis using a data(1) by (auto simp: dfk_arena_alloc_copy_def arena_room_def)
qed

lemma new_region_disjoint:
  "arena_inv env st arena ss os ((p, n) # regs) \<Longrightarrow> (q, k) \<in> set regs \<Longrightarrow> range_of p n \<inter> range_of q k = {}"
  by (force simp: arena_inv_def)

lemma region_kept:
  assumes "alloc_post env st ss' st' arena' os regs p n" "(q, length data) \<in> set regs"
    and "arena_inv env st arena ss os regs" "bytes_at (mem_bytes (am_heap st)) q data"
  shows "bytes_at (mem_bytes (am_heap st')) q data"
proof (rule bytes_at_cong [OF assms(4)])
  fix a
  assume a: "a \<in> range_of q (length data)"
  have "range_of p n \<inter> range_of q (length data) = {}"
    using assms(1,2) new_region_disjoint unfolding alloc_post_def by metis
  moreover have "a \<in> dom (mem_bytes (am_heap st))" using regions_allocated(1) [OF assms(3,2)] a by auto
  ultimately show "mem_bytes (am_heap st') a = mem_bytes (am_heap st) a"
    using assms(1) a by (auto simp: alloc_post_def)
qed

text \<open>An allocation with cleanup: the object is registered last.\<close>

lemma alloc_ex_spec:
  assumes ok: "alloc_ok env" and inv: "arena_inv env st arena ss os regs" and sz: "sz \<noteq> 0" "unat sz + 24 < 2 ^ 62"
    and ready: "arena_ready st ss" and c: "cleanup \<noteq> NULL"
  shows "dfk_arena_alloc_ex env st arena sz cleanup = Some (st, arena, NULL)
    \<or> (\<exists>st' arena' p ss'. dfk_arena_alloc_ex env st arena sz cleanup = Some (st', arena', p + sizeof_owc)
         \<and> arena_inv env st' arena' ss' (os @ [p]) ((p, 24 + unat sz) # regs)
         \<and> other_blocks st' ss' = other_blocks st ss \<and> p \<notin> set os \<and> p + sizeof_owc \<noteq> NULL
         \<and> am_owcs st' = (am_owcs st)(p \<mapsto> \<lparr>owc_cleanup = cleanup\<rparr>))"
proof -
  have un: "unat (sizeof_owc + sz) = 24 + unat sz"
    using sz(2) by (simp add: sizeof_owc_def unat_word_ariths)
  then have nz: "sizeof_owc + sz \<noteq> 0" by (metis add_is_0 unat_0 zero_neq_numeral)
  consider "dfk_arena_alloc env st arena (sizeof_owc + sz) = Some (st, arena, NULL)"
    | st1 arena1 p where "dfk_arena_alloc env st arena (sizeof_owc + sz) = Some (st1, arena1, p)"
        "alloc_post env st ss st1 arena1 os regs p (24 + unat sz)"
    using alloc_spec [OF ok inv nz _ ready] un sz(2) by auto
  then show ?thesis
  proof cases
    case 1
    then show ?thesis using sz(1) c by (simp add: dfk_arena_alloc_ex_def)
  next
    case 2
    obtain ss' where inv1: "arena_inv env st1 arena1 ss' os ((p, 24 + unat sz) # regs)" and p: "p \<noteq> NULL"
      and owcs: "am_owcs st1 = am_owcs st" and ob: "other_blocks st1 ss' = other_blocks st ss"
      using 2(2) by (auto simp: alloc_post_def)
    have reps: "list_rep (am_hooks st1) (arena_segments arena1) ss'" "list_rep (am_hooks st1) (arena_owc arena1) os"
      using inv1 by (simp_all add: arena_inv_def)
    have pin: "p \<in> range_of p (24 + unat sz)" by (rule head_in_range) simp
    then have fresh: "p \<notin> set ss'" using regions_allocated(3) [OF inv1, of "(p, 24 + unat sz)"] by auto
    have fresho: "p \<notin> set os"
    proof
      assume "p \<in> set os"
      then obtain k where k: "24 \<le> k" "(p, k) \<in> set regs" using inv by (auto simp: arena_inv_def)
      then show False using new_region_disjoint [OF inv1 k(2)] pin head_in_range [of k p] by auto
    qed
    obtain h1 h2 l' where h: "dfk_list_hook_init (fresh_hook (am_hooks st1) p) p = Some h1"
        "dfk_list_append h1 (arena_owc arena1) p = Some (h2, l')" "list_rep h2 l' (os @ [p])"
        "list_rep h2 (arena_segments arena1) ss'"
      by (rule link_fresh [OF reps(2,1) p fresho fresh]) (use owcs_disjoint(1) [OF inv1] in auto)
    let ?st = "st1\<lparr>am_hooks := h2, am_owcs := (am_owcs st1)(p \<mapsto> \<lparr>owc_cleanup = cleanup\<rparr>)\<rparr>"
    have "arena_inv env ?st (arena1\<lparr>arena_owc := l'\<rparr>) ss' (os @ [p]) ((p, 24 + unat sz) # regs)"
      using inv1 h(3,4)
      by (auto simp: arena_inv_def segment_ok_def in_segment_def intro!: exI [of _ "24 + unat sz"])
    moreover have "dfk_arena_alloc_ex env st arena sz cleanup = Some (?st, arena1\<lparr>arena_owc := l'\<rparr>, p + sizeof_owc)"
      using 2(1) h(1,2) sz(1) c p by (simp add: dfk_arena_alloc_ex_def)
    moreover have "other_blocks ?st ss' = other_blocks st ss" using ob by (simp add: other_blocks_def)
    moreover have "p + sizeof_owc \<noteq> NULL"
      using regions_allocated(2) [OF inv1, of "(p, 24 + unat sz)"] unat_add_fits [of p "24 + unat sz" 24]
      by (auto simp: sizeof_owc_def)
    ultimately show ?thesis
      using owcs fresho by (intro disjI2 exI [of _ ?st] exI [of _ "arena1\<lparr>arena_owc := l'\<rparr>"] exI [of _ p] exI [of _ ss']) simp
  qed
qed

subsection \<open>Release\<close>

definition cleanup_call :: "arena_mem \<Rightarrow> addr \<Rightarrow> addr \<times> addr" where
  "cleanup_call st a = (owc_cleanup (the (am_owcs st a)), a + sizeof_owc)"

lemma arena_cleanups_spec:
  assumes "list_rep (am_hooks st) l (xs @ ys)" "\<forall>a\<in>set ys. am_owcs st a \<noteq> None"
  shows "arena_cleanups st \<lparr>it_value = hd_or ys NULL\<rparr> \<lparr>it_value = NULL\<rparr> = Some (map (cleanup_call st) ys)"
  using assms
proof (induction ys arbitrary: xs)
  case Nil
  then show ?case using list_it_equal_spec [OF Nil(1)] by (subst arena_cleanups.simps) simp
next
  case (Cons a ys)
  have "a \<noteq> NULL" using list_rep_not_NULL [OF Cons.prems(1)] by auto
  then show ?case
    using Cons.IH [of "xs @ [a]"] Cons.prems list_it_equal_spec [OF Cons.prems(1)] list_it_next_spec [OF Cons.prems(1)]
    by (subst arena_cleanups.simps) (auto simp: cleanup_call_def)
qed

lemma arena_release_spec:
  assumes "list_rep (am_hooks st) l ss" "heap_ok env (am_heap st)" "set ss \<subseteq> dom (mem_blocks (am_heap st))"
  shows "\<exists>st' l'. arena_release env st l = Some (st', l') \<and> list_rep (am_hooks st') l' []
    \<and> mem_blocks (am_heap st') = (mem_blocks (am_heap st)) |` (- set ss) \<and> heap_ok env (am_heap st')"
  using assms
proof (induction ss arbitrary: st l)
  case Nil
  then show ?case using list_empty_spec [OF Nil(1)] by (subst arena_release.simps) (simp add: restrict_map_def)
next
  case (Cons s ss)
  obtain h l1 where pop: "dfk_list_pop_front (am_hooks st) l = Some (h, l1)" "list_rep h l1 ss"
    using list_pop_front_spec [OF Cons.prems(1)] by blast
  obtain n where "mem_blocks (am_heap st) s = Some n" using Cons.prems(3) by auto
  then obtain heap where free: "dfk__free env (am_heap st) s = Some heap" "heap_ok env heap"
      "mem_blocks heap = (mem_blocks (am_heap st))(s := None)"
    using heap_ok_free [OF Cons.prems(2)] by blast
  have d: "s \<notin> set ss" using list_rep_distinct [OF Cons.prems(1)] by simp
  let ?st = "st\<lparr>am_heap := heap, am_hooks := h\<rparr>"
  have "set ss \<subseteq> dom (mem_blocks (am_heap ?st))" using Cons.prems(3) free(3) d by auto
  then obtain st' l' where "arena_release env ?st l1 = Some (st', l')" "list_rep (am_hooks st') l' []"
      "mem_blocks (am_heap st') = mem_blocks heap |` (- set ss)" "heap_ok env (am_heap st')"
    using Cons.IH [of ?st l1] pop(2) free(2) by auto
  moreover have "((mem_blocks (am_heap st))(s := None)) |` (- set ss) = (mem_blocks (am_heap st)) |` (- set (s # ss))"
    by (auto simp: restrict_map_def fun_eq_iff)
  ultimately show ?case
    using list_empty_spec [OF Cons.prems(1)] list_front_spec [OF Cons.prems(1)] pop free
    by (subst arena_release.simps) simp
qed

lemma free_spec:
  assumes "arena_inv env st arena ss os regs"
  shows "\<exists>st' arena'. dfk_arena_free env st arena = Some (st', arena', map (cleanup_call st) os)
    \<and> mem_blocks (am_heap st') = (mem_blocks (am_heap st)) |` (- set ss)"
proof -
  have i: "list_rep (am_hooks st) (arena_segments arena) ss" "list_rep (am_hooks st) (arena_owc arena) os"
    "heap_ok env (am_heap st)" "\<forall>a\<in>set os. am_owcs st a \<noteq> None" "set ss \<subseteq> dom (mem_blocks (am_heap st))"
    using assms by (auto simp: arena_inv_def segment_ok_def)
  show ?thesis
    using arena_release_spec [OF i(1,3,5)] arena_cleanups_spec [of st "arena_owc arena" "[]" os] i(2,4)
      list_begin_spec [OF i(2)] list_end_spec [OF i(2)]
    by (auto simp: dfk_arena_free_def)
qed

section \<open>Properties\<close>

lemma init_spec:
  assumes "heap_ok env (am_heap st)" "64 < unat (DFK_ARENA_SEGMENT_SIZE env)"
  shows "\<exists>arena. dfk_arena_init st = Some arena \<and> arena_inv env st arena [] [] []"
proof -
  obtain l where "dfk_list_init (am_hooks st) = Some l" "list_rep (am_hooks st) l []"
    using list_init_spec by blast
  then show ?thesis using assms by (auto simp: dfk_arena_init_def arena_inv_def)
qed

text \<open>Copying a sequence of objects into an arena, with the addresses returned.\<close>

fun arena_copies ::
  "dfk_env \<Rightarrow> arena_mem \<Rightarrow> dfk_arena_t \<Rightarrow> byte list list \<Rightarrow> (arena_mem \<times> dfk_arena_t \<times> addr list) option" where
  "arena_copies env st arena [] = Some (st, arena, [])"
| "arena_copies env st arena (d # ds) = do {
     (st, arena, p) \<leftarrow> dfk_arena_alloc_copy env st arena d;
     (st, arena, ps) \<leftarrow> arena_copies env st arena ds;
     Some (st, arena, p # ps)
   }"

lemma alloc_copy_cases:
  assumes "alloc_ok env" "arena_inv env st arena ss os regs" "data \<noteq> []" "length data < 2 ^ 62"
    and "dfk_arena_alloc_copy env st arena data = Some (st', arena', p)"
  obtains "p = NULL" "st' = st" "arena' = arena"
    | ss' where "p \<noteq> NULL" "arena_inv env st' arena' ss' os ((p, length data) # regs)"
        "bytes_at (mem_bytes (am_heap st')) p data" "alloc_post env st ss st' arena' os regs p (length data)"
        "other_blocks st' ss' = other_blocks st ss"
proof (cases "arena_ready st ss")
  case True
  from alloc_copy_spec [OF assms(1-4) True] assms(5) show ?thesis
    using that by (auto simp: alloc_post_def)
next
  case False
  then show ?thesis
    using alloc_not_ready [OF assms(2) False] assms(3,5) by (simp add: dfk_arena_alloc_copy_def)
qed

abbreviation disjoint_regs :: "(addr \<times> nat) list \<Rightarrow> bool" where
  "disjoint_regs \<equiv> sorted_wrt (\<lambda>r r'. range_of (fst r) (snd r) \<inter> range_of (fst r') (snd r') = {})"

text \<open>The regions of the objects that were placed.\<close>

definition placed :: "addr list \<Rightarrow> byte list list \<Rightarrow> (addr \<times> nat) list" where
  "placed ps ds = map (\<lambda>(p, d). (p, length d)) (filter (\<lambda>(p, d). p \<noteq> NULL) (zip ps ds))"

lemma arena_copies_spec:
  assumes "alloc_ok env" "arena_inv env st arena ss os regs" "\<forall>d\<in>set ds. d \<noteq> [] \<and> length d < 2 ^ 62"
    and "arena_copies env st arena ds = Some (st', arena', ps)"
    and "\<forall>(p, d)\<in>kept. (p, length d) \<in> set regs \<and> bytes_at (mem_bytes (am_heap st)) p d"
  shows "\<exists>ss'. arena_inv env st' arena' ss' os (rev (placed ps ds) @ regs) \<and> length ps = length ds
    \<and> (\<forall>(p, d)\<in>kept \<union> set (zip ps ds). p \<noteq> NULL \<longrightarrow> bytes_at (mem_bytes (am_heap st')) p d)"
  using assms(2-)
proof (induction ds arbitrary: st arena ss regs ps kept)
  case Nil
  then show ?case by (intro exI [of _ ss]) (auto simp: placed_def)
next
  case (Cons d ds)
  obtain st1 arena1 p ps1 where a: "dfk_arena_alloc_copy env st arena d = Some (st1, arena1, p)"
      "arena_copies env st1 arena1 ds = Some (st', arena', ps1)" "ps = p # ps1"
    using Cons.prems(3) by (auto simp: bind_eq_Some_conv)
  have d: "d \<noteq> []" "length d < 2 ^ 62" "\<forall>d\<in>set ds. d \<noteq> [] \<and> length d < 2 ^ 62" using Cons.prems(2) by auto
  show ?case
  proof (rule alloc_copy_cases [OF assms(1) Cons.prems(1) d(1,2) a(1)])
    assume "p = NULL" "st1 = st" "arena1 = arena"
    then show ?thesis using Cons.IH [OF Cons.prems(1) d(3) _ Cons.prems(4)] a(2,3) by (fastforce simp: placed_def)
  next
    fix ss1
    assume p: "p \<noteq> NULL" "arena_inv env st1 arena1 ss1 os ((p, length d) # regs)"
      "bytes_at (mem_bytes (am_heap st1)) p d" "alloc_post env st ss st1 arena1 os regs p (length d)"
    have "\<forall>(q, e)\<in>insert (p, d) kept. (q, length e) \<in> set ((p, length d) # regs) \<and> bytes_at (mem_bytes (am_heap st1)) q e"
      using Cons.prems(4) p(3) region_kept [OF p(4) _ Cons.prems(1)] by fastforce
    from Cons.IH [OF p(2) d(3) a(2) this] a(3) p(1) show ?thesis by (fastforce simp: placed_def)
  qed
qed

text \<open>
  C10. Objects copied into an arena stay intact: if a sequence of copies into a fresh arena runs
  to its end, every object it could place still holds its bytes, and no two of them overlap.
\<close>

theorem arena_copies_intact:
  assumes "alloc_ok env" "heap_ok env (am_heap st)" "64 < unat (DFK_ARENA_SEGMENT_SIZE env)"
    and "dfk_arena_init st = Some arena" "\<forall>d\<in>set ds. d \<noteq> [] \<and> length d < 2 ^ 62"
    and "arena_copies env st arena ds = Some (st', arena', ps)"
  shows "(\<forall>(p, d)\<in>set (zip ps ds). p \<noteq> NULL \<longrightarrow> bytes_at (mem_bytes (am_heap st')) p d)
    \<and> disjoint_regs (placed ps ds) \<and> length ps = length ds"
proof -
  have inv: "arena_inv env st arena [] [] []" using init_spec [OF assms(2,3)] assms(4) by auto
  obtain ss' where "arena_inv env st' arena' ss' [] (rev (placed ps ds) @ [])" "length ps = length ds"
      "\<forall>(p, d)\<in>{} \<union> set (zip ps ds). p \<noteq> NULL \<longrightarrow> bytes_at (mem_bytes (am_heap st')) p d"
    using arena_copies_spec [OF assms(1) inv assms(5,6), of "{}"] by auto
  then show ?thesis by (simp add: arena_inv_def sorted_wrt_rev Int_commute)
qed

abbreviation fresh_arena_mem :: arena_mem where
  "fresh_arena_mem \<equiv> \<lparr>am_heap = \<lparr>mem_bytes = \<lambda>_. None, mem_blocks = \<lambda>_. None\<rparr>, am_hooks = \<lambda>_. None,
     am_segs = \<lambda>_. None, am_owcs = \<lambda>_. None\<rparr>"

abbreviation fresh_arena :: dfk_arena_t where
  "fresh_arena \<equiv> \<lparr>arena_segments = \<lparr>list_head = NULL, list_tail = NULL, list_size = 0\<rparr>,
     arena_owc = \<lparr>list_head = NULL, list_tail = NULL, list_size = 0\<rparr>\<rparr>"

lemma fresh_arena_init: "dfk_arena_init fresh_arena_mem = Some fresh_arena"
  by (simp add: dfk_arena_init_def dfk_list_init_def dfk__list_check_invariants_def)

text \<open>
  A defect of the arena: a segment's \<^verbatim>\<open>size\<close> excludes its header but its \<^verbatim>\<open>used\<close> mark includes
  it. After a first object of at least the segment size less two headers has been placed,
  every further allocation, of whatever size, fails the assertion \<^verbatim>\<open>seg->size > seg->used\<close>
  (where assertions are disabled, the available space wraps around).
\<close>

theorem arena_full_segment_aborts:
  assumes "alloc_ok env" "heap_ok env (am_heap st)" "64 < unat (DFK_ARENA_SEGMENT_SIZE env)"
    and "dfk_arena_init st = Some arena" "DFK_ARENA_SEGMENT_SIZE env - 64 \<le> sz" "unat sz < 2 ^ 62"
    and "dfk_arena_alloc env st arena sz = Some (st', arena', p)" "p \<noteq> NULL"
  shows "dfk_arena_alloc env st' arena' sz' = None"
proof -
  have inv: "arena_inv env st arena [] [] []" using init_spec [OF assms(2,3)] assms(4) by auto
  have seg: "unat (DFK_ARENA_SEGMENT_SIZE env - 64) = unat (DFK_ARENA_SEGMENT_SIZE env) - 64"
    "unat (DFK_ARENA_SEGMENT_SIZE env - 32) = unat (DFK_ARENA_SEGMENT_SIZE env) - 32"
    using assms(3) by (simp_all add: unat_sub word_le_nat_alt)
  then have nz: "sz \<noteq> 0" using assms(3,5) by (auto simp: word_le_nat_alt)
  have used: "unat (32 + sz) = 32 + unat sz" using assms(6) by (simp add: unat_word_ariths)
  obtain s where s: "arena_inv env st' arena' ([] @ [s]) [] ((s + sizeof_segment, unat sz) # [])"
      "am_segs st' s = Some \<lparr>seg_size = DFK_ARENA_SEGMENT_SIZE env - sizeof_segment, seg_used = sizeof_segment + sz\<rparr>"
    using alloc_new_segment [OF assms(1) inv nz assms(6)] assms(7,8) by auto
  have "\<not> arena_ready st' ([] @ [s])"
    using s(2) assms(3,5) seg used by (auto simp: arena_ready_def sizeof_segment_def word_less_nat_alt word_le_nat_alt)
  then show ?thesis by (rule alloc_not_ready [OF s(1)])
qed

lemma small_malloc:
  assumes "n \<noteq> 0" "unat n < 2 ^ 32"
  shows "\<exists>heap. dfk__malloc small_env (am_heap fresh_arena_mem) n = Some (heap, 4096)"
  using assms by (simp add: dfk__malloc_def small_env_def slot_alloc_def slots_def free_at_def ALIGNED_def)

lemma small_alloc:
  assumes "sz \<noteq> 0" "unat sz + 32 < 2 ^ 32"
  shows "\<exists>st arena. dfk_arena_alloc small_env fresh_arena_mem fresh_arena sz = Some (st, arena, 4128)"
proof -
  let ?n = "max 40960 (sz + sizeof_segment)"
  have "unat (sz + sizeof_segment) = unat sz + 32"
    using assms(2) by (simp add: sizeof_segment_def unat_word_ariths)
  then have "unat ?n = max 40960 (unat sz + 32)" by (simp add: max_def word_le_nat_alt)
  then have n: "?n \<noteq> 0" "unat ?n < 2 ^ 32" using assms(2) by (auto simp: max_def word_le_nat_alt split: if_splits)
  have reps: "list_rep (am_hooks fresh_arena_mem) (arena_segments fresh_arena) []" by (simp add: list_rep_Nil)
  obtain heap where heap: "dfk__malloc small_env (am_heap fresh_arena_mem) ?n = Some (heap, 4096)"
    using small_malloc [OF n] by blast
  obtain h1 h2 l' where "dfk_list_hook_init (fresh_hook (am_hooks fresh_arena_mem) 4096) 4096 = Some h1"
      "dfk_list_append h1 (arena_segments fresh_arena) 4096 = Some (h2, l')"
    by (rule link_fresh [OF reps reps, of 4096]) auto
  then show ?thesis
    using heap list_empty_spec [OF reps] assms(1)
    by (simp add: dfk_arena_alloc_def small_env_def) (simp add: sizeof_segment_def)
qed

lemma fresh_arena_ok:
  "heap_ok env (am_heap fresh_arena_mem)" "64 < unat (DFK_ARENA_SEGMENT_SIZE small_env)"
  by (simp_all add: heap_ok_def small_env_def)

theorem arena_full_segment_aborts_witness:
  "\<exists>st arena. dfk_arena_alloc small_env fresh_arena_mem fresh_arena 40896 = Some (st, arena, 4128)
     \<and> dfk_arena_alloc small_env st arena 1 = None"
proof -
  obtain st arena where a: "dfk_arena_alloc small_env fresh_arena_mem fresh_arena 40896 = Some (st, arena, 4128)"
    using small_alloc [of 40896] by auto
  from arena_full_segment_aborts [OF small_env_ok fresh_arena_ok fresh_arena_init _ _ a, of 1] a
  show ?thesis by (auto simp: small_env_def)
qed

theorem arena_copies_intact_witness:
  "\<exists>st arena. arena_copies small_env fresh_arena_mem fresh_arena [[1, 2, 3]] = Some (st, arena, [4128])
     \<and> bytes_at (mem_bytes (am_heap st)) 4128 [1, 2, 3]"
proof -
  obtain st1 arena1 where a: "dfk_arena_alloc small_env fresh_arena_mem fresh_arena 3 = Some (st1, arena1, 4128)"
    using small_alloc [of 3] by auto
  have inv: "arena_inv small_env fresh_arena_mem fresh_arena [] [] []"
    using init_spec [OF fresh_arena_ok] fresh_arena_init by auto
  have "arena_ready fresh_arena_mem []" by (simp add: arena_ready_def)
  then obtain st arena p where c: "dfk_arena_alloc_copy small_env fresh_arena_mem fresh_arena [1, 2, 3] = Some (st, arena, p)"
    using alloc_copy_spec [OF small_env_ok inv, of "[1, 2, 3]"] by auto
  then have "p = 4128" using a by (auto simp: dfk_arena_alloc_copy_def bind_eq_Some_conv split: if_splits)
  with c have run: "arena_copies small_env fresh_arena_mem fresh_arena [[1, 2, 3]] = Some (st, arena, [4128])" by simp
  from arena_copies_intact [OF small_env_ok fresh_arena_ok fresh_arena_init _ run] run show ?thesis by auto
qed

text \<open>
  The states of an arena a client can reach: any interleaving of the allocation functions, each
  with the cleanup calls that are due when the arena is released.
\<close>

inductive arena_reach :: "dfk_env \<Rightarrow> cmem \<Rightarrow> arena_mem \<Rightarrow> dfk_arena_t \<Rightarrow> (addr \<times> addr) list \<Rightarrow> bool" for env m0 where
  init: "dfk_arena_init st = Some arena \<Longrightarrow> am_heap st = m0 \<Longrightarrow> arena_reach env m0 st arena []"
| alloc: "arena_reach env m0 st arena due \<Longrightarrow> unat sz + 24 < 2 ^ 62 \<Longrightarrow>
    dfk_arena_alloc env st arena sz = Some (st', arena', p) \<Longrightarrow> arena_reach env m0 st' arena' due"
| copy: "arena_reach env m0 st arena due \<Longrightarrow> length data + 24 < 2 ^ 62 \<Longrightarrow>
    dfk_arena_alloc_copy env st arena data = Some (st', arena', p) \<Longrightarrow> arena_reach env m0 st' arena' due"
| alloc_ex: "arena_reach env m0 st arena due \<Longrightarrow> unat sz + 24 < 2 ^ 62 \<Longrightarrow>
    dfk_arena_alloc_ex env st arena sz cleanup = Some (st', arena', p) \<Longrightarrow>
    arena_reach env m0 st' arena' (if p = NULL then due else due @ [(cleanup, p)])"
| copy_ex: "arena_reach env m0 st arena due \<Longrightarrow> length data + 24 < 2 ^ 62 \<Longrightarrow>
    dfk_arena_alloc_copy_ex env st arena data cleanup = Some (st', arena', p) \<Longrightarrow>
    arena_reach env m0 st' arena' (if p = NULL then due else due @ [(cleanup, p)])"

definition arena_state :: "dfk_env \<Rightarrow> cmem \<Rightarrow> arena_mem \<Rightarrow> dfk_arena_t \<Rightarrow> (addr \<times> addr) list \<Rightarrow> bool" where
  "arena_state env m0 st arena due \<longleftrightarrow> (\<exists>ss os regs. arena_inv env st arena ss os regs
     \<and> due = map (cleanup_call st) os \<and> other_blocks st ss = mem_blocks m0)"

lemma cleanup_calls_cong: "am_owcs st' = am_owcs st \<Longrightarrow> map (cleanup_call st') os = map (cleanup_call st) os"
  by (simp add: cleanup_call_def)

lemma arena_state_alloc:
  assumes "alloc_ok env" "arena_state env m0 st arena due" "unat sz + 24 < 2 ^ 62"
    and "dfk_arena_alloc env st arena sz = Some (st', arena', p)"
  shows "arena_state env m0 st' arena' due"
proof -
  obtain ss os regs where s: "arena_inv env st arena ss os regs" "due = map (cleanup_call st) os" "other_blocks st ss = mem_blocks m0"
    using assms(2) by (auto simp: arena_state_def)
  have "sz \<noteq> 0" using assms(4) by (auto simp: dfk_arena_alloc_def)
  moreover have "arena_ready st ss" using alloc_not_ready [OF s(1), of sz] assms(4) by auto
  ultimately show ?thesis
    using alloc_spec [OF assms(1) s(1), of sz] assms(2-4) s(2,3)
    by (auto simp: alloc_post_def arena_state_def) (metis cleanup_calls_cong)
qed

lemma arena_state_copy:
  assumes "alloc_ok env" "arena_state env m0 st arena due" "length data + 24 < 2 ^ 62"
    and "dfk_arena_alloc_copy env st arena data = Some (st', arena', p)"
  shows "arena_state env m0 st' arena' due"
proof -
  obtain ss os regs where s: "arena_inv env st arena ss os regs" "due = map (cleanup_call st) os" "other_blocks st ss = mem_blocks m0"
    using assms(2) by (auto simp: arena_state_def)
  have d: "data \<noteq> []" "length data < 2 ^ 62" using assms(3,4) by (auto simp: dfk_arena_alloc_copy_def)
  show ?thesis
    using assms(2) s(2,3)
    by (cases rule: alloc_copy_cases [OF assms(1) s(1) d assms(4)])
      (auto simp: alloc_post_def arena_state_def, metis cleanup_calls_cong)
qed

lemma arena_state_alloc_ex:
  assumes "alloc_ok env" "arena_state env m0 st arena due" "unat sz + 24 < 2 ^ 62"
    and "dfk_arena_alloc_ex env st arena sz cleanup = Some (st', arena', p)"
  shows "arena_state env m0 st' arena' (if p = NULL then due else due @ [(cleanup, p)])"
proof -
  obtain ss os regs where s: "arena_inv env st arena ss os regs" "due = map (cleanup_call st) os" "other_blocks st ss = mem_blocks m0"
    using assms(2) by (auto simp: arena_state_def)
  have c: "sz \<noteq> 0" "cleanup \<noteq> NULL" and "dfk_arena_alloc env st arena (sizeof_owc + sz) \<noteq> None"
    using assms(4) by (auto simp: dfk_arena_alloc_ex_def bind_eq_Some_conv split: if_splits)
  then have ready: "arena_ready st ss" using alloc_not_ready [OF s(1), of "sizeof_owc + sz"]
    by (cases "arena_ready st ss") auto
  consider "st' = st" "arena' = arena" "p = NULL"
    | q ss' where "p = q + sizeof_owc" "arena_inv env st' arena' ss' (os @ [q]) ((q, 24 + unat sz) # regs)"
        "other_blocks st' ss' = other_blocks st ss" "q \<notin> set os" "p \<noteq> NULL"
        "am_owcs st' = (am_owcs st)(q \<mapsto> \<lparr>owc_cleanup = cleanup\<rparr>)"
    using alloc_ex_spec [OF assms(1) s(1) c(1) assms(3) ready c(2)] assms(4) by auto
  then show ?thesis
  proof cases
    case 1
    then show ?thesis using assms(2) by simp
  next
    case 2
    then have "map (cleanup_call st') (os @ [q]) = due @ [(cleanup, p)]" using s(2) by (auto simp: cleanup_call_def)
    then show ?thesis
      using 2 s(3) unfolding arena_state_def
      by (intro exI [of _ ss'] exI [of _ "os @ [q]"] exI [of _ "(q, 24 + unat sz) # regs"]) simp
  qed
qed

lemma store_bytes_dom: "store_bytes m p xs = Some m' \<Longrightarrow> dom m' = dom m"
  by (induction xs arbitrary: m p)
    (auto simp: store_def modify_def load_def bind_eq_Some_conv split: option.splits if_splits)

lemma arena_state_store:
  assumes "arena_state env m0 st arena due" "mem_store (am_heap st) p data = Some heap"
  shows "arena_state env m0 (st\<lparr>am_heap := heap\<rparr>) arena due"
proof -
  obtain b where b: "store_bytes (mem_bytes (am_heap st)) p data = Some b" "heap = am_heap st\<lparr>mem_bytes := b\<rparr>"
    using assms(2) by (auto simp: mem_store_def bind_eq_Some_conv)
  then have h: "mem_blocks heap = mem_blocks (am_heap st)" "dom (mem_bytes heap) = dom (mem_bytes (am_heap st))"
    using store_bytes_dom [OF b(1)] by simp_all
  obtain ss os regs where s: "arena_inv env st arena ss os regs" "due = map (cleanup_call st) os" "other_blocks st ss = mem_blocks m0"
    using assms(1) by (auto simp: arena_state_def)
  from arena_inv_bytes [OF s(1) h] s(2,3) h(1) cleanup_calls_cong [of "st\<lparr>am_heap := heap\<rparr>" st os] show ?thesis
    unfolding arena_state_def by (intro exI [of _ ss] exI [of _ os] exI [of _ regs]) (simp add: other_blocks_def)
qed

lemma arena_reach_state:
  assumes "alloc_ok env" "heap_ok env m0" "64 < unat (DFK_ARENA_SEGMENT_SIZE env)"
    and "arena_reach env m0 st arena due"
  shows "arena_state env m0 st arena due"
  using assms(4)
proof (induction rule: arena_reach.induct)
  case (init st arena)
  then have "arena_inv env st arena [] [] []" using init_spec [of env st] assms(2,3) by auto
  then show ?case
    using init by (auto simp: arena_state_def other_blocks_def intro!: exI [of _ "[]"])
next
  case (alloc st arena due sz st' arena' p)
  then show ?case using arena_state_alloc [OF assms(1)] by blast
next
  case (copy st arena due data st' arena' p)
  then show ?case using arena_state_copy [OF assms(1)] by blast
next
  case (alloc_ex st arena due sz cleanup st' arena' p)
  then show ?case using arena_state_alloc_ex [OF assms(1)] by blast
next
  case (copy_ex st arena due data cleanup st' arena' p)
  have "unat (of_nat (length data) :: size_t) = length data" using copy_ex.hyps by (simp add: unat_of_nat_addr)
  moreover obtain st1 where "dfk_arena_alloc_ex env st arena (of_nat (length data)) cleanup = Some (st1, arena', p)"
      "p \<noteq> NULL \<longrightarrow> (\<exists>heap. mem_store (am_heap st1) p data = Some heap \<and> st' = st1\<lparr>am_heap := heap\<rparr>)" "p = NULL \<longrightarrow> st' = st1"
    using copy_ex.hyps by (auto simp: dfk_arena_alloc_copy_ex_def bind_eq_Some_conv split: if_splits)
  ultimately show ?case
    using arena_state_alloc_ex [OF assms(1) copy_ex.IH, of "of_nat (length data)" cleanup st1 arena' p]
      arena_state_store [of env m0 st1 arena' _ p data] copy_ex.hyps(2) by auto
qed

text \<open>
  C30. Releasing an arena: in every state a client can reach by any interleaving of the four
  allocation functions, \<^verbatim>\<open>dfk_arena_free\<close> terminates without a failed assert or a double free, calls
  the registered cleanups exactly once each in the order of registration, and afterwards the
  blocks of the heap are exactly those from before the arena.
\<close>

theorem arena_free_correct:
  assumes "alloc_ok env" "heap_ok env m0" "64 < unat (DFK_ARENA_SEGMENT_SIZE env)"
    and "arena_reach env m0 st arena due"
  shows "\<exists>st' arena'. dfk_arena_free env st arena = Some (st', arena', due)
    \<and> mem_blocks (am_heap st') = mem_blocks m0"
proof -
  obtain ss os regs where s: "arena_inv env st arena ss os regs" "due = map (cleanup_call st) os" "other_blocks st ss = mem_blocks m0"
    using arena_reach_state [OF assms] by (auto simp: arena_state_def)
  from free_spec [OF s(1)] s(2,3) show ?thesis by (auto simp: other_blocks_def)
qed

theorem arena_free_correct_witness:
  "\<exists>st arena st' arena'. dfk_arena_alloc small_env fresh_arena_mem fresh_arena 8 = Some (st, arena, 4128)
    \<and> dfk_arena_free small_env st arena = Some (st', arena', []) \<and> mem_blocks (am_heap st') = (\<lambda>_. None)"
proof -
  obtain st arena where a: "dfk_arena_alloc small_env fresh_arena_mem fresh_arena 8 = Some (st, arena, 4128)"
    using small_alloc [of 8] by auto
  have "arena_reach small_env (am_heap fresh_arena_mem) fresh_arena_mem fresh_arena []"
    by (rule arena_reach.init [OF fresh_arena_init]) simp
  then have "arena_reach small_env (am_heap fresh_arena_mem) st arena []"
    by (rule arena_reach.alloc) (use a in auto)
  from arena_free_correct [OF small_env_ok fresh_arena_ok this] a show ?thesis by auto
qed

end
