(* ===== verification/Dfk_Strmap_Arena.thy ===== *)
theory Dfk_Strmap_Arena
  imports Dfk_Strmap Dfk_Arena
begin

text \<open>
  The constructors of \<^verbatim>\<open>src/strmap.c\<close> that place an item and its copies in an arena. Key and value
  of an item are modelled by their contents; the bytes copied into the arena are also stored at
  the addresses the arena returns.
\<close>

text \<open>The size of an item: an AVL hook of 32 bytes and two buffers of 16 bytes.\<close>

definition sizeof_strmap_item :: size_t where
  "sizeof_strmap_item = 64"

text \<open>The memory the constructors work on: the arena's, the AVL hooks and the items.\<close>

record strmap_mem =
  sm_arena :: arena_mem
  sm_hooks :: avl_hooks
  sm_items :: strmap_items

text \<open>The last step of all three: an item in the arena, or \<^verbatim>\<open>NULL\<close>.\<close>

definition strmap_item_anew ::
  "dfk_env \<Rightarrow> strmap_mem \<Rightarrow> dfk_arena_t \<Rightarrow> byte list \<Rightarrow> byte list option \<Rightarrow> (strmap_mem \<times> dfk_arena_t \<times> addr) option" where
  "strmap_item_anew env st arena key value = do {
     (am, arena, item) \<leftarrow> dfk_arena_alloc env (sm_arena st) arena sizeof_strmap_item;
     let st = st\<lparr>sm_arena := am\<rparr>;
     if item = NULL then Some (st, arena, NULL)
     else do {
       let h = (sm_hooks st)(item \<mapsto> hook 0xDEADBEEF 0xDEADBEEF 0xDEADBEEF 0);
       (h, items) \<leftarrow> dfk_strmap_item_init h (sm_items st) item key value;
       Some (st\<lparr>sm_hooks := h, sm_items := items\<rparr>, arena, item)
     }
   }"

definition dfk_strmap_item_acopy ::
  "dfk_env \<Rightarrow> strmap_mem \<Rightarrow> dfk_arena_t \<Rightarrow> byte list \<Rightarrow> byte list option \<Rightarrow> (strmap_mem \<times> dfk_arena_t \<times> addr) option" where
  "dfk_strmap_item_acopy env st arena key value = do {
     c_assert (key \<noteq> []);
     (am, arena, pkey) \<leftarrow> dfk_arena_alloc_copy env (sm_arena st) arena key;
     let st = st\<lparr>sm_arena := am\<rparr>;
     if pkey = NULL then Some (st, arena, NULL)
     else do {
       (am, arena, pvalue) \<leftarrow> dfk_arena_alloc_copy env (sm_arena st) arena (bytes_of value);
       let st = st\<lparr>sm_arena := am\<rparr>;
       if pvalue = NULL then Some (st, arena, NULL)
       else strmap_item_anew env st arena key (Some (bytes_of value))
     }
   }"

definition dfk_strmap_item_acopy_key ::
  "dfk_env \<Rightarrow> strmap_mem \<Rightarrow> dfk_arena_t \<Rightarrow> byte list \<Rightarrow> byte list option \<Rightarrow> (strmap_mem \<times> dfk_arena_t \<times> addr) option" where
  "dfk_strmap_item_acopy_key env st arena key value = do {
     c_assert (key \<noteq> []);
     (am, arena, pkey) \<leftarrow> dfk_arena_alloc_copy env (sm_arena st) arena key;
     let st = st\<lparr>sm_arena := am\<rparr>;
     if pkey = NULL then Some (st, arena, NULL)
     else strmap_item_anew env st arena key value
   }"

definition dfk_strmap_item_acopy_value ::
  "dfk_env \<Rightarrow> strmap_mem \<Rightarrow> dfk_arena_t \<Rightarrow> byte list \<Rightarrow> byte list option \<Rightarrow> (strmap_mem \<times> dfk_arena_t \<times> addr) option" where
  "dfk_strmap_item_acopy_value env st arena key value = do {
     c_assert (key \<noteq> []);
     (am, arena, pvalue) \<leftarrow> dfk_arena_alloc_copy env (sm_arena st) arena (bytes_of value);
     let st = st\<lparr>sm_arena := am\<rparr>;
     if pvalue = NULL then Some (st, arena, NULL)
     else strmap_item_anew env st arena key (Some (bytes_of value))
   }"

section \<open>Properties\<close>

lemma item_init_fresh:
  assumes "item \<noteq> NULL" "key \<noteq> []"
  shows "dfk_strmap_item_init (h(item \<mapsto> v)) items item key value
    = Some (h(item \<mapsto> hook NULL NULL NULL 0), items(item \<mapsto> \<lparr>item_key = key, item_value = value\<rparr>))"
  using assms
  by (cases v) (simp add: dfk_strmap_item_init_def dfk_avltree_hook_init_def)

text \<open>What a constructor that returns an item has done to the hooks and the items.\<close>

definition placed_item :: "strmap_mem \<Rightarrow> strmap_mem \<Rightarrow> addr \<Rightarrow> byte list \<Rightarrow> byte list option \<Rightarrow> bool" where
  "placed_item st st' item key value \<longleftrightarrow> item_fresh (sm_hooks st') (sm_items st') item key value
     \<and> (\<forall>a. a \<noteq> item \<longrightarrow> sm_hooks st' a = sm_hooks st a \<and> sm_items st' a = sm_items st a)"

lemma item_anew_placed:
  assumes "strmap_item_anew env st arena key value = Some (st', arena', item)" "item \<noteq> NULL" "key \<noteq> []"
  shows "placed_item st st' item key value"
  using assms by (auto simp: strmap_item_anew_def bind_eq_Some_conv item_init_fresh placed_item_def item_fresh_def
      avl_fresh_def Let_def split: if_splits)

subsection \<open>With room in the arena\<close>

text \<open>
  \<open>item_made env arena ss os regs n st st' item key value\<close>: the constructor has returned an initialised item in a
  region of the arena that is disjoint from the regions handed out before, and \<open>n\<close> bytes are left.
\<close>

definition item_made ::
  "dfk_env \<Rightarrow> dfk_arena_t \<Rightarrow> addr list \<Rightarrow> addr list \<Rightarrow> (addr \<times> nat) list \<Rightarrow> nat \<Rightarrow> strmap_mem \<Rightarrow> strmap_mem \<Rightarrow> addr
    \<Rightarrow> byte list \<Rightarrow> byte list option \<Rightarrow> bool" where
  "item_made env arena ss os regs n st st' item key value \<longleftrightarrow> item \<noteq> NULL \<and> placed_item st st' item key value
     \<and> (\<exists>regs'. arena_inv env (sm_arena st') arena ss os (regs' @ regs) \<and> (item, 64) \<in> set regs')
     \<and> arena_room (sm_arena st') ss n"

lemma item_anew_room:
  assumes inv: "arena_inv env (sm_arena st) arena ss os regs" and room: "arena_room (sm_arena st) ss (64 + n)" and key: "key \<noteq> []"
  shows "\<exists>st' item. strmap_item_anew env st arena key value = Some (st', arena, item)
    \<and> item_made env arena ss os regs n st st' item key value
    \<and> am_heap (sm_arena st') = am_heap (sm_arena st) \<and> am_hooks (sm_arena st') = am_hooks (sm_arena st)"
proof -
  obtain am p where a: "dfk_arena_alloc env (sm_arena st) arena sizeof_strmap_item = Some (am, arena, p)" "p \<noteq> NULL"
      "arena_inv env am arena ss os ([(p, 64)] @ regs)" "arena_room am ss n" "am_heap am = am_heap (sm_arena st)" "am_hooks am = am_hooks (sm_arena st)"
    using alloc_room [OF inv, of sizeof_strmap_item n] room by (auto simp: sizeof_strmap_item_def)
  then obtain st' where r: "strmap_item_anew env st arena key value = Some (st', arena, p)" "sm_arena st' = am"
    using key by (auto simp: strmap_item_anew_def item_init_fresh)
  from item_anew_placed [OF r(1) a(2) key] have "item_made env arena ss os regs n st st' p key value"
    unfolding item_made_def using a r(2) by fastforce
  with r a(5,6) show ?thesis by blast
qed

lemma item_made_more:
  assumes "item_made env arena ss os (x # regs) n (st\<lparr>sm_arena := am\<rparr>) st' item key value"
  shows "item_made env arena ss os regs n st st' item key value"
proof -
  obtain regs' where "arena_inv env (sm_arena st') arena ss os ((regs' @ [x]) @ regs)" "(item, 64) \<in> set (regs' @ [x])"
    using assms by (auto simp: item_made_def)
  then show ?thesis using assms unfolding item_made_def placed_item_def by fastforce
qed

lemma acopy_value_room:
  assumes inv: "arena_inv env (sm_arena st) arena ss os regs" and room: "arena_room (sm_arena st) ss (length value + (64 + n))"
    and key: "key \<noteq> []" and val: "value \<noteq> []" "length value < 2 ^ 62"
  shows "\<exists>st' item. dfk_strmap_item_acopy_value env st arena key (Some value) = Some (st', arena, item)
    \<and> item_made env arena ss os regs n st st' item key (Some value)"
proof -
  obtain am p where a: "dfk_arena_alloc_copy env (sm_arena st) arena value = Some (am, arena, p)" "p \<noteq> NULL"
      "arena_inv env am arena ss os ([(p, length value)] @ regs)" "arena_room am ss (64 + n)"
    using alloc_copy_room [OF inv room val] by auto
  then obtain st' item where "strmap_item_anew env (st\<lparr>sm_arena := am\<rparr>) arena key (Some value) = Some (st', arena, item)"
      "item_made env arena ss os ((p, length value) # regs) n (st\<lparr>sm_arena := am\<rparr>) st' item key (Some value)"
    using item_anew_room [of env "st\<lparr>sm_arena := am\<rparr>" arena ss os "(p, length value) # regs" n key "Some value"] key by auto
  with a key show ?thesis by (auto simp: dfk_strmap_item_acopy_value_def bytes_of_def dest!: item_made_more)
qed

lemma acopy_key_room:
  assumes inv: "arena_inv env (sm_arena st) arena ss os regs" and room: "arena_room (sm_arena st) ss (length key + (64 + n))"
    and key: "key \<noteq> []" "length key < 2 ^ 62"
  shows "\<exists>st' item. dfk_strmap_item_acopy_key env st arena key v = Some (st', arena, item)
    \<and> item_made env arena ss os regs n st st' item key v"
proof -
  obtain am p where a: "dfk_arena_alloc_copy env (sm_arena st) arena key = Some (am, arena, p)" "p \<noteq> NULL"
      "arena_inv env am arena ss os ([(p, length key)] @ regs)" "arena_room am ss (64 + n)"
    using alloc_copy_room [OF inv room key] by auto
  then obtain st' item where "strmap_item_anew env (st\<lparr>sm_arena := am\<rparr>) arena key v = Some (st', arena, item)"
      "item_made env arena ss os ((p, length key) # regs) n (st\<lparr>sm_arena := am\<rparr>) st' item key v"
    using item_anew_room [of env "st\<lparr>sm_arena := am\<rparr>" arena ss os "(p, length key) # regs" n key v] key by auto
  with a key show ?thesis by (auto simp: dfk_strmap_item_acopy_key_def dest!: item_made_more)
qed

lemma acopy_room:
  assumes inv: "arena_inv env (sm_arena st) arena ss os regs"
    and room: "arena_room (sm_arena st) ss (length key + (length value + (64 + n)))"
    and key: "key \<noteq> []" "length key < 2 ^ 62" and val: "value \<noteq> []" "length value < 2 ^ 62"
  shows "\<exists>st' item. dfk_strmap_item_acopy env st arena key (Some value) = Some (st', arena, item)
    \<and> item_made env arena ss os regs n st st' item key (Some value)"
proof -
  obtain am p where a: "dfk_arena_alloc_copy env (sm_arena st) arena key = Some (am, arena, p)" "p \<noteq> NULL"
      "arena_inv env am arena ss os ([(p, length key)] @ regs)" "arena_room am ss (length value + (64 + n))"
    using alloc_copy_room [OF inv room key] by auto
  have "dfk_strmap_item_acopy env st arena key (Some value)
      = dfk_strmap_item_acopy_value env (st\<lparr>sm_arena := am\<rparr>) arena key (Some value)"
    using a(1,2) key by (simp add: dfk_strmap_item_acopy_def dfk_strmap_item_acopy_value_def)
  moreover obtain st' item where "dfk_strmap_item_acopy_value env (st\<lparr>sm_arena := am\<rparr>) arena key (Some value) = Some (st', arena, item)"
      "item_made env arena ss os ((p, length key) # regs) n (st\<lparr>sm_arena := am\<rparr>) st' item key (Some value)"
    using acopy_value_room [of env "st\<lparr>sm_arena := am\<rparr>" arena ss os "(p, length key) # regs" "value" n key] a key val by auto
  ultimately show ?thesis by (auto dest!: item_made_more)
qed

text \<open>
  The copying constructors of the string map on an arena: whenever one of them returns an
  item, the item is initialised with the key and the value it was given, and no other hook or
  item in memory has changed, so the item can be inserted into any map that does not contain it.
\<close>

theorem strmap_acopy_item:
  assumes "item \<noteq> NULL" "key \<noteq> []"
    and "dfk_strmap_item_acopy env st arena key value = Some (st', arena', item) \<and> v = Some (bytes_of value)
       \<or> dfk_strmap_item_acopy_value env st arena key value = Some (st', arena', item) \<and> v = Some (bytes_of value)
       \<or> dfk_strmap_item_acopy_key env st arena key value = Some (st', arena', item) \<and> v = value"
  shows "item_fresh (sm_hooks st') (sm_items st') item key v
     \<and> (\<forall>a. a \<noteq> item \<longrightarrow> sm_hooks st' a = sm_hooks st a \<and> sm_items st' a = sm_items st a)"
proof -
  have "\<exists>am arena1. strmap_item_anew env (st\<lparr>sm_arena := am\<rparr>) arena1 key v = Some (st', arena', item)"
    using assms by (auto simp: dfk_strmap_item_acopy_def dfk_strmap_item_acopy_value_def dfk_strmap_item_acopy_key_def
        bind_eq_Some_conv Let_def split: if_splits)
  then obtain am arena1 where "strmap_item_anew env (st\<lparr>sm_arena := am\<rparr>) arena1 key v = Some (st', arena', item)"
    by blast
  from item_anew_placed [OF this assms(1,2)] show ?thesis by (simp add: placed_item_def)
qed

abbreviation fresh_strmap_mem :: strmap_mem where
  "fresh_strmap_mem \<equiv> \<lparr>sm_arena = fresh_arena_mem, sm_hooks = \<lambda>_. None, sm_items = \<lambda>_. None\<rparr>"

text \<open>Two allocations in the concrete environment: a copied byte and an item behind it.\<close>

lemma small_copy_item:
  obtains am arena am' item where
    "dfk_arena_alloc_copy small_env fresh_arena_mem fresh_arena [75] = Some (am, arena, 4128)"
    "dfk_arena_alloc small_env am arena sizeof_strmap_item = Some (am', arena, item)" "item \<noteq> NULL"
proof -
  have inv: "arena_inv small_env fresh_arena_mem fresh_arena [] [] []"
    using init_spec [OF fresh_arena_ok] fresh_arena_init by auto
  obtain st arena where a: "dfk_arena_alloc small_env fresh_arena_mem fresh_arena 1 = Some (st, arena, 4128)"
    using small_alloc [of 1] by auto
  then obtain s where s: "s + sizeof_segment = 4128" "arena_inv small_env st arena ([] @ [s]) [] [(s + sizeof_segment, 1)]"
      "am_segs st s = Some \<lparr>seg_size = DFK_ARENA_SEGMENT_SIZE small_env - sizeof_segment, seg_used = sizeof_segment + 1\<rparr>"
    using alloc_new_segment [OF small_env_ok inv, of 1] by auto
  obtain heap where h: "mem_store (am_heap st) 4128 [75] = Some heap"
      "arena_inv small_env (st\<lparr>am_heap := heap\<rparr>) arena ([] @ [s]) [] [(4128, 1)]"
    using store_region [OF s(2), of 4128 1 0 "[75]"] s(1) by auto
  have c: "dfk_arena_alloc_copy small_env fresh_arena_mem fresh_arena [75] = Some (st\<lparr>am_heap := heap\<rparr>, arena, 4128)"
    using a h(1) by (simp add: dfk_arena_alloc_copy_def)
  show ?thesis
    using alloc_same_segment [OF h(2), of _ sizeof_strmap_item] s(3) c that
    by (auto simp: small_env_def sizeof_segment_def sizeof_strmap_item_def alloc_post_def)
qed

theorem strmap_acopy_item_witness:
  "\<exists>st' arena' item. dfk_strmap_item_acopy_key small_env fresh_strmap_mem fresh_arena [75] None = Some (st', arena', item)
     \<and> item_fresh (sm_hooks st') (sm_items st') item [75] None"
proof -
  obtain am arena am' item where a:
    "dfk_arena_alloc_copy small_env fresh_arena_mem fresh_arena [75] = Some (am, arena, 4128)"
    "dfk_arena_alloc small_env am arena sizeof_strmap_item = Some (am', arena, item)" "item \<noteq> NULL"
    by (rule small_copy_item)
  then obtain st' where r: "dfk_strmap_item_acopy_key small_env fresh_strmap_mem fresh_arena [75] None = Some (st', arena, item)"
    by (simp add: dfk_strmap_item_acopy_key_def strmap_item_anew_def item_init_fresh)
  with strmap_acopy_item [OF a(3), of "[75]" small_env fresh_strmap_mem fresh_arena None st' arena None]
  show ?thesis by auto
qed

text \<open>
  A defect of the same constructors: their assertions allow an empty value, which the arena's
  copy function does not. Copying an item with an empty value (or a null one of size 0) never
  returns an item: it aborts, unless the allocation of the key has already failed.
\<close>

theorem strmap_acopy_empty_value:
  assumes "bytes_of value = []"
  shows "dfk_strmap_item_acopy_value env st arena key value = None
    \<and> (dfk_strmap_item_acopy env st arena key value = None
       \<or> (\<exists>st' arena'. dfk_strmap_item_acopy env st arena key value = Some (st', arena', NULL)
            \<and> dfk_arena_alloc_copy env (sm_arena st) arena key = Some (sm_arena st', arena', NULL)))"
proof -
  have none: "dfk_arena_alloc_copy env am ar (bytes_of value) = None" for am ar
    using assms by (simp add: dfk_arena_alloc_copy_def)
  show ?thesis
    by (auto simp: dfk_strmap_item_acopy_value_def dfk_strmap_item_acopy_def none Let_def split: Option.bind_split)
qed

theorem strmap_acopy_empty_value_witness:
  "dfk_strmap_item_acopy_value small_env fresh_strmap_mem fresh_arena (str ''X-Empty'') (Some []) = None"
  using strmap_acopy_empty_value [of "Some []" small_env fresh_strmap_mem fresh_arena "str ''X-Empty''"]
  by (simp add: bytes_of_def)

end
