(* ===== verification/Dfk_Urlencoding.thy ===== *)
theory Dfk_Urlencoding
  imports Dfk_Memory
begin

text \<open>
  Percent-encoding of \<^verbatim>\<open>src/urlencoding.c\<close>. The lookup tables are transcribed; encoder and decoder
  run over byte memory with the pointers the code has, so that decoding in place (\<^verbatim>\<open>out == buf\<close>,
  as the request parser does it) is covered. They are related to functions on byte lists, for
  which the round trip and the exactness of the size hints are proved.
\<close>

section \<open>Tables\<close>

definition hex_to_byte :: "byte list" where
  "hex_to_byte = [
    0xFF, 0xFF, 0xFF, 0xFF, 0xFF, 0xFF, 0xFF, 0xFF,
    0xFF, 0xFF, 0xFF, 0xFF, 0xFF, 0xFF, 0xFF, 0xFF,
    0xFF, 0xFF, 0xFF, 0xFF, 0xFF, 0xFF, 0xFF, 0xFF,
    0xFF, 0xFF, 0xFF, 0xFF, 0xFF, 0xFF, 0xFF, 0xFF,
    0xFF, 0xFF, 0xFF, 0xFF, 0xFF, 0xFF, 0xFF, 0xFF,
    0xFF, 0xFF, 0xFF, 0xFF, 0xFF, 0xFF, 0xFF, 0xFF,
    0x00, 0x01, 0x02, 0x03, 0x04, 0x05, 0x06, 0x07,
    0x08, 0x09, 0xFF, 0xFF, 0xFF, 0xFF, 0xFF, 0xFF,
    0xFF, 0x0A, 0x0B, 0x0C, 0x0D, 0x0E, 0x0F, 0xFF,
    0xFF, 0xFF, 0xFF, 0xFF, 0xFF, 0xFF, 0xFF, 0xFF,
    0xFF, 0xFF, 0xFF, 0xFF, 0xFF, 0xFF, 0xFF, 0xFF,
    0xFF, 0xFF, 0xFF, 0xFF, 0xFF, 0xFF, 0xFF, 0xFF,
    0xFF, 0x0A, 0x0B, 0x0C, 0x0D, 0x0E, 0x0F, 0xFF,
    0xFF, 0xFF, 0xFF, 0xFF, 0xFF, 0xFF, 0xFF, 0xFF,
    0xFF, 0xFF, 0xFF, 0xFF, 0xFF, 0xFF, 0xFF, 0xFF,
    0xFF, 0xFF, 0xFF, 0xFF, 0xFF, 0xFF, 0xFF, 0xFF,
    0xFF, 0xFF, 0xFF, 0xFF, 0xFF, 0xFF, 0xFF, 0xFF,
    0xFF, 0xFF, 0xFF, 0xFF, 0xFF, 0xFF, 0xFF, 0xFF,
    0xFF, 0xFF, 0xFF, 0xFF, 0xFF, 0xFF, 0xFF, 0xFF,
    0xFF, 0xFF, 0xFF, 0xFF, 0xFF, 0xFF, 0xFF, 0xFF,
    0xFF, 0xFF, 0xFF, 0xFF, 0xFF, 0xFF, 0xFF, 0xFF,
    0xFF, 0xFF, 0xFF, 0xFF, 0xFF, 0xFF, 0xFF, 0xFF,
    0xFF, 0xFF, 0xFF, 0xFF, 0xFF, 0xFF, 0xFF, 0xFF,
    0xFF, 0xFF, 0xFF, 0xFF, 0xFF, 0xFF, 0xFF, 0xFF,
    0xFF, 0xFF, 0xFF, 0xFF, 0xFF, 0xFF, 0xFF, 0xFF,
    0xFF, 0xFF, 0xFF, 0xFF, 0xFF, 0xFF, 0xFF, 0xFF,
    0xFF, 0xFF, 0xFF, 0xFF, 0xFF, 0xFF, 0xFF, 0xFF,
    0xFF, 0xFF, 0xFF, 0xFF, 0xFF, 0xFF, 0xFF, 0xFF,
    0xFF, 0xFF, 0xFF, 0xFF, 0xFF, 0xFF, 0xFF, 0xFF,
    0xFF, 0xFF, 0xFF, 0xFF, 0xFF, 0xFF, 0xFF, 0xFF,
    0xFF, 0xFF, 0xFF, 0xFF, 0xFF, 0xFF, 0xFF, 0xFF,
    0xFF, 0xFF, 0xFF, 0xFF, 0xFF, 0xFF, 0xFF, 0xFF,
    0xFF, 0xFF, 0xFF, 0xFF, 0xFF, 0xFF, 0xFF, 0xFF,
    0xFF, 0xFF, 0xFF, 0xFF, 0xFF, 0xFF, 0xFF, 0xFF]"

definition bytelo_to_hex :: "byte list" where
  "bytelo_to_hex = [
    48, 49, 50, 51, 52, 53, 54, 55,
    56, 57, 65, 66, 67, 68, 69, 70,
    48, 49, 50, 51, 52, 53, 54, 55,
    56, 57, 65, 66, 67, 68, 69, 70,
    48, 49, 50, 51, 52, 53, 54, 55,
    56, 57, 65, 66, 67, 68, 69, 70,
    48, 49, 50, 51, 52, 53, 54, 55,
    56, 57, 65, 66, 67, 68, 69, 70,
    48, 49, 50, 51, 52, 53, 54, 55,
    56, 57, 65, 66, 67, 68, 69, 70,
    48, 49, 50, 51, 52, 53, 54, 55,
    56, 57, 65, 66, 67, 68, 69, 70,
    48, 49, 50, 51, 52, 53, 54, 55,
    56, 57, 65, 66, 67, 68, 69, 70,
    48, 49, 50, 51, 52, 53, 54, 55,
    56, 57, 65, 66, 67, 68, 69, 70,
    48, 49, 50, 51, 52, 53, 54, 55,
    56, 57, 65, 66, 67, 68, 69, 70,
    48, 49, 50, 51, 52, 53, 54, 55,
    56, 57, 65, 66, 67, 68, 69, 70,
    48, 49, 50, 51, 52, 53, 54, 55,
    56, 57, 65, 66, 67, 68, 69, 70,
    48, 49, 50, 51, 52, 53, 54, 55,
    56, 57, 65, 66, 67, 68, 69, 70,
    48, 49, 50, 51, 52, 53, 54, 55,
    56, 57, 65, 66, 67, 68, 69, 70,
    48, 49, 50, 51, 52, 53, 54, 55,
    56, 57, 65, 66, 67, 68, 69, 70,
    48, 49, 50, 51, 52, 53, 54, 55,
    56, 57, 65, 66, 67, 68, 69, 70,
    48, 49, 50, 51, 52, 53, 54, 55,
    56, 57, 65, 66, 67, 68, 69, 70,
    48, 49, 50, 51, 52, 53, 54, 55,
    56, 57, 65, 66, 67, 68, 69, 70]"

definition bytehi_to_hex :: "byte list" where
  "bytehi_to_hex = [
    48, 48, 48, 48, 48, 48, 48, 48,
    48, 48, 48, 48, 48, 48, 48, 48,
    49, 49, 49, 49, 49, 49, 49, 49,
    49, 49, 49, 49, 49, 49, 49, 49,
    50, 50, 50, 50, 50, 50, 50, 50,
    50, 50, 50, 50, 50, 50, 50, 50,
    51, 51, 51, 51, 51, 51, 51, 51,
    51, 51, 51, 51, 51, 51, 51, 51,
    52, 52, 52, 52, 52, 52, 52, 52,
    52, 52, 52, 52, 52, 52, 52, 52,
    53, 53, 53, 53, 53, 53, 53, 53,
    53, 53, 53, 53, 53, 53, 53, 53,
    54, 54, 54, 54, 54, 54, 54, 54,
    54, 54, 54, 54, 54, 54, 54, 54,
    55, 55, 55, 55, 55, 55, 55, 55,
    55, 55, 55, 55, 55, 55, 55, 55,
    56, 56, 56, 56, 56, 56, 56, 56,
    56, 56, 56, 56, 56, 56, 56, 56,
    57, 57, 57, 57, 57, 57, 57, 57,
    57, 57, 57, 57, 57, 57, 57, 57,
    65, 65, 65, 65, 65, 65, 65, 65,
    65, 65, 65, 65, 65, 65, 65, 65,
    66, 66, 66, 66, 66, 66, 66, 66,
    66, 66, 66, 66, 66, 66, 66, 66,
    67, 67, 67, 67, 67, 67, 67, 67,
    67, 67, 67, 67, 67, 67, 67, 67,
    68, 68, 68, 68, 68, 68, 68, 68,
    68, 68, 68, 68, 68, 68, 68, 68,
    69, 69, 69, 69, 69, 69, 69, 69,
    69, 69, 69, 69, 69, 69, 69, 69,
    70, 70, 70, 70, 70, 70, 70, 70,
    70, 70, 70, 70, 70, 70, 70, 70]"

section \<open>Decoding\<close>

text \<open>The size hint counts the percent signs; the subtraction is in \<^verbatim>\<open>size_t\<close>.\<close>

fun percent_count :: "byte mem \<Rightarrow> addr \<Rightarrow> nat \<Rightarrow> size_t \<Rightarrow> size_t option" where
  "percent_count m buf 0 s = Some s"
| "percent_count m buf (Suc n) s = do {
     c \<leftarrow> load m buf;
     percent_count m (buf + 1) n (if c = 37 then s + 2 else s)
   }"

definition dfk_urldecode_hint :: "byte mem \<Rightarrow> addr \<Rightarrow> size_t \<Rightarrow> size_t option" where
  "dfk_urldecode_hint m buf sz = do { s \<leftarrow> percent_count m buf (unat sz) 0; Some (sz - s) }"

text \<open>The loop returns the memory and the final values of \<^verbatim>\<open>buf\<close> and \<^verbatim>\<open>out\<close>.\<close>

partial_function (option) urldecode_loop :: "byte mem \<Rightarrow> addr \<Rightarrow> addr \<Rightarrow> addr \<Rightarrow> (byte mem \<times> addr \<times> addr) option" where
  "urldecode_loop m buf stop out =
     (if buf = stop then Some (m, buf, out) else do {
        c \<leftarrow> load m buf;
        if c = 37 then
          if stop \<le> buf + 2 then Some (m, buf, out)
          else do {
            b1 \<leftarrow> load m (buf + 1);
            b2 \<leftarrow> load m (buf + 2);
            let hi = hex_to_byte ! unat b1;
            let lo = hex_to_byte ! unat b2;
            if hi AND 0xF0 \<noteq> 0 \<or> lo AND 0xF0 \<noteq> 0 then Some (m, buf, out)
            else do {
              m \<leftarrow> store m out (push_bit 4 hi OR lo);
              urldecode_loop m (buf + 3) stop (out + 1)
            }
          }
        else do {
          m \<leftarrow> store m out c;
          urldecode_loop m (buf + 1) stop (out + 1)
        }
      })"

definition dfk_urldecode :: "byte mem \<Rightarrow> addr \<Rightarrow> size_t \<Rightarrow> addr \<Rightarrow> (byte mem \<times> size_t \<times> size_t) option" where
  "dfk_urldecode m buf sz out = do {
     c_assert (buf \<noteq> NULL \<or> sz = 0);
     c_assert (out \<noteq> NULL \<or> sz = 0);
     let stop = buf + sz;
     let initial_out = out;
     (m, buf, out) \<leftarrow> urldecode_loop m buf stop out;
     let nwritten = out - initial_out;
     Some (m, nwritten, buf - stop + sz)
   }"

section \<open>Encoding\<close>

definition dfk__urlencode_unreserved :: "byte \<Rightarrow> bool" where
  "dfk__urlencode_unreserved c \<longleftrightarrow> 97 \<le> c \<and> c \<le> 122 \<or> 65 \<le> c \<and> c \<le> 90 \<or> 48 \<le> c \<and> c \<le> 57
     \<or> c = 45 \<or> c = 46 \<or> c = 95 \<or> c = 126"

fun reserved_count :: "byte mem \<Rightarrow> addr \<Rightarrow> nat \<Rightarrow> size_t \<Rightarrow> size_t option" where
  "reserved_count m buf 0 s = Some s"
| "reserved_count m buf (Suc n) s = do {
     c \<leftarrow> load m buf;
     reserved_count m (buf + 1) n (if \<not> dfk__urlencode_unreserved c then s + 2 else s)
   }"

definition dfk_urlencode_hint :: "byte mem \<Rightarrow> addr \<Rightarrow> size_t \<Rightarrow> size_t option" where
  "dfk_urlencode_hint m buf sz = do { s \<leftarrow> reserved_count m buf (unat sz) 0; Some (sz + s) }"

fun urlencode_loop :: "byte mem \<Rightarrow> addr \<Rightarrow> nat \<Rightarrow> addr \<Rightarrow> (byte mem \<times> addr) option" where
  "urlencode_loop m buf 0 out = Some (m, out)"
| "urlencode_loop m buf (Suc n) out = do {
     b \<leftarrow> load m buf;
     if dfk__urlencode_unreserved b then do {
       m \<leftarrow> store m out b;
       urlencode_loop m (buf + 1) n (out + 1)
     } else do {
       m \<leftarrow> store m out 37;
       m \<leftarrow> store m (out + 1) (bytehi_to_hex ! unat b);
       m \<leftarrow> store m (out + 2) (bytelo_to_hex ! unat b);
       urlencode_loop m (buf + 1) n (out + 3)
     }
   }"

definition dfk_urlencode :: "byte mem \<Rightarrow> addr \<Rightarrow> size_t \<Rightarrow> addr \<Rightarrow> (byte mem \<times> size_t) option" where
  "dfk_urlencode m buf sz out = do {
     let original_out = out;
     (m, out) \<leftarrow> urlencode_loop m buf (unat sz) out;
     Some (m, out - original_out)
   }"

section \<open>Specification on byte lists\<close>

text \<open>The value of a hexadecimal digit, the digit of a value, and the two codecs.\<close>

definition unhex :: "byte \<Rightarrow> byte option" where
  "unhex c = (if 48 \<le> c \<and> c \<le> 57 then Some (c - 48)
     else if 65 \<le> c \<and> c \<le> 70 then Some (c - 55)
     else if 97 \<le> c \<and> c \<le> 102 then Some (c - 87) else None)"

definition hexdigit :: "byte \<Rightarrow> byte" where
  "hexdigit v = (if v < 10 then 48 + v else 55 + v)"

text \<open>The decoded bytes and the input that is left where decoding stops.\<close>

fun pct_decode :: "byte list \<Rightarrow> byte list \<times> byte list" where
  "pct_decode [] = ([], [])"
| "pct_decode (c # cs) =
     (if c = 37 then
        (case cs of
           h # l # cs' \<Rightarrow>
             (case (unhex h, unhex l) of
                (Some hi, Some lo) \<Rightarrow> (let (d, r) = pct_decode cs' in ((16 * hi + lo) # d, r))
              | _ \<Rightarrow> ([], c # cs))
         | _ \<Rightarrow> ([], c # cs))
      else (let (d, r) = pct_decode cs in (c # d, r)))"

definition pct_byte :: "byte \<Rightarrow> byte list" where
  "pct_byte b = (if dfk__urlencode_unreserved b then [b] else [37, hexdigit (b div 16), hexdigit (b mod 16)])"

definition pct_encode :: "byte list \<Rightarrow> byte list" where
  "pct_encode bs = concat (map pct_byte bs)"

subsection \<open>The tables compute the digits\<close>

lemma byte_nat: "unat (b :: byte) < 256" "of_nat (unat b) = b"
proof -
  have "unat b < 2 ^ LENGTH(8)" by (rule unsigned_less)
  then show "unat b < 256" by simp
qed simp

lemma table_nth: "take 256 xs = map f [0..<256] \<Longrightarrow> xs ! unat (b :: byte) = f (unat b)"
  using byte_nat(1) [of b] nth_take [of "unat b" 256 xs] by simp

lemma hex_to_byte_table:
  "take 256 hex_to_byte = map (\<lambda>i. case unhex (of_nat i) of None \<Rightarrow> 0xFF | Some v \<Rightarrow> v) [0..<256]"
  by code_simp

lemma bytehi_table: "take 256 bytehi_to_hex = map (\<lambda>i. hexdigit (of_nat i div 16)) [0..<256]"
  by code_simp

lemma bytelo_table: "take 256 bytelo_to_hex = map (\<lambda>i. hexdigit (of_nat i mod 16)) [0..<256]"
  by code_simp

lemma hex_to_byte_nth: "hex_to_byte ! unat b = (case unhex b of None \<Rightarrow> 0xFF | Some v \<Rightarrow> v)"
  using table_nth [OF hex_to_byte_table, of b] by (simp add: byte_nat)

lemma byte_to_hex_nth:
  "bytehi_to_hex ! unat b = hexdigit (b div 16)" "bytelo_to_hex ! unat b = hexdigit (b mod 16)"
  using table_nth [OF bytehi_table, of b] table_nth [OF bytelo_table, of b] by (simp_all add: byte_nat)

lemma unhex_less: "unhex c = Some v \<Longrightarrow> v < 16"
  by (auto simp: unhex_def word_less_nat_alt word_le_nat_alt unat_sub split: if_splits)

lemma nibble_nat: "(v :: byte) < 16 \<Longrightarrow> \<exists>i\<in>set [0..<16]. v = of_nat i"
  by (rule bexI [of _ "unat v"]) (simp_all add: word_less_nat_alt)

lemma nibbles_join:
  "\<forall>i\<in>set [0..<16]. \<forall>j\<in>set [0..<16]. (of_nat i :: byte) AND 0xF0 = 0
     \<and> push_bit 4 (of_nat i :: byte) OR of_nat j = 16 * of_nat i + of_nat j"
  by code_simp

lemma nibbles:
  assumes "hi < 16" "lo < (16 :: byte)"
  shows "hi AND 0xF0 = 0" "push_bit 4 hi OR lo = 16 * hi + lo"
  using nibbles_join nibble_nat [OF assms(1)] nibble_nat [OF assms(2)] by blast+

lemma unhex_hexdigit_table:
  "\<forall>i\<in>set [0..<16]. unhex (hexdigit (of_nat i)) = Some (of_nat i) \<and> dfk__urlencode_unreserved (hexdigit (of_nat i))"
  by code_simp

lemma unhex_hexdigit: "v < 16 \<Longrightarrow> unhex (hexdigit v) = Some v" "v < 16 \<Longrightarrow> dfk__urlencode_unreserved (hexdigit v)"
  using unhex_hexdigit_table nibble_nat [of v] by blast+

lemma digit_values: "(b :: byte) div 16 < 16" "(b :: byte) mod 16 < 16" "16 * (b div 16) + b mod 16 = b"
proof -
  show "b div 16 < 16" using byte_nat(1) [of b] by (simp add: word_less_nat_alt unat_div)
  show "b mod 16 < 16" by (simp add: word_less_nat_alt unat_mod)
  show "16 * (b div 16) + b mod 16 = b" by (rule mult_div_mod_eq)
qed

subsection \<open>Facts about the codecs\<close>

lemma pct_byte_decode: "pct_decode (pct_byte b @ cs) = (let (d, r) = pct_decode cs in (b # d, r))"
proof (cases "dfk__urlencode_unreserved b")
  case True
  then have "b \<noteq> 37" by (auto simp: dfk__urlencode_unreserved_def)
  with True show ?thesis by (simp add: pct_byte_def)
next
  case False
  then show ?thesis by (simp add: pct_byte_def unhex_hexdigit digit_values)
qed

lemma pct_decode_encode: "pct_decode (pct_encode bs) = (bs, [])"
  by (induction bs) (simp_all add: pct_encode_def pct_byte_decode)

lemma pct_decode_len: "pct_decode cs = (d, r) \<Longrightarrow> length d + length r \<le> length cs"
  by (induction cs arbitrary: d r rule: pct_decode.induct)
    (fastforce split: if_splits list.splits option.splits prod.splits)+

lemma unhex_percent: "unhex 37 = None"
  by code_simp

lemma pct_decode_size: "pct_decode cs = (d, []) \<Longrightarrow> length cs = length d + 2 * count_list cs 37"
  by (induction cs arbitrary: d rule: pct_decode.induct)
    (auto simp: unhex_percent split: if_splits list.splits option.splits prod.splits)

section \<open>The memory-level functions\<close>

text \<open>
  Where the output may lie: not after the start of the input, as for decoding in place, or
  behind its end.
\<close>

definition out_clear :: "addr \<Rightarrow> nat \<Rightarrow> addr \<Rightarrow> bool" where
  "out_clear buf n out \<longleftrightarrow> unat out \<le> unat buf \<or> unat buf + n \<le> unat out"

lemma out_clear_store:
  assumes "bytes_at m buf xs" "out_clear buf (length xs) out" "0 < k" "k \<le> length xs" "fits out (Suc n)"
  shows "bytes_at (m(out \<mapsto> b)) (buf + of_nat k) (drop k xs)"
    "out_clear (buf + of_nat k) (length (drop k xs)) (out + 1)"
proof -
  have f: "fits buf (length xs)" using assms(1) by (rule bytes_at_fits)
  have k: "unat (buf + of_nat k) = unat buf + k" by (rule unat_add_fits [OF f assms(4)])
  have d: "bytes_at m (buf + of_nat k) (drop k xs)"
    using assms(1,4) bytes_at_append [of m buf "take k xs" "drop k xs"] by (simp add: min_absorb2)
  have "out \<notin> range_of (buf + of_nat k) (length (drop k xs))"
    using range_of_unat [OF bytes_at_fits [OF d], of out] k assms(2,3) by (auto simp: out_clear_def)
  then show "bytes_at (m(out \<mapsto> b)) (buf + of_nat k) (drop k xs)"
    by (auto intro: bytes_at_cong [OF d])
  show "out_clear (buf + of_nat k) (length (drop k xs)) (out + 1)"
    using assms(2,3,4) k unat_Suc_fits [OF assms(5)] by (auto simp: out_clear_def)
qed

lemma bytes_at_load: "bytes_at m p xs \<Longrightarrow> i < length xs \<Longrightarrow> load m (p + of_nat i) = Some (xs ! i)"
proof -
  assume b: "bytes_at m p xs" and i: "i < length xs"
  then have "p + of_nat i \<noteq> NULL" using fits_add [of p "length xs" i] by (simp add: bytes_at_def fits_def)
  then show ?thesis using b i by (simp add: bytes_at_def)
qed

text \<open>One output byte and the rest of the loop make the whole.\<close>

lemma urldecode_emit:
  assumes "bytes_at m buf xs" "out_clear buf (length xs) out" "0 < k" "k \<le> length xs"
    and "allocated m out (Suc (length d))"
    and "\<And>m1. bytes_at m1 (buf + of_nat k) (drop k xs) \<Longrightarrow> allocated m1 (out + 1) (length d) \<Longrightarrow>
           out_clear (buf + of_nat k) (length (drop k xs)) (out + 1) \<Longrightarrow>
           \<exists>m'. urldecode_loop m1 (buf + of_nat k) stop (out + 1) = Some (m', p, out + 1 + of_nat (length d))
             \<and> bytes_at m' (out + 1) d \<and> same_outside (range_of (out + 1) (length d)) m1 m'"
  shows "\<exists>m'. (do { m \<leftarrow> store m out b; urldecode_loop m (buf + of_nat k) stop (out + 1) })
             = Some (m', p, out + of_nat (Suc (length d)))
             \<and> bytes_at m' out (b # d) \<and> same_outside (range_of out (Suc (length d))) m m'"
proof -
  have fit: "fits out (Suc (length d))" and al: "out \<noteq> NULL" "out \<in> dom m" "allocated m (out + 1) (length d)"
    using assms(5) allocated_Suc [OF assms(5)] by (auto simp: allocated_def)
  have "same_outside {out} m (m(out \<mapsto> b))" using al(2) by auto
  from allocated_same_outside [OF al(3) this]
  obtain m' where m': "urldecode_loop (m(out \<mapsto> b)) (buf + of_nat k) stop (out + 1) = Some (m', p, out + 1 + of_nat (length d))"
    "bytes_at m' (out + 1) d" "same_outside (range_of (out + 1) (length d)) (m(out \<mapsto> b)) m'"
    using assms(6) out_clear_store [OF assms(1-4) fit] by blast
  from stored_first [OF fit al(2) m'(2,3)] m'(1) show ?thesis
    using al by (simp add: byte_simps algebra_simps)
qed

lemma stop_eq: "k \<le> length xs \<Longrightarrow> buf + of_nat k + of_nat (length (drop k xs)) = (buf + of_nat (length xs) :: addr)"
  by (simp add: add.assoc flip: of_nat_add)

lemma rest_eq:
  "k \<le> length xs \<Longrightarrow> n \<le> length (drop k xs) \<Longrightarrow>
    buf + of_nat k + of_nat (length (drop k xs) - n) = (buf + of_nat (length xs - n) :: addr)"
  by (simp add: add.assoc del: of_nat_add of_nat_diff flip: of_nat_add)

lemma stop_cmp:
  assumes "fits buf (length xs + 2)"
  shows "buf + of_nat (length xs) \<le> buf + 2 \<longleftrightarrow> length xs \<le> 2" "buf = buf + of_nat (length xs) \<longleftrightarrow> xs = []"
  using unat_add_fits [OF assms, of "length xs"] unat_add_fits [OF assms, of 2]
  by (auto simp: word_le_nat_alt)

text \<open>The loop stops at a percent sign that two hexadecimal digits do not follow.\<close>

lemma urldecode_stuck:
  assumes "bytes_at m buf xs" "xs = 37 # cs" "fits buf (length xs + 2)"
    and "\<nexists>h l cs' hi lo. cs = h # l # cs' \<and> unhex h = Some hi \<and> unhex l = Some lo"
  shows "urldecode_loop m buf (buf + of_nat (length xs)) out = Some (m, buf, out)"
proof -
  note simps = urldecode_loop.simps [of m buf "buf + of_nat (length xs)" out] stop_cmp [OF assms(3)]
  have l0: "load m buf = Some 37" using bytes_at_load [OF assms(1), of 0] assms(2) by simp
  show ?thesis
  proof (cases "length xs \<le> 2")
    case True
    then show ?thesis using simps l0 assms(2) by simp
  next
    case False
    then obtain h l cs' where cs: "cs = h # l # cs'"
      using assms(2) by (cases cs; cases "tl cs") auto
    with assms(4) have "unhex h = None \<or> unhex l = None" by auto
    then show ?thesis
      using bytes_at_load [OF assms(1), of 1] bytes_at_load [OF assms(1), of 2] cs False simps l0 assms(2)
      by (auto simp: hex_to_byte_nth split: option.splits)
  qed
qed

lemma urldecode_loop_spec:
  assumes "bytes_at m buf xs" "pct_decode xs = (d, r)" "allocated m out (length d)"
    and "out_clear buf (length xs) out" "fits buf (length xs + 2)"
  shows "\<exists>m'. urldecode_loop m buf (buf + of_nat (length xs)) out
      = Some (m', buf + of_nat (length xs - length r), out + of_nat (length d))
    \<and> bytes_at m' out d \<and> same_outside (range_of out (length d)) m m'"
  using assms
proof (induction "length xs" arbitrary: m buf xs d out rule: less_induct)
  case less
  let ?stop = "buf + of_nat (length xs)"
  have fd: "fits out (length d)" using less.prems(3) by (simp add: allocated_def)
  note simps = urldecode_loop.simps [of m buf ?stop out] stop_cmp [OF less.prems(5)]
  note loads = bytes_at_load [OF less.prems(1), of 0] bytes_at_load [OF less.prems(1), of 1]
    bytes_at_load [OF less.prems(1), of 2]
  have emit: "\<exists>m'. (do { m \<leftarrow> store m out b; urldecode_loop m (buf + of_nat k) ?stop (out + 1) })
             = Some (m', buf + of_nat (length xs - length r), out + of_nat (length d))
             \<and> bytes_at m' out d \<and> same_outside (range_of out (length d)) m m'"
    if k: "0 < k" "k \<le> length xs" and d: "d = b # d'" and dec: "pct_decode (drop k xs) = (d', r)" for k b d'
  proof -
    have r: "length r \<le> length (drop k xs)" using pct_decode_len [OF dec] by simp
    have "length xs + 2 - k = length (drop k xs) + 2" using k by simp
    with fits_add [OF less.prems(5), of k] k
    have fk: "fits (buf + of_nat k) (length (drop k xs) + 2)" by simp
    note IH = less.hyps [OF _ _ dec _ _ fk, unfolded stop_eq [OF k(2)] rest_eq [OF k(2) r]]
    show ?thesis
      unfolding d length_Cons
      by (rule urldecode_emit [OF less.prems(1,4) k])
        (use less.prems(3) d k in simp, use IH k in simp)
  qed
  show ?case
  proof (cases xs)
    case Nil
    then show ?thesis using less.prems simps fd by simp
  next
    case (Cons c cs)
    consider (plain) "c \<noteq> 37"
      | (code) h l cs' hi lo where "c = 37" "cs = h # l # cs'" "unhex h = Some hi" "unhex l = Some lo"
      | (stuck) "c = 37" "\<nexists>h l cs' hi lo. cs = h # l # cs' \<and> unhex h = Some hi \<and> unhex l = Some lo"
      by blast
    then show ?thesis
    proof cases
      case plain
      then obtain d' where "pct_decode cs = (d', r)" "d = c # d'"
        using less.prems(2) Cons by (auto split: prod.splits)
      with emit [of 1 c d'] Cons plain loads simps show ?thesis by simp
    next
      case code
      then obtain d' where "pct_decode cs' = (d', r)" "d = (16 * hi + lo) # d'"
        using less.prems(2) Cons by (auto split: prod.splits)
      with emit [of 3 "16 * hi + lo" d'] loads Cons code simps
        nibbles [OF unhex_less [OF code(3)] unhex_less [OF code(4)]]
        nibbles(1) [OF unhex_less [OF code(4)] unhex_less [OF code(4)]]
      show ?thesis by (simp add: hex_to_byte_nth numeral_3_eq_3 numeral_2_eq_2)
    next
      case stuck
      then have "d = []" "r = xs"
        using less.prems(2) Cons by (auto split: list.splits option.splits)
      then show ?thesis using urldecode_stuck [OF less.prems(1) _ less.prems(5) stuck(2)] Cons stuck(1) fd by simp
    qed
  qed
qed

lemma urlencode_loop_step:
  "load m buf = Some b \<Longrightarrow> urlencode_loop m buf (Suc n) out = do {
     m \<leftarrow> store_bytes m out (pct_byte b);
     urlencode_loop m (buf + 1) n (out + of_nat (length (pct_byte b)))
   }"
  by (simp add: pct_byte_def byte_to_hex_nth add.assoc)

lemma urlencode_loop_spec:
  assumes "bytes_at m buf xs" "allocated m out (length (pct_encode xs))"
    and "range_of buf (length xs) \<inter> range_of out (length (pct_encode xs)) = {}"
  shows "\<exists>m'. urlencode_loop m buf (length xs) out = Some (m', out + of_nat (length (pct_encode xs)))
    \<and> bytes_at m' out (pct_encode xs) \<and> same_outside (range_of out (length (pct_encode xs))) m m'"
  using assms
proof (induction xs arbitrary: m buf out)
  case Nil
  then show ?case by (simp add: pct_encode_def allocated_def)
next
  case (Cons b xs)
  let ?p = "pct_byte b" and ?e = "pct_encode xs"
  let ?out = "out + of_nat (length ?p)"
  have enc: "pct_encode (b # xs) = ?p @ ?e" by (simp add: pct_encode_def)
  have al: "allocated m out (length ?p)" "allocated m ?out (length ?e)"
    using Cons.prems(2) allocated_mono [of m out _ "length ?p"] allocated_sub [of m out _ "length ?p"] enc by auto
  have fit: "fits out (length ?p + length ?e)" using Cons.prems(2) enc by (simp add: allocated_def)
  have rng: "range_of out (length ?p + length ?e) = range_of out (length ?p) \<union> range_of ?out (length ?e)"
    by (rule range_of_append)
  obtain m1 where m1: "store_bytes m out ?p = Some m1" "bytes_at m1 out ?p" "same_outside (range_of out (length ?p)) m m1"
    using store_bytes_at [OF al(1)] by blast
  have xs: "bytes_at m (buf + 1) xs" and ld: "load m buf = Some b"
    using Cons.prems(1) by (auto simp: bytes_at_Cons fits_def)
  have sep: "range_of (buf + 1) (length xs) \<inter> range_of out (length ?p) = {}"
      "range_of (buf + 1) (length xs) \<inter> range_of ?out (length ?e) = {}"
    using Cons.prems(3) enc rng by (auto simp: range_of_Suc)
  obtain m' where m': "urlencode_loop m1 (buf + 1) (length xs) ?out = Some (m', ?out + of_nat (length ?e))"
      "bytes_at m' ?out ?e" "same_outside (range_of ?out (length ?e)) m1 m'"
    using Cons.IH [OF bytes_at_same_outside [OF xs m1(3) sep(1)] allocated_same_outside [OF al(2) m1(3)] sep(2)]
    by blast
  have "range_of out (length ?p) \<inter> range_of ?out (length ?e) = {}"
  proof (rule range_of_disjoint)
    show "fits out (length ?p)" by (rule fits_mono [OF fit]) simp
    show "fits ?out (length ?e)" using fits_add [OF fit, of "length ?p"] by simp
    show "unat out + length ?p \<le> unat ?out \<or> unat ?out + length ?e \<le> unat out"
      using unat_add_fits [OF fit, of "length ?p"] by simp
  qed
  then have "bytes_at m' out ?p" by (rule bytes_at_same_outside [OF m1(2) m'(3)])
  moreover have "same_outside (range_of out (length (pct_encode (b # xs)))) m m'"
    by (rule same_outside_join [OF m1(3) m'(3)]) (use enc rng in simp)
  ultimately show ?case
    using m1(1) m'(1,2) fit enc by (simp add: urlencode_loop_step [OF ld] bytes_at_append add.assoc del: urlencode_loop.simps)
qed

lemma reserved_count_spec:
  "bytes_at m buf xs \<Longrightarrow> reserved_count m buf (length xs) s = Some (s + of_nat (length (pct_encode xs) - length xs))"
  and pct_encode_len: "length xs \<le> length (pct_encode xs)"
proof (induction xs arbitrary: buf s)
  case (Cons b xs)
  {
    case 1
    then show ?case using Cons.IH(2)
      by (auto simp: bytes_at_Cons fits_def Cons.IH(1) pct_encode_def pct_byte_def Suc_diff_le algebra_simps)
  next
    case 2
    then show ?case using Cons.IH(2) by (auto simp: pct_encode_def pct_byte_def)
  }
qed (simp_all add: pct_encode_def)

lemma percent_count_spec:
  "bytes_at m buf xs \<Longrightarrow> percent_count m buf (length xs) s = Some (s + 2 * of_nat (count_list xs 37))"
  by (induction xs arbitrary: buf s) (auto simp: bytes_at_Cons fits_def algebra_simps)

lemma length_of_bytes: "bytes_at m p xs \<Longrightarrow> unat (of_nat (length xs) :: size_t) = length xs"
  using bytes_at_fits [of m p xs] by (simp add: fits_def unat_of_nat_addr)

lemma urldecode_spec:
  assumes "bytes_at m buf xs" "pct_decode xs = (d, r)" "allocated m out (length d)"
    and "out_clear buf (length xs) out" "fits buf (length xs + 2)"
  shows "\<exists>m'. dfk_urldecode m buf (of_nat (length xs)) out
      = Some (m', of_nat (length d), of_nat (length xs - length r))
    \<and> bytes_at m' out d \<and> same_outside (range_of out (length d)) m m'"
proof -
  have "length r \<le> length xs" using pct_decode_len [OF assms(2)] by simp
  moreover have "buf \<noteq> NULL" "out \<noteq> NULL" using assms(1,3) by (auto simp: bytes_at_def allocated_def fits_def)
  ultimately show ?thesis
    using urldecode_loop_spec [OF assms] by (auto simp: dfk_urldecode_def of_nat_diff)
qed

section \<open>Properties\<close>

text \<open>
  C34. Percent-decoding, also in place: on any input the decoder returns, has written exactly the
  decoded bytes, reports how many it wrote and how many input bytes it consumed, and touches no
  other memory. It stops at the first percent sign that two hexadecimal digits do not follow.
\<close>

theorem urldecode_correct:
  assumes "bytes_at m buf xs" "pct_decode xs = (d, r)" "allocated m out (length d)"
    and "out_clear buf (length xs) out" "fits buf (length xs + 2)"
  shows "\<exists>m'. dfk_urldecode m buf (of_nat (length xs)) out
      = Some (m', of_nat (length d), of_nat (length xs - length r))
    \<and> bytes_at m' out d \<and> same_outside (range_of out (length d)) m m'"
  by (rule urldecode_spec [OF assms])

definition sample_url :: "byte list" where
  "sample_url = [97, 37, 50, 48, 98, 37, 52]"

lemma sample_url_at: "bytes_at (put_bytes (\<lambda>_. None) 4096 sample_url) 4096 sample_url"
  by (rule put_bytes_at) (simp add: fits_def sample_url_def)

theorem urldecode_correct_witness:
  "\<exists>m'. dfk_urldecode (put_bytes (\<lambda>_. None) 4096 sample_url) 4096 7 4096 = Some (m', 3, 5)
    \<and> bytes_at m' 4096 [97, 32, 98]"
proof -
  have d: "pct_decode sample_url = ([97, 32, 98], [37, 52])" by code_simp
  have a: "allocated (put_bytes (\<lambda>_. None) 4096 sample_url) 4096 (length [97, 32, 98 :: byte])"
    by (rule allocated_mono [OF bytes_at_allocated [OF sample_url_at]]) (simp add: sample_url_def)
  show ?thesis
    using urldecode_correct [OF sample_url_at d a] by (auto simp: sample_url_def out_clear_def fits_def)
qed

text \<open>
  C12. Round trip: encoding a buffer into another one writes as many bytes as the size hint says,
  all of them unreserved characters or percent signs, and decoding the result in place gives the
  original bytes back, consuming all of it.
\<close>

theorem url_roundtrip:
  assumes "bytes_at m buf xs" "allocated m out (length (pct_encode xs))"
    and "range_of buf (length xs) \<inter> range_of out (length (pct_encode xs)) = {}"
    and "fits out (length (pct_encode xs) + 2)"
  shows "\<exists>m1 n m2. dfk_urlencode m buf (of_nat (length xs)) out = Some (m1, n)
    \<and> dfk_urlencode_hint m buf (of_nat (length xs)) = Some n
    \<and> (\<exists>e. bytes_at m1 out e \<and> length e = unat n \<and> (\<forall>c\<in>set e. dfk__urlencode_unreserved c \<or> c = 37))
    \<and> dfk_urldecode m1 out n out = Some (m2, of_nat (length xs), n)
    \<and> bytes_at m2 out xs \<and> bytes_at m2 buf xs"
proof -
  let ?e = "pct_encode xs"
  obtain m1 where m1: "urlencode_loop m buf (length xs) out = Some (m1, out + of_nat (length ?e))"
      "bytes_at m1 out ?e" "same_outside (range_of out (length ?e)) m m1"
    using urlencode_loop_spec [OF assms(1-3)] by blast
  have al: "allocated m1 out (length xs)"
    by (rule allocated_mono [OF bytes_at_allocated [OF m1(2)] pct_encode_len])
  obtain m2 where m2: "dfk_urldecode m1 out (of_nat (length ?e)) out = Some (m2, of_nat (length xs), of_nat (length ?e))"
      "bytes_at m2 out xs" "same_outside (range_of out (length xs)) m1 m2"
    using urldecode_loop_spec [OF m1(2) pct_decode_encode al _ assms(4)] assms(4)
    by (auto simp: dfk_urldecode_def out_clear_def fits_def)
  have "same_outside (range_of out (length ?e)) m m2"
    by (rule same_outside_join [OF m1(3) m2(3)]) (use range_of_mono [OF pct_encode_len] in auto)
  then have "bytes_at m2 buf xs" by (rule bytes_at_same_outside [OF assms(1) _ assms(3)])
  moreover have "dfk__urlencode_unreserved c \<or> c = 37" if "c \<in> set ?e" for c
    using that unhex_hexdigit(2) digit_values by (auto simp: pct_encode_def pct_byte_def split: if_splits)
  ultimately show ?thesis
    using m1 m2 reserved_count_spec [OF assms(1)] length_of_bytes [OF assms(1)] length_of_bytes [OF m1(2)]
      pct_encode_len [of xs]
    by (auto simp: dfk_urlencode_def dfk_urlencode_hint_def simp flip: of_nat_add)
qed

definition two_buffers :: "byte mem" where
  "two_buffers = put_bytes (put_bytes (\<lambda>_. None) 4096 [97, 32]) 8192 [0, 0, 0, 0]"

lemma two_buffers_at: "bytes_at two_buffers 4096 [97, 32]" "allocated two_buffers 8192 4"
proof -
  have "bytes_at (put_bytes (\<lambda>_. None) 4096 [97, 32]) 4096 [97, 32]"
    by (rule put_bytes_at) (simp add: fits_def)
  moreover have "range_of 4096 2 \<inter> range_of 8192 4 = {}"
    by (rule range_of_disjoint) (simp_all add: fits_def)
  ultimately show "bytes_at two_buffers 4096 [97, 32]"
    unfolding two_buffers_def by (elim bytes_at_cong) (rule put_bytes_outside, auto simp: eval_nat_numeral)
  have "bytes_at two_buffers 8192 [0, 0, 0, 0]"
    unfolding two_buffers_def by (rule put_bytes_at) (simp add: fits_def)
  from bytes_at_allocated [OF this] show "allocated two_buffers 8192 4" by (simp add: numeral_eq_Suc)
qed

theorem url_roundtrip_witness:
  "\<exists>m1 n m2. dfk_urlencode two_buffers 4096 2 8192 = Some (m1, n)
    \<and> dfk_urldecode m1 8192 n 8192 = Some (m2, 2, n) \<and> bytes_at m2 8192 [97, 32]"
proof -
  have e: "pct_encode [97, 32] = [97, 37, 50, 48]" by code_simp
  have l: "length (pct_encode [97, 32]) = 4" "length [97, 32 :: byte] = 2" by (simp_all add: e)
  have d: "range_of 4096 2 \<inter> range_of 8192 4 = {}" "fits 8192 (4 + 2)"
    by (rule range_of_disjoint) (simp_all add: fits_def)
  show ?thesis
    using url_roundtrip [OF two_buffers_at(1), of 8192, unfolded l, OF two_buffers_at(2) d] by auto
qed

text \<open>
  The size hint of the decoder is exact for input that decodes completely.
\<close>

theorem urldecode_hint_exact:
  assumes "bytes_at m buf xs" "pct_decode xs = (d, [])"
  shows "dfk_urldecode_hint m buf (of_nat (length xs)) = Some (of_nat (length d))"
  using percent_count_spec [OF assms(1), of 0] length_of_bytes [OF assms(1)] pct_decode_size [OF assms(2)]
  by (simp add: dfk_urldecode_hint_def)

theorem urldecode_hint_exact_witness:
  "dfk_urldecode_hint (put_bytes (\<lambda>_. None) 4096 [97, 37, 50, 48]) 4096 4 = Some 2"
proof -
  have "bytes_at (put_bytes (\<lambda>_. None) 4096 [97, 37, 50, 48]) 4096 [97, 37, 50, 48]"
    by (rule put_bytes_at) (simp add: fits_def)
  moreover have "pct_decode [97, 37, 50, 48] = ([97, 32], [])" by code_simp
  ultimately show ?thesis using urldecode_hint_exact by fastforce
qed

text \<open>
  A defect of the same hint: on malformed input its subtraction wraps around. For the single
  byte \<^verbatim>\<open>%\<close> at any address the hint is \<open>2\<^sup>6\<^sup>4 - 1\<close>, although nothing is decoded.
\<close>

theorem urldecode_hint_underflow:
  assumes "bytes_at m buf [37]"
  shows "dfk_urldecode_hint m buf 1 = Some 0xFFFFFFFFFFFFFFFF \<and> pct_decode [37] = ([], [37])"
  using percent_count_spec [OF assms, of 0] by (simp add: dfk_urldecode_hint_def)

theorem urldecode_hint_underflow_witness:
  "dfk_urldecode_hint (put_bytes (\<lambda>_. None) 4096 [37]) 4096 1 = Some 0xFFFFFFFFFFFFFFFF"
  by (rule urldecode_hint_underflow [THEN conjunct1], rule put_bytes_at) (simp add: fits_def)

end
