(* ===== verification/Dfk_Error.thy ===== *)
theory Dfk_Error
  imports Dfk_Prelude
begin

text \<open>The error codes of \<^verbatim>\<open>dfk/error.h\<close> and their messages (\<^verbatim>\<open>src/error.c\<close>).\<close>

datatype dfk_error_e =
    dfk_err_ok
  | dfk_err_eof
  | dfk_err_busy
  | dfk_err_nomem
  | dfk_err_notfound
  | dfk_err_badarg
  | dfk_err_sys
  | dfk_err_inprog
  | dfk_err_panic
  | dfk_err_not_implemented
  | dfk_err_overflow
  | dfk_err_protocol
  | dfk_err_timeout
  | dfk_err_connection_refused
  | dfk_err_stopped

text \<open>The values C gives the enumerators.\<close>

fun err_code :: "dfk_error_e \<Rightarrow> int" where
  "err_code dfk_err_ok = 0"
| "err_code dfk_err_eof = 1"
| "err_code dfk_err_busy = 2"
| "err_code dfk_err_nomem = 3"
| "err_code dfk_err_notfound = 4"
| "err_code dfk_err_badarg = 5"
| "err_code dfk_err_sys = 6"
| "err_code dfk_err_inprog = 7"
| "err_code dfk_err_panic = 8"
| "err_code dfk_err_not_implemented = 9"
| "err_code dfk_err_overflow = 10"
| "err_code dfk_err_protocol = 11"
| "err_code dfk_err_timeout = 12"
| "err_code dfk_err_connection_refused = 13"
| "err_code dfk_err_stopped = 14"

definition all_errors :: "dfk_error_e list" where
  "all_errors = [dfk_err_ok, dfk_err_eof, dfk_err_busy, dfk_err_nomem, dfk_err_notfound, dfk_err_badarg,
     dfk_err_sys, dfk_err_inprog, dfk_err_panic, dfk_err_not_implemented, dfk_err_overflow,
     dfk_err_protocol, dfk_err_timeout, dfk_err_connection_refused, dfk_err_stopped]"

text \<open>
  \<open>strerror\<close> is the C library's; \<open>sys_errno\<close> is \<^term>\<open>None\<close> when the context pointer is \<^verbatim>\<open>NULL\<close>.
\<close>

definition dfk_strerr :: "(int \<Rightarrow> string) \<Rightarrow> int option \<Rightarrow> int \<Rightarrow> string" where
  "dfk_strerr strerror sys_errno err =
     (if err = err_code dfk_err_ok then ''dfk_err_ok(0): No error''
      else if err = err_code dfk_err_eof then ''dfk_err_eof(1): End of file (stream, iterator)''
      else if err = err_code dfk_err_busy then ''dfk_err_busy(2): Resource is already acquired''
      else if err = err_code dfk_err_nomem then ''dfk_err_nomem(3): Memory allocation function returned NULL''
      else if err = err_code dfk_err_notfound then ''dfk_err_notfound(4): Object not found''
      else if err = err_code dfk_err_badarg then ''dfk_err_badarg(5): Bad argument''
      else if err = err_code dfk_err_sys then
        (case sys_errno of
           Some no \<Rightarrow> strerror no
         | None \<Rightarrow> ''dfk_err_sys(6): System error, dfk_t object is NULL, can not access sys_errno'')
      else if err = err_code dfk_err_inprog then ''dfk_err_inprog(7): The operation is already in progress''
      else if err = err_code dfk_err_panic then ''dfk_err_panic(8): Unexpected behaviour''
      else if err = err_code dfk_err_not_implemented then
        ''dfk_err_not_implemented(9): Functionality is not implemented yet''
      else if err = err_code dfk_err_overflow then
        ''dfk_err_overflow(10): Floating point, or integer overflow error''
      else if err = err_code dfk_err_protocol then ''dfk_err_protocol(11): Protocol violation''
      else if err = err_code dfk_err_timeout then ''dfk_err_timeout(12): Timeout has expired''
      else if err = err_code dfk_err_connection_refused then
        ''dfk_err_connection_refused(13): Another part refused the connection''
      else if err = err_code dfk_err_stopped then ''dfk_err_stopped(14): Method dfk_stop() have been called''
      else ''Unknown error'')"

lemma all_errors_complete: "e \<in> set all_errors"
  by (cases e) (simp_all add: all_errors_def)

lemma err_code_less: "0 \<le> err_code e" "err_code e < int (length all_errors)"
  by (cases e; simp add: all_errors_def)+

lemma all_errors_nth: "i < length all_errors \<Longrightarrow> err_code (all_errors ! i) = int i"
  by (auto simp: all_errors_def nth_Cons split: nat.splits)

text \<open>The code a message shows: the decimal number between its first parentheses.\<close>

definition shown_code :: "string \<Rightarrow> string" where
  "shown_code s = takeWhile (\<lambda>c. c \<noteq> CHR '')'') (tl (dropWhile (\<lambda>c. c \<noteq> CHR ''('') s))"

fun digits_value :: "string \<Rightarrow> int" where
  "digits_value [] = 0"
| "digits_value (c # cs) = (of_char c - 48) * 10 ^ length cs + digits_value cs"

text \<open>
  Error messages: without a context every error code has a message of its own, which shows
  the number C assigns to the enumerator, and every other integer is an unknown error.
\<close>

theorem strerr_codes:
  "digits_value (shown_code (dfk_strerr strerror None (err_code e))) = err_code e
   \<and> (dfk_strerr strerror None n = dfk_strerr strerror None (err_code e)) = (n = err_code e)
   \<and> (dfk_strerr strerror None n = ''Unknown error'') = (n < 0 \<or> 14 < n)"
proof (intro conjI)
  show shown: "digits_value (shown_code (dfk_strerr strerror None (err_code e))) = err_code e" for e
    by (cases e) (simp_all add: dfk_strerr_def shown_code_def)
  have unk: "dfk_strerr strerror None n = ''Unknown error''" if "n < 0 \<or> 14 < n"
    using that by (auto simp: dfk_strerr_def)
  have known: "\<exists>e'. n = err_code e'" if n: "\<not> (n < 0 \<or> 14 < n)"
  proof -
    have "length all_errors = 15" by (simp add: all_errors_def)
    then have "nat n < length all_errors" using n by linarith
    from all_errors_nth [OF this] show ?thesis using n by (auto intro!: exI [of _ "all_errors ! nat n"])
  qed
  have ne: "dfk_strerr strerror None (err_code e') \<noteq> ''Unknown error''" for e'
    by (cases e') (simp_all add: dfk_strerr_def)
  show "(dfk_strerr strerror None n = ''Unknown error'') = (n < 0 \<or> 14 < n)"
    using unk known ne by metis
  show "(dfk_strerr strerror None n = dfk_strerr strerror None (err_code e)) = (n = err_code e)"
    using unk known ne shown by metis
qed

end
