(* ===== verification/Dfk_Sponge.thy ===== *)
theory Dfk_Sponge
  imports Dfk_Memory Dfk_Error
begin

text \<open>
  The in-memory byte stream of \<^verbatim>\<open>src/sponge.c\<close>: one heap block, the unread bytes between \<^verbatim>\<open>cur\<close> and
  \<^verbatim>\<open>base + size\<close>, and reallocation when a write does not fit. The sponge refines a queue of bytes.
  The buffers of the caller are modelled by their contents, the sponge's own memory with its
  addresses and its allocator.
\<close>

section \<open>Data and operations\<close>

record dfk__sponge_t =
  sp_base :: addr
  sp_cur :: addr
  sp_size :: size_t
  sp_capacity :: size_t

definition dfk__sponge_check_invariants :: "dfk__sponge_t \<Rightarrow> unit option" where
  "dfk__sponge_check_invariants sponge =
     (if sp_base sponge = NULL then do {
        c_assert (sp_size sponge = 0);
        c_assert (sp_cur sponge = NULL);
        c_assert (sp_capacity sponge = 0)
      } else do {
        c_assert (sp_cur sponge \<noteq> NULL);
        c_assert (sp_base sponge \<le> sp_cur sponge);
        c_assert (sp_cur sponge \<le> sp_base sponge + sp_size sponge);
        c_assert (sp_base sponge + sp_size sponge \<le> sp_base sponge + sp_capacity sponge)
      })"

definition dfk__sponge_init :: dfk__sponge_t where
  "dfk__sponge_init = \<lparr>sp_base = NULL, sp_cur = NULL, sp_size = 0, sp_capacity = 0\<rparr>"

definition dfk__sponge_free :: "dfk_env \<Rightarrow> cmem \<Rightarrow> dfk__sponge_t \<Rightarrow> cmem option" where
  "dfk__sponge_free env m sponge = do {
     dfk__sponge_check_invariants sponge;
     if sp_base sponge \<noteq> NULL then dfk__free env m (sp_base sponge) else Some m
   }"

definition dfk__sponge_write ::
  "dfk_env \<Rightarrow> cmem \<Rightarrow> dfk__sponge_t \<Rightarrow> byte list \<Rightarrow> (cmem \<times> dfk__sponge_t \<times> dfk_error_e) option" where
  "dfk__sponge_write env m sponge buf = do {
     dfk__sponge_check_invariants sponge;
     c_assert (buf \<noteq> []);
     let nbytes = of_nat (length buf);
     if sp_capacity sponge = 0 then do {
       let toalloc = max nbytes (DFK_PAGE_SIZE env);
       (m, base) \<leftarrow> dfk__malloc env m toalloc;
       let sponge = sponge\<lparr>sp_base := base\<rparr>;
       if base = NULL then Some (m, sponge, dfk_err_nomem)
       else do {
         let sponge = sponge\<lparr>sp_cur := base, sp_size := nbytes, sp_capacity := toalloc\<rparr>;
         m \<leftarrow> mem_store m base buf;
         dfk__sponge_check_invariants sponge;
         Some (m, sponge, dfk_err_ok)
       }
     } else if nbytes \<le> sp_capacity sponge - sp_size sponge then do {
       m \<leftarrow> mem_store m (sp_base sponge + sp_size sponge) buf;
       let sponge = sponge\<lparr>sp_size := sp_size sponge + nbytes\<rparr>;
       dfk__sponge_check_invariants sponge;
       Some (m, sponge, dfk_err_ok)
     } else do {
       let nused = sp_base sponge + sp_size sponge - sp_cur sponge;
       let newsize = sp_capacity sponge + max (nused + nbytes) (sp_capacity sponge);
       (m, newbase) \<leftarrow> dfk__malloc env m newsize;
       if newbase = NULL then Some (m, sponge, dfk_err_nomem)
       else do {
         used \<leftarrow> mem_load m (sp_cur sponge) (unat nused);
         m \<leftarrow> mem_store m newbase used;
         m \<leftarrow> mem_store m (newbase + nused) buf;
         m \<leftarrow> dfk__free env m (sp_base sponge);
         let sponge = \<lparr>sp_base = newbase, sp_cur = newbase, sp_size = nused + nbytes, sp_capacity = newsize\<rparr>;
         dfk__sponge_check_invariants sponge;
         Some (m, sponge, dfk_err_ok)
       }
     }
   }"

fun sponge_writev_loop ::
  "dfk_env \<Rightarrow> cmem \<Rightarrow> dfk__sponge_t \<Rightarrow> byte list list \<Rightarrow> (cmem \<times> dfk__sponge_t \<times> dfk_error_e) option" where
  "sponge_writev_loop env m sponge [] = do {
     dfk__sponge_check_invariants sponge;
     Some (m, sponge, dfk_err_ok)
   }"
| "sponge_writev_loop env m sponge (v # iov) = do {
     (m, sponge, err) \<leftarrow> dfk__sponge_write env m sponge v;
     if err \<noteq> dfk_err_ok then Some (m, sponge, err) else sponge_writev_loop env m sponge iov
   }"

definition dfk__sponge_writev ::
  "dfk_env \<Rightarrow> cmem \<Rightarrow> dfk__sponge_t \<Rightarrow> byte list list \<Rightarrow> (cmem \<times> dfk__sponge_t \<times> dfk_error_e) option" where
  "dfk__sponge_writev env m sponge iov = do {
     dfk__sponge_check_invariants sponge;
     c_assert (iov \<noteq> []);
     sponge_writev_loop env m sponge iov
   }"

text \<open>A read returns the bytes put into the caller's buffer; their number is the result of the C function.\<close>

definition dfk__sponge_read :: "cmem \<Rightarrow> dfk__sponge_t \<Rightarrow> size_t \<Rightarrow> (dfk__sponge_t \<times> byte list) option" where
  "dfk__sponge_read m sponge nbytes = do {
     dfk__sponge_check_invariants sponge;
     c_assert (nbytes \<noteq> 0);
     if sp_size sponge = 0 then Some (sponge, [])
     else do {
       let toread = min nbytes (sp_base sponge + sp_size sponge - sp_cur sponge);
       out \<leftarrow> mem_load m (sp_cur sponge) (unat toread);
       let sponge = sponge\<lparr>sp_cur := sp_cur sponge + toread\<rparr>;
       dfk__sponge_check_invariants sponge;
       Some (sponge, out)
     }
   }"

fun sponge_readv_loop :: "cmem \<Rightarrow> dfk__sponge_t \<Rightarrow> size_t list \<Rightarrow> (dfk__sponge_t \<times> byte list list) option" where
  "sponge_readv_loop m sponge [] = do { dfk__sponge_check_invariants sponge; Some (sponge, []) }"
| "sponge_readv_loop m sponge (n # iov) = do {
     (sponge, out) \<leftarrow> dfk__sponge_read m sponge n;
     if out = [] then do { dfk__sponge_check_invariants sponge; Some (sponge, [[]]) }
     else do {
       (sponge, outs) \<leftarrow> sponge_readv_loop m sponge iov;
       Some (sponge, out # outs)
     }
   }"

definition dfk__sponge_readv :: "cmem \<Rightarrow> dfk__sponge_t \<Rightarrow> size_t list \<Rightarrow> (dfk__sponge_t \<times> byte list list) option" where
  "dfk__sponge_readv m sponge iov = do {
     dfk__sponge_check_invariants sponge;
     c_assert (iov \<noteq> []);
     sponge_readv_loop m sponge iov
   }"

section \<open>A sponge represents a queue of bytes\<close>

text \<open>
  \<open>sponge_rep env m0 (m, sponge) q\<close>: the unread bytes are \<open>q\<close>, and apart from the sponge's block the
  memory \<open>m\<close> is the memory \<open>m0\<close> in which the sponge was initialised.
\<close>

definition sponge_block :: "dfk_env \<Rightarrow> cmem \<Rightarrow> cmem \<Rightarrow> addr \<Rightarrow> nat \<Rightarrow> bool" where
  "sponge_block env m0 m base cap \<longleftrightarrow> block env m base cap
     \<and> mem_blocks m = (mem_blocks m0)(base \<mapsto> cap) \<and> base \<notin> dom (mem_blocks m0)
     \<and> (\<forall>a. a \<notin> range_of base cap \<longrightarrow> mem_bytes m a = mem_bytes m0 a)
     \<and> range_of base cap \<inter> dom (mem_bytes m0) = {}"

definition sponge_rep :: "dfk_env \<Rightarrow> cmem \<Rightarrow> cmem \<times> dfk__sponge_t \<Rightarrow> byte list \<Rightarrow> bool" where
  "sponge_rep env m0 s q = (case s of (m, sponge) \<Rightarrow>
     (if sp_capacity sponge = 0 then sponge = dfk__sponge_init \<and> q = [] \<and> m = m0
      else sponge_block env m0 m (sp_base sponge) (unat (sp_capacity sponge))
        \<and> (\<exists>used. length used + length q = unat (sp_size sponge) \<and> sp_size sponge \<le> sp_capacity sponge
             \<and> sp_cur sponge = sp_base sponge + of_nat (length used)
             \<and> bytes_at (mem_bytes m) (sp_base sponge) (used @ q))))"

lemma sponge_init_rep: "sponge_rep env m0 (m0, dfk__sponge_init) []"
  by (simp add: sponge_rep_def dfk__sponge_init_def)

lemma sponge_checked:
  assumes "block env m (sp_base sponge) (unat (sp_capacity sponge))" "sp_size sponge \<le> sp_capacity sponge"
    and "sp_cur sponge = sp_base sponge + of_nat n" "n \<le> unat (sp_size sponge)"
  shows "dfk__sponge_check_invariants sponge = Some ()"
proof -
  have f: "fits (sp_base sponge) (unat (sp_capacity sponge))" using assms(1) by (rule block_fits)
  have sz: "unat (sp_size sponge) \<le> unat (sp_capacity sponge)" using assms(2) by (simp add: word_le_nat_alt)
  have "unat (sp_cur sponge) = unat (sp_base sponge) + n"
    using unat_add_fits [OF f, of n] assms(3,4) sz by simp
  moreover have "unat (sp_base sponge + sp_size sponge) = unat (sp_base sponge) + unat (sp_size sponge)"
    using unat_add_fits [OF f, of "unat (sp_size sponge)"] sz by simp
  moreover have "unat (sp_base sponge + sp_capacity sponge) = unat (sp_base sponge) + unat (sp_capacity sponge)"
    using unat_add_fits [OF f, of "unat (sp_capacity sponge)"] by simp
  moreover have "sp_base sponge \<noteq> NULL" using assms(1) by (simp add: block_def)
  moreover from this have "unat (sp_base sponge) \<noteq> 0" by (simp add: unat_eq_0)
  ultimately show ?thesis
    using assms(4) sz by (auto simp: dfk__sponge_check_invariants_def word_le_nat_alt simp flip: unat_eq_0)
qed

lemma sponge_repI:
  assumes "sponge_block env m0 m base (unat cap)" "cap \<noteq> 0" "length used + length q = unat n" "n \<le> cap"
    and "bytes_at (mem_bytes m) base (used @ q)"
  shows "sponge_rep env m0 (m, \<lparr>sp_base = base, sp_cur = base + of_nat (length used), sp_size = n, sp_capacity = cap\<rparr>) q"
  using assms by (auto simp: sponge_rep_def)

lemma sponge_repE:
  assumes "sponge_rep env m0 (m, sponge) q" "sp_capacity sponge \<noteq> 0"
  obtains base used n cap where
    "sponge = \<lparr>sp_base = base, sp_cur = base + of_nat (length used), sp_size = n, sp_capacity = cap\<rparr>"
    "cap \<noteq> 0" "sponge_block env m0 m base (unat cap)" "length used + length q = unat n" "n \<le> cap"
    "bytes_at (mem_bytes m) base (used @ q)"
  using assms by (cases sponge) (auto simp: sponge_rep_def)

lemma sponge_rep_checked:
  assumes "sponge_rep env m0 (m, sponge) q"
  shows "dfk__sponge_check_invariants sponge = Some ()"
proof (cases "sp_capacity sponge = 0")
  case True
  then show ?thesis
    using assms by (simp add: sponge_rep_def dfk__sponge_init_def dfk__sponge_check_invariants_def)
next
  case False
  obtain base n cap and used :: "byte list" where
    "sponge = \<lparr>sp_base = base, sp_cur = base + of_nat (length used), sp_size = n, sp_capacity = cap\<rparr>"
    "sponge_block env m0 m base (unat cap)" "length used + length q = unat n" "n \<le> cap"
    by (rule sponge_repE [OF assms False])
  then show ?thesis using sponge_checked [of env m sponge "length used"] by (simp add: sponge_block_def)
qed

subsection \<open>Writing\<close>

lemma max_size_nat: "unat (max a b :: size_t) = max (unat a) (unat b)"
  by (simp add: max_def word_le_nat_alt)

lemma unat_length: "length bs < 2 ^ 62 \<Longrightarrow> unat (of_nat (length bs) :: size_t) = length bs"
  by (simp add: unat_of_nat_addr)

lemma sponge_block_store:
  assumes "sponge_block env m0 m base cap" "i + length bs \<le> cap"
  obtains m' where "mem_store m (base + of_nat i) bs = Some m'" "sponge_block env m0 m' base cap"
    "bytes_at (mem_bytes m') (base + of_nat i) bs"
    "same_outside (range_of (base + of_nat i) (length bs)) (mem_bytes m) (mem_bytes m')"
proof -
  have b: "block env m base cap" using assms(1) by (simp add: sponge_block_def)
  obtain m' where m': "mem_store m (base + of_nat i) bs = Some m'" "mem_blocks m' = mem_blocks m" "block env m' base cap"
    "bytes_at (mem_bytes m') (base + of_nat i) bs"
    "same_outside (range_of (base + of_nat i) (length bs)) (mem_bytes m) (mem_bytes m')"
    by (rule store_in_block [OF b assms(2)])
  have "mem_bytes m' a = mem_bytes m a" if "a \<notin> range_of base cap" for a
    using same_outside_eq [OF m'(5)] range_of_sub [OF assms(2), of base] that by blast
  then have "sponge_block env m0 m' base cap" using assms(1) m' by (auto simp: sponge_block_def)
  then show ?thesis using that m' by blast
qed

lemma sponge_block_new:
  assumes "block env m p n" "mem_blocks m = (mem_blocks m0)(p \<mapsto> n)" "p \<notin> dom (mem_blocks m0)"
    and "\<And>a. a \<notin> range_of p n \<Longrightarrow> mem_bytes m a = mem_bytes m0 a" "range_of p n \<inter> dom (mem_bytes m0) = {}"
  shows "sponge_block env m0 m p n"
  using assms by (simp add: sponge_block_def)

text \<open>
  When a write is refused: the bytes do not fit the block of the sponge, if it has one, and the allocator has no block of the size
  that is asked for.
\<close>

definition sponge_refuses :: "dfk_env \<Rightarrow> cmem \<times> dfk__sponge_t \<Rightarrow> byte list \<Rightarrow> bool" where
  "sponge_refuses env s bs = (case s of (m, sponge) \<Rightarrow>
     let nbytes = of_nat (length bs);
         nused = sp_base sponge + sp_size sponge - sp_cur sponge;
         wanted = (if sp_capacity sponge = 0 then max nbytes (DFK_PAGE_SIZE env)
                   else sp_capacity sponge + max (nused + nbytes) (sp_capacity sponge)) in
     (sp_capacity sponge = 0 \<or> \<not> nbytes \<le> sp_capacity sponge - sp_size sponge) \<and> dfk__malloc env m wanted = Some (m, NULL))"

lemma sponge_write_first:
  assumes ok: "alloc_ok env" "DFK_PAGE_SIZE env \<noteq> 0" and buf: "buf \<noteq> []" "length buf < 2 ^ 62"
  shows "sponge_refuses env (m0, dfk__sponge_init) buf
      \<and> dfk__sponge_write env m0 dfk__sponge_init buf = Some (m0, dfk__sponge_init, dfk_err_nomem)
    \<or> (\<exists>m' sponge'. \<not> sponge_refuses env (m0, dfk__sponge_init) buf
         \<and> dfk__sponge_write env m0 dfk__sponge_init buf = Some (m', sponge', dfk_err_ok)
         \<and> sponge_rep env m0 (m', sponge') buf)"
proof -
  let ?n = "max (of_nat (length buf)) (DFK_PAGE_SIZE env)"
  have un: "length buf \<le> unat ?n" "?n \<noteq> 0"
    using unat_length [OF buf(2)] ok(2) by (auto simp: max_size_nat word_le_nat_alt max_def split: if_splits)
  have chk: "dfk__sponge_check_invariants dfk__sponge_init = Some ()"
    by (rule sponge_rep_checked [OF sponge_init_rep])
  show ?thesis
  proof (cases rule: malloc_cases [OF ok(1) un(2), of m0, case_names nomem mem])
    case nomem
    then show ?thesis using buf chk by (simp add: dfk__sponge_write_def sponge_refuses_def) (simp add: dfk__sponge_init_def)
  next
    case (mem p m1)
    have sb: "sponge_block env m0 m1 p (unat ?n)" by (rule sponge_block_new) (use mem in auto)
    obtain m2 where m2: "mem_store m1 p buf = Some m2" "sponge_block env m0 m2 p (unat ?n)" "bytes_at (mem_bytes m2) p buf"
      using sponge_block_store [OF sb, of 0 buf] un(1) by auto
    let ?s = "\<lparr>sp_base = p, sp_cur = p, sp_size = of_nat (length buf), sp_capacity = ?n\<rparr>"
    have rep: "sponge_rep env m0 (m2, ?s) buf"
      using sponge_repI [OF m2(2) un(2), of "[]" buf "of_nat (length buf)"] m2(3) unat_length [OF buf(2)]
      by (simp add: max_def)
    then show ?thesis
      using mem m2(1) buf chk sponge_rep_checked [OF rep]
      by (auto simp: dfk__sponge_write_def dfk__sponge_init_def sponge_refuses_def Let_def)
  qed
qed

lemma sponge_write_fit:
  assumes "sponge_rep env m0 (m, sponge) q" "sp_capacity sponge \<noteq> 0" "buf \<noteq> []" "length buf < 2 ^ 62"
    and "of_nat (length buf) \<le> sp_capacity sponge - sp_size sponge"
  shows "\<exists>m' sponge'. \<not> sponge_refuses env (m, sponge) buf \<and> dfk__sponge_write env m sponge buf = Some (m', sponge', dfk_err_ok)
    \<and> sponge_rep env m0 (m', sponge') (q @ buf)"
proof -
  obtain base used n cap where s:
    "sponge = \<lparr>sp_base = base, sp_cur = base + of_nat (length used), sp_size = n, sp_capacity = cap\<rparr>"
    "cap \<noteq> 0" "sponge_block env m0 m base (unat cap)" "length used + length q = unat n" "n \<le> cap"
    "bytes_at (mem_bytes m) base (used @ q)"
    by (rule sponge_repE [OF assms(1,2)])
  have le: "unat n + length buf \<le> unat cap"
    using assms(5) s(1,5) unat_length [OF assms(4)] by (simp add: word_le_nat_alt unat_sub)
  have fit: "fits base (unat cap)" using s(3) block_fits by (auto simp: sponge_block_def)
  obtain m' where m': "mem_store m (base + n) buf = Some m'" "sponge_block env m0 m' base (unat cap)"
    "bytes_at (mem_bytes m') (base + n) buf"
    "same_outside (range_of (base + n) (length buf)) (mem_bytes m) (mem_bytes m')"
    using sponge_block_store [OF s(3), of "unat n" buf] le by auto
  have "range_of base (unat n) \<inter> range_of (base + n) (length buf) = {}"
    using split_range_disjoint [of base "unat n + length buf" "unat n"] fits_mono [OF fit le] by simp
  then have "bytes_at (mem_bytes m') base (used @ q)"
    using bytes_at_same_outside [OF s(6) m'(4)] s(4) by simp
  then have bytes: "bytes_at (mem_bytes m') base (used @ q @ buf)"
    using m'(3) s(4) fits_mono [OF fit le] bytes_at_append [of "mem_bytes m'" base "used @ q" buf]
    by (simp flip: of_nat_add)
  have "unat (n + of_nat (length buf)) = unat n + length buf"
    using le unat_of_nat_addr [of "unat n + length buf"] fit by (simp add: fits_def)
  then have rep: "sponge_rep env m0 (m', sponge\<lparr>sp_size := n + of_nat (length buf)\<rparr>) (q @ buf)"
    using sponge_repI [OF m'(2) s(2), of used "q @ buf" "n + of_nat (length buf)"] bytes s(1,4) le
    by (simp add: word_le_nat_alt)
  then show ?thesis
    using m'(1) assms(2,3,5) s(1) sponge_rep_checked [OF assms(1)] sponge_rep_checked [OF rep]
    by (auto simp: dfk__sponge_write_def sponge_refuses_def)
qed

text \<open>The old and the new block after an allocation.\<close>

lemma malloc_keeps_block:
  assumes "block env m p n" "range_of p' n' \<inter> dom (mem_bytes m) = {}" "p' \<notin> dom (mem_blocks m)"
    and "\<forall>a. a \<notin> range_of p' n' \<longrightarrow> mem_bytes m' a = mem_bytes m a" "mem_blocks m' = (mem_blocks m)(p' \<mapsto> n')"
  shows "block env m' p n" "range_of p n \<inter> range_of p' n' = {}" "p \<noteq> p'"
proof -
  show d: "range_of p n \<inter> range_of p' n' = {}" using block_dom [OF assms(1)] assms(2) by blast
  show ne: "p \<noteq> p'" using assms(1,3) by (auto simp: block_def)
  have "range_of p n \<subseteq> dom (mem_bytes m')"
    using block_dom [OF assms(1)] assms(4) d by (fastforce simp: dom_def)
  then show "block env m' p n" using block_keep [OF assms(1)] assms(5) ne by simp
qed

lemma bytes_at_tail: "bytes_at m p (xs @ ys) \<Longrightarrow> bytes_at m (p + of_nat (length xs)) ys"
  by (simp add: bytes_at_append)

lemma range_of_tail: "range_of (p + of_nat i) n \<subseteq> range_of p (i + n)"
  by (rule range_of_sub) simp

text \<open>Copying the unread bytes and the new ones into the new block.\<close>

lemma sponge_copy:
  assumes "block env m p n" "length q + length buf \<le> n"
  obtains m1 m2 where "mem_store m p q = Some m1" "mem_store m1 (p + of_nat (length q)) buf = Some m2"
    "mem_blocks m2 = mem_blocks m" "block env m2 p n" "bytes_at (mem_bytes m2) p (q @ buf)"
    "same_outside (range_of p n) (mem_bytes m) (mem_bytes m2)"
proof -
  obtain m1 where m1: "mem_store m p q = Some m1" "mem_blocks m1 = mem_blocks m" "block env m1 p n"
    "bytes_at (mem_bytes m1) p q" "same_outside (range_of p (length q)) (mem_bytes m) (mem_bytes m1)"
    by (rule store_in_block [OF assms(1), of 0 q]) (use assms(2) in auto)
  obtain m2 where m2: "mem_store m1 (p + of_nat (length q)) buf = Some m2" "mem_blocks m2 = mem_blocks m1"
    "block env m2 p n" "bytes_at (mem_bytes m2) (p + of_nat (length q)) buf"
    "same_outside (range_of (p + of_nat (length q)) (length buf)) (mem_bytes m1) (mem_bytes m2)"
    by (rule store_in_block [OF m1(3) assms(2)])
  have f: "fits p (length q + length buf)" by (rule fits_mono [OF block_fits [OF assms(1)] assms(2)])
  have "bytes_at (mem_bytes m2) p q"
    using bytes_at_same_outside [OF m1(4) m2(5)] split_range_disjoint [OF f, of "length q"] by simp
  then have "bytes_at (mem_bytes m2) p (q @ buf)" using m2(4) f by (simp add: bytes_at_append)
  moreover have "same_outside (range_of p n) (mem_bytes m) (mem_bytes m2)"
    by (rule same_outside_join [OF m1(5) m2(5)])
      (use range_of_append [of p "length q" "length buf"] range_of_mono [OF assms(2), of p] in blast)
  ultimately show ?thesis using that m1 m2 by simp
qed

lemma sponge_block_moved:
  assumes "sponge_block env m0 m base cap" "block env m1 p n"
    and "range_of p n \<inter> dom (mem_bytes m) = {}" "p \<notin> dom (mem_blocks m)"
    and "\<forall>a. a \<notin> range_of p n \<longrightarrow> mem_bytes m1 a = mem_bytes m a" "mem_blocks m1 = (mem_blocks m)(p \<mapsto> n)"
  obtains m2 where "dfk__free env m1 base = Some m2" "sponge_block env m0 m2 p n"
    "\<forall>a\<in>range_of p n. mem_bytes m2 a = mem_bytes m1 a"
proof -
  have b: "block env m base cap" "mem_blocks m = (mem_blocks m0)(base \<mapsto> cap)" "base \<notin> dom (mem_blocks m0)"
    and out: "\<And>a. a \<notin> range_of base cap \<Longrightarrow> mem_bytes m a = mem_bytes m0 a"
    and dis: "range_of base cap \<inter> dom (mem_bytes m0) = {}"
    using assms(1) by (auto simp: sponge_block_def)
  note keep = malloc_keeps_block [OF b(1) assms(3,4,5,6)]
  obtain m2 where m2: "dfk__free env m1 base = Some m2" "mem_blocks m2 = (mem_blocks m1)(base := None)"
    "\<forall>a. mem_bytes m2 a = (if a \<in> range_of base cap then None else mem_bytes m1 a)"
    by (rule free_block [OF keep(1)])
  have same: "mem_bytes m2 a = mem_bytes m1 a" if "a \<in> range_of p n" for a using m2(3) keep(2) that by auto
  have "sponge_block env m0 m2 p n"
  proof (rule sponge_block_new)
    have "range_of p n \<subseteq> dom (mem_bytes m2)" using same block_dom [OF assms(2)] by (fastforce simp: dom_def)
    then show "block env m2 p n" using block_keep [OF assms(2)] m2(2) keep(3) by simp
    show "mem_blocks m2 = (mem_blocks m0)(p \<mapsto> n)" "p \<notin> dom (mem_blocks m0)"
      using m2(2) assms(4,6) b keep(3) by (auto simp: fun_upd_twist)
    show "mem_bytes m2 a = mem_bytes m0 a" if "a \<notin> range_of p n" for a
      using m2(3) assms(5) that out [of a] dis by (cases "mem_bytes m0 a") (auto simp: dom_def)
    show "range_of p n \<inter> dom (mem_bytes m0) = {}"
      using assms(3) out dis by (fastforce simp: dom_def)
  qed
  then show ?thesis using that m2(1) same by blast
qed

lemma unread_count: "k + l = unat (n :: size_t) \<Longrightarrow> n - of_nat k = of_nat l"
  by (metis add_diff_cancel_left' of_nat_add of_nat_unat_addr)

lemma sponge_write_grow:
  assumes ok: "alloc_ok env" and rep: "sponge_rep env m0 (m, sponge) q" "sp_capacity sponge \<noteq> 0"
    and buf: "buf \<noteq> []" "length buf < 2 ^ 62"
    and big: "\<not> of_nat (length buf) \<le> sp_capacity sponge - sp_size sponge"
  shows "sponge_refuses env (m, sponge) buf \<and> dfk__sponge_write env m sponge buf = Some (m, sponge, dfk_err_nomem)
    \<or> (\<exists>m' sponge'. \<not> sponge_refuses env (m, sponge) buf \<and> dfk__sponge_write env m sponge buf = Some (m', sponge', dfk_err_ok)
         \<and> sponge_rep env m0 (m', sponge') (q @ buf))"
proof -
  obtain base used n cap where s:
    "sponge = \<lparr>sp_base = base, sp_cur = base + of_nat (length used), sp_size = n, sp_capacity = cap\<rparr>"
    "cap \<noteq> 0" "sponge_block env m0 m base (unat cap)" "length used + length q = unat n" "n \<le> cap"
    "bytes_at (mem_bytes m) base (used @ q)"
    by (rule sponge_repE [OF rep])
  have cap: "unat cap < 2 ^ 62" "unat n \<le> unat cap" and blk: "block env m base (unat cap)"
    using s(3,5) by (auto simp: sponge_block_def block_def word_le_nat_alt)
  note nused = unread_count [OF s(4)]
  let ?new = "cap + max (of_nat (length q) + of_nat (length buf)) cap"
  have lens: "length q < 2 ^ 62" "length q + length buf < 2 ^ 63" using cap s(4) buf(2) by auto
  then have uq: "unat (of_nat (length q) + of_nat (length buf) :: size_t) = length q + length buf"
    using unat_of_nat_addr [of "length q + length buf"] by simp
  have new: "unat ?new = unat cap + max (length q + length buf) (unat cap)"
    using cap lens uq by (simp add: unat_word_ariths max_size_nat)
  then have "?new \<noteq> 0" using s(2) by (metis add_is_0 unat_0 unat_eq_0)
  note unfold = dfk__sponge_write_def sponge_refuses_def Let_def s(1) nused
  show ?thesis
  proof (cases rule: malloc_cases [OF ok \<open>?new \<noteq> 0\<close>, of m, case_names nomem mem])
    case nomem
    then show ?thesis using buf big s(1,2) sponge_rep_checked [OF rep(1)] by (simp add: unfold)
  next
    case (mem p m1)
    note keep = malloc_keeps_block [OF blk mem(5,7,4,6)]
    have "range_of (base + of_nat (length used)) (length q) \<subseteq> range_of base (unat cap)"
      by (rule range_of_sub) (use s(4) cap in simp)
    then have "bytes_at (mem_bytes m1) (base + of_nat (length used)) q"
      using bytes_at_cong [OF bytes_at_tail [OF s(6)], of "mem_bytes m1"] mem(4) keep(2) by blast
    then have ld: "mem_load m1 (base + of_nat (length used)) (length q) = Some q"
      by (simp add: mem_load_def byte_simps)
    obtain m2 m3 where m3: "mem_store m1 p q = Some m2" "mem_store m2 (p + of_nat (length q)) buf = Some m3"
      "mem_blocks m3 = mem_blocks m1" "block env m3 p (unat ?new)" "bytes_at (mem_bytes m3) p (q @ buf)"
      "same_outside (range_of p (unat ?new)) (mem_bytes m1) (mem_bytes m3)"
      by (rule sponge_copy [OF mem(3), of q buf]) (use new in simp)
    have m3_out: "\<forall>a. a \<notin> range_of p (unat ?new) \<longrightarrow> mem_bytes m3 a = mem_bytes m a"
      using mem(4) m3(6) by (simp add: same_outside_def)
    obtain m4 where m4: "dfk__free env m3 base = Some m4" "sponge_block env m0 m4 p (unat ?new)"
      "\<forall>a\<in>range_of p (unat ?new). mem_bytes m4 a = mem_bytes m3 a"
      by (rule sponge_block_moved [OF s(3) m3(4) mem(5,7) m3_out]) (use m3(3) mem(6) in simp)
    have "range_of p (length (q @ buf)) \<subseteq> range_of p (unat ?new)" by (rule range_of_mono) (use new in simp)
    then have "bytes_at (mem_bytes m4) p (q @ buf)"
      using bytes_at_cong [OF m3(5), of "mem_bytes m4"] m4(3) by blast
    with sponge_repI [OF m4(2) \<open>?new \<noteq> 0\<close>, of "[]" "q @ buf" "of_nat (length q) + of_nat (length buf)"] uq new
    have rep': "sponge_rep env m0 (m4, \<lparr>sp_base = p, sp_cur = p, sp_size = of_nat (length q) + of_nat (length buf),
        sp_capacity = ?new\<rparr>) (q @ buf)" by (simp add: word_le_nat_alt)
    have "unat (of_nat (length q) :: size_t) = length q" by (rule unat_length [OF lens(1)])
    with mem(1,2) ld m3(1,2) m4(1) rep' buf big s(1,2) sponge_rep_checked [OF rep(1)] sponge_rep_checked [OF rep']
    show ?thesis by (simp add: unfold)
  qed
qed

lemma sponge_write_spec:
  assumes "alloc_ok env" "DFK_PAGE_SIZE env \<noteq> 0" "sponge_rep env m0 (m, sponge) q" "buf \<noteq> []" "length buf < 2 ^ 62"
  shows "sponge_refuses env (m, sponge) buf \<and> dfk__sponge_write env m sponge buf = Some (m, sponge, dfk_err_nomem)
    \<or> (\<exists>m' sponge'. \<not> sponge_refuses env (m, sponge) buf \<and> dfk__sponge_write env m sponge buf = Some (m', sponge', dfk_err_ok)
         \<and> sponge_rep env m0 (m', sponge') (q @ buf))"
proof (cases "sp_capacity sponge = 0")
  case True
  then show ?thesis
    using assms sponge_write_first [OF assms(1,2,4,5), of m0] by (simp add: sponge_rep_def)
next
  case False
  then show ?thesis
    using sponge_write_fit [OF assms(3) False assms(4,5)] sponge_write_grow [OF assms(1,3) False assms(4,5)] by blast
qed

subsection \<open>Reading and freeing\<close>

lemma sponge_read_spec:
  assumes "sponge_rep env m0 (m, sponge) q" "nbytes \<noteq> 0"
  shows "\<exists>sponge'. dfk__sponge_read m sponge nbytes = Some (sponge', take (unat nbytes) q)
    \<and> sponge_rep env m0 (m, sponge') (drop (unat nbytes) q)"
proof (cases "sp_capacity sponge = 0")
  case True
  then show ?thesis
    using assms sponge_rep_checked [OF assms(1)] by (simp add: sponge_rep_def dfk__sponge_read_def dfk__sponge_init_def)
next
  case False
  obtain base used n cap where s:
    "sponge = \<lparr>sp_base = base, sp_cur = base + of_nat (length used), sp_size = n, sp_capacity = cap\<rparr>"
    "cap \<noteq> 0" "sponge_block env m0 m base (unat cap)" "length used + length q = unat n" "n \<le> cap"
    "bytes_at (mem_bytes m) base (used @ q)"
    by (rule sponge_repE [OF assms(1) False])
  note nused = unread_count [OF s(4)]
  let ?t = "take (unat nbytes) q" and ?d = "drop (unat nbytes) q"
  have "unat n < 2 ^ LENGTH(64)" by (rule unsigned_less)
  then have "length q < 2 ^ 64" using s(4) by simp
  then have len: "unat (min nbytes (of_nat (length q))) = length ?t" "min nbytes (of_nat (length q)) = of_nat (length ?t)"
    by (auto simp: min_def word_le_nat_alt unat_of_nat_addr)
  have split: "used @ q = (used @ ?t) @ ?d" by simp
  have "bytes_at (mem_bytes m) (base + of_nat (length used)) ?t"
    using s(6) bytes_at_tail [of "mem_bytes m" base used q] bytes_at_append [of "mem_bytes m" "base + of_nat (length used)" ?t ?d] by simp
  then have ld: "mem_load m (base + of_nat (length used)) (length ?t) = Some ?t" by (simp add: mem_load_def byte_simps del: length_take)
  have rep: "sponge_rep env m0 (m, \<lparr>sp_base = base, sp_cur = base + of_nat (length (used @ ?t)), sp_size = n, sp_capacity = cap\<rparr>) ?d"
    by (rule sponge_repI [OF s(3,2) _ s(5)]) (use s(4,6) in auto)
  have "q = []" if "n = 0" using s(4) that by simp
  then show ?thesis
    using rep ld len s(1) assms sponge_rep_checked [OF assms(1)] sponge_rep_checked [OF rep]
    by (auto simp: dfk__sponge_read_def nused Let_def add.assoc simp del: length_take)
qed

lemma sponge_free_spec:
  assumes "sponge_rep env m0 (m, sponge) q"
  shows "\<exists>m'. dfk__sponge_free env m sponge = Some m' \<and> mem_blocks m' = mem_blocks m0 \<and> mem_bytes m' = mem_bytes m0"
proof (cases "sp_capacity sponge = 0")
  case True
  then show ?thesis
    using assms sponge_rep_checked [OF assms] by (simp add: sponge_rep_def dfk__sponge_free_def dfk__sponge_init_def)
next
  case False
  then have sb: "sponge_block env m0 m (sp_base sponge) (unat (sp_capacity sponge))"
    using assms by (simp add: sponge_rep_def)
  then have b: "block env m (sp_base sponge) (unat (sp_capacity sponge))" by (simp add: sponge_block_def)
  obtain m' where "dfk__free env m (sp_base sponge) = Some m'" "mem_blocks m' = (mem_blocks m)(sp_base sponge := None)"
    "\<forall>a. mem_bytes m' a = (if a \<in> range_of (sp_base sponge) (unat (sp_capacity sponge)) then None else mem_bytes m a)"
    by (rule free_block [OF b])
  then show ?thesis
    using sb b sponge_rep_checked [OF assms]
    by (auto simp: dfk__sponge_free_def sponge_block_def block_def fun_eq_iff dom_def disjoint_iff)
qed

subsection \<open>Vectored operations\<close>

text \<open>A vectored write stores the vectors up to the first one that cannot be stored.\<close>

lemma sponge_writev_spec:
  assumes "alloc_ok env" "DFK_PAGE_SIZE env \<noteq> 0" "sponge_rep env m0 (m, sponge) q"
    and "\<forall>v\<in>set iov. v \<noteq> [] \<and> length v < 2 ^ 62"
  shows "\<exists>m' sponge' err k. sponge_writev_loop env m sponge iov = Some (m', sponge', err)
    \<and> sponge_rep env m0 (m', sponge') (q @ concat (take k iov))
    \<and> (err = dfk_err_ok \<and> k = length iov \<or> err = dfk_err_nomem \<and> k < length iov)"
  using assms(3,4)
proof (induction iov arbitrary: m sponge q)
  case Nil
  then show ?case using sponge_rep_checked [OF Nil.prems(1)] by auto
next
  case (Cons v iov)
  have v: "v \<noteq> []" "length v < 2 ^ 62" using Cons.prems(2) by auto
  show ?case
    using sponge_write_spec [OF assms(1,2) Cons.prems(1) v]
  proof (elim disjE exE conjE)
    assume "sponge_refuses env (m, sponge) v" "dfk__sponge_write env m sponge v = Some (m, sponge, dfk_err_nomem)"
    then show ?thesis
      using Cons.prems(1) by (intro exI [of _ m] exI [of _ sponge] exI [of _ dfk_err_nomem] exI [of _ 0]) simp
  next
    fix m1 sponge1
    assume w: "dfk__sponge_write env m sponge v = Some (m1, sponge1, dfk_err_ok)" "sponge_rep env m0 (m1, sponge1) (q @ v)"
    obtain m' sponge' err k where IH: "sponge_writev_loop env m1 sponge1 iov = Some (m', sponge', err)"
       "sponge_rep env m0 (m', sponge') ((q @ v) @ concat (take k iov))"
       "err = dfk_err_ok \<and> k = length iov \<or> err = dfk_err_nomem \<and> k < length iov"
      using Cons.IH [OF w(2)] Cons.prems(2) by auto
    then show ?thesis
      using w(1) by (intro exI [of _ m'] exI [of _ sponge'] exI [of _ err] exI [of _ "Suc k"]) auto
  qed
qed

lemma sponge_readv_spec:
  assumes "sponge_rep env m0 (m, sponge) (concat iov @ rest)" "\<forall>v\<in>set iov. v \<noteq> [] \<and> length v < 2 ^ 62"
  shows "\<exists>sponge'. sponge_readv_loop m sponge (map (\<lambda>v. of_nat (length v)) iov) = Some (sponge', iov)
    \<and> sponge_rep env m0 (m, sponge') rest"
  using assms
proof (induction iov arbitrary: sponge)
  case Nil
  then show ?case using sponge_rep_checked by fastforce
next
  case (Cons v iov)
  have v: "v \<noteq> []" "unat (of_nat (length v) :: size_t) = length v" using Cons.prems(2) unat_length [of v] by auto
  then have nz: "(of_nat (length v) :: size_t) \<noteq> 0" by (metis length_0_conv unat_0)
  obtain sponge1 where r: "dfk__sponge_read m sponge (of_nat (length v)) = Some (sponge1, v)"
      "sponge_rep env m0 (m, sponge1) (concat iov @ rest)"
    using sponge_read_spec [OF Cons.prems(1) nz] v by auto
  with Cons.IH [OF r(2)] Cons.prems(2) v(1) show ?case by auto
qed

section \<open>Byte streams\<close>

text \<open>
  The contract of an in-memory byte stream, over its representation as a queue: a write either
  fails for lack of memory and changes nothing, or appends; a read takes from the front.
\<close>

datatype stream_op = Put "byte list" | Get size_t

fun stream_op_ok :: "stream_op \<Rightarrow> bool" where
  "stream_op_ok (Put bs) \<longleftrightarrow> bs \<noteq> [] \<and> length bs < 2 ^ 62"
| "stream_op_ok (Get n) \<longleftrightarrow> n \<noteq> 0"

text \<open>
  A run of operations: what each returns, with the state it was called in. \<open>queue_after\<close> follows the results on a queue of bytes:
  a write that succeeds appends, one that is refused changes nothing, and a read returns as much of the front as is asked for and there is.
\<close>

datatype stream_obs = Wrote dfk_error_e | Got "byte list"

fun stream_run ::
  "('s \<Rightarrow> byte list \<Rightarrow> ('s \<times> dfk_error_e) option) \<Rightarrow> ('s \<Rightarrow> size_t \<Rightarrow> ('s \<times> byte list) option)
    \<Rightarrow> 's \<Rightarrow> stream_op list \<Rightarrow> ('s \<times> ('s \<times> stream_obs) list) option" where
  "stream_run put get s [] = Some (s, [])"
| "stream_run put get s (Put bs # ops) = do {
     (s1, err) \<leftarrow> put s bs;
     (s2, tr) \<leftarrow> stream_run put get s1 ops;
     Some (s2, (s, Wrote err) # tr)
   }"
| "stream_run put get s (Get n # ops) = do {
     (s1, bs) \<leftarrow> get s n;
     (s2, tr) \<leftarrow> stream_run put get s1 ops;
     Some (s2, (s, Got bs) # tr)
   }"

fun queue_after :: "byte list \<Rightarrow> stream_op list \<Rightarrow> stream_obs list \<Rightarrow> byte list option" where
  "queue_after q [] [] = Some q"
| "queue_after q (Put bs # ops) (Wrote err # obs) =
     (if err = dfk_err_ok then queue_after (q @ bs) ops obs
      else if err = dfk_err_nomem then queue_after q ops obs else None)"
| "queue_after q (Get n # ops) (Got bs # obs) =
     (if bs = take (unat n) q then queue_after (drop (unat n) q) ops obs else None)"
| "queue_after q _ _ = None"

fun refused_rightly :: "('s \<Rightarrow> byte list \<Rightarrow> bool) \<Rightarrow> stream_op \<Rightarrow> 's \<times> stream_obs \<Rightarrow> bool" where
  "refused_rightly refuses (Put bs) (s, ob) \<longleftrightarrow> ob = Wrote (if refuses s bs then dfk_err_nomem else dfk_err_ok)"
| "refused_rightly refuses (Get n) (s, ob) \<longleftrightarrow> True"

locale byte_stream =
  fixes rep :: "'s \<Rightarrow> byte list \<Rightarrow> bool"
    and refuses :: "'s \<Rightarrow> byte list \<Rightarrow> bool"
    and put :: "'s \<Rightarrow> byte list \<Rightarrow> ('s \<times> dfk_error_e) option"
    and get :: "'s \<Rightarrow> size_t \<Rightarrow> ('s \<times> byte list) option"
  assumes put_law: "rep s q \<Longrightarrow> bs \<noteq> [] \<Longrightarrow> length bs < 2 ^ 62 \<Longrightarrow>
      refuses s bs \<and> put s bs = Some (s, dfk_err_nomem)
      \<or> (\<exists>s'. \<not> refuses s bs \<and> put s bs = Some (s', dfk_err_ok) \<and> rep s' (q @ bs))"
    and get_law: "rep s q \<Longrightarrow> n \<noteq> 0 \<Longrightarrow>
      \<exists>s'. get s n = Some (s', take (unat n) q) \<and> rep s' (drop (unat n) q)"
begin

lemma run_queue:
  assumes "rep s q" "list_all stream_op_ok ops"
  shows "\<exists>s' tr q'. stream_run put get s ops = Some (s', tr) \<and> rep s' q' \<and> queue_after q ops (map snd tr) = Some q'
    \<and> list_all2 (refused_rightly refuses) ops tr"
  using assms
proof (induction ops arbitrary: s q)
  case (Cons op ops)
  show ?case
  proof (cases op)
    case (Put bs)
    consider "refuses s bs" "put s bs = Some (s, dfk_err_nomem)"
      | s' where "\<not> refuses s bs" "put s bs = Some (s', dfk_err_ok)" "rep s' (q @ bs)"
      using put_law [OF Cons.prems(1), of bs] Cons.prems(2) Put by auto
    then show ?thesis
    proof cases
      case 1
      then show ?thesis using Cons.IH [OF Cons.prems(1)] Cons.prems(2) Put by fastforce
    next
      case 2
      then show ?thesis using Cons.IH [OF 2(3)] Cons.prems(2) Put by fastforce
    qed
  next
    case (Get n)
    obtain s' where g: "get s n = Some (s', take (unat n) q)" "rep s' (drop (unat n) q)"
      using get_law [OF Cons.prems(1), of n] Cons.prems(2) Get by auto
    then show ?thesis using Cons.IH [OF g(2)] Cons.prems(2) Get by fastforce
  qed
qed simp

end

text \<open>The sponge keeps the contract, in every environment with a working allocator.\<close>

definition sponge_put :: "dfk_env \<Rightarrow> cmem \<times> dfk__sponge_t \<Rightarrow> byte list \<Rightarrow> ((cmem \<times> dfk__sponge_t) \<times> dfk_error_e) option" where
  "sponge_put env s bs = map_option (\<lambda>(m, sponge, err). ((m, sponge), err)) (dfk__sponge_write env (fst s) (snd s) bs)"

definition sponge_get :: "cmem \<times> dfk__sponge_t \<Rightarrow> size_t \<Rightarrow> ((cmem \<times> dfk__sponge_t) \<times> byte list) option" where
  "sponge_get s n = map_option (\<lambda>(sponge, bs). ((fst s, sponge), bs)) (dfk__sponge_read (fst s) (snd s) n)"

definition sponge_state :: "dfk_env \<Rightarrow> cmem \<Rightarrow> cmem \<times> dfk__sponge_t \<Rightarrow> byte list \<Rightarrow> bool" where
  "sponge_state env m0 s q \<longleftrightarrow> alloc_ok env \<and> DFK_PAGE_SIZE env \<noteq> 0 \<and> sponge_rep env m0 s q"

interpretation sponge: byte_stream "sponge_state env m0" "sponge_refuses env" "sponge_put env" sponge_get for env m0
proof
  fix s :: "cmem \<times> dfk__sponge_t" and q bs :: "byte list" and n :: size_t
  obtain m sponge where s: "s = (m, sponge)" by (cases s)
  show "sponge_refuses env s bs \<and> sponge_put env s bs = Some (s, dfk_err_nomem)
      \<or> (\<exists>s'. \<not> sponge_refuses env s bs \<and> sponge_put env s bs = Some (s', dfk_err_ok) \<and> sponge_state env m0 s' (q @ bs))"
    if "sponge_state env m0 s q" "bs \<noteq> []" "length bs < 2 ^ 62"
    using that sponge_write_spec [of env m0 m sponge q bs] by (auto simp: s sponge_put_def sponge_state_def)
  show "\<exists>s'. sponge_get s n = Some (s', take (unat n) q) \<and> sponge_state env m0 s' (drop (unat n) q)"
    if "sponge_state env m0 s q" "n \<noteq> 0"
    using that sponge_read_spec [of env m0 m sponge q n] by (auto simp: s sponge_get_def sponge_state_def)
qed

section \<open>Properties\<close>

text \<open>
  C11. The sponge is a queue of bytes: from an initialised sponge, any sequence of writes and reads of at least one byte runs
  without a failed assert or a bad memory access, whatever the allocator answers. Following the results on a queue, a read
  returns exactly the front of the queue, all that is asked for or all that is there; a write appends, unless its bytes do not fit the
  block of the sponge and the allocator has no larger one, when it returns dfk_err_nomem and nothing changes. Freeing the
  sponge afterwards leaves the memory exactly as it was before. Each write is of less than 2^62 bytes.
\<close>

theorem sponge_stream:
  assumes "alloc_ok env" "DFK_PAGE_SIZE env \<noteq> 0" "list_all stream_op_ok ops"
  shows "\<exists>m sponge tr rest m'. stream_run (sponge_put env) sponge_get (m0, dfk__sponge_init) ops = Some ((m, sponge), tr)
    \<and> queue_after [] ops (map snd tr) = Some rest \<and> list_all2 (refused_rightly (sponge_refuses env)) ops tr
    \<and> dfk__sponge_free env m sponge = Some m' \<and> mem_blocks m' = mem_blocks m0 \<and> mem_bytes m' = mem_bytes m0"
proof -
  have "sponge_state env m0 (m0, dfk__sponge_init) []"
    using assms sponge_init_rep by (simp add: sponge_state_def)
  from sponge.run_queue [OF this assms(3)] obtain m sponge tr rest where
    run: "stream_run (sponge_put env) sponge_get (m0, dfk__sponge_init) ops = Some ((m, sponge), tr)"
      "sponge_state env m0 (m, sponge) rest" "queue_after [] ops (map snd tr) = Some rest"
      "list_all2 (refused_rightly (sponge_refuses env)) ops tr" by auto
  from run(2) have "sponge_rep env m0 (m, sponge) rest" by (simp add: sponge_state_def)
  from sponge_free_spec [OF this] run show ?thesis by blast
qed

abbreviation empty_mem :: cmem where
  "empty_mem \<equiv> \<lparr>mem_bytes = \<lambda>_. None, mem_blocks = \<lambda>_. None\<rparr>"

theorem sponge_stream_witness:
  "\<exists>m sponge tr rest m'. stream_run (sponge_put small_env) sponge_get (empty_mem, dfk__sponge_init)
      [Put [1, 2, 3], Get 2, Put [4], Get 5] = Some ((m, sponge), tr)
    \<and> queue_after [] [Put [1, 2, 3], Get 2, Put [4], Get 5] (map snd tr) = Some rest
    \<and> dfk__sponge_free small_env m sponge = Some m' \<and> mem_blocks m' = (\<lambda>_. None)"
  using sponge_stream [OF small_env_ok, of "[Put [1, 2, 3], Get 2, Put [4], Get 5]" empty_mem]
  by (auto simp: small_env_def)

text \<open>
  Vectored round trip: reading vectors of the same sizes after a successful vectored write to
  an empty sponge returns exactly the vectors written.
\<close>

theorem sponge_vector_roundtrip:
  assumes "alloc_ok env" "DFK_PAGE_SIZE env \<noteq> 0" "iov \<noteq> []" "\<forall>v\<in>set iov. v \<noteq> [] \<and> length v < 2 ^ 62"
  shows "\<exists>m sponge err. dfk__sponge_writev env m0 dfk__sponge_init iov = Some (m, sponge, err)
    \<and> (err = dfk_err_ok \<longrightarrow>
         (\<exists>sponge'. dfk__sponge_readv m sponge (map (\<lambda>v. of_nat (length v)) iov) = Some (sponge', iov)))
    \<and> (err \<noteq> dfk_err_ok \<longrightarrow> err = dfk_err_nomem)"
proof -
  obtain m sponge err k where w: "sponge_writev_loop env m0 dfk__sponge_init iov = Some (m, sponge, err)"
      "sponge_rep env m0 (m, sponge) ([] @ concat (take k iov))"
      "err = dfk_err_ok \<and> k = length iov \<or> err = dfk_err_nomem \<and> k < length iov"
    using sponge_writev_spec [OF assms(1,2) sponge_init_rep assms(4)] by blast
  have "dfk__sponge_writev env m0 dfk__sponge_init iov = Some (m, sponge, err)"
    using w(1) assms(3) sponge_rep_checked [OF sponge_init_rep] by (simp add: dfk__sponge_writev_def)
  moreover have "\<exists>sponge'. dfk__sponge_readv m sponge (map (\<lambda>v. of_nat (length v)) iov) = Some (sponge', iov)" if "k = length iov"
    using sponge_readv_spec [of env m0 m sponge iov "[]"] w(2) that assms(3,4) sponge_rep_checked [OF w(2)]
    by (auto simp: dfk__sponge_readv_def)
  ultimately show ?thesis using w(3) by auto
qed

theorem sponge_vector_roundtrip_witness:
  "\<exists>m sponge err. dfk__sponge_writev small_env empty_mem dfk__sponge_init [[1, 2], [3]] = Some (m, sponge, err)
    \<and> (err = dfk_err_ok \<longrightarrow> (\<exists>sponge'. dfk__sponge_readv m sponge [2, 1] = Some (sponge', [[1, 2], [3]])))"
  using sponge_vector_roundtrip [OF small_env_ok, of "[[1, 2], [3]]" empty_mem] by (auto simp: small_env_def)

end
