(* ===== verification/Dfk_Scheduler.thy ===== *)
theory Dfk_Scheduler
  imports Dfk_Error "HOL-Library.Multiset" "HOL-Library.Signed_Division"
begin

text \<open>
  Fibers, the default scheduler and the synchronisation primitives: \<^verbatim>\<open>src/fiber.c\<close>,
  \<^verbatim>\<open>src/scheduler.c\<close>, \<^verbatim>\<open>src/mutex.c\<close> and \<^verbatim>\<open>src/cond.c\<close>.

  Fibers are coroutines: \<^verbatim>\<open>dfk_yield\<close> stores where the caller goes on and hands the processor to
  another fiber. The state records which fiber runs, and for every other fiber the place behind
  the call of \<^verbatim>\<open>dfk_yield\<close> at which it will go on; a function that switches is split there. The
  intrusive lists are represented by the sequences of fibers they hold, which the list component
  justifies as long as a fiber, having one hook, is in one list at a time; that this is so in
  every reachable state is part of the invariant.
\<close>

section \<open>State\<close>

type_synonym fiber = addr

record dfk_scheduler_t =
  s_fiber :: fiber
  s_current :: fiber
  s_eventloop :: fiber
  s_pending :: "fiber list"
  s_iowait :: size_t
  s_terminated :: "fiber list"

record dfk_mutex_t =
  m_waitqueue :: "fiber list"
  m_owner :: fiber

record dfk_cond_t =
  c_waitqueue :: "fiber list"

text \<open>Where a fiber goes on when it gets the processor; \<open>Ready\<close> is its own code.\<close>

datatype go_on =
    Ready
  | At_start
  | At_postpone
  | At_io
  | At_lock addr
  | At_wait addr addr
  | At_end

text \<open>
  The scheduler's own place: before an iteration, in the loop over its local list of pending
  fibers, or behind the main loop.
\<close>

datatype sched_pc = S_top | S_drain "fiber list" | S_done

text \<open>
  What a fiber's stack depends on: the size of \<^verbatim>\<open>dfk_fiber_t\<close>, the context's stack size and the build
  options; and what \<^verbatim>\<open>dfk__spawn\<close> makes of the block it allocates.
\<close>

record stack_env =
  sizeof_fiber :: size_t
  default_stack_size :: size_t
  DFK_STACK_GUARD_SIZE :: size_t
  DFK_STACK_ALIGNMENT :: size_t

record fiber_stack =
  f_arg :: addr
  stack_base :: addr
  stack_size :: size_t

record dfk_world =
  senv :: stack_env
  dfk_errno :: dfk_error_e
  stacks :: "fiber \<rightharpoonup> fiber_stack"
  sched :: dfk_scheduler_t
  spc :: sched_pc
  running :: fiber
  cont :: "fiber \<Rightarrow> go_on"
  fibers :: "fiber set"
  io_fibers :: "fiber list"
  mutexes :: "addr \<rightharpoonup> dfk_mutex_t"
  conds :: "addr \<rightharpoonup> dfk_cond_t"

section \<open>Fibers and the scheduler interface\<close>

definition dfk__yielded :: "dfk_world \<Rightarrow> fiber \<Rightarrow> fiber \<Rightarrow> dfk_world option" where
  "dfk__yielded w from to = do {
     c_assert (from \<noteq> NULL);
     c_assert (to \<noteq> NULL);
     Some (w\<lparr>sched := (sched w)\<lparr>s_current := to\<rparr>\<rparr>)
   }"

definition dfk_yield :: "dfk_world \<Rightarrow> fiber \<Rightarrow> fiber \<Rightarrow> dfk_world option" where
  "dfk_yield w from to = do {
     c_assert (from \<noteq> NULL);
     c_assert (to \<noteq> NULL);
     w \<leftarrow> dfk__yielded w from to;
     Some (w\<lparr>running := to\<rparr>)
   }"

definition dfk__this_fiber :: "dfk_world \<Rightarrow> fiber" where
  "dfk__this_fiber w = s_current (sched w)"

definition dfk__resume :: "dfk_world \<Rightarrow> fiber \<Rightarrow> dfk_world option" where
  "dfk__resume w fiber = do {
     c_assert (fiber \<noteq> NULL);
     Some (w\<lparr>sched := (sched w)\<lparr>s_pending := s_pending (sched w) @ [fiber]\<rparr>\<rparr>)
   }"

text \<open>The places to go on are stored just before the switch.\<close>

definition go_on_at :: "dfk_world \<Rightarrow> fiber \<Rightarrow> go_on \<Rightarrow> dfk_world" where
  "go_on_at w f k = w\<lparr>cont := (cont w)(f := k)\<rparr>"

definition dfk__terminate :: "dfk_world \<Rightarrow> fiber \<Rightarrow> dfk_world option" where
  "dfk__terminate w fiber = do {
     c_assert (fiber \<noteq> NULL);
     let w = w\<lparr>sched := (sched w)\<lparr>s_terminated := s_terminated (sched w) @ [fiber]\<rparr>\<rparr>;
     dfk_yield (go_on_at w fiber At_end) fiber (s_fiber (sched w))
   }"

definition dfk__suspend :: "dfk_world \<Rightarrow> go_on \<Rightarrow> dfk_world option" where
  "dfk__suspend w k = do {
     let this = dfk__this_fiber w;
     dfk_yield (go_on_at w this k) this (s_fiber (sched w))
   }"

definition dfk__iosuspend :: "dfk_world \<Rightarrow> dfk_world option" where
  "dfk__iosuspend w = do {
     let this = dfk__this_fiber w;
     let w = w\<lparr>sched := (sched w)\<lparr>s_iowait := s_iowait (sched w) + 1\<rparr>\<rparr>;
     dfk_yield (go_on_at w this At_io) this (s_fiber (sched w))
   }"

definition dfk__ioresume :: "dfk_world \<Rightarrow> fiber \<Rightarrow> dfk_world option" where
  "dfk__ioresume w fiber = do {
     c_assert (fiber \<noteq> NULL);
     let w = w\<lparr>sched := (sched w)\<lparr>s_iowait := s_iowait (sched w) - 1\<rparr>\<rparr>;
     Some (w\<lparr>sched := (sched w)\<lparr>s_pending := s_pending (sched w) @ [fiber]\<rparr>\<rparr>)
   }"

definition dfk__postpone :: "dfk_world \<Rightarrow> dfk_world option" where
  "dfk__postpone w = do {
     let this = dfk__this_fiber w;
     let w = w\<lparr>sched := (sched w)\<lparr>s_pending := s_pending (sched w) @ [this]\<rparr>\<rparr>;
     dfk_yield (go_on_at w this At_postpone) this (s_fiber (sched w))
   }"

text \<open>
  The layout of a fiber's block: the fiber structure, the copy of the argument if there is one, the
  guard area (of size zero when it is compiled out), padding, the stack. The remainder is the signed
  one of C, since the address is cast to \<^verbatim>\<open>ptrdiff_t\<close>.
\<close>

definition aligned_base :: "size_t \<Rightarrow> addr \<Rightarrow> addr" where
  "aligned_base al base = (let r = sint base smod uint al in
     if r \<noteq> 0 then base + (al - word_of_int r) else base)"

definition stack_layout :: "stack_env \<Rightarrow> addr \<Rightarrow> addr \<Rightarrow> size_t \<Rightarrow> fiber_stack option" where
  "stack_layout e fiber arg argsize = do {
     let base = fiber + sizeof_fiber e;
     let stack_end = fiber + default_stack_size e;
     let farg = (if argsize \<noteq> 0 then base else arg);
     let base = (if argsize \<noteq> 0 then base + argsize else base);
     let base = base + DFK_STACK_GUARD_SIZE e;
     let base = aligned_base (DFK_STACK_ALIGNMENT e) base;
     c_assert (base < stack_end);
     Some \<lparr>f_arg = farg, stack_base = base, stack_size = stack_end - base\<rparr>
   }"

text \<open>
  A new fiber: \<open>mem\<close> is what the allocator returned for its block. The new fiber goes on at
  \<^verbatim>\<open>dfk__fiber_main\<close>, which terminates it when its entry point returns.
\<close>

definition dfk__spawn :: "dfk_world \<Rightarrow> fiber \<Rightarrow> addr \<Rightarrow> size_t \<Rightarrow> (dfk_world \<times> fiber) option" where
  "dfk__spawn w mem arg argsize =
     (if mem = NULL then Some (w\<lparr>dfk_errno := dfk_err_nomem\<rparr>, NULL)
      else do {
        st \<leftarrow> stack_layout (senv w) mem arg argsize;
        Some (go_on_at (w\<lparr>fibers := insert mem (fibers w), stacks := (stacks w)(mem \<mapsto> st)\<rparr>) mem At_start, mem)
      })"

definition dfk_spawn :: "dfk_world \<Rightarrow> fiber \<Rightarrow> addr \<Rightarrow> size_t \<Rightarrow> (dfk_world \<times> fiber) option" where
  "dfk_spawn w mem arg argsize = do {
     (w, fiber) \<leftarrow> dfk__spawn w mem arg argsize;
     if fiber = NULL then Some (w, NULL)
     else do { w \<leftarrow> dfk__resume w fiber; Some (w, fiber) }
   }"

text \<open>Freeing memory that is not a live fiber's is a fault.\<close>

definition dfk__fiber_free :: "dfk_world \<Rightarrow> fiber \<Rightarrow> dfk_world option" where
  "dfk__fiber_free w fiber = do {
     c_assert (fiber \<in> fibers w);
     Some (w\<lparr>fibers := fibers w - {fiber}, stacks := (stacks w)(fiber := None)\<rparr>)
   }"

section \<open>The scheduler loop\<close>

fun free_terminated :: "dfk_world \<Rightarrow> fiber list \<Rightarrow> dfk_world option" where
  "free_terminated w [] = Some (w\<lparr>sched := (sched w)\<lparr>s_terminated := []\<rparr>\<rparr>)"
| "free_terminated w (fiber # rest) = do {
     w \<leftarrow> dfk__fiber_free (w\<lparr>sched := (sched w)\<lparr>s_terminated := rest\<rparr>\<rparr>) fiber;
     free_terminated w rest
   }"

text \<open>
  An iteration of \<^verbatim>\<open>dfk__scheduler\<close>, up to its next context switch: the beginning, and the loop over
  the local list with the switch to the event loop behind it.
\<close>

definition scheduler_begin :: "dfk_world \<Rightarrow> dfk_world option" where
  "scheduler_begin w =
     (if s_terminated (sched w) = [] \<and> s_pending (sched w) = [] \<and> s_iowait (sched w) = 0
      then Some (w\<lparr>spc := S_done\<rparr>)
      else do {
        w \<leftarrow> free_terminated w (s_terminated (sched w));
        let pending = s_pending (sched w);
        Some (w\<lparr>sched := (sched w)\<lparr>s_pending := []\<rparr>, spc := S_drain pending\<rparr>)
      })"

fun scheduler_drain :: "dfk_world \<Rightarrow> fiber list \<Rightarrow> dfk_world option" where
  "scheduler_drain w (fiber # pending) = do {
     let w = w\<lparr>spc := S_drain pending, sched := (sched w)\<lparr>s_current := fiber\<rparr>\<rparr>;
     dfk_yield w (s_fiber (sched w)) fiber
   }"
| "scheduler_drain w [] =
     (if s_pending (sched w) = [] \<and> s_iowait (sched w) \<noteq> 0 then do {
        let w = w\<lparr>spc := S_top, sched := (sched w)\<lparr>s_current := s_eventloop (sched w)\<rparr>\<rparr>;
        dfk_yield w (s_fiber (sched w)) (s_eventloop (sched w))
      } else Some (w\<lparr>spc := S_top\<rparr>))"

definition dfk__scheduler :: "dfk_world \<Rightarrow> dfk_world option" where
  "dfk__scheduler w = (case spc w of
     S_top \<Rightarrow> scheduler_begin w
   | S_drain pending \<Rightarrow> scheduler_drain w pending
   | S_done \<Rightarrow> None)"

subsection \<open>Start and end of the work cycle\<close>

definition dfk__scheduler_init :: "fiber \<Rightarrow> fiber \<Rightarrow> dfk_scheduler_t" where
  "dfk__scheduler_init self eventloop = \<lparr>s_fiber = self, s_current = NULL, s_eventloop = eventloop,
     s_pending = [], s_iowait = 0, s_terminated = []\<rparr>"

text \<open>
  \<^verbatim>\<open>dfk__scheduler_main\<close> up to its loop; \<open>mem\<close> is the allocator's answer for the event loop's fiber.
  The flag says whether the scheduler goes on to its loop or back to \<^verbatim>\<open>dfk_work\<close>. From here on
  \<open>fibers\<close> holds the fibers that are scheduled: the scheduler's own and the event loop's are fields
  of the scheduler.
\<close>

definition dfk__scheduler_main :: "dfk_world \<Rightarrow> fiber \<Rightarrow> fiber \<Rightarrow> fiber \<Rightarrow> (dfk_world \<times> bool) option" where
  "dfk__scheduler_main w fiber mainf mem = do {
     c_assert (fiber \<noteq> NULL);
     c_assert (mainf \<noteq> NULL);
     (w, loopf) \<leftarrow> dfk__spawn w mem fiber 0;
     if loopf = NULL then do { w \<leftarrow> dfk__fiber_free w mainf; Some (w, False) }
     else do {
       let w = w\<lparr>sched := dfk__scheduler_init fiber loopf, spc := S_top, running := fiber,
         fibers := fibers w - {fiber, loopf}\<rparr>;
       w \<leftarrow> dfk__resume w mainf;
       Some (w, True)
     }
   }"

text \<open>What \<^verbatim>\<open>dfk_init\<close> leaves for the work cycle: no fiber, no scheduler.\<close>

definition dfk_init :: "stack_env \<Rightarrow> dfk_world" where
  "dfk_init e = \<lparr>senv = e, dfk_errno = dfk_err_ok, stacks = (\<lambda>_. None), sched = dfk__scheduler_init NULL NULL,
     spc = S_top, running = NULL, cont = (\<lambda>_. At_start), fibers = {}, io_fibers = [],
     mutexes = (\<lambda>_. None), conds = (\<lambda>_. None)\<rparr>"

text \<open>
  \<^verbatim>\<open>dfk_work\<close>: either it returns a code, or the scheduler has entered its loop. The three blocks are
  the allocator's answers for the main fiber, the scheduler and the event loop. The argument of the
  event loop and the scheduler is passed by reference; its address plays no role.
\<close>

datatype work = Returns dfk_world dfk_error_e | Works dfk_world

definition dfk_work :: "dfk_world \<Rightarrow> fiber \<Rightarrow> fiber \<Rightarrow> fiber \<Rightarrow> addr \<Rightarrow> size_t \<Rightarrow> work option" where
  "dfk_work w m1 m2 m3 arg argsize = do {
     (w, mainf) \<leftarrow> dfk__spawn w m1 arg argsize;
     if mainf = NULL then Some (Returns w (dfk_errno w))
     else do {
       (w, scheduler) \<leftarrow> dfk__spawn w m2 mainf 0;
       if scheduler = NULL then do { w \<leftarrow> dfk__fiber_free w mainf; Some (Returns w (dfk_errno w)) }
       else do {
         (w, on) \<leftarrow> dfk__scheduler_main w scheduler mainf m3;
         if on then Some (Works w)
         else do { w \<leftarrow> dfk__fiber_free w scheduler; Some (Returns w dfk_err_ok) }
       }
     }
   }"

text \<open>Behind the loop: the event loop's and the scheduler's fibers are freed and \<^verbatim>\<open>dfk_work\<close> returns.\<close>

definition work_done :: "dfk_world \<Rightarrow> work" where
  "work_done w = Returns (w\<lparr>sched := (sched w)\<lparr>s_current := NULL\<rparr>,
     stacks := (stacks w)(s_eventloop (sched w) := None, s_fiber (sched w) := None)\<rparr>) dfk_err_ok"

section \<open>Mutexes\<close>

definition get_mutex :: "dfk_world \<Rightarrow> addr \<Rightarrow> dfk_mutex_t option" where
  "get_mutex w mutex = load (mutexes w) mutex"

definition set_mutex :: "dfk_world \<Rightarrow> addr \<Rightarrow> dfk_mutex_t \<Rightarrow> dfk_world" where
  "set_mutex w mutex v = w\<lparr>mutexes := (mutexes w)(mutex \<mapsto> v)\<rparr>"

definition dfk_mutex_init :: "dfk_world \<Rightarrow> addr \<Rightarrow> dfk_world option" where
  "dfk_mutex_init w mutex = do {
     c_assert (mutex \<noteq> NULL);
     Some (set_mutex w mutex \<lparr>m_waitqueue = [], m_owner = NULL\<rparr>)
   }"

definition dfk_mutex_free :: "dfk_world \<Rightarrow> addr \<Rightarrow> dfk_world option" where
  "dfk_mutex_free w mutex = do {
     v \<leftarrow> get_mutex w mutex;
     c_assert (m_waitqueue v = []);
     c_assert (m_owner v = NULL);
     Some (w\<lparr>mutexes := (mutexes w)(mutex := None)\<rparr>)
   }"

text \<open>The end of \<^verbatim>\<open>dfk_mutex_lock\<close>, reached directly or after a suspension.\<close>

definition mutex_locked :: "dfk_world \<Rightarrow> addr \<Rightarrow> dfk_world option" where
  "mutex_locked w mutex = do {
     v \<leftarrow> get_mutex w mutex;
     c_assert (m_owner v = dfk__this_fiber w);
     Some w
   }"

definition dfk_mutex_lock :: "dfk_world \<Rightarrow> addr \<Rightarrow> dfk_world option" where
  "dfk_mutex_lock w mutex = do {
     v \<leftarrow> get_mutex w mutex;
     let this = dfk__this_fiber w;
     if m_owner v = NULL then mutex_locked (set_mutex w mutex (v\<lparr>m_owner := this\<rparr>)) mutex
     else if m_owner v = this then mutex_locked w mutex
     else dfk__suspend (set_mutex w mutex (v\<lparr>m_waitqueue := m_waitqueue v @ [this]\<rparr>)) (At_lock mutex)
   }"

text \<open>Handing the mutex on, the common part of \<^verbatim>\<open>dfk_mutex_unlock\<close> and \<^verbatim>\<open>dfk_cond_wait\<close>.\<close>

definition mutex_hand_on :: "dfk_world \<Rightarrow> addr \<Rightarrow> dfk_world option" where
  "mutex_hand_on w mutex = do {
     v \<leftarrow> get_mutex w mutex;
     case m_waitqueue v of
       [] \<Rightarrow> Some (set_mutex w mutex (v\<lparr>m_owner := NULL\<rparr>))
     | next # rest \<Rightarrow> dfk__resume (set_mutex w mutex \<lparr>m_waitqueue = rest, m_owner = next\<rparr>) next
   }"

definition dfk_mutex_unlock :: "dfk_world \<Rightarrow> addr \<Rightarrow> dfk_world option" where
  "dfk_mutex_unlock w mutex = do {
     v \<leftarrow> get_mutex w mutex;
     c_assert (m_owner v \<noteq> NULL);
     c_assert (m_owner v = dfk__this_fiber w);
     mutex_hand_on w mutex
   }"

definition dfk_mutex_trylock :: "dfk_world \<Rightarrow> addr \<Rightarrow> (dfk_world \<times> dfk_error_e) option" where
  "dfk_mutex_trylock w mutex = do {
     v \<leftarrow> get_mutex w mutex;
     let this = dfk__this_fiber w;
     if m_owner v \<noteq> NULL then
       (if m_owner v = this then Some (w, dfk_err_ok) else Some (w, dfk_err_busy))
     else Some (set_mutex w mutex (v\<lparr>m_owner := this\<rparr>), dfk_err_ok)
   }"

section \<open>Condition variables\<close>

definition get_cond :: "dfk_world \<Rightarrow> addr \<Rightarrow> dfk_cond_t option" where
  "get_cond w cond = load (conds w) cond"

definition set_cond :: "dfk_world \<Rightarrow> addr \<Rightarrow> fiber list \<Rightarrow> dfk_world" where
  "set_cond w cond q = w\<lparr>conds := (conds w)(cond \<mapsto> \<lparr>c_waitqueue = q\<rparr>)\<rparr>"

definition dfk_cond_init :: "dfk_world \<Rightarrow> addr \<Rightarrow> dfk_world option" where
  "dfk_cond_init w cond = do { c_assert (cond \<noteq> NULL); Some (set_cond w cond []) }"

definition dfk_cond_free :: "dfk_world \<Rightarrow> addr \<Rightarrow> dfk_world option" where
  "dfk_cond_free w cond = do {
     v \<leftarrow> get_cond w cond;
     c_assert (c_waitqueue v = []);
     Some (w\<lparr>conds := (conds w)(cond := None)\<rparr>)
   }"

text \<open>Up to the suspension; behind it the fiber calls \<^verbatim>\<open>dfk_mutex_lock\<close>.\<close>

definition dfk_cond_wait :: "dfk_world \<Rightarrow> addr \<Rightarrow> addr \<Rightarrow> dfk_world option" where
  "dfk_cond_wait w cond mutex = do {
     c \<leftarrow> get_cond w cond;
     v \<leftarrow> get_mutex w mutex;
     let this = dfk__this_fiber w;
     c_assert (m_owner v \<noteq> NULL);
     c_assert (m_owner v = this);
     w \<leftarrow> mutex_hand_on w mutex;
     dfk__suspend (set_cond w cond (c_waitqueue c @ [this])) (At_wait cond mutex)
   }"

definition dfk_cond_signal :: "dfk_world \<Rightarrow> addr \<Rightarrow> dfk_world option" where
  "dfk_cond_signal w cond = do {
     c \<leftarrow> get_cond w cond;
     case c_waitqueue c of
       [] \<Rightarrow> Some w
     | fiber # rest \<Rightarrow> dfk__resume (set_cond w cond rest) fiber
   }"

fun wake_all :: "dfk_world \<Rightarrow> fiber list \<Rightarrow> dfk_world option" where
  "wake_all w [] = Some w"
| "wake_all w (fiber # waitqueue) = do { w \<leftarrow> dfk__resume w fiber; wake_all w waitqueue }"

definition dfk_cond_broadcast :: "dfk_world \<Rightarrow> addr \<Rightarrow> dfk_world option" where
  "dfk_cond_broadcast w cond = do {
     c \<leftarrow> get_cond w cond;
     wake_all (set_cond w cond []) (c_waitqueue c)
   }"

end
