(* ===== verification/Dfk_Sched_Inv.thy ===== *)
theory Dfk_Sched_Inv
  imports Dfk_Scheduler
begin

text \<open>
  Executions of a program of fibers as a step relation, and the invariant of its reachable
  states. A step is one run of the scheduler, of a fiber between two library calls, or of the
  event loop up to the next context switch.
\<close>

section \<open>Executions\<close>

datatype api =
    Lock addr | Unlock addr | Trylock addr | Wait addr addr | Signal addr | Broadcast addr
  | Postpone | Io | Spawn fiber addr size_t | Exit
  | New_mutex addr | New_cond addr | Del_mutex addr | Del_cond addr

text \<open>\<open>Io\<close> is \<^verbatim>\<open>dfk__io\<close>: the fiber registers with the event loop as the one to resume.\<close>

fun api_call :: "dfk_world \<Rightarrow> api \<Rightarrow> dfk_world option" where
  "api_call w (Lock m) = dfk_mutex_lock w m"
| "api_call w (Unlock m) = dfk_mutex_unlock w m"
| "api_call w (Trylock m) = map_option fst (dfk_mutex_trylock w m)"
| "api_call w (Wait c m) = dfk_cond_wait w c m"
| "api_call w (Signal c) = dfk_cond_signal w c"
| "api_call w (Broadcast c) = dfk_cond_broadcast w c"
| "api_call w Postpone = dfk__postpone w"
| "api_call w Io = dfk__iosuspend (w\<lparr>io_fibers := io_fibers w @ [dfk__this_fiber w]\<rparr>)"
| "api_call w (Spawn mem arg n) = map_option fst (dfk_spawn w mem arg n)"
| "api_call w Exit = dfk__terminate w (running w)"
| "api_call w (New_mutex m) = dfk_mutex_init w m"
| "api_call w (New_cond c) = dfk_cond_init w c"
| "api_call w (Del_mutex m) = dfk_mutex_free w m"
| "api_call w (Del_cond c) = dfk_cond_free w c"

text \<open>
  The rules a client respects: it uses initialised objects, unlocks and waits only with a mutex it
  owns, does not end while it owns one, and does not free an object that is in use. A new fiber's
  memory is no other fiber's, and the stack size leaves room for a stack behind the argument.
\<close>

fun api_ok :: "dfk_world \<Rightarrow> api \<Rightarrow> bool" where
  "api_ok w (Lock m) \<longleftrightarrow> m \<in> dom (mutexes w)"
| "api_ok w (Unlock m) \<longleftrightarrow> (\<exists>v. mutexes w m = Some v \<and> m_owner v = running w)"
| "api_ok w (Trylock m) \<longleftrightarrow> m \<in> dom (mutexes w)"
| "api_ok w (Wait c m) \<longleftrightarrow> c \<in> dom (conds w) \<and> (\<exists>v. mutexes w m = Some v \<and> m_owner v = running w)"
| "api_ok w (Signal c) \<longleftrightarrow> c \<in> dom (conds w)"
| "api_ok w (Broadcast c) \<longleftrightarrow> c \<in> dom (conds w)"
| "api_ok w Postpone \<longleftrightarrow> True"
| "api_ok w Io \<longleftrightarrow> True"
| "api_ok w (Spawn mem arg n) \<longleftrightarrow> mem \<notin> fibers w \<union> {s_fiber (sched w), s_eventloop (sched w)}
     \<and> (mem \<noteq> NULL \<longrightarrow> stack_layout (senv w) mem arg n \<noteq> None)"
| "api_ok w Exit \<longleftrightarrow> (\<forall>m v. mutexes w m = Some v \<longrightarrow> m_owner v \<noteq> running w)"
| "api_ok w (New_mutex m) \<longleftrightarrow> m \<noteq> NULL \<and> m \<notin> dom (mutexes w)"
| "api_ok w (New_cond c) \<longleftrightarrow> c \<noteq> NULL \<and> c \<notin> dom (conds w)"
| "api_ok w (Del_mutex m) \<longleftrightarrow> mutexes w m = Some \<lparr>m_waitqueue = [], m_owner = NULL\<rparr>
     \<and> (\<forall>f\<in>fibers w. \<forall>c. cont w f \<noteq> At_wait c m)"
| "api_ok w (Del_cond c) \<longleftrightarrow> conds w c = Some \<lparr>c_waitqueue = []\<rparr>"

text \<open>A fiber that gets the processor back finishes the call it was suspended in.\<close>

definition goes_on :: "dfk_world \<Rightarrow> dfk_world option" where
  "goes_on w = (let w' = go_on_at w (running w) Ready in
     case cont w (running w) of
       At_lock m \<Rightarrow> mutex_locked w' m
     | At_wait c m \<Rightarrow> dfk_mutex_lock w' m
     | At_end \<Rightarrow> None
     | _ \<Rightarrow> Some w')"

text \<open>The event loop resumes the fibers whose descriptors are ready and yields to the scheduler.\<close>

fun io_ready :: "dfk_world \<Rightarrow> fiber list \<Rightarrow> dfk_world option" where
  "io_ready w [] = dfk_yield w (dfk__this_fiber w) (s_fiber (sched w))"
| "io_ready w (f # fs) = do {
     w \<leftarrow> dfk__ioresume (w\<lparr>io_fibers := remove1 f (io_fibers w)\<rparr>) f;
     io_ready w fs
   }"

inductive dfk_step :: "dfk_world \<Rightarrow> dfk_world \<Rightarrow> bool" where
  scheduler: "running w = s_fiber (sched w) \<Longrightarrow> dfk__scheduler w = Some w' \<Longrightarrow> dfk_step w w'"
| goes_on: "running w \<in> fibers w \<Longrightarrow> cont w (running w) \<noteq> Ready \<Longrightarrow> goes_on w = Some w' \<Longrightarrow> dfk_step w w'"
| call: "running w \<in> fibers w \<Longrightarrow> cont w (running w) = Ready \<Longrightarrow> api_ok w a \<Longrightarrow> api_call w a = Some w' \<Longrightarrow> dfk_step w w'"
| eventloop: "running w = s_eventloop (sched w) \<Longrightarrow> distinct fs \<Longrightarrow> set fs \<subseteq> set (io_fibers w) \<Longrightarrow>
    io_ready w fs = Some w' \<Longrightarrow> dfk_step w w'"

inductive dfk_reach :: "dfk_world \<Rightarrow> bool" where
  init: "dfk_work (dfk_init e) m1 m2 m3 arg n = Some (Works w) \<Longrightarrow> distinct [m1, m2, m3] \<Longrightarrow> dfk_reach w"
| step: "dfk_reach w \<Longrightarrow> dfk_step w w' \<Longrightarrow> dfk_reach w'"

section \<open>Invariant\<close>

text \<open>All fibers in the wait queues of a family of objects.\<close>

definition queued :: "('v \<Rightarrow> fiber list) \<Rightarrow> (addr \<rightharpoonup> 'v) \<Rightarrow> fiber multiset" where
  "queued q M = (\<Sum>x\<in>dom M. mset (q (the (M x))))"

definition local_pending :: "sched_pc \<Rightarrow> fiber list" where
  "local_pending pc = (case pc of S_drain fs \<Rightarrow> fs | _ \<Rightarrow> [])"

definition on_cpu :: "fiber \<Rightarrow> fiber set \<Rightarrow> fiber multiset" where
  "on_cpu f F = (if f \<in> F then {#f#} else {#})"

text \<open>Every place a fiber can be in, with multiplicity.\<close>

definition places :: "dfk_world \<Rightarrow> fiber multiset" where
  "places w = on_cpu (running w) (fibers w)
     + mset (s_pending (sched w)) + mset (s_terminated (sched w)) + mset (local_pending (spc w))
     + mset (io_fibers w) + queued m_waitqueue (mutexes w) + queued c_waitqueue (conds w)"

definition base_ok :: "dfk_world \<Rightarrow> bool" where
  "base_ok w \<longleftrightarrow> finite (fibers w) \<and> distinct [NULL, s_fiber (sched w), s_eventloop (sched w)]
     \<and> fibers w \<inter> {NULL, s_fiber (sched w), s_eventloop (sched w)} = {}
     \<and> running w \<in> fibers w \<union> {s_fiber (sched w), s_eventloop (sched w)}
     \<and> (running w = s_fiber (sched w) \<or> s_current (sched w) = running w)
     \<and> finite (dom (mutexes w)) \<and> finite (dom (conds w)) \<and> NULL \<notin> dom (mutexes w) \<and> NULL \<notin> dom (conds w)
     \<and> s_iowait (sched w) = of_nat (length (io_fibers w))
     \<and> (running w = s_fiber (sched w) \<or> spc w \<noteq> S_done)"

definition cont_ok :: "dfk_world \<Rightarrow> bool" where
  "cont_ok w \<longleftrightarrow> (\<forall>f\<in>fibers w. (cont w f = Ready \<longrightarrow> f = running w)
     \<and> (cont w f = At_end \<longleftrightarrow> f \<in> set (s_terminated (sched w)))
     \<and> (\<forall>m. cont w f = At_lock m \<longrightarrow> m \<in> dom (mutexes w))
     \<and> (\<forall>c m. cont w f = At_wait c m \<longrightarrow> m \<in> dom (mutexes w)))"

definition mutex_ok :: "dfk_world \<Rightarrow> addr \<Rightarrow> dfk_mutex_t \<Rightarrow> bool" where
  "mutex_ok w m v \<longleftrightarrow> (m_owner v = NULL \<longrightarrow> m_waitqueue v = [])
     \<and> (m_owner v \<noteq> NULL \<longrightarrow> m_owner v \<in> fibers w - set (s_terminated (sched w)))
     \<and> set (m_waitqueue v) = {f \<in> fibers w. cont w f = At_lock m} - {m_owner v}"

definition cond_ok :: "dfk_world \<Rightarrow> addr \<Rightarrow> dfk_cond_t \<Rightarrow> bool" where
  "cond_ok w c v \<longleftrightarrow> (\<forall>f\<in>set (c_waitqueue v). \<exists>m. cont w f = At_wait c m)"

definition world_inv :: "dfk_world \<Rightarrow> bool" where
  "world_inv w \<longleftrightarrow> base_ok w \<and> cont_ok w \<and> places w = mset_set (fibers w)
     \<and> (\<forall>m v. mutexes w m = Some v \<longrightarrow> mutex_ok w m v) \<and> (\<forall>c v. conds w c = Some v \<longrightarrow> cond_ok w c v)"

subsection \<open>Queues\<close>

lemma queued_upd:
  assumes "finite (dom M)" "M x = Some v"
  shows "queued q (M(x \<mapsto> v')) + mset (q v) = queued q M + mset (q v')"
proof -
  have d: "dom (M(x \<mapsto> v')) = dom M" "x \<in> dom M" using assms(2) by auto
  have "queued q (M(x \<mapsto> v')) = mset (q v') + (\<Sum>y\<in>dom M - {x}. mset (q (the (M y))))"
    unfolding queued_def d(1) by (subst sum.remove [OF assms(1) d(2)]) (auto intro: sum.cong)
  moreover have "queued q M = mset (q v) + (\<Sum>y\<in>dom M - {x}. mset (q (the (M y))))"
    unfolding queued_def by (subst sum.remove [OF assms(1) d(2)]) (simp add: assms(2))
  ultimately show ?thesis by simp
qed

lemma queued_new:
  assumes "finite (dom M)" "M x = None"
  shows "queued q (M(x \<mapsto> v)) = queued q M + mset (q v)"
proof -
  have "queued q (M(x \<mapsto> v)) = mset (q v) + (\<Sum>y\<in>dom M. mset (q (the ((M(x \<mapsto> v)) y))))"
    using assms by (simp add: queued_def domIff)
  also have "(\<Sum>y\<in>dom M. mset (q (the ((M(x \<mapsto> v)) y)))) = queued q M"
    unfolding queued_def using assms(2) by (intro sum.cong) auto
  finally show ?thesis by (simp only: ac_simps)
qed

lemma queued_del:
  assumes "finite (dom M)" "M x = Some v"
  shows "queued q (M(x := None)) + mset (q v) = queued q M"
proof -
  have d: "x \<in> dom M" using assms(2) by auto
  have "queued q M = mset (q v) + (\<Sum>y\<in>dom M - {x}. mset (q (the (M y))))"
    unfolding queued_def by (subst sum.remove [OF assms(1) d]) (simp add: assms(2))
  moreover have "queued q (M(x := None)) = (\<Sum>y\<in>dom M - {x}. mset (q (the (M y))))"
    unfolding queued_def by (intro sum.cong) auto
  ultimately show ?thesis by simp
qed

lemma queued_in: "finite (dom M) \<Longrightarrow> M x = Some v \<Longrightarrow> mset (q v) \<subseteq># queued q M"
  using queued_del [of M x v q] by (metis mset_subset_eq_add_right)

subsection \<open>Consequences of the conservation law\<close>

lemma inv_count:
  "world_inv w \<Longrightarrow> count (places w) f = (if f \<in> fibers w then 1 else 0)"
  by (simp add: world_inv_def base_ok_def)

lemma placed_once:
  assumes "world_inv w" "places w = A + B" "f \<in># A"
  shows "f \<in> fibers w" "f \<notin># B" "count A f = 1"
proof -
  have "count A f + count B f = (if f \<in> fibers w then 1 else 0)" using inv_count [OF assms(1), of f] assms(2) by simp
  moreover have "0 < count A f" using assms(3) by simp
  ultimately have "f \<in> fibers w" "count B f = 0" "count A f = 1"
    by (auto simp del: count_greater_zero_iff split: if_splits)
  then show "f \<in> fibers w" "f \<notin># B" "count A f = 1" by (auto simp: count_eq_zero_iff)
qed

text \<open>The fiber that runs is in no list, and is the one the scheduler calls current.\<close>

lemma running_facts:
  assumes "world_inv w" "running w \<in> fibers w"
  shows "dfk__this_fiber w = running w" "running w \<noteq> NULL" "s_fiber (sched w) \<noteq> NULL"
    "running w \<noteq> s_fiber (sched w)" "running w \<noteq> s_eventloop (sched w)" "spc w \<noteq> S_done"
    "running w \<notin> set (s_pending (sched w))" "running w \<notin> set (s_terminated (sched w))"
    "running w \<notin> set (local_pending (spc w))" "running w \<notin> set (io_fibers w)"
    "\<And>m v. mutexes w m = Some v \<Longrightarrow> running w \<notin> set (m_waitqueue v)"
    "\<And>c v. conds w c = Some v \<Longrightarrow> running w \<notin> set (c_waitqueue v)"
proof -
  have b: "base_ok w" using assms(1) by (simp add: world_inv_def)
  then show "dfk__this_fiber w = running w" "running w \<noteq> NULL" "s_fiber (sched w) \<noteq> NULL"
    "running w \<noteq> s_fiber (sched w)" "running w \<noteq> s_eventloop (sched w)" "spc w \<noteq> S_done"
    using assms(2) by (auto simp: base_ok_def dfk__this_fiber_def)
  have "places w = {#running w#} + (mset (s_pending (sched w)) + mset (s_terminated (sched w))
     + mset (local_pending (spc w)) + mset (io_fibers w) + queued m_waitqueue (mutexes w) + queued c_waitqueue (conds w))"
    using assms(2) by (simp add: places_def on_cpu_def)
  from placed_once(2) [OF assms(1) this, of "running w"]
  have n: "running w \<notin># mset (s_pending (sched w)) + mset (s_terminated (sched w))
     + mset (local_pending (spc w)) + mset (io_fibers w) + queued m_waitqueue (mutexes w) + queued c_waitqueue (conds w)"
    by simp
  then show "running w \<notin> set (s_pending (sched w))" "running w \<notin> set (s_terminated (sched w))"
    "running w \<notin> set (local_pending (spc w))" "running w \<notin> set (io_fibers w)"
    by auto
  show "running w \<notin> set (m_waitqueue v)" if "mutexes w m = Some v" for m v
    using n mset_subset_eqD [OF queued_in [of "mutexes w" m v m_waitqueue], of "running w"] b that by (auto simp: base_ok_def)
  show "running w \<notin> set (c_waitqueue v)" if "conds w c = Some v" for c v
    using n mset_subset_eqD [OF queued_in [of "conds w" c v c_waitqueue], of "running w"] b that by (auto simp: base_ok_def)
qed

lemma waiter_facts:
  assumes "world_inv w" "mutexes w m = Some v" "f \<in> set (m_waitqueue v)"
  shows "f \<in> fibers w" "f \<notin> set (s_terminated (sched w))" "f \<noteq> running w" "f \<noteq> m_owner v" "cont w f = At_lock m"
    "f \<noteq> NULL" "count (mset (m_waitqueue v)) f = 1"
proof -
  have b: "finite (dom (mutexes w))" "NULL \<notin> fibers w" and mo: "mutex_ok w m v"
    using assms(1,2) by (auto simp: world_inv_def base_ok_def)
  define R where "R = queued m_waitqueue ((mutexes w)(m := None))"
  have q: "queued m_waitqueue (mutexes w) = mset (m_waitqueue v) + R"
    unfolding R_def using queued_del [OF b(1) assms(2), of m_waitqueue] by (simp add: add.commute)
  define B where "B = on_cpu (running w) (fibers w)
     + mset (s_pending (sched w)) + mset (s_terminated (sched w)) + mset (local_pending (spc w))
     + mset (io_fibers w) + R + queued c_waitqueue (conds w)"
  have "places w = mset (m_waitqueue v) + B"
    unfolding places_def B_def q by (simp add: ac_simps)
  from placed_once [OF assms(1) this, of f] assms(3)
  have p: "f \<in> fibers w" "f \<notin># B" "count (mset (m_waitqueue v)) f = 1" by simp_all
  then show "f \<in> fibers w" "f \<notin> set (s_terminated (sched w))" "f \<noteq> running w" "f \<noteq> NULL"
    "count (mset (m_waitqueue v)) f = 1" using b(2) by (auto simp: B_def on_cpu_def)
  show "f \<noteq> m_owner v" "cont w f = At_lock m" using mo assms(3) by (auto simp: mutex_ok_def)
qed

subsection \<open>Calls that keep the processor\<close>

lemma inv_parts:
  assumes "world_inv w"
  shows "base_ok w" "cont_ok w" "places w = mset_set (fibers w)" "finite (dom (mutexes w))" "finite (dom (conds w))"
    "\<And>m v. mutexes w m = Some v \<Longrightarrow> mutex_ok w m v \<and> m \<noteq> NULL"
    "\<And>c v. conds w c = Some v \<Longrightarrow> cond_ok w c v \<and> c \<noteq> NULL"
  using assms by (auto simp: world_inv_def base_ok_def)

lemma world_invI:
  assumes "base_ok w" "cont_ok w" "places w = mset_set (fibers w)"
    and "\<And>m v. mutexes w m = Some v \<Longrightarrow> mutex_ok w m v" "\<And>c v. conds w c = Some v \<Longrightarrow> cond_ok w c v"
  shows "world_inv w"
  using assms by (simp add: world_inv_def)

text \<open>Fibers that become pending.\<close>

definition wake :: "dfk_world \<Rightarrow> fiber list \<Rightarrow> dfk_world" where
  "wake w ns = w\<lparr>sched := (sched w)\<lparr>s_pending := s_pending (sched w) @ ns\<rparr>\<rparr>"

text \<open>A mutex lets some of its waiters go.\<close>

lemma inv_mutex_upd:
  assumes inv: "world_inv w" and m: "mutexes w m = Some v"
    and q: "mset (m_waitqueue v) = mset ns + mset (m_waitqueue v')" and ok: "mutex_ok w m v'"
  shows "world_inv (wake (set_mutex w m v') ns)"
proof (rule world_invI)
  note b = inv_parts [OF inv]
  let ?w = "wake (set_mutex w m v') ns"
  show "base_ok ?w" using b(1) m by (auto simp: base_ok_def set_mutex_def wake_def)
  show "cont_ok ?w" using b(2) m by (auto simp: cont_ok_def set_mutex_def wake_def)
  have u: "queued m_waitqueue (mutexes w) = mset ns + queued m_waitqueue ((mutexes w)(m \<mapsto> v'))"
    using queued_upd [OF b(4) m, of m_waitqueue v'] q by (simp add: ac_simps)
  show "places ?w = mset_set (fibers ?w)"
    using b(3) unfolding places_def u by (simp add: set_mutex_def wake_def ac_simps)
  show "mutex_ok ?w m' u" if "mutexes ?w m' = Some u" for m' u
    using that b(6) ok by (auto simp: set_mutex_def mutex_ok_def wake_def split: if_splits)
  show "cond_ok ?w c u" if "conds ?w c = Some u" for c u
    using that b(7) by (auto simp: cond_ok_def set_mutex_def wake_def)
qed

lemma inv_cond_upd:
  assumes inv: "world_inv w" and c: "conds w c = Some v" and q: "mset (c_waitqueue v) = mset ns + mset q'"
  shows "world_inv (wake (set_cond w c q') ns)"
proof (rule world_invI)
  note b = inv_parts [OF inv]
  let ?w = "wake (set_cond w c q') ns"
  show "base_ok ?w" using b(1) c by (auto simp: base_ok_def set_cond_def wake_def)
  show "cont_ok ?w" using b(2) by (auto simp: cont_ok_def set_cond_def wake_def)
  have u: "queued c_waitqueue (conds w) = mset ns + queued c_waitqueue ((conds w)(c \<mapsto> \<lparr>c_waitqueue = q'\<rparr>))"
    using queued_upd [OF b(5) c, of c_waitqueue "\<lparr>c_waitqueue = q'\<rparr>"] q by (simp add: ac_simps)
  show "places ?w = mset_set (fibers ?w)"
    using b(3) unfolding places_def u by (simp add: set_cond_def wake_def ac_simps)
  show "mutex_ok ?w m u" if "mutexes ?w m = Some u" for m u
    using that b(6) by (auto simp: set_cond_def mutex_ok_def wake_def)
  have "set q' \<subseteq> set (c_waitqueue v)" using q by (metis mset_subset_eq_add_right set_mset_mono set_mset_mset)
  then show "cond_ok ?w d u" if "conds ?w d = Some u" for d u
    using that b(7) [OF c] b(7) [of d u] by (auto simp: cond_ok_def set_cond_def wake_def split: if_splits)
qed

lemma wake_nil [simp]: "wake w [] = w"
  by (simp add: wake_def)

lemma resume_wake: "f \<noteq> NULL \<Longrightarrow> dfk__resume w f = Some (wake w [f])"
  by (simp add: dfk__resume_def wake_def)

lemma wake_wake [simp]: "wake (wake w xs) ys = wake w (xs @ ys)"
  by (simp add: wake_def)

lemma hand_on_inv:
  assumes inv: "world_inv w" and run: "running w \<in> fibers w" "cont w (running w) = Ready"
    and m: "mutexes w m = Some v" "m_owner v = running w"
  shows "\<exists>ns v'. mutex_hand_on w m = Some (wake (set_mutex w m v') ns) \<and> world_inv (wake (set_mutex w m v') ns)
    \<and> m_waitqueue v = ns @ m_waitqueue v' \<and> m_owner v' = hd_or ns NULL"
proof -
  have b: "mutex_ok w m v" "m \<noteq> NULL" using inv_parts(6) [OF inv m(1)] by auto
  show ?thesis
  proof (cases "m_waitqueue v")
    case Nil
    have "mutex_ok w m (v\<lparr>m_owner := NULL\<rparr>)" using b(1) m Nil run by (auto simp: mutex_ok_def)
    from inv_mutex_upd [OF inv m(1) _ this, of "[]"] show ?thesis
      using m b Nil by (intro exI [of _ "[]"] exI [of _ "v\<lparr>m_owner := NULL\<rparr>"]) (simp add: mutex_hand_on_def get_mutex_def)
  next
    case (Cons n rest)
    let ?v = "\<lparr>m_waitqueue = rest, m_owner = n\<rparr>"
    note wf = waiter_facts [OF inv m(1), of n]
    have "n \<notin> set rest" using wf(7) Cons by (auto simp: count_eq_zero_iff)
    then have "mutex_ok w m ?v" using b(1) m Cons run wf by (auto simp: mutex_ok_def)
    from inv_mutex_upd [OF inv m(1) _ this, of "[n]"] show ?thesis
      using m b Cons wf by (intro exI [of _ "[n]"] exI [of _ ?v]) (simp add: mutex_hand_on_def get_mutex_def resume_wake)
  qed
qed

lemma inv_unlock:
  assumes inv: "world_inv w" and run: "running w \<in> fibers w" "cont w (running w) = Ready"
    and m: "mutexes w m = Some v" "m_owner v = running w"
  shows "\<exists>w'. dfk_mutex_unlock w m = Some w' \<and> world_inv w'"
  using hand_on_inv [OF assms] running_facts [OF inv run(1)] inv_parts(6) [OF inv m(1)] m
  by (auto simp: dfk_mutex_unlock_def get_mutex_def)

lemma inv_take_free:
  assumes inv: "world_inv w" and run: "running w \<in> fibers w" "cont w (running w) = Ready"
    and m: "mutexes w m = Some v" "m_owner v = NULL"
  shows "world_inv (set_mutex w m (v\<lparr>m_owner := running w\<rparr>))"
proof -
  have "mutex_ok w m (v\<lparr>m_owner := running w\<rparr>)"
    using inv_parts(6) [OF inv m(1)] inv_parts(1) [OF inv] m(2) run running_facts [OF inv run(1)]
    by (auto simp: mutex_ok_def base_ok_def)
  from inv_mutex_upd [OF inv m(1) _ this, of "[]"] show ?thesis by simp
qed

lemma wake_all_eq: "NULL \<notin> set fs \<Longrightarrow> wake_all w fs = Some (wake w fs)"
  by (induction fs arbitrary: w) (auto simp: resume_wake)

lemma cond_waiters:
  assumes "world_inv w" "conds w c = Some v"
  shows "set (c_waitqueue v) \<subseteq> fibers w" "NULL \<notin> set (c_waitqueue v)"
proof -
  have "set_mset (queued c_waitqueue (conds w)) \<subseteq> fibers w"
  proof
    fix f
    assume "f \<in># queued c_waitqueue (conds w)"
    then have "f \<in># places w" by (simp add: places_def)
    then show "f \<in> fibers w" using inv_count [OF assms(1), of f] by (auto simp: count_greater_zero_iff [symmetric] split: if_splits)
  qed
  moreover have "set (c_waitqueue v) \<subseteq> set_mset (queued c_waitqueue (conds w))"
    using set_mset_mono [OF queued_in [of "conds w" c v c_waitqueue]] inv_parts(5) [OF assms(1)] assms(2) by simp
  ultimately show "set (c_waitqueue v) \<subseteq> fibers w" "NULL \<notin> set (c_waitqueue v)"
    using inv_parts(1) [OF assms(1)] by (auto simp: base_ok_def)
qed

lemma inv_signal:
  assumes inv: "world_inv w" and c: "conds w c = Some v"
  shows "\<exists>w'. dfk_cond_signal w c = Some w' \<and> world_inv w'" "\<exists>w'. dfk_cond_broadcast w c = Some w' \<and> world_inv w'"
proof -
  have b: "c \<noteq> NULL" using inv_parts(7) [OF inv c] by simp
  note n = cond_waiters(2) [OF assms]
  show "\<exists>w'. dfk_cond_signal w c = Some w' \<and> world_inv w'"
  proof (cases "c_waitqueue v")
    case Nil
    then show ?thesis using inv b c by (simp add: dfk_cond_signal_def get_cond_def)
  next
    case (Cons f rest)
    then show ?thesis
      using inv_cond_upd [OF inv c, of "[f]" rest] b c n by (simp add: dfk_cond_signal_def get_cond_def resume_wake)
  qed
  show "\<exists>w'. dfk_cond_broadcast w c = Some w' \<and> world_inv w'"
    using inv_cond_upd [OF inv c, of "c_waitqueue v" "[]"] b c n
    by (simp add: dfk_cond_broadcast_def get_cond_def wake_all_eq)
qed

subsection \<open>Calls that give up the processor\<close>

text \<open>The fiber that runs leaves the processor to the scheduler.\<close>

definition off :: "dfk_world \<Rightarrow> go_on \<Rightarrow> dfk_world" where
  "off w k = w\<lparr>cont := (cont w)(running w := k), sched := (sched w)\<lparr>s_current := s_fiber (sched w)\<rparr>,
     running := s_fiber (sched w)\<rparr>"

lemmas switch_defs = dfk__suspend_def dfk_yield_def dfk__yielded_def go_on_at_def off_def dfk__this_fiber_def

lemma off_base:
  assumes "world_inv w" "running w \<in> fibers w"
  shows "base_ok (off w k)"
  using inv_parts(1) [OF assms(1)] by (auto simp: base_ok_def off_def)

lemma off_cont:
  assumes "world_inv w" "running w \<in> fibers w" "k \<noteq> Ready" "k \<noteq> At_end"
    "\<And>m. k = At_lock m \<Longrightarrow> m \<in> dom (mutexes w)" "\<And>c m. k = At_wait c m \<Longrightarrow> m \<in> dom (mutexes w)"
  shows "cont_ok (off w k)"
proof -
  note r = running_facts [OF assms(1,2)]
  have c: "k = At_lock m \<Longrightarrow> m \<in> dom (mutexes w)" "k = At_wait c m \<Longrightarrow> m \<in> dom (mutexes w)" for c m using assms(5,6) by auto
  show ?thesis
    unfolding cont_ok_def
  proof
    fix f
    assume "f \<in> fibers (off w k)"
    then have "f \<in> fibers w" by (simp add: off_def)
    then show "(cont (off w k) f = Ready \<longrightarrow> f = running (off w k))
       \<and> (cont (off w k) f = At_end \<longleftrightarrow> f \<in> set (s_terminated (sched (off w k))))
       \<and> (\<forall>m. cont (off w k) f = At_lock m \<longrightarrow> m \<in> dom (mutexes (off w k)))
       \<and> (\<forall>c m. cont (off w k) f = At_wait c m \<longrightarrow> m \<in> dom (mutexes (off w k)))"
      using inv_parts(2) [OF assms(1)] r(8) assms(3,4) c
      by (cases "f = running w") (simp add: off_def, auto simp add: off_def cont_ok_def)
  qed
qed

lemma off_mutex:
  assumes "world_inv w" "running w \<in> fibers w" "cont w (running w) = Ready" "mutexes w m = Some v" "k \<noteq> At_lock m"
  shows "mutex_ok (off w k) m v"
proof -
  have "(((cont w)(running w := k)) f = At_lock m) = (cont w f = At_lock m)" for f using assms(3,5) by simp
  then show ?thesis using inv_parts(6) [OF assms(1,4)] unfolding mutex_ok_def off_def by simp
qed

lemma off_cond:
  assumes "world_inv w" "running w \<in> fibers w" "conds w c = Some v"
  shows "cond_ok (off w k) c v"
  using inv_parts(7) [OF assms(1,3)] running_facts(12) [OF assms] by (auto simp: cond_ok_def off_def)

lemma off_places:
  assumes "world_inv w" "running w \<in> fibers w"
  shows "places (off w k) + {#running w#} = mset_set (fibers w)"
proof -
  have "on_cpu (running w) (fibers w) = {#running w#}" "on_cpu (s_fiber (sched w)) (fibers w) = {#}"
    using assms inv_parts(1) [OF assms(1)] by (auto simp: on_cpu_def base_ok_def)
  then show ?thesis using inv_parts(3) [OF assms(1)] by (simp add: places_def off_def)
qed

lemma inv_lock_wait:
  assumes inv: "world_inv w" and run: "running w \<in> fibers w" "cont w (running w) = Ready"
    and m: "mutexes w m = Some v" "m_owner v \<noteq> NULL" "m_owner v \<noteq> running w"
  shows "world_inv (set_mutex (off w (At_lock m)) m (v\<lparr>m_waitqueue := m_waitqueue v @ [running w]\<rparr>))" (is "world_inv ?w")
proof (rule world_invI)
  note b = inv_parts [OF inv] and r = running_facts [OF inv run(1)]
  let ?v = "v\<lparr>m_waitqueue := m_waitqueue v @ [running w]\<rparr>"
  show "base_ok ?w" using off_base [OF inv run(1), of "At_lock m"] m(1) b(6) [OF m(1)] by (simp add: base_ok_def set_mutex_def)
  have "cont_ok (off w (At_lock m))" using off_cont [OF inv run(1), of "At_lock m"] m(1) by auto
  then show "cont_ok ?w" by (simp add: cont_ok_def set_mutex_def)
  have u: "queued m_waitqueue ((mutexes w)(m \<mapsto> ?v)) = queued m_waitqueue (mutexes w) + {#running w#}"
    using queued_upd [OF b(4) m(1), of m_waitqueue ?v] by simp
  show "places ?w = mset_set (fibers ?w)"
    using off_places [OF inv run(1), of "At_lock m"] u by (simp add: places_def set_mutex_def off_def)
  show "mutex_ok ?w m' u" if "mutexes ?w m' = Some u" for m' u
  proof (cases "m' = m")
    case True
    have "{f \<in> fibers w. ((cont w)(running w := At_lock m)) f = At_lock m} = insert (running w) {f \<in> fibers w. cont w f = At_lock m}"
      using run by auto
    moreover have "u = ?v" using that True by (simp add: set_mutex_def)
    ultimately show ?thesis
      using b(6) [OF m(1)] m True by (simp add: mutex_ok_def set_mutex_def off_def insert_Diff_if)
  next
    case False
    then have "mutex_ok (off w (At_lock m)) m' u"
      using that off_mutex [OF inv run, of m' u "At_lock m"] by (simp add: set_mutex_def off_def)
    then show ?thesis by (simp add: mutex_ok_def set_mutex_def)
  qed
  show "cond_ok ?w c u" if "conds ?w c = Some u" for c u
    using that off_cond [OF inv run(1), of c u "At_lock m"] by (simp add: cond_ok_def set_mutex_def off_def)
qed

lemma inv_cond_wait:
  assumes inv: "world_inv w" and run: "running w \<in> fibers w" "cont w (running w) = Ready"
    and c: "conds w c = Some v" and m: "m \<in> dom (mutexes w)"
  shows "world_inv (set_cond (off w (At_wait c m)) c (c_waitqueue v @ [running w]))" (is "world_inv ?w")
proof (rule world_invI)
  note b = inv_parts [OF inv] and r = running_facts [OF inv run(1)]
  let ?v = "\<lparr>c_waitqueue = c_waitqueue v @ [running w]\<rparr>"
  show "base_ok ?w" using off_base [OF inv run(1), of "At_wait c m"] b(7) [OF c] by (simp add: base_ok_def set_cond_def)
  have "cont_ok (off w (At_wait c m))" using off_cont [OF inv run(1), of "At_wait c m"] m by auto
  then show "cont_ok ?w" by (simp add: cont_ok_def set_cond_def)
  have u: "queued c_waitqueue ((conds w)(c \<mapsto> ?v)) = queued c_waitqueue (conds w) + {#running w#}"
    using queued_upd [OF b(5) c, of c_waitqueue ?v] by simp
  show "places ?w = mset_set (fibers ?w)"
    using off_places [OF inv run(1), of "At_wait c m"] u by (simp add: places_def set_cond_def off_def)
  show "mutex_ok ?w m' u" if "mutexes ?w m' = Some u" for m' u
    using that off_mutex [OF inv run, of m' u "At_wait c m"] by (simp add: mutex_ok_def set_cond_def off_def)
  show "cond_ok ?w d u" if "conds ?w d = Some u" for d u
  proof (cases "d = c")
    case True
    then show ?thesis using that b(7) [OF c] r(12) [OF c] by (auto simp: cond_ok_def set_cond_def off_def)
  next
    case False
    then show ?thesis using that off_cond [OF inv run(1), of d u "At_wait c m"] by (simp add: cond_ok_def set_cond_def off_def)
  qed
qed

lemma inv_postpone:
  assumes inv: "world_inv w" and run: "running w \<in> fibers w" "cont w (running w) = Ready"
  shows "world_inv (wake (off w At_postpone) [running w])" (is "world_inv ?w")
proof (rule world_invI)
  show "base_ok ?w" using off_base [OF inv run(1), of At_postpone] by (auto simp: base_ok_def wake_def)
  have "cont_ok (off w At_postpone)" using off_cont [OF inv run(1), of At_postpone] by auto
  then show "cont_ok ?w" by (simp add: cont_ok_def wake_def)
  show "places ?w = mset_set (fibers ?w)"
    using off_places [OF inv run(1), of At_postpone] by (simp add: places_def wake_def off_def)
  show "mutex_ok ?w m u" if "mutexes ?w m = Some u" for m u
    using that off_mutex [OF inv run, of m u At_postpone] by (simp add: mutex_ok_def wake_def off_def)
  show "cond_ok ?w c u" if "conds ?w c = Some u" for c u
    using that off_cond [OF inv run(1), of c u At_postpone] by (simp add: cond_ok_def wake_def off_def)
qed

definition park_io :: "dfk_world \<Rightarrow> fiber \<Rightarrow> dfk_world" where
  "park_io w f = w\<lparr>io_fibers := io_fibers w @ [f], sched := (sched w)\<lparr>s_iowait := s_iowait (sched w) + 1\<rparr>\<rparr>"

lemma inv_io:
  assumes inv: "world_inv w" and run: "running w \<in> fibers w" "cont w (running w) = Ready"
  shows "world_inv (park_io (off w At_io) (running w))" (is "world_inv ?w")
proof (rule world_invI)
  show "base_ok ?w" using off_base [OF inv run(1), of At_io] by (auto simp: base_ok_def park_io_def)
  have "cont_ok (off w At_io)" using off_cont [OF inv run(1), of At_io] by auto
  then show "cont_ok ?w" by (simp add: cont_ok_def park_io_def)
  show "places ?w = mset_set (fibers ?w)"
    using off_places [OF inv run(1), of At_io] by (simp add: places_def park_io_def off_def)
  show "mutex_ok ?w m u" if "mutexes ?w m = Some u" for m u
    using that off_mutex [OF inv run, of m u At_io] by (simp add: mutex_ok_def park_io_def off_def)
  show "cond_ok ?w c u" if "conds ?w c = Some u" for c u
    using that off_cond [OF inv run(1), of c u At_io] by (simp add: cond_ok_def park_io_def off_def)
qed

definition bury :: "dfk_world \<Rightarrow> fiber \<Rightarrow> dfk_world" where
  "bury w f = w\<lparr>sched := (sched w)\<lparr>s_terminated := s_terminated (sched w) @ [f]\<rparr>\<rparr>"

lemma inv_exit:
  assumes inv: "world_inv w" and run: "running w \<in> fibers w" "cont w (running w) = Ready"
    and own: "\<forall>m v. mutexes w m = Some v \<longrightarrow> m_owner v \<noteq> running w"
  shows "world_inv (bury (off w At_end) (running w))" (is "world_inv ?w")
proof (rule world_invI)
  show "base_ok ?w" using off_base [OF inv run(1), of At_end] by (auto simp: base_ok_def bury_def)
  show "cont_ok ?w"
    unfolding cont_ok_def
  proof
    fix f
    assume "f \<in> fibers ?w"
    then have "f \<in> fibers w" by (simp add: off_def bury_def)
    then show "(cont ?w f = Ready \<longrightarrow> f = running ?w) \<and> (cont ?w f = At_end \<longleftrightarrow> f \<in> set (s_terminated (sched ?w)))
       \<and> (\<forall>m. cont ?w f = At_lock m \<longrightarrow> m \<in> dom (mutexes ?w)) \<and> (\<forall>c m. cont ?w f = At_wait c m \<longrightarrow> m \<in> dom (mutexes ?w))"
      using inv_parts(2) [OF inv] by (cases "f = running w") (simp add: off_def bury_def, auto simp add: off_def bury_def cont_ok_def)
  qed
  show "places ?w = mset_set (fibers ?w)"
    using off_places [OF inv run(1), of At_end] by (simp add: places_def bury_def off_def)
  show "mutex_ok ?w m u" if "mutexes ?w m = Some u" for m u
    using that off_mutex [OF inv run, of m u At_end] own by (auto simp: mutex_ok_def bury_def off_def)
  show "cond_ok ?w c u" if "conds ?w c = Some u" for c u
    using that off_cond [OF inv run(1), of c u At_end] by (simp add: cond_ok_def bury_def off_def)
qed

subsection \<open>The calls of the interface\<close>

lemma inv_lock:
  assumes inv: "world_inv w" and run: "running w \<in> fibers w" "cont w (running w) = Ready" and m: "m \<in> dom (mutexes w)"
  shows "\<exists>w'. dfk_mutex_lock w m = Some w' \<and> world_inv w'"
proof -
  from m obtain v where v: "mutexes w m = Some v" by auto
  note r = running_facts [OF inv run(1)] and b = inv_parts(6) [OF inv v]
  consider "m_owner v = NULL" | "m_owner v = running w" | "m_owner v \<noteq> NULL" "m_owner v \<noteq> running w" by auto
  then show ?thesis
  proof cases
    case 1
    then show ?thesis using inv_take_free [OF inv run v] v b r(1)
      by (simp add: dfk_mutex_lock_def get_mutex_def mutex_locked_def set_mutex_def dfk__this_fiber_def)
  next
    case 2
    then show ?thesis using inv v b r(1,2) by (simp add: dfk_mutex_lock_def get_mutex_def mutex_locked_def)
  next
    case 3
    then have "dfk_mutex_lock w m = Some (set_mutex (off w (At_lock m)) m (v\<lparr>m_waitqueue := m_waitqueue v @ [running w]\<rparr>))"
      using v b r(1-3) by (auto simp: dfk_mutex_lock_def get_mutex_def switch_defs set_mutex_def Let_def intro!: dfk_world.equality)
    then show ?thesis using inv_lock_wait [OF inv run v 3] by simp
  qed
qed

lemma inv_trylock:
  assumes inv: "world_inv w" and run: "running w \<in> fibers w" "cont w (running w) = Ready" and m: "m \<in> dom (mutexes w)"
  shows "\<exists>w' e. dfk_mutex_trylock w m = Some (w', e) \<and> world_inv w'"
proof -
  from m obtain v where v: "mutexes w m = Some v" by auto
  note r = running_facts [OF inv run(1)] and b = inv_parts(6) [OF inv v]
  show ?thesis
    using inv inv_take_free [OF inv run v] v b r(1) by (cases "m_owner v = NULL") (auto simp: dfk_mutex_trylock_def get_mutex_def)
qed

lemma wake_simps [simp]:
  "fibers (wake w ns) = fibers w" "running (wake w ns) = running w" "cont (wake w ns) = cont w"
  "mutexes (wake w ns) = mutexes w" "conds (wake w ns) = conds w"
  by (simp_all add: wake_def)

lemma set_mutex_simps [simp]:
  "fibers (set_mutex w m v) = fibers w" "running (set_mutex w m v) = running w" "cont (set_mutex w m v) = cont w"
  "mutexes (set_mutex w m v) = (mutexes w)(m \<mapsto> v)" "conds (set_mutex w m v) = conds w"
  by (simp_all add: set_mutex_def)

lemma inv_wait:
  assumes inv: "world_inv w" and run: "running w \<in> fibers w" "cont w (running w) = Ready"
    and c: "c \<in> dom (conds w)" and m: "mutexes w m = Some v" "m_owner v = running w"
  shows "\<exists>w'. dfk_cond_wait w c m = Some w' \<and> world_inv w'"
proof -
  from c obtain q where q: "conds w c = Some q" by auto
  note r = running_facts [OF inv run(1)] and b = inv_parts(6) [OF inv m(1)] inv_parts(7) [OF inv q]
  obtain ns v' where h: "mutex_hand_on w m = Some (wake (set_mutex w m v') ns)" and i: "world_inv (wake (set_mutex w m v') ns)"
    using hand_on_inv [OF inv run m] by auto
  let ?w = "wake (set_mutex w m v') ns"
  have run': "running ?w \<in> fibers ?w" "cont ?w (running ?w) = Ready" "conds ?w c = Some q" "m \<in> dom (mutexes ?w)"
    using run q by simp_all
  note r' = running_facts [OF i run'(1)]
  have "dfk_cond_wait w c m = Some (set_cond (off ?w (At_wait c m)) c (c_waitqueue q @ [running ?w]))"
    using m q b r(1-3) r'(1-3) h by (auto simp: dfk_cond_wait_def get_cond_def get_mutex_def set_cond_def switch_defs Let_def intro!: dfk_world.equality)
  then show ?thesis using inv_cond_wait [OF i run'] by auto
qed

lemma inv_new_mutex:
  assumes inv: "world_inv w" and m: "m \<noteq> NULL" "m \<notin> dom (mutexes w)"
  shows "world_inv (set_mutex w m \<lparr>m_waitqueue = [], m_owner = NULL\<rparr>)" (is "world_inv ?w")
proof (rule world_invI)
  note b = inv_parts [OF inv]
  show "base_ok ?w" using b(1) m by (auto simp: base_ok_def set_mutex_def)
  show "cont_ok ?w" using b(2) by (auto simp: cont_ok_def set_mutex_def)
  have "queued m_waitqueue (mutexes ?w) = queued m_waitqueue (mutexes w)"
    using queued_new [OF b(4), of m m_waitqueue] m by (simp add: set_mutex_def domIff)
  then show "places ?w = mset_set (fibers ?w)" using b(3) by (simp add: places_def set_mutex_def)
  have none: "cont w f \<noteq> At_lock m" if "f \<in> fibers w" for f using that b(2) m by (auto simp: cont_ok_def)
  have "{f \<in> fibers w. cont w f = At_lock m} = {}" using none by auto
  then show "mutex_ok ?w m' u" if "mutexes ?w m' = Some u" for m' u
    using that b(6) [of m' u] by (cases "m' = m") (auto simp: mutex_ok_def set_mutex_def)
  show "cond_ok ?w c u" if "conds ?w c = Some u" for c u
    using that b(7) by (auto simp: cond_ok_def set_mutex_def)
qed

lemma inv_del_mutex:
  assumes inv: "world_inv w" and m: "mutexes w m = Some \<lparr>m_waitqueue = [], m_owner = NULL\<rparr>"
    and nw: "\<forall>f\<in>fibers w. \<forall>c. cont w f \<noteq> At_wait c m"
  shows "world_inv (w\<lparr>mutexes := (mutexes w)(m := None)\<rparr>)" (is "world_inv ?w")
proof (rule world_invI)
  note b = inv_parts [OF inv]
  show "base_ok ?w" using b(1) by (auto simp: base_ok_def)
  have n: "NULL \<notin> fibers w" using b(1) by (simp add: base_ok_def)
  have "{f \<in> fibers w. cont w f = At_lock m} - {NULL} = {}" using b(6) [OF m] by (simp add: mutex_ok_def)
  then have nl: "cont w f \<noteq> At_lock m" if "f \<in> fibers w" for f using that n by auto
  show "cont_ok ?w" using b(2) nw nl by (fastforce simp: cont_ok_def)
  have "queued m_waitqueue (mutexes ?w) = queued m_waitqueue (mutexes w)"
    using queued_del [OF b(4) m, of m_waitqueue] by simp
  then show "places ?w = mset_set (fibers ?w)" using b(3) by (simp add: places_def)
  show "mutex_ok ?w m' u" if "mutexes ?w m' = Some u" for m' u
    using that b(6) [of m' u] by (simp add: mutex_ok_def split: if_splits)
  show "cond_ok ?w c u" if "conds ?w c = Some u" for c u
    using that b(7) by (auto simp: cond_ok_def)
qed

lemma inv_new_cond:
  assumes inv: "world_inv w" and c: "c \<noteq> NULL" "c \<notin> dom (conds w)"
  shows "world_inv (set_cond w c [])" (is "world_inv ?w")
proof (rule world_invI)
  note b = inv_parts [OF inv]
  show "base_ok ?w" using b(1) c by (auto simp: base_ok_def set_cond_def)
  show "cont_ok ?w" using b(2) by (auto simp: cont_ok_def set_cond_def)
  have "queued c_waitqueue (conds ?w) = queued c_waitqueue (conds w)"
    using queued_new [OF b(5), of c c_waitqueue] c by (simp add: set_cond_def domIff)
  then show "places ?w = mset_set (fibers ?w)" using b(3) by (simp add: places_def set_cond_def)
  show "mutex_ok ?w m u" if "mutexes ?w m = Some u" for m u
    using that b(6) [of m u] by (auto simp: mutex_ok_def set_cond_def)
  show "cond_ok ?w d u" if "conds ?w d = Some u" for d u
    using that b(7) [of d u] by (auto simp: cond_ok_def set_cond_def split: if_splits)
qed

lemma inv_del_cond:
  assumes inv: "world_inv w" and c: "conds w c = Some \<lparr>c_waitqueue = []\<rparr>"
  shows "world_inv (w\<lparr>conds := (conds w)(c := None)\<rparr>)" (is "world_inv ?w")
proof (rule world_invI)
  note b = inv_parts [OF inv]
  show "base_ok ?w" using b(1) by (auto simp: base_ok_def)
  show "cont_ok ?w" using b(2) by (simp add: cont_ok_def)
  have "queued c_waitqueue (conds ?w) = queued c_waitqueue (conds w)"
    using queued_del [OF b(5) c, of c_waitqueue] by simp
  then show "places ?w = mset_set (fibers ?w)" using b(3) by (simp add: places_def)
  show "mutex_ok ?w m u" if "mutexes ?w m = Some u" for m u
    using that b(6) [of m u] by (simp add: mutex_ok_def)
  show "cond_ok ?w d u" if "conds ?w d = Some u" for d u
    using that b(7) [of d u] by (auto simp: cond_ok_def split: if_splits)
qed

lemma place_sets:
  assumes "world_inv w"
  shows "set (s_pending (sched w)) \<subseteq> fibers w" "set (s_terminated (sched w)) \<subseteq> fibers w"
    "set (local_pending (spc w)) \<subseteq> fibers w" "set (io_fibers w) \<subseteq> fibers w"
proof -
  have "set_mset (places w) = fibers w"
    using inv_parts(1,3) [OF assms] by (simp add: base_ok_def)
  then show "set (s_pending (sched w)) \<subseteq> fibers w" "set (s_terminated (sched w)) \<subseteq> fibers w"
    "set (local_pending (spc w)) \<subseteq> fibers w" "set (io_fibers w) \<subseteq> fibers w"
    by (auto simp: places_def)
qed

definition admit :: "dfk_world \<Rightarrow> fiber \<Rightarrow> fiber_stack \<Rightarrow> dfk_world" where
  "admit w f st = w\<lparr>fibers := insert f (fibers w), stacks := (stacks w)(f \<mapsto> st), cont := (cont w)(f := At_start)\<rparr>"

lemma inv_spawn:
  assumes inv: "world_inv w" and f: "f \<notin> fibers w \<union> {s_fiber (sched w), s_eventloop (sched w)}" "f \<noteq> NULL"
  shows "world_inv (wake (admit w f st) [f])" (is "world_inv ?w")
proof (rule world_invI)
  note b = inv_parts [OF inv] and p = place_sets [OF inv]
  have fin: "finite (fibers w)" using b(1) by (simp add: base_ok_def)
  show "base_ok ?w" using b(1) f by (auto simp: base_ok_def wake_def admit_def)
  show "cont_ok ?w"
    unfolding cont_ok_def
  proof
    fix g
    assume "g \<in> fibers ?w"
    then show "(cont ?w g = Ready \<longrightarrow> g = running ?w) \<and> (cont ?w g = At_end \<longleftrightarrow> g \<in> set (s_terminated (sched ?w)))
       \<and> (\<forall>m. cont ?w g = At_lock m \<longrightarrow> m \<in> dom (mutexes ?w)) \<and> (\<forall>c m. cont ?w g = At_wait c m \<longrightarrow> m \<in> dom (mutexes ?w))"
      using b(2) p(2) f by (cases "g = f") (auto simp: wake_def admit_def cont_ok_def)
  qed
  have "on_cpu (running w) (insert f (fibers w)) = on_cpu (running w) (fibers w)"
    using b(1) f by (auto simp: on_cpu_def base_ok_def)
  then show "places ?w = mset_set (fibers ?w)"
    using b(3) f fin by (simp add: places_def wake_def admit_def)
  show "mutex_ok ?w m u" if "mutexes ?w m = Some u" for m u
  proof -
    have "{g \<in> insert f (fibers w). ((cont w)(f := At_start)) g = At_lock m} = {g \<in> fibers w. cont w g = At_lock m}"
      using f by auto
    then show ?thesis using that b(6) [of m u] p(2) f by (auto simp: mutex_ok_def wake_def admit_def)
  qed
  show "cond_ok ?w c u" if "conds ?w c = Some u" for c u
  proof -
    have "set (c_waitqueue u) \<subseteq> fibers w" using cond_waiters(1) [OF inv, of c u] that by (simp add: admit_def)
    then show ?thesis using that b(7) [of c u] f by (auto simp: cond_ok_def wake_def admit_def)
  qed
qed

lemma inv_api_call:
  assumes inv: "world_inv w" and run: "running w \<in> fibers w" "cont w (running w) = Ready" and ok: "api_ok w a"
  shows "\<exists>w'. api_call w a = Some w' \<and> world_inv w'"
proof -
  note r = running_facts [OF inv run(1)]
  note sw = switch_defs Let_def
  show ?thesis
  proof (cases a)
    case (Lock m)
    then show ?thesis using inv_lock [OF inv run, of m] ok by simp
  next
    case (Unlock m)
    then show ?thesis using inv_unlock [OF inv run, of m] ok by auto
  next
    case (Trylock m)
    then show ?thesis using inv_trylock [OF inv run, of m] ok by auto
  next
    case (Wait c m)
    then show ?thesis using inv_wait [OF inv run, of c m] ok by auto
  next
    case (Signal c)
    then show ?thesis using inv_signal(1) [OF inv, of c] ok by auto
  next
    case (Broadcast c)
    then show ?thesis using inv_signal(2) [OF inv, of c] ok by auto
  next
    case Postpone
    have "dfk__postpone w = Some (wake (off w At_postpone) [running w])"
      using r(1-3) by (auto simp: dfk__postpone_def wake_def sw intro!: dfk_world.equality)
    then show ?thesis using inv_postpone [OF inv run] Postpone by simp
  next
    case Io
    have "api_call w Io = Some (park_io (off w At_io) (running w))"
      using r(1-3) by (auto simp: dfk__iosuspend_def park_io_def sw intro!: dfk_world.equality)
    then show ?thesis using inv_io [OF inv run] Io by simp
  next
    case (Spawn mem arg n)
    show ?thesis
    proof (cases "mem = NULL")
      case True
      have "world_inv (w\<lparr>dfk_errno := dfk_err_nomem\<rparr>)"
        using inv by (simp add: world_inv_def base_ok_def cont_ok_def mutex_ok_def cond_ok_def places_def)
      then show ?thesis using True Spawn by (simp add: dfk_spawn_def dfk__spawn_def)
    next
      case False
      then obtain st where "stack_layout (senv w) mem arg n = Some st" using ok Spawn by auto
      then have "api_call w a = Some (wake (admit w mem st) [mem])"
        using False Spawn by (simp add: dfk_spawn_def dfk__spawn_def go_on_at_def resume_wake admit_def)
      then show ?thesis using inv_spawn [OF inv, of mem st] ok Spawn False by auto
    qed
  next
    case Exit
    have "dfk__terminate w (running w) = Some (bury (off w At_end) (running w))"
      using r(1-3) by (auto simp: dfk__terminate_def bury_def sw intro!: dfk_world.equality)
    then show ?thesis using inv_exit [OF inv run] ok Exit by simp
  next
    case (New_mutex m)
    then show ?thesis using inv_new_mutex [OF inv, of m] ok by (simp add: dfk_mutex_init_def)
  next
    case (New_cond c)
    then show ?thesis using inv_new_cond [OF inv, of c] ok by (simp add: dfk_cond_init_def)
  next
    case (Del_mutex m)
    then have "mutexes w m = Some \<lparr>m_waitqueue = [], m_owner = NULL\<rparr>" using ok by simp
    then show ?thesis using inv_del_mutex [OF inv, of m] inv_parts(6) [OF inv, of m] ok Del_mutex
      by (simp add: dfk_mutex_free_def get_mutex_def)
  next
    case (Del_cond c)
    then show ?thesis using inv_del_cond [OF inv, of c] inv_parts(7) [OF inv, of c] ok
      by (simp add: dfk_cond_free_def get_cond_def)
  qed
qed

subsection \<open>The scheduler\<close>

lemma sched_not_fiber:
  assumes "world_inv w"
  shows "s_fiber (sched w) \<notin> fibers w" "s_fiber (sched w) \<noteq> NULL" "s_eventloop (sched w) \<notin> fibers w"
    "s_eventloop (sched w) \<noteq> NULL" "NULL \<notin> fibers w" "finite (fibers w)" "s_eventloop (sched w) \<noteq> s_fiber (sched w)"
  using inv_parts(1) [OF assms] by (auto simp: base_ok_def)

lemma inv_free_one:
  assumes inv: "world_inv w" and run: "running w = s_fiber (sched w)" and t: "s_terminated (sched w) = f # rest"
  shows "world_inv (w\<lparr>sched := (sched w)\<lparr>s_terminated := rest\<rparr>, fibers := fibers w - {f}, stacks := (stacks w)(f := None)\<rparr>)"
    (is "world_inv ?w") "f \<in> fibers w"
proof -
  note b = inv_parts [OF inv] and n = sched_not_fiber [OF inv]
  show f: "f \<in> fibers w" using place_sets(2) [OF inv] t by auto
  have e: "cont w f = At_end" using b(2) f t by (auto simp: cont_ok_def)
  have cnt: "f \<notin> set rest"
  proof -
    define B where "B = on_cpu (running w) (fibers w) + mset (s_pending (sched w)) + mset rest + mset (local_pending (spc w))
      + mset (io_fibers w) + queued m_waitqueue (mutexes w) + queued c_waitqueue (conds w)"
    have "places w = {#f#} + B" unfolding places_def B_def t by (simp add: ac_simps)
    from placed_once(2) [OF inv this, of f] show ?thesis by (auto simp: B_def)
  qed
  show "world_inv ?w"
  proof (rule world_invI)
    show "base_ok ?w" using b(1) run by (auto simp: base_ok_def)
    show "cont_ok ?w" using b(2) t cnt by (auto simp: cont_ok_def)
    have "on_cpu (running w) (fibers w - {f}) = {#}" "on_cpu (running w) (fibers w) = {#}" using n(1) run by (simp_all add: on_cpu_def)
    moreover have "mset_set (fibers w) = add_mset f (mset_set (fibers w - {f}))" using mset_set.remove [OF n(6) f] .
    ultimately show "places ?w = mset_set (fibers ?w)" using b(3) t by (simp add: places_def)
    show "mutex_ok ?w m u" if "mutexes ?w m = Some u" for m u
    proof -
      have "{g \<in> fibers w - {f}. cont w g = At_lock m} = {g \<in> fibers w. cont w g = At_lock m}" using e by auto
      then show ?thesis using that b(6) [of m u] t by (auto simp: mutex_ok_def)
    qed
    show "cond_ok ?w c u" if "conds ?w c = Some u" for c u
      using that b(7) [of c u] by (simp add: cond_ok_def)
  qed
qed

lemma inv_free_terminated:
  "\<lbrakk>world_inv w; running w = s_fiber (sched w); s_terminated (sched w) = ts\<rbrakk> \<Longrightarrow>
   \<exists>w'. free_terminated w ts = Some w' \<and> world_inv w' \<and> running w' = s_fiber (sched w') \<and> s_terminated (sched w') = []
     \<and> spc w' = spc w \<and> s_pending (sched w') = s_pending (sched w) \<and> fibers w' = fibers w - set ts
     \<and> mutexes w' = mutexes w \<and> conds w' = conds w \<and> io_fibers w' = io_fibers w \<and> cont w' = cont w"
proof (induction w ts rule: free_terminated.induct)
  case (1 w)
  then have e: "w\<lparr>sched := (sched w)\<lparr>s_terminated := []\<rparr>\<rparr> = w" by (auto intro!: dfk_world.equality dfk_scheduler_t.equality)
  show ?case unfolding free_terminated.simps e using 1 by simp
next
  case (2 w f rest)
  let ?w = "w\<lparr>sched := (sched w)\<lparr>s_terminated := rest\<rparr>, fibers := fibers w - {f}, stacks := (stacks w)(f := None)\<rparr>"
  have i: "world_inv ?w" "f \<in> fibers w" using inv_free_one [OF 2(2,3,4)] by auto
  have s: "dfk__fiber_free (w\<lparr>sched := (sched w)\<lparr>s_terminated := rest\<rparr>\<rparr>) f = Some ?w" using i(2) by (simp add: dfk__fiber_free_def)
  obtain w' where "free_terminated ?w rest = Some w'" "world_inv w'" "running w' = s_fiber (sched w')" "s_terminated (sched w') = []"
    "spc w' = spc ?w" "s_pending (sched w') = s_pending (sched ?w)" "fibers w' = fibers ?w - set rest"
    "mutexes w' = mutexes ?w" "conds w' = conds ?w" "io_fibers w' = io_fibers ?w" "cont w' = cont ?w"
    using 2(1) [OF s i(1)] 2(3) by auto
  then show ?case using s by auto
qed

lemma inv_begin:
  assumes inv: "world_inv w" and run: "running w = s_fiber (sched w)" and top: "spc w = S_top"
  shows "\<exists>w'. scheduler_begin w = Some w' \<and> world_inv w'"
proof (cases "s_terminated (sched w) = [] \<and> s_pending (sched w) = [] \<and> s_iowait (sched w) = 0")
  case True
  have "world_inv (w\<lparr>spc := S_done\<rparr>)"
    using inv top run by (simp add: world_inv_def base_ok_def cont_ok_def mutex_ok_def cond_ok_def places_def local_pending_def)
  then show ?thesis using True by (simp add: scheduler_begin_def)
next
  case False
  obtain w' where w': "free_terminated w (s_terminated (sched w)) = Some w'" "world_inv w'" "running w' = s_fiber (sched w')" "spc w' = S_top"
    using inv_free_terminated [OF inv run refl] top by auto
  let ?w = "w'\<lparr>sched := (sched w')\<lparr>s_pending := []\<rparr>, spc := S_drain (s_pending (sched w'))\<rparr>"
  have "places ?w = places w'" using w'(4) by (simp add: places_def local_pending_def)
  then have "world_inv ?w"
    using w'(2) by (simp add: world_inv_def base_ok_def cont_ok_def mutex_ok_def cond_ok_def)
  then show ?thesis unfolding scheduler_begin_def if_not_P [OF False] using w'(1) by (simp add: Let_def)
qed

lemma inv_drain:
  assumes inv: "world_inv w" and run: "running w = s_fiber (sched w)" and at: "spc w = S_drain fs"
  shows "\<exists>w'. scheduler_drain w fs = Some w' \<and> world_inv w'"
proof (cases fs)
  case (Cons f rest)
  note n = sched_not_fiber [OF inv] and b = inv_parts [OF inv]
  let ?w = "w\<lparr>spc := S_drain rest, sched := (sched w)\<lparr>s_current := f\<rparr>, running := f\<rparr>"
  have f: "f \<in> fibers w" using place_sets(3) [OF inv] at Cons by (auto simp: local_pending_def)
  have s: "scheduler_drain w fs = Some ?w"
    using Cons n f by (auto simp: dfk_yield_def dfk__yielded_def Let_def intro!: dfk_world.equality)
  have "world_inv ?w"
  proof (rule world_invI)
    show "base_ok ?w" using b(1) f by (auto simp: base_ok_def)
    show "cont_ok ?w" using b(2) run n(1) by (auto simp: cont_ok_def)
    have "on_cpu f (fibers w) = {#f#}" "on_cpu (running w) (fibers w) = {#}" using f n(1) run by (simp_all add: on_cpu_def)
    then show "places ?w = mset_set (fibers ?w)" using b(3) at Cons by (simp add: places_def local_pending_def)
    show "mutex_ok ?w m u" if "mutexes ?w m = Some u" for m u using that b(6) [of m u] by (simp add: mutex_ok_def)
    show "cond_ok ?w c u" if "conds ?w c = Some u" for c u using that b(7) [of c u] by (simp add: cond_ok_def)
  qed
  then show ?thesis using s by simp
next
  case Nil
  note n = sched_not_fiber [OF inv] and b = inv_parts [OF inv]
  have lp: "local_pending (spc w) = []" using at Nil by (simp add: local_pending_def)
  have oc: "on_cpu (running w) (fibers w) = {#}" "on_cpu (s_eventloop (sched w)) (fibers w) = {#}"
    using n run by (simp_all add: on_cpu_def)
  have "world_inv (w\<lparr>spc := S_top\<rparr>)"
    using inv lp run by (simp add: world_inv_def base_ok_def cont_ok_def mutex_ok_def cond_ok_def places_def local_pending_def)
  moreover have "world_inv (w\<lparr>spc := S_top, sched := (sched w)\<lparr>s_current := s_eventloop (sched w)\<rparr>, running := s_eventloop (sched w)\<rparr>)"
    (is "world_inv ?w")
  proof (rule world_invI)
    show "base_ok ?w" using b(1) by (auto simp: base_ok_def)
    show "cont_ok ?w" using b(2) run n(1) by (auto simp: cont_ok_def)
    show "places ?w = mset_set (fibers ?w)" using b(3) oc lp by (simp add: places_def local_pending_def)
    show "mutex_ok ?w m u" if "mutexes ?w m = Some u" for m u using that b(6) [of m u] by (simp add: mutex_ok_def)
    show "cond_ok ?w c u" if "conds ?w c = Some u" for c u using that b(7) [of c u] by (simp add: cond_ok_def)
  qed
  ultimately show ?thesis using Nil n by (auto simp: dfk_yield_def dfk__yielded_def Let_def)
qed

lemma inv_scheduler:
  assumes inv: "world_inv w" and run: "running w = s_fiber (sched w)" and nd: "spc w \<noteq> S_done"
  shows "\<exists>w'. dfk__scheduler w = Some w' \<and> world_inv w'"
  using inv_begin [OF inv run] inv_drain [OF inv run] nd by (auto simp: dfk__scheduler_def split: sched_pc.split)

subsection \<open>The event loop and the fibers that get the processor back\<close>

lemma inv_ioresume:
  assumes inv: "world_inv w" and f: "f \<in> set (io_fibers w)"
  shows "\<exists>w'. dfk__ioresume (w\<lparr>io_fibers := remove1 f (io_fibers w)\<rparr>) f = Some w' \<and> world_inv w'
    \<and> running w' = running w \<and> s_eventloop (sched w') = s_eventloop (sched w) \<and> io_fibers w' = remove1 f (io_fibers w)"
proof -
  note b = inv_parts [OF inv]
  have ff: "f \<in> fibers w" "f \<noteq> NULL" using place_sets(4) [OF inv] sched_not_fiber(5) [OF inv] f by auto
  let ?w = "w\<lparr>io_fibers := remove1 f (io_fibers w),
    sched := (sched w)\<lparr>s_iowait := s_iowait (sched w) - 1, s_pending := s_pending (sched w) @ [f]\<rparr>\<rparr>"
  have "dfk__ioresume (w\<lparr>io_fibers := remove1 f (io_fibers w)\<rparr>) f = Some ?w" using ff by (simp add: dfk__ioresume_def Let_def)
  moreover have "world_inv ?w"
  proof (rule world_invI)
    have "length (io_fibers w) = Suc (length (remove1 f (io_fibers w)))" using f by (simp add: length_remove1) (metis length_pos_if_in_set Suc_pred)
    then have "s_iowait (sched w) - 1 = of_nat (length (remove1 f (io_fibers w)))" using b(1) by (simp add: base_ok_def)
    then show "base_ok ?w" using b(1) by (auto simp: base_ok_def)
    show "cont_ok ?w" using b(2) by (simp add: cont_ok_def)
    define M where "M = mset (remove1 f (io_fibers w))"
    have m: "mset (io_fibers w) = add_mset f M" using f by (simp add: M_def)
    show "places ?w = mset_set (fibers ?w)" using b(3) unfolding places_def m by (simp add: M_def [symmetric] del: mset_remove1)
    show "mutex_ok ?w m u" if "mutexes ?w m = Some u" for m u using that b(6) [of m u] by (simp add: mutex_ok_def)
    show "cond_ok ?w c u" if "conds ?w c = Some u" for c u using that b(7) [of c u] by (simp add: cond_ok_def)
  qed
  ultimately show ?thesis by simp
qed

lemma inv_eventloop_yield:
  assumes inv: "world_inv w" and run: "running w = s_eventloop (sched w)"
  shows "\<exists>w'. dfk_yield w (dfk__this_fiber w) (s_fiber (sched w)) = Some w' \<and> world_inv w'"
proof -
  note n = sched_not_fiber [OF inv] and b = inv_parts [OF inv]
  let ?w = "w\<lparr>sched := (sched w)\<lparr>s_current := s_fiber (sched w)\<rparr>, running := s_fiber (sched w)\<rparr>"
  have "dfk__this_fiber w \<noteq> NULL" using b(1) n run by (auto simp: base_ok_def dfk__this_fiber_def)
  then have "dfk_yield w (dfk__this_fiber w) (s_fiber (sched w)) = Some ?w" using n by (simp add: dfk_yield_def dfk__yielded_def)
  moreover have "world_inv ?w"
  proof (rule world_invI)
    show "base_ok ?w" using b(1) by (auto simp: base_ok_def)
    show "cont_ok ?w" using b(2) run n by (auto simp: cont_ok_def)
    have "on_cpu (s_fiber (sched w)) (fibers w) = on_cpu (running w) (fibers w)" using n run by (simp add: on_cpu_def)
    then show "places ?w = mset_set (fibers ?w)" using b(3) by (simp add: places_def)
    show "mutex_ok ?w m u" if "mutexes ?w m = Some u" for m u using that b(6) [of m u] by (simp add: mutex_ok_def)
    show "cond_ok ?w c u" if "conds ?w c = Some u" for c u using that b(7) [of c u] by (simp add: cond_ok_def)
  qed
  ultimately show ?thesis by simp
qed

lemma inv_io_ready:
  "\<lbrakk>world_inv w; running w = s_eventloop (sched w); distinct fs; set fs \<subseteq> set (io_fibers w)\<rbrakk> \<Longrightarrow>
   \<exists>w'. io_ready w fs = Some w' \<and> world_inv w'"
proof (induction w fs rule: io_ready.induct)
  case (1 w)
  then show ?case using inv_eventloop_yield by simp
next
  case (2 w f fs)
  obtain w1 where w1: "dfk__ioresume (w\<lparr>io_fibers := remove1 f (io_fibers w)\<rparr>) f = Some w1" "world_inv w1"
    "running w1 = running w" "s_eventloop (sched w1) = s_eventloop (sched w)" "io_fibers w1 = remove1 f (io_fibers w)"
    using inv_ioresume [OF 2(2), of f] 2(5) by auto
  have "x \<in> set (io_fibers w1)" if "x \<in> set fs" for x
  proof -
    have "x \<noteq> f" "x \<in> set (io_fibers w)" using that 2(4,5) by auto
    then show ?thesis using in_set_remove1 [of x f "io_fibers w"] w1(5) by simp
  qed
  then have "set fs \<subseteq> set (io_fibers w1)" by auto
  then show ?case using 2(1) [OF w1(1,2)] 2(3,4) w1 by auto
qed

lemma inv_ready:
  assumes inv: "world_inv w" and run: "running w \<in> fibers w"
  shows "world_inv (go_on_at w (running w) Ready)" (is "world_inv ?w")
proof (rule world_invI)
  note b = inv_parts [OF inv] and r = running_facts [OF inv run]
  show "base_ok ?w" using b(1) by (simp add: base_ok_def go_on_at_def)
  show "cont_ok ?w"
    unfolding cont_ok_def
  proof
    fix g
    assume "g \<in> fibers ?w"
    then show "(cont ?w g = Ready \<longrightarrow> g = running ?w) \<and> (cont ?w g = At_end \<longleftrightarrow> g \<in> set (s_terminated (sched ?w)))
       \<and> (\<forall>m. cont ?w g = At_lock m \<longrightarrow> m \<in> dom (mutexes ?w)) \<and> (\<forall>c m. cont ?w g = At_wait c m \<longrightarrow> m \<in> dom (mutexes ?w))"
      using b(2) r(8) by (cases "g = running w") (simp add: go_on_at_def, auto simp: go_on_at_def cont_ok_def)
  qed
  show "places ?w = mset_set (fibers ?w)" using b(3) by (simp add: places_def go_on_at_def)
  show "mutex_ok ?w m u" if "mutexes ?w m = Some u" for m u
  proof -
    have m: "mutexes w m = Some u" using that by (simp add: go_on_at_def)
    have "running w \<notin> {f \<in> fibers w. cont w f = At_lock m} - {m_owner u}"
      using r(11) [OF m] b(6) [OF m] by (simp add: mutex_ok_def)
    then have "{f \<in> fibers w. ((cont w)(running w := Ready)) f = At_lock m} - {m_owner u} = {f \<in> fibers w. cont w f = At_lock m} - {m_owner u}"
      using run by auto
    then show ?thesis using b(6) [OF m] by (simp add: mutex_ok_def go_on_at_def)
  qed
  show "cond_ok ?w c u" if "conds ?w c = Some u" for c u
    using that b(7) [of c u] r(12) [of c u] by (auto simp: cond_ok_def go_on_at_def)
qed

lemma inv_goes_on:
  assumes inv: "world_inv w" and run: "running w \<in> fibers w"
  shows "\<exists>w'. goes_on w = Some w' \<and> world_inv w'"
proof -
  note b = inv_parts [OF inv] and r = running_facts [OF inv run] and i = inv_ready [OF inv run]
  let ?w = "go_on_at w (running w) Ready"
  have ne: "cont w (running w) \<noteq> At_end" using b(2) run r(8) by (auto simp: cont_ok_def)
  have run': "running ?w \<in> fibers ?w" "cont ?w (running ?w) = Ready" using run by (simp_all add: go_on_at_def)
  show ?thesis
  proof (cases "cont w (running w)")
    case (At_lock m)
    then have "m \<in> dom (mutexes w)" using b(2) run by (simp add: cont_ok_def)
    then obtain v where v: "mutexes w m = Some v" by auto
    have "m_owner v = running w" using b(6) [OF v] r(11) [OF v] At_lock run by (auto simp: mutex_ok_def)
    then have "mutex_locked ?w m = Some ?w" using v b(6) [OF v] r(1) by (simp add: mutex_locked_def get_mutex_def go_on_at_def dfk__this_fiber_def)
    then show ?thesis using At_lock i by (simp add: goes_on_def)
  next
    case (At_wait c m)
    then have "m \<in> dom (mutexes ?w)" using b(2) run by (auto simp: cont_ok_def go_on_at_def)
    then show ?thesis using inv_lock [OF i run'] At_wait by (simp add: goes_on_def)
  qed (use i ne in \<open>simp_all add: goes_on_def\<close>)
qed

section \<open>Reachable states\<close>

lemma inv_start:
  assumes "dfk_work (dfk_init e) m1 m2 m3 arg n = Some (Works w)" "distinct [m1, m2, m3]"
  shows "world_inv w"
proof -
  note d = dfk_work_def dfk__spawn_def dfk__scheduler_main_def dfk__fiber_free_def dfk_init_def dfk__scheduler_init_def
    go_on_at_def Let_def resume_wake
  have m: "m1 \<noteq> NULL" "m2 \<noteq> NULL" "m3 \<noteq> NULL" using assms(1) by (auto simp: d split: if_splits bind_splits)
  have w: "sched w = \<lparr>s_fiber = m2, s_current = NULL, s_eventloop = m3, s_pending = [m1], s_iowait = 0, s_terminated = []\<rparr>"
    "spc w = S_top" "running w = m2" "fibers w = {m1}" "io_fibers w = []" "mutexes w = (\<lambda>_. None)" "conds w = (\<lambda>_. None)" "cont w m1 = At_start"
    using assms m by (auto simp: d wake_def split: bind_splits)
  show ?thesis
    using m assms(2) not_sym [of m1 m2] w
    by (simp add: world_inv_def base_ok_def cont_ok_def places_def on_cpu_def local_pending_def queued_def)
qed

lemma step_inv: "dfk_step w w' \<Longrightarrow> world_inv w \<Longrightarrow> world_inv w'"
proof (induction rule: dfk_step.induct)
  case (scheduler w w')
  then have "spc w \<noteq> S_done" by (auto simp: dfk__scheduler_def)
  then show ?case using inv_scheduler [of w] scheduler by auto
next
  case (goes_on w w')
  then show ?case using inv_goes_on [of w] by auto
next
  case (call w a w')
  then show ?case using inv_api_call [of w a] by auto
next
  case (eventloop w fs w')
  then show ?case using inv_io_ready [of w fs] by auto
qed

lemma reach_inv: "dfk_reach w \<Longrightarrow> world_inv w"
  by (induction rule: dfk_reach.induct) (auto intro: inv_start step_inv)

end
