(* ===== verification/Dfk_Sched_Props.thy ===== *)
theory Dfk_Sched_Props
  imports Dfk_Sched_Inv "HOL-Library.Sublist"
begin

text \<open>
  The guarantees of the scheduler, the mutexes and the condition variables over the reachable
  states, an executable form of the step relation, and a sample run on which they are evaluated.
\<close>

section \<open>Runs as sequences of events\<close>

datatype event = Sched | Go | Call api | Loop "fiber list"

definition do_event :: "dfk_world \<Rightarrow> event \<Rightarrow> dfk_world option" where
  "do_event w ev = (case ev of
     Sched \<Rightarrow> do { c_assert (running w = s_fiber (sched w)); dfk__scheduler w }
   | Go \<Rightarrow> do { c_assert (running w \<in> fibers w); c_assert (cont w (running w) \<noteq> Ready); goes_on w }
   | Call a \<Rightarrow> do { c_assert (running w \<in> fibers w); c_assert (cont w (running w) = Ready); c_assert (api_ok w a); api_call w a }
   | Loop fs \<Rightarrow> do { c_assert (running w = s_eventloop (sched w)); c_assert (distinct fs);
       c_assert (set fs \<subseteq> set (io_fibers w)); io_ready w fs })"

fun do_events :: "dfk_world \<Rightarrow> event list \<Rightarrow> dfk_world option" where
  "do_events w [] = Some w"
| "do_events w (ev # evs) = do { w \<leftarrow> do_event w ev; do_events w evs }"

lemma step_event: "dfk_step w w' \<longleftrightarrow> (\<exists>ev. do_event w ev = Some w')"
proof
  assume "dfk_step w w'"
  then show "\<exists>ev. do_event w ev = Some w'"
  proof cases
    case scheduler
    then show ?thesis by (intro exI [of _ Sched]) (simp add: do_event_def)
  next
    case goes_on
    then show ?thesis by (intro exI [of _ Go]) (simp add: do_event_def)
  next
    case (call a)
    then show ?thesis by (intro exI [of _ "Call a"]) (simp add: do_event_def)
  next
    case (eventloop fs)
    then show ?thesis by (intro exI [of _ "Loop fs"]) (simp add: do_event_def)
  qed
next
  assume "\<exists>ev. do_event w ev = Some w'"
  then obtain ev where "do_event w ev = Some w'" ..
  then show "dfk_step w w'" by (cases ev) (auto simp: do_event_def intro: dfk_step.intros split: if_splits)
qed

lemma events_reach: "dfk_reach w \<Longrightarrow> do_events w evs = Some w' \<Longrightarrow> dfk_reach w'"
proof (induction evs arbitrary: w)
  case (Cons ev evs)
  then obtain w1 where "do_event w ev = Some w1" "do_events w1 evs = Some w'" by (auto split: bind_splits)
  then show ?case using Cons.IH dfk_reach.step [OF Cons.prems(1)] step_event by auto
qed simp

section \<open>A sample run\<close>

text \<open>
  The main fiber (at 65536) creates a mutex, takes it, spawns a second fiber and lets it run; that
  fiber asks for the mutex and waits. The scheduler then hands the processor back to the main fiber.
\<close>

definition sample_env :: stack_env where
  "sample_env = \<lparr>sizeof_fiber = 128, default_stack_size = 4096, DFK_STACK_GUARD_SIZE = 0, DFK_STACK_ALIGNMENT = 16\<rparr>"

definition sample_sched :: "fiber \<Rightarrow> fiber list \<Rightarrow> dfk_scheduler_t" where
  "sample_sched cur p = \<lparr>s_fiber = 131072, s_current = cur, s_eventloop = 196608, s_pending = p, s_iowait = 0, s_terminated = []\<rparr>"

definition sample_start :: dfk_world where
  "sample_start = \<lparr>senv = sample_env, dfk_errno = dfk_err_ok,
     stacks = [65536 \<mapsto> \<lparr>f_arg = 0, stack_base = 65664, stack_size = 3968\<rparr>,
       131072 \<mapsto> \<lparr>f_arg = 65536, stack_base = 131200, stack_size = 3968\<rparr>,
       196608 \<mapsto> \<lparr>f_arg = 131072, stack_base = 196736, stack_size = 3968\<rparr>],
     sched = sample_sched 0 [65536], spc = S_top, running = 131072, cont = (\<lambda>_. At_start), fibers = {65536},
     io_fibers = [], mutexes = (\<lambda>_. None), conds = (\<lambda>_. None)\<rparr>"

lemma sample_layout: "stack_layout sample_env 65536 0 0 = Some \<lparr>f_arg = 0, stack_base = 65664, stack_size = 3968\<rparr>"
  "stack_layout sample_env 131072 65536 0 = Some \<lparr>f_arg = 65536, stack_base = 131200, stack_size = 3968\<rparr>"
  "stack_layout sample_env 196608 131072 0 = Some \<lparr>f_arg = 131072, stack_base = 196736, stack_size = 3968\<rparr>"
  "stack_layout sample_env 262144 0 8 = Some \<lparr>f_arg = 262272, stack_base = 262288, stack_size = 3952\<rparr>"
  by code_simp+

lemma sample_works: "dfk_work (dfk_init sample_env) 65536 131072 196608 0 0 = Some (Works sample_start)"
  by (auto simp: dfk_work_def dfk_init_def dfk__spawn_def dfk__scheduler_main_def sample_layout go_on_at_def
      dfk__scheduler_init_def dfk__resume_def sample_start_def sample_sched_def Let_def fun_upd_def)

lemma sample_start_reach: "dfk_reach sample_start"
  by (rule dfk_reach.init [OF sample_works]) simp

definition sample_run :: "event list" where
  "sample_run = [Sched, Sched, Go, Call (New_mutex 8), Call (Lock 8), Call (Spawn 262144 0 8), Call Postpone,
     Sched, Sched, Sched, Go, Call (Lock 8), Sched, Go]"

definition sample_held :: dfk_world where
  "sample_held = sample_start\<lparr>stacks := (stacks sample_start)(262144 \<mapsto> \<lparr>f_arg = 262272, stack_base = 262288, stack_size = 3952\<rparr>),
     sched := sample_sched 65536 [], spc := S_drain [], running := 65536,
     cont := (\<lambda>_. At_start)(65536 := Ready, 262144 := At_lock 8), fibers := {65536, 262144},
     mutexes := [8 \<mapsto> \<lparr>m_waitqueue = [262144], m_owner = 65536\<rparr>]\<rparr>"

lemmas event_defs = do_event_def dfk__scheduler_def scheduler_begin_def dfk_yield_def dfk__yielded_def goes_on_def go_on_at_def
  dfk_mutex_init_def set_mutex_def dfk_mutex_lock_def get_mutex_def load_def mutex_locked_def dfk__this_fiber_def dfk__suspend_def
  dfk__postpone_def dfk_spawn_def dfk__spawn_def dfk__resume_def Let_def

lemma sample_run_held: "do_events sample_start sample_run = Some sample_held"
  by (auto simp: sample_run_def sample_start_def sample_sched_def sample_held_def event_defs sample_layout
      intro!: dfk_world.equality)

lemma sample_held_reach: "dfk_reach sample_held"
  using events_reach [OF sample_start_reach sample_run_held] .

text \<open>From there both fibers wait for a condition nobody signals.\<close>

definition sample_idle_run :: "event list" where
  "sample_idle_run = [Call (New_cond 24), Call (Wait 24 8), Sched, Sched, Sched, Go, Call (Wait 24 8), Sched]"

definition sample_idle :: dfk_world where
  "sample_idle = sample_held\<lparr>sched := sample_sched 131072 [], spc := S_top, running := 131072,
     cont := (\<lambda>_. At_start)(65536 := At_wait 24 8, 262144 := At_wait 24 8),
     mutexes := [8 \<mapsto> \<lparr>m_waitqueue = [], m_owner = NULL\<rparr>], conds := [24 \<mapsto> \<lparr>c_waitqueue = [65536, 262144]\<rparr>]\<rparr>"

lemma sample_idle_reach: "dfk_reach sample_idle"
proof -
  have "do_events sample_held sample_idle_run = Some sample_idle"
    by (auto simp: sample_idle_run_def sample_held_def sample_start_def sample_sched_def sample_idle_def event_defs
        dfk_cond_init_def set_cond_def dfk_cond_wait_def get_cond_def mutex_hand_on_def intro!: dfk_world.equality)
  from events_reach [OF sample_held_reach this] show ?thesis .
qed

section \<open>The order of dispatch\<close>

text \<open>A run with the sequence of fibers the scheduler gave the processor to.\<close>

definition dispatched :: "dfk_world \<Rightarrow> dfk_world \<Rightarrow> fiber list" where
  "dispatched w w' = (if running w = s_fiber (sched w) \<and> running w' \<in> fibers w' then [running w'] else [])"

inductive dfk_run :: "dfk_world \<Rightarrow> fiber list \<Rightarrow> dfk_world \<Rightarrow> bool" where
  here: "dfk_run w [] w"
| more: "dfk_run w log w' \<Longrightarrow> dfk_step w' w'' \<Longrightarrow> dfk_run w (log @ dispatched w' w'') w''"

lemma run_reach: "dfk_run w log w' \<Longrightarrow> dfk_reach w \<Longrightarrow> dfk_reach w'"
  by (induction rule: dfk_run.induct) (auto intro: dfk_reach.step)

lemma spc_yield: "dfk_yield w a b = Some w' \<Longrightarrow> spc w' = spc w"
  by (auto simp: dfk_yield_def dfk__yielded_def split: if_splits)

lemma spc_resume: "dfk__resume w f = Some w' \<Longrightarrow> spc w' = spc w"
  by (auto simp: dfk__resume_def split: if_splits)

lemma spc_wake_all: "wake_all w fs = Some w' \<Longrightarrow> spc w' = spc w"
  by (induction fs arbitrary: w) (auto split: bind_splits dest: spc_resume)

lemma spc_hand_on: "mutex_hand_on w m = Some w' \<Longrightarrow> spc w' = spc w"
  by (auto simp: mutex_hand_on_def set_mutex_def split: bind_splits list.splits dest: spc_resume)

lemma spc_lock: "dfk_mutex_lock w m = Some w' \<Longrightarrow> spc w' = spc w"
  by (auto simp: dfk_mutex_lock_def mutex_locked_def dfk__suspend_def go_on_at_def set_mutex_def Let_def
      split: bind_splits if_splits dest: spc_yield)

lemma spc_api_call: "api_call w a = Some w' \<Longrightarrow> spc w' = spc w"
  by (cases a)
    (auto simp: spc_lock dfk_mutex_unlock_def dfk_mutex_trylock_def dfk_cond_wait_def dfk_cond_signal_def dfk_cond_broadcast_def
      dfk__postpone_def dfk__iosuspend_def dfk_spawn_def dfk__spawn_def dfk__terminate_def dfk_mutex_init_def dfk_mutex_free_def
      dfk_cond_init_def dfk_cond_free_def dfk__suspend_def go_on_at_def set_mutex_def set_cond_def Let_def
      split: bind_splits if_splits list.splits
      dest!: spc_yield spc_resume spc_wake_all spc_hand_on)

lemma spc_goes_on: "goes_on w = Some w' \<Longrightarrow> spc w' = spc w"
  by (auto simp: goes_on_def go_on_at_def mutex_locked_def Let_def split: go_on.splits bind_splits if_splits dest!: spc_lock)

lemma spc_io_ready: "io_ready w fs = Some w' \<Longrightarrow> spc w' = spc w"
  by (induction fs arbitrary: w) (auto simp: dfk__ioresume_def Let_def split: bind_splits if_splits dest!: spc_yield)

text \<open>The scheduler's own place changes by its own steps only, and these follow its local list.\<close>

lemma step_spc_other:
  assumes "dfk_step w w'" "running w \<noteq> s_fiber (sched w)"
  shows "spc w' = spc w" "dispatched w w' = []"
proof -
  show "spc w' = spc w"
    using assms(1) by cases (use assms(2) in \<open>auto dest: spc_goes_on spc_api_call spc_io_ready\<close>)
  show "dispatched w w' = []" using assms(2) by (simp add: dispatched_def)
qed

lemma step_spc_sched:
  assumes inv: "world_inv w" and step: "dfk_step w w'" and run: "running w = s_fiber (sched w)"
  shows "spc w = S_top \<Longrightarrow> dispatched w w' = [] \<and> (if s_terminated (sched w) = [] \<and> s_pending (sched w) = [] \<and> s_iowait (sched w) = 0
       then spc w' = S_done else spc w' = S_drain (s_pending (sched w)))"
    "spc w = S_drain (f # fs) \<Longrightarrow> dispatched w w' = [f] \<and> spc w' = S_drain fs"
    "spc w = S_drain [] \<Longrightarrow> dispatched w w' = [] \<and> spc w' = S_top"
    "spc w \<noteq> S_done"
proof -
  note n = sched_not_fiber [OF inv]
  have s: "dfk__scheduler w = Some w'" using step by cases (use run n in auto)
  have i: "world_inv w'" using step_inv [OF step inv] .
  show "spc w \<noteq> S_done" using s by (auto simp: dfk__scheduler_def)
  show "spc w = S_drain (f # fs) \<Longrightarrow> dispatched w w' = [f] \<and> spc w' = S_drain fs"
  proof -
    assume a: "spc w = S_drain (f # fs)"
    then have "f \<in> fibers w" using place_sets(3) [OF inv] by (simp add: local_pending_def)
    then show ?thesis using s a run by (auto simp: dfk__scheduler_def dispatched_def dfk_yield_def dfk__yielded_def Let_def split: if_splits)
  qed
  show "spc w = S_drain [] \<Longrightarrow> dispatched w w' = [] \<and> spc w' = S_top"
    using s n run by (auto simp: dfk__scheduler_def dispatched_def dfk_yield_def dfk__yielded_def Let_def split: if_splits)
  assume top: "spc w = S_top"
  obtain w1 where w1: "free_terminated w (s_terminated (sched w)) = Some w1" "running w1 = s_fiber (sched w1)" "world_inv w1"
    "s_pending (sched w1) = s_pending (sched w)"
    using inv_free_terminated [OF inv run refl] by auto
  show "dispatched w w' = [] \<and> (if s_terminated (sched w) = [] \<and> s_pending (sched w) = [] \<and> s_iowait (sched w) = 0
       then spc w' = S_done else spc w' = S_drain (s_pending (sched w)))"
    using s top run w1 n sched_not_fiber [OF w1(3)]
    by (auto simp: dfk__scheduler_def scheduler_begin_def dispatched_def Let_def split: if_splits)
qed

definition rr_state :: "dfk_world \<Rightarrow> fiber list \<Rightarrow> fiber list \<Rightarrow> dfk_world \<Rightarrow> bool" where
  "rr_state w ps log w' \<longleftrightarrow> (w' = w \<and> log = []) \<or> (\<exists>k\<le>length ps. log = take k ps \<and> spc w' = S_drain (drop k ps)) \<or> prefix ps log"

lemma rr_step:
  assumes inv: "world_inv w'" and step: "dfk_step w' w''" and rr: "rr_state w ps log w'"
    and w: "running w = s_fiber (sched w)" "spc w = S_top" "s_pending (sched w) = ps"
  shows "rr_state w ps (log @ dispatched w' w'') w''"
proof -
  consider "prefix ps log" | "w' = w" "log = []" | k where "k \<le> length ps" "log = take k ps" "spc w' = S_drain (drop k ps)"
    using rr by (auto simp: rr_state_def)
  then show ?thesis
  proof cases
    case 1
    then show ?thesis by (simp add: rr_state_def)
  next
    case 2
    then have s: "running w' = s_fiber (sched w')" "spc w' = S_top" using w by simp_all
    from step_spc_sched(1) [OF inv step s] show ?thesis
      using 2 w(3) by (cases "ps = []") (auto simp: rr_state_def split: if_splits intro: exI [of _ 0])
  next
    case 3
    show ?thesis
    proof (cases "running w' = s_fiber (sched w')")
      case True
      show ?thesis
      proof (cases "drop k ps")
        case Nil
        then show ?thesis using 3 by (simp add: rr_state_def)
      next
        case (Cons f fs)
        then have k: "k < length ps" by (metis drop_all linorder_not_less list.distinct(1))
        then have "f = ps ! k" "fs = drop (Suc k) ps" using Cons by (metis Cons_nth_drop_Suc list.inject)+
        moreover have "dispatched w' w'' = [f] \<and> spc w'' = S_drain fs"
          using step_spc_sched(2) [OF inv step True] 3(3) Cons by simp
        ultimately show ?thesis using 3 k by (auto simp: rr_state_def take_Suc_conv_app_nth intro!: exI [of _ "Suc k"])
      qed
    next
      case False
      then show ?thesis using 3 step_spc_other [OF step False] by (auto simp: rr_state_def)
    qed
  qed
qed

lemma rr_run:
  assumes "dfk_run w log w'" "dfk_reach w" "running w = s_fiber (sched w)" "spc w = S_top" "s_pending (sched w) = ps"
  shows "rr_state w ps log w'"
  using assms
proof (induction rule: dfk_run.induct)
  case (here w)
  then show ?case by (simp add: rr_state_def)
next
  case (more w log w' w'')
  then show ?case using rr_step [of w' w'' w ps log] reach_inv [OF run_reach [OF more.hyps(1)]] by simp
qed

lemma set_queued: "finite (dom M) \<Longrightarrow> set_mset (queued q M) = {f. \<exists>x v. M x = Some v \<and> f \<in> set (q v)}"
  by (force simp: queued_def set_mset_sum)

lemma io_length:
  assumes "world_inv w"
  shows "length (io_fibers w) < 2 ^ 64"
proof -
  have "distinct (io_fibers w)"
  proof -
    have "count (mset (io_fibers w)) f \<le> count (places w) f" for f by (simp add: places_def)
    then have "count (mset (io_fibers w)) f \<le> 1" for f using inv_count [OF assms, of f] by (metis le_trans le_refl zero_le)
    then show ?thesis by (metis distinct_count_atmost_1 count_mset_0_iff le_neq_implies_less less_one)
  qed
  then have "length (io_fibers w) = card (set (io_fibers w))" by (simp add: distinct_card)
  also have "\<dots> \<le> card (- {NULL} :: addr set)"
    using place_sets(4) [OF assms] sched_not_fiber(5) [OF assms] by (intro card_mono) auto
  also have "\<dots> < 2 ^ 64" by (simp add: Compl_eq_Diff_UNIV card_Diff_singleton card_word)
  finally show ?thesis .
qed

section \<open>Stack layout\<close>

lemma unat_add_small: "unat a + unat b < 2 ^ 63 \<Longrightarrow> unat (a + b :: 64 word) = unat a + unat b"
  by (simp add: unat_plus_if')

lemma aligned_base_bounds:
  assumes "unat base + unat al < 2 ^ 63" "0 < al"
  shows "unat (aligned_base al base) mod unat al = 0" "unat base \<le> unat (aligned_base al base)"
    "unat (aligned_base al base) < unat base + unat al"
proof -
  define b a where "b = unat base" and "a = unat al"
  have a: "0 < a" "b + a < 2 ^ 63" using assms by (simp_all add: a_def b_def unat_gt_0 word_gt_0)
  have "int (unat base) < int (2 ^ 63)" using a unfolding b_def by linarith
  then have "uint base < 2 ^ 63" "- (2 ^ 63) \<le> uint base" using uint_ge_0 [of base] by (simp_all add: order_trans [of _ 0] del: uint_ge_0)
  then have "sint base = int b" by (simp add: sint_uint b_def signed_take_bit_int_eq_self)
  then have r: "sint base smod uint al = int (b mod a)"
    by (cases "b = 0") (simp_all add: signed_modulo_int_def a_def zmod_int uint_nat [symmetric] del: uint_nat)
  have m: "b mod a < a" using a by simp
  have pad: "unat (al - word_of_int (int (b mod a))) = a - b mod a"
  proof -
    have "b mod a < 2 ^ 63" using m a by linarith
    then have "b mod a < 2 ^ 64" by simp
    then have "unat (of_nat (b mod a) :: 64 word) = b mod a" by (rule unat_of_nat_addr)
    then show ?thesis using m by (simp add: unat_sub_if' a_def [symmetric])
  qed
  have "unat (aligned_base al base) = (if b mod a = 0 then b else b + (a - b mod a))"
    using a m pad by (simp add: aligned_base_def r Let_def unat_add_small b_def [symmetric])
  moreover have "(b + (a - b mod a)) mod a = 0"
    using m by (metis add_diff_inverse_nat mod_add_left_eq mod_self not_less_iff_gr_or_eq)
  ultimately show "unat (aligned_base al base) mod unat al = 0" "unat base \<le> unat (aligned_base al base)"
    "unat (aligned_base al base) < unat base + unat al"
    using a m by (auto simp: a_def [symmetric] b_def [symmetric])
qed

section \<open>Properties\<close>

text \<open>
  C1. Every reachable state keeps all fibers: each live fiber is in exactly one place (running, pending,
  terminated, in the scheduler's local list, parked for I/O, or in one wait queue), so its single list
  hook is never linked twice and no fiber is lost; every mutex with waiters has a live owner, which is
  not among its waiters.
\<close>

theorem fibers_conserved:
  "dfk_reach w \<Longrightarrow> (\<forall>f. count (places w) f = (if f \<in> fibers w then 1 else 0))
    \<and> (\<forall>m v. mutexes w m = Some v \<longrightarrow> (m_waitqueue v \<noteq> [] \<longrightarrow> m_owner v \<in> fibers w) \<and> m_owner v \<notin> set (m_waitqueue v))"
  using inv_count inv_parts(6) reach_inv by (fastforce simp: mutex_ok_def)

theorem fibers_conserved_witness:
  "dfk_reach sample_held \<and> count (places sample_held) 262144 = 1 \<and> mutexes sample_held 8 = Some \<lparr>m_waitqueue = [262144], m_owner = 65536\<rparr>"
  using sample_held_reach fibers_conserved [OF sample_held_reach] by (simp add: sample_held_def)

text \<open>
  C2. No assertion of the library fails in a reachable state: the scheduler finishes each of its steps, a
  fiber that gets the processor back finishes the call it was suspended in (in particular, it then owns
  the mutex it waited for), every call that respects the rules for clients succeeds, and the event
  loop can resume any of the parked fibers.
\<close>

theorem no_assertion_fails:
  "dfk_reach w \<Longrightarrow>
     (running w = s_fiber (sched w) \<and> spc w \<noteq> S_done \<longrightarrow> dfk__scheduler w \<noteq> None)
     \<and> (running w \<in> fibers w \<longrightarrow> goes_on w \<noteq> None)
     \<and> (running w \<in> fibers w \<and> cont w (running w) = Ready \<longrightarrow> (\<forall>a. api_ok w a \<longrightarrow> api_call w a \<noteq> None))
     \<and> (running w = s_eventloop (sched w) \<longrightarrow> (\<forall>fs. distinct fs \<and> set fs \<subseteq> set (io_fibers w) \<longrightarrow> io_ready w fs \<noteq> None))"
  using inv_scheduler [OF reach_inv] inv_goes_on [OF reach_inv] inv_api_call [OF reach_inv] inv_io_ready [OF reach_inv]
  by fastforce

theorem no_assertion_fails_witness: "dfk_reach sample_held \<and> api_call sample_held (Unlock 8) \<noteq> None"
proof -
  have "running sample_held \<in> fibers sample_held" "cont sample_held (running sample_held) = Ready" "api_ok sample_held (Unlock 8)"
    by (simp_all add: sample_held_def)
  then show ?thesis using no_assertion_fails [OF sample_held_reach] sample_held_reach by blast
qed

text \<open>
  C3. Dispatch is round robin: whatever the fibers do, after the scheduler is at the top of its loop with
  the pending fibers \<open>ps\<close>, the fibers that get the processor are those of \<open>ps\<close>, in that order, before any
  other; and no iteration of the loop ends before all of them have had it.
\<close>

theorem dispatch_round_robin:
  assumes "dfk_reach w" "running w = s_fiber (sched w)" "spc w = S_top" "dfk_run w log w'"
  shows "(prefix log (s_pending (sched w)) \<or> prefix (s_pending (sched w)) log)
    \<and> (w' \<noteq> w \<and> spc w' \<in> {S_top, S_done} \<longrightarrow> prefix (s_pending (sched w)) log)"
  using rr_run [OF assms(4,1,2,3) refl] by (auto simp: rr_state_def take_is_prefix)

theorem dispatch_round_robin_witness:
  "\<exists>log w'. dfk_run sample_start log w' \<and> log = [65536] \<and> (prefix log (s_pending (sched sample_start)) \<or> prefix (s_pending (sched sample_start)) log)"
proof -
  have top: "running sample_start = s_fiber (sched sample_start)" "spc sample_start = S_top"
    by (simp_all add: sample_start_def sample_sched_def)
  obtain w1 where w1: "do_event sample_start Sched = Some w1" "dispatched sample_start w1 = []"
    by (simp add: sample_start_def sample_sched_def dispatched_def event_defs)
  obtain w2 where w2: "do_event w1 Sched = Some w2" "dispatched w1 w2 = [65536]"
    using w1(1) by (auto simp: sample_start_def sample_sched_def dispatched_def event_defs)
  have "dfk_run sample_start [65536] w2"
    using dfk_run.more [OF dfk_run.more [OF dfk_run.here], of sample_start w1 w2] w1 w2 step_event by auto
  then show ?thesis using dispatch_round_robin [OF sample_start_reach top] by blast
qed

text \<open>
  C31. The scheduler leaves its loop only when nothing can run any more: no fiber is pending, terminated or
  waiting for I/O, and the fibers still alive are exactly those in the wait queues of mutexes and
  condition variables. When there is none, every fiber has been freed.
\<close>

theorem scheduler_exit:
  assumes "dfk_reach w" "running w = s_fiber (sched w)" "spc w = S_top" "dfk__scheduler w = Some w'" "spc w' = S_done"
  shows "s_pending (sched w') = [] \<and> s_terminated (sched w') = [] \<and> io_fibers w' = []
    \<and> fibers w' = {f. \<exists>m v. mutexes w' m = Some v \<and> f \<in> set (m_waitqueue v)} \<union> {f. \<exists>c v. conds w' c = Some v \<and> f \<in> set (c_waitqueue v)}"
proof -
  have inv: "world_inv w" using reach_inv [OF assms(1)] .
  have e: "s_terminated (sched w) = []" "s_pending (sched w) = []" "s_iowait (sched w) = 0" and w': "w' = w\<lparr>spc := S_done\<rparr>"
    using assms(3-5) by (auto simp: dfk__scheduler_def scheduler_begin_def Let_def split: if_splits bind_splits)
  have "of_nat (length (io_fibers w)) = (0 :: size_t)" using e(3) inv_parts(1) [OF inv] by (simp add: base_ok_def)
  then have io: "io_fibers w = []" using io_length [OF inv] by (auto simp: word_of_nat_eq_0_iff dest!: dvd_imp_le)
  have "on_cpu (running w) (fibers w) = {#}" using assms(2) sched_not_fiber(1) [OF inv] by (simp add: on_cpu_def)
  then have "places w = queued m_waitqueue (mutexes w) + queued c_waitqueue (conds w)"
    using e io assms(3) by (simp add: places_def local_pending_def)
  moreover have "set_mset (places w) = fibers w" using inv_parts(3) [OF inv] sched_not_fiber(6) [OF inv] by simp
  ultimately have "fibers w = set_mset (queued m_waitqueue (mutexes w)) \<union> set_mset (queued c_waitqueue (conds w))" by simp
  then show ?thesis using e io w' inv_parts(4,5) [OF inv] by (simp add: set_queued)
qed

theorem scheduler_exit_witness:
  "\<exists>w'. dfk__scheduler sample_idle = Some w' \<and> fibers w' = {65536, 262144} \<and> io_fibers w' = []"
proof -
  have c: "running sample_idle = s_fiber (sched sample_idle)" "spc sample_idle = S_top" by (simp_all add: sample_idle_def sample_sched_def)
  obtain w' where w': "dfk__scheduler sample_idle = Some w'" "spc w' = S_done" "fibers w' = {65536, 262144}"
    by (simp add: sample_idle_def sample_held_def sample_sched_def dfk__scheduler_def scheduler_begin_def)
  then show ?thesis using scheduler_exit [OF sample_idle_reach c w'(1,2)] by simp
qed

text \<open>
  C32. A mutex is handed on in the order of the requests, without a gap in which a third fiber could take
  it: unlocking a mutex with waiters makes the first of them its owner and the last pending fiber, and
  when that fiber gets the processor back its call of \<^verbatim>\<open>dfk_mutex_lock\<close> returns with the mutex its own.
\<close>

theorem mutex_handoff:
  assumes "dfk_reach w" "running w \<in> fibers w" "cont w (running w) = Ready"
    "mutexes w m = Some v" "m_owner v = running w" "m_waitqueue v = f # q"
  shows "\<exists>w'. dfk_mutex_unlock w m = Some w' \<and> mutexes w' m = Some \<lparr>m_waitqueue = q, m_owner = f\<rparr>
    \<and> s_pending (sched w') = s_pending (sched w) @ [f]
    \<and> (let u = w'\<lparr>running := f, sched := (sched w')\<lparr>s_current := f\<rparr>\<rparr> in goes_on u = Some (go_on_at u f Ready))"
proof -
  have inv: "world_inv w" using reach_inv [OF assms(1)] .
  note wf = waiter_facts [OF inv assms(4), of f] and r = running_facts [OF inv assms(2)] and b = inv_parts(6) [OF inv assms(4)]
  let ?w = "wake (set_mutex w m \<lparr>m_waitqueue = q, m_owner = f\<rparr>) [f]"
  have u: "dfk_mutex_unlock w m = Some ?w"
    using assms(4-6) wf r(1,2) b by (simp add: dfk_mutex_unlock_def mutex_hand_on_def get_mutex_def resume_wake)
  have "cont ?w f = At_lock m" using wf assms(6) by simp
  then show ?thesis
    using u b by (simp add: goes_on_def mutex_locked_def get_mutex_def go_on_at_def dfk__this_fiber_def Let_def) (simp add: wake_def set_mutex_def)
qed

theorem mutex_handoff_witness:
  "\<exists>w'. dfk_mutex_unlock sample_held 8 = Some w' \<and> mutexes w' 8 = Some \<lparr>m_waitqueue = [], m_owner = 262144\<rparr>"
proof -
  have "running sample_held \<in> fibers sample_held" "cont sample_held (running sample_held) = Ready"
    "mutexes sample_held 8 = Some \<lparr>m_waitqueue = [262144], m_owner = 65536\<rparr>"
    "m_owner \<lparr>m_waitqueue = [262144], m_owner = 65536\<rparr> = running sample_held"
    "m_waitqueue \<lparr>m_waitqueue = [262144], m_owner = 65536\<rparr> = 262144 # []"
    by (simp_all add: sample_held_def)
  from mutex_handoff [OF sample_held_reach this] show ?thesis by blast
qed

text \<open>
  C33. \<^verbatim>\<open>dfk_cond_signal\<close> makes the fiber that waits longest pending and leaves the others waiting;
  \<^verbatim>\<open>dfk_cond_broadcast\<close> makes all of them pending, in the order of their waiting. A fiber woken that
  way takes the mutex again before \<^verbatim>\<open>dfk_cond_wait\<close> returns: when it gets the processor it owns the
  mutex at once if it is free, and queues up for it if another fiber owns it.
\<close>

theorem cond_wakes_in_order:
  assumes "dfk_reach w" "conds w c = Some v"
  shows "(\<forall>f q. c_waitqueue v = f # q \<longrightarrow> (\<exists>w'. dfk_cond_signal w c = Some w' \<and> conds w' c = Some \<lparr>c_waitqueue = q\<rparr>
        \<and> s_pending (sched w') = s_pending (sched w) @ [f]))
    \<and> (\<exists>w'. dfk_cond_broadcast w c = Some w' \<and> conds w' c = Some \<lparr>c_waitqueue = []\<rparr>
        \<and> s_pending (sched w') = s_pending (sched w) @ c_waitqueue v)
    \<and> (\<forall>f\<in>set (c_waitqueue v). \<exists>m u. cont w f = At_wait c m \<and> mutexes w m = Some u
        \<and> goes_on (w\<lparr>running := f\<rparr>) = dfk_mutex_lock (go_on_at (w\<lparr>running := f\<rparr>) f Ready) m)"
proof -
  have inv: "world_inv w" using reach_inv [OF assms(1)] .
  note b = inv_parts(7) [OF inv assms(2)] and cw = cond_waiters [OF inv assms(2)]
  have "\<exists>m u. cont w f = At_wait c m \<and> mutexes w m = Some u
      \<and> goes_on (w\<lparr>running := f\<rparr>) = dfk_mutex_lock (go_on_at (w\<lparr>running := f\<rparr>) f Ready) m" if f: "f \<in> set (c_waitqueue v)" for f
  proof -
    obtain m where m: "cont w f = At_wait c m" using b f by (auto simp: cond_ok_def)
    moreover have "f \<in> fibers w" using cw(1) f by auto
    ultimately have "m \<in> dom (mutexes w)" using inv_parts(2) [OF inv] by (simp add: cont_ok_def)
    then show ?thesis using m by (auto simp: goes_on_def)
  qed
  moreover have "\<exists>w'. dfk_cond_signal w c = Some w' \<and> conds w' c = Some \<lparr>c_waitqueue = q\<rparr> \<and> s_pending (sched w') = s_pending (sched w) @ [f]"
    if "c_waitqueue v = f # q" for f q
    using that b cw(2) assms(2) by (simp add: dfk_cond_signal_def get_cond_def resume_wake set_cond_def) (simp add: wake_def)
  moreover have "\<exists>w'. dfk_cond_broadcast w c = Some w' \<and> conds w' c = Some \<lparr>c_waitqueue = []\<rparr> \<and> s_pending (sched w') = s_pending (sched w) @ c_waitqueue v"
    using b cw(2) assms(2) by (simp add: dfk_cond_broadcast_def get_cond_def wake_all_eq set_cond_def) (simp add: wake_def)
  ultimately show ?thesis by blast
qed

theorem cond_wakes_in_order_witness:
  "\<exists>w'. dfk_cond_broadcast sample_idle 24 = Some w' \<and> s_pending (sched w') = [65536, 262144]"
proof -
  have "conds sample_idle 24 = Some \<lparr>c_waitqueue = [65536, 262144]\<rparr>" "s_pending (sched sample_idle) = []"
    by (simp_all add: sample_idle_def sample_sched_def)
  then show ?thesis using cond_wakes_in_order [OF sample_idle_reach, of 24] by auto
qed

text \<open>
  The mutex counts no locks: a fiber that locks a mutex twice without contention and unlocks it once
  has given it up, although the documentation calls the mutex recursive.
\<close>

theorem mutex_not_recursive:
  assumes "dfk_reach w" "running w \<in> fibers w" "cont w (running w) = Ready" "mutexes w m = Some \<lparr>m_waitqueue = [], m_owner = NULL\<rparr>"
  shows "\<exists>w1 w2 w3. dfk_mutex_lock w m = Some w1 \<and> dfk_mutex_lock w1 m = Some w2 \<and> dfk_mutex_unlock w2 m = Some w3
    \<and> map_option m_owner (mutexes w2 m) = Some (running w) \<and> map_option m_owner (mutexes w3 m) = Some NULL"
proof -
  have inv: "world_inv w" using reach_inv [OF assms(1)] .
  note r = running_facts [OF inv assms(2)] and b = inv_parts(6) [OF inv assms(4)]
  let ?w = "set_mutex w m \<lparr>m_waitqueue = [], m_owner = running w\<rparr>"
  have t: "dfk__this_fiber ?w = running w" using r(1) by (simp add: dfk__this_fiber_def set_mutex_def)
  have "dfk_mutex_lock w m = Some ?w" using assms(4) b r(1) t by (simp add: dfk_mutex_lock_def get_mutex_def mutex_locked_def)
  moreover have "dfk_mutex_lock ?w m = Some ?w" using b r(2) t by (simp add: dfk_mutex_lock_def get_mutex_def mutex_locked_def)
  moreover have "\<exists>w3. dfk_mutex_unlock ?w m = Some w3 \<and> map_option m_owner (mutexes w3 m) = Some NULL"
    using b r(2) t by (simp add: dfk_mutex_unlock_def get_mutex_def mutex_hand_on_def)
  ultimately show ?thesis by auto
qed

theorem mutex_not_recursive_witness:
  "\<exists>w w1 w2 w3. dfk_reach w \<and> dfk_mutex_lock w 8 = Some w1 \<and> dfk_mutex_lock w1 8 = Some w2 \<and> dfk_mutex_unlock w2 8 = Some w3
    \<and> map_option m_owner (mutexes w2 8) = Some 65536 \<and> map_option m_owner (mutexes w3 8) = Some NULL"
proof -
  obtain w where w: "do_events sample_start [Sched, Sched, Go, Call (New_mutex 8)] = Some w" "running w \<in> fibers w"
    "cont w (running w) = Ready" "mutexes w 8 = Some \<lparr>m_waitqueue = [], m_owner = NULL\<rparr>" "running w = 65536"
    by (simp add: sample_start_def sample_sched_def event_defs)
  from events_reach [OF sample_start_reach w(1)] have "dfk_reach w" .
  with mutex_not_recursive [OF this w(2-4)] w(5) show ?thesis by metis
qed

text \<open>
  When memory for the main fiber or the scheduler's cannot be had, \<^verbatim>\<open>dfk_work\<close> returns
  \<^verbatim>\<open>dfk_err_nomem\<close> and no fiber is left allocated. When it cannot be had for the event loop's, all fibers are
  freed as well, but the main fiber has not run and the result is \<^verbatim>\<open>dfk_err_ok\<close>.
\<close>

theorem dfk_work_nomem:
  assumes "m1 \<noteq> NULL" "m2 \<noteq> NULL" "m1 \<noteq> m2" "stack_layout e m1 arg n \<noteq> None" "stack_layout e m2 m1 0 \<noteq> None"
  shows "\<exists>w1 w2 w3. dfk_work (dfk_init e) NULL m2 m3 arg n = Some (Returns w1 dfk_err_nomem) \<and> fibers w1 = {}
    \<and> dfk_work (dfk_init e) m1 NULL m3 arg n = Some (Returns w2 dfk_err_nomem) \<and> fibers w2 = {}
    \<and> dfk_work (dfk_init e) m1 m2 NULL arg n = Some (Returns w3 dfk_err_ok) \<and> fibers w3 = {} \<and> dfk_errno w3 = dfk_err_nomem"
  using assms
  by (auto simp: dfk_work_def dfk_init_def dfk__spawn_def dfk__scheduler_main_def dfk__fiber_free_def go_on_at_def insert_Diff_if)

theorem dfk_work_nomem_witness:
  "\<exists>w. dfk_work (dfk_init sample_env) 65536 131072 NULL 0 0 = Some (Returns w dfk_err_ok) \<and> fibers w = {}"
  using dfk_work_nomem [of 65536 131072 sample_env 0 0 NULL] by (auto simp: sample_layout)

text \<open>
  C35. The stack of a new fiber lies inside its block: for a block in the lower half of the address space and a
  stack size with room for the fiber structure, the argument, the guard area and one alignment unit, the stack
  base is aligned, lies behind the argument copy and the guard area, and the stack reaches exactly to the
  end of the block, so it overlaps nothing else.
\<close>

theorem stack_layout_bounds:
  assumes "unat fiber + unat (default_stack_size e) < 2 ^ 63" "0 < DFK_STACK_ALIGNMENT e"
    "unat (sizeof_fiber e) + unat n + unat (DFK_STACK_GUARD_SIZE e) + unat (DFK_STACK_ALIGNMENT e) \<le> unat (default_stack_size e)"
  shows "\<exists>st. stack_layout e fiber arg n = Some st \<and> unat (stack_base st) mod unat (DFK_STACK_ALIGNMENT e) = 0
    \<and> unat fiber + unat (sizeof_fiber e) + unat n + unat (DFK_STACK_GUARD_SIZE e) \<le> unat (stack_base st) \<and> 0 < unat (stack_size st)
    \<and> unat (stack_base st) + unat (stack_size st) = unat fiber + unat (default_stack_size e)
    \<and> (if n = 0 then f_arg st = arg else unat (f_arg st) = unat fiber + unat (sizeof_fiber e))"
proof -
  let ?al = "DFK_STACK_ALIGNMENT e"
  define s where "s = fiber + sizeof_fiber e"
  define b where "b = s + n + DFK_STACK_GUARD_SIZE e"
  define t where "t = aligned_base ?al b"
  define u where "u = fiber + default_stack_size e"
  have s: "unat s = unat fiber + unat (sizeof_fiber e)" using assms(1,3) unfolding s_def by (intro unat_add_small) linarith
  have sn: "unat (s + n) = unat s + unat n" using assms(1,3) s by (intro unat_add_small) linarith
  have b: "unat b = unat s + unat n + unat (DFK_STACK_GUARD_SIZE e)"
    using assms(1,3) s sn unfolding b_def by (subst unat_add_small) linarith+
  have u: "unat u = unat fiber + unat (default_stack_size e)" using assms(1) unfolding u_def by (intro unat_add_small)
  have bs: "unat b + unat ?al < 2 ^ 63" using b s assms(1,3) by linarith
  note t = aligned_base_bounds [OF bs assms(2), folded t_def]
  have tu: "unat t < unat u" using t(3) b s u assms(3) by linarith
  then have "stack_layout e fiber arg n = Some \<lparr>f_arg = (if n \<noteq> 0 then s else arg), stack_base = t, stack_size = u - t\<rparr>"
    by (cases "n = 0") (simp_all add: stack_layout_def Let_def word_less_nat_alt s_def b_def t_def u_def)
  moreover have "unat (u - t) = unat u - unat t" using tu by (simp add: unat_sub_if')
  ultimately show ?thesis using t(1,2) b s u tu by auto
qed

theorem stack_layout_bounds_witness:
  "\<exists>st. stack_layout sample_env 262144 0 8 = Some st \<and> unat (stack_base st) mod 16 = 0 \<and> unat (stack_base st) + unat (stack_size st) = 266240"
  using stack_layout_bounds [of 262144 sample_env 8 0] by (auto simp: sample_env_def)

end
