(* ===== verification/Dfk_Memmem.thy ===== *)
theory Dfk_Memmem
  imports Dfk_Memory "HOL-Library.Sublist"
begin

text \<open>
  The search for a byte string in memory, \<^verbatim>\<open>src/portable/memmem.c\<close>, in the configuration without a \<^verbatim>\<open>memmem\<close> of the C library.
\<close>

text \<open>Whether two ranges have equal contents, the only use made of \<^verbatim>\<open>memcmp\<close>.\<close>

definition mem_equal :: "byte mem \<Rightarrow> addr \<Rightarrow> addr \<Rightarrow> nat \<Rightarrow> bool option" where
  "mem_equal m p q n = do { xs \<leftarrow> load_bytes m p n; ys \<leftarrow> load_bytes m q n; Some (xs = ys) }"

partial_function (option) memmem_loop :: "byte mem \<Rightarrow> addr \<Rightarrow> addr \<Rightarrow> addr \<Rightarrow> size_t \<Rightarrow> addr option" where
  "memmem_loop m cur last_pos needle needle_len =
     (if cur \<le> last_pos then do {
        eq \<leftarrow> mem_equal m cur needle (unat needle_len);
        if eq then Some cur else memmem_loop m (cur + 1) last_pos needle needle_len
      } else Some NULL)"

definition dfkp_memmem :: "byte mem \<Rightarrow> addr \<Rightarrow> size_t \<Rightarrow> addr \<Rightarrow> size_t \<Rightarrow> addr option" where
  "dfkp_memmem m haystack haystack_len needle needle_len =
     (if haystack_len = 0 \<or> needle_len = 0 then Some NULL
      else if haystack_len < needle_len then Some NULL
      else let last_pos = haystack + haystack_len - needle_len in memmem_loop m haystack last_pos needle needle_len)"

text \<open>The reference: the position of the first occurrence.\<close>

fun find_sub :: "byte list \<Rightarrow> byte list \<Rightarrow> nat option" where
  "find_sub ns [] = (if ns = [] then Some 0 else None)"
| "find_sub ns (h # hs) = (if prefix ns (h # hs) then Some 0 else map_option Suc (find_sub ns hs))"

lemma find_sub_Some: "find_sub ns hs = Some k \<Longrightarrow> prefix ns (drop k hs) \<and> (\<forall>j<k. \<not> prefix ns (drop j hs))"
proof (induction hs arbitrary: k)
  case Nil
  then show ?case by (simp split: if_splits)
next
  case (Cons h hs)
  show ?case
  proof (cases "prefix ns (h # hs)")
    case False
    then obtain j where j: "find_sub ns hs = Some j" "k = Suc j" using Cons.prems by auto
    have "\<not> prefix ns (drop i (h # hs))" if "i < k" for i
      using Cons.IH [OF j(1)] False j(2) that by (cases i) auto
    then show ?thesis using Cons.IH [OF j(1)] j(2) by simp
  qed (use Cons.prems in simp)
qed

lemma find_sub_None: "find_sub ns hs = None \<longleftrightarrow> \<not> sublist ns hs"
  by (induction hs) (auto simp: sublist_Cons_right split: if_splits)

lemma find_sub_short: "length hs < length ns \<Longrightarrow> find_sub ns hs = None"
  using find_sub_None sublist_length_le by (metis leD)

lemma load_prefix:
  assumes "bytes_at m p xs" "n \<le> length xs"
  shows "load_bytes m p n = Some (take n xs)"
proof -
  have "bytes_at m p (take n xs @ drop n xs)" using assms(1) by simp
  then have "bytes_at m p (take n xs)" unfolding bytes_at_append by blast
  from load_bytes_at [OF this] assms(2) show ?thesis by simp
qed

lemma memmem_loop_spec:
  assumes "bytes_at m needle ns" "ns \<noteq> []" "bytes_at m cur hs" "length ns \<le> length hs + 1" "length ns < 2 ^ 63"
    and "unat last_pos + length ns = unat cur + length hs"
  shows "memmem_loop m cur last_pos needle (of_nat (length ns))
    = Some (case find_sub ns hs of None \<Rightarrow> NULL | Some k \<Rightarrow> cur + of_nat k)"
  using assms(3,4,6)
proof (induction hs arbitrary: cur)
  case Nil
  then have "length ns = 1" "unat last_pos < unat cur" using assms(2) by (cases ns; simp)+
  then show ?case using assms(2) by (subst memmem_loop.simps) (auto simp: word_le_nat_alt)
next
  case (Cons h hs)
  have un: "unat (of_nat (length ns) :: size_t) = length ns" using assms(5) by (simp add: unat_of_nat_addr)
  show ?case
  proof (cases "length ns \<le> length (h # hs)")
    case True
    have le: "cur \<le> last_pos" using Cons.prems(3) True by (simp add: word_le_nat_alt)
    have eq: "mem_equal m cur needle (length ns) = Some (prefix ns (h # hs))"
      using load_prefix [OF Cons.prems(1) True] load_bytes_at [OF assms(1)]
      by (simp add: mem_equal_def) (metis append_eq_conv_conj append_take_drop_id prefix_def)
    have at: "bytes_at m (cur + 1) hs" "unat (cur + 1) = Suc (unat cur)"
      using Cons.prems(1) unat_Suc_fits by (auto simp: bytes_at_Cons)
    have "memmem_loop m (cur + 1) last_pos needle (of_nat (length ns))
        = Some (case find_sub ns hs of None \<Rightarrow> NULL | Some k \<Rightarrow> cur + 1 + of_nat k)"
      by (rule Cons.IH [OF at(1)]) (use True Cons.prems(3) at(2) in auto)
    then show ?thesis
      using le eq un by (subst memmem_loop.simps) (auto simp: algebra_simps split: option.split)
  next
    case False
    then have "\<not> cur \<le> last_pos" using Cons.prems by (simp add: word_le_nat_alt)
    then show ?thesis using find_sub_short [of "h # hs" ns] False by (subst memmem_loop.simps) simp
  qed
qed

text \<open>
  The search agrees with its reference: for two byte strings in memory it returns the address of the first occurrence of the
  second in the first, the null pointer when there is none, and the null pointer for an empty string, where the \<^verbatim>\<open>memmem\<close> it stands
  in for returns the beginning.
\<close>

theorem memmem_first:
  assumes "bytes_at m haystack hs" "bytes_at m needle ns" "length hs < 2 ^ 63" "length ns < 2 ^ 63"
  shows "dfkp_memmem m haystack (of_nat (length hs)) needle (of_nat (length ns))
    = Some (if ns = [] then NULL else case find_sub ns hs of None \<Rightarrow> NULL | Some k \<Rightarrow> haystack + of_nat k)
    \<and> (find_sub ns hs = None \<longleftrightarrow> \<not> sublist ns hs)
    \<and> (\<forall>k. find_sub ns hs = Some k \<longrightarrow> prefix ns (drop k hs) \<and> (\<forall>j<k. \<not> prefix ns (drop j hs)))"
proof -
  have un: "unat (of_nat (length ns) :: size_t) = length ns" "unat (of_nat (length hs) :: size_t) = length hs"
    using assms(3,4) by (simp_all add: unat_of_nat_addr)
  have z: "of_nat (length xs) = (0 :: size_t) \<longleftrightarrow> xs = []" if "length xs < 2 ^ 63" for xs :: "byte list"
    using that of_nat_size_eq_iff [of "length xs" 0] by simp
  have "dfkp_memmem m haystack (of_nat (length hs)) needle (of_nat (length ns))
    = Some (if ns = [] then NULL else case find_sub ns hs of None \<Rightarrow> NULL | Some k \<Rightarrow> haystack + of_nat k)"
  proof (cases "ns = [] \<or> length hs < length ns")
    case True
    then show ?thesis
      using z [OF assms(3)] z [OF assms(4)] un find_sub_short [of hs ns] by (auto simp: dfkp_memmem_def word_less_nat_alt)
  next
    case False
    have f: "fits haystack (length hs)" by (rule bytes_at_fits [OF assms(1)])
    have l: "haystack + of_nat (length hs) - of_nat (length ns) = haystack + of_nat (length hs - length ns)"
      using False by (simp add: of_nat_diff)
    have e: "unat (haystack + of_nat (length hs - length ns)) = unat haystack + (length hs - length ns)"
      by (rule unat_add_fits [OF f]) simp
    have "memmem_loop m haystack (haystack + of_nat (length hs - length ns)) needle (of_nat (length ns))
        = Some (case find_sub ns hs of None \<Rightarrow> NULL | Some k \<Rightarrow> haystack + of_nat k)"
      by (rule memmem_loop_spec [OF assms(2) _ assms(1) _ assms(4)], unfold e) (use False in auto)
    moreover have "\<not> of_nat (length hs) < (of_nat (length ns) :: size_t)" "hs \<noteq> []" using False un by (auto simp: word_less_nat_alt)
    ultimately show ?thesis using False z [OF assms(3)] z [OF assms(4)] by (simp add: dfkp_memmem_def l)
  qed
  then show ?thesis using find_sub_None find_sub_Some by blast
qed

theorem memmem_first_witness:
  "dfkp_memmem (put_bytes (put_bytes (\<lambda>_. None) 4096 [65, 66, 13, 10, 67]) 8192 [13, 10]) 4096 5 8192 2 = Some 4098"
proof -
  let ?m1 = "put_bytes (\<lambda>_. None) 4096 [65, 66, 13, 10, 67 :: byte]" let ?m = "put_bytes ?m1 8192 [13, 10]"
  have 1: "bytes_at ?m1 4096 [65, 66, 13, 10, 67]" by (rule put_bytes_at) (simp add: fits_def)
  have h: "bytes_at ?m 4096 [65, 66, 13, 10, 67]"
    by (rule bytes_at_cong [OF 1], rule put_bytes_outside) (auto simp: range_of_unat fits_def)
  have n: "bytes_at ?m 8192 [13, 10]" by (rule put_bytes_at) (simp add: fits_def)
  from memmem_first [OF h n] show ?thesis by (simp del: put_bytes.simps)
qed

end
