(* ===== verification/Dfk_Socket.thy ===== *)
theory Dfk_Socket
  imports Dfk_Error "HOL-Library.Sublist" "HOL-Library.Multiset"
begin

text \<open>
  TCP sockets and the descriptor helpers: \<^verbatim>\<open>src/tcp_socket.c\<close>, \<^verbatim>\<open>src/read.c\<close>, \<^verbatim>\<open>src/close.c\<close>,
  \<^verbatim>\<open>src/make_nonblock.c\<close>, \<^verbatim>\<open>src/eventloop.c\<close> and \<^verbatim>\<open>dfk__io\<close> of \<^verbatim>\<open>src/epoll.c\<close>.

  The operating system is a parameter: a state of any type and a record with one operation per
  system call the code makes, each giving the value returned and the state after it; \<^verbatim>\<open>errno\<close> is read
  from the state. Buffers are given by their contents, sizes by natural numbers: the code only
  compares them and adds up what was transferred.
\<close>

section \<open>The operating system\<close>

text \<open>\<^verbatim>\<open>EWOULDBLOCK\<close> is \<^verbatim>\<open>EAGAIN\<close>, as on Linux.\<close>

datatype errno = EAGAIN | EINPROGRESS | ECONNREFUSED | E_other nat

type_synonym fd = int

type_synonym io_events = "32 word"

unbundle bit_operations_syntax

definition DFK_IO_IN :: io_events where "DFK_IO_IN = 1"
definition DFK_IO_OUT :: io_events where "DFK_IO_OUT = 4"
definition DFK_IO_ERR :: io_events where "DFK_IO_ERR = 8"

text \<open>
  \<open>os_wait\<close> is what happens between \<^verbatim>\<open>dfk__iosuspend\<close> and the resumption of the fiber: it gives the
  events the event loop reports. \<open>os_spawn\<close> is the call of \<^verbatim>\<open>dfk_spawn\<close> for an accepted connection:
  it says whether there was memory for the fiber, which the code does not look at. \<open>os_getsockopt\<close> gives the pending error of the socket.
\<close>

record 'o os_ops =
  os_errno :: "'o \<Rightarrow> errno"
  os_socket :: "'o \<Rightarrow> int \<times> 'o"
  os_close :: "fd \<Rightarrow> 'o \<Rightarrow> int \<times> 'o"
  os_getfl :: "fd \<Rightarrow> 'o \<Rightarrow> int \<times> 'o"
  os_setfl :: "fd \<Rightarrow> int \<Rightarrow> 'o \<Rightarrow> int \<times> 'o"
  os_connect :: "fd \<Rightarrow> string \<Rightarrow> 16 word \<Rightarrow> 'o \<Rightarrow> int \<times> 'o"
  os_getsockopt :: "fd \<Rightarrow> 'o \<Rightarrow> int \<times> errno option \<times> 'o"
  os_bind :: "fd \<Rightarrow> string \<Rightarrow> 16 word \<Rightarrow> 'o \<Rightarrow> int \<times> 'o"
  os_listen :: "fd \<Rightarrow> nat \<Rightarrow> 'o \<Rightarrow> int \<times> 'o"
  os_accept :: "fd \<Rightarrow> 'o \<Rightarrow> int \<times> 'o"
  os_shutdown :: "fd \<Rightarrow> int \<Rightarrow> 'o \<Rightarrow> int \<times> 'o"
  os_read :: "fd \<Rightarrow> nat \<Rightarrow> 'o \<Rightarrow> int \<times> 8 word list \<times> 'o"
  os_write :: "fd \<Rightarrow> 8 word list \<Rightarrow> 'o \<Rightarrow> int \<times> 'o"
  os_epoll_add :: "fd \<Rightarrow> io_events \<Rightarrow> 'o \<Rightarrow> int \<times> 'o"
  os_wait :: "fd \<Rightarrow> 'o \<Rightarrow> io_events \<times> 'o"
  os_spawn :: "fd \<Rightarrow> 'o \<Rightarrow> bool \<times> 'o"

text \<open>The fields of the library context that these functions set.\<close>

record dfk_ctx =
  c_sys_errno :: errno
  c_dfk_errno :: dfk_error_e

section \<open>Descriptors\<close>

definition error_syscall :: "'o os_ops \<Rightarrow> dfk_ctx \<Rightarrow> 'o \<Rightarrow> dfk_ctx" where
  "error_syscall S c s = c\<lparr>c_sys_errno := os_errno S s\<rparr>"

definition dfk__io :: "'o os_ops \<Rightarrow> dfk_ctx \<Rightarrow> fd \<Rightarrow> io_events \<Rightarrow> 'o \<Rightarrow> io_events \<times> dfk_ctx \<times> 'o" where
  "dfk__io S c fd events s = (case os_epoll_add S fd events s of (ret, s) \<Rightarrow>
     if ret = -1 then (DFK_IO_ERR, (error_syscall S c s)\<lparr>c_dfk_errno := dfk_err_sys\<rparr>, s)
     else case os_wait S fd s of (ev, s) \<Rightarrow> (ev, c, s))"

definition dfk__close :: "'o os_ops \<Rightarrow> dfk_ctx \<Rightarrow> fd \<Rightarrow> 'o \<Rightarrow> dfk_error_e \<times> dfk_ctx \<times> 'o" where
  "dfk__close S c sock s = (case os_close S sock s of (ret, s) \<Rightarrow>
     if ret = -1 then (dfk_err_sys, error_syscall S c s, s) else (dfk_err_ok, c, s))"

text \<open>\<open>O_NONBLOCK\<close> is set by a bitwise or with the flags read.\<close>

definition O_NONBLOCK :: int where "O_NONBLOCK = 2048"

definition dfk__make_nonblock :: "'o os_ops \<Rightarrow> dfk_ctx \<Rightarrow> fd \<Rightarrow> 'o \<Rightarrow> dfk_error_e \<times> dfk_ctx \<times> 'o" where
  "dfk__make_nonblock S c fd s = (case os_getfl S fd s of (flags, s) \<Rightarrow>
     if flags = -1 then (dfk_err_sys, error_syscall S c s, s)
     else case os_setfl S fd (flags OR O_NONBLOCK) s of (ret, s) \<Rightarrow>
       if ret = -1 then (dfk_err_sys, error_syscall S c s, s) else (dfk_err_ok, c, s))"

definition dfk__read :: "'o os_ops \<Rightarrow> dfk_ctx \<Rightarrow> fd \<Rightarrow> nat \<Rightarrow> 'o \<Rightarrow> (int \<times> 8 word list \<times> dfk_ctx \<times> 'o) option" where
  "dfk__read S c fd nbytes s = do {
     c_assert (nbytes \<noteq> 0);
     let (nread, bs, s) = os_read S fd nbytes s;
     if 0 \<le> nread then Some (nread, bs, c, s)
     else if os_errno S s \<noteq> EAGAIN then Some (-1, [], (error_syscall S c s)\<lparr>c_dfk_errno := dfk_err_sys\<rparr>, s)
     else do {
       let (ioret, c, s) = dfk__io S c fd DFK_IO_IN s;
       if ioret AND DFK_IO_ERR \<noteq> 0 then Some (-1, [], (error_syscall S c s)\<lparr>c_dfk_errno := dfk_err_sys\<rparr>, s)
       else do {
         c_assert (ioret AND DFK_IO_IN \<noteq> 0);
         let (nread, bs, s) = os_read S fd nbytes s;
         if nread < 0 then Some (-1, [], (error_syscall S c s)\<lparr>c_dfk_errno := dfk_err_sys\<rparr>, s)
         else Some (nread, bs, c, s)
       }
     }
   }"

text \<open>The names of the events that are set, as long as the next one fits, separated by a bar.\<close>

definition all_events :: "(io_events \<times> string) list" where
  "all_events = [(DFK_IO_IN, ''IN''), (DFK_IO_OUT, ''OUT''), (DFK_IO_ERR, ''ERR'')]"

fun io_events_loop :: "io_events \<Rightarrow> (io_events \<times> string) list \<Rightarrow> string \<Rightarrow> nat \<Rightarrow> bool \<Rightarrow> string" where
  "io_events_loop events [] buf room first = buf"
| "io_events_loop events ((event, str) # rest) buf room first =
     (if events AND event \<noteq> 0 then
        (if room < length str + (if first then 0 else 1) then buf
         else io_events_loop events rest (buf @ (if first then [] else ''|'') @ str)
           (room - (length str + (if first then 0 else 1))) False)
      else io_events_loop events rest buf room first)"

definition dfk__io_events_to_str :: "io_events \<Rightarrow> nat \<Rightarrow> string" where
  "dfk__io_events_to_str events buflen = io_events_loop events all_events [] buflen True"

section \<open>Sockets\<close>

record dfk_tcp_socket_t =
  t_socket :: fd

text \<open>\<open>nonblock\<close> says whether \<^verbatim>\<open>SOCK_NONBLOCK\<close> exists on the platform.\<close>

definition dfk_tcp_socket_init :: "'o os_ops \<Rightarrow> bool \<Rightarrow> dfk_ctx \<Rightarrow> 'o \<Rightarrow> dfk_tcp_socket_t \<Rightarrow> dfk_error_e \<times> dfk_tcp_socket_t \<times> dfk_ctx \<times> 'o" where
  "dfk_tcp_socket_init S nonblock c s sock = (case os_socket S s of (fd, s) \<Rightarrow>
     if fd = -1 then (dfk_err_sys, sock, error_syscall S c s, s)
     else if nonblock then (dfk_err_ok, sock\<lparr>t_socket := fd\<rparr>, c, s)
     else case dfk__make_nonblock S c fd s of (err, c, s) \<Rightarrow>
       if err \<noteq> dfk_err_ok then (case dfk__close S c fd s of (_, c, s) \<Rightarrow> (err, sock, c, s))
       else (dfk_err_ok, sock\<lparr>t_socket := fd\<rparr>, c, s))"

definition dfk_tcp_socket_close :: "'o os_ops \<Rightarrow> dfk_ctx \<Rightarrow> dfk_tcp_socket_t \<Rightarrow> 'o \<Rightarrow> dfk_error_e \<times> dfk_ctx \<times> 'o" where
  "dfk_tcp_socket_close S c sock s = dfk__close S c (t_socket sock) s"

definition dfk_tcp_socket_connect :: "'o os_ops \<Rightarrow> dfk_ctx \<Rightarrow> dfk_tcp_socket_t \<Rightarrow> string \<Rightarrow> 16 word \<Rightarrow> 'o \<Rightarrow> dfk_error_e \<times> dfk_ctx \<times> 'o" where
  "dfk_tcp_socket_connect S c sock endpoint port s = (case os_connect S (t_socket sock) endpoint port s of (ret, s) \<Rightarrow>
     if ret = -1 then
       (if os_errno S s = EINPROGRESS then
          (case dfk__io S c (t_socket sock) DFK_IO_OUT s of (ioret, c, s) \<Rightarrow>
           if ioret AND DFK_IO_ERR \<noteq> 0 then (dfk_err_sys, error_syscall S c s, s)
           else case os_getsockopt S (t_socket sock) s of (ret, err, s) \<Rightarrow>
             if ret = -1 then (dfk_err_sys, error_syscall S c s, s)
             else case err of
               None \<Rightarrow> (dfk_err_ok, c, s)
             | Some e \<Rightarrow> if e = ECONNREFUSED then (dfk_err_connection_refused, c, s)
                 else (dfk_err_sys, c\<lparr>c_sys_errno := e\<rparr>, s))
        else if os_errno S s = ECONNREFUSED then (dfk_err_connection_refused, c, s)
        else (dfk_err_ok, c, s))
     else (dfk_err_ok, c, s))"

definition dfk_tcp_socket_read :: "'o os_ops \<Rightarrow> dfk_ctx \<Rightarrow> dfk_tcp_socket_t \<Rightarrow> nat \<Rightarrow> 'o \<Rightarrow> (int \<times> 8 word list \<times> dfk_ctx \<times> 'o) option" where
  "dfk_tcp_socket_read S c sock nbytes s = do {
     c_assert (nbytes \<noteq> 0);
     dfk__read S c (t_socket sock) nbytes s
   }"

definition dfk_tcp_socket_write :: "'o os_ops \<Rightarrow> dfk_ctx \<Rightarrow> dfk_tcp_socket_t \<Rightarrow> 8 word list \<Rightarrow> 'o \<Rightarrow> (int \<times> dfk_ctx \<times> 'o) option" where
  "dfk_tcp_socket_write S c sock buf s = do {
     c_assert (buf \<noteq> []);
     let (nwritten, s) = os_write S (t_socket sock) buf s;
     if 0 \<le> nwritten then Some (nwritten, c, s)
     else if os_errno S s \<noteq> EAGAIN then Some (-1, (error_syscall S c s)\<lparr>c_dfk_errno := dfk_err_sys\<rparr>, s)
     else do {
       let (ioret, c, s) = dfk__io S c (t_socket sock) DFK_IO_OUT s;
       if ioret AND DFK_IO_ERR \<noteq> 0 then Some (-1, (error_syscall S c s)\<lparr>c_dfk_errno := dfk_err_sys\<rparr>, s)
       else do {
         c_assert (ioret AND DFK_IO_OUT \<noteq> 0);
         let (nwritten, s) = os_write S (t_socket sock) buf s;
         if nwritten < 0 then Some (-1, (error_syscall S c s)\<lparr>c_dfk_errno := dfk_err_sys\<rparr>, s)
         else Some (nwritten, c, s)
       }
     }
   }"

text \<open>The loop that accepts connections runs until a system call fails.\<close>

partial_function (option) accept_loop :: "'o os_ops \<Rightarrow> dfk_ctx \<Rightarrow> fd \<Rightarrow> 'o \<Rightarrow> (dfk_error_e \<times> dfk_ctx \<times> 'o) option" where
  "accept_loop S c sock s = (case os_accept S sock s of (fd, s) \<Rightarrow>
     if fd < 0 then
       (if os_errno S s = EAGAIN then
          (case dfk__io S c sock DFK_IO_IN s of (ioret, c, s) \<Rightarrow>
           if ioret AND DFK_IO_ERR \<noteq> 0 then Some (dfk_err_sys, error_syscall S c s, s)
           else accept_loop S c sock s)
        else Some (dfk_err_sys, error_syscall S c s, s))
     else case dfk__make_nonblock S c fd s of (err, c, s) \<Rightarrow>
       if err \<noteq> dfk_err_ok then (case dfk__close S c fd s of (_, c, s) \<Rightarrow> accept_loop S c sock s)
       else case os_spawn S fd s of (_, s) \<Rightarrow> accept_loop S c sock s)"

definition dfk_tcp_socket_listen :: "'o os_ops \<Rightarrow> dfk_ctx \<Rightarrow> dfk_tcp_socket_t \<Rightarrow> string \<Rightarrow> 16 word \<Rightarrow> nat \<Rightarrow> 'o \<Rightarrow> (dfk_error_e \<times> dfk_ctx \<times> 'o) option" where
  "dfk_tcp_socket_listen S c sock endpoint port backlog s = do {
     c_assert (port \<noteq> 0);
     c_assert (backlog \<noteq> 0);
     let (err, s) = os_bind S (t_socket sock) endpoint port s;
     if err < 0 then Some (dfk_err_sys, error_syscall S c s, s)
     else do {
       let (err, s) = os_listen S (t_socket sock) backlog s;
       if err < 0 then Some (dfk_err_sys, error_syscall S c s, s)
       else accept_loop S c (t_socket sock) s
     }
   }"

datatype dfk_shutdown_type = DFK_SHUT_RD | DFK_SHUT_WR | DFK_SHUT_RDWR

definition dfk_tcp_socket_shutdown :: "'o os_ops \<Rightarrow> dfk_ctx \<Rightarrow> dfk_tcp_socket_t \<Rightarrow> dfk_shutdown_type \<Rightarrow> 'o \<Rightarrow> dfk_error_e \<times> dfk_ctx \<times> 'o" where
  "dfk_tcp_socket_shutdown S c sock how s =
     (let native_how = (case how of DFK_SHUT_RD \<Rightarrow> 0 | DFK_SHUT_WR \<Rightarrow> 1 | DFK_SHUT_RDWR \<Rightarrow> 2) in
      case os_shutdown S (t_socket sock) native_how s of (err, s) \<Rightarrow>
        if err \<noteq> 0 then (dfk_err_sys, error_syscall S c s, s) else (dfk_err_ok, c, s))"

text \<open>
  The vectored operations. The read gives the contents stored in each buffer up to and including the last
  one read into.
\<close>

fun readv_loop :: "'o os_ops \<Rightarrow> dfk_ctx \<Rightarrow> dfk_tcp_socket_t \<Rightarrow> nat list \<Rightarrow> int \<Rightarrow> 'o \<Rightarrow> (int \<times> 8 word list list \<times> dfk_ctx \<times> 'o) option" where
  "readv_loop S c sock [] totalread s = Some (totalread, [], c, s)"
| "readv_loop S c sock (n # iov) totalread s = do {
     (nread, bs, c, s) \<leftarrow> dfk_tcp_socket_read S c sock n s;
     if nread < 0 then Some (nread, [], c, s)
     else if nread \<noteq> int n then Some (totalread + nread, [bs], c, s)
     else do {
       (ret, bss, c, s) \<leftarrow> readv_loop S c sock iov (totalread + nread) s;
       Some (ret, bs # bss, c, s)
     }
   }"

definition dfk_tcp_socket_readv :: "'o os_ops \<Rightarrow> dfk_ctx \<Rightarrow> dfk_tcp_socket_t \<Rightarrow> nat list \<Rightarrow> 'o \<Rightarrow> (int \<times> 8 word list list \<times> dfk_ctx \<times> 'o) option" where
  "dfk_tcp_socket_readv S c sock iov s = do { c_assert (iov \<noteq> []); readv_loop S c sock iov 0 s }"

fun writev_loop :: "'o os_ops \<Rightarrow> dfk_ctx \<Rightarrow> dfk_tcp_socket_t \<Rightarrow> 8 word list list \<Rightarrow> int \<Rightarrow> 'o \<Rightarrow> (int \<times> dfk_ctx \<times> 'o) option" where
  "writev_loop S c sock [] totalwritten s = Some (totalwritten, c, s)"
| "writev_loop S c sock (buf # iov) totalwritten s = do {
     (nwritten, c, s) \<leftarrow> dfk_tcp_socket_write S c sock buf s;
     if nwritten < 0 then Some (nwritten, c, s)
     else if nwritten \<noteq> int (length buf) then Some (nwritten, c, s)
     else writev_loop S c sock iov (totalwritten + nwritten) s
   }"

definition dfk_tcp_socket_writev :: "'o os_ops \<Rightarrow> dfk_ctx \<Rightarrow> dfk_tcp_socket_t \<Rightarrow> 8 word list list \<Rightarrow> 'o \<Rightarrow> (int \<times> dfk_ctx \<times> 'o) option" where
  "dfk_tcp_socket_writev S c sock iov s = do { c_assert (iov \<noteq> []); writev_loop S c sock iov 0 s }"

section \<open>What is relied on\<close>

text \<open>
  The event loop reports an error or one of the requested events; \<open>snt\<close> is the sequence of bytes
  sent on a descriptor, to which a write adds as many bytes as it returns; \<open>inp\<close> is the sequence of bytes
  still to come from the peer, from which a read takes as many bytes as it returns.
\<close>

definition polls_requested :: "'o os_ops \<Rightarrow> bool" where
  "polls_requested S \<longleftrightarrow> (\<forall>fd s r s1 ev s2. \<forall>e\<in>{DFK_IO_IN, DFK_IO_OUT}. os_epoll_add S fd e s = (r, s1) \<longrightarrow> os_wait S fd s1 = (ev, s2) \<longrightarrow>
     ev AND DFK_IO_ERR \<noteq> 0 \<or> ev AND e \<noteq> 0)"

definition sends :: "'o os_ops \<Rightarrow> fd \<Rightarrow> ('o \<Rightarrow> 8 word list) \<Rightarrow> bool" where
  "sends S fd snt \<longleftrightarrow>
     (\<forall>buf s r s'. os_write S fd buf s = (r, s') \<longrightarrow>
       (if 0 \<le> r then r \<le> int (length buf) \<and> snt s' = snt s @ take (nat r) buf else snt s' = snt s))
     \<and> (\<forall>e s. snt (snd (os_epoll_add S fd e s)) = snt s) \<and> (\<forall>s. snt (snd (os_wait S fd s)) = snt s)"

definition receives :: "'o os_ops \<Rightarrow> fd \<Rightarrow> ('o \<Rightarrow> 8 word list) \<Rightarrow> bool" where
  "receives S fd inp \<longleftrightarrow>
     (\<forall>n s r bs s'. os_read S fd n s = (r, bs, s') \<longrightarrow>
       (if 0 \<le> r then r = int (length bs) \<and> length bs \<le> n \<and> inp s = bs @ inp s' else inp s' = inp s))
     \<and> (\<forall>e s. inp (snd (os_epoll_add S fd e s)) = inp s) \<and> (\<forall>s. inp (snd (os_wait S fd s)) = inp s)"

text \<open>
  A listening socket: the logs of what the listening fiber does, the descriptors it accepts, those it calls \<^verbatim>\<open>dfk_spawn\<close> for, with
  whether the fiber could be made, and those it closes, and a bound \<open>mu\<close> on the connections and wake-ups that are still
  to come before accepting fails for good.
\<close>

definition quiet :: "('o \<Rightarrow> nat) \<Rightarrow> ('o \<Rightarrow> fd list) \<Rightarrow> ('o \<Rightarrow> (fd \<times> bool) list) \<Rightarrow> ('o \<Rightarrow> fd list) \<Rightarrow> 'o \<Rightarrow> 'o \<Rightarrow> bool" where
  "quiet mu acc sp cl s s' \<longleftrightarrow> mu s' \<le> mu s \<and> acc s' = acc s \<and> sp s' = sp s \<and> cl s' = cl s"

definition backlog_bound :: "'o os_ops \<Rightarrow> fd \<Rightarrow> ('o \<Rightarrow> nat) \<Rightarrow> ('o \<Rightarrow> fd list) \<Rightarrow> ('o \<Rightarrow> (fd \<times> bool) list) \<Rightarrow> ('o \<Rightarrow> fd list) \<Rightarrow> bool" where
  "backlog_bound S sock mu acc sp cl \<longleftrightarrow>
     (\<forall>s fd s'. os_accept S sock s = (fd, s') \<longrightarrow> sp s' = sp s \<and> cl s' = cl s
        \<and> acc s' = acc s @ (if 0 \<le> fd then [fd] else []) \<and> (0 \<le> fd \<or> os_errno S s' = EAGAIN \<longrightarrow> mu s' < mu s))
     \<and> (\<forall>e s. quiet mu acc sp cl s (snd (os_epoll_add S sock e s))) \<and> (\<forall>s. quiet mu acc sp cl s (snd (os_wait S sock s)))
     \<and> (\<forall>fd s. quiet mu acc sp cl s (snd (os_getfl S fd s))) \<and> (\<forall>fd f s. quiet mu acc sp cl s (snd (os_setfl S fd f s)))
     \<and> (\<forall>fd s. let s' = snd (os_close S fd s) in mu s' \<le> mu s \<and> acc s' = acc s \<and> sp s' = sp s \<and> cl s' = cl s @ [fd])
     \<and> (\<forall>fd s. let (ok, s') = os_spawn S fd s in mu s' \<le> mu s \<and> acc s' = acc s \<and> sp s' = sp s @ [(fd, ok)] \<and> cl s' = cl s)
     \<and> (\<forall>e p s. acc (snd (os_bind S sock e p s)) = acc s \<and> sp (snd (os_bind S sock e p s)) = sp s \<and> cl (snd (os_bind S sock e p s)) = cl s)
     \<and> (\<forall>b s. acc (snd (os_listen S sock b s)) = acc s \<and> sp (snd (os_listen S sock b s)) = sp s \<and> cl (snd (os_listen S sock b s)) = cl s)"

section \<open>Reading and writing\<close>

lemma io_polls: "polls_requested S \<Longrightarrow> e \<in> {DFK_IO_IN, DFK_IO_OUT} \<Longrightarrow> dfk__io S c fd e s = (ev, c', s') \<Longrightarrow> ev AND DFK_IO_ERR \<noteq> 0 \<or> ev AND e \<noteq> 0"
  by (simp add: dfk__io_def polls_requested_def split: prod.splits if_splits) (auto simp: DFK_IO_ERR_def)

lemma io_sends: "sends S fd snt \<Longrightarrow> dfk__io S c fd e s = (ev, c', s') \<Longrightarrow> snt s' = snt s"
  by (simp add: dfk__io_def sends_def split: prod.splits if_splits) (metis snd_conv)+

lemma io_receives: "receives S fd inp \<Longrightarrow> dfk__io S c fd e s = (ev, c', s') \<Longrightarrow> inp s' = inp s"
  by (simp add: dfk__io_def receives_def split: prod.splits if_splits) (metis snd_conv)+

lemma sendsD:
  assumes "sends S fd snt" "os_write S fd buf s = (r, s')"
  shows "0 \<le> r \<Longrightarrow> r \<le> int (length buf) \<and> snt s' = snt s @ take (nat r) buf" "r < 0 \<Longrightarrow> snt s' = snt s"
  using assms by (fastforce simp: sends_def)+

lemma receivesD:
  assumes "receives S fd inp" "os_read S fd n s = (r, bs, s')"
  shows "0 \<le> r \<Longrightarrow> r = int (length bs) \<and> length bs \<le> n \<and> inp s = bs @ inp s'" "r < 0 \<Longrightarrow> inp s' = inp s"
  using assms by (fastforce simp: receives_def)+

lemma socket_write_ok:
  assumes S: "sends S (t_socket sock) snt" "polls_requested S" and buf: "buf \<noteq> []"
  shows "\<exists>r c' s'. dfk_tcp_socket_write S c sock buf s = Some (r, c', s')
    \<and> (if 0 \<le> r then r \<le> int (length buf) \<and> snt s' = snt s @ take (nat r) buf
       else r = -1 \<and> snt s' = snt s \<and> c_dfk_errno c' = dfk_err_sys)"
proof -
  obtain r1 s1 where w1: "os_write S (t_socket sock) buf s = (r1, s1)" by (cases "os_write S (t_socket sock) buf s")
  obtain ev c2 s2 where io: "dfk__io S c (t_socket sock) DFK_IO_OUT s1 = (ev, c2, s2)" using prod_cases3 by blast
  obtain r3 s3 where w3: "os_write S (t_socket sock) buf s2 = (r3, s3)" by (cases "os_write S (t_socket sock) buf s2")
  show ?thesis
    using buf w1 io w3 sendsD [OF S(1) w1] sendsD [OF S(1) w3] io_sends [OF S(1) io] io_polls [OF S(2) _ io]
    by (simp add: dfk_tcp_socket_write_def Let_def)
qed

lemma socket_read_ok:
  assumes S: "receives S (t_socket sock) inp" "polls_requested S" and n: "0 < n"
  shows "\<exists>r bs c' s'. dfk_tcp_socket_read S c sock n s = Some (r, bs, c', s')
    \<and> (if 0 \<le> r then r = int (length bs) \<and> length bs \<le> n \<and> inp s = bs @ inp s'
       else r = -1 \<and> inp s' = inp s \<and> c_dfk_errno c' = dfk_err_sys)"
proof -
  obtain r1 b1 s1 where w1: "os_read S (t_socket sock) n s = (r1, b1, s1)" using prod_cases3 by blast
  obtain ev c2 s2 where io: "dfk__io S c (t_socket sock) DFK_IO_IN s1 = (ev, c2, s2)" using prod_cases3 by blast
  obtain r3 b3 s3 where w3: "os_read S (t_socket sock) n s2 = (r3, b3, s3)" using prod_cases3 by blast
  have eq: "dfk_tcp_socket_read S c sock n s =
    (if 0 \<le> r1 then Some (r1, b1, c, s1)
     else if os_errno S s1 \<noteq> EAGAIN then Some (-1, [], (error_syscall S c s1)\<lparr>c_dfk_errno := dfk_err_sys\<rparr>, s1)
     else if ev AND DFK_IO_ERR \<noteq> 0 then Some (-1, [], (error_syscall S c2 s2)\<lparr>c_dfk_errno := dfk_err_sys\<rparr>, s2)
     else if r3 < 0 then Some (-1, [], (error_syscall S c2 s3)\<lparr>c_dfk_errno := dfk_err_sys\<rparr>, s3)
     else Some (r3, b3, c2, s3))"
    using n w1 io w3 io_polls [OF S(2) _ io] by (simp add: dfk_tcp_socket_read_def dfk__read_def Let_def)
  note i = io_receives [OF S(1) io] and d1 = receivesD [OF S(1) w1] and d3 = receivesD [OF S(1) w3]
  show ?thesis
  proof (cases "0 \<le> r1")
    case True
    then show ?thesis using d1(1) unfolding eq by fastforce
  next
    case False
    then have k: "inp s1 = inp s" "inp s2 = inp s" using d1(2) i by auto
    show ?thesis
    proof (cases "os_errno S s1 \<noteq> EAGAIN \<or> ev AND DFK_IO_ERR \<noteq> 0 \<or> r3 < 0")
      case True
      then show ?thesis using False k d3(2) unfolding eq by auto
    next
      case nf: False
      then show ?thesis using False d3(1) unfolding eq k(2) by auto
    qed
  qed
qed

lemma writev_loop_ok:
  assumes S: "sends S (t_socket sock) snt" "polls_requested S"
  shows "[] \<notin> set iov \<Longrightarrow> \<exists>r c' s' k p. writev_loop S c sock iov tot s = Some (r, c', s') \<and> k \<le> length iov
    \<and> snt s' = snt s @ concat (take k iov) @ p
    \<and> (if k = length iov then p = [] \<and> r = tot + int (length (concat iov))
       else strict_prefix p (iov ! k) \<and> (r = int (length p) \<or> r = -1 \<and> p = [] \<and> c_dfk_errno c' = dfk_err_sys))"
proof (induction iov arbitrary: c tot s)
  case Nil
  then show ?case by simp
next
  case (Cons buf iov)
  obtain r c1 s1 where w: "dfk_tcp_socket_write S c sock buf s = Some (r, c1, s1)"
    and r: "if 0 \<le> r then r \<le> int (length buf) \<and> snt s1 = snt s @ take (nat r) buf
       else r = -1 \<and> snt s1 = snt s \<and> c_dfk_errno c1 = dfk_err_sys"
    using socket_write_ok [OF S, of buf c s] Cons.prems by auto
  consider "r < 0" | "0 \<le> r" "r \<noteq> int (length buf)" | "r = int (length buf)" by linarith
  then show ?case
  proof cases
    case 1
    then show ?thesis using w r Cons.prems by (intro exI [of _ r] exI [of _ c1] exI [of _ s1] exI [of _ 0] exI [of _ "[]"]) (auto simp: strict_prefix_def)
  next
    case 2
    then have "length (take (nat r) buf) < length buf" using r by auto
    then have "strict_prefix (take (nat r) buf) buf" by (auto simp: strict_prefix_def take_is_prefix)
    then show ?thesis
      using w r 2 by (intro exI [of _ r] exI [of _ c1] exI [of _ s1] exI [of _ 0] exI [of _ "take (nat r) buf"]) auto
  next
    case 3
    obtain r' c' s' k p where "writev_loop S c1 sock iov (tot + r) s1 = Some (r', c', s')" "k \<le> length iov"
      "snt s' = snt s1 @ concat (take k iov) @ p"
      "if k = length iov then p = [] \<and> r' = tot + r + int (length (concat iov))
       else strict_prefix p (iov ! k) \<and> (r' = int (length p) \<or> r' = -1 \<and> p = [] \<and> c_dfk_errno c' = dfk_err_sys)"
      using Cons.IH [of c1 "tot + r" s1] Cons.prems by auto
    then show ?thesis
      using w r 3 by (intro exI [of _ r'] exI [of _ c'] exI [of _ s'] exI [of _ "Suc k"] exI [of _ p]) (auto split: if_splits)
  qed
qed

lemma readv_loop_ok:
  assumes S: "receives S (t_socket sock) inp" "polls_requested S"
  shows "0 \<notin> set iov \<Longrightarrow> \<exists>r bss c' s'. readv_loop S c sock iov tot s = Some (r, bss, c', s') \<and> inp s = concat bss @ inp s'
    \<and> length bss \<le> length iov \<and> (\<forall>i < length bss. length (bss ! i) \<le> iov ! i) \<and> (\<forall>i. Suc i < length bss \<longrightarrow> length (bss ! i) = iov ! i)
    \<and> (r = tot + int (length (concat bss)) \<or> r = -1 \<and> c_dfk_errno c' = dfk_err_sys)"
proof (induction iov arbitrary: c tot s)
  case Nil
  then show ?case by simp
next
  case (Cons n iov)
  obtain r bs c1 s1 where w: "dfk_tcp_socket_read S c sock n s = Some (r, bs, c1, s1)"
    and r: "if 0 \<le> r then r = int (length bs) \<and> length bs \<le> n \<and> inp s = bs @ inp s1
       else r = -1 \<and> inp s1 = inp s \<and> c_dfk_errno c1 = dfk_err_sys"
    using socket_read_ok [OF S, of n c s] Cons.prems by auto
  consider "r < 0" | "0 \<le> r" "r \<noteq> int n" | "r = int n" by linarith
  then show ?case
  proof cases
    case 1
    then show ?thesis using w r by (intro exI [of _ r] exI [of _ "[]"] exI [of _ c1] exI [of _ s1]) auto
  next
    case 2
    then show ?thesis using w r by (intro exI [of _ "tot + r"] exI [of _ "[bs]"] exI [of _ c1] exI [of _ s1]) auto
  next
    case 3
    obtain r' bss c' s' where "readv_loop S c1 sock iov (tot + r) s1 = Some (r', bss, c', s')" "inp s1 = concat bss @ inp s'"
      "length bss \<le> length iov" and i: "\<forall>i < length bss. length (bss ! i) \<le> iov ! i" "\<forall>i. Suc i < length bss \<longrightarrow> length (bss ! i) = iov ! i"
      "r' = tot + r + int (length (concat bss)) \<or> r' = -1 \<and> c_dfk_errno c' = dfk_err_sys"
      using Cons.IH [of c1 "tot + r" s1] Cons.prems by auto
    moreover have "\<forall>i < length (bs # bss). length ((bs # bss) ! i) \<le> (n # iov) ! i" using i(1) r 3 by (auto simp: nth_Cons split: nat.split)
    moreover have "\<forall>i. Suc i < length (bs # bss) \<longrightarrow> length ((bs # bss) ! i) = (n # iov) ! i"
      using i(2) r 3 by (auto simp: nth_Cons split: nat.split)
    ultimately show ?thesis
      using w r 3 by (intro exI [of _ r'] exI [of _ "bs # bss"] exI [of _ c'] exI [of _ s']) auto
  qed
qed

section \<open>Accepting connections\<close>

lemma backlogD:
  assumes "backlog_bound S sock mu acc sp cl"
  shows "os_accept S sock s = (fd, s') \<Longrightarrow> sp s' = sp s \<and> cl s' = cl s \<and> acc s' = acc s @ (if 0 \<le> fd then [fd] else [])
      \<and> (0 \<le> fd \<or> os_errno S s' = EAGAIN \<longrightarrow> mu s' < mu s)"
    "dfk__io S c sock e s = (ev, c', s') \<Longrightarrow> quiet mu acc sp cl s s'"
    "dfk__make_nonblock S c fd s = (err, c', s') \<Longrightarrow> quiet mu acc sp cl s s'"
    "dfk__close S c fd s = (err, c', s') \<Longrightarrow> mu s' \<le> mu s \<and> acc s' = acc s \<and> sp s' = sp s \<and> cl s' = cl s @ [fd]"
    "os_spawn S fd s = (ok, s') \<Longrightarrow> mu s' \<le> mu s \<and> acc s' = acc s \<and> sp s' = sp s @ [(fd, ok)] \<and> cl s' = cl s"
proof -
  have add: "os_epoll_add S sock e s = (r, t) \<Longrightarrow> quiet mu acc sp cl s t" for e s r t using assms unfolding backlog_bound_def by (metis snd_conv)
  have wait: "os_wait S sock s = (r, t) \<Longrightarrow> quiet mu acc sp cl s t" for s r t using assms unfolding backlog_bound_def by (metis snd_conv)
  have getfl: "os_getfl S fd s = (r, t) \<Longrightarrow> quiet mu acc sp cl s t" for fd s r t using assms unfolding backlog_bound_def by (metis snd_conv)
  have setfl: "os_setfl S fd f s = (r, t) \<Longrightarrow> quiet mu acc sp cl s t" for fd f s r t using assms unfolding backlog_bound_def by (metis snd_conv)
  show "os_accept S sock s = (fd, s') \<Longrightarrow> sp s' = sp s \<and> cl s' = cl s \<and> acc s' = acc s @ (if 0 \<le> fd then [fd] else [])
      \<and> (0 \<le> fd \<or> os_errno S s' = EAGAIN \<longrightarrow> mu s' < mu s)"
    using assms unfolding backlog_bound_def by blast
  have tr: "quiet mu acc sp cl a b \<Longrightarrow> quiet mu acc sp cl b c \<Longrightarrow> quiet mu acc sp cl a c" for a b c by (auto simp: quiet_def)
  show "dfk__io S c sock e s = (ev, c', s') \<Longrightarrow> quiet mu acc sp cl s s'"
    by (auto simp: dfk__io_def split: prod.splits if_splits dest: add wait intro: tr)
  show "dfk__make_nonblock S c fd s = (err, c', s') \<Longrightarrow> quiet mu acc sp cl s s'"
    by (auto simp: dfk__make_nonblock_def split: prod.splits if_splits dest: getfl setfl intro: tr)
  have "os_close S fd s = (r, t) \<Longrightarrow> mu t \<le> mu s \<and> acc t = acc s \<and> sp t = sp s \<and> cl t = cl s @ [fd]" for r t
    using assms unfolding backlog_bound_def Let_def by (metis snd_conv)
  then show "dfk__close S c fd s = (err, c', s') \<Longrightarrow> mu s' \<le> mu s \<and> acc s' = acc s \<and> sp s' = sp s \<and> cl s' = cl s @ [fd]"
    by (auto simp: dfk__close_def split: prod.splits if_splits)
  have "\<forall>fd s. case os_spawn S fd s of (ok, s') \<Rightarrow> mu s' \<le> mu s \<and> acc s' = acc s \<and> sp s' = sp s @ [(fd, ok)] \<and> cl s' = cl s"
    using assms unfolding backlog_bound_def Let_def by (elim conjE)
  from spec [OF spec [OF this, of fd], of s]
  show "os_spawn S fd s = (ok, s') \<Longrightarrow> mu s' \<le> mu s \<and> acc s' = acc s \<and> sp s' = sp s @ [(fd, ok)] \<and> cl s' = cl s" by simp
qed

lemma accept_loop_ok:
  assumes S: "backlog_bound S sock mu acc sp cl"
  shows "\<exists>c' s'. accept_loop S c sock s = Some (dfk_err_sys, c', s')
    \<and> mset (acc s') + mset (map fst (sp s)) + mset (cl s) = mset (acc s) + mset (map fst (sp s')) + mset (cl s')"
proof (induction "mu s" arbitrary: c s rule: less_induct)
  case less
  note B = backlogD [OF S]
  obtain fd s1 where a: "os_accept S sock s = (fd, s1)" by (cases "os_accept S sock s")
  note a1 = B(1) [OF a]
  show ?case
  proof (cases "0 \<le> fd")
    case True
    obtain err c2 s2 where n: "dfk__make_nonblock S c fd s1 = (err, c2, s2)" using prod_cases3 by blast
    obtain e3 c3 s3 where k: "dfk__close S c2 fd s2 = (e3, c3, s3)" using prod_cases3 by blast
    obtain ok s4 where o: "os_spawn S fd s2 = (ok, s4)" by (cases "os_spawn S fd s2")
    note q = B(3) [OF n, unfolded quiet_def] B(4) [OF k] B(5) [OF o]
    have "mu s3 < mu s" "mu s4 < mu s" using q a1 True by auto
    from less [OF this(1), of c3] less [OF this(2), of c2] show ?thesis
      using True a a1 n k o q by (subst accept_loop.simps) auto
  next
    case False
    obtain ev c2 s2 where io: "dfk__io S c sock DFK_IO_IN s1 = (ev, c2, s2)" using prod_cases3 by blast
    note q = B(2) [OF io, unfolded quiet_def]
    show ?thesis
    proof (cases "os_errno S s1 = EAGAIN \<and> ev AND DFK_IO_ERR = 0")
      case True
      then have "mu s2 < mu s" using q a1 by auto
      from less [OF this, of c2] show ?thesis using False True a a1 io q by (subst accept_loop.simps) auto
    next
      case nf: False
      then show ?thesis using False a a1 io q by (subst accept_loop.simps) auto
    qed
  qed
qed

section \<open>A sample kernel\<close>

text \<open>
  One descriptor; \<open>k_script\<close> lists the answers of accept (\<open>None\<close> for none at the moment), \<open>k_room\<close> the number of
  bytes each of the next writes takes.
\<close>

record kernel =
  k_errno :: errno
  k_script :: "nat option list"
  k_acc :: "fd list"
  k_sp :: "(fd \<times> bool) list"
  k_cl :: "fd list"
  k_room :: "nat list"
  k_sent :: "8 word list"
  k_input :: "8 word list"

definition kernel_accept :: "kernel \<Rightarrow> int \<times> kernel" where
  "kernel_accept k = (case k_script k of
     [] \<Rightarrow> (-1, k\<lparr>k_errno := E_other 9\<rparr>)
   | None # l \<Rightarrow> (-1, k\<lparr>k_errno := EAGAIN, k_script := l\<rparr>)
   | Some n # l \<Rightarrow> (int n, k\<lparr>k_errno := E_other 0, k_script := l, k_acc := k_acc k @ [int n]\<rparr>))"

definition kernel_write :: "8 word list \<Rightarrow> kernel \<Rightarrow> int \<times> kernel" where
  "kernel_write buf k = (case k_room k of
     [] \<Rightarrow> (-1, k\<lparr>k_errno := E_other 32\<rparr>)
   | n # l \<Rightarrow> (int (min n (length buf)), k\<lparr>k_room := l, k_sent := k_sent k @ take (min n (length buf)) buf\<rparr>))"

definition kernel_read :: "nat \<Rightarrow> kernel \<Rightarrow> int \<times> 8 word list \<times> kernel" where
  "kernel_read n k = (let bs = take n (k_input k) in (int (length bs), bs, k\<lparr>k_input := drop n (k_input k)\<rparr>))"

definition sample_os :: "kernel os_ops" where
  "sample_os = \<lparr>os_errno = k_errno, os_socket = (\<lambda>k. (3, k)), os_close = (\<lambda>fd k. (0, k\<lparr>k_cl := k_cl k @ [fd]\<rparr>)),
     os_getfl = (\<lambda>fd k. (if fd = 5 then -1 else 2, k)), os_setfl = (\<lambda>fd f k. (0, k)),
     os_connect = (\<lambda>fd e p k. (-1, k\<lparr>k_errno := E_other 101\<rparr>)), os_getsockopt = (\<lambda>fd k. (0, None, k)),
     os_bind = (\<lambda>fd e p k. (0, k)), os_listen = (\<lambda>fd b k. (0, k)), os_accept = (\<lambda>fd. kernel_accept),
     os_shutdown = (\<lambda>fd h k. (0, k)), os_read = (\<lambda>fd. kernel_read), os_write = (\<lambda>fd. kernel_write),
     os_epoll_add = (\<lambda>fd e k. (0, k)), os_wait = (\<lambda>fd k. (5, k)), os_spawn = (\<lambda>fd k. (fd \<noteq> 6, k\<lparr>k_sp := k_sp k @ [(fd, fd \<noteq> 6)]\<rparr>))\<rparr>"

definition sample_kernel :: kernel where
  "sample_kernel = \<lparr>k_errno = E_other 0, k_script = [Some 4, None, Some 5, Some 6], k_acc = [], k_sp = [], k_cl = [],
     k_room = [2, 1], k_sent = [], k_input = [1, 2, 3]\<rparr>"

definition sample_ctx :: dfk_ctx where
  "sample_ctx = \<lparr>c_sys_errno = E_other 0, c_dfk_errno = dfk_err_ok\<rparr>"

lemma sample_sends: "sends sample_os fd k_sent"
  by (auto simp: sends_def sample_os_def kernel_write_def split: list.splits)

text \<open>The descriptor is always ready to be read and written.\<close>

lemma sample_polls: "polls_requested sample_os"
  by (auto simp: polls_requested_def sample_os_def DFK_IO_IN_def DFK_IO_OUT_def)

lemma sample_receives: "receives sample_os fd k_input"
  by (auto simp: receives_def sample_os_def kernel_read_def Let_def)

lemma sample_backlog: "backlog_bound sample_os fd (\<lambda>k. length (k_script k)) k_acc k_sp k_cl"
  by (auto simp: backlog_bound_def sample_os_def kernel_accept_def quiet_def split: list.splits option.splits)

section \<open>Properties\<close>

text \<open>
  C26. A vectored write of non-empty buffers sends a prefix of their concatenation, cut inside one of them at most, and
  always returns: the number of all bytes when it sent everything, -1 with \<^verbatim>\<open>dfk_err_sys\<close> when a write failed, and
  otherwise the number of bytes of the last, incomplete buffer only, not of all bytes sent.
\<close>

theorem socket_writev_stream:
  assumes "sends S (t_socket sock) snt" "polls_requested S" "iov \<noteq> []" "[] \<notin> set iov"
  shows "\<exists>r c' s' k p. dfk_tcp_socket_writev S c sock iov s = Some (r, c', s') \<and> k \<le> length iov
    \<and> snt s' = snt s @ concat (take k iov) @ p
    \<and> (if k = length iov then p = [] \<and> r = int (length (concat iov))
       else strict_prefix p (iov ! k) \<and> (r = int (length p) \<or> r = -1 \<and> p = [] \<and> c_dfk_errno c' = dfk_err_sys))"
proof -
  have "dfk_tcp_socket_writev S c sock iov s = writev_loop S c sock iov 0 s" using assms(3) by (simp add: dfk_tcp_socket_writev_def)
  then show ?thesis using writev_loop_ok [OF assms(1,2,4), of c 0 s] by (simp only: add_0_left)
qed

theorem socket_writev_stream_witness:
  "\<exists>c' s'. dfk_tcp_socket_writev sample_os sample_ctx \<lparr>t_socket = 3\<rparr> [[1, 2], [3, 4]] sample_kernel = Some (1, c', s') \<and> k_sent s' = [1, 2, 3]"
proof -
  have p: "polls_requested sample_os" using sample_polls .
  have e: "dfk_tcp_socket_writev sample_os sample_ctx \<lparr>t_socket = 3\<rparr> [[1, 2], [3, 4]] sample_kernel =
      Some (1, sample_ctx, sample_kernel\<lparr>k_room := [], k_sent := [1, 2, 3]\<rparr>)"
    by (simp add: dfk_tcp_socket_writev_def dfk_tcp_socket_write_def sample_os_def sample_kernel_def kernel_write_def)
  with socket_writev_stream [OF sample_sends p, where iov = "[[1, 2], [3, 4]]" and sock = "\<lparr>t_socket = 3\<rparr>" and c = sample_ctx and s = sample_kernel] show ?thesis by simp
qed

text \<open>
  A vectored read returns, and what it stores in the buffers is, in order, the next part of the byte stream: each
  buffer before the last one used is full, none overflows, and the result is the number of bytes stored, or -1 with
  \<^verbatim>\<open>dfk_err_sys\<close> when a read failed.
\<close>

theorem socket_readv_stream:
  assumes "receives S (t_socket sock) inp" "polls_requested S" "iov \<noteq> []" "0 \<notin> set iov"
  shows "\<exists>r bss c' s'. dfk_tcp_socket_readv S c sock iov s = Some (r, bss, c', s') \<and> inp s = concat bss @ inp s'
    \<and> length bss \<le> length iov \<and> (\<forall>i < length bss. length (bss ! i) \<le> iov ! i) \<and> (\<forall>i. Suc i < length bss \<longrightarrow> length (bss ! i) = iov ! i)
    \<and> (r = int (length (concat bss)) \<or> r = -1 \<and> c_dfk_errno c' = dfk_err_sys)"
  using readv_loop_ok [OF assms(1,2,4), of c 0 s] assms(3) by (simp add: dfk_tcp_socket_readv_def)

theorem socket_readv_stream_witness:
  "\<exists>r bss c' s'. dfk_tcp_socket_readv sample_os sample_ctx \<lparr>t_socket = 3\<rparr> [2, 4] sample_kernel = Some (r, bss, c', s')
    \<and> [1, 2, 3] = concat bss @ k_input s'"
proof -
  have p: "polls_requested sample_os" using sample_polls .
  from socket_readv_stream [OF sample_receives p, where iov = "[2, 4]" and sock = "\<lparr>t_socket = 3\<rparr>" and c = sample_ctx and s = sample_kernel]
  show ?thesis by (auto simp: sample_kernel_def)
qed

text \<open>
  C25. With a finite number of connections and wake-ups to come, listening ends, with \<^verbatim>\<open>dfk_err_sys\<close> and never with success. Until then
  every accepted descriptor was handed to \<^verbatim>\<open>dfk_spawn\<close> or, when it could not be switched to non-blocking mode, closed, each
  exactly once, and only those were. Of those handed over, the ones for which there was no memory for a fiber are
  neither served nor closed: the loop ignores the result, and they are lost.
\<close>

theorem socket_listen_serves:
  assumes "backlog_bound S (t_socket sock) mu acc sp cl" "port \<noteq> 0" "backlog \<noteq> 0" "acc s = []" "sp s = []" "cl s = []"
  shows "\<exists>c' s'. dfk_tcp_socket_listen S c sock endpoint port backlog s = Some (dfk_err_sys, c', s')
    \<and> (let served = map fst (filter snd (sp s')); lost = map fst (filter (\<lambda>x. \<not> snd x) (sp s'))
       in mset (acc s') = mset served + mset lost + mset (cl s'))"
proof -
  obtain r1 s1 where b: "os_bind S (t_socket sock) endpoint port s = (r1, s1)" by (cases "os_bind S (t_socket sock) endpoint port s")
  obtain r2 s2 where l: "os_listen S (t_socket sock) backlog s1 = (r2, s2)" by (cases "os_listen S (t_socket sock) backlog s1")
  have logs: "acc s1 = acc s \<and> sp s1 = sp s \<and> cl s1 = cl s" "acc s2 = acc s1 \<and> sp s2 = sp s1 \<and> cl s2 = cl s1"
    using assms(1) b l unfolding backlog_bound_def by (metis snd_conv)+
  have split: "mset (map fst xs) = mset (map fst (filter snd xs)) + mset (map fst (filter (\<lambda>x. \<not> snd x) xs))" for xs :: "(fd \<times> bool) list"
    by (induction xs) auto
  show ?thesis
    using assms(2-6) b l logs accept_loop_ok [OF assms(1), of c s2] split
    by (auto simp: dfk_tcp_socket_listen_def Let_def)
qed

text \<open>
  The sample kernel has four answers: a connection that is served, nothing at the moment, one that cannot be made non-blocking, and
  one that gets no fiber.
\<close>

theorem socket_listen_serves_witness:
  "\<exists>c' s'. dfk_tcp_socket_listen sample_os sample_ctx \<lparr>t_socket = 3\<rparr> ''0.0.0.0'' 80 10 sample_kernel = Some (dfk_err_sys, c', s')
    \<and> mset (k_acc s') = mset (map fst (filter snd (k_sp s'))) + mset (map fst (filter (\<lambda>x. \<not> snd x) (k_sp s'))) + mset (k_cl s')"
  using socket_listen_serves [OF sample_backlog, of 80 10 sample_kernel sample_ctx "\<lparr>t_socket = 3\<rparr>" "''0.0.0.0''"]
  by (simp add: sample_kernel_def Let_def)

text \<open>In this run descriptor 6 is accepted and neither served nor closed.\<close>

lemma lost_connection:
  "\<exists>c' s'. accept_loop sample_os sample_ctx 3 sample_kernel = Some (dfk_err_sys, c', s')
    \<and> k_acc s' = [4, 5, 6] \<and> k_sp s' = [(4, True), (6, False)] \<and> k_cl s' = [5]"
  by (simp add: sample_os_def sample_kernel_def kernel_accept_def accept_loop.simps dfk__make_nonblock_def dfk__close_def
      dfk__io_def DFK_IO_ERR_def O_NONBLOCK_def)

text \<open>
  \<^verbatim>\<open>dfk_tcp_socket_connect\<close> reports success when the connection attempt failed at once for a reason other than a
  refused connection, for example because the network is unreachable.
\<close>

theorem socket_connect_ignores_error:
  assumes "os_connect S (t_socket sock) endpoint port s = (-1, s')" "os_errno S s' \<notin> {EINPROGRESS, ECONNREFUSED}"
  shows "dfk_tcp_socket_connect S c sock endpoint port s = (dfk_err_ok, c, s')"
  using assms by (simp add: dfk_tcp_socket_connect_def)

theorem socket_connect_ignores_error_witness:
  "dfk_tcp_socket_connect sample_os sample_ctx \<lparr>t_socket = 3\<rparr> ''10.0.0.1'' 80 sample_kernel =
    (dfk_err_ok, sample_ctx, sample_kernel\<lparr>k_errno := E_other 101\<rparr>)"
  by (rule socket_connect_ignores_error) (simp_all add: sample_os_def)

end
