(* ===== verification/Dfk_Http_World.thy ===== *)
theory Dfk_Http_World
  imports Dfk_Strmap_Arena Dfk_Socket
begin

text \<open>
  What the HTTP functions share: the buffers of \<^verbatim>\<open>src/misc.c\<close>, the request of \<^verbatim>\<open>include/dfk/http/request.h\<close>, the
  world they work on, and string maps whose items live in the request's arena.
\<close>

section \<open>Buffers\<close>

record dfk_buf_t =
  buf_data :: addr
  buf_size :: size_t

abbreviation no_buf :: dfk_buf_t where
  "no_buf \<equiv> \<lparr>buf_data = NULL, buf_size = 0\<rparr>"

definition dfk_buf_append :: "dfk_buf_t \<Rightarrow> addr \<Rightarrow> size_t \<Rightarrow> dfk_buf_t option" where
  "dfk_buf_append to data n =
     (if buf_data to \<noteq> NULL then do {
        c_assert (buf_data to + buf_size to = data);
        Some (to\<lparr>buf_size := buf_size to + n\<rparr>)
      } else Some \<lparr>buf_data = data, buf_size = n\<rparr>)"

text \<open>The contents of a buffer; the null buffer has none.\<close>

definition load_buf :: "cmem \<Rightarrow> dfk_buf_t \<Rightarrow> byte list option option" where
  "load_buf m b =
     (if buf_data b = NULL then do { c_assert (buf_size b = 0); Some None }
      else do { bs \<leftarrow> mem_load m (buf_data b) (unat (buf_size b)); Some (Some bs) })"

section \<open>The world\<close>

text \<open>
  The memory (with the buffers that \<^verbatim>\<open>buflist_item_t\<close> records hold, by the address of the record), the request's arena,
  the context and the operating system.
\<close>

record 'o http_world =
  hw_mem :: strmap_mem
  hw_bufs :: "dfk_buf_t mem"
  hw_arena :: dfk_arena_t
  hw_ctx :: dfk_ctx
  hw_os :: 'o

abbreviation hw_hooks :: "'o http_world \<Rightarrow> avl_hooks" where
  "hw_hooks w \<equiv> sm_hooks (hw_mem w)"

abbreviation hw_items :: "'o http_world \<Rightarrow> strmap_items" where
  "hw_items w \<equiv> sm_items (hw_mem w)"

abbreviation hw_heap :: "'o http_world \<Rightarrow> cmem" where
  "hw_heap w \<equiv> am_heap (sm_arena (hw_mem w))"

abbreviation hw_lists :: "'o http_world \<Rightarrow> hooks" where
  "hw_lists w \<equiv> am_hooks (sm_arena (hw_mem w))"

definition with_heap :: "'o http_world \<Rightarrow> cmem \<Rightarrow> 'o http_world" where
  "with_heap w heap = w\<lparr>hw_mem := (hw_mem w)\<lparr>sm_arena := (sm_arena (hw_mem w))\<lparr>am_heap := heap\<rparr>\<rparr>\<rparr>"

definition with_lists :: "'o http_world \<Rightarrow> hooks \<Rightarrow> 'o http_world" where
  "with_lists w h = w\<lparr>hw_mem := (hw_mem w)\<lparr>sm_arena := (sm_arena (hw_mem w))\<lparr>am_hooks := h\<rparr>\<rparr>\<rparr>"

text \<open>An allocation from the request's arena.\<close>

definition world_alloc :: "dfk_env \<Rightarrow> 'o http_world \<Rightarrow> size_t \<Rightarrow> ('o http_world \<times> addr) option" where
  "world_alloc env w n = do {
     (am, arena, p) \<leftarrow> dfk_arena_alloc env (sm_arena (hw_mem w)) (hw_arena w) n;
     Some (w\<lparr>hw_mem := (hw_mem w)\<lparr>sm_arena := am\<rparr>, hw_arena := arena\<rparr>, p)
   }"

text \<open>A new item in the arena goes into a map; the flag tells whether there was memory for it.\<close>

definition world_put ::
  "dfk_env \<Rightarrow> 'o http_world \<Rightarrow> dfk_strmap_t \<Rightarrow> byte list \<Rightarrow> byte list option \<Rightarrow> (bool \<times> 'o http_world \<times> dfk_strmap_t) option" where
  "world_put env w smap key value = do {
     (mem, arena, item) \<leftarrow> strmap_item_anew env (hw_mem w) (hw_arena w) key value;
     let w = w\<lparr>hw_mem := mem, hw_arena := arena\<rparr>;
     if item = NULL then Some (False, w, smap)
     else do {
       (h, smap) \<leftarrow> dfk_strmap_insert (hw_hooks w) (hw_items w) smap item;
       Some (True, w\<lparr>hw_mem := (hw_mem w)\<lparr>sm_hooks := h\<rparr>\<rparr>, smap)
     }
   }"

definition world_get :: "'o http_world \<Rightarrow> dfk_strmap_t \<Rightarrow> byte list \<Rightarrow> byte list option option" where
  "world_get w smap key = dfk_strmap_get (hw_hooks w) (hw_items w) smap key"

section \<open>The request\<close>

text \<open>
  \<open>'p\<close> is the state of the HTTP parser. The URL and its parts are ranges of memory; header values and the bytes
  received behind the header are given by their contents.
\<close>

record 'p dfk_http_request_t =
  req_major_version :: "16 word"
  req_minor_version :: "16 word"
  req_method :: int
  req_url :: dfk_buf_t
  req_path :: dfk_buf_t
  req_query :: dfk_buf_t
  req_fragment :: dfk_buf_t
  req_host :: "byte list option"
  req_user_agent :: "byte list option"
  req_accept :: "byte list option"
  req_content_type :: "byte list option"
  req_content_length :: int
  req_keepalive :: bool
  req_chunked :: bool
  req_headers :: dfk_strmap_t
  req_arguments :: dfk_strmap_t
  req_socket :: dfk_tcp_socket_t
  req_buffers :: dfk_list_t
  req_remainder :: "byte list"
  req_body_nread :: size_t
  req_parser :: 'p

section \<open>Maps over memory\<close>

lemma tree_at_cong: "\<forall>a\<in>set (inorder t). h' a = h a \<Longrightarrow> tree_at h' p t = tree_at h p t"
  by (induction t arbitrary: p) auto

lemma strmap_rep_cong:
  assumes rep: "strmap_rep h items smap xs m" and eq: "\<forall>a\<in>set xs. h' a = h a \<and> items' a = items a"
  shows "strmap_rep h' items' smap xs m"
proof -
  have c: "dfk__strmap_cmp items' a b = dfk__strmap_cmp items a b" if "a \<in> set xs" "b \<in> set xs" for a b
    using eq that by (auto simp: dfk__strmap_cmp_def dfk__strmap_lookup_cmp_def split: option.splits)
  obtain t where t: "avl_rep h (cont items smap) t" "inorder t = xs"
      "ordered (dfk__strmap_cmp items) xs"
    using rep by (auto simp: strmap_rep_def avl_set_def)
  have "avl_rep h' (cont items' smap) t"
    using t(1,2) eq tree_at_cong [of t h' h NULL] by (simp add: avl_rep_def cont_def)
  moreover have "ordered (dfk__strmap_cmp items') xs"
    unfolding ordered_def by (rule sorted_wrt_mono_rel [OF _ t(3) [unfolded ordered_def]]) (simp add: c)
  moreover have k: "key_of items' ` set xs = key_of items ` set xs" using eq by (auto simp: key_of_def)
  moreover have "cmp_ok (set xs) (dfk__strmap_cmp items')"
    by (rule strmap_cmp_ok) (use rep eq k in \<open>auto simp: strmap_rep_def\<close>)
  ultimately show ?thesis using rep t(2) eq unfolding strmap_rep_def avl_set_def by auto
qed

text \<open>A map keeps the value that was put first.\<close>

definition put_first :: "'k \<Rightarrow> 'v \<Rightarrow> ('k \<rightharpoonup> 'v) \<Rightarrow> 'k \<rightharpoonup> 'v" where
  "put_first k v m = (if k \<in> dom m then m else m(k \<mapsto> v))"

lemma dom_put_first [simp]: "dom (put_first k v m) = insert k (dom m)"
  by (auto simp: put_first_def)

lemma put_first_map_of: "put_first k v (map_of kvs) = map_of (kvs @ [(k, v)])"
  by (auto simp: put_first_def map_add_def fun_eq_iff split: option.splits)

text \<open>Maps whose values are all present.\<close>

definition lifted :: "(byte list \<rightharpoonup> byte list) \<Rightarrow> byte list \<rightharpoonup> byte list option" where
  "lifted m = (\<lambda>k. map_option Some (m k))"

lemma dom_lifted [simp]: "dom (lifted m) = dom m"
  by (auto simp: lifted_def dom_def)

lemma lifted_empty [simp]: "lifted Map.empty = Map.empty"
  by (simp add: lifted_def)

lemma put_first_lifted: "put_first k (Some v) (lifted m) = lifted (put_first k v m)"
  by (auto simp: put_first_def lifted_def fun_eq_iff)

lemma lifted_value [simp]: "(case lifted m k of None \<Rightarrow> None | Some v \<Rightarrow> v) = m k"
  by (simp add: lifted_def option.map_sel split: option.split)

text \<open>
  \<open>maps_in w regs ms xss\<close>: the maps \<open>ms\<close>, each with its abstract value, have the items \<open>xss\<close>, all of them different and
  in regions handed out by the arena. \<open>maps_ok env w n ms\<close>: this holds in a well-formed arena with room for \<open>n\<close>
  more bytes in its last segment.
\<close>

type_synonym map_value = "dfk_strmap_t \<times> (byte list \<rightharpoonup> byte list option)"

definition maps_in :: "'o http_world \<Rightarrow> (addr \<times> nat) list \<Rightarrow> map_value list \<Rightarrow> addr list list \<Rightarrow> bool" where
  "maps_in w regs ms xss \<longleftrightarrow> list_all2 (\<lambda>(smap, m) xs. strmap_rep (hw_hooks w) (hw_items w) smap xs m) ms xss
     \<and> distinct (concat xss) \<and> (\<forall>a\<in>set (concat xss). (a, 64) \<in> set regs)"

definition maps_ok :: "dfk_env \<Rightarrow> 'o http_world \<Rightarrow> nat \<Rightarrow> map_value list \<Rightarrow> bool" where
  "maps_ok env w n ms \<longleftrightarrow> (\<exists>ss os regs xss. arena_inv env (sm_arena (hw_mem w)) (hw_arena w) ss os regs
     \<and> arena_room (sm_arena (hw_mem w)) ss n \<and> maps_in w regs ms xss)"

lemma maps_okE:
  assumes "maps_ok env w n ms"
  obtains ss os regs xss where "arena_inv env (sm_arena (hw_mem w)) (hw_arena w) ss os regs"
    "arena_room (sm_arena (hw_mem w)) ss n" "maps_in w regs ms xss"
  using assms unfolding maps_ok_def by blast

lemma maps_ok_mono: "maps_ok env w n ms \<Longrightarrow> k \<le> n \<Longrightarrow> maps_ok env w k ms"
  unfolding maps_ok_def using arena_room_mono by blast

lemma strmap_rep_distinct: "strmap_rep h items smap xs m \<Longrightarrow> distinct xs"
  unfolding strmap_rep_def avl_set_def using ordered_distinct by blast

lemma maps_in_more: "maps_in w regs ms xss \<Longrightarrow> set regs \<subseteq> set regs' \<Longrightarrow> maps_in w regs' ms xss"
  by (auto simp: maps_in_def)

lemma maps_in_cong:
  "maps_in w regs ms xss \<Longrightarrow> hw_hooks w' = hw_hooks w \<Longrightarrow> hw_items w' = hw_items w \<Longrightarrow> maps_in w' regs ms xss"
  by (simp add: maps_in_def)

lemma maps_in_swap: "maps_in w regs (a # b # ms) (xs # ys # xss) \<Longrightarrow> maps_in w regs (b # a # ms) (ys # xs # xss)"
  by (auto simp: maps_in_def)

lemma maps_ok_swap: "maps_ok env w n (a # b # ms) \<Longrightarrow> maps_ok env w n (b # a # ms)"
proof -
  assume "maps_ok env w n (a # b # ms)"
  then obtain ss os regs xss where m: "arena_inv env (sm_arena (hw_mem w)) (hw_arena w) ss os regs"
      "arena_room (sm_arena (hw_mem w)) ss n" "maps_in w regs (a # b # ms) xss" by (rule maps_okE)
  then obtain xs ys zss where "xss = xs # ys # zss" by (auto simp: maps_in_def list_all2_Cons1)
  with m maps_in_swap show ?thesis unfolding maps_ok_def by blast
qed

lemma maps_ok_tl: "maps_ok env w n (a # ms) \<Longrightarrow> maps_ok env w n ms"
proof -
  assume "maps_ok env w n (a # ms)"
  then obtain ss os regs xss where m: "arena_inv env (sm_arena (hw_mem w)) (hw_arena w) ss os regs"
      "arena_room (sm_arena (hw_mem w)) ss n" "maps_in w regs (a # ms) xss" by (rule maps_okE)
  then obtain xs zss where "xss = xs # zss" "maps_in w regs ms zss" by (auto simp: maps_in_def list_all2_Cons1)
  with m show ?thesis unfolding maps_ok_def by blast
qed

text \<open>An empty map can always be added.\<close>

lemma maps_ok_init:
  assumes "maps_ok env w n ms"
  shows "\<exists>smap. dfk_strmap_init (hw_hooks w) (hw_items w) = Some smap \<and> maps_ok env w n ((smap, Map.empty) # ms)"
proof -
  obtain ss os regs xss where m: "arena_inv env (sm_arena (hw_mem w)) (hw_arena w) ss os regs"
      "arena_room (sm_arena (hw_mem w)) ss n" "maps_in w regs ms xss" using assms by (rule maps_okE)
  obtain smap where s: "dfk_strmap_init (hw_hooks w) (hw_items w) = Some smap"
      "strmap_rep (hw_hooks w) (hw_items w) smap [] Map.empty"
    using strmap_init_spec by blast
  have "maps_in w regs ((smap, Map.empty) # ms) ([] # xss)" using m(3) s(2) by (simp add: maps_in_def)
  with m s(1) show ?thesis unfolding maps_ok_def by blast
qed

text \<open>An item made by one of the constructors joins the first map; the others stay as they are.\<close>

lemma maps_insert:
  assumes inv: "arena_inv env (sm_arena (hw_mem w)) (hw_arena w) ss os regs" and ms: "maps_in w regs ((smap, m) # ms) xss"
    and made: "item_made env (hw_arena w) ss os regs n (hw_mem w) mem item k v" and ok: "keys_ok (insert k (dom m))"
  shows "\<exists>h' smap'. dfk_strmap_insert (sm_hooks mem) (sm_items mem) smap item = Some (h', smap')
    \<and> maps_ok env (w\<lparr>hw_mem := mem\<lparr>sm_hooks := h'\<rparr>\<rparr>) n ((smap', put_first k v m) # ms)"
proof -
  obtain xs yss where x: "xss = xs # yss" using ms by (auto simp: maps_in_def list_all2_Cons1)
  then have rep: "strmap_rep (hw_hooks w) (hw_items w) smap xs m"
    and ys: "list_all2 (\<lambda>(smap, m) xs. strmap_rep (hw_hooks w) (hw_items w) smap xs m) ms yss"
    and dis: "distinct (concat (xs # yss))" and reg: "\<forall>a\<in>set (concat (xs # yss)). (a, 64) \<in> set regs"
    using ms by (simp_all add: maps_in_def)
  obtain regs' where r: "arena_inv env (sm_arena mem) (hw_arena w) ss os (regs' @ regs)" "(item, 64) \<in> set regs'"
    and pl: "placed_item (hw_mem w) mem item k v" "arena_room (sm_arena mem) ss n"
    using made(1) by (auto simp: item_made_def)
  have ni: "item \<notin> set (concat (xs # yss))"
  proof
    assume "item \<in> set (concat (xs # yss))"
    then have "(item, 64) \<in> set regs" using reg by blast
    then have "range_of item 64 \<inter> range_of item 64 = {}"
      using r by (fastforce simp: arena_inv_def sorted_wrt_append)
    then show False using head_in_range [of 64 item] by auto
  qed
  have rep': "strmap_rep (sm_hooks mem) (sm_items mem) smap xs m"
    by (rule strmap_rep_cong [OF rep]) (use pl(1) ni in \<open>auto simp: placed_item_def\<close>)
  obtain h' smap' xs' where
      i: "dfk_strmap_insert (sm_hooks mem) (sm_items mem) smap item = Some (h', smap')"
      "strmap_rep h' (sm_items mem) smap' xs' (put_first k v m)"
      "set xs' = (if k \<in> dom m then set xs else insert item (set xs))" "same_outside (insert item (set xs)) (sm_hooks mem) h'"
    using strmap_insert_spec [OF rep' _ _ ok, of item v] pl(1) ni unfolding placed_item_def put_first_def by auto
  have sub: "set xs' \<subseteq> insert item (set xs)" using i(3) by (auto split: if_splits)
  have "list_all2 (\<lambda>(smap, m) xs. strmap_rep h' (sm_items mem) smap xs m) ms yss"
    using ys
  proof (rule list.rel_mono_strong)
    fix mm xs2
    assume a: "xs2 \<in> set yss" "(\<lambda>(smap, m) xs. strmap_rep (hw_hooks w) (hw_items w) smap xs m) mm xs2"
    obtain s2 m2 where mm: "mm = (s2, m2)" by (cases mm)
    have "set xs2 \<inter> insert item (set xs) = {}" using a(1) dis ni by auto
    then have "\<forall>a\<in>set xs2. h' a = hw_hooks w a \<and> sm_items mem a = hw_items w a"
      using i(4) pl(1) by (auto simp: placed_item_def same_outside_def)
    then show "(\<lambda>(smap, m) xs. strmap_rep h' (sm_items mem) smap xs m) mm xs2"
      using a(2) mm strmap_rep_cong by fastforce
  qed
  moreover have "distinct (concat (xs' # yss))"
    using dis ni sub strmap_rep_distinct [OF i(2)] by auto
  moreover have "\<forall>a\<in>set (concat (xs' # yss)). (a, 64) \<in> set (regs' @ regs)" using reg sub r(2) by auto
  ultimately have "maps_in (w\<lparr>hw_mem := mem\<lparr>sm_hooks := h'\<rparr>\<rparr>) (regs' @ regs) ((smap', put_first k v m) # ms) (xs' # yss)"
    using i(2) by (simp add: maps_in_def)
  with r(1) pl(2) i(1) show ?thesis unfolding maps_ok_def by auto
qed

text \<open>What a put leaves alone.\<close>

definition same_but_maps :: "'o http_world \<Rightarrow> 'o http_world \<Rightarrow> bool" where
  "same_but_maps w w' \<longleftrightarrow> hw_heap w' = hw_heap w \<and> hw_lists w' = hw_lists w \<and> hw_bufs w' = hw_bufs w
     \<and> hw_arena w' = hw_arena w \<and> hw_ctx w' = hw_ctx w \<and> hw_os w' = hw_os w"

lemma same_but_maps_refl [simp]: "same_but_maps w w"
  by (simp add: same_but_maps_def)

lemma same_but_maps_trans [trans]: "same_but_maps w w1 \<Longrightarrow> same_but_maps w1 w2 \<Longrightarrow> same_but_maps w w2"
  by (simp add: same_but_maps_def)

lemma world_put_ok:
  assumes ms: "maps_ok env w (64 + n) ((smap, m) # ms)" and ok: "keys_ok (insert k (dom m))"
  shows "\<exists>w' smap'. world_put env w smap k v = Some (True, w', smap')
    \<and> maps_ok env w' n ((smap', put_first k v m) # ms) \<and> same_but_maps w w'"
proof -
  obtain ss os regs xss where a: "arena_inv env (sm_arena (hw_mem w)) (hw_arena w) ss os regs"
      "arena_room (sm_arena (hw_mem w)) ss (64 + n)" "maps_in w regs ((smap, m) # ms) xss" using ms by (rule maps_okE)
  have k: "k \<noteq> []" using ok by (auto simp: keys_ok_def)
  obtain mem item where i: "strmap_item_anew env (hw_mem w) (hw_arena w) k v = Some (mem, hw_arena w, item)"
      "item_made env (hw_arena w) ss os regs n (hw_mem w) mem item k v"
      "am_heap (sm_arena mem) = hw_heap w" "am_hooks (sm_arena mem) = hw_lists w"
    using item_anew_room [OF a(1,2) k] by blast
  obtain h' smap' where p: "dfk_strmap_insert (sm_hooks mem) (sm_items mem) smap item = Some (h', smap')"
      "maps_ok env (w\<lparr>hw_mem := mem\<lparr>sm_hooks := h'\<rparr>\<rparr>) n ((smap', put_first k v m) # ms)"
    using maps_insert [OF a(1,3) i(2) ok] by blast
  have "item \<noteq> NULL" using i(2) by (simp add: item_made_def)
  moreover have "w\<lparr>hw_mem := mem\<lparr>sm_hooks := h'\<rparr>, hw_arena := hw_arena w\<rparr> = w\<lparr>hw_mem := mem\<lparr>sm_hooks := h'\<rparr>\<rparr>" by simp
  ultimately have "world_put env w smap k v = Some (True, w\<lparr>hw_mem := mem\<lparr>sm_hooks := h'\<rparr>\<rparr>, smap')"
    using i(1) p(1) by (simp add: world_put_def)
  with p(2) i(3,4) show ?thesis by (auto simp: same_but_maps_def)
qed

lemma world_get_ok:
  assumes "maps_ok env w n ((smap, m) # ms)" "keys_ok (insert k (dom m))"
  shows "world_get w smap k = Some (case m k of None \<Rightarrow> None | Some v \<Rightarrow> v)"
proof -
  obtain xs where "strmap_rep (hw_hooks w) (hw_items w) smap xs m"
    using assms(1) by (auto simp: maps_ok_def maps_in_def list_all2_Cons1)
  from strmap_get_spec [OF this assms(2)] show ?thesis by (simp add: world_get_def)
qed

text \<open>A range of memory that does not belong to the arena.\<close>

definition away :: "'o http_world \<Rightarrow> addr \<Rightarrow> nat \<Rightarrow> bool" where
  "away w p n \<longleftrightarrow> (\<forall>ss s k. list_rep (hw_lists w) (arena_segments (hw_arena w)) ss \<longrightarrow> s \<in> set ss \<longrightarrow>
     mem_blocks (hw_heap w) s = Some k \<longrightarrow> range_of p n \<inter> range_of s k = {})"

lemma away_same_but_maps: "same_but_maps w w' \<Longrightarrow> away w' p n \<longleftrightarrow> away w p n"
  by (simp add: away_def same_but_maps_def)

lemma world_alloc_ok:
  assumes "maps_ok env w (unat n + k) ms" "n \<noteq> 0"
  shows "\<exists>w' p. world_alloc env w n = Some (w', p) \<and> p \<noteq> NULL \<and> maps_ok env w' k ms \<and> same_but_maps w w'
    \<and> allocated (mem_bytes (hw_heap w')) p (unat n) \<and> (\<forall>a j. away w a j \<longrightarrow> range_of a j \<inter> range_of p (unat n) = {})"
proof -
  obtain ss os regs xss where a: "arena_inv env (sm_arena (hw_mem w)) (hw_arena w) ss os regs"
      "arena_room (sm_arena (hw_mem w)) ss (unat n + k)" "maps_in w regs ms xss" using assms(1) by (rule maps_okE)
  obtain am p where r: "dfk_arena_alloc env (sm_arena (hw_mem w)) (hw_arena w) n = Some (am, hw_arena w, p)" "p \<noteq> NULL"
      "arena_inv env am (hw_arena w) ss os ((p, unat n) # regs)" "arena_room am ss k"
      "am_heap am = hw_heap w" "am_hooks am = hw_lists w"
    using alloc_room [OF a(1,2) assms(2)] by blast
  let ?w = "w\<lparr>hw_mem := (hw_mem w)\<lparr>sm_arena := am\<rparr>, hw_arena := hw_arena w\<rparr>"
  have "maps_in ?w ((p, unat n) # regs) ms xss"
    by (rule maps_in_more [OF maps_in_cong [OF a(3)]]) auto
  then have "maps_ok env ?w k ms" unfolding maps_ok_def using r(3,4) by auto
  moreover have "allocated (mem_bytes (hw_heap ?w)) p (unat n)"
    using regions_allocated(1,2) [OF r(3), of "(p, unat n)"] r(5) by (simp add: allocated_def)
  moreover have "range_of a j \<inter> range_of p (unat n) = {}" if "away w a j" for a j
  proof -
    obtain s where s: "s \<in> set ss" "in_segment am s (p, unat n)" using r(3) by (auto simp: arena_inv_def)
    obtain b where b: "mem_blocks (am_heap am) s = Some b" "range_of p (unat n) \<subseteq> range_of s b"
      by (rule region_in_block [of env am s "(p, unat n)"]) (use r(3) s in \<open>auto simp: arena_inv_def\<close>)
    have "list_rep (hw_lists w) (arena_segments (hw_arena w)) ss" using a(1) by (simp add: arena_inv_def)
    then have "range_of a j \<inter> range_of s b = {}" using that s(1) b(1) r(5) unfolding away_def by auto
    then show ?thesis using b(2) by blast
  qed
  ultimately show ?thesis using r(1,2,5,6) by (auto simp: world_alloc_def same_but_maps_def)
qed

text \<open>Other changes of the memory: bytes, new blocks, and hooks of other lists.\<close>

lemma maps_ok_bytes:
  assumes "maps_ok env w n ms" "mem_blocks heap = mem_blocks (hw_heap w)" "dom (mem_bytes heap) = dom (mem_bytes (hw_heap w))"
  shows "maps_ok env (with_heap w heap) n ms"
proof -
  obtain ss os regs xss where a: "arena_inv env (sm_arena (hw_mem w)) (hw_arena w) ss os regs"
      "arena_room (sm_arena (hw_mem w)) ss n" "maps_in w regs ms xss" using assms(1) by (rule maps_okE)
  have "arena_inv env (sm_arena (hw_mem (with_heap w heap))) (hw_arena (with_heap w heap)) ss os regs"
    using arena_inv_bytes [OF a(1) assms(2,3)] by (simp add: with_heap_def)
  moreover have "maps_in (with_heap w heap) regs ms xss" by (rule maps_in_cong [OF a(3)]) (simp_all add: with_heap_def)
  ultimately show ?thesis using a(2) unfolding maps_ok_def by (auto simp: with_heap_def arena_room_def)
qed

text \<open>More memory around the arena.\<close>

lemma maps_ok_more_bytes:
  assumes "maps_ok env w n ms" "mem_blocks heap = mem_blocks (hw_heap w)" "dom (mem_bytes (hw_heap w)) \<subseteq> dom (mem_bytes heap)"
  shows "maps_ok env (with_heap w heap) n ms"
proof -
  obtain ss os regs xss where a: "arena_inv env (sm_arena (hw_mem w)) (hw_arena w) ss os regs"
      "arena_room (sm_arena (hw_mem w)) ss n" "maps_in w regs ms xss" using assms(1) by (rule maps_okE)
  have "heap_ok env heap" using a(1) assms(2,3) by (fastforce simp: arena_inv_def heap_ok_def block_def allocated_def)
  then have "arena_inv env (sm_arena (hw_mem (with_heap w heap))) (hw_arena (with_heap w heap)) ss os regs"
    using a(1) assms(2) by (simp add: with_heap_def arena_inv_def segment_ok_def in_segment_def)
  moreover have "maps_in (with_heap w heap) regs ms xss" by (rule maps_in_cong [OF a(3)]) (simp_all add: with_heap_def)
  ultimately show ?thesis using a(2) unfolding maps_ok_def by (auto simp: with_heap_def arena_room_def)
qed

lemma maps_ok_world:
  assumes "maps_ok env w n ms" "hw_mem w' = hw_mem w" "hw_arena w' = hw_arena w"
  shows "maps_ok env w' n ms"
  using assms by (simp add: maps_ok_def maps_in_def)

section \<open>A sample world\<close>

definition world_of :: "arena_mem \<Rightarrow> dfk_arena_t \<Rightarrow> kernel http_world" where
  "world_of st arena = \<lparr>hw_mem = \<lparr>sm_arena = st, sm_hooks = \<lambda>_. None, sm_items = \<lambda>_. None\<rparr>, hw_bufs = \<lambda>_. None,
     hw_arena = arena, hw_ctx = sample_ctx, hw_os = sample_kernel\<rparr>"

lemma small_blocks:
  assumes "dfk_arena_alloc small_env fresh_arena_mem fresh_arena 1 = Some (st, arena, p)"
  shows "mem_blocks (am_heap st) = [4096 \<mapsto> 40960]"
proof -
  obtain heap where h: "dfk__malloc small_env (am_heap fresh_arena_mem) 40960 = Some (heap, 4096)"
    using small_malloc [of 40960] by auto
  have e: "dfk_list_empty (am_hooks fresh_arena_mem) (arena_segments fresh_arena) = Some True"
    using list_empty_spec [of "am_hooks fresh_arena_mem" "arena_segments fresh_arena" "[]"] by (simp add: list_rep_Nil)
  have m: "max (DFK_ARENA_SEGMENT_SIZE small_env) (1 + sizeof_segment) = 40960" by (simp add: small_env_def sizeof_segment_def)
  have "am_heap st = heap"
    using assms h e m by (auto simp: dfk_arena_alloc_def bind_eq_Some_conv Let_def)
  moreover have "mem_blocks heap = [4096 \<mapsto> 40960]"
    using h by (auto simp: dfk__malloc_def small_env_def slot_alloc_def slots_def free_at_def ALIGNED_def Let_def bind_eq_Some_conv)
  ultimately show ?thesis by simp
qed

lemma small_arena_room:
  obtains st arena s regs where "arena_inv small_env st arena [s] [] regs" "arena_room st [s] 40000"
    "mem_blocks (am_heap st) = [4096 \<mapsto> 40960]"
proof -
  have inv: "arena_inv small_env fresh_arena_mem fresh_arena [] [] []"
    using init_spec [OF fresh_arena_ok] fresh_arena_init by auto
  obtain st arena where a: "dfk_arena_alloc small_env fresh_arena_mem fresh_arena 1 = Some (st, arena, 4128)"
    using small_alloc [of 1] by auto
  then obtain s where s: "arena_inv small_env st arena ([] @ [s]) [] [(s + sizeof_segment, 1)]"
      "am_segs st s = Some \<lparr>seg_size = DFK_ARENA_SEGMENT_SIZE small_env - sizeof_segment, seg_used = sizeof_segment + 1\<rparr>"
    using alloc_new_segment [OF small_env_ok inv, of 1] by auto
  then have "arena_room st [s] 40000" by (simp add: arena_room_def small_env_def sizeof_segment_def)
  with s(1) small_blocks [OF a] that show thesis by simp
qed

text \<open>A text in the memory of the sample world.\<close>

definition with_text :: "'o http_world \<Rightarrow> addr \<Rightarrow> byte list \<Rightarrow> 'o http_world" where
  "with_text w a text = with_heap w ((hw_heap w)\<lparr>mem_bytes := put_bytes (mem_bytes (hw_heap w)) a text\<rparr>)"

lemma small_world_text:
  assumes "fits a (length bs)"
  obtains st arena smap where "dfk_strmap_init (\<lambda>_. None) (\<lambda>_. None) = Some smap"
    "maps_ok small_env (with_text (world_of st arena) a bs) 40000 [(smap, Map.empty), (smap, Map.empty)]"
    "bytes_at (mem_bytes (hw_heap (with_text (world_of st arena) a bs))) a bs"
    "a = 0x2000000000 \<Longrightarrow> length bs < 0x10000 \<Longrightarrow> away (with_text (world_of st arena) a bs) a (length bs)"
proof -
  obtain st arena s regs where a: "arena_inv small_env st arena [s] [] regs" "arena_room st [s] 40000"
      "mem_blocks (am_heap st) = [4096 \<mapsto> 40960]"
    by (rule small_arena_room)
  then have "maps_ok small_env (world_of st arena) 40000 []"
    unfolding maps_ok_def maps_in_def by (auto simp: world_of_def)
  from maps_ok_init [OF this] obtain smap where s: "dfk_strmap_init (\<lambda>_. None) (\<lambda>_. None) = Some smap"
      "maps_ok small_env (world_of st arena) 40000 [(smap, Map.empty)]"
    by (auto simp: world_of_def)
  from maps_ok_init [OF s(2)] s(1) have 2: "maps_ok small_env (world_of st arena) 40000 [(smap, Map.empty), (smap, Map.empty)]"
    by (auto simp: world_of_def)
  have "maps_ok small_env (with_text (world_of st arena) a bs) 40000 [(smap, Map.empty), (smap, Map.empty)]"
    unfolding with_text_def by (rule maps_ok_more_bytes [OF 2]) (simp_all add: put_bytes_dom)
  moreover have "bytes_at (mem_bytes (hw_heap (with_text (world_of st arena) a bs))) a bs"
    using put_bytes_at [OF assms] by (simp add: with_text_def with_heap_def)
  moreover have "away (with_text (world_of st arena) a bs) a (length bs)" if "a = 0x2000000000" "length bs < 0x10000"
  proof -
    have "range_of a (length bs) \<inter> range_of 4096 40960 = {}"
      by (rule range_of_disjoint [OF assms]) (use that in \<open>auto simp: fits_def\<close>)
    then show ?thesis using a(3) by (auto simp: away_def with_text_def with_heap_def world_of_def split: if_splits)
  qed
  ultimately show ?thesis using that s(1) by blast
qed

end
