(* ===== verification/Dfk_Http_Request.thy ===== *)
theory Dfk_Http_Request
  imports Dfk_Http_World Dfk_Urlencoding
begin

text \<open>
  The parts of \<^verbatim>\<open>src/http/request.c\<close> that take a request apart: the callbacks that put the header lines together from
  the pieces the HTTP parser reports, and the parser of the query string. Headers and arguments go into string
  maps whose items live in the request's arena. The HTTP parser is a third-party library; what it calls back is a
  sequence of calls.
\<close>

section \<open>Header lines\<close>

text \<open>The data of \<^verbatim>\<open>dfk_header_parser_data_t\<close>, with the world the callbacks work on.\<close>

record ('p, 'o) header_parser =
  hp_req :: "'p dfk_http_request_t"
  cheader_field :: dfk_buf_t
  cheader_value :: dfk_buf_t
  hp_errno :: dfk_error_e
  hp_world :: "'o http_world"

text \<open>A callback returns 0, or 1 to stop the parser. \<open>mx\<close> is the configured \<^verbatim>\<open>DFK_HTTP_HEADER_MAX_SIZE\<close>.\<close>

definition dfk_http_request_on_url ::
  "size_t \<Rightarrow> ('p, 'o) header_parser \<Rightarrow> addr \<Rightarrow> size_t \<Rightarrow> (int \<times> ('p, 'o) header_parser) option" where
  "dfk_http_request_on_url mx p at n = do {
     url \<leftarrow> dfk_buf_append (req_url (hp_req p)) at n;
     let p = p\<lparr>hp_req := (hp_req p)\<lparr>req_url := url\<rparr>\<rparr>;
     if buf_size url > mx then Some (1, p\<lparr>hp_errno := dfk_err_overflow\<rparr>)
     else Some (0, p)
   }"

definition dfk__http_request_flush_header :: "dfk_env \<Rightarrow> ('p, 'o) header_parser \<Rightarrow> (int \<times> ('p, 'o) header_parser) option" where
  "dfk__http_request_flush_header env p = do {
     field \<leftarrow> load_buf (hw_heap (hp_world p)) (cheader_field p);
     v \<leftarrow> load_buf (hw_heap (hp_world p)) (cheader_value p);
     (made, w, headers) \<leftarrow> world_put env (hp_world p) (req_headers (hp_req p)) (bytes_of field) v;
     let p = p\<lparr>hp_world := w\<rparr>;
     if \<not> made then Some (1, p\<lparr>hp_errno := dfk_err_nomem\<rparr>)
     else Some (0, p\<lparr>hp_req := (hp_req p)\<lparr>req_headers := headers\<rparr>\<rparr>)
   }"

definition field_limit :: "size_t \<Rightarrow> ('p, 'o) header_parser \<Rightarrow> int \<times> ('p, 'o) header_parser" where
  "field_limit mx p = (if buf_size (cheader_field p) > mx then (1, p\<lparr>hp_errno := dfk_err_overflow\<rparr>) else (0, p))"

definition dfk_http_request_on_header_field ::
  "dfk_env \<Rightarrow> size_t \<Rightarrow> ('p, 'o) header_parser \<Rightarrow> addr \<Rightarrow> size_t \<Rightarrow> (int \<times> ('p, 'o) header_parser) option" where
  "dfk_http_request_on_header_field env mx p at n =
     (if buf_data (cheader_value p) \<noteq> NULL then do {
        (ret, p) \<leftarrow> dfk__http_request_flush_header env p;
        if ret \<noteq> 0 then Some (1, p)
        else do {
          let p = p\<lparr>cheader_value := (cheader_value p)\<lparr>buf_data := NULL\<rparr>\<rparr>;
          let p = p\<lparr>cheader_field := \<lparr>buf_data = at, buf_size = n\<rparr>\<rparr>;
          Some (field_limit mx p)
        }
      } else do {
        field \<leftarrow> dfk_buf_append (cheader_field p) at n;
        Some (field_limit mx (p\<lparr>cheader_field := field\<rparr>))
      })"

definition dfk_http_request_on_header_value ::
  "size_t \<Rightarrow> ('p, 'o) header_parser \<Rightarrow> addr \<Rightarrow> size_t \<Rightarrow> (int \<times> ('p, 'o) header_parser) option" where
  "dfk_http_request_on_header_value mx p at n = do {
     v \<leftarrow> (if buf_data (cheader_value p) = NULL then Some \<lparr>buf_data = at, buf_size = n\<rparr>
          else dfk_buf_append (cheader_value p) at n);
     let p = p\<lparr>cheader_value := v\<rparr>;
     if buf_size (cheader_value p) > mx then Some (1, p\<lparr>hp_errno := dfk_err_overflow\<rparr>)
     else Some (0, p)
   }"

text \<open>The result of the last flush is not looked at; the parser is paused.\<close>

definition dfk_http_request_on_headers_complete :: "dfk_env \<Rightarrow> ('p, 'o) header_parser \<Rightarrow> (int \<times> ('p, 'o) header_parser) option" where
  "dfk_http_request_on_headers_complete env p =
     (if buf_data (cheader_field p) \<noteq> NULL then do {
        c_assert (buf_data (cheader_value p) \<noteq> NULL);
        (ret, p) \<leftarrow> dfk__http_request_flush_header env p;
        Some (0, p)
      } else Some (0, p))"

text \<open>
  What the HTTP parser calls back while it reads a header; it stops at the first callback that does not return 0. The callbacks for
  the begin of a message and for chunks only log.
\<close>

datatype callback = Message_begin | Url addr size_t | Field addr size_t | Value addr size_t | Headers_complete

definition dfk_http_request_on_message_begin :: "('p, 'o) header_parser \<Rightarrow> int \<times> ('p, 'o) header_parser" where
  "dfk_http_request_on_message_begin p = (0, p)"

fun run_callback :: "dfk_env \<Rightarrow> size_t \<Rightarrow> ('p, 'o) header_parser \<Rightarrow> callback \<Rightarrow> (int \<times> ('p, 'o) header_parser) option" where
  "run_callback env mx p Message_begin = Some (dfk_http_request_on_message_begin p)"
| "run_callback env mx p (Url at n) = dfk_http_request_on_url mx p at n"
| "run_callback env mx p (Field at n) = dfk_http_request_on_header_field env mx p at n"
| "run_callback env mx p (Value at n) = dfk_http_request_on_header_value mx p at n"
| "run_callback env mx p Headers_complete = dfk_http_request_on_headers_complete env p"

fun run_callbacks :: "dfk_env \<Rightarrow> size_t \<Rightarrow> ('p, 'o) header_parser \<Rightarrow> callback list \<Rightarrow> (int \<times> ('p, 'o) header_parser) option" where
  "run_callbacks env mx p [] = Some (0, p)"
| "run_callbacks env mx p (c # cs) = do {
     (ret, p) \<leftarrow> run_callback env mx p c;
     if ret \<noteq> 0 then Some (ret, p) else run_callbacks env mx p cs
   }"

text \<open>The state at the beginning of \<^verbatim>\<open>dfk__http_request_read_headers\<close>.\<close>

definition no_headers :: "'p dfk_http_request_t \<Rightarrow> 'o http_world \<Rightarrow> ('p, 'o) header_parser" where
  "no_headers req w = \<lparr>hp_req = req, cheader_field = no_buf, cheader_value = no_buf, hp_errno = dfk_err_ok, hp_world = w\<rparr>"

section \<open>The query string\<close>

text \<open>
  The positions are offsets into the decoded query. The states: 0 initial, 1 reading a key, 2 behind the
  equals sign, 3 reading a value.
\<close>

record query_parser =
  q_state :: nat
  key_begin :: nat
  key_end :: nat
  value_begin :: nat

definition slice :: "byte list \<Rightarrow> nat \<Rightarrow> nat \<Rightarrow> byte list" where
  "slice q i j = take (j - i) (drop i q)"

definition dfk_http_request_add_argument ::
  "dfk_env \<Rightarrow> byte list \<Rightarrow> query_parser \<Rightarrow> nat \<Rightarrow> 'p dfk_http_request_t \<Rightarrow> 'o http_world
    \<Rightarrow> (dfk_error_e \<times> 'p dfk_http_request_t \<times> 'o http_world) option" where
  "dfk_http_request_add_argument env q st value_end req w = do {
     c_assert (key_begin st \<le> key_end st);
     c_assert (value_begin st \<le> value_end);
     (made, w, arguments) \<leftarrow> world_put env w (req_arguments req) (slice q (key_begin st) (key_end st))
       (Some (slice q (value_begin st) value_end));
     if \<not> made then Some (dfk_err_nomem, req, w)
     else Some (dfk_err_ok, req\<lparr>req_arguments := arguments\<rparr>, w)
   }"

fun query_loop ::
  "dfk_env \<Rightarrow> byte list \<Rightarrow> byte list \<Rightarrow> nat \<Rightarrow> query_parser \<Rightarrow> 'p dfk_http_request_t \<Rightarrow> 'o http_world
    \<Rightarrow> ((dfk_error_e + query_parser) \<times> 'p dfk_http_request_t \<times> 'o http_world) option" where
  "query_loop env q [] i st req w = Some (Inr st, req, w)"
| "query_loop env q (b # rest) i st req w =
     (if q_state st = 0 then query_loop env q rest (i + 1) (st\<lparr>key_begin := i, q_state := 1\<rparr>) req w
      else if q_state st = 1 then
        (if b = of_char CHR ''='' then query_loop env q rest (i + 1) (st\<lparr>key_end := i, q_state := 2\<rparr>) req w
         else query_loop env q rest (i + 1) st req w)
      else if q_state st = 2 then query_loop env q rest (i + 1) (st\<lparr>value_begin := i, q_state := 3\<rparr>) req w
      else if q_state st = 3 then
        (if b = of_char CHR ''&'' then do {
           (err, req, w) \<leftarrow> dfk_http_request_add_argument env q st i req w;
           if err \<noteq> dfk_err_ok then Some (Inl err, req, w)
           else query_loop env q rest (i + 1) (st\<lparr>q_state := 0\<rparr>) req w
         } else query_loop env q rest (i + 1) st req w)
      else None)"

definition parse_query ::
  "dfk_env \<Rightarrow> byte list \<Rightarrow> 'p dfk_http_request_t \<Rightarrow> 'o http_world \<Rightarrow> (dfk_error_e \<times> 'p dfk_http_request_t \<times> 'o http_world) option" where
  "parse_query env q req w = do {
     (r, req, w) \<leftarrow> query_loop env q q 0 \<lparr>q_state = 0, key_begin = 0, key_end = 0, value_begin = 0\<rparr> req w;
     case r of Inl err \<Rightarrow> Some (err, req, w)
     | Inr st \<Rightarrow>
         if q_state st \<noteq> 0 \<and> q_state st \<noteq> 3 then Some (dfk_err_protocol, req, w)
         else if q_state st = 3 then dfk_http_request_add_argument env q st (length q) req w
         else Some (dfk_err_ok, req, w)
   }"

text \<open>The query is decoded as a whole first, into memory from the request's arena.\<close>

definition read_query ::
  "dfk_env \<Rightarrow> 'p dfk_http_request_t \<Rightarrow> 'o http_world \<Rightarrow> (dfk_error_e \<times> 'p dfk_http_request_t \<times> 'o http_world) option" where
  "read_query env req w =
     (if buf_size (req_query req) = 0 then Some (dfk_err_ok, req, w)
      else do {
        (w, decoded_query) \<leftarrow> world_alloc env w (buf_size (req_query req));
        if decoded_query = NULL then Some (dfk_err_nomem, req, w)
        else do {
          (m, decoded_query_size, bytesdecoded) \<leftarrow>
            dfk_urldecode (mem_bytes (hw_heap w)) (buf_data (req_query req)) (buf_size (req_query req)) decoded_query;
          let w = with_heap w ((hw_heap w)\<lparr>mem_bytes := m\<rparr>);
          if bytesdecoded \<noteq> buf_size (req_query req) then Some (dfk_err_protocol, req, w)
          else do {
            q \<leftarrow> load_bytes m decoded_query (unat decoded_query_size);
            parse_query env q req w
          }
        }
      })"

section \<open>What a query means\<close>

text \<open>
  The reference: a key is its first byte, whatever it is, and all bytes up to an equals sign; a value is
  the byte behind that sign, whatever it is, and all bytes up to an ampersand or the end. The flag tells whether the
  query is complete; the pairs are those read up to the error when it is not.
\<close>

type_synonym arguments = "(byte list \<times> byte list) list"

function (sequential) query_spec :: "byte list \<Rightarrow> arguments \<times> bool" where
  "query_spec [] = ([], True)"
| "query_spec (a # r) = (case dropWhile (\<lambda>c. c \<noteq> 61) r of
     eq # b # r1 \<Rightarrow>
       (let kv = (a # takeWhile (\<lambda>c. c \<noteq> 61) r, b # takeWhile (\<lambda>c. c \<noteq> 38) r1) in
        case dropWhile (\<lambda>c. c \<noteq> 38) r1 of
          [] \<Rightarrow> ([kv], True)
        | amp # r2 \<Rightarrow> (case query_spec r2 of (ps, ok) \<Rightarrow> (kv # ps, ok)))
   | _ \<Rightarrow> ([], False))"
  by pat_completeness auto

lemma dropWhile_shorter: "dropWhile P xs = ys \<Longrightarrow> length ys \<le> length xs"
  using length_dropWhile_le by blast

termination query_spec
proof (relation "measure length", goal_cases)
  case (2 a r eq1 l b r1 kv amp r2)
  then show ?case using dropWhile_shorter [of "\<lambda>c. c \<noteq> 61" r "eq1 # b # r1"] dropWhile_shorter [of "\<lambda>c. c \<noteq> 38" r1 "amp # r2"]
    by simp
qed simp

fun query_string :: "arguments \<Rightarrow> byte list" where
  "query_string [] = []"
| "query_string ((k, v) # ps) = k @ 61 # v @ (if ps = [] then [] else 38 # query_string ps)"

definition plain_pair :: "byte list \<times> byte list \<Rightarrow> bool" where
  "plain_pair = (\<lambda>(k, v). k \<noteq> [] \<and> v \<noteq> [] \<and> 61 \<notin> set (tl k) \<and> 38 \<notin> set (tl v))"

lemma span_until: "c \<notin> set xs \<Longrightarrow> takeWhile (\<lambda>d. d \<noteq> c) (xs @ c # ys) = xs \<and> dropWhile (\<lambda>d. d \<noteq> c) (xs @ c # ys) = c # ys"
  by (induction xs) auto

lemma span_all: "c \<notin> set xs \<Longrightarrow> takeWhile (\<lambda>d. d \<noteq> c) xs = xs \<and> dropWhile (\<lambda>d. d \<noteq> c) xs = []"
  by (induction xs) auto

lemma query_spec_string: "list_all plain_pair ps \<Longrightarrow> query_spec (query_string ps) = (ps, True)"
proof (induction ps rule: query_string.induct)
  case (2 k v ps)
  obtain a k' b v' where kv: "k = a # k'" "v = b # v'" "61 \<notin> set k'" "38 \<notin> set v'"
    using 2(2) by (cases k; cases v) (auto simp: plain_pair_def)
  note sp = span_until [OF kv(3), of "b # v' @ (if ps = [] then [] else 38 # query_string ps)"]
    span_until [OF kv(4), of "query_string ps"] span_all [OF kv(4)]
  show ?case
    using 2 kv(1,2) sp(1) by (cases "ps = []") (simp_all add: sp(2,3))
qed simp

subsection \<open>The loop follows the reference\<close>

lemma loop_key:
  "q_state st = 1 \<Longrightarrow> 61 \<notin> set k \<Longrightarrow> query_loop env q (k @ r) i st req w = query_loop env q r (i + length k) st req w"
  by (induction k arbitrary: i) auto

lemma loop_value:
  "q_state st = 3 \<Longrightarrow> 38 \<notin> set v \<Longrightarrow> query_loop env q (v @ r) i st req w = query_loop env q r (i + length v) st req w"
  by (induction v arbitrary: i) auto

lemma slice_mid: "slice (xs @ ys @ zs) (length xs) (length xs + length ys) = ys"
  by (simp add: slice_def)

definition after_loop ::
  "dfk_env \<Rightarrow> byte list \<Rightarrow> (dfk_error_e + query_parser) \<times> 'p dfk_http_request_t \<times> 'o http_world
    \<Rightarrow> (dfk_error_e \<times> 'p dfk_http_request_t \<times> 'o http_world) option" where
  "after_loop env q = (\<lambda>(r, req, w). case r of Inl err \<Rightarrow> Some (err, req, w)
     | Inr st \<Rightarrow>
         if q_state st \<noteq> 0 \<and> q_state st \<noteq> 3 then Some (dfk_err_protocol, req, w)
         else if q_state st = 3 then dfk_http_request_add_argument env q st (length q) req w
         else Some (dfk_err_ok, req, w))"

lemma takeWhile_no: "c \<notin> set (takeWhile (\<lambda>d. d \<noteq> c) xs)"
  by (metis (mono_tags) set_takeWhileD)

text \<open>The arguments of a request and its other maps.\<close>

definition arguments_ok ::
  "dfk_env \<Rightarrow> 'o http_world \<Rightarrow> nat \<Rightarrow> map_value list \<Rightarrow> 'p dfk_http_request_t \<Rightarrow> (byte list \<rightharpoonup> byte list) \<Rightarrow> bool" where
  "arguments_ok env w n ms req am \<longleftrightarrow> maps_ok env w n ((req_arguments req, lifted am) # ms)"

definition args_done ::
  "dfk_env \<Rightarrow> nat \<Rightarrow> map_value list \<Rightarrow> 'p dfk_http_request_t \<Rightarrow> 'o http_world \<Rightarrow> (byte list \<rightharpoonup> byte list)
    \<Rightarrow> 'p dfk_http_request_t \<Rightarrow> 'o http_world \<Rightarrow> bool" where
  "args_done env n ms req w am req' w' \<longleftrightarrow> arguments_ok env w' n ms req' am \<and> same_but_maps w w'
     \<and> req' = req\<lparr>req_arguments := req_arguments req'\<rparr>"

lemma add_argument_ok:
  assumes "arguments_ok env w (64 + n) ms req am" "keys_ok (insert k (dom am))"
    and "key_begin st \<le> key_end st" "value_begin st \<le> j" "slice q (key_begin st) (key_end st) = k" "slice q (value_begin st) j = v"
  shows "\<exists>req' w'. dfk_http_request_add_argument env q st j req w = Some (dfk_err_ok, req', w')
    \<and> args_done env n ms req w (put_first k v am) req' w'"
proof -
  obtain w' args where "world_put env w (req_arguments req) k (Some v) = Some (True, w', args)"
      "maps_ok env w' n ((args, put_first k (Some v) (lifted am)) # ms)" "same_but_maps w w'"
    using world_put_ok [OF assms(1) [unfolded arguments_ok_def]] assms(2) by (metis dom_lifted)
  then show ?thesis using assms(3-)
    by (auto simp: dfk_http_request_add_argument_def args_done_def arguments_ok_def put_first_lifted)
qed

lemma args_done_trans:
  assumes "args_done env n ms req w am req1 w1" "args_done env k ms req1 w1 am2 req2 w2"
  shows "args_done env k ms req w am2 req2 w2"
proof -
  have "req1 = req\<lparr>req_arguments := req_arguments req1\<rparr>" "req2 = req1\<lparr>req_arguments := req_arguments req2\<rparr>"
    using assms unfolding args_done_def by blast+
  then have "req2 = req\<lparr>req_arguments := req_arguments req2\<rparr>" by (metis dfk_http_request_t.surjective dfk_http_request_t.update_convs(16))
  then show ?thesis using assms same_but_maps_trans unfolding args_done_def by blast
qed

lemma put_first_add: "map_of ps ++ put_first k v m = map_of ((k, v) # ps) ++ m"
  by (auto simp: put_first_def map_add_def fun_eq_iff split: option.splits)

lemma query_loop_spec:
  assumes "arguments_ok env w (64 * length (fst (query_spec r)) + n) ms req am"
    and "keys_ok (fst ` set (fst (query_spec r)) \<union> dom am)" "q_state st = 0" "q = pre @ r"
  shows "\<exists>req' w'. query_loop env q r (length pre) st req w \<bind> after_loop env q
      = Some (if snd (query_spec r) then dfk_err_ok else dfk_err_protocol, req', w')
    \<and> args_done env n ms req w (map_of (fst (query_spec r)) ++ am) req' w'"
  using assms
proof (induction r arbitrary: pre st req w am rule: query_spec.induct)
  case 1
  have "req = req\<lparr>req_arguments := req_arguments req\<rparr>" by simp
  with 1 show ?case by (simp add: after_loop_def args_done_def)
next
  case (2 a r)
  define k where "k = takeWhile (\<lambda>c. c \<noteq> 61) r"
  define st1 where "st1 = st\<lparr>key_begin := length pre, q_state := 1\<rparr>"
  have k: "61 \<notin> set k" unfolding k_def by (rule takeWhile_no)
  have r: "r = k @ dropWhile (\<lambda>c. c \<noteq> 61) r" by (simp add: k_def)
  have rq: "req = req\<lparr>req_arguments := req_arguments req\<rparr>" by simp
  have l1: "query_loop env q (a # r) (length pre) st req w = query_loop env q (dropWhile (\<lambda>c. c \<noteq> 61) r) (length pre + 1 + length k) st1 req w"
    using 2(4) loop_key [of st1 k env q "dropWhile (\<lambda>c. c \<noteq> 61) r" "length pre + 1" req w] k r [symmetric] by (simp add: st1_def)
  show ?case
  proof (cases "dropWhile (\<lambda>c. c \<noteq> 61) r")
    case Nil
    then have "query_loop env q (a # r) (length pre) st req w = Some (Inr st1, req, w)" unfolding l1 Nil by simp
    moreover have "query_spec (a # r) = ([], False)" using Nil by (simp del: dropWhile_eq_Nil_conv)
    ultimately show ?thesis using 2(2) rq
      by (simp add: after_loop_def st1_def args_done_def del: query_loop.simps query_spec.simps)
  next
    case (Cons eqc r0)
    have eqc: "eqc = 61" using Cons hd_dropWhile [of "\<lambda>c. c \<noteq> 61" r] by simp
    define i where "i = length pre + 1 + length k"
    show ?thesis
    proof (cases r0)
      case Nil
      then have "query_spec (a # r) = ([], False)" using Cons by simp
      then show ?thesis using l1 Cons eqc Nil 2(2) rq
        by (simp add: after_loop_def st1_def args_done_def del: query_spec.simps)
    next
      case r0: (Cons b r1)
      define v where "v = takeWhile (\<lambda>c. c \<noteq> 38) r1"
      define st3 where "st3 = st1\<lparr>key_end := i, value_begin := i + 1, q_state := 3\<rparr>"
      have v: "38 \<notin> set v" unfolding v_def by (rule takeWhile_no)
      have r1: "r1 = v @ dropWhile (\<lambda>c. c \<noteq> 38) r1" by (simp add: v_def)
      have l2: "query_loop env q (a # r) (length pre) st req w
          = query_loop env q (dropWhile (\<lambda>c. c \<noteq> 38) r1) (i + 2 + length v) st3 req w"
        using l1 Cons eqc r0 loop_value [of st3 v env q "dropWhile (\<lambda>c. c \<noteq> 38) r1" "i + 2" req w] v r1 [symmetric]
        by (simp add: st1_def st3_def i_def)
      have q: "q = pre @ (a # k) @ 61 # (b # v) @ dropWhile (\<lambda>c. c \<noteq> 38) r1" using 2(5) r Cons eqc r0 r1 by simp
      have sl: "slice q (key_begin st3) (key_end st3) = a # k" "slice q (value_begin st3) (i + 2 + length v) = b # v"
        using slice_mid [of pre "a # k" "61 # (b # v) @ dropWhile (\<lambda>c. c \<noteq> 38) r1"]
          slice_mid [of "pre @ (a # k) @ [61]" "b # v" "dropWhile (\<lambda>c. c \<noteq> 38) r1"]
        unfolding q by (simp_all add: st3_def st1_def i_def)
      have pos: "key_begin st3 \<le> key_end st3" "value_begin st3 \<le> i + 2 + length v" by (simp_all add: st3_def st1_def i_def)
      show ?thesis
      proof (cases "dropWhile (\<lambda>c. c \<noteq> 38) r1")
        case Nil
        have qs: "query_spec (a # r) = ([(a # k, b # v)], True)"
          using Cons r0 by (simp add: Nil k_def v_def del: dropWhile_eq_Nil_conv)
        have len: "length q = i + 2 + length v" using q Nil by (simp add: i_def)
        have "query_loop env q (a # r) (length pre) st req w = Some (Inr st3, req, w)" unfolding l2 Nil by simp
        moreover have "q_state st3 = 3" by (simp add: st3_def)
        ultimately have run: "query_loop env q (a # r) (length pre) st req w \<bind> after_loop env q
            = dfk_http_request_add_argument env q st3 (i + 2 + length v) req w"
          using len by (simp add: after_loop_def del: query_loop.simps)
        have ok: "arguments_ok env w (64 + n) ms req am" "keys_ok (insert (a # k) (dom am))"
          using 2(2,3) unfolding qs by simp_all
        have e: "map_of [(a # k, b # v)] ++ am = put_first (a # k) (b # v) am"
          by (auto simp: put_first_def map_add_def fun_eq_iff split: option.splits)
        show ?thesis
          using add_argument_ok [OF ok pos sl] unfolding run qs fst_conv snd_conv e by simp
      next
        case amp: (Cons am1 r2)
        have am1: "am1 = 38" using amp hd_dropWhile [of "\<lambda>c. c \<noteq> 38" r1] by simp
        define pre' where "pre' = pre @ (a # k) @ 61 # (b # v) @ [38]"
        have pre': "length pre' = i + 3 + length v" "q = pre' @ r2" using q amp am1 by (simp_all add: pre'_def i_def)
        obtain ps ok where ps: "query_spec r2 = (ps, ok)" by (cases "query_spec r2")
        have qs: "query_spec (a # r) = ((a # k, b # v) # ps, ok)"
          using Cons r0 amp ps by (simp add: k_def v_def)
        have o: "arguments_ok env w (64 + (64 * length ps + n)) ms req am" using 2(2) unfolding qs by (simp add: algebra_simps)
        have ko: "keys_ok (insert (a # k) (dom am))" "keys_ok (fst ` set ps \<union> dom (put_first (a # k) (b # v) am))"
          using 2(3) unfolding qs by (auto elim: keys_ok_mono)
        obtain req1 w1 where add: "dfk_http_request_add_argument env q st3 (i + 2 + length v) req w = Some (dfk_err_ok, req1, w1)"
            "args_done env (64 * length ps + n) ms req w (put_first (a # k) (b # v) am) req1 w1"
          using add_argument_ok [OF o ko(1) pos sl] by blast
        have run: "query_loop env q (a # r) (length pre) st req w
            = query_loop env q r2 (length pre') (st3\<lparr>q_state := 0\<rparr>) req1 w1"
          using l2 amp am1 add(1) pre'(1) by (simp add: st3_def eval_nat_numeral)
        have ok1: "arguments_ok env w1 (64 * length (fst (query_spec r2)) + n) ms req1 (put_first (a # k) (b # v) am)"
          using add(2) ps by (simp add: args_done_def)
        have ko1: "keys_ok (fst ` set (fst (query_spec r2)) \<union> dom (put_first (a # k) (b # v) am))" using ko(2) ps by simp
        obtain req2 w2 where "query_loop env q r2 (length pre') (st3\<lparr>q_state := 0\<rparr>) req1 w1 \<bind> after_loop env q
            = Some (if ok then dfk_err_ok else dfk_err_protocol, req2, w2)"
            "args_done env n ms req1 w1 (map_of ps ++ put_first (a # k) (b # v) am) req2 w2"
          using 2(1) [OF Cons r0 refl amp ok1 ko1 _ pre'(2), of "st3\<lparr>q_state := 0\<rparr>"] ps by auto
        then show ?thesis
          using args_done_trans [OF add(2)] unfolding run qs fst_conv snd_conv put_first_add [symmetric] by blast
      qed
    qed
  qed
qed

lemma parse_query_spec:
  assumes "arguments_ok env w (64 * length (fst (query_spec q)) + n) ms req am" "keys_ok (fst ` set (fst (query_spec q)) \<union> dom am)"
  shows "\<exists>req' w'. parse_query env q req w = Some (if snd (query_spec q) then dfk_err_ok else dfk_err_protocol, req', w')
    \<and> args_done env n ms req w (map_of (fst (query_spec q)) ++ am) req' w'"
proof -
  have "parse_query env q req w = query_loop env q q 0 \<lparr>q_state = 0, key_begin = 0, key_end = 0, value_begin = 0\<rparr> req w \<bind> after_loop env q"
    by (simp only: parse_query_def after_loop_def)
  then show ?thesis
    using query_loop_spec [OF assms, of "\<lparr>q_state = 0, key_begin = 0, key_end = 0, value_begin = 0\<rparr>" q "[]"] by simp
qed

section \<open>Header lines in pieces\<close>

text \<open>Contiguous pieces from an address on, and a header line whose name and value come in pieces.\<close>

fun in_pieces :: "(addr \<Rightarrow> size_t \<Rightarrow> callback) \<Rightarrow> addr \<Rightarrow> size_t list \<Rightarrow> callback list" where
  "in_pieces c at [] = []"
| "in_pieces c at (n # ns) = c at n # in_pieces c (at + n) ns"

record header_line =
  h_field :: addr
  h_field_sizes :: "size_t list"
  h_value :: addr
  h_value_sizes :: "size_t list"

definition header_callbacks :: "header_line \<Rightarrow> callback list" where
  "header_callbacks h = in_pieces Field (h_field h) (h_field_sizes h) @ in_pieces Value (h_value h) (h_value_sizes h)"

text \<open>A buffer with its contents, and a header line with its name and value, in memory.\<close>

definition buffer_has :: "cmem \<Rightarrow> dfk_buf_t \<Rightarrow> byte list \<Rightarrow> bool" where
  "buffer_has m b bs \<longleftrightarrow> bytes_at (mem_bytes m) (buf_data b) bs \<and> buf_size b = of_nat (length bs)"

definition line_at :: "cmem \<Rightarrow> header_line \<Rightarrow> byte list \<times> byte list \<Rightarrow> bool" where
  "line_at m h kv \<longleftrightarrow> buffer_has m \<lparr>buf_data = h_field h, buf_size = sum_list (h_field_sizes h)\<rparr> (fst kv)
     \<and> buffer_has m \<lparr>buf_data = h_value h, buf_size = sum_list (h_value_sizes h)\<rparr> (snd kv)"

text \<open>Sizes that stay within a limit when added up without wrapping.\<close>

definition within :: "size_t \<Rightarrow> size_t list \<Rightarrow> bool" where
  "within limit ns \<longleftrightarrow> sum_list (map unat ns) \<le> unat limit"

definition line_ok :: "size_t \<Rightarrow> header_line \<Rightarrow> bool" where
  "line_ok mx h \<longleftrightarrow> h_field_sizes h \<noteq> [] \<and> h_value_sizes h \<noteq> [] \<and> within mx (h_field_sizes h) \<and> within mx (h_value_sizes h)"

lemma unat_sum: "sum_list (map unat ns) < 2 ^ 64 \<Longrightarrow> unat (sum_list ns :: size_t) = sum_list (map unat ns)"
proof (induction ns)
  case (Cons n ns)
  then show ?case by (simp add: unat_plus_if')
qed simp

lemma within_le: "within limit ns \<Longrightarrow> ns = ms @ ks \<Longrightarrow> sum_list ms \<le> limit"
  using unat_sum [of ms] unsigned_less [of limit, where ?'a = nat] by (simp add: within_def word_le_nat_alt)

lemma buffer_has_load: "buffer_has m b bs \<Longrightarrow> load_buf m b = Some (Some bs)"
  using load_bytes_at [of "mem_bytes m" "buf_data b" bs] bytes_at_fits [of "mem_bytes m" "buf_data b" bs]
  by (simp add: buffer_has_def load_buf_def mem_load_def fits_def unat_of_nat_addr)

lemma buffer_has_not_NULL: "buffer_has m b bs \<Longrightarrow> buf_data b \<noteq> NULL"
  by (auto simp: buffer_has_def bytes_at_def fits_def)

text \<open>Further pieces of a buffer that has been begun.\<close>

lemma run_value_pieces:
  assumes "buf_data b \<noteq> NULL"
  shows "cheader_value p = b \<Longrightarrow> within mx (ms @ ns) \<Longrightarrow> buf_size b = sum_list ms \<Longrightarrow>
    run_callbacks env mx p (in_pieces Value (buf_data b + buf_size b) ns @ cs)
      = run_callbacks env mx (p\<lparr>cheader_value := b\<lparr>buf_size := buf_size b + sum_list ns\<rparr>\<rparr>) cs"
  using assms
proof (induction ns arbitrary: b p ms)
  case Nil
  then show ?case by (cases b; cases p) simp
next
  case (Cons n ns)
  let ?b = "b\<lparr>buf_size := buf_size b + n\<rparr>"
  have le: "buf_size b + n \<le> mx"
    using within_le [OF Cons.prems(2), of "ms @ [n]" ns] Cons.prems(3) by (simp add: ac_simps)
  have "dfk_http_request_on_header_value mx p (buf_data b + buf_size b) n = Some (0, p\<lparr>cheader_value := ?b\<rparr>)"
    using Cons.prems(1,4) le by (simp add: dfk_http_request_on_header_value_def dfk_buf_append_def Let_def not_less)
  moreover have "run_callbacks env mx (p\<lparr>cheader_value := ?b\<rparr>) (in_pieces Value (buf_data ?b + buf_size ?b) ns @ cs)
      = run_callbacks env mx (p\<lparr>cheader_value := ?b\<lparr>buf_size := buf_size ?b + sum_list ns\<rparr>\<rparr>) cs"
    using Cons.IH [of "p\<lparr>cheader_value := ?b\<rparr>" ?b "ms @ [n]"] Cons.prems by (simp add: ac_simps)
  ultimately show ?case by (simp add: ac_simps)
qed

lemma run_field_pieces:
  assumes "buf_data b \<noteq> NULL"
  shows "cheader_field p = b \<Longrightarrow> buf_data (cheader_value p) = NULL \<Longrightarrow> within mx (ms @ ns) \<Longrightarrow> buf_size b = sum_list ms \<Longrightarrow>
    run_callbacks env mx p (in_pieces Field (buf_data b + buf_size b) ns @ cs)
      = run_callbacks env mx (p\<lparr>cheader_field := b\<lparr>buf_size := buf_size b + sum_list ns\<rparr>\<rparr>) cs"
  using assms
proof (induction ns arbitrary: b p ms)
  case Nil
  then show ?case by (cases b; cases p) simp
next
  case (Cons n ns)
  let ?b = "b\<lparr>buf_size := buf_size b + n\<rparr>"
  have le: "buf_size b + n \<le> mx"
    using within_le [OF Cons.prems(3), of "ms @ [n]" ns] Cons.prems(4) by (simp add: ac_simps)
  have "dfk_http_request_on_header_field env mx p (buf_data b + buf_size b) n = Some (0, p\<lparr>cheader_field := ?b\<rparr>)"
    using Cons.prems(1,2,5) le by (simp add: dfk_http_request_on_header_field_def dfk_buf_append_def field_limit_def Let_def not_less)
  moreover have "run_callbacks env mx (p\<lparr>cheader_field := ?b\<rparr>) (in_pieces Field (buf_data ?b + buf_size ?b) ns @ cs)
      = run_callbacks env mx (p\<lparr>cheader_field := ?b\<lparr>buf_size := buf_size ?b + sum_list ns\<rparr>\<rparr>) cs"
    using Cons.IH [of "p\<lparr>cheader_field := ?b\<rparr>" ?b "ms @ [n]"] Cons.prems by (simp add: ac_simps)
  ultimately show ?case by (simp add: ac_simps)
qed

lemma run_url_pieces:
  assumes "buf_data b \<noteq> NULL"
  shows "req_url (hp_req p) = b \<Longrightarrow> within mx (ms @ ns) \<Longrightarrow> buf_size b = sum_list ms \<Longrightarrow>
    run_callbacks env mx p (in_pieces Url (buf_data b + buf_size b) ns @ cs)
      = run_callbacks env mx (p\<lparr>hp_req := (hp_req p)\<lparr>req_url := b\<lparr>buf_size := buf_size b + sum_list ns\<rparr>\<rparr>\<rparr>) cs"
  using assms
proof (induction ns arbitrary: b p ms)
  case Nil
  then have "p\<lparr>hp_req := (hp_req p)\<lparr>req_url := b\<lparr>buf_size := buf_size b + 0\<rparr>\<rparr>\<rparr> = p" by (cases b; cases p; cases "hp_req p") auto
  then show ?case by simp
next
  case (Cons n ns)
  let ?b = "b\<lparr>buf_size := buf_size b + n\<rparr>" let ?p = "p\<lparr>hp_req := (hp_req p)\<lparr>req_url := b\<lparr>buf_size := buf_size b + n\<rparr>\<rparr>\<rparr>"
  have le: "buf_size b + n \<le> mx"
    using within_le [OF Cons.prems(2), of "ms @ [n]" ns] Cons.prems(3) by (simp add: ac_simps)
  have "dfk_http_request_on_url mx p (buf_data b + buf_size b) n = Some (0, ?p)"
    using Cons.prems(1,4) le by (simp add: dfk_http_request_on_url_def dfk_buf_append_def Let_def not_less)
  moreover have "run_callbacks env mx ?p (in_pieces Url (buf_data ?b + buf_size ?b) ns @ cs)
      = run_callbacks env mx (p\<lparr>hp_req := (hp_req p)\<lparr>req_url := ?b\<lparr>buf_size := buf_size ?b + sum_list ns\<rparr>\<rparr>\<rparr>) cs"
    using Cons.IH [of ?p ?b "ms @ [n]"] Cons.prems by (simp add: ac_simps)
  ultimately show ?case by (simp add: ac_simps)
qed

text \<open>
  Between two lines either no line has been begun, or the last one is complete and waits to be flushed. \<open>kvs\<close> are the
  lines so far, \<open>n\<close> is the room the arena will have when all of them are in the map, \<open>ms\<close> are other maps.
\<close>

definition between ::
  "dfk_env \<Rightarrow> nat \<Rightarrow> map_value list \<Rightarrow> ('p, 'o) header_parser \<Rightarrow> ('p, 'o) header_parser \<Rightarrow> (byte list \<times> byte list) list \<Rightarrow> bool" where
  "between env n ms p0 p kvs \<longleftrightarrow> hp_errno p = dfk_err_ok \<and> same_but_maps (hp_world p0) (hp_world p)
     \<and> hp_req p = (hp_req p0)\<lparr>req_headers := req_headers (hp_req p)\<rparr>
     \<and> (if buf_data (cheader_value p) = NULL
        then kvs = [] \<and> cheader_field p = no_buf \<and> maps_ok env (hp_world p) n ((req_headers (hp_req p), Map.empty) # ms)
        else \<exists>kvs0 k v. kvs = kvs0 @ [(k, v)] \<and> buffer_has (hw_heap (hp_world p)) (cheader_field p) k
          \<and> buffer_has (hw_heap (hp_world p)) (cheader_value p) v
          \<and> maps_ok env (hp_world p) (64 + n) ((req_headers (hp_req p), lifted (map_of kvs0)) # ms))"

lemma flush_header_ok:
  assumes "between env n ms p0 p kvs" "buf_data (cheader_value p) \<noteq> NULL" "keys_ok (fst ` set kvs)"
  shows "\<exists>p'. dfk__http_request_flush_header env p = Some (0, p') \<and> hp_errno p' = dfk_err_ok
    \<and> same_but_maps (hp_world p0) (hp_world p') \<and> hp_req p' = (hp_req p0)\<lparr>req_headers := req_headers (hp_req p')\<rparr>
    \<and> cheader_value p' = cheader_value p \<and> cheader_field p' = cheader_field p
    \<and> maps_ok env (hp_world p') n ((req_headers (hp_req p'), lifted (map_of kvs)) # ms)"
proof -
  obtain kvs0 k v where kv: "kvs = kvs0 @ [(k, v)]" "buffer_has (hw_heap (hp_world p)) (cheader_field p) k"
      "buffer_has (hw_heap (hp_world p)) (cheader_value p) v"
      "maps_ok env (hp_world p) (64 + n) ((req_headers (hp_req p), lifted (map_of kvs0)) # ms)"
    and b: "hp_errno p = dfk_err_ok" "same_but_maps (hp_world p0) (hp_world p)" "hp_req p = (hp_req p0)\<lparr>req_headers := req_headers (hp_req p)\<rparr>"
    using assms(1,2) by (auto simp: between_def)
  have "keys_ok (insert k (dom (lifted (map_of kvs0))))" using assms(3) by (simp add: kv(1) dom_map_of_conv_image_fst)
  from world_put_ok [OF kv(4) this, of "Some v"] obtain w smap where
    w: "world_put env (hp_world p) (req_headers (hp_req p)) k (Some v) = Some (True, w, smap)"
      "maps_ok env w n ((smap, put_first k (Some v) (lifted (map_of kvs0))) # ms)" "same_but_maps (hp_world p) w" by blast
  have "put_first k (Some v) (lifted (map_of kvs0)) = lifted (map_of kvs)" by (simp add: put_first_lifted put_first_map_of kv(1))
  moreover have "(hp_req p)\<lparr>req_headers := smap\<rparr> = (hp_req p0)\<lparr>req_headers := smap\<rparr>"
    by (subst b(3)) simp
  ultimately show ?thesis
    using w buffer_has_load [OF kv(2)] buffer_has_load [OF kv(3)] b(1) same_but_maps_trans [OF b(2) w(3)]
    by (intro exI [of _ "p\<lparr>hp_world := w, hp_req := (hp_req p)\<lparr>req_headers := smap\<rparr>\<rparr>"])
      (simp add: dfk__http_request_flush_header_def bytes_of_def)
qed

lemma run_line:
  assumes b: "between env (64 + n) ms p0 p kvs" and h: "line_ok mx h" "line_at (hw_heap (hp_world p0)) h kv"
    and keys: "keys_ok (fst ` set kvs)"
  shows "\<exists>p'. run_callbacks env mx p (header_callbacks h @ cs) = run_callbacks env mx p' cs \<and> between env n ms p0 p' (kvs @ [kv])"
proof -
  obtain k0 ns where fs: "h_field_sizes h = k0 # ns" using h by (cases "h_field_sizes h") (auto simp: line_ok_def)
  obtain k ks where vs: "h_value_sizes h = k # ks" using h by (cases "h_value_sizes h") (auto simp: line_ok_def)
  let ?f = "\<lparr>buf_data = h_field h, buf_size = k0\<rparr>" and ?v = "\<lparr>buf_data = h_value h, buf_size = k\<rparr>"
  have w: "within mx ([k0] @ ns)" "within mx ([k] @ ks)"
    using h fs vs by (simp_all add: line_ok_def)
  have n: "k0 \<le> mx" "k \<le> mx"
    using within_le [OF w(1), of "[k0]" ns] within_le [OF w(2), of "[k]" ks] by simp_all
  have nn: "h_field h \<noteq> NULL" "h_value h \<noteq> NULL" using h(2) buffer_has_not_NULL by (fastforce simp: line_at_def)+
  have kvs: "(if buf_data (cheader_value p) = NULL then kvs = [] else True)" using b by (simp add: between_def)
  obtain p1 where p1: "dfk_http_request_on_header_field env mx p (h_field h) k0 = Some (0, p1)"
    "cheader_field p1 = ?f" "buf_data (cheader_value p1) = NULL" "hp_errno p1 = dfk_err_ok"
    "same_but_maps (hp_world p0) (hp_world p1)" "hp_req p1 = (hp_req p0)\<lparr>req_headers := req_headers (hp_req p1)\<rparr>"
    "maps_ok env (hp_world p1) (64 + n) ((req_headers (hp_req p1), lifted (map_of kvs)) # ms)"
  proof (cases "buf_data (cheader_value p) = NULL")
    case True
    then show ?thesis using that [of "p\<lparr>cheader_field := ?f\<rparr>"] b n(1)
      by (simp add: between_def dfk_http_request_on_header_field_def dfk_buf_append_def field_limit_def not_less)
  next
    case False
    obtain p' where "dfk__http_request_flush_header env p = Some (0, p')" "hp_errno p' = dfk_err_ok"
        "same_but_maps (hp_world p0) (hp_world p')" "hp_req p' = (hp_req p0)\<lparr>req_headers := req_headers (hp_req p')\<rparr>"
        "maps_ok env (hp_world p') (64 + n) ((req_headers (hp_req p'), lifted (map_of kvs)) # ms)"
      using flush_header_ok [OF b False keys] by blast
    then show ?thesis using that [of "p'\<lparr>cheader_value := (cheader_value p')\<lparr>buf_data := NULL\<rparr>, cheader_field := ?f\<rparr>"] False n(1)
      by (simp add: dfk_http_request_on_header_field_def field_limit_def not_less Let_def)
  qed
  let ?p2 = "p1\<lparr>cheader_field := ?f\<lparr>buf_size := k0 + sum_list ns\<rparr>\<rparr>"
  have r2: "run_callbacks env mx p1 (in_pieces Field (h_field h + k0) ns @ ds) = run_callbacks env mx ?p2 ds" for ds
    using run_field_pieces [of ?f p1 mx "[k0]" ns env ds] p1(2,3) w(1) nn by simp
  let ?p3 = "?p2\<lparr>cheader_value := ?v\<rparr>"
  have r3: "dfk_http_request_on_header_value mx ?p2 (h_value h) k = Some (0, ?p3)"
    using p1(3) n(2) by (simp add: dfk_http_request_on_header_value_def not_less Let_def)
  let ?p4 = "?p3\<lparr>cheader_value := ?v\<lparr>buf_size := k + sum_list ks\<rparr>\<rparr>"
  have r4: "run_callbacks env mx ?p3 (in_pieces Value (h_value h + k) ks @ cs) = run_callbacks env mx ?p4 cs"
    using run_value_pieces [of ?v ?p3 mx "[k]" ks env cs] w(2) nn by simp
  have "run_callbacks env mx p (header_callbacks h @ cs) = run_callbacks env mx ?p4 cs"
    using p1(1) r2 r3 r4 fs vs by (simp add: header_callbacks_def)
  moreover have "between env n ms p0 ?p4 (kvs @ [kv])"
  proof -
    have heap: "hw_heap (hp_world p1) = hw_heap (hp_world p0)" using p1(5) by (simp add: same_but_maps_def)
    show ?thesis using p1(4-7) nn h(2) fs vs
      unfolding between_def by (cases kv) (simp add: line_at_def heap)
  qed
  ultimately show ?thesis by blast
qed

lemma run_lines:
  "between env (64 * length hs + n) ms p0 p kvs0 \<Longrightarrow> list_all (line_ok mx) hs \<Longrightarrow>
    list_all2 (line_at (hw_heap (hp_world p0))) hs kvs \<Longrightarrow> keys_ok (fst ` set (kvs0 @ kvs)) \<Longrightarrow>
    \<exists>p'. run_callbacks env mx p (concat (map header_callbacks hs) @ cs) = run_callbacks env mx p' cs
      \<and> between env n ms p0 p' (kvs0 @ kvs)"
proof (induction hs arbitrary: p kvs0 kvs)
  case Nil
  then show ?case by auto
next
  case (Cons h hs)
  obtain kv kvs' where kvs: "kvs = kv # kvs'" "line_at (hw_heap (hp_world p0)) h kv" "list_all2 (line_at (hw_heap (hp_world p0))) hs kvs'"
    using Cons.prems(3) by (auto simp: list_all2_Cons1)
  have b: "between env (64 + (64 * length hs + n)) ms p0 p kvs0" using Cons.prems(1) by (simp add: algebra_simps)
  have k0: "keys_ok (fst ` set kvs0)" by (rule keys_ok_mono [OF Cons.prems(4)]) auto
  have lo: "line_ok mx h" "list_all (line_ok mx) hs" using Cons.prems(2) by simp_all
  obtain p1 where p1: "run_callbacks env mx p (header_callbacks h @ concat (map header_callbacks hs) @ cs)
      = run_callbacks env mx p1 (concat (map header_callbacks hs) @ cs)" "between env (64 * length hs + n) ms p0 p1 (kvs0 @ [kv])"
    using run_line [OF b lo(1) kvs(2) k0] by blast
  have k1: "keys_ok (fst ` set ((kvs0 @ [kv]) @ kvs'))" using Cons.prems(4) kvs(1) by simp
  show ?case using Cons.IH [OF p1(2) lo(2) kvs(3) k1] p1(1) kvs(1) by simp
qed

text \<open>All lines and the end of the header.\<close>

lemma run_header:
  assumes "maps_ok env (hp_world p0) (64 * length hs + n) ((req_headers (hp_req p0), Map.empty) # ms)"
    and "cheader_field p0 = no_buf" "cheader_value p0 = no_buf" "hp_errno p0 = dfk_err_ok"
    and "list_all (line_ok mx) hs" "list_all2 (line_at (hw_heap (hp_world p0))) hs kvs" "keys_ok (fst ` set kvs)"
  shows "\<exists>p. run_callbacks env mx p0 (concat (map header_callbacks hs) @ [Headers_complete]) = Some (0, p)
    \<and> hp_errno p = dfk_err_ok \<and> same_but_maps (hp_world p0) (hp_world p)
    \<and> hp_req p = (hp_req p0)\<lparr>req_headers := req_headers (hp_req p)\<rparr>
    \<and> maps_ok env (hp_world p) n ((req_headers (hp_req p), lifted (map_of kvs)) # ms)"
proof -
  have "between env (64 * length hs + n) ms p0 p0 []" using assms(1-4) by (simp add: between_def)
  from run_lines [OF this assms(5,6), of "[Headers_complete]"] assms(7) obtain p where
    p: "run_callbacks env mx p0 (concat (map header_callbacks hs) @ [Headers_complete]) = run_callbacks env mx p [Headers_complete]"
      "between env n ms p0 p kvs" by auto
  show ?thesis
  proof (cases "buf_data (cheader_value p) = NULL")
    case True
    then show ?thesis using p by (auto simp: between_def dfk_http_request_on_headers_complete_def)
  next
    case False
    then have f: "buf_data (cheader_field p) \<noteq> NULL" using p(2) buffer_has_not_NULL by (auto simp: between_def)
    obtain p' where "dfk__http_request_flush_header env p = Some (0, p')" "hp_errno p' = dfk_err_ok"
        "same_but_maps (hp_world p0) (hp_world p')" "hp_req p' = (hp_req p0)\<lparr>req_headers := req_headers (hp_req p')\<rparr>"
        "maps_ok env (hp_world p') n ((req_headers (hp_req p'), lifted (map_of kvs)) # ms)"
      using flush_header_ok [OF p(2) False assms(7)] by blast
    with f False show ?thesis unfolding p(1) by (simp add: dfk_http_request_on_headers_complete_def)
  qed
qed

text \<open>Reading a query that is in memory outside the arena.\<close>

lemma range_apart:
  assumes "fits p m" "fits q n" "range_of p m \<inter> range_of q n = {}" "0 < m" "0 < n"
  shows "unat q + n \<le> unat p \<or> unat p + m \<le> unat q"
proof (rule ccontr)
  assume "\<not> ?thesis"
  then have "max (unat p) (unat q) < unat p + m" "max (unat p) (unat q) < unat q + n" using assms(4,5) by auto
  then have "(if unat q \<le> unat p then p else q) \<in> range_of p m \<inter> range_of q n"
    using range_of_unat [OF assms(1)] range_of_unat [OF assms(2)] by auto
  then show False using assms(3) by auto
qed

lemma read_query_ok:
  assumes ms: "maps_ok env w (length xs + (64 * length (fst (query_spec d)) + n)) ((req_arguments req, Map.empty) # ms)"
    and q: "bytes_at (mem_bytes (hw_heap w)) (buf_data (req_query req)) xs" "buf_size (req_query req) = of_nat (length xs)" "xs \<noteq> []"
    and far: "away w (buf_data (req_query req)) (length xs)" "fits (buf_data (req_query req)) (length xs + 2)"
    and d: "pct_decode xs = (d, r)" and keys: "keys_ok (fst ` set (fst (query_spec d)))"
  shows "\<exists>req' w'. read_query env req w = Some (if r = [] \<and> snd (query_spec d) then dfk_err_ok else dfk_err_protocol, req', w')
    \<and> maps_ok env w' n ((req_arguments req', lifted (if r = [] then map_of (fst (query_spec d)) else Map.empty)) # ms)
    \<and> req' = req\<lparr>req_arguments := req_arguments req'\<rparr>
    \<and> hw_lists w' = hw_lists w \<and> hw_bufs w' = hw_bufs w \<and> hw_arena w' = hw_arena w \<and> hw_ctx w' = hw_ctx w \<and> hw_os w' = hw_os w
    \<and> mem_blocks (hw_heap w') = mem_blocks (hw_heap w) \<and> dom (mem_bytes (hw_heap w')) = dom (mem_bytes (hw_heap w))"
proof -
  have len: "length xs < 2 ^ 64" "length r \<le> length xs" "length d \<le> length xs"
    using bytes_at_fits [OF q(1)] pct_decode_len [OF d] by (auto simp: fits_def)
  have un: "unat (buf_size (req_query req)) = length xs" using q(2) len(1) by (simp add: unat_of_nat_addr)
  have nz: "buf_size (req_query req) \<noteq> 0" using un q(3) by auto
  have "maps_ok env w (unat (buf_size (req_query req)) + (64 * length (fst (query_spec d)) + n)) ((req_arguments req, Map.empty) # ms)"
    using ms un by simp
  from world_alloc_ok [OF this nz] obtain w1 p where
    a: "world_alloc env w (buf_size (req_query req)) = Some (w1, p)" "p \<noteq> NULL"
      "maps_ok env w1 (64 * length (fst (query_spec d)) + n) ((req_arguments req, Map.empty) # ms)" "same_but_maps w w1"
      "allocated (mem_bytes (hw_heap w1)) p (length xs)"
      "range_of (buf_data (req_query req)) (length xs) \<inter> range_of p (length xs) = {}"
    using far(1) un by metis
  have heap: "hw_heap w1 = hw_heap w" using a(4) by (simp add: same_but_maps_def)
  have "fits p (length xs)" using a(5) by (simp add: allocated_def)
  then have out: "out_clear (buf_data (req_query req)) (length xs) p"
    using range_apart [OF bytes_at_fits [OF q(1)] _ a(6)] q(3) by (auto simp: out_clear_def)
  obtain m' where dec: "dfk_urldecode (mem_bytes (hw_heap w1)) (buf_data (req_query req)) (buf_size (req_query req)) p
      = Some (m', of_nat (length d), of_nat (length xs - length r))" "bytes_at m' p d" "same_outside (range_of p (length d)) (mem_bytes (hw_heap w1)) m'"
    using urldecode_spec [OF q(1) d allocated_mono [OF a(5) [unfolded heap] len(3)] out far(2)] q(2) heap by auto
  have dm: "dom m' = dom (mem_bytes (hw_heap w1))" using dec(3) by (simp add: same_outside_def)
  have "(of_nat (length xs - length r) :: size_t) = of_nat (length xs) \<longleftrightarrow> length xs - length r = length xs"
    using len by (intro of_nat_size_eq_iff) auto
  then have eq: "of_nat (length xs - length r) = buf_size (req_query req) \<longleftrightarrow> r = []"
    unfolding q(2) using q(3) len(2) by (cases r) (auto simp del: of_nat_diff)
  have "unat (of_nat (length d) :: size_t) = length d" using len by (intro unat_of_nat_addr) simp
  then have ld: "load_bytes m' p (unat (of_nat (length d) :: size_t)) = Some d" using load_bytes_at [OF dec(2)] by simp
  let ?w = "with_heap w1 ((hw_heap w1)\<lparr>mem_bytes := m'\<rparr>)"
  have ms2: "maps_ok env ?w (64 * length (fst (query_spec d)) + n) ((req_arguments req, Map.empty) # ms)"
    by (rule maps_ok_bytes [OF a(3)]) (simp_all add: dm)
  have rq: "req = req\<lparr>req_arguments := req_arguments req\<rparr>" by simp
  show ?thesis
  proof (cases "r = []")
    case False
    then show ?thesis
      using nz a(1,2,4) dec(1) eq maps_ok_mono [OF ms2, of n] rq dm
      by (intro exI [of _ req] exI [of _ ?w]) (auto simp: read_query_def with_heap_def same_but_maps_def)
  next
    case True
    have "arguments_ok env ?w (64 * length (fst (query_spec d)) + n) ms req Map.empty" using ms2 by (simp add: arguments_ok_def)
    from parse_query_spec [OF this] keys obtain req' w' where
      p: "parse_query env d req ?w = Some (if snd (query_spec d) then dfk_err_ok else dfk_err_protocol, req', w')"
        "args_done env n ms req ?w (map_of (fst (query_spec d))) req' w'"
      by auto
    have "read_query env req w = parse_query env d req ?w" using nz a(1,2) dec(1) eq True ld by (simp add: read_query_def Let_def)
    then show ?thesis using p a(4) True dm unfolding args_done_def arguments_ok_def
      by (intro exI [of _ req'] exI [of _ w']) (auto simp: same_but_maps_def with_heap_def)
  qed
qed

section \<open>Properties\<close>

text \<open>
  C15. Header lines are put together from pieces: however the HTTP parser cuts names and values of the lines of a
  request that is in memory, as long as the pieces of each are contiguous and add up to no more than the size limit, the request's arena has
  room for 64 bytes per line, and the names are not empty, contain no zero byte and none is a proper prefix of another, the
  callbacks accept all of them, and looking up a name in the header map then gives the value of the first line of that
  name, or the null buffer when there is none. The name looked up may not be a proper prefix of one of the names either, nor the other way
  round: with both \<^verbatim>\<open>Accept\<close> and \<^verbatim>\<open>Accept-Encoding\<close> the map confuses the two.
\<close>

theorem headers_reassembled:
  assumes "maps_ok env w (64 * length hs + n) ((req_headers req, Map.empty) # ms)"
    and "list_all (line_ok mx) hs" "list_all2 (line_at (hw_heap w)) hs kvs" "keys_ok (fst ` set kvs)"
  shows "\<exists>p. run_callbacks env mx (no_headers req w) (concat (map header_callbacks hs) @ [Headers_complete]) = Some (0, p)
    \<and> hp_errno p = dfk_err_ok
    \<and> (\<forall>k. keys_ok (insert k (fst ` set kvs)) \<longrightarrow> world_get (hp_world p) (req_headers (hp_req p)) k = Some (map_of kvs k))"
proof -
  have p0: "maps_ok env (hp_world (no_headers req w)) (64 * length hs + n) ((req_headers (hp_req (no_headers req w)), Map.empty) # ms)"
      "list_all2 (line_at (hw_heap (hp_world (no_headers req w)))) hs kvs"
      "cheader_field (no_headers req w) = no_buf" "cheader_value (no_headers req w) = no_buf" "hp_errno (no_headers req w) = dfk_err_ok"
    using assms by (simp_all add: no_headers_def)
  obtain p where "run_callbacks env mx (no_headers req w) (concat (map header_callbacks hs) @ [Headers_complete]) = Some (0, p)"
      "hp_errno p = dfk_err_ok" and m: "maps_ok env (hp_world p) n ((req_headers (hp_req p), lifted (map_of kvs)) # ms)"
    using run_header [OF p0(1,3-5) assms(2) p0(2) assms(4)] by auto
  moreover have "world_get (hp_world p) (req_headers (hp_req p)) k = Some (map_of kvs k)" if "keys_ok (insert k (fst ` set kvs))" for k
    using world_get_ok [OF m, of k] that by (simp add: dom_map_of_conv_image_fst)
  ultimately show ?thesis by blast
qed

text \<open>A request without anything.\<close>

definition blank_request :: "dfk_strmap_t \<Rightarrow> 'p \<Rightarrow> 'p dfk_http_request_t" where
  "blank_request smap parser = \<lparr>req_major_version = 0, req_minor_version = 0, req_method = 0, req_url = no_buf, req_path = no_buf,
     req_query = no_buf, req_fragment = no_buf, req_host = None, req_user_agent = None, req_accept = None, req_content_type = None,
     req_content_length = -1, req_keepalive = False, req_chunked = False, req_headers = smap, req_arguments = smap,
     req_socket = \<lparr>t_socket = 3\<rparr>, req_buffers = \<lparr>list_head = NULL, list_tail = NULL, list_size = 0\<rparr>, req_remainder = [],
     req_body_nread = 0, req_parser = parser\<rparr>"

text \<open>The lines \<^verbatim>\<open>Host: ab\<close> and \<^verbatim>\<open>Accept: c\<close>, in pieces.\<close>

definition sample_lines :: "byte list" where
  "sample_lines = str ''Host: ab'' @ [13, 10] @ str ''Accept: c'' @ [13, 10]"

definition sample_header :: "header_line list" where
  "sample_header = [\<lparr>h_field = 0x2000000000, h_field_sizes = [2, 2], h_value = 0x2000000006, h_value_sizes = [2]\<rparr>,
     \<lparr>h_field = 0x200000000A, h_field_sizes = [6], h_value = 0x2000000012, h_value_sizes = [1]\<rparr>]"

lemma bytes_at_sub:
  assumes "bytes_at m p xs" "n \<le> length xs" "k \<le> length xs - n"
  shows "bytes_at m (p + of_nat n) (take k (drop n xs))"
proof -
  have "take n xs @ take k (drop n xs) @ drop k (drop n xs) = xs" by (simp only: append_take_drop_id)
  then have "bytes_at m p (take n xs @ take k (drop n xs) @ drop k (drop n xs))" using assms(1) by (simp only:)
  then have "bytes_at m (p + of_nat (length (take n xs))) (take k (drop n xs))" unfolding bytes_at_append by blast
  then show ?thesis using assms(2) by simp
qed

lemma sample_header_at:
  assumes "bytes_at (mem_bytes m) 0x2000000000 sample_lines"
  shows "list_all2 (line_at m) sample_header [(str ''Host'', str ''ab''), (str ''Accept'', str ''c'')]"
proof -
  have l: "length sample_lines = 21" by (simp add: sample_lines_def str_def)
  note b = bytes_at_sub [OF assms, unfolded l]
  show ?thesis
    using b [of 0 4] b [of 6 2] b [of 10 6] b [of 18 1]
    by (simp add: sample_header_def line_at_def buffer_has_def sample_lines_def str_def)
qed

lemma sample_lines_fit: "fits 0x2000000000 (length sample_lines)"
  by (simp add: fits_def sample_lines_def str_def)

theorem headers_reassembled_witness:
  "\<exists>req w p. run_callbacks small_env 8192 (no_headers req w)
      [Field 0x2000000000 2, Field 0x2000000002 2, Value 0x2000000006 2, Field 0x200000000A 6, Value 0x2000000012 1, Headers_complete]
      = Some (0, p)
    \<and> world_get (hp_world p) (req_headers (hp_req (p :: (unit, kernel) header_parser))) (str ''Accept'') = Some (Some (str ''c''))"
proof -
  obtain st arena smap where w: "maps_ok small_env (with_text (world_of st arena) 0x2000000000 sample_lines) 40000 [(smap, Map.empty), (smap, Map.empty)]"
      "bytes_at (mem_bytes (hw_heap (with_text (world_of st arena) 0x2000000000 sample_lines))) 0x2000000000 sample_lines"
    by (rule small_world_text [OF sample_lines_fit]) blast
  let ?w = "with_text (world_of st arena) 0x2000000000 sample_lines" and ?kvs = "[(str ''Host'', str ''ab''), (str ''Accept'', str ''c'')]"
  have m: "maps_ok small_env ?w (64 * length sample_header + 39872) ((req_headers (blank_request smap ()), Map.empty) # [(smap, Map.empty)])"
    using w(1) by (simp add: sample_header_def blank_request_def)
  have l: "list_all (line_ok 8192) sample_header" by (simp add: sample_header_def line_ok_def within_def)
  have k: "keys_ok (fst ` set ?kvs)" by (simp add: keys_ok_def str_def)
  have k2: "keys_ok (insert (str ''Accept'') (fst ` set ?kvs))" by (simp add: keys_ok_def str_def)
  have c: "concat (map header_callbacks sample_header) @ [Headers_complete]
      = [Field 0x2000000000 2, Field 0x2000000002 2, Value 0x2000000006 2, Field 0x200000000A 6, Value 0x2000000012 1, Headers_complete]"
    by (simp add: sample_header_def header_callbacks_def)
  have v: "map_of ?kvs (str ''Accept'') = Some (str ''c'')" by (simp add: str_def)
  from headers_reassembled [OF m l sample_header_at [OF w(2)] k] show ?thesis unfolding c using k2 v by metis
qed

text \<open>
  C14. The arguments of a request: for a query in memory outside the request's arena, with room in the arena for its decoded form and
  64 bytes per argument, and with keys that are not empty, contain no zero byte and of which none is a proper prefix of another, the code
  returns, without a failed assertion. A malformed percent sequence is a protocol error, and so is a query that
  is not complete; otherwise looking up a key, which may not be a prefix of one of the others either, gives what the reference says of the decoded
  query: the value of the first pair with this key, or the null buffer. If the query decodes to the query string of a list
  of pairs, with keys that contain no equals sign behind their first byte and values that contain no ampersand behind theirs, and none of
  them empty, then the code returns success and looking up a key gives the value of its first pair.
\<close>

theorem query_read_correct:
  assumes "maps_ok env w (length xs + 64 * length (fst (query_spec d))) ((req_arguments req, Map.empty) # ms)"
    and "bytes_at (mem_bytes (hw_heap w)) (buf_data (req_query req)) xs" "buf_size (req_query req) = of_nat (length xs)" "xs \<noteq> []"
    and "away w (buf_data (req_query req)) (length xs)" "fits (buf_data (req_query req)) (length xs + 2)"
    and "pct_decode xs = (d, r)" "keys_ok (fst ` set (fst (query_spec d)))"
  shows "\<exists>req' w'. read_query env req w = Some (if r = [] \<and> snd (query_spec d) then dfk_err_ok else dfk_err_protocol, req', w')
    \<and> (r = [] \<longrightarrow> (\<forall>k. keys_ok (insert k (fst ` set (fst (query_spec d)))) \<longrightarrow>
        world_get w' (req_arguments req') k = Some (map_of (fst (query_spec d)) k)))
    \<and> (r = [] \<and> d = query_string ps \<and> list_all plain_pair ps \<longrightarrow> read_query env req w = Some (dfk_err_ok, req', w')
        \<and> (\<forall>k. keys_ok (insert k (fst ` set ps)) \<longrightarrow> world_get w' (req_arguments req') k = Some (map_of ps k)))"
proof -
  obtain req' w' where q: "read_query env req w = Some (if r = [] \<and> snd (query_spec d) then dfk_err_ok else dfk_err_protocol, req', w')"
      and m: "maps_ok env w' 0 ((req_arguments req', lifted (if r = [] then map_of (fst (query_spec d)) else Map.empty)) # ms)"
    using read_query_ok [of env w xs d 0 req ms r] assms by auto
  have "world_get w' (req_arguments req') k = Some (map_of (fst (query_spec d)) k)"
    if "r = []" "keys_ok (insert k (fst ` set (fst (query_spec d))))" for k
    using world_get_ok [OF m, of k] that by (simp add: dom_map_of_conv_image_fst)
  with q show ?thesis using query_spec_string [of ps] by (intro exI [of _ req'] exI [of _ w']) auto
qed

text \<open>The query \<^verbatim>\<open>a=1%26b=2\<close>, whose encoded ampersand separates two arguments.\<close>

definition sample_query :: "byte list" where
  "sample_query = [97, 61, 49, 37, 50, 54, 98, 61, 50]"

theorem query_read_correct_witness:
  "\<exists>req w req' w'. buf_size (req_query req) = 9 \<and> load_buf (hw_heap w) (req_query req) = Some (Some sample_query)
    \<and> read_query small_env req w = Some (dfk_err_ok, req', w')
    \<and> world_get (w' :: kernel http_world) (req_arguments (req' :: unit dfk_http_request_t)) [98] = Some (Some [50])"
proof -
  have len: "length sample_query = 9" by (simp add: sample_query_def)
  have f: "fits 0x2000000000 (length sample_query)" by (simp add: fits_def len)
  obtain st arena smap where w: "maps_ok small_env (with_text (world_of st arena) 0x2000000000 sample_query) 40000 [(smap, Map.empty), (smap, Map.empty)]"
      "bytes_at (mem_bytes (hw_heap (with_text (world_of st arena) 0x2000000000 sample_query))) 0x2000000000 sample_query"
      "away (with_text (world_of st arena) 0x2000000000 sample_query) 0x2000000000 (length sample_query)"
    by (rule small_world_text [OF f]) (use len in simp)
  let ?w = "with_text (world_of st arena) 0x2000000000 sample_query"
  let ?req = "(blank_request smap ())\<lparr>req_query := \<lparr>buf_data = 0x2000000000, buf_size = 9\<rparr>\<rparr>"
  have d: "pct_decode sample_query = ([97, 61, 49, 38, 98, 61, 50], [])" by code_simp
  have q: "query_spec [97, 61, 49, 38, 98, 61, 50] = ([([97], [49]), ([98], [50])], True)" by (simp add: Let_def)
  have m: "maps_ok small_env ?w (length sample_query + 64 * length (fst (query_spec [97, 61, 49, 38, 98, 61, 50])))
      ((req_arguments ?req, Map.empty) # [(smap, Map.empty)])"
    using maps_ok_mono [OF w(1)] by (simp add: q len blank_request_def)
  have k: "keys_ok (fst ` set (fst (query_spec [97, 61, 49, 38, 98, 61, 50])))"
      "keys_ok (insert [98] (fst ` set (fst (query_spec [97, 61, 49, 38, 98, 61, 50]))))"
    by (simp_all add: q keys_ok_def)
  have h: "bytes_at (mem_bytes (hw_heap ?w)) (buf_data (req_query ?req)) sample_query" "buf_size (req_query ?req) = of_nat (length sample_query)"
      "sample_query \<noteq> []" "away ?w (buf_data (req_query ?req)) (length sample_query)" "fits (buf_data (req_query ?req)) (length sample_query + 2)"
    using w(2,3) len by (auto simp: fits_def)
  have ld: "load_buf (hw_heap ?w) (req_query ?req) = Some (Some sample_query)"
    by (rule buffer_has_load) (use w(2) len in \<open>simp add: buffer_has_def\<close>)
  from query_read_correct [OF m h d k(1), of "[([97], [49]), ([98], [50])]"] obtain req' w' where
    "read_query small_env ?req ?w = Some (dfk_err_ok, req', w')" "world_get w' (req_arguments req') [98] = Some (Some [50])"
    using k(2) unfolding q by auto
  with ld show ?thesis by (intro exI [of _ ?req] exI [of _ ?w] exI [of _ req'] exI [of _ w']) simp
qed

text \<open>
  Three queries that are read in an unexpected way: an empty value swallows the separator and the argument
  behind it, an empty value at the end is a protocol error, and an ampersand that was percent-encoded in a value
  separates arguments.
\<close>

theorem query_quirks:
  assumes "arguments_ok env w 128 ms req Map.empty"
  shows "(\<exists>req' w'. parse_query env [97, 61, 38, 98, 61, 49] req w = Some (dfk_err_ok, req', w')
      \<and> world_get w' (req_arguments req') [97] = Some (Some [38, 98, 61, 49]))
    \<and> (\<exists>req' w'. parse_query env [97, 61] req w = Some (dfk_err_protocol, req', w'))
    \<and> pct_decode (97 # 61 # pct_encode [49, 38, 98, 61, 50]) = ([97, 61, 49, 38, 98, 61, 50], [])
    \<and> query_spec [97, 61, 49, 38, 98, 61, 50] = ([([97], [49]), ([98], [50])], True)"
proof -
  have 1: "pct_decode (97 # 61 # pct_encode [49, 38, 98, 61, 50]) = ([97, 61, 49, 38, 98, 61, 50], [])" by code_simp
  have 2: "query_spec [97, 61, 49, 38, 98, 61, 50] = ([([97], [49]), ([98], [50])], True)" by (simp add: Let_def)
  have 3: "query_spec [97, 61, 38, 98, 61, 49] = ([([97], [38, 98, 61, 49])], True)" "query_spec [97, 61] = ([], False)" by (simp_all add: Let_def)
  have o: "arguments_ok env w (64 * length (fst (query_spec [97, 61, 38, 98, 61, 49])) + 64) ms req Map.empty"
      "arguments_ok env w (64 * length (fst (query_spec [97, 61])) + 128) ms req Map.empty"
    using assms by (simp_all add: 3)
  obtain req' w' where p: "parse_query env [97, 61, 38, 98, 61, 49] req w = Some (dfk_err_ok, req', w')"
      "args_done env 64 ms req w [[97] \<mapsto> [38, 98, 61, 49]] req' w'"
    using parse_query_spec [OF o(1)] by (auto simp: 3 keys_ok_def)
  then have "world_get w' (req_arguments req') [97] = Some (Some [38, 98, 61, 49])"
    using world_get_ok [of env w' 64 "req_arguments req'" "lifted [[97] \<mapsto> [38, 98, 61, 49]]" ms "[97]"]
    by (simp add: args_done_def arguments_ok_def keys_ok_def)
  moreover obtain req2 w2 where "parse_query env [97, 61] req w = Some (dfk_err_protocol, req2, w2)"
    using parse_query_spec [OF o(2)] by (auto simp: 3 keys_ok_def)
  ultimately show ?thesis using 1 2 p(1) by blast
qed

end
