(* ===== verification/Dfk_Http_Body.thy ===== *)
theory Dfk_Http_Body
  imports Dfk_Http_Request
begin

text \<open>
  The body of a request: \<^verbatim>\<open>dfk_http_request_on_body\<close>, \<^verbatim>\<open>dfk_http_request_read\<close> and \<^verbatim>\<open>dfk_http_request_readv\<close> of
  \<^verbatim>\<open>src/http/request.c\<close>. The HTTP parser is a third-party library and a parameter: given its state and the bytes to
  parse, it says which pieces it passes to \<^verbatim>\<open>on_body\<close>, how many bytes it has parsed, whether it reports an error
  (an \<^verbatim>\<open>http_errno\<close> other than \<^verbatim>\<open>HPE_OK\<close> and \<^verbatim>\<open>HPE_PAUSED\<close>), and its next state.
\<close>

section \<open>Data\<close>

type_synonym 'p http_parser_execute = "'p \<Rightarrow> 8 word list \<Rightarrow> 8 word list list \<times> nat \<times> bool \<times> 'p"

text \<open>The caller's buffer: what has been written to it and the room left.\<close>

record body_parser_data =
  out_data :: "8 word list"
  out_size :: "64 word"

section \<open>Operations\<close>

definition dfk_http_request_on_body ::
  "body_parser_data \<times> 'p dfk_http_request_t \<Rightarrow> 8 word list \<Rightarrow> (body_parser_data \<times> 'p dfk_http_request_t) option" where
  "dfk_http_request_on_body st piece = (case st of (p, req) \<Rightarrow> do {
     c_assert (of_nat (length piece) \<le> out_size p);
     Some (p\<lparr>out_data := out_data p @ piece, out_size := out_size p - of_nat (length piece)\<rparr>,
           req\<lparr>req_body_nread := req_body_nread req + of_nat (length piece)\<rparr>)
   })"

fun on_body_all ::
  "8 word list list \<Rightarrow> body_parser_data \<times> 'p dfk_http_request_t \<Rightarrow> (body_parser_data \<times> 'p dfk_http_request_t) option" where
  "on_body_all [] st = Some st"
| "on_body_all (piece # pieces) st = do { st \<leftarrow> dfk_http_request_on_body st piece; on_body_all pieces st }"

text \<open>
  The loop runs the parser on cached bytes or on bytes it reads from the socket. The result of the read is kept in a
  \<^verbatim>\<open>size_t\<close>, so only 0 ends the loop; the error value \<open>-1\<close> becomes the largest size, and the parser would be run over
  memory that is not there.
\<close>

partial_function (option) request_read_loop ::
  "'p http_parser_execute \<Rightarrow> 'o os_ops \<Rightarrow> 'p dfk_http_request_t \<Rightarrow> body_parser_data \<Rightarrow> dfk_ctx \<Rightarrow> 'o
    \<Rightarrow> (int \<times> 8 word list \<times> 'p dfk_http_request_t \<times> dfk_ctx \<times> 'o) option" where
  "request_read_loop ex S req p c s =
     (if out_size p \<noteq> 0 \<and> (out_data p = [] \<or> req_remainder req \<noteq> []) then do {
        let toread = min (out_size p) (of_int (req_content_length req) - req_body_nread req);
        (nread, inbuf, c, s) \<leftarrow>
          (if req_remainder req \<noteq> [] then
             Some (1, take (unat (min toread (of_nat (length (req_remainder req))))) (req_remainder req), c, s)
           else dfk_tcp_socket_read S c (req_socket req) (unat toread) s);
        if nread = 0 then Some (0, out_data p, req, c, s)
        else do {
          c_assert (0 < nread);
          c_assert (inbuf \<noteq> []);
          let (pieces, nparsed, err, parser) = ex (req_parser req) inbuf;
          (p, req) \<leftarrow> on_body_all pieces (p, req\<lparr>req_parser := parser\<rparr>);
          if err then Some (err_code dfk_err_protocol, out_data p, req, c, s)
          else do {
            c_assert (nparsed \<le> length inbuf);
            let req = (if req_remainder req \<noteq> [] then req\<lparr>req_remainder := drop nparsed (req_remainder req)\<rparr> else req);
            request_read_loop ex S req p c s
          }
        }
      } else Some (int (length (out_data p)), out_data p, req, c, s))"

definition dfk_http_request_read ::
  "'p http_parser_execute \<Rightarrow> 'o os_ops \<Rightarrow> 'p dfk_http_request_t \<Rightarrow> bool \<Rightarrow> 64 word \<Rightarrow> dfk_ctx \<Rightarrow> 'o
    \<Rightarrow> (int \<times> 8 word list \<times> 'p dfk_http_request_t \<times> dfk_ctx \<times> 'o) option" where
  "dfk_http_request_read ex S req buf_null n c s =
     (if buf_null \<and> n \<noteq> 0 then Some (-1, [], req, c\<lparr>c_dfk_errno := dfk_err_badarg\<rparr>, s)
      else if req_content_length req = 0 \<and> \<not> req_chunked req
      then Some (-1, [], req, c\<lparr>c_dfk_errno := dfk_err_eof\<rparr>, s)
      else request_read_loop ex S req \<lparr>out_data = [], out_size = n\<rparr> c s)"

text \<open>The vectored read uses the first buffer only; without one it reads behind the end of the vector.\<close>

definition dfk_http_request_readv ::
  "'p http_parser_execute \<Rightarrow> 'o os_ops \<Rightarrow> 'p dfk_http_request_t \<Rightarrow> bool \<Rightarrow> 64 word list \<Rightarrow> dfk_ctx \<Rightarrow> 'o
    \<Rightarrow> (int \<times> 8 word list \<times> 'p dfk_http_request_t \<times> dfk_ctx \<times> 'o) option" where
  "dfk_http_request_readv ex S req iov_null iov c s =
     (if iov_null \<and> iov \<noteq> [] then Some (err_code dfk_err_badarg, [], req, c, s)
      else case iov of [] \<Rightarrow> None | n # rest \<Rightarrow> dfk_http_request_read ex S req False n c s)"

section \<open>What is relied on\<close>

text \<open>
  For a body of known length the parser passes all bytes on that belong to the body; \<open>left\<close> is the number of bytes of the body it
  still expects. The parser has stopped in front of the last byte of the header, the line feed of the empty line, when it
  reported the end of the header; it has still to be given that byte, and passes nothing on for it. \<open>pend\<close> is what it has still to be
  given in front of the body: this one byte at first, and nothing later. The socket delivers the bytes the peer has sent without
  errors, and none only at the end.
\<close>

definition passes_body :: "'p http_parser_execute \<Rightarrow> ('p \<Rightarrow> 8 word list) \<Rightarrow> ('p \<Rightarrow> nat) \<Rightarrow> bool" where
  "passes_body ex pend left \<longleftrightarrow> (\<forall>p inp. inp \<noteq> [] \<and> length inp \<le> length (pend p) + left p
       \<and> take (length (pend p)) inp = take (length inp) (pend p) \<longrightarrow>
     (\<exists>pieces p'. ex p inp = (pieces, length inp, False, p') \<and> concat pieces = drop (length (pend p)) inp
       \<and> pend p' = drop (length inp) (pend p) \<and> left p' = left p - (length inp - length (pend p))))"

definition delivers :: "'o os_ops \<Rightarrow> fd \<Rightarrow> ('o \<Rightarrow> 8 word list) \<Rightarrow> bool" where
  "delivers S fd inp \<longleftrightarrow> (\<forall>n s r bs s'. os_read S fd n s = (r, bs, s') \<longrightarrow>
     r = int (length bs) \<and> length bs \<le> n \<and> inp s = bs @ inp s' \<and> (bs = [] \<and> 0 < n \<longrightarrow> inp s = []))"

text \<open>
  A request in the middle of a body of \<open>n\<close> bytes: what the parser waits for in front of the body is in the cache. The bytes that
  are still to be read begin behind it; those of them that are in the cache are \<open>cached_bytes\<close>.
\<close>

definition body_at :: "('p \<Rightarrow> 8 word list) \<Rightarrow> ('p \<Rightarrow> nat) \<Rightarrow> nat \<Rightarrow> 'p dfk_http_request_t \<Rightarrow> bool" where
  "body_at pend left n req \<longleftrightarrow> req_content_length req = int n \<and> n < 2 ^ 63 \<and> unat (req_body_nread req) + left (req_parser req) = n
     \<and> length (req_remainder req) < 2 ^ 63
     \<and> take (length (pend (req_parser req))) (req_remainder req) = pend (req_parser req)"

definition cached_bytes :: "('p \<Rightarrow> 8 word list) \<Rightarrow> 'p dfk_http_request_t \<Rightarrow> 8 word list" where
  "cached_bytes pend req = drop (length (pend (req_parser req))) (req_remainder req)"

definition to_come :: "('p \<Rightarrow> 8 word list) \<Rightarrow> ('o \<Rightarrow> 8 word list) \<Rightarrow> 'p dfk_http_request_t \<Rightarrow> 'o \<Rightarrow> 8 word list" where
  "to_come pend inp req s = cached_bytes pend req @ inp s"

lemma body_at_pend: "body_at pend left n req \<Longrightarrow> length (pend (req_parser req)) \<le> length (req_remainder req)"
  unfolding body_at_def by (metis length_take min.cobounded1)

lemma body_left: "body_at pend left n req \<Longrightarrow> unat (of_int (req_content_length req) - req_body_nread req) = left (req_parser req)"
proof -
  assume b: "body_at pend left n req"
  then have n: "of_int (req_content_length req) = (of_nat n :: 64 word)" "unat (of_nat n :: 64 word) = n"
    by (auto simp: body_at_def unat_of_nat_addr)
  have "req_body_nread req \<le> of_nat n" using b n(2) by (simp add: body_at_def word_le_nat_alt)
  then show ?thesis using b n by (auto simp: body_at_def unat_sub)
qed

lemma on_body_all_ok:
  "length (concat pieces) \<le> unat (out_size p) \<Longrightarrow> on_body_all pieces (p, req) =
    Some (p\<lparr>out_data := out_data p @ concat pieces, out_size := out_size p - of_nat (length (concat pieces))\<rparr>,
      req\<lparr>req_body_nread := req_body_nread req + of_nat (length (concat pieces))\<rparr>)"
proof (induction pieces arbitrary: p req)
  case (Cons x pieces)
  have len: "length x + length (concat pieces) \<le> unat (out_size p)" using Cons.prems by simp
  then have b: "length x < 2 ^ 64" using unsigned_less [of "out_size p", where 'a = nat] by simp
  then have le: "of_nat (length x) \<le> out_size p" using len by (simp add: word_le_nat_alt unat_of_nat_addr)
  then have "length (concat pieces) \<le> unat (out_size p - of_nat (length x))" using len b by (simp add: unat_sub unat_of_nat_addr)
  with Cons.IH [of "p\<lparr>out_data := out_data p @ x, out_size := out_size p - of_nat (length x)\<rparr>"] le show ?case
    by (simp add: dfk_http_request_on_body_def algebra_simps)
qed simp

text \<open>One round of the loop on \<open>inbuf\<close>, the next bytes for the parser; \<open>k\<close> of them belong to the body.\<close>

definition advanced :: "('p \<Rightarrow> nat) \<Rightarrow> 'p dfk_http_request_t \<Rightarrow> 'p dfk_http_request_t \<Rightarrow> nat \<Rightarrow> bool" where
  "advanced left req req' k \<longleftrightarrow> req_body_nread req' = req_body_nread req + of_nat k \<and> left (req_parser req') = left (req_parser req) - k
     \<and> req_content_length req' = req_content_length req \<and> req_socket req' = req_socket req \<and> req_chunked req' = req_chunked req"

lemma advanced_body:
  assumes "advanced left req req' k" "body_at pend left n req" "k \<le> left (req_parser req)" "length (req_remainder req') < 2 ^ 63"
    and "take (length (pend (req_parser req'))) (req_remainder req') = pend (req_parser req')"
  shows "body_at pend left n req'"
proof -
  have "unat (req_body_nread req) + k < 2 ^ 64" using assms(2,3) by (simp add: body_at_def)
  then have "unat (req_body_nread req + of_nat k) = unat (req_body_nread req) + k"
    using unat_of_nat_addr [of "unat (req_body_nread req) + k"] by simp
  then show ?thesis using assms by (simp add: body_at_def advanced_def)
qed

lemma parse_round:
  assumes "passes_body ex pend left" "inbuf \<noteq> []" "length inbuf \<le> length (pend (req_parser req)) + left (req_parser req)"
    and "take (length (pend (req_parser req))) inbuf = take (length inbuf) (pend (req_parser req))"
    and "length inbuf - length (pend (req_parser req)) \<le> unat (out_size p)"
  obtains pieces parser req' where "ex (req_parser req) inbuf = (pieces, length inbuf, False, parser)"
    "on_body_all pieces (p, req\<lparr>req_parser := parser\<rparr>) =
       Some (\<lparr>out_data = out_data p @ drop (length (pend (req_parser req))) inbuf,
         out_size = out_size p - of_nat (length inbuf - length (pend (req_parser req)))\<rparr>, req')"
    "advanced left req req' (length inbuf - length (pend (req_parser req)))" "req_remainder req' = req_remainder req"
    "pend (req_parser req') = drop (length inbuf) (pend (req_parser req))"
proof -
  let ?new = "drop (length (pend (req_parser req))) inbuf"
  obtain pieces parser where e: "ex (req_parser req) inbuf = (pieces, length inbuf, False, parser)" "concat pieces = ?new"
      "left parser = left (req_parser req) - length ?new" "pend parser = drop (length inbuf) (pend (req_parser req))"
    using assms(1) [unfolded passes_body_def, THEN spec, THEN spec, THEN mp, OF conjI [OF assms(2) conjI [OF assms(3,4)]]] by auto
  let ?req = "req\<lparr>req_parser := parser, req_body_nread := req_body_nread req + of_nat (length ?new)\<rparr>"
  have "on_body_all pieces (p, req\<lparr>req_parser := parser\<rparr>) =
      Some (\<lparr>out_data = out_data p @ ?new, out_size = out_size p - of_nat (length ?new)\<rparr>, ?req)"
    using on_body_all_ok [of pieces p "req\<lparr>req_parser := parser\<rparr>"] assms(5) e(2) by (cases p) simp
  then have o: "on_body_all pieces (p, req\<lparr>req_parser := parser\<rparr>) =
      Some (\<lparr>out_data = out_data p @ ?new, out_size = out_size p - of_nat (length inbuf - length (pend (req_parser req)))\<rparr>, ?req)"
    by simp
  show thesis by (rule that [OF e(1) o]) (use e(3,4) in \<open>simp_all add: advanced_def\<close>)
qed

lemma advanced_trans:
  "advanced left req req1 j \<Longrightarrow> advanced left req1 req2 k \<Longrightarrow> advanced left req req2 (j + k)"
  by (auto simp: advanced_def)

section \<open>Reading\<close>

lemma min_unat: "unat (min a b :: 64 word) = min (unat a) (unat b)"
  by (simp add: min_def word_le_nat_alt)

lemma socket_read_delivers:
  assumes "delivers S (t_socket sock) inp" "0 < n"
  shows "\<exists>bs s'. dfk_tcp_socket_read S c sock n s = Some (int (length bs), bs, c, s') \<and> length bs \<le> n
    \<and> inp s = bs @ inp s' \<and> (bs = [] \<longrightarrow> inp s = [])"
proof -
  obtain r bs s' where r: "os_read S (t_socket sock) n s = (r, bs, s')" using prod_cases3 by blast
  with assms(1) have "r = int (length bs) \<and> length bs \<le> n \<and> inp s = bs @ inp s' \<and> (bs = [] \<and> 0 < n \<longrightarrow> inp s = [])"
    unfolding delivers_def by blast
  with r assms(2) show ?thesis by (auto simp: dfk_tcp_socket_read_def dfk__read_def)
qed

text \<open>The loop has added \<open>new\<close> to the buffer, the next bytes of the stream; nothing only at the end of the stream.\<close>

definition body_read ::
  "('p \<Rightarrow> 8 word list) \<Rightarrow> ('p \<Rightarrow> nat) \<Rightarrow> ('o \<Rightarrow> 8 word list) \<Rightarrow> nat \<Rightarrow> 'p dfk_http_request_t \<Rightarrow> body_parser_data \<Rightarrow> 'o
    \<Rightarrow> 8 word list \<Rightarrow> 'p dfk_http_request_t \<Rightarrow> 'o \<Rightarrow> bool" where
  "body_read pend left inp n req p s new req' s' \<longleftrightarrow> length new \<le> unat (out_size p) \<and> length new \<le> left (req_parser req)
     \<and> advanced left req req' (length new) \<and> to_come pend inp req s = new @ to_come pend inp req' s' \<and> body_at pend left n req'
     \<and> cached_bytes pend req' = drop (length new) (cached_bytes pend req)
     \<and> (out_size p \<noteq> 0 \<and> out_data p = [] \<and> new = [] \<longrightarrow> to_come pend inp req s = [])"

abbreviation room_left :: "body_parser_data \<Rightarrow> 'p dfk_http_request_t \<Rightarrow> bool" where
  "room_left p req \<equiv> out_size p \<noteq> 0 \<and> (out_data p = [] \<or> req_remainder req \<noteq> [])"

abbreviation toread_of :: "body_parser_data \<Rightarrow> 'p dfk_http_request_t \<Rightarrow> 64 word" where
  "toread_of p req \<equiv> min (out_size p) (of_int (req_content_length req) - req_body_nread req)"

lemma toread_unat: "body_at pend left n req \<Longrightarrow> unat (toread_of p req) = min (unat (out_size p)) (left (req_parser req))"
  by (simp add: min_unat body_left)

lemma loop_done: "\<not> room_left p req \<Longrightarrow> request_read_loop ex S req p c s = Some (int (length (out_data p)), out_data p, req, c, s)"
  by (subst request_read_loop.simps) (rule if_not_P)

text \<open>A piece from the socket ends the loop.\<close>

lemma loop_socket:
  assumes ex: "passes_body ex pend left" and S: "delivers S (t_socket (req_socket req)) inp" and b: "body_at pend left n req"
    and g: "out_size p \<noteq> 0" "out_data p = []" "req_remainder req = []" "0 < left (req_parser req)"
  shows "\<exists>new req' s'. request_read_loop ex S req p c s = Some (int (length new), new, req', c, s')
    \<and> body_read pend left inp n req p s new req' s'"
proof -
  note tr = toread_unat [OF b, of p]
  have p0: "pend (req_parser req) = []" using body_at_pend [OF b] g(3) by simp
  have "0 < unat (out_size p)" using g(1) unat_gt_0 by blast
  then obtain bs s' where rd: "dfk_tcp_socket_read S c (req_socket req) (unat (toread_of p req)) s = Some (int (length bs), bs, c, s')"
      "length bs \<le> unat (toread_of p req)" "inp s = bs @ inp s'" "bs = [] \<longrightarrow> inp s = []"
    using socket_read_delivers [OF S, of "unat (toread_of p req)" c s] tr g(4) by auto
  show ?thesis
  proof (cases "bs = []")
    case True
    then have "request_read_loop ex S req p c s = Some (0, [], req, c, s')"
      using g rd(1) by (subst request_read_loop.simps) (simp add: Let_def)
    moreover have "body_read pend left inp n req p s [] req s'"
      using True rd(3,4) b g by (simp add: body_read_def advanced_def to_come_def cached_bytes_def)
    ultimately show ?thesis by fastforce
  next
    case False
    have fit: "length bs \<le> length (pend (req_parser req)) + left (req_parser req)"
      "take (length (pend (req_parser req))) bs = take (length bs) (pend (req_parser req))"
      "length bs - length (pend (req_parser req)) \<le> unat (out_size p)"
      using rd(2) tr p0 by simp_all
    obtain pieces parser req' where pr: "ex (req_parser req) bs = (pieces, length bs, False, parser)"
      "on_body_all pieces (p, req\<lparr>req_parser := parser\<rparr>) =
         Some (\<lparr>out_data = out_data p @ bs, out_size = out_size p - of_nat (length bs)\<rparr>, req')"
      "advanced left req req' (length bs)" "req_remainder req' = req_remainder req" "pend (req_parser req') = []"
      by (rule parse_round [OF ex False fit, unfolded p0 list.size drop_0 diff_zero drop_Nil])
    have "request_read_loop ex S req p c s = Some (int (length bs), bs, req', c, s')"
      using g rd pr False loop_done [of "\<lparr>out_data = bs, out_size = out_size p - of_nat (length bs)\<rparr>" req' ex S c s']
      by (subst request_read_loop.simps) (simp add: Let_def)
    moreover have "body_at pend left n req'" by (rule advanced_body [OF pr(3) b]) (use rd(2) tr pr(4,5) g(3) in auto)
    then have "body_read pend left inp n req p s bs req' s'"
      using False rd(2,3) tr pr(3,4) g(3) by (simp add: body_read_def to_come_def cached_bytes_def)
    ultimately show ?thesis by blast
  qed
qed

text \<open>Cached bytes are parsed and taken off the cache.\<close>

lemma take_take_pend: "take m r = q \<Longrightarrow> m = length q \<Longrightarrow> take (length q) (take k r) = take k q"
  by (metis take_take min.commute)

lemma take_drop_pend: "take (length q) r = q \<Longrightarrow> take (length (drop k q)) (drop k r) = drop k q"
  by (metis drop_take length_drop)

lemma loop_cached:
  assumes ex: "passes_body ex pend left" and b: "body_at pend left n req"
    and g: "out_size p \<noteq> 0" "req_remainder req \<noteq> []" "0 < left (req_parser req)"
  obtains k j req' where "k = min (min (unat (out_size p)) (left (req_parser req))) (length (req_remainder req))" "0 < k"
    "j = k - length (pend (req_parser req))"
    "request_read_loop ex S req p c s = request_read_loop ex S req'
       \<lparr>out_data = out_data p @ take j (cached_bytes pend req), out_size = out_size p - of_nat j\<rparr> c s"
    "advanced left req req' j" "req_remainder req' = drop k (req_remainder req)" "body_at pend left n req'"
    "pend (req_parser req') = drop k (pend (req_parser req))" "cached_bytes pend req' = drop j (cached_bytes pend req)"
proof -
  define k where "k = unat (min (toread_of p req) (of_nat (length (req_remainder req))))"
  have lr: "length (req_remainder req) < 2 ^ 63" using b by (simp add: body_at_def)
  then have k: "k = min (min (unat (out_size p)) (left (req_parser req))) (length (req_remainder req))"
    unfolding k_def by (simp add: min_unat [of "toread_of p req"] toread_unat [OF b] unat_of_nat_addr)
  have k0: "0 < k" using k g unat_gt_0 [of "out_size p"] by simp
  let ?in = "take k (req_remainder req)" and ?pend = "pend (req_parser req)"
  have li: "length ?in = k" "?in \<noteq> []" using k k0 g(2) by auto
  have pr0: "take (length ?pend) (req_remainder req) = ?pend" using b by (simp add: body_at_def)
  have fit: "length ?in \<le> length ?pend + left (req_parser req)" "take (length ?pend) ?in = take (length ?in) ?pend"
      "length ?in - length ?pend \<le> unat (out_size p)"
    unfolding li using k take_take_pend [OF pr0 refl, of k] by auto
  have new: "drop (length ?pend) ?in = take (k - length ?pend) (cached_bytes pend req)"
    by (simp add: drop_take cached_bytes_def)
  obtain pieces parser req1 where pr: "ex (req_parser req) ?in = (pieces, k, False, parser)"
    "on_body_all pieces (p, req\<lparr>req_parser := parser\<rparr>) =
       Some (\<lparr>out_data = out_data p @ take (k - length ?pend) (cached_bytes pend req),
         out_size = out_size p - of_nat (k - length ?pend)\<rparr>, req1)"
    "advanced left req req1 (k - length ?pend)" "req_remainder req1 = req_remainder req"
    "pend (req_parser req1) = drop k ?pend"
    by (rule parse_round [OF ex li(2) fit, unfolded li(1) new])
  let ?req = "req1\<lparr>req_remainder := drop k (req_remainder req)\<rparr>"
  have adv: "advanced left req ?req (k - length ?pend)" using pr(3) by (simp add: advanced_def)
  show thesis
  proof (rule that [OF k k0 refl])
    show "request_read_loop ex S req p c s = request_read_loop ex S ?req
       \<lparr>out_data = out_data p @ take (k - length ?pend) (cached_bytes pend req), out_size = out_size p - of_nat (k - length ?pend)\<rparr> c s"
      using g pr li by (subst request_read_loop.simps) (simp add: Let_def k_def [symmetric])
    show "body_at pend left n ?req"
      by (rule advanced_body [OF adv b]) (use k lr take_drop_pend [OF pr0, of k] pr(5) in auto)
    show "cached_bytes pend ?req = drop (k - length ?pend) (cached_bytes pend req)"
      using pr(5) by (simp add: cached_bytes_def) (metis add.commute le_add_diff_inverse le_add_diff_inverse2 nat_le_linear diff_is_0_eq add_0)
  qed (use adv pr(5) in simp_all)
qed

lemma request_read_loop_ok:
  assumes ex: "passes_body ex pend left" and S: "delivers S (t_socket (req_socket req)) inp" and b: "body_at pend left n req"
    and fit: "room_left p req \<longrightarrow> 0 < left (req_parser req)"
      "unat (out_size p) \<le> left (req_parser req) \<or> length (cached_bytes pend req) \<le> left (req_parser req)"
      "out_data p = [] \<or> pend (req_parser req) = []"
  shows "\<exists>new req' s'. request_read_loop ex S req p c s = Some (int (length (out_data p @ new)), out_data p @ new, req', c, s')
    \<and> body_read pend left inp n req p s new req' s'"
  using S b fit
proof (induction "length (req_remainder req)" arbitrary: req p rule: less_induct)
  case less
  consider "\<not> room_left p req" | "room_left p req" "req_remainder req = []" | "room_left p req" "req_remainder req \<noteq> []" by blast
  then show ?case
  proof cases
    case 1
    then show ?thesis
      using less.prems(2) by (intro exI [of _ "[]"] exI [of _ req] exI [of _ s]) (auto simp: loop_done body_read_def advanced_def to_come_def)
  next
    case 2
    then show ?thesis using loop_socket [OF ex less.prems(1,2), of p c s] less.prems(3) by auto
  next
    case 3
    let ?pend = "pend (req_parser req)" and ?cached = "cached_bytes pend req"
    obtain k j req1 where k: "k = min (min (unat (out_size p)) (left (req_parser req))) (length (req_remainder req))" "0 < k"
      "j = k - length ?pend"
      "request_read_loop ex S req p c s = request_read_loop ex S req1
         \<lparr>out_data = out_data p @ take j ?cached, out_size = out_size p - of_nat j\<rparr> c s"
      "advanced left req req1 j" "req_remainder req1 = drop k (req_remainder req)" "body_at pend left n req1"
      "pend (req_parser req1) = drop k ?pend" "cached_bytes pend req1 = drop j ?cached"
      by (rule loop_cached [OF ex less.prems(2) _ 3(2), of p S c s]) (use 3(1) less.prems(3) in \<open>blast, blast\<close>)
    let ?p = "\<lparr>out_data = out_data p @ take j ?cached, out_size = out_size p - of_nat j\<rparr>"
    have kl: "j \<le> unat (out_size p)" "j \<le> left (req_parser req)" "j \<le> length ?cached"
      using k(1,3) by (auto simp: cached_bytes_def)
    have l1: "left (req_parser req1) = left (req_parser req) - j" using k(5) by (simp add: advanced_def)
    have "of_nat j \<le> out_size p" using kl(1) le_unat_uoi [of j "out_size p"] by (simp add: word_le_nat_alt)
    then have sz: "unat (out_size ?p) = unat (out_size p) - j" using kl(1) by (simp add: unat_sub le_unat_uoi)
    have fit1: "unat (out_size ?p) \<le> left (req_parser req1) \<or> length (cached_bytes pend req1) \<le> left (req_parser req1)"
      using less.prems(4) sz l1 k(9) by auto
    have pd: "out_data ?p = [] \<or> pend (req_parser req1) = []"
    proof (cases "j = 0")
      case True
      then show ?thesis using less.prems(5) k(8) by auto
    next
      case False
      then show ?thesis using k(3,8) by simp
    qed
    have rl: "room_left ?p req1 \<longrightarrow> 0 < left (req_parser req1)"
    proof
      assume g: "room_left ?p req1"
      show "0 < left (req_parser req1)"
      proof (cases "j = 0")
        case True
        then show ?thesis using l1 3 less.prems(3) by simp
      next
        case False
        then have "out_data ?p \<noteq> []" "pend (req_parser req1) = []" using kl(3) k(3,8) by auto
        with g have "cached_bytes pend req1 \<noteq> []" "out_size ?p \<noteq> 0" by (auto simp: cached_bytes_def)
        then have "0 < unat (out_size ?p)" "0 < length (cached_bytes pend req1)" unfolding unat_gt_0 length_greater_0_conv by blast+
        then show ?thesis using fit1 by linarith
      qed
    qed
    have dec: "length (req_remainder req1) < length (req_remainder req)" using k(2,6) 3(2) by auto
    have so: "delivers S (t_socket (req_socket req1)) inp" using less.prems(1) k(5) by (simp add: advanced_def)
    obtain new req2 s2 where n: "request_read_loop ex S req1 ?p c s = Some (int (length (out_data ?p @ new)), out_data ?p @ new, req2, c, s2)"
        "body_read pend left inp n req1 ?p s new req2 s2"
      using less.hyps [OF dec so k(7) rl fit1 pd] by blast
    have tc: "to_come pend inp req s = take j ?cached @ to_come pend inp req1 s"
      using k(9) by (simp add: to_come_def flip: append_assoc)
    have adv: "advanced left req req2 (j + length new)" using advanced_trans [OF k(5)] n(2) by (auto simp: body_read_def)
    have lj: "length (take j ?cached) = j" using kl(3) by simp
    have size1: "out_size ?p \<noteq> 0" if "out_size p \<noteq> 0" "j = 0" using that by simp
    have cd: "cached_bytes pend req2 = drop (length (take j ?cached @ new)) ?cached"
      using n(2) k(9) lj by (simp add: body_read_def add.commute)
    have "body_read pend left inp n req p s (take j ?cached @ new) req2 s2"
      using n(2) kl sz l1 adv lj cd unfolding body_read_def tc by (cases "j = 0") (auto simp: min_def)
    then show ?thesis using n(1) k(4) by (intro exI [of _ "take j ?cached @ new"] exI [of _ req2] exI [of _ s2]) simp
  qed
qed

lemma request_read_ok:
  assumes "passes_body ex pend left" "delivers S (t_socket (req_socket req)) inp" "body_at pend left n req"
    and "0 < left (req_parser req)"
      "unat k \<le> left (req_parser req) \<or> length (cached_bytes pend req) \<le> left (req_parser req)"
  shows "\<exists>new req' s'. dfk_http_request_read ex S req False k c s = Some (int (length new), new, req', c, s')
    \<and> body_read pend left inp n req \<lparr>out_data = [], out_size = k\<rparr> s new req' s'"
proof -
  have "req_content_length req \<noteq> 0" using assms(3,4) by (auto simp: body_at_def)
  then show ?thesis
    using request_read_loop_ok [OF assms(1-3), of "\<lparr>out_data = [], out_size = k\<rparr>" c s] assms(4,5)
    by (auto simp: dfk_http_request_read_def)
qed

section \<open>Properties\<close>

text \<open>
  C17. Reading a body of known length that is not chunked, when the peer's bytes arrive without errors, the parser has at least one byte
  of the body still to pass on, and either at most the rest of the body is asked for or
  no bytes behind the body have been received yet: the call returns the number of bytes it has put into the buffer, these
  are the next bytes of the stream and belong to the body, the position in the body moves on by as many bytes, and it
  returns 0 only when the stream has ended. Bytes of the cache come first. What is cached with the header begins with the line feed that ends the header, and this
  byte is given to the parser first and is not part of the body. Without the condition on the bytes behind the body the call
  fails an assertion (\<open>pipelined_read_aborts\<close>).
\<close>

theorem body_read_stream:
  assumes "passes_body ex pend left" "delivers S (t_socket (req_socket req)) inp" "body_at pend left n req"
    and "k \<noteq> 0" "0 < left (req_parser req)"
      "unat k \<le> left (req_parser req) \<or> length (cached_bytes pend req) \<le> left (req_parser req)"
  shows "\<exists>new req' s'. dfk_http_request_read ex S req False k c s = Some (int (length new), new, req', c, s')
    \<and> to_come pend inp req s = new @ to_come pend inp req' s'
    \<and> cached_bytes pend req' = drop (length new) (cached_bytes pend req)
    \<and> length new \<le> unat k \<and> length new \<le> left (req_parser req)
    \<and> unat (req_body_nread req') = unat (req_body_nread req) + length new
    \<and> (new = [] \<longrightarrow> to_come pend inp req s = [])"
proof -
  obtain new req' s' where r: "dfk_http_request_read ex S req False k c s = Some (int (length new), new, req', c, s')"
      "body_read pend left inp n req \<lparr>out_data = [], out_size = k\<rparr> s new req' s'"
    using request_read_ok [OF assms(1-3,5,6)] by blast
  have "unat (req_body_nread req') + left (req_parser req') = n" "unat (req_body_nread req) + left (req_parser req) = n"
    "left (req_parser req') = left (req_parser req) - length new" "length new \<le> left (req_parser req)"
    using r(2) assms(3) by (auto simp: body_read_def body_at_def advanced_def)
  then have "unat (req_body_nread req') = unat (req_body_nread req) + length new" by linarith
  with r assms(4) show ?thesis by (auto simp: body_read_def)
qed

text \<open>
  A parser whose state says whether it still waits for the line feed, and how many bytes of the body it still expects, and
  a request with a body of five bytes, of which some are cached.
\<close>

type_synonym count_state = "bool \<times> nat"

definition due_first :: "count_state \<Rightarrow> 8 word list" where
  "due_first p = (if fst p then [10] else [])"

definition count_parser :: "count_state http_parser_execute" where
  "count_parser p inp = (let body = drop (length (due_first p)) inp in
     (if body = [] then [] else [body], length inp, False, (fst p \<and> inp = [], snd p - length body)))"

lemma count_parser_passes: "passes_body count_parser due_first snd"
  by (auto simp: passes_body_def count_parser_def due_first_def Let_def le_Suc_eq Suc_le_eq)

definition empty_map :: dfk_strmap_t where
  "empty_map = \<lparr>strmap_cont = \<lparr>avl_root = NULL, avl_cmp = \<lambda>_ _. 0, avl_size = 0\<rparr>\<rparr>"

definition sample_request :: "8 word list \<Rightarrow> count_state dfk_http_request_t" where
  "sample_request cached = (blank_request empty_map (True, 5))\<lparr>req_major_version := 1, req_minor_version := 1, req_content_length := 5,
     req_remainder := cached\<rparr>"

lemma sample_request_simps [simp]:
  "req_socket (sample_request cached) = \<lparr>t_socket = 3\<rparr>" "req_content_length (sample_request cached) = 5"
  "req_chunked (sample_request cached) = False" "req_body_nread (sample_request cached) = 0"
  "req_remainder (sample_request cached) = cached" "req_parser (sample_request cached) = (True, 5)"
  by (simp_all add: sample_request_def blank_request_def)

lemma sample_delivers: "delivers sample_os fd k_input"
  by (auto simp: delivers_def sample_os_def kernel_read_def Let_def)

lemma sample_body_at: "length cached < 2 ^ 62 \<Longrightarrow> body_at due_first snd 5 (sample_request (10 # cached))"
  by (simp add: body_at_def due_first_def)

theorem body_read_stream_witness:
  "\<exists>new req' s'. dfk_http_request_read count_parser sample_os (sample_request [10, 7, 8]) False 1024 sample_ctx sample_kernel
     = Some (int (length new), new, req', sample_ctx, s')
   \<and> [7, 8] @ k_input sample_kernel = new @ to_come due_first k_input req' s'"
proof -
  have b: "body_at due_first snd 5 (sample_request [10, 7, 8])" by (rule sample_body_at) simp
  have t: "to_come due_first k_input (sample_request [10, 7, 8]) sample_kernel = [7, 8] @ k_input sample_kernel"
    by (simp add: to_come_def cached_bytes_def due_first_def)
  have l: "0 < snd (req_parser (sample_request [10, 7, 8]))"
    "length (cached_bytes due_first (sample_request [10, 7, 8])) \<le> snd (req_parser (sample_request [10, 7, 8]))"
    by (simp_all add: cached_bytes_def due_first_def)
  show ?thesis
    using body_read_stream [OF count_parser_passes sample_delivers b _ l(1) disjI2 [OF l(2)], of 1024 sample_ctx sample_kernel]
    unfolding t by fastforce
qed

text \<open>
  A client can stop the server with a pipelined request: when bytes behind the body have been received with the
  header, and the handler asks for more than the rest of the body, the loop goes on after the last byte of the body, has
  nothing left to parse, and runs into an assertion. A failed read of the socket has the same effect.
\<close>

lemma pipelined_loop_aborts:
  assumes ex: "passes_body ex pend left" and b: "body_at pend left n req" and l: "0 < left (req_parser req)"
    and a: "left (req_parser req) < length (cached_bytes pend req)" "left (req_parser req) < unat (out_size p)"
  shows "request_read_loop ex S req p c s = None"
  using b l a
proof (induction "length (req_remainder req)" arbitrary: req p rule: less_induct)
  case less
  let ?l = "left (req_parser req)" and ?pend = "pend (req_parser req)" and ?cached = "cached_bytes pend req"
  have r: "req_remainder req \<noteq> []" "out_size p \<noteq> 0" using less.prems(3,4) by (auto simp: cached_bytes_def)
  obtain k j req1 where m: "k = min (min (unat (out_size p)) ?l) (length (req_remainder req))" "0 < k" "j = k - length ?pend"
      "request_read_loop ex S req p c s = request_read_loop ex S req1
         \<lparr>out_data = out_data p @ take j ?cached, out_size = out_size p - of_nat j\<rparr> c s"
      "advanced left req req1 j" "req_remainder req1 = drop k (req_remainder req)" "body_at pend left n req1"
      "pend (req_parser req1) = drop k ?pend" "cached_bytes pend req1 = drop j ?cached"
    by (rule loop_cached [OF ex less.prems(1) r(2,1) less.prems(2), of S c s])
  let ?p = "\<lparr>out_data = out_data p @ take j ?cached, out_size = out_size p - of_nat j\<rparr>"
  have j: "j \<le> ?l" using m(1,3) by simp
  have "of_nat j \<le> out_size p" using j less.prems(4) le_unat_uoi [of j "out_size p"] by (simp add: word_le_nat_alt)
  then have sz: "unat (out_size ?p) = unat (out_size p) - j"
    using le_unat_uoi [of j "out_size p"] j less.prems(4) by (simp add: unat_sub)
  have l1: "left (req_parser req1) = ?l - j" using m(5) by (simp add: advanced_def)
  show ?case
  proof (cases "j = ?l")
    case True
    have "req_remainder req1 \<noteq> []"
    proof
      assume "req_remainder req1 = []"
      then have "cached_bytes pend req1 = []" by (simp add: cached_bytes_def)
      then show False using m(9) True less.prems(3) by simp
    qed
    moreover have "out_size ?p \<noteq> 0" using sz True less.prems(4) unat_gt_0 [of "out_size ?p"] by simp
    moreover have "unat (toread_of ?p req1) = 0" using toread_unat [OF m(7), of ?p] l1 True by simp
    ultimately have "request_read_loop ex S req1 ?p c s = None"
      by (subst request_read_loop.simps) (simp add: Let_def min_unat)
    then show ?thesis using m(4) by simp
  next
    case False
    have "request_read_loop ex S req1 ?p c s = None"
    proof (rule less.hyps [OF _ m(7)])
      show "length (req_remainder req1) < length (req_remainder req)" using m(2,6) r(1) by auto
    qed (use False j l1 m(9) sz less.prems(3,4) in auto)
    then show ?thesis using m(4) by simp
  qed
qed

theorem pipelined_read_aborts:
  assumes ex: "passes_body ex pend left" and b: "body_at pend left n req" and l: "0 < left (req_parser req)"
  shows "(left (req_parser req) < length (cached_bytes pend req) \<and> left (req_parser req) < unat k \<longrightarrow>
      dfk_http_request_read ex S req False k c s = None)
    \<and> (req_remainder req = [] \<and> k \<noteq> 0 \<and> os_read S (t_socket (req_socket req)) (min (unat k) (left (req_parser req))) s = (-1, bs, s')
        \<and> os_errno S s' \<noteq> EAGAIN \<longrightarrow> dfk_http_request_read ex S req False k c s = None)"
proof (intro conjI impI)
  have cl: "req_content_length req \<noteq> 0" using b l by (auto simp: body_at_def)
  let ?p = "\<lparr>out_data = [], out_size = k\<rparr>"
  {
    assume a: "left (req_parser req) < length (cached_bytes pend req) \<and> left (req_parser req) < unat k"
    then have "request_read_loop ex S req ?p c s = None" by (intro pipelined_loop_aborts [OF ex b l]) auto
    then show "dfk_http_request_read ex S req False k c s = None" using cl by (simp add: dfk_http_request_read_def)
  next
    assume a: "req_remainder req = [] \<and> k \<noteq> 0 \<and> os_read S (t_socket (req_socket req)) (min (unat k) (left (req_parser req))) s = (-1, bs, s')
        \<and> os_errno S s' \<noteq> EAGAIN"
    have t: "unat (toread_of ?p req) = min (unat k) (left (req_parser req))" using toread_unat [OF b, of ?p] by simp
    have z: "min (unat k) (left (req_parser req)) \<noteq> 0" using a l unat_gt_0 [of k] by simp
    have "request_read_loop ex S req ?p c s = None"
      using a z t by (subst request_read_loop.simps) (simp add: Let_def dfk_tcp_socket_read_def dfk__read_def)
    then show "dfk_http_request_read ex S req False k c s = None" using cl by (simp add: dfk_http_request_read_def)
  }
qed

theorem pipelined_read_aborts_witness:
  "dfk_http_request_read count_parser sample_os (sample_request [10, 7, 8, 9, 10, 11, 71, 69, 84]) False 1024 sample_ctx sample_kernel = None"
proof -
  have "body_at due_first snd 5 (sample_request [10, 7, 8, 9, 10, 11, 71, 69, 84])" by (rule sample_body_at) simp
  from pipelined_read_aborts [OF count_parser_passes this, of 1024 sample_os sample_ctx sample_kernel] show ?thesis
    by (simp add: cached_bytes_def due_first_def)
qed

end
