(* ===== verification/Dfk_Http_Constants.thy ===== *)
theory Dfk_Http_Constants
  imports Dfk_Strmap
begin

text \<open>
  The constants of \<^verbatim>\<open>dfk/http/constants.h\<close> and the reason phrases of \<^verbatim>\<open>src/http/constants.c\<close>. The enumerations
  are plain integers in C, and a field of such a type can hold any other value too; the operations
  therefore take the code of an enumerator.
\<close>

section \<open>Names\<close>

definition DFK_HTTP_USER_AGENT :: "byte list" where "DFK_HTTP_USER_AGENT = str ''User-Agent''"
definition DFK_HTTP_HOST :: "byte list" where "DFK_HTTP_HOST = str ''Host''"
definition DFK_HTTP_ACCEPT :: "byte list" where "DFK_HTTP_ACCEPT = str ''Accept''"
definition DFK_HTTP_CONTENT_TYPE :: "byte list" where "DFK_HTTP_CONTENT_TYPE = str ''Content-Type''"
definition DFK_HTTP_CONTENT_LENGTH :: "byte list" where "DFK_HTTP_CONTENT_LENGTH = str ''Content-Length''"
definition DFK_HTTP_CONNECTION :: "byte list" where "DFK_HTTP_CONNECTION = str ''Connection''"

section \<open>Methods\<close>

datatype dfk_http_method_e =
    DFK_HTTP_DELETE
  | DFK_HTTP_GET
  | DFK_HTTP_HEAD
  | DFK_HTTP_POST
  | DFK_HTTP_PUT
  | DFK_HTTP_CONNECT
  | DFK_HTTP_OPTIONS
  | DFK_HTTP_TRACE
  | DFK_HTTP_COPY
  | DFK_HTTP_LOCK
  | DFK_HTTP_MKCOL
  | DFK_HTTP_MOVE
  | DFK_HTTP_PROPFIND
  | DFK_HTTP_PROPPATCH
  | DFK_HTTP_SEARCH
  | DFK_HTTP_UNLOCK
  | DFK_HTTP_BIND
  | DFK_HTTP_REBIND
  | DFK_HTTP_UNBIND
  | DFK_HTTP_ACL
  | DFK_HTTP_REPORT
  | DFK_HTTP_MKACTIVITY
  | DFK_HTTP_CHECKOUT
  | DFK_HTTP_MERGE
  | DFK_HTTP_MSEARCH
  | DFK_HTTP_NOTIFY
  | DFK_HTTP_SUBSCRIBE
  | DFK_HTTP_UNSUBSCRIBE
  | DFK_HTTP_PATCH
  | DFK_HTTP_PURGE
  | DFK_HTTP_MKCALENDAR
  | DFK_HTTP_LINK
  | DFK_HTTP_UNLINK

fun method_code :: "dfk_http_method_e \<Rightarrow> int" where
  "method_code DFK_HTTP_DELETE = 0"
| "method_code DFK_HTTP_GET = 1"
| "method_code DFK_HTTP_HEAD = 2"
| "method_code DFK_HTTP_POST = 3"
| "method_code DFK_HTTP_PUT = 4"
| "method_code DFK_HTTP_CONNECT = 5"
| "method_code DFK_HTTP_OPTIONS = 6"
| "method_code DFK_HTTP_TRACE = 7"
| "method_code DFK_HTTP_COPY = 8"
| "method_code DFK_HTTP_LOCK = 9"
| "method_code DFK_HTTP_MKCOL = 10"
| "method_code DFK_HTTP_MOVE = 11"
| "method_code DFK_HTTP_PROPFIND = 12"
| "method_code DFK_HTTP_PROPPATCH = 13"
| "method_code DFK_HTTP_SEARCH = 14"
| "method_code DFK_HTTP_UNLOCK = 15"
| "method_code DFK_HTTP_BIND = 16"
| "method_code DFK_HTTP_REBIND = 17"
| "method_code DFK_HTTP_UNBIND = 18"
| "method_code DFK_HTTP_ACL = 19"
| "method_code DFK_HTTP_REPORT = 20"
| "method_code DFK_HTTP_MKACTIVITY = 21"
| "method_code DFK_HTTP_CHECKOUT = 22"
| "method_code DFK_HTTP_MERGE = 23"
| "method_code DFK_HTTP_MSEARCH = 24"
| "method_code DFK_HTTP_NOTIFY = 25"
| "method_code DFK_HTTP_SUBSCRIBE = 26"
| "method_code DFK_HTTP_UNSUBSCRIBE = 27"
| "method_code DFK_HTTP_PATCH = 28"
| "method_code DFK_HTTP_PURGE = 29"
| "method_code DFK_HTTP_MKCALENDAR = 30"
| "method_code DFK_HTTP_LINK = 31"
| "method_code DFK_HTTP_UNLINK = 32"

section \<open>Status codes\<close>

datatype dfk_http_status_e =
    DFK_HTTP_CONTINUE
  | DFK_HTTP_SWITCHING_PROTOCOLS
  | DFK_HTTP_PROCESSING
  | DFK_HTTP_OK
  | DFK_HTTP_CREATED
  | DFK_HTTP_ACCEPTED
  | DFK_HTTP_NON_AUTHORITATIVE_INFORMATION
  | DFK_HTTP_NO_CONTENT
  | DFK_HTTP_RESET_CONTENT
  | DFK_HTTP_PARTIAL_CONTENT
  | DFK_HTTP_MULTI_STATUS
  | DFK_HTTP_ALREADY_REPORTED
  | DFK_HTTP_IM_USED
  | DFK_HTTP_MULTIPLE_CHOICES
  | DFK_HTTP_MOVED_PERMANENTLY
  | DFK_HTTP_FOUND
  | DFK_HTTP_SEE_OTHER
  | DFK_HTTP_NOT_MODIFIED
  | DFK_HTTP_USE_PROXY
  | DFK_HTTP_SWITCH_PROXY
  | DFK_HTTP_TEMPORARY_REDIRECT
  | DFK_HTTP_PERMANENT_REDIRECT
  | DFK_HTTP_BAD_REQUEST
  | DFK_HTTP_UNAUTHORIZED
  | DFK_HTTP_PAYMENT_REQUIRED
  | DFK_HTTP_FORBIDDEN
  | DFK_HTTP_NOT_FOUND
  | DFK_HTTP_METHOD_NOT_ALLOWED
  | DFK_HTTP_NOT_ACCEPTABLE
  | DFK_HTTP_PROXY_AUTHENTICATION_REQUIRED
  | DFK_HTTP_REQUEST_TIMEOUT
  | DFK_HTTP_CONFLICT
  | DFK_HTTP_GONE
  | DFK_HTTP_LENGTH_REQUIRED
  | DFK_HTTP_PRECONDITION_FAILED
  | DFK_HTTP_PAYLOAD_TOO_LARGE
  | DFK_HTTP_URI_TOO_LONG
  | DFK_HTTP_UNSUPPORTED_MEDIA_TYPE
  | DFK_HTTP_RANGE_NOT_SATISFIABLE
  | DFK_HTTP_EXPECTATION_FAILED
  | DFK_HTTP_I_AM_A_TEAPOT
  | DFK_HTTP_MISDIRECTED_REQUEST
  | DFK_HTTP_UNPROCESSABLE_ENTITY
  | DFK_HTTP_LOCKED
  | DFK_HTTP_FAILED_DEPENDENCY
  | DFK_HTTP_UPGRADE_REQUIRED
  | DFK_HTTP_PRECONDITION_REQUIRED
  | DFK_HTTP_TOO_MANY_REQUESTS
  | DFK_HTTP_REQUEST_HEADER_FIELDS_TOO_LARGE
  | DFK_HTTP_UNAVAILABLE_FOR_LEGAL_REASONS
  | DFK_HTTP_INTERNAL_SERVER_ERROR
  | DFK_HTTP_NOT_IMPLEMENTED
  | DFK_HTTP_BAD_GATEWAY
  | DFK_HTTP_SERVICE_UNAVAILABLE
  | DFK_HTTP_GATEWAY_TIMEOUT
  | DFK_HTTP_HTTP_VERSION_NOT_SUPPORTED
  | DFK_HTTP_VARIANT_ALSO_NEGOTIATES
  | DFK_HTTP_INSUFFICIENT_STORAGE
  | DFK_HTTP_LOOP_DETECTED
  | DFK_HTTP_NOT_EXTENDED
  | DFK_HTTP_NETWORK_AUTHENTICATION_REQUIRED

fun status_code :: "dfk_http_status_e \<Rightarrow> int" where
  "status_code DFK_HTTP_CONTINUE = 100"
| "status_code DFK_HTTP_SWITCHING_PROTOCOLS = 101"
| "status_code DFK_HTTP_PROCESSING = 102"
| "status_code DFK_HTTP_OK = 200"
| "status_code DFK_HTTP_CREATED = 201"
| "status_code DFK_HTTP_ACCEPTED = 202"
| "status_code DFK_HTTP_NON_AUTHORITATIVE_INFORMATION = 203"
| "status_code DFK_HTTP_NO_CONTENT = 204"
| "status_code DFK_HTTP_RESET_CONTENT = 205"
| "status_code DFK_HTTP_PARTIAL_CONTENT = 206"
| "status_code DFK_HTTP_MULTI_STATUS = 207"
| "status_code DFK_HTTP_ALREADY_REPORTED = 208"
| "status_code DFK_HTTP_IM_USED = 226"
| "status_code DFK_HTTP_MULTIPLE_CHOICES = 300"
| "status_code DFK_HTTP_MOVED_PERMANENTLY = 301"
| "status_code DFK_HTTP_FOUND = 302"
| "status_code DFK_HTTP_SEE_OTHER = 303"
| "status_code DFK_HTTP_NOT_MODIFIED = 304"
| "status_code DFK_HTTP_USE_PROXY = 305"
| "status_code DFK_HTTP_SWITCH_PROXY = 306"
| "status_code DFK_HTTP_TEMPORARY_REDIRECT = 307"
| "status_code DFK_HTTP_PERMANENT_REDIRECT = 308"
| "status_code DFK_HTTP_BAD_REQUEST = 400"
| "status_code DFK_HTTP_UNAUTHORIZED = 401"
| "status_code DFK_HTTP_PAYMENT_REQUIRED = 402"
| "status_code DFK_HTTP_FORBIDDEN = 403"
| "status_code DFK_HTTP_NOT_FOUND = 404"
| "status_code DFK_HTTP_METHOD_NOT_ALLOWED = 405"
| "status_code DFK_HTTP_NOT_ACCEPTABLE = 406"
| "status_code DFK_HTTP_PROXY_AUTHENTICATION_REQUIRED = 407"
| "status_code DFK_HTTP_REQUEST_TIMEOUT = 408"
| "status_code DFK_HTTP_CONFLICT = 409"
| "status_code DFK_HTTP_GONE = 410"
| "status_code DFK_HTTP_LENGTH_REQUIRED = 411"
| "status_code DFK_HTTP_PRECONDITION_FAILED = 412"
| "status_code DFK_HTTP_PAYLOAD_TOO_LARGE = 413"
| "status_code DFK_HTTP_URI_TOO_LONG = 414"
| "status_code DFK_HTTP_UNSUPPORTED_MEDIA_TYPE = 415"
| "status_code DFK_HTTP_RANGE_NOT_SATISFIABLE = 416"
| "status_code DFK_HTTP_EXPECTATION_FAILED = 417"
| "status_code DFK_HTTP_I_AM_A_TEAPOT = 418"
| "status_code DFK_HTTP_MISDIRECTED_REQUEST = 421"
| "status_code DFK_HTTP_UNPROCESSABLE_ENTITY = 422"
| "status_code DFK_HTTP_LOCKED = 423"
| "status_code DFK_HTTP_FAILED_DEPENDENCY = 424"
| "status_code DFK_HTTP_UPGRADE_REQUIRED = 426"
| "status_code DFK_HTTP_PRECONDITION_REQUIRED = 428"
| "status_code DFK_HTTP_TOO_MANY_REQUESTS = 429"
| "status_code DFK_HTTP_REQUEST_HEADER_FIELDS_TOO_LARGE = 431"
| "status_code DFK_HTTP_UNAVAILABLE_FOR_LEGAL_REASONS = 451"
| "status_code DFK_HTTP_INTERNAL_SERVER_ERROR = 500"
| "status_code DFK_HTTP_NOT_IMPLEMENTED = 501"
| "status_code DFK_HTTP_BAD_GATEWAY = 502"
| "status_code DFK_HTTP_SERVICE_UNAVAILABLE = 503"
| "status_code DFK_HTTP_GATEWAY_TIMEOUT = 504"
| "status_code DFK_HTTP_HTTP_VERSION_NOT_SUPPORTED = 505"
| "status_code DFK_HTTP_VARIANT_ALSO_NEGOTIATES = 506"
| "status_code DFK_HTTP_INSUFFICIENT_STORAGE = 507"
| "status_code DFK_HTTP_LOOP_DETECTED = 508"
| "status_code DFK_HTTP_NOT_EXTENDED = 510"
| "status_code DFK_HTTP_NETWORK_AUTHENTICATION_REQUIRED = 511"

definition dfk_http_reason_phrase :: "int \<Rightarrow> string" where
  "dfk_http_reason_phrase status =
     (if status = status_code DFK_HTTP_CONTINUE then ''Continue''
      else if status = status_code DFK_HTTP_SWITCHING_PROTOCOLS then ''Switching Protocols''
      else if status = status_code DFK_HTTP_PROCESSING then ''Processing''
      else if status = status_code DFK_HTTP_OK then ''OK''
      else if status = status_code DFK_HTTP_CREATED then ''Created''
      else if status = status_code DFK_HTTP_ACCEPTED then ''Accepted''
      else if status = status_code DFK_HTTP_NON_AUTHORITATIVE_INFORMATION then ''Non Authoritative information''
      else if status = status_code DFK_HTTP_NO_CONTENT then ''No Content''
      else if status = status_code DFK_HTTP_RESET_CONTENT then ''Reset Content''
      else if status = status_code DFK_HTTP_PARTIAL_CONTENT then ''Partial Content''
      else if status = status_code DFK_HTTP_MULTI_STATUS then ''Multi Status''
      else if status = status_code DFK_HTTP_ALREADY_REPORTED then ''Already Reported''
      else if status = status_code DFK_HTTP_IM_USED then ''IM Used''
      else if status = status_code DFK_HTTP_MULTIPLE_CHOICES then ''Multiple Choices''
      else if status = status_code DFK_HTTP_MOVED_PERMANENTLY then ''Moved Permanently''
      else if status = status_code DFK_HTTP_FOUND then ''Found''
      else if status = status_code DFK_HTTP_SEE_OTHER then ''See Other''
      else if status = status_code DFK_HTTP_NOT_MODIFIED then ''Not Modified''
      else if status = status_code DFK_HTTP_USE_PROXY then ''Use Proxy''
      else if status = status_code DFK_HTTP_SWITCH_PROXY then ''Switch Proxy''
      else if status = status_code DFK_HTTP_TEMPORARY_REDIRECT then ''Temporary Redirect''
      else if status = status_code DFK_HTTP_PERMANENT_REDIRECT then ''Permanent Redirect''
      else if status = status_code DFK_HTTP_BAD_REQUEST then ''Bad Request''
      else if status = status_code DFK_HTTP_UNAUTHORIZED then ''Unauthorized''
      else if status = status_code DFK_HTTP_PAYMENT_REQUIRED then ''Payment Required''
      else if status = status_code DFK_HTTP_FORBIDDEN then ''Forbidden''
      else if status = status_code DFK_HTTP_NOT_FOUND then ''Not Found''
      else if status = status_code DFK_HTTP_METHOD_NOT_ALLOWED then ''Method Not Allowed''
      else if status = status_code DFK_HTTP_NOT_ACCEPTABLE then ''Not Acceptable''
      else if status = status_code DFK_HTTP_PROXY_AUTHENTICATION_REQUIRED then ''Proxy Authentication Required''
      else if status = status_code DFK_HTTP_REQUEST_TIMEOUT then ''Request Timeout''
      else if status = status_code DFK_HTTP_CONFLICT then ''Conflict''
      else if status = status_code DFK_HTTP_GONE then ''Gone''
      else if status = status_code DFK_HTTP_LENGTH_REQUIRED then ''Length Required''
      else if status = status_code DFK_HTTP_PRECONDITION_FAILED then ''Precondition Failed''
      else if status = status_code DFK_HTTP_PAYLOAD_TOO_LARGE then ''Payload Too Large''
      else if status = status_code DFK_HTTP_URI_TOO_LONG then ''Uri Too Long''
      else if status = status_code DFK_HTTP_UNSUPPORTED_MEDIA_TYPE then ''Unsupported Media Type''
      else if status = status_code DFK_HTTP_RANGE_NOT_SATISFIABLE then ''Range Not Satisfiable''
      else if status = status_code DFK_HTTP_EXPECTATION_FAILED then ''Expectation Failed''
      else if status = status_code DFK_HTTP_I_AM_A_TEAPOT then ''I'm a teapot''
      else if status = status_code DFK_HTTP_MISDIRECTED_REQUEST then ''Misdirected Request''
      else if status = status_code DFK_HTTP_UNPROCESSABLE_ENTITY then ''Unprocessable Entity''
      else if status = status_code DFK_HTTP_LOCKED then ''Locked''
      else if status = status_code DFK_HTTP_FAILED_DEPENDENCY then ''Failed Dependency''
      else if status = status_code DFK_HTTP_UPGRADE_REQUIRED then ''Upgrade Required''
      else if status = status_code DFK_HTTP_PRECONDITION_REQUIRED then ''Precondition Required''
      else if status = status_code DFK_HTTP_TOO_MANY_REQUESTS then ''Too Many Requests''
      else if status = status_code DFK_HTTP_REQUEST_HEADER_FIELDS_TOO_LARGE then ''Request Header Fields Too Large''
      else if status = status_code DFK_HTTP_UNAVAILABLE_FOR_LEGAL_REASONS then ''Unavailable For Legal Reasons''
      else if status = status_code DFK_HTTP_INTERNAL_SERVER_ERROR then ''Internal Server Error''
      else if status = status_code DFK_HTTP_NOT_IMPLEMENTED then ''Not Implemented''
      else if status = status_code DFK_HTTP_BAD_GATEWAY then ''Bad Gateway''
      else if status = status_code DFK_HTTP_SERVICE_UNAVAILABLE then ''Service Unavailable''
      else if status = status_code DFK_HTTP_GATEWAY_TIMEOUT then ''Gateway Timeout''
      else if status = status_code DFK_HTTP_HTTP_VERSION_NOT_SUPPORTED then ''HTTP Version Not Supported''
      else if status = status_code DFK_HTTP_VARIANT_ALSO_NEGOTIATES then ''Variant Also Negotiates''
      else if status = status_code DFK_HTTP_INSUFFICIENT_STORAGE then ''Insufficient Storage''
      else if status = status_code DFK_HTTP_LOOP_DETECTED then ''Loop Detected''
      else if status = status_code DFK_HTTP_NOT_EXTENDED then ''Not Extended''
      else if status = status_code DFK_HTTP_NETWORK_AUTHENTICATION_REQUIRED then ''Network Authentication Required''
      else ''Unknown'')"

end
