(* ===== verification/Dfk_Strtoll.thy ===== *)
theory Dfk_Strtoll
  imports Dfk_Strmap Dfk_Error
begin

text \<open>
  Numbers as text: the conversions \<^verbatim>\<open>%llu\<close> and \<^verbatim>\<open>%d\<close> of the C library, its \<^verbatim>\<open>strtoll\<close>, and \<^verbatim>\<open>src/strtoll.c\<close>, which
  reads a number from a buffer that is not terminated by a zero byte.
\<close>

section \<open>Printing\<close>

fun decimal :: "nat \<Rightarrow> byte list" where
  "decimal n = (if n < 10 then [48 + of_nat n] else decimal (n div 10) @ [48 + of_nat (n mod 10)])"

declare decimal.simps [simp del]

definition decimal_int :: "int \<Rightarrow> byte list" where
  "decimal_int i = (if i < 0 then 45 # decimal (nat (- i)) else decimal (nat i))"

lemma length_decimal: "n < 10 ^ k \<Longrightarrow> 0 < k \<Longrightarrow> length (decimal n) \<le> k \<and> decimal n \<noteq> []"
proof (induction k arbitrary: n)
  case (Suc k)
  show ?case
  proof (cases "n < 10")
    case False
    then have "0 < k" using Suc.prems by (cases k) auto
    then have "length (decimal (n div 10)) \<le> k" using Suc.IH [of "n div 10"] Suc.prems by (simp add: less_mult_imp_div_less)
    with False show ?thesis by (simp add: decimal.simps [of n])
  qed (simp add: decimal.simps [of n])
qed simp

lemma length_decimal_int: "\<bar>i\<bar> < 10 ^ k \<Longrightarrow> 0 < k \<Longrightarrow> length (decimal_int i) \<le> Suc k \<and> decimal_int i \<noteq> []"
  using length_decimal [of "nat \<bar>i\<bar>" k] by (auto simp: decimal_int_def nat_less_iff)

section \<open>The C library's reader\<close>

text \<open>
  \<^verbatim>\<open>strtoll\<close> on a terminated text, given without its terminator: white space, a sign, for base 16 and 0 a prefix, and as
  many digits as there are. The result is the value, the offset behind the last digit (0 when there is no number), and the error;
  a value out of range is replaced by the nearest limit.
\<close>

datatype strtoll_errno = No_error | ERANGE | EINVAL

definition isspace :: "byte \<Rightarrow> bool" where
  "isspace c \<longleftrightarrow> c = 32 \<or> 9 \<le> c \<and> c \<le> 13"

definition digit_value :: "byte \<Rightarrow> nat option" where
  "digit_value c =
     (if 48 \<le> c \<and> c \<le> 57 then Some (unat c - 48)
      else if 97 \<le> c \<and> c \<le> 122 then Some (unat c - 87)
      else if 65 \<le> c \<and> c \<le> 90 then Some (unat c - 55)
      else None)"

definition is_digit :: "nat \<Rightarrow> byte \<Rightarrow> bool" where
  "is_digit base c = (case digit_value c of None \<Rightarrow> False | Some d \<Rightarrow> d < base)"

definition number :: "nat \<Rightarrow> byte list \<Rightarrow> nat" where
  "number base ds = foldl (\<lambda>n c. n * base + the (digit_value c)) 0 ds"

definition read_sign :: "byte list \<Rightarrow> bool \<times> byte list" where
  "read_sign s = (case s of [] \<Rightarrow> (False, [])
     | c # r \<Rightarrow> if c = 45 then (True, r) else if c = 43 then (False, r) else (False, s))"

definition read_prefix :: "int \<Rightarrow> byte list \<Rightarrow> nat \<times> byte list" where
  "read_prefix base s =
     (if (base = 0 \<or> base = 16) \<and> 2 < length s \<and> s ! 0 = 48 \<and> (s ! 1 = 120 \<or> s ! 1 = 88) \<and> is_digit 16 (s ! 2) then (16, drop 2 s)
      else if base = 0 then (if s \<noteq> [] \<and> hd s = 48 then 8 else 10, s)
      else (nat base, s))"

definition LLONG_MAX :: int where "LLONG_MAX = 2 ^ 63 - 1"
definition LLONG_MIN :: int where "LLONG_MIN = - (2 ^ 63)"

definition strtoll :: "byte list \<Rightarrow> int \<Rightarrow> int \<times> nat \<times> strtoll_errno" where
  "strtoll s base =
     (if base < 0 \<or> base = 1 \<or> 36 < base then (0, 0, EINVAL)
      else let (neg, r) = read_sign (dropWhile isspace s);
               (b, r) = read_prefix base r;
               ds = takeWhile (is_digit b) r;
               i = (if neg then - int (number b ds) else int (number b ds));
               e = length s - length (dropWhile (is_digit b) r)
           in if ds = [] then (0, 0, No_error)
              else if LLONG_MAX < i then (LLONG_MAX, e, ERANGE)
              else if i < LLONG_MIN then (LLONG_MIN, e, ERANGE)
              else (i, e, No_error))"

section \<open>The function\<close>

text \<open>
  The result code, the value stored in \<^verbatim>\<open>out\<close>, and the offset stored in \<^verbatim>\<open>endptr\<close> if that is asked for. The text is
  copied to a buffer of 22 bytes; \<open>c_string\<close> is what C takes it for.
\<close>

definition c_string :: "byte list \<Rightarrow> byte list" where
  "c_string s = takeWhile (\<lambda>c. c \<noteq> 0) s"

definition dfk_strtoll :: "byte list \<Rightarrow> bool \<Rightarrow> int \<Rightarrow> (dfk_error_e \<times> int option \<times> nat option) option" where
  "dfk_strtoll nbuf endptr base =
     (if length nbuf \<ge> 22 then Some (dfk_err_overflow, None, None)
      else let ntcopy = nbuf @ [0]; (res, ntendptr, errno) = strtoll (c_string ntcopy) base in
        if errno = ERANGE then Some (dfk_err_overflow, None, None)
        else if errno = EINVAL \<or> ntendptr = 0 then Some (dfk_err_badarg, None, None)
        else if endptr then do {
          c_assert (0 < ntendptr);
          Some (dfk_err_ok, Some res, Some ntendptr)
        } else Some (dfk_err_ok, Some res, None))"

section \<open>Properties\<close>

lemma digit_char:
  assumes "d < 10"
  shows "digit_value (48 + of_nat d) = Some d" "is_digit 10 (48 + of_nat d)" "\<not> isspace (48 + of_nat d)"
    "48 + of_nat d \<noteq> (45 :: byte)" "48 + of_nat d \<noteq> (43 :: byte)" "48 + of_nat d \<noteq> (0 :: byte)"
proof -
  have "d = 0 \<or> d = 1 \<or> d = 2 \<or> d = 3 \<or> d = 4 \<or> d = 5 \<or> d = 6 \<or> d = 7 \<or> d = 8 \<or> d = 9" using assms by presburger
  then show "digit_value (48 + of_nat d) = Some d" "is_digit 10 (48 + of_nat d)" "\<not> isspace (48 + of_nat d)"
    "48 + of_nat d \<noteq> (45 :: byte)" "48 + of_nat d \<noteq> (43 :: byte)" "48 + of_nat d \<noteq> (0 :: byte)"
    by (elim disjE; simp add: digit_value_def is_digit_def isspace_def)+
qed

text \<open>A text that is the decimal form of a number.\<close>

lemma decimal_chars: "c \<in> set (decimal n) \<Longrightarrow> \<exists>d<10. c = 48 + of_nat d"
proof (induction n rule: decimal.induct)
  case (1 n)
  show ?case
  proof (cases "n < 10")
    case True
    then show ?thesis using 1(2) by (auto simp: decimal.simps [of n])
  next
    case False
    then have "c \<in> set (decimal (n div 10)) \<or> c = 48 + of_nat (n mod 10)" using 1(2) by (auto simp: decimal.simps [of n])
    then show ?thesis using 1(1) [OF False] by (metis mod_less_divisor zero_less_numeral)
  qed
qed

lemma number_decimal: "number 10 (decimal n) = n"
proof (induction n rule: decimal.induct)
  case (1 n)
  show ?case
  proof (cases "n < 10")
    case True
    then show ?thesis by (simp add: decimal.simps [of n] number_def digit_char)
  next
    case False
    have d: "digit_value (48 + of_nat (n mod 10)) = Some (n mod 10)" by (rule digit_char) simp
    from False have "decimal n = decimal (n div 10) @ [48 + of_nat (n mod 10)]" by (simp add: decimal.simps [of n])
    then show ?thesis using 1 [OF False] d by (simp add: number_def)
  qed
qed

lemma span_digits:
  assumes "\<forall>c\<in>set xs. P c" "ys = [] \<or> \<not> P (hd ys)"
  shows "takeWhile P (xs @ ys) = xs" "dropWhile P (xs @ ys) = ys"
  using assms by (induction xs) (cases ys; auto)+

lemma decimal_not_Nil: "decimal n \<noteq> []"
  by (simp add: decimal.simps [of n])

lemma strtoll_decimal:
  assumes "r = [] \<or> \<not> is_digit 10 (hd r)"
  shows "strtoll (decimal_int i @ r) 10 =
    (if LLONG_MAX < i then (LLONG_MAX, length (decimal_int i), ERANGE)
     else if i < LLONG_MIN then (LLONG_MIN, length (decimal_int i), ERANGE)
     else (i, length (decimal_int i), No_error))"
proof -
  define n where "n = nat \<bar>i\<bar>"
  obtain c cs where c: "decimal n = c # cs" using decimal_not_Nil by (cases "decimal n") auto
  obtain d where d: "d < 10" "c = 48 + of_nat d" using decimal_chars [of c n] c by auto
  have s: "read_sign (dropWhile isspace (decimal_int i @ r)) = (i < 0, decimal n @ r)"
    using digit_char(3-5) [OF d(1)] c d(2) by (auto simp: decimal_int_def n_def read_sign_def isspace_def)
  have dg: "\<forall>c\<in>set (decimal n). is_digit 10 c" using decimal_chars digit_char(2) by blast
  note sp = span_digits [OF dg assms]
  have l: "length (decimal_int i) = (if i < 0 then 1 else 0) + length (decimal n)" by (simp add: decimal_int_def n_def)
  show ?thesis
    using l decimal_not_Nil [of n]
    by (simp add: strtoll_def s read_prefix_def sp number_decimal) (auto simp: n_def)
qed

lemma decimal_int_chars: "c \<in> set (decimal_int i) \<Longrightarrow> c \<noteq> 0"
  using decimal_chars digit_char(6) by (fastforce simp: decimal_int_def split: if_splits)

text \<open>
  C39. Numbers survive the way through short texts: the decimal form of every value of a \<^verbatim>\<open>long long\<close>, with anything behind it that does
  not begin with a digit, is read back with the value and the position behind it if the whole is shorter than 22 bytes. A text of 22 bytes or
  more is reported as an overflow, also when the number at its beginning is in range, and so is a value out of the range of a \<^verbatim>\<open>long long\<close>.
\<close>

theorem strtoll_roundtrip:
  assumes "r = [] \<or> \<not> is_digit 10 (hd r)"
  shows "dfk_strtoll (decimal_int i @ r) True 10 =
    (if length (decimal_int i @ r) < 22 \<and> LLONG_MIN \<le> i \<and> i \<le> LLONG_MAX
     then Some (dfk_err_ok, Some i, Some (length (decimal_int i))) else Some (dfk_err_overflow, None, None))"
proof -
  have nz: "\<forall>c\<in>set (decimal_int i). c \<noteq> 0" using decimal_int_chars by blast
  have z: "\<not> is_digit 10 0" by (simp add: is_digit_def digit_value_def)
  have c: "c_string (decimal_int i @ r @ [0]) = decimal_int i @ c_string (r @ [0])"
    using nz by (simp add: c_string_def takeWhile_append2)
  have r: "c_string (r @ [0]) = [] \<or> \<not> is_digit 10 (hd (c_string (r @ [0])))"
    using assms by (cases r) (auto simp: c_string_def)
  have "decimal_int i \<noteq> []" by (simp add: decimal_int_def decimal_not_Nil)
  then show ?thesis
    using strtoll_decimal [OF r, of i] by (auto simp: dfk_strtoll_def c)
qed

theorem strtoll_roundtrip_witness:
  "dfk_strtoll (str ''1901-2016'') True 10 = Some (dfk_err_ok, Some 1901, Some 4)"
proof -
  have "str ''1901-2016'' = decimal_int 1901 @ str ''-2016''" by (simp add: decimal_int_def decimal.simps str_def)
  then show ?thesis
    using strtoll_roundtrip [of "str ''-2016''" 1901]
    by (simp add: decimal_int_def decimal.simps str_def is_digit_def digit_value_def LLONG_MIN_def LLONG_MAX_def)
qed

end
