(* ===== verification/Dfk_Tcp_Server.thy ===== *)
theory Dfk_Tcp_Server
  imports Dfk_List Dfk_Socket
begin

text \<open>
  TCP and HTTP servers: \<^verbatim>\<open>src/tcp_server.c\<close>, the wrappers of \<^verbatim>\<open>src/http/server.c\<close> and \<^verbatim>\<open>dfk_stop\<close> of
  \<^verbatim>\<open>src/context.c\<close>. A server object and its list hook have the same address here; the objects are kept in a
  memory of their own. \<^verbatim>\<open>dfk_tcp_serve\<close> runs in a fiber of its own beside the fibers of the connections: its pieces
  between two points where other fibers may run are definitions of their own, which the function composes and which
  the steps of the interleaving use.
\<close>

section \<open>Data\<close>

datatype tcp_server_state =
    DFK_TCP_SERVER_INITIALIZED
  | DFK_TCP_SERVER_SERVING
  | DFK_TCP_SERVER_STOP_REQUESTED
  | DFK_TCP_SERVER_STOP_WAIT_CONNECTIONS
  | DFK_TCP_SERVER_STOPPED

record dfk_tcp_server_t =
  srv_s :: dfk_tcp_socket_t
  srv_active_connections :: size_t
  srv_state :: tcp_server_state

text \<open>The hooks and the server objects, the fields \<^verbatim>\<open>_tcp_servers\<close> and \<^verbatim>\<open>_stopped\<close> of the context, and the system.\<close>

record 'o srv_world =
  sw_hooks :: hooks
  sw_servers :: "dfk_tcp_server_t mem"
  sw_tcp_servers :: dfk_list_t
  sw_stopped :: bool
  sw_ctx :: dfk_ctx
  sw_os :: 'o

section \<open>One server\<close>

definition dfk_tcp_server_init :: "'o srv_world \<Rightarrow> addr \<Rightarrow> 'o srv_world option" where
  "dfk_tcp_server_init w server = do {
     c_assert (server \<noteq> NULL);
     h \<leftarrow> dfk_list_hook_init (sw_hooks w) server;
     servers \<leftarrow> modify (sw_servers w) server
       (\<lambda>srv. srv\<lparr>srv_active_connections := 0, srv_state := DFK_TCP_SERVER_INITIALIZED\<rparr>);
     Some (w\<lparr>sw_hooks := h, sw_servers := servers\<rparr>)
   }"

definition dfk_tcp_server_free :: "dfk_tcp_server_t \<Rightarrow> unit option" where
  "dfk_tcp_server_free server =
     c_assert (srv_state server = DFK_TCP_SERVER_INITIALIZED \<or> srv_state server = DFK_TCP_SERVER_STOPPED)"

text \<open>
  The callback of a connection, before and after it calls the handler. The second half says whether it
  resumes the serving fiber.
\<close>

definition callback_enter :: "dfk_tcp_server_t \<Rightarrow> dfk_tcp_server_t" where
  "callback_enter server = server\<lparr>srv_active_connections := srv_active_connections server + 1\<rparr>"

definition callback_leave :: "dfk_tcp_server_t \<Rightarrow> dfk_tcp_server_t \<times> bool" where
  "callback_leave server =
     (let server = server\<lparr>srv_active_connections := srv_active_connections server - 1\<rparr>
      in (server, srv_active_connections server = 0 \<and> srv_state server = DFK_TCP_SERVER_STOP_WAIT_CONNECTIONS))"

text \<open>Serving: the part before the listening, the part after it, and the part after the last connection.\<close>

definition serve_begin ::
  "'o os_ops \<Rightarrow> bool \<Rightarrow> 'o srv_world \<Rightarrow> addr \<Rightarrow> (dfk_error_e \<times> 'o srv_world) option" where
  "serve_begin S nonblock w server = do {
     (h, tcp_servers) \<leftarrow> dfk_list_append (sw_hooks w) (sw_tcp_servers w) server;
     let w = w\<lparr>sw_hooks := h, sw_tcp_servers := tcp_servers\<rparr>;
     srv \<leftarrow> load (sw_servers w) server;
     let (err, sock, c, s) = dfk_tcp_socket_init S nonblock (sw_ctx w) (sw_os w) (srv_s srv);
     let srv = srv\<lparr>srv_s := sock\<rparr>;
     let srv = (if err = dfk_err_ok then srv\<lparr>srv_state := DFK_TCP_SERVER_SERVING\<rparr> else srv);
     Some (err, w\<lparr>sw_servers := (sw_servers w)(server \<mapsto> srv), sw_ctx := c, sw_os := s\<rparr>)
   }"

definition serve_listened :: "dfk_tcp_server_t \<Rightarrow> dfk_tcp_server_t \<times> bool" where
  "serve_listened server =
     (if srv_active_connections server \<noteq> 0
      then (server\<lparr>srv_state := DFK_TCP_SERVER_STOP_WAIT_CONNECTIONS\<rparr>, True) else (server, False))"

definition serve_end ::
  "'o os_ops \<Rightarrow> dfk_ctx \<Rightarrow> 'o \<Rightarrow> dfk_tcp_server_t \<Rightarrow> dfk_error_e \<times> dfk_tcp_server_t \<times> dfk_ctx \<times> 'o" where
  "serve_end S c s server = (case dfk_tcp_socket_close S c (srv_s server) s of (err, c, s) \<Rightarrow>
     if err \<noteq> dfk_err_ok then (err, server, c, s)
     else (dfk_err_ok, server\<lparr>srv_state := DFK_TCP_SERVER_STOPPED\<rparr>, c, s))"

text \<open>
  The whole function. \<open>others\<close> is what the fibers of the connections and other fibers have done to the server
  objects by the time listening returns, and by the time the fiber is resumed.
\<close>

definition dfk_tcp_serve ::
  "'o os_ops \<Rightarrow> bool \<Rightarrow> ('o srv_world \<Rightarrow> 'o srv_world) \<Rightarrow> ('o srv_world \<Rightarrow> 'o srv_world) \<Rightarrow> 'o srv_world \<Rightarrow> addr
    \<Rightarrow> string \<Rightarrow> 16 word \<Rightarrow> nat \<Rightarrow> (dfk_error_e \<times> 'o srv_world) option" where
  "dfk_tcp_serve S nonblock others others' w server endpoint port backlog = do {
     (err, w) \<leftarrow> serve_begin S nonblock w server;
     if err \<noteq> dfk_err_ok then Some (err, w)
     else do {
       srv \<leftarrow> load (sw_servers w) server;
       (err, c, s) \<leftarrow> dfk_tcp_socket_listen S (sw_ctx w) (srv_s srv) endpoint port backlog (sw_os w);
       let w = others (w\<lparr>sw_ctx := c, sw_os := s\<rparr>);
       if err \<noteq> dfk_err_ok then Some (err, w)
       else do {
         srv \<leftarrow> load (sw_servers w) server;
         let (srv, suspend) = serve_listened srv;
         let w = w\<lparr>sw_servers := (sw_servers w)(server \<mapsto> srv)\<rparr>;
         let w = (if suspend then others' w else w);
         srv \<leftarrow> load (sw_servers w) server;
         let (err, srv, c, s) = serve_end S (sw_ctx w) (sw_os w) srv;
         Some (err, w\<lparr>sw_servers := (sw_servers w)(server \<mapsto> srv), sw_ctx := c, sw_os := s\<rparr>)
       }
     }
   }"

definition dfk_tcp_server_is_stopping :: "dfk_tcp_server_t \<Rightarrow> bool" where
  "dfk_tcp_server_is_stopping server \<longleftrightarrow> srv_state server = DFK_TCP_SERVER_STOP_REQUESTED
     \<or> srv_state server = DFK_TCP_SERVER_STOP_WAIT_CONNECTIONS \<or> srv_state server = DFK_TCP_SERVER_STOPPED"

definition dfk_tcp_server_stop ::
  "'o os_ops \<Rightarrow> dfk_ctx \<Rightarrow> 'o \<Rightarrow> dfk_tcp_server_t \<Rightarrow> (dfk_error_e \<times> dfk_tcp_server_t \<times> dfk_ctx \<times> 'o) option" where
  "dfk_tcp_server_stop S c s server = do {
     c_assert (srv_state server = DFK_TCP_SERVER_SERVING);
     let (err, c, s) = dfk_tcp_socket_shutdown S c (srv_s server) DFK_SHUT_RDWR s;
     if err \<noteq> dfk_err_ok then Some (err, server, c, s)
     else Some (dfk_err_ok, server\<lparr>srv_state := DFK_TCP_SERVER_STOP_REQUESTED\<rparr>, c, s)
   }"

section \<open>The HTTP server\<close>

text \<open>The limits are configured when the library is built.\<close>

record http_config =
  DFK_HTTP_KEEPALIVE_REQUESTS :: int
  DFK_HTTP_HEADER_MAX_SIZE_cfg :: size_t
  DFK_HTTP_HEADERS_BUFFER_SIZE :: size_t
  DFK_HTTP_HEADERS_BUFFER_COUNT :: size_t

record dfk_http_t =
  http_server :: addr
  http_keepalive_requests :: int
  http_header_max_size :: size_t
  http_headers_buffer_size :: size_t
  http_headers_buffer_count :: size_t

definition dfk_http_init :: "http_config \<Rightarrow> 'o srv_world \<Rightarrow> addr \<Rightarrow> (dfk_http_t \<times> 'o srv_world) option" where
  "dfk_http_init cfg w server = do {
     let http = \<lparr>http_server = server, http_keepalive_requests = DFK_HTTP_KEEPALIVE_REQUESTS cfg,
       http_header_max_size = DFK_HTTP_HEADER_MAX_SIZE_cfg cfg,
       http_headers_buffer_size = DFK_HTTP_HEADERS_BUFFER_SIZE cfg,
       http_headers_buffer_count = DFK_HTTP_HEADERS_BUFFER_COUNT cfg\<rparr>;
     w \<leftarrow> dfk_tcp_server_init w server;
     Some (http, w)
   }"

definition dfk_http_is_stopping :: "'o srv_world \<Rightarrow> dfk_http_t \<Rightarrow> bool option" where
  "dfk_http_is_stopping w http = do {
     srv \<leftarrow> load (sw_servers w) (http_server http);
     Some (dfk_tcp_server_is_stopping srv)
   }"

definition dfk_http_stop :: "'o os_ops \<Rightarrow> 'o srv_world \<Rightarrow> dfk_http_t \<Rightarrow> (dfk_error_e \<times> 'o srv_world) option" where
  "dfk_http_stop S w http = do {
     srv \<leftarrow> load (sw_servers w) (http_server http);
     (err, srv, c, s) \<leftarrow> dfk_tcp_server_stop S (sw_ctx w) (sw_os w) srv;
     Some (err, w\<lparr>sw_servers := (sw_servers w)(http_server http \<mapsto> srv), sw_ctx := c, sw_os := s\<rparr>)
   }"

definition dfk_http_free :: "'o srv_world \<Rightarrow> dfk_http_t \<Rightarrow> unit option" where
  "dfk_http_free w http = do {
     srv \<leftarrow> load (sw_servers w) (http_server http);
     dfk_tcp_server_free srv
   }"

definition dfk_http_serve ::
  "'o os_ops \<Rightarrow> bool \<Rightarrow> ('o srv_world \<Rightarrow> 'o srv_world) \<Rightarrow> ('o srv_world \<Rightarrow> 'o srv_world) \<Rightarrow> 'o srv_world \<Rightarrow> dfk_http_t
    \<Rightarrow> string \<Rightarrow> 16 word \<Rightarrow> nat \<Rightarrow> (dfk_error_e \<times> 'o srv_world) option" where
  "dfk_http_serve S nonblock others others' w http endpoint port backlog = do {
     c_assert (port \<noteq> 0);
     dfk_tcp_serve S nonblock others others' w (http_server http) endpoint port backlog
   }"

section \<open>Stopping all servers\<close>

partial_function (option) stop_loop ::
  "'o os_ops \<Rightarrow> dfk_list_it \<Rightarrow> dfk_list_it \<Rightarrow> 'o srv_world \<Rightarrow> 'o srv_world option" where
  "stop_loop S it end w = do {
     eq \<leftarrow> dfk_list_it_equal (sw_hooks w) it end;
     if eq then Some w
     else do {
       srv \<leftarrow> load (sw_servers w) (it_value it);
       (err, srv, c, s) \<leftarrow> dfk_tcp_server_stop S (sw_ctx w) (sw_os w) srv;
       let w = w\<lparr>sw_servers := (sw_servers w)(it_value it \<mapsto> srv), sw_ctx := c, sw_os := s\<rparr>;
       it \<leftarrow> dfk_list_it_next (sw_hooks w) it;
       stop_loop S it end w
     }
   }"

definition dfk_stop :: "'o os_ops \<Rightarrow> 'o srv_world \<Rightarrow> (dfk_error_e \<times> 'o srv_world) option" where
  "dfk_stop S w =
     (if sw_stopped w then Some (dfk_err_ok, w)
      else do {
        let w = w\<lparr>sw_stopped := True\<rparr>;
        it \<leftarrow> dfk_list_begin (sw_hooks w) (sw_tcp_servers w);
        end \<leftarrow> dfk_list_end (sw_hooks w) (sw_tcp_servers w);
        w \<leftarrow> stop_loop S it end w;
        Some (dfk_err_ok, w)
      })"

section \<open>Interleaving\<close>

text \<open>
  One server with its serving fiber and the fibers of its connections. The fiber of a connection is pending from
  \<^verbatim>\<open>dfk_spawn\<close> until it runs for the first time, and running from then until the handler returns. \<open>cfg_wakeups\<close> counts
  how often the serving fiber has been resumed and has not run since, and \<open>cfg_dangling\<close> says whether a callback has used the
  structure \<^verbatim>\<open>listen_ud\<close>, which lies on the stack of \<^verbatim>\<open>dfk_tcp_serve\<close>, after that function has returned. An accepted connection for which
  there is no memory for a fiber changes nothing here.
\<close>

datatype serve_pc = Idle | Listening | Suspended | Ending | Returned dfk_error_e

record serve_cfg =
  cfg_server :: dfk_tcp_server_t
  cfg_pc :: serve_pc
  cfg_pending :: nat
  cfg_running :: nat
  cfg_wakeups :: nat
  cfg_dangling :: bool

fun has_returned :: "serve_pc \<Rightarrow> bool" where
  "has_returned (Returned err) \<longleftrightarrow> True"
| "has_returned _ \<longleftrightarrow> False"

text \<open>\<open>L\<close> is the set of results listening can return.\<close>

inductive serve_step :: "'o os_ops \<Rightarrow> dfk_error_e set \<Rightarrow> serve_cfg \<Rightarrow> serve_cfg \<Rightarrow> bool" for S L where
  Begin: "cfg_pc cfg = Idle \<Longrightarrow> dfk_tcp_socket_init S nonblock c s (srv_s (cfg_server cfg)) = (dfk_err_ok, sock, c', s') \<Longrightarrow>
    serve_step S L cfg (cfg\<lparr>cfg_pc := Listening,
      cfg_server := (cfg_server cfg)\<lparr>srv_s := sock, srv_state := DFK_TCP_SERVER_SERVING\<rparr>\<rparr>)"
| Begin_fails: "cfg_pc cfg = Idle \<Longrightarrow> dfk_tcp_socket_init S nonblock c s (srv_s (cfg_server cfg)) = (err, sock, c', s') \<Longrightarrow>
    err \<noteq> dfk_err_ok \<Longrightarrow>
    serve_step S L cfg (cfg\<lparr>cfg_pc := Returned err, cfg_server := (cfg_server cfg)\<lparr>srv_s := sock\<rparr>\<rparr>)"
| Accept: "cfg_pc cfg = Listening \<Longrightarrow> serve_step S L cfg (cfg\<lparr>cfg_pending := cfg_pending cfg + 1\<rparr>)"
| Enter: "cfg_pending cfg = Suc n \<Longrightarrow>
    serve_step S L cfg (cfg\<lparr>cfg_pending := n, cfg_running := cfg_running cfg + 1, cfg_server := callback_enter (cfg_server cfg),
      cfg_dangling := cfg_dangling cfg \<or> has_returned (cfg_pc cfg)\<rparr>)"
| Leave: "cfg_running cfg = Suc n \<Longrightarrow> callback_leave (cfg_server cfg) = (server, wake) \<Longrightarrow>
    serve_step S L cfg (cfg\<lparr>cfg_running := n, cfg_server := server,
      cfg_wakeups := cfg_wakeups cfg + (if wake then 1 else 0), cfg_dangling := cfg_dangling cfg \<or> has_returned (cfg_pc cfg)\<rparr>)"
| Stop: "dfk_tcp_server_stop S c s (cfg_server cfg) = Some (err, server, c', s') \<Longrightarrow>
    serve_step S L cfg (cfg\<lparr>cfg_server := server\<rparr>)"
| Listen_fails: "cfg_pc cfg = Listening \<Longrightarrow> err \<in> L \<Longrightarrow> err \<noteq> dfk_err_ok \<Longrightarrow>
    serve_step S L cfg (cfg\<lparr>cfg_pc := Returned err\<rparr>)"
| Listened: "cfg_pc cfg = Listening \<Longrightarrow> dfk_err_ok \<in> L \<Longrightarrow> serve_listened (cfg_server cfg) = (server, suspend) \<Longrightarrow>
    serve_step S L cfg (cfg\<lparr>cfg_server := server, cfg_pc := if suspend then Suspended else Ending\<rparr>)"
| Wake: "cfg_pc cfg = Suspended \<Longrightarrow> cfg_wakeups cfg = Suc n \<Longrightarrow>
    serve_step S L cfg (cfg\<lparr>cfg_wakeups := n, cfg_pc := Ending\<rparr>)"
| End: "cfg_pc cfg = Ending \<Longrightarrow> serve_end S c s (cfg_server cfg) = (err, server, c', s') \<Longrightarrow>
    serve_step S L cfg (cfg\<lparr>cfg_server := server, cfg_pc := Returned err\<rparr>)"

definition serve_start :: "dfk_tcp_socket_t \<Rightarrow> serve_cfg" where
  "serve_start sock = \<lparr>cfg_server = \<lparr>srv_s = sock, srv_active_connections = 0, srv_state = DFK_TCP_SERVER_INITIALIZED\<rparr>,
     cfg_pc = Idle, cfg_pending = 0, cfg_running = 0, cfg_wakeups = 0, cfg_dangling = False\<rparr>"

definition serve_reach :: "'o os_ops \<Rightarrow> dfk_error_e set \<Rightarrow> serve_cfg \<Rightarrow> bool" where
  "serve_reach S L cfg \<longleftrightarrow> (\<exists>sock. (serve_step S L)\<^sup>*\<^sup>* (serve_start sock) cfg)"

text \<open>The serving fiber and the state of the server, and that no wake-up is lost.\<close>

fun pc_ok :: "serve_pc \<Rightarrow> tcp_server_state \<Rightarrow> bool" where
  "pc_ok Idle st \<longleftrightarrow> st = DFK_TCP_SERVER_INITIALIZED"
| "pc_ok Listening st \<longleftrightarrow> st = DFK_TCP_SERVER_SERVING \<or> st = DFK_TCP_SERVER_STOP_REQUESTED"
| "pc_ok Suspended st \<longleftrightarrow> st = DFK_TCP_SERVER_STOP_WAIT_CONNECTIONS"
| "pc_ok Ending st \<longleftrightarrow> st \<noteq> DFK_TCP_SERVER_INITIALIZED \<and> st \<noteq> DFK_TCP_SERVER_STOPPED"
| "pc_ok (Returned err) st \<longleftrightarrow> (st = DFK_TCP_SERVER_STOPPED \<longleftrightarrow> err = dfk_err_ok)"

definition serve_inv :: "serve_cfg \<Rightarrow> bool" where
  "serve_inv cfg \<longleftrightarrow> srv_active_connections (cfg_server cfg) = of_nat (cfg_running cfg)
     \<and> pc_ok (cfg_pc cfg) (srv_state (cfg_server cfg))
     \<and> (cfg_pc cfg = Suspended \<longrightarrow> cfg_running cfg > 0 \<or> cfg_wakeups cfg > 0)
     \<and> (cfg_dangling cfg \<longrightarrow> has_returned (cfg_pc cfg))"

lemma serve_step_inv: "serve_step S L cfg cfg' \<Longrightarrow> serve_inv cfg \<Longrightarrow> serve_inv cfg'"
proof (induction rule: serve_step.induct)
  case (Leave cfg n server wake)
  then show ?case
    by (cases "cfg_pc cfg"; cases n) (auto simp: serve_inv_def callback_leave_def Let_def)
next
  case (Stop c s cfg err server c' s')
  then show ?case
    by (cases "cfg_pc cfg") (auto simp: serve_inv_def dfk_tcp_server_stop_def Let_def split: if_splits prod.splits)
next
  case (Enter cfg n)
  then show ?case by (auto simp: serve_inv_def callback_enter_def)
next
  case (Listened cfg server suspend)
  then show ?case by (cases "cfg_running cfg") (auto simp: serve_inv_def serve_listened_def split: if_splits)
next
  case (End cfg c s err server c' s')
  then show ?case by (auto simp: serve_inv_def serve_end_def split: if_splits prod.splits)
qed (auto simp: serve_inv_def)

lemma serve_reach_inv: "serve_reach S L cfg \<Longrightarrow> serve_inv cfg"
proof -
  have "serve_inv cfg" if "(serve_step S L)\<^sup>*\<^sup>* (serve_start sock) cfg" for sock
    using that
  proof induction
    case base
    then show ?case by (simp add: serve_inv_def serve_start_def)
  next
    case (step y z)
    then show ?case using serve_step_inv by blast
  qed
  then show "serve_reach S L cfg \<Longrightarrow> serve_inv cfg" by (auto simp: serve_reach_def)
qed

section \<open>Listening only ever fails\<close>

lemma accept_loop_error:
  assumes ret: "accept_loop S c sock s = Some r"
  shows "fst r = dfk_err_sys"
proof (rule accept_loop.raw_induct [where P = "\<lambda>S c sock s r. fst r = dfk_err_sys", OF _ ret], goal_cases)
  case (1 f S c sock s r)
  then show ?case by (auto split: prod.splits if_splits)
qed

definition listen_results :: "'o os_ops \<Rightarrow> dfk_error_e set" where
  "listen_results S = {err. \<exists>c sock endpoint port backlog s c' s'.
     dfk_tcp_socket_listen S c sock endpoint port backlog s = Some (err, c', s')}"

lemma listen_error:
  assumes "dfk_tcp_socket_listen S c sock endpoint port backlog s = Some (err, c', s')"
  shows "err = dfk_err_sys"
proof -
  obtain r1 s1 where b: "os_bind S (t_socket sock) endpoint port s = (r1, s1)" by (cases "os_bind S (t_socket sock) endpoint port s")
  obtain r2 s2 where l: "os_listen S (t_socket sock) backlog s1 = (r2, s2)" by (cases "os_listen S (t_socket sock) backlog s1")
  show ?thesis
    using assms b l by (auto simp: dfk_tcp_socket_listen_def Let_def split: if_splits dest: accept_loop_error)
qed

lemma listen_results_fail: "listen_results S \<subseteq> {dfk_err_sys}"
  using listen_error by (auto simp: listen_results_def)

lemma serve_step_fail:
  assumes "serve_step S L cfg cfg'" "dfk_err_ok \<notin> L"
    and "srv_state (cfg_server cfg) \<notin> {DFK_TCP_SERVER_STOP_WAIT_CONNECTIONS, DFK_TCP_SERVER_STOPPED} \<and> cfg_pc cfg \<noteq> Ending \<and> cfg_pc cfg \<noteq> Suspended \<and> cfg_wakeups cfg = 0"
  shows "srv_state (cfg_server cfg') \<notin> {DFK_TCP_SERVER_STOP_WAIT_CONNECTIONS, DFK_TCP_SERVER_STOPPED} \<and> cfg_pc cfg' \<noteq> Ending \<and> cfg_pc cfg' \<noteq> Suspended \<and> cfg_wakeups cfg' = 0"
  using assms
  by (induction rule: serve_step.induct)
    (auto simp: callback_enter_def callback_leave_def dfk_tcp_server_stop_def Let_def split: prod.splits if_splits)

section \<open>Stopping\<close>

text \<open>What \<^verbatim>\<open>dfk_stop\<close> does to one server: its state depends on whether the socket could be shut down.\<close>

definition stopped_like :: "dfk_tcp_server_t \<Rightarrow> dfk_tcp_server_t \<Rightarrow> bool" where
  "stopped_like srv srv' \<longleftrightarrow> srv' = srv \<or> srv' = srv\<lparr>srv_state := DFK_TCP_SERVER_STOP_REQUESTED\<rparr>"

lemma server_stop_serving:
  assumes "srv_state srv = DFK_TCP_SERVER_SERVING"
  shows "\<exists>err srv' c' s'. dfk_tcp_server_stop S c s srv = Some (err, srv', c', s')
    \<and> (if err = dfk_err_ok then srv' = srv\<lparr>srv_state := DFK_TCP_SERVER_STOP_REQUESTED\<rparr> else srv' = srv)"
proof -
  obtain err c' s' where "dfk_tcp_socket_shutdown S c (srv_s srv) DFK_SHUT_RDWR s = (err, c', s')" using prod_cases3 by blast
  then show ?thesis using assms by (simp add: dfk_tcp_server_stop_def)
qed

lemma stop_loop_ok:
  assumes "list_rep (sw_hooks w) l (xs @ ys)" "\<forall>a\<in>set ys. \<exists>srv. sw_servers w a = Some srv \<and> srv_state srv = DFK_TCP_SERVER_SERVING"
  shows "\<exists>w'. stop_loop S \<lparr>it_value = hd_or ys NULL\<rparr> \<lparr>it_value = NULL\<rparr> w = Some w'
    \<and> (\<forall>a. a \<notin> set ys \<longrightarrow> sw_servers w' a = sw_servers w a)
    \<and> (\<forall>a\<in>set ys. \<exists>srv srv'. sw_servers w a = Some srv \<and> sw_servers w' a = Some srv' \<and> stopped_like srv srv')
    \<and> sw_hooks w' = sw_hooks w \<and> sw_tcp_servers w' = sw_tcp_servers w \<and> sw_stopped w' = sw_stopped w"
  using assms
proof (induction ys arbitrary: xs w)
  case Nil
  then show ?case by (subst stop_loop.simps) (use list_it_equal_spec [OF Nil(1)] in auto)
next
  case (Cons y ys)
  have y: "y \<noteq> NULL" "distinct (xs @ y # ys)" using Cons.prems(1) list_rep_not_NULL by (fastforce simp: list_rep_def)+
  obtain srv where srv: "sw_servers w y = Some srv" "srv_state srv = DFK_TCP_SERVER_SERVING" using Cons.prems(2) by auto
  obtain err srv' c' s' where st: "dfk_tcp_server_stop S (sw_ctx w) (sw_os w) srv = Some (err, srv', c', s')" "stopped_like srv srv'"
    using server_stop_serving [OF srv(2), of S "sw_ctx w" "sw_os w"] by (auto simp: stopped_like_def split: if_splits)
  let ?w = "w\<lparr>sw_servers := (sw_servers w)(y \<mapsto> srv'), sw_ctx := c', sw_os := s'\<rparr>"
  have r: "list_rep (sw_hooks ?w) l ((xs @ [y]) @ ys)" using Cons.prems(1) by simp
  have q: "\<forall>a\<in>set ys. \<exists>srv. sw_servers ?w a = Some srv \<and> srv_state srv = DFK_TCP_SERVER_SERVING"
    using Cons.prems(2) y(2) by auto
  obtain w' where w': "stop_loop S \<lparr>it_value = hd_or ys NULL\<rparr> \<lparr>it_value = NULL\<rparr> ?w = Some w'"
    "\<forall>a. a \<notin> set ys \<longrightarrow> sw_servers w' a = sw_servers ?w a"
    "\<forall>a\<in>set ys. \<exists>srv srv'. sw_servers ?w a = Some srv \<and> sw_servers w' a = Some srv' \<and> stopped_like srv srv'"
    "sw_hooks w' = sw_hooks ?w" "sw_tcp_servers w' = sw_tcp_servers ?w" "sw_stopped w' = sw_stopped ?w"
    using Cons.IH [OF r q] by blast
  have "stop_loop S \<lparr>it_value = hd_or (y # ys) NULL\<rparr> \<lparr>it_value = NULL\<rparr> w = Some w'"
    using y(1) srv(1) st(1) w'(1) list_it_equal_spec [OF Cons.prems(1)] list_it_next_spec [OF Cons.prems(1), of "\<lparr>it_value = y\<rparr>"]
    by (subst stop_loop.simps) simp
  moreover have "\<exists>srv srv'. sw_servers w a = Some srv \<and> sw_servers w' a = Some srv' \<and> stopped_like srv srv'" if "a \<in> set (y # ys)" for a
  proof (cases "a = y")
    case True
    then show ?thesis using w'(2) y(2) srv(1) st(2) by auto
  next
    case False
    then show ?thesis using w'(3) that by fastforce
  qed
  moreover have "sw_servers w' a = sw_servers w a" if "a \<notin> set (y # ys)" for a using w'(2) that by auto
  ultimately show ?case using w'(4-6) by (intro exI [of _ w']) simp
qed

lemma stop_loop_abort:
  assumes "list_rep (sw_hooks w) l (xs @ ys)" "a \<in> set ys" "sw_servers w a = Some srv" "srv_state srv \<noteq> DFK_TCP_SERVER_SERVING"
  shows "stop_loop S \<lparr>it_value = hd_or ys NULL\<rparr> \<lparr>it_value = NULL\<rparr> w = None"
  using assms
proof (induction ys arbitrary: xs w)
  case (Cons y ys)
  have y: "y \<noteq> NULL" "distinct (xs @ y # ys)" using Cons.prems(1) list_rep_not_NULL by (fastforce simp: list_rep_def)+
  note it = list_it_equal_spec [OF Cons.prems(1)] list_it_next_spec [OF Cons.prems(1), of "\<lparr>it_value = y\<rparr>"]
  show ?case
  proof (cases "a = y")
    case True
    then show ?thesis using y it Cons.prems by (subst stop_loop.simps) (simp add: dfk_tcp_server_stop_def)
  next
    case False
    have "stop_loop S \<lparr>it_value = hd_or ys NULL\<rparr> \<lparr>it_value = NULL\<rparr> (w\<lparr>sw_servers := (sw_servers w)(y \<mapsto> v), sw_ctx := c, sw_os := s\<rparr>) = None" for v c s
      using Cons.IH [of _ "xs @ [y]"] Cons.prems False by auto
    then show ?thesis using y it by (subst stop_loop.simps) (auto simp: Let_def split: Option.bind_split)
  qed
qed simp

section \<open>Properties\<close>

lemma serve_reach_fail:
  assumes "serve_reach S (listen_results S) cfg"
  shows "srv_state (cfg_server cfg) \<notin> {DFK_TCP_SERVER_STOP_WAIT_CONNECTIONS, DFK_TCP_SERVER_STOPPED}
    \<and> cfg_pc cfg \<noteq> Ending \<and> cfg_pc cfg \<noteq> Suspended \<and> cfg_wakeups cfg = 0"
proof -
  have ok: "dfk_err_ok \<notin> listen_results S" using listen_results_fail [of S] by auto
  obtain sock where "(serve_step S (listen_results S))\<^sup>*\<^sup>* (serve_start sock) cfg" using assms by (auto simp: serve_reach_def)
  then show ?thesis
  proof induction
    case (step y z)
    then show ?case using serve_step_fail [OF _ ok] by blast
  qed (simp add: serve_start_def)
qed

lemma sample_listen: "dfk_err_sys \<in> listen_results sample_os"
proof -
  obtain c' s' where "accept_loop sample_os sample_ctx 3 sample_kernel = Some (dfk_err_sys, c', s')"
    using accept_loop_ok [OF sample_backlog] by blast
  then have "dfk_tcp_socket_listen sample_os sample_ctx \<lparr>t_socket = 3\<rparr> ''::'' 80 1 sample_kernel = Some (dfk_err_sys, c', s')"
    by (simp add: dfk_tcp_socket_listen_def sample_os_def)
  then show ?thesis unfolding listen_results_def by blast
qed

text \<open>
  C19. Accounting of connections in every interleaving of one server's serving fiber, the fibers of its connections and calls of
  \<^verbatim>\<open>dfk_tcp_server_stop\<close>: the counter of active connections is the number of handlers that are running, also while and after
  \<^verbatim>\<open>dfk_tcp_serve\<close> returns; the server is initialized as long as it is not served, and serving or asked to stop while it listens and after
  listening has ended. As listening only ends in failure, no handler ever wakes the serving fiber up; a callback that begins or ends
  when \<^verbatim>\<open>dfk_tcp_serve\<close> has returned uses its stack, and none does so before. The interleaving is a step relation over the pieces of the
  functions between two suspensions; the flow of connections is abstract, any number may arrive.
\<close>

theorem server_accounting:
  assumes "serve_reach S (listen_results S) cfg"
  shows "srv_active_connections (cfg_server cfg) = of_nat (cfg_running cfg)
    \<and> (case cfg_pc cfg of Idle \<Rightarrow> srv_state (cfg_server cfg) = DFK_TCP_SERVER_INITIALIZED
        | Listening \<Rightarrow> srv_state (cfg_server cfg) \<in> {DFK_TCP_SERVER_SERVING, DFK_TCP_SERVER_STOP_REQUESTED}
        | Returned err \<Rightarrow> err \<noteq> dfk_err_ok \<and> srv_state (cfg_server cfg)
            \<in> {DFK_TCP_SERVER_INITIALIZED, DFK_TCP_SERVER_SERVING, DFK_TCP_SERVER_STOP_REQUESTED}
        | _ \<Rightarrow> False)
    \<and> cfg_wakeups cfg = 0 \<and> \<not> snd (callback_leave (cfg_server cfg))
    \<and> (cfg_dangling cfg \<longrightarrow> has_returned (cfg_pc cfg))"
proof -
  have i: "serve_inv cfg" by (rule serve_reach_inv [OF assms])
  have f: "srv_state (cfg_server cfg) \<notin> {DFK_TCP_SERVER_STOP_WAIT_CONNECTIONS, DFK_TCP_SERVER_STOPPED}
      \<and> cfg_pc cfg \<noteq> Ending \<and> cfg_pc cfg \<noteq> Suspended \<and> cfg_wakeups cfg = 0"
    by (rule serve_reach_fail [OF assms])
  have "\<not> snd (callback_leave (cfg_server cfg))" using f by (simp add: callback_leave_def Let_def)
  moreover have "srv_state (cfg_server cfg) \<in> {DFK_TCP_SERVER_INITIALIZED, DFK_TCP_SERVER_SERVING, DFK_TCP_SERVER_STOP_REQUESTED}"
    using f by (cases "srv_state (cfg_server cfg)") auto
  ultimately show ?thesis using i f by (cases "cfg_pc cfg") (auto simp: serve_inv_def)
qed

text \<open>A run in which the server is asked to stop while one connection is open.\<close>

definition serving :: "tcp_server_state \<Rightarrow> size_t \<Rightarrow> dfk_tcp_server_t" where
  "serving st n = \<lparr>srv_s = \<lparr>t_socket = 3\<rparr>, srv_active_connections = n, srv_state = st\<rparr>"

lemma serve_sample:
  "(serve_step sample_os L)\<^sup>*\<^sup>* (serve_start \<lparr>t_socket = 0\<rparr>)
    \<lparr>cfg_server = serving DFK_TCP_SERVER_STOP_REQUESTED 1, cfg_pc = Listening, cfg_pending = 0, cfg_running = 1, cfg_wakeups = 0, cfg_dangling = False\<rparr>"
proof -
  let ?c = "\<lambda>st n pc p r. \<lparr>cfg_server = serving st n, cfg_pc = pc, cfg_pending = p, cfg_running = r, cfg_wakeups = 0, cfg_dangling = False\<rparr>"
  have 1: "serve_step sample_os L (serve_start \<lparr>t_socket = 0\<rparr>) (?c DFK_TCP_SERVER_SERVING 0 Listening 0 0)"
    using Begin [of "serve_start \<lparr>t_socket = 0\<rparr>" sample_os True sample_ctx sample_kernel "\<lparr>t_socket = 3\<rparr>" sample_ctx sample_kernel L]
    by (simp add: serve_start_def dfk_tcp_socket_init_def sample_os_def serving_def)
  have 2: "serve_step sample_os L (?c DFK_TCP_SERVER_SERVING 0 Listening 0 0) (?c DFK_TCP_SERVER_SERVING 0 Listening 1 0)"
    using Accept [of "?c DFK_TCP_SERVER_SERVING 0 Listening 0 0" sample_os L] by simp
  have 3: "serve_step sample_os L (?c DFK_TCP_SERVER_SERVING 0 Listening 1 0) (?c DFK_TCP_SERVER_SERVING 1 Listening 0 1)"
    using Enter [of "?c DFK_TCP_SERVER_SERVING 0 Listening 1 0" 0 sample_os L] by (simp add: callback_enter_def serving_def)
  have 4: "serve_step sample_os L (?c DFK_TCP_SERVER_SERVING 1 Listening 0 1) (?c DFK_TCP_SERVER_STOP_REQUESTED 1 Listening 0 1)"
    using Stop [of sample_os sample_ctx sample_kernel "?c DFK_TCP_SERVER_SERVING 1 Listening 0 1" dfk_err_ok
        "serving DFK_TCP_SERVER_STOP_REQUESTED 1" sample_ctx sample_kernel L]
    by (simp add: dfk_tcp_server_stop_def dfk_tcp_socket_shutdown_def sample_os_def serving_def)
  from 1 2 3 4 show ?thesis by (meson rtranclp.rtrancl_into_rtrancl rtranclp.rtrancl_refl)
qed

theorem server_accounting_witness:
  "\<exists>cfg. serve_reach sample_os (listen_results sample_os) cfg \<and> cfg_pc cfg = Returned dfk_err_sys \<and> cfg_dangling cfg
    \<and> srv_active_connections (cfg_server cfg) = of_nat (cfg_running cfg) \<and> \<not> snd (callback_leave (cfg_server cfg))"
proof -
  let ?L = "listen_results sample_os"
  let ?c = "\<lparr>cfg_server = serving DFK_TCP_SERVER_STOP_REQUESTED 1, cfg_pc = Listening, cfg_pending = 0, cfg_running = 1, cfg_wakeups = 0,
    cfg_dangling = False\<rparr>"
  let ?d = "?c\<lparr>cfg_pc := Returned dfk_err_sys\<rparr>"
  let ?e = "?d\<lparr>cfg_server := serving DFK_TCP_SERVER_STOP_REQUESTED 0, cfg_running := 0, cfg_dangling := True\<rparr>"
  have "serve_step sample_os ?L ?c ?d" by (rule Listen_fails) (use sample_listen in auto)
  moreover have "serve_step sample_os ?L ?d ?e"
    using Leave [of ?d 0 "serving DFK_TCP_SERVER_STOP_REQUESTED 0" False sample_os ?L] by (simp add: callback_leave_def serving_def)
  ultimately have r: "serve_reach sample_os ?L ?e"
    using serve_sample [of ?L] unfolding serve_reach_def by (meson rtranclp.rtrancl_into_rtrancl)
  with server_accounting [OF r] show ?thesis by (intro exI [of _ ?e]) simp
qed

text \<open>
  C37. A server can never be shut down in an orderly way. Listening only ends when accepting fails, so \<^verbatim>\<open>dfk_tcp_serve\<close>
  always returns an error, also after \<^verbatim>\<open>dfk_tcp_server_stop\<close>: it never waits for open connections and never
  closes the listening socket, the server never reaches the states for that, and \<^verbatim>\<open>dfk_tcp_server_free\<close> then runs into its
  assertion. Handlers may still be running at that time: they keep a pointer into the stack of
  \<^verbatim>\<open>dfk_tcp_serve\<close>, which is gone.
\<close>

theorem server_never_stops:
  "(dfk_tcp_serve S nonblock others others' w server endpoint port backlog = Some (err, w') \<longrightarrow> err \<noteq> dfk_err_ok)
    \<and> (serve_reach S (listen_results S) cfg \<longrightarrow>
        srv_state (cfg_server cfg) \<notin> {DFK_TCP_SERVER_STOP_WAIT_CONNECTIONS, DFK_TCP_SERVER_STOPPED}
        \<and> cfg_pc cfg \<notin> {Suspended, Ending, Returned dfk_err_ok}
        \<and> (dfk_tcp_server_free (cfg_server cfg) = None \<longleftrightarrow> srv_state (cfg_server cfg) \<noteq> DFK_TCP_SERVER_INITIALIZED))
    \<and> (\<exists>cfg. serve_reach sample_os (listen_results sample_os) cfg \<and> cfg_pc cfg = Returned dfk_err_sys
        \<and> srv_state (cfg_server cfg) = DFK_TCP_SERVER_STOP_REQUESTED \<and> cfg_running cfg = 1)"
proof (intro conjI impI)
  show "err \<noteq> dfk_err_ok" if "dfk_tcp_serve S nonblock others others' w server endpoint port backlog = Some (err, w')"
    using that by (auto simp: dfk_tcp_serve_def Let_def bind_eq_Some_conv split: if_splits dest!: listen_error)
  assume r: "serve_reach S (listen_results S) cfg"
  note f = serve_reach_fail [OF r]
  from f show "srv_state (cfg_server cfg) \<notin> {DFK_TCP_SERVER_STOP_WAIT_CONNECTIONS, DFK_TCP_SERVER_STOPPED}" by blast
  from f serve_reach_inv [OF r] show "cfg_pc cfg \<notin> {Suspended, Ending, Returned dfk_err_ok}" by (auto simp: serve_inv_def)
  from f show "dfk_tcp_server_free (cfg_server cfg) = None \<longleftrightarrow> srv_state (cfg_server cfg) \<noteq> DFK_TCP_SERVER_INITIALIZED"
    by (auto simp: dfk_tcp_server_free_def c_assert_def)
next
  let ?c = "\<lparr>cfg_server = serving DFK_TCP_SERVER_STOP_REQUESTED 1, cfg_pc = Listening, cfg_pending = 0, cfg_running = 1, cfg_wakeups = 0, cfg_dangling = False\<rparr>"
  have "serve_step sample_os (listen_results sample_os) ?c (?c\<lparr>cfg_pc := Returned dfk_err_sys\<rparr>)"
    by (rule Listen_fails) (use sample_listen in auto)
  with serve_sample [of "listen_results sample_os"]
  have "serve_reach sample_os (listen_results sample_os) (?c\<lparr>cfg_pc := Returned dfk_err_sys\<rparr>)"
    unfolding serve_reach_def by (blast intro: rtranclp.rtrancl_into_rtrancl)
  then show "\<exists>cfg. serve_reach sample_os (listen_results sample_os) cfg \<and> cfg_pc cfg = Returned dfk_err_sys
        \<and> srv_state (cfg_server cfg) = DFK_TCP_SERVER_STOP_REQUESTED \<and> cfg_running cfg = 1"
    by (rule exI [where x = "?c\<lparr>cfg_pc := Returned dfk_err_sys\<rparr>", OF conjI]) (simp add: serving_def)
qed

theorem server_never_stops_witness:
  "\<exists>cfg. serve_reach sample_os (listen_results sample_os) cfg \<and> cfg_pc cfg = Returned dfk_err_sys
    \<and> dfk_tcp_server_free (cfg_server cfg) = None"
proof -
  obtain cfg where c: "serve_reach sample_os (listen_results sample_os) cfg" "cfg_pc cfg = Returned dfk_err_sys"
      "srv_state (cfg_server cfg) = DFK_TCP_SERVER_STOP_REQUESTED"
    using server_never_stops [of sample_os] by blast
  then show ?thesis using server_never_stops [of sample_os, where cfg = cfg] by auto
qed

text \<open>
  \<^verbatim>\<open>dfk_stop\<close> on a context whose listed servers are all serving: it returns success, every listed server is left
  as it was or, when its socket could be shut down, is stopping; no other server object is touched, and a second call
  does nothing. If one listed server is not serving, \<^verbatim>\<open>dfk_stop\<close> aborts: this happens when the socket of
  a server could not be created, because \<^verbatim>\<open>dfk_tcp_serve\<close> puts the server on the list first and never takes it off.
\<close>

theorem stop_servers:
  assumes rep: "list_rep (sw_hooks w) (sw_tcp_servers w) xs" and nst: "\<not> sw_stopped w"
    and srvs: "\<forall>a\<in>set xs. sw_servers w a \<noteq> None"
  shows "(if \<forall>a\<in>set xs. srv_state (the (sw_servers w a)) = DFK_TCP_SERVER_SERVING
     then \<exists>w'. dfk_stop S w = Some (dfk_err_ok, w') \<and> dfk_stop S w' = Some (dfk_err_ok, w')
       \<and> (\<forall>a. if a \<in> set xs then stopped_like (the (sw_servers w a)) (the (sw_servers w' a)) else sw_servers w' a = sw_servers w a)
     else dfk_stop S w = None)"
proof (cases "\<forall>a\<in>set xs. srv_state (the (sw_servers w a)) = DFK_TCP_SERVER_SERVING")
  case True
  let ?w = "w\<lparr>sw_stopped := True\<rparr>"
  have "\<forall>a\<in>set xs. \<exists>srv. sw_servers ?w a = Some srv \<and> srv_state srv = DFK_TCP_SERVER_SERVING" using True srvs by fastforce
  then obtain w' where w': "stop_loop S \<lparr>it_value = hd_or xs NULL\<rparr> \<lparr>it_value = NULL\<rparr> ?w = Some w'"
    "\<forall>a. a \<notin> set xs \<longrightarrow> sw_servers w' a = sw_servers w a"
    "\<forall>a\<in>set xs. \<exists>srv srv'. sw_servers w a = Some srv \<and> sw_servers w' a = Some srv' \<and> stopped_like srv srv'" "sw_stopped w'"
    using stop_loop_ok [of ?w "sw_tcp_servers w" "[]" xs S] rep by auto
  then have "dfk_stop S w = Some (dfk_err_ok, w')" "dfk_stop S w' = Some (dfk_err_ok, w')"
    using nst list_begin_spec [OF rep] list_end_spec [OF rep] by (simp_all add: dfk_stop_def)
  moreover have "if a \<in> set xs then stopped_like (the (sw_servers w a)) (the (sw_servers w' a)) else sw_servers w' a = sw_servers w a" for a
    using w'(2,3) by (cases "a \<in> set xs") auto
  ultimately show ?thesis using True by auto
next
  case False
  then obtain a srv where a: "a \<in> set xs" "sw_servers w a = Some srv" "srv_state srv \<noteq> DFK_TCP_SERVER_SERVING" using srvs by auto
  then have "stop_loop S \<lparr>it_value = hd_or xs NULL\<rparr> \<lparr>it_value = NULL\<rparr> (w\<lparr>sw_stopped := True\<rparr>) = None"
    using stop_loop_abort [of "w\<lparr>sw_stopped := True\<rparr>" "sw_tcp_servers w" "[]" xs a srv S] rep by simp
  then show ?thesis
    using False nst list_begin_spec [OF rep] list_end_spec [OF rep] by (simp add: dfk_stop_def)
qed

definition one_server :: "tcp_server_state \<Rightarrow> kernel srv_world" where
  "one_server st = \<lparr>sw_hooks = [16 \<mapsto> \<lparr>hook_next = NULL, hook_prev = NULL\<rparr>], sw_servers = [16 \<mapsto> serving st 0],
     sw_tcp_servers = \<lparr>list_head = 16, list_tail = 16, list_size = 1\<rparr>, sw_stopped = False, sw_ctx = sample_ctx, sw_os = sample_kernel\<rparr>"

theorem stop_servers_witness:
  "(\<exists>w'. dfk_stop sample_os (one_server DFK_TCP_SERVER_SERVING) = Some (dfk_err_ok, w') \<and> dfk_stop sample_os w' = Some (dfk_err_ok, w'))
    \<and> dfk_stop sample_os (one_server DFK_TCP_SERVER_INITIALIZED) = None"
proof -
  have r: "list_rep (sw_hooks (one_server st)) (sw_tcp_servers (one_server st)) [16]" for st
    by (simp add: one_server_def list_rep_def)
  have s: "\<not> sw_stopped (one_server st)" "\<forall>a\<in>set [16]. sw_servers (one_server st) a \<noteq> None" for st by (simp_all add: one_server_def)
  from stop_servers [OF r s, of DFK_TCP_SERVER_SERVING sample_os] stop_servers [OF r s, of DFK_TCP_SERVER_INITIALIZED sample_os]
  show ?thesis by (simp add: one_server_def serving_def) blast
qed

end
