(* ===== verification/Dfk_Http_Read.thy ===== *)
theory Dfk_Http_Read
  imports Dfk_Http_Body Dfk_Http_Constants Dfk_Strtoll Dfk_Tcp_Server
begin

text \<open>
  The life of a request in \<^verbatim>\<open>src/http/request.c\<close>: its initialisation, the buffers its header is read into,
  \<^verbatim>\<open>dfk__http_request_read_headers\<close> and the release of the buffers.

  The HTTP parser is a third-party library. \<open>hx_execute\<close> is what \<^verbatim>\<open>http_parser_execute\<close> does with a range of
  memory, given by its address and contents, while it reads a header: the callbacks it makes in this order, each
  with the number of bytes parsed and the state of the parser should the parser stop there, and the result when it does not stop before.
  It stops at a callback that does not return 0, and when a callback has paused it.
\<close>

section \<open>The parser\<close>

text \<open>\<open>HPE_CB\<close> stands for the errors that say which callback has failed, \<open>HPE_INVALID\<close> for all others.\<close>

datatype http_errno = HPE_OK | HPE_PAUSED | HPE_CB | HPE_INVALID

text \<open>Parts of a URL, as offset and length.\<close>

record http_parser_url =
  uf_path :: "(nat \<times> nat) option"
  uf_query :: "(nat \<times> nat) option"
  uf_fragment :: "(nat \<times> nat) option"

record 'p http_parser =
  hx_zero :: 'p
  hx_init :: "'p \<Rightarrow> 'p"
  hx_execute :: "'p \<Rightarrow> addr \<Rightarrow> byte list \<Rightarrow> (callback \<times> nat \<times> 'p) list \<times> nat \<times> http_errno \<times> 'p"
  hx_body :: "'p http_parser_execute"
  hx_http_major :: "'p \<Rightarrow> 16 word"
  hx_http_minor :: "'p \<Rightarrow> 16 word"
  hx_method :: "'p \<Rightarrow> int"
  hx_should_keep_alive :: "'p \<Rightarrow> bool"
  hx_chunked :: "'p \<Rightarrow> bool"
  hx_parse_url :: "byte list \<Rightarrow> http_parser_url option"

text \<open>
  The parser with the callbacks of \<^verbatim>\<open>dfk_parser_settings\<close>. Pausing only sets \<^verbatim>\<open>http_errno\<close>, which is kept apart from the
  state here.
\<close>

fun run_events ::
  "dfk_env \<Rightarrow> size_t \<Rightarrow> ('p, 'o) header_parser \<Rightarrow> (callback \<times> nat \<times> 'p) list \<Rightarrow> nat \<times> http_errno \<times> 'p
    \<Rightarrow> ((nat \<times> http_errno \<times> 'p) \<times> ('p, 'o) header_parser) option" where
  "run_events env mx p [] fin = Some (fin, p)"
| "run_events env mx p ((c, n, q) # events) fin = do {
     (ret, p) \<leftarrow> run_callback env mx p c;
     if ret \<noteq> 0 then Some ((n, HPE_CB, q), p)
     else if c = Headers_complete then Some ((n, HPE_PAUSED, q), p)
     else run_events env mx p events fin
   }"

section \<open>Operations\<close>

definition dfk__mocked_read ::
  "'o os_ops \<Rightarrow> 'p dfk_http_request_t \<Rightarrow> 'o http_world \<Rightarrow> addr \<Rightarrow> size_t \<Rightarrow> (int \<times> 'o http_world) option" where
  "dfk__mocked_read S req w buf toread = do {
     (nread, bs, c, s) \<leftarrow> dfk_tcp_socket_read S (hw_ctx w) (req_socket req) (unat toread) (hw_os w);
     heap \<leftarrow> mem_store (hw_heap w) buf bs;
     Some (nread, (with_heap w heap)\<lparr>hw_ctx := c, hw_os := s\<rparr>)
   }"

text \<open>A list hook and a buffer.\<close>

definition sizeof_buflist_item :: size_t where
  "sizeof_buflist_item = 32"

definition dfk__http_request_allocate_headers_buf ::
  "dfk_env \<Rightarrow> dfk_http_t \<Rightarrow> 'p dfk_http_request_t \<Rightarrow> 'o http_world
    \<Rightarrow> (dfk_error_e \<times> dfk_buf_t \<times> 'p dfk_http_request_t \<times> 'o http_world) option" where
  "dfk__http_request_allocate_headers_buf env http req w = do {
     (heap, buf) \<leftarrow> dfk__malloc env (hw_heap w) (http_headers_buffer_size http);
     let w = with_heap w heap;
     if buf = NULL then Some (dfk_err_nomem, no_buf, req, w)
     else do {
       let outbuf = \<lparr>buf_data = buf, buf_size = http_headers_buffer_size http\<rparr>;
       (w, item) \<leftarrow> world_alloc env w sizeof_buflist_item;
       if item = NULL then do {
         heap \<leftarrow> dfk__free env (hw_heap w) buf;
         Some (dfk_err_nomem, outbuf, req, with_heap w heap)
       } else do {
         let w = w\<lparr>hw_bufs := (hw_bufs w)(item \<mapsto> outbuf)\<rparr>;
         h \<leftarrow> dfk_list_hook_init (fresh_hook (hw_lists w) item) item;
         (h, buffers) \<leftarrow> dfk_list_append h (req_buffers req) item;
         Some (dfk_err_ok, outbuf, req\<lparr>req_buffers := buffers\<rparr>, with_lists w h)
       }
     }
   }"

definition dfk__http_request_init ::
  "'p http_parser \<Rightarrow> 'o http_world \<Rightarrow> dfk_tcp_socket_t \<Rightarrow> 'p dfk_http_request_t option" where
  "dfk__http_request_init X w sock = do {
     buffers \<leftarrow> dfk_list_init (hw_lists w);
     headers \<leftarrow> dfk_strmap_init (hw_hooks w) (hw_items w);
     arguments \<leftarrow> dfk_strmap_init (hw_hooks w) (hw_items w);
     Some \<lparr>req_major_version = 0, req_minor_version = 0, req_method = 0, req_url = no_buf, req_path = no_buf,
           req_query = no_buf, req_fragment = no_buf, req_host = None, req_user_agent = None, req_accept = None,
           req_content_type = None, req_content_length = -1, req_keepalive = False, req_chunked = False,
           req_headers = headers, req_arguments = arguments, req_socket = sock, req_buffers = buffers,
           req_remainder = [], req_body_nread = 0, req_parser = hx_zero X\<rparr>
   }"

partial_function (option) request_free_loop ::
  "dfk_env \<Rightarrow> 'o http_world \<Rightarrow> dfk_list_it \<Rightarrow> dfk_list_it \<Rightarrow> 'o http_world option" where
  "request_free_loop env w it stop = do {
     eq \<leftarrow> dfk_list_it_equal (hw_lists w) it stop;
     if eq then Some w
     else do {
       buf \<leftarrow> load (hw_bufs w) (it_value it);
       heap \<leftarrow> dfk__free env (hw_heap w) (buf_data buf);
       let w = with_heap w heap;
       it \<leftarrow> dfk_list_it_next (hw_lists w) it;
       request_free_loop env w it stop
     }
   }"

definition dfk__http_request_free :: "dfk_env \<Rightarrow> 'p dfk_http_request_t \<Rightarrow> 'o http_world \<Rightarrow> 'o http_world option" where
  "dfk__http_request_free env req w = do {
     it \<leftarrow> dfk_list_begin (hw_lists w) (req_buffers req);
     stop \<leftarrow> dfk_list_end (hw_lists w) (req_buffers req);
     request_free_loop env w it stop
   }"

subsection \<open>Reading the header\<close>

text \<open>
  When the rest of the buffer is too small for a header that has been begun, the header moves to a new buffer. The
  comparison is one of signed pointer differences.
\<close>

definition next_headers_buf ::
  "dfk_env \<Rightarrow> dfk_http_t \<Rightarrow> size_t \<Rightarrow> ('p, 'o) header_parser \<Rightarrow> dfk_buf_t \<Rightarrow> nat
    \<Rightarrow> ((dfk_error_e + dfk_buf_t) \<times> ('p, 'o) header_parser) option" where
  "next_headers_buf env http mx p curbuf nparsed =
     (if buf_data (cheader_field p) \<noteq> NULL
         \<and> sint (buf_data curbuf + buf_size curbuf - buf_data (cheader_field p)) < uint mx
      then do {
        count \<leftarrow> dfk_list_size (hw_lists (hp_world p)) (req_buffers (hp_req p));
        if count = http_headers_buffer_count http then Some (Inl dfk_err_overflow, p)
        else do {
          (err, curbuf, req, w) \<leftarrow> dfk__http_request_allocate_headers_buf env http (hp_req p) (hp_world p);
          let p = p\<lparr>hp_req := req, hp_world := w\<rparr>;
          if err \<noteq> dfk_err_ok then Some (Inl err, p)
          else do {
            m \<leftarrow> memcpy (mem_bytes (hw_heap w)) (buf_data curbuf) (buf_data (cheader_field p)) nparsed;
            let p = p\<lparr>hp_world := with_heap w ((hw_heap w)\<lparr>mem_bytes := m\<rparr>)\<rparr>;
            let p = (if buf_data (cheader_value p) \<noteq> NULL
              then p\<lparr>cheader_value := (cheader_value p)\<lparr>buf_data :=
                buf_data curbuf + (buf_data (cheader_value p) - buf_data (cheader_field p))\<rparr>\<rparr>
              else p);
            let p = p\<lparr>cheader_field := (cheader_field p)\<lparr>buf_data := buf_data curbuf\<rparr>\<rparr>;
            Some (Inr curbuf, p)
          }
        }
      } else Some (Inr curbuf, p))"

text \<open>
  One round of the loop: an error, the end of the header, or the buffer for the next round. The parser is given the
  whole buffer, not only the bytes that have been read.
\<close>

datatype header_round = Failed dfk_error_e | Complete | Go_on dfk_buf_t

definition read_headers_parsed ::
  "dfk_env \<Rightarrow> dfk_http_t \<Rightarrow> size_t \<Rightarrow> dfk_buf_t \<Rightarrow> int \<Rightarrow> nat \<times> http_errno \<times> 'p \<Rightarrow> ('p, 'o) header_parser
    \<Rightarrow> (header_round \<times> ('p, 'o) header_parser) option" where
  "read_headers_parsed env http mx curbuf nread result p = (case result of (nparsed, errno, q) \<Rightarrow> do {
     let p = p\<lparr>hp_req := (hp_req p)\<lparr>req_parser := q\<rparr>\<rparr>;
     c_assert (int nparsed \<le> nread);
     if errno = HPE_PAUSED then do {
       rest \<leftarrow> mem_load (hw_heap (hp_world p)) (buf_data curbuf + of_nat nparsed) (nat nread - nparsed);
       Some (Complete, p\<lparr>hp_req := (hp_req p)\<lparr>req_remainder := rest\<rparr>\<rparr>)
     }
     else if errno = HPE_CB then Some (Failed (hp_errno p), p)
     else if errno \<noteq> HPE_OK then Some (Failed dfk_err_protocol, p)
     else do {
       (r, p) \<leftarrow> next_headers_buf env http mx p curbuf nparsed;
       case r of Inl err \<Rightarrow> Some (Failed err, p)
       | Inr buf \<Rightarrow> Some (Go_on \<lparr>buf_data = buf_data buf + of_nat nparsed, buf_size = buf_size buf - of_nat nparsed\<rparr>, p)
     }
   })"

definition read_headers_round ::
  "dfk_env \<Rightarrow> 'o os_ops \<Rightarrow> 'p http_parser \<Rightarrow> dfk_http_t \<Rightarrow> size_t \<Rightarrow> ('p, 'o) header_parser \<Rightarrow> dfk_buf_t
    \<Rightarrow> (header_round \<times> ('p, 'o) header_parser) option" where
  "read_headers_round env S X http mx p curbuf = do {
     c_assert (mx \<le> buf_size curbuf);
     (nread, w) \<leftarrow> dfk__mocked_read S (hp_req p) (hp_world p) (buf_data curbuf) (buf_size curbuf);
     let p = p\<lparr>hp_world := w\<rparr>;
     if nread \<le> 0 then Some (Failed dfk_err_eof, p)
     else do {
       bs \<leftarrow> mem_load (hw_heap w) (buf_data curbuf) (unat (buf_size curbuf));
       let (events, fin) = hx_execute X (req_parser (hp_req p)) (buf_data curbuf) bs;
       (result, p) \<leftarrow> run_events env mx p events fin;
       read_headers_parsed env http mx curbuf nread result p
     }
   }"

partial_function (option) read_headers_loop ::
  "dfk_env \<Rightarrow> 'o os_ops \<Rightarrow> 'p http_parser \<Rightarrow> dfk_http_t \<Rightarrow> size_t \<Rightarrow> ('p, 'o) header_parser \<Rightarrow> dfk_buf_t
    \<Rightarrow> (dfk_error_e \<times> ('p, 'o) header_parser) option" where
  "read_headers_loop env S X http mx p curbuf = do {
     (r, p) \<leftarrow> read_headers_round env S X http mx p curbuf;
     case r of Failed err \<Rightarrow> Some (err, p)
     | Complete \<Rightarrow> Some (dfk_err_ok, p)
     | Go_on curbuf \<Rightarrow> read_headers_loop env S X http mx p curbuf
   }"

subsection \<open>After the header\<close>

text \<open>The common headers, and what they say about the body.\<close>

definition read_content_length :: "int \<Rightarrow> byte list option \<Rightarrow> int option" where
  "read_content_length old content_length =
     (if bytes_of content_length = [] then Some old
      else do {
        (res, intval, endptr) \<leftarrow> dfk_strtoll (bytes_of content_length) False 10;
        Some (if res \<noteq> dfk_err_ok then old else case intval of None \<Rightarrow> old | Some i \<Rightarrow> i)
      })"

definition populate_headers :: "'p http_parser \<Rightarrow> 'p dfk_http_request_t \<Rightarrow> 'o http_world \<Rightarrow> 'p dfk_http_request_t option" where
  "populate_headers X req w = do {
     let req = req\<lparr>req_major_version := hx_http_major X (req_parser req),
       req_minor_version := hx_http_minor X (req_parser req), req_method := hx_method X (req_parser req)\<rparr>;
     user_agent \<leftarrow> world_get w (req_headers req) DFK_HTTP_USER_AGENT;
     host \<leftarrow> world_get w (req_headers req) DFK_HTTP_HOST;
     accept \<leftarrow> world_get w (req_headers req) DFK_HTTP_ACCEPT;
     content_type \<leftarrow> world_get w (req_headers req) DFK_HTTP_CONTENT_TYPE;
     content_length \<leftarrow> world_get w (req_headers req) DFK_HTTP_CONTENT_LENGTH;
     n \<leftarrow> read_content_length (req_content_length req) content_length;
     let req = req\<lparr>req_user_agent := user_agent, req_host := host, req_accept := accept, req_content_type := content_type,
       req_content_length := n, req_keepalive := hx_should_keep_alive X (req_parser req),
       req_chunked := hx_chunked X (req_parser req)\<rparr>;
     Some (if req_content_length req = -1 \<and> \<not> req_chunked req then req\<lparr>req_content_length := 0\<rparr> else req)
   }"

definition url_part :: "dfk_buf_t \<Rightarrow> dfk_buf_t \<Rightarrow> (nat \<times> nat) option \<Rightarrow> dfk_buf_t" where
  "url_part old url part = (case part of None \<Rightarrow> old
     | Some (off, len) \<Rightarrow> \<lparr>buf_data = buf_data url + of_nat off, buf_size = of_nat len\<rparr>)"

definition split_url :: "'p http_parser \<Rightarrow> 'p dfk_http_request_t \<Rightarrow> 'o http_world \<Rightarrow> (dfk_error_e \<times> 'p dfk_http_request_t) option" where
  "split_url X req w = do {
     url \<leftarrow> load_buf (hw_heap w) (req_url req);
     case hx_parse_url X (bytes_of url) of None \<Rightarrow> Some (dfk_err_protocol, req)
     | Some u \<Rightarrow> Some (dfk_err_ok, req\<lparr>req_path := url_part (req_path req) (req_url req) (uf_path u),
         req_query := url_part (req_query req) (req_url req) (uf_query u),
         req_fragment := url_part (req_fragment req) (req_url req) (uf_fragment u)\<rparr>)
   }"

definition dfk__http_request_read_headers ::
  "dfk_env \<Rightarrow> 'o os_ops \<Rightarrow> 'p http_parser \<Rightarrow> dfk_http_t \<Rightarrow> size_t \<Rightarrow> 'p dfk_http_request_t \<Rightarrow> 'o http_world
    \<Rightarrow> (dfk_error_e \<times> 'p dfk_http_request_t \<times> 'o http_world) option" where
  "dfk__http_request_read_headers env S X http mx req w = do {
     let req = req\<lparr>req_parser := hx_init X (req_parser req)\<rparr>;
     (err, curbuf, req, w) \<leftarrow> dfk__http_request_allocate_headers_buf env http req w;
     if err \<noteq> dfk_err_ok then Some (err, req, w)
     else do {
       (err, p) \<leftarrow> read_headers_loop env S X http mx (no_headers req w) curbuf;
       let (req, w) = (hp_req p, hp_world p);
       if err \<noteq> dfk_err_ok then Some (err, req, w)
       else do {
         req \<leftarrow> populate_headers X req w;
         (err, req) \<leftarrow> split_url X req w;
         if err \<noteq> dfk_err_ok then Some (err, req, w)
         else read_query env req w
       }
     }
   }"

text \<open>The size of a request, which bindings ask for, is the one of the structure the compiler lays out.\<close>

end
