(* ===== verification/Dfk_Http_Header.thy ===== *)
theory Dfk_Http_Header
  imports Dfk_Http_Read
begin

text \<open>
  Properties of reading the header of a request: the first buffer and the arena behind it, what one read from the socket
  must deliver, the request that comes out, and the release of its memory.
\<close>

section \<open>One read\<close>

text \<open>
  What \<^verbatim>\<open>http_parser_execute\<close> is documented to do: unless there is an error, all bytes have been parsed; that a
  callback has failed or has paused the parser is reported only when that happened.
\<close>

definition parser_total :: "'p http_parser \<Rightarrow> bool" where
  "parser_total X \<longleftrightarrow> (\<forall>q a bs events n errno q'. hx_execute X q a bs = (events, n, errno, q') \<longrightarrow>
     (errno = HPE_OK \<longrightarrow> n = length bs) \<and> errno \<noteq> HPE_CB \<and> errno \<noteq> HPE_PAUSED)"

lemma run_events_ok:
  "run_events env mx p events fin = Some ((n, HPE_OK, q), p') \<Longrightarrow> fin = (n, HPE_OK, q)"
  by (induction events arbitrary: p) (auto simp: bind_eq_Some_conv split: if_splits)

lemma load_bytes_length: "load_bytes m p n = Some bs \<Longrightarrow> length bs = n"
  by (induction n arbitrary: p bs) (auto simp: bind_eq_Some_conv)

lemma next_buf_size:
  assumes "next_headers_buf env http mx p curbuf n = Some (Inr buf, p')" "buf_size curbuf = http_headers_buffer_size http"
  shows "buf_size buf = http_headers_buffer_size http"
proof (cases "buf_data (cheader_field p) \<noteq> NULL
         \<and> sint (buf_data curbuf + buf_size curbuf - buf_data (cheader_field p)) < uint mx")
  case True
  have "buf_size b = http_headers_buffer_size http"
    if "dfk__http_request_allocate_headers_buf env http req w = Some (dfk_err_ok, b, req', w')" for req w b req' w'
    using that by (auto simp: dfk__http_request_allocate_headers_buf_def bind_eq_Some_conv Let_def split: if_splits)
  then show ?thesis using assms(1) True
    by (auto simp: next_headers_buf_def bind_eq_Some_conv Let_def split: if_splits)
qed (use assms in \<open>auto simp: next_headers_buf_def\<close>)

text \<open>A parser that has not stopped has parsed all of the buffer, so nothing is left of it for the next round.\<close>

lemma round_goes_on:
  assumes "parser_total X" "read_headers_round env S X http mx p curbuf = Some (Go_on buf, p')"
    and "buf_size curbuf = http_headers_buffer_size http"
  shows "buf_size buf = 0"
proof -
  obtain nread w where a: "dfk__mocked_read S (hp_req p) (hp_world p) (buf_data curbuf) (buf_size curbuf) = Some (nread, w)" "\<not> nread \<le> 0"
    using assms(2) by (auto simp: read_headers_round_def bind_eq_Some_conv Let_def split: if_splits)
  obtain bs where b: "mem_load (hw_heap w) (buf_data curbuf) (unat (buf_size curbuf)) = Some bs"
    using assms(2) a by (auto simp: read_headers_round_def bind_eq_Some_conv Let_def split: if_splits)
  obtain events fin where e: "hx_execute X (req_parser (hp_req p)) (buf_data curbuf) bs = (events, fin)" by (cases rule: prod.exhaust)
  obtain n errno q p1 where r: "run_events env mx (p\<lparr>hp_world := w\<rparr>) events fin = Some ((n, errno, q), p1)"
      "read_headers_parsed env http mx curbuf nread (n, errno, q) p1 = Some (Go_on buf, p')"
    using assms(2) a b e by (auto simp: read_headers_round_def bind_eq_Some_conv Let_def split: if_splits)
  then have errno: "errno = HPE_OK"
    by (auto simp: read_headers_parsed_def bind_eq_Some_conv Let_def split: if_splits)
  let ?p2 = "p1\<lparr>hp_req := (hp_req p1)\<lparr>req_parser := q\<rparr>\<rparr>"
  obtain x p3 where x: "next_headers_buf env http mx ?p2 curbuf n = Some (x, p3)"
      "(case x of Inl err \<Rightarrow> Some (Failed err, p3)
        | Inr buf \<Rightarrow> Some (Go_on \<lparr>buf_data = buf_data buf + of_nat n, buf_size = buf_size buf - of_nat n\<rparr>, p3)) = Some (Go_on buf, p')"
    using r(2) errno by (auto simp: read_headers_parsed_def bind_eq_Some_conv Let_def split: if_splits)
  then obtain buf' where nb: "next_headers_buf env http mx ?p2 curbuf n = Some (Inr buf', p')" "buf_size buf = buf_size buf' - of_nat n"
    by (cases x) auto
  have "n = length bs"
    using run_events_ok [of env mx _ events fin n q] r(1) errno e assms(1) unfolding parser_total_def by (cases fin) blast
  then have "n = unat (buf_size curbuf)" using load_bytes_length b by (simp add: mem_load_def)
  then show ?thesis using next_buf_size [OF nb(1) assms(3)] nb(2) assms(3) by simp
qed

lemma round_no_room: "mx \<noteq> 0 \<Longrightarrow> buf_size buf = 0 \<Longrightarrow> read_headers_round env S X http mx p buf = None"
  by (simp add: read_headers_round_def c_assert_def)

lemma loop_no_room: "mx \<noteq> 0 \<Longrightarrow> buf_size buf = 0 \<Longrightarrow> read_headers_loop env S X http mx p buf = None"
  by (subst read_headers_loop.simps) (simp add: round_no_room)

section \<open>The first buffer\<close>

lemma list_rep_unique: "list_rep h l xs \<Longrightarrow> list_rep h l ys \<Longrightarrow> xs = ys"
proof -
  have "dlseg h p xs NULL \<Longrightarrow> dlseg h q ys NULL \<Longrightarrow> hd_or xs NULL = hd_or ys NULL \<Longrightarrow> xs = ys" for p q
  proof (induction xs arbitrary: ys p q)
    case Nil
    then show ?case by (cases ys) auto
  next
    case (Cons x xs)
    then obtain ys' where "ys = x # ys'" by (cases ys) auto
    with Cons show ?case by auto
  qed
  then show "list_rep h l xs \<Longrightarrow> list_rep h l ys \<Longrightarrow> xs = ys" by (auto simp: list_rep_def)
qed

text \<open>The first buffer of a request: its item lies in the first segment of the arena, in which there is room for \<open>n\<close> bytes.\<close>

definition first_buffer ::
  "dfk_env \<Rightarrow> nat \<Rightarrow> map_value list \<Rightarrow> 'p dfk_http_request_t \<Rightarrow> 'o http_world \<Rightarrow> dfk_buf_t \<Rightarrow> addr \<Rightarrow> addr \<Rightarrow> bool" where
  "first_buffer env n ms req w buf y seg \<longleftrightarrow> maps_ok env w n ms \<and> list_rep (hw_lists w) (req_buffers req) [y]
     \<and> hw_bufs w y = Some buf \<and> block env (hw_heap w) (buf_data buf) (unat (buf_size buf))
     \<and> list_rep (hw_lists w) (arena_segments (hw_arena w)) [seg] \<and> seg \<noteq> buf_data buf"

lemma allocate_fresh:
  assumes ok: "alloc_ok env" and inv: "arena_inv env (sm_arena (hw_mem w)) (hw_arena w) [] [] []"
    and empty: "list_rep (hw_lists w) (req_buffers req) []" "\<forall>(smap, m)\<in>set ms. strmap_rep (hw_hooks w) (hw_items w) smap [] m"
    and size: "http_headers_buffer_size http \<noteq> 0" "n + 64 < unat (DFK_ARENA_SEGMENT_SIZE env - 32)"
    and alloc: "dfk__http_request_allocate_headers_buf env http req w = Some (dfk_err_ok, buf, req1, w1)"
  shows "\<exists>y seg k. first_buffer env n ms req1 w1 buf y seg \<and> buf_size buf = http_headers_buffer_size http
    \<and> req1 = req\<lparr>req_buffers := req_buffers req1\<rparr> \<and> hw_ctx w1 = hw_ctx w \<and> hw_os w1 = hw_os w
    \<and> mem_blocks (hw_heap w1) = (mem_blocks (hw_heap w))(buf_data buf \<mapsto> unat (buf_size buf), seg \<mapsto> k)
    \<and> {buf_data buf, seg} \<inter> dom (mem_blocks (hw_heap w)) = {}"
proof -
  let ?n = "http_headers_buffer_size http"
  obtain p heap where m: "dfk__malloc env (hw_heap w) ?n = Some (heap, p)" "p \<noteq> NULL" "block env heap p (unat ?n)"
      "\<forall>a. a \<notin> range_of p (unat ?n) \<longrightarrow> mem_bytes heap a = mem_bytes (hw_heap w) a"
      "range_of p (unat ?n) \<inter> dom (mem_bytes (hw_heap w)) = {}"
      "mem_blocks heap = (mem_blocks (hw_heap w))(p \<mapsto> unat ?n)" "p \<notin> dom (mem_blocks (hw_heap w))"
    by (cases rule: malloc_cases [OF ok size(1), of "hw_heap w", case_names nomem mem])
      (use alloc in \<open>auto simp: dfk__http_request_allocate_headers_buf_def Let_def split: if_splits\<close>)
  let ?w0 = "with_heap w heap" and ?b = "\<lparr>buf_data = p, buf_size = ?n\<rparr>"
  have h0: "heap_ok env heap" using heap_ok_malloc [OF _ m(3,5,7,4,6)] inv by (simp add: arena_inv_def)
  have inv0: "arena_inv env (sm_arena (hw_mem ?w0)) (hw_arena ?w0) [] [] []"
    using inv h0 by (simp add: arena_inv_def with_heap_def)
  obtain w2 y where wa: "world_alloc env ?w0 sizeof_buflist_item = Some (w2, y)" "y \<noteq> NULL"
    using alloc m(1,2) by (auto simp: dfk__http_request_allocate_headers_buf_def Let_def bind_eq_Some_conv split: if_splits)
  obtain am arena where aa: "dfk_arena_alloc env (sm_arena (hw_mem ?w0)) (hw_arena ?w0) sizeof_buflist_item = Some (am, arena, y)"
      "w2 = ?w0\<lparr>hw_mem := (hw_mem ?w0)\<lparr>sm_arena := am\<rparr>, hw_arena := arena\<rparr>"
    using wa(1) by (auto simp: world_alloc_def bind_eq_Some_conv)
  obtain seg where s: "y = seg + sizeof_segment" "alloc_post env (sm_arena (hw_mem ?w0)) [] am arena [] [] y 32"
      "arena_inv env am arena [seg] [] [(y, 32)]"
      "am_segs am seg = Some \<lparr>seg_size = DFK_ARENA_SEGMENT_SIZE env - sizeof_segment, seg_used = sizeof_segment + sizeof_buflist_item\<rparr>"
    using alloc_new_segment [OF ok inv0, of sizeof_buflist_item] aa(1) wa(2) by (auto simp: sizeof_buflist_item_def)
  let ?w3 = "w2\<lparr>hw_bufs := (hw_bufs w2)(y \<mapsto> ?b)\<rparr>"
  have seg: "list_rep (am_hooks am) (arena_segments arena) [seg]" "list_rep (am_hooks am) (arena_owc arena) []"
    using s(3) by (simp_all add: arena_inv_def)
  have e: "list_rep (am_hooks am) (req_buffers req) []" using empty(1) by (simp add: list_rep_Nil)
  have "y \<in> range_of y 32" by (rule head_in_range) simp
  then have ys: "y \<notin> set [seg]" using regions_allocated(3) [OF s(3), of "(y, 32)"] by auto
  obtain h1 h2 l' where l: "dfk_list_hook_init (fresh_hook (am_hooks am) y) y = Some h1" "dfk_list_append h1 (req_buffers req) y = Some (h2, l')"
      "list_rep h2 l' ([] @ [y])" "list_rep h2 (arena_segments arena) [seg]"
    by (rule link_fresh [OF e seg(1) wa(2) _ ys]) auto
  have l2: "list_rep h2 (arena_owc arena) []" using seg(2) by (simp add: list_rep_Nil)
  have r: "buf = ?b" "req1 = req\<lparr>req_buffers := l'\<rparr>" "w1 = with_lists ?w3 h2"
    using alloc m(1,2) wa l(1,2) aa(2) by (auto simp: dfk__http_request_allocate_headers_buf_def Let_def with_heap_def)
  have "arena_inv env (sm_arena (hw_mem w1)) (hw_arena w1) [seg] [] [(y, 32)]"
    using s(3) l(4) l2 by (simp add: r(3) aa(2) with_lists_def arena_inv_def segment_ok_def in_segment_def)
  moreover have "arena_room (sm_arena (hw_mem w1)) [seg] n"
    using s(4) size(2) by (simp add: r(3) aa(2) with_lists_def arena_room_def sizeof_segment_def sizeof_buflist_item_def)
  moreover have ce: "concat (map (\<lambda>_. []) ms) = ([] :: addr list)" by simp
  have "maps_in w1 [(y, 32)] ms (map (\<lambda>_. []) ms)"
    using empty(2) by (auto simp: ce maps_in_def r(3) aa(2) with_lists_def with_heap_def list_all2_map2 intro!: list_all2_all_nthI dest: nth_mem)
  ultimately have maps: "maps_ok env w1 n ms" unfolding maps_ok_def by blast
  obtain k where k: "mem_blocks (am_heap am) seg = Some k" using s(3) by (auto simp: arena_inv_def segment_ok_def)
  obtain ss' where ss: "arena_inv env am arena ss' [] [(y, 32)]" "other_blocks am ss' = other_blocks (sm_arena (hw_mem ?w0)) []"
    using s(2) by (auto simp: alloc_post_def)
  then have "ss' = [seg]" using list_rep_unique seg(1) by (auto simp: arena_inv_def)
  moreover have "mem_blocks heap |` UNIV = mem_blocks heap" by (simp add: restrict_map_def)
  ultimately have ob: "mem_blocks (am_heap am) |` (- {seg}) = mem_blocks heap" using ss(2) by (simp add: other_blocks_def with_heap_def)
  then have new: "mem_blocks heap seg = None" by (auto simp: restrict_map_def fun_eq_iff split: if_splits)
  have blocks: "mem_blocks (am_heap am) = (mem_blocks heap)(seg \<mapsto> k)"
    using k by (auto simp: ob [symmetric] restrict_map_def fun_eq_iff)
  have "seg \<noteq> p" "seg \<notin> dom (mem_blocks (hw_heap w))" using new m(6) by (auto split: if_splits)
  moreover have "block env (am_heap am) p (unat ?n)"
    using s(3) blocks m(6) \<open>seg \<noteq> p\<close> by (simp add: arena_inv_def heap_ok_def)
  moreover have "hw_heap w1 = am_heap am" "hw_arena w1 = arena" "hw_lists w1 = h2" "hw_bufs w1 y = Some ?b" "hw_ctx w1 = hw_ctx w" "hw_os w1 = hw_os w"
    by (simp_all add: r(3) aa(2) with_lists_def with_heap_def)
  ultimately show ?thesis
    using maps l(3,4) r(1,2) blocks m(6,7) unfolding first_buffer_def
    by (intro exI [of _ y] exI [of _ seg] exI [of _ k]) simp
qed

text \<open>Only maps and their items differ.\<close>

lemma first_buffer_maps:
  assumes "first_buffer env n ms req w buf y seg" "same_but_maps w w'" "maps_ok env w' n' ms'" "req_buffers req' = req_buffers req"
  shows "first_buffer env n' ms' req' w' buf y seg"
  using assms by (simp add: first_buffer_def same_but_maps_def)

lemma first_buffer_bytes:
  assumes "first_buffer env n ms req w buf y seg" "mem_blocks heap = mem_blocks (hw_heap w)" "dom (mem_bytes heap) = dom (mem_bytes (hw_heap w))"
  shows "first_buffer env n ms req (with_heap w heap) buf y seg"
proof -
  have "hw_heap (with_heap w heap) = heap" by (simp add: with_heap_def)
  moreover have "block env heap (buf_data buf) (unat (buf_size buf))"
    using assms by (simp add: first_buffer_def block_def allocated_def)
  ultimately show ?thesis using assms maps_ok_bytes [of env w n ms heap] by (simp add: first_buffer_def) (simp add: with_heap_def)
qed

lemma allocated_load: "allocated m p n \<Longrightarrow> \<exists>bs. load_bytes m p n = Some bs \<and> bytes_at m p bs \<and> length bs = n"
proof (induction n arbitrary: p)
  case (Suc n)
  have f: "fits p (Suc n)" and d: "range_of p (Suc n) \<subseteq> dom m" using Suc.prems by (simp_all add: allocated_def)
  have "allocated m (p + 1) n" using fits_Suc [OF f] d by (auto simp: allocated_def range_of_Suc)
  then obtain bs where bs: "load_bytes m (p + 1) n = Some bs" "bytes_at m (p + 1) bs" "length bs = n" using Suc.IH by blast
  obtain b where b: "m p = Some b" using d by (auto simp: range_of_Suc)
  have "p \<noteq> NULL" using f by (simp add: fits_def)
  then have "load_bytes m p (Suc n) = Some (b # bs)" using b bs(1) by (simp add: load_def)
  moreover have "bytes_at m p (b # bs)" using f b bs by (simp add: bytes_at_Cons)
  ultimately show ?case using bs(3) by force
qed (simp add: bytes_at_def allocated_def)

lemma bytes_at_unique: "bytes_at m p xs \<Longrightarrow> bytes_at m p ys \<Longrightarrow> length xs \<le> length ys \<Longrightarrow> take (length xs) ys = xs"
proof -
  assume a: "bytes_at m p xs" "bytes_at m p ys" "length xs \<le> length ys"
  have "bytes_at m p (take (length xs) ys @ drop (length xs) ys)" using a(2) by simp
  then have "bytes_at m p (take (length xs) ys)" unfolding bytes_at_append by blast
  from load_bytes_at [OF this] load_bytes_at [OF a(1)] a(3) show ?thesis by simp
qed

text \<open>The bytes the socket delivers stand at the beginning of the buffer, in front of what was there before.\<close>

lemma mocked_read_ok:
  assumes fb: "first_buffer env n ms req w buf y seg" and size: "buf_size buf \<noteq> 0"
    and rd: "os_read S (t_socket (req_socket req)) (unat (buf_size buf)) (hw_os w) = (int (length xs), xs, s')" "length xs \<le> unat (buf_size buf)"
  shows "\<exists>w' junk. dfk__mocked_read S req w (buf_data buf) (buf_size buf) = Some (int (length xs), w')
    \<and> first_buffer env n ms req w' buf y seg \<and> mem_load (hw_heap w') (buf_data buf) (unat (buf_size buf)) = Some (xs @ junk)
    \<and> bytes_at (mem_bytes (hw_heap w')) (buf_data buf) (xs @ junk) \<and> mem_blocks (hw_heap w') = mem_blocks (hw_heap w) \<and> hw_os w' = s'
    \<and> hw_ctx w' = hw_ctx w"
proof -
  have b: "block env (hw_heap w) (buf_data buf) (unat (buf_size buf))" using fb by (simp add: first_buffer_def)
  obtain heap where h: "mem_store (hw_heap w) (buf_data buf) xs = Some heap" "mem_blocks heap = mem_blocks (hw_heap w)"
      "bytes_at (mem_bytes heap) (buf_data buf) xs" "same_outside (range_of (buf_data buf) (length xs)) (mem_bytes (hw_heap w)) (mem_bytes heap)"
    using store_in_block [OF b, of 0 xs] rd(2) by auto
  let ?w = "(with_heap w heap)\<lparr>hw_os := s'\<rparr>"
  have d: "dom (mem_bytes heap) = dom (mem_bytes (hw_heap w))" using h(4) by (simp add: same_outside_def)
  have fb1: "first_buffer env n ms req (with_heap w heap) buf y seg" by (rule first_buffer_bytes [OF fb h(2) d])
  then have fb2: "first_buffer env n ms req ?w buf y seg"
    using maps_ok_world [of env "with_heap w heap" n ms ?w] by (simp add: first_buffer_def)
  have "allocated (mem_bytes heap) (buf_data buf) (unat (buf_size buf))" using b d by (simp add: block_def allocated_def)
  then obtain bs where bs: "load_bytes (mem_bytes heap) (buf_data buf) (unat (buf_size buf)) = Some bs" "bytes_at (mem_bytes heap) (buf_data buf) bs"
      "length bs = unat (buf_size buf)" using allocated_load by blast
  have "take (length xs) bs = xs" using bytes_at_unique [OF h(3) bs(2)] bs(3) rd(2) by simp
  then have e: "bs = xs @ drop (length xs) bs" by (metis append_take_drop_id)
  have "unat (buf_size buf) \<noteq> 0" using size by (simp add: unat_eq_0)
  then have "dfk__mocked_read S req w (buf_data buf) (buf_size buf) = Some (int (length xs), ?w)"
    using rd(1) h(1) by (simp add: dfk__mocked_read_def dfk_tcp_socket_read_def dfk__read_def with_heap_def)
  then show ?thesis using fb2 bs(1,2) e h(2)
    by (intro exI [of _ ?w] exI [of _ "drop (length xs) bs"]) (auto simp: with_heap_def mem_load_def)
qed

section \<open>A header in the buffer\<close>

text \<open>
  What the parser is documented to do with a complete header \<open>head\<close>, wherever it lies and whatever follows: it reports the URL and
  the header lines \<open>kvs\<close>, in contiguous pieces of \<open>head\<close>, and then the end of the header, at which it is paused. It makes this last
  callback when it sees the line feed that ends the header, before it has consumed it: should it stop there, it counts all bytes of the
  header but this one as parsed, and the line feed has to be given to it again.
\<close>

definition reads_header ::
  "'p http_parser \<Rightarrow> size_t \<Rightarrow> 'p \<Rightarrow> byte list \<Rightarrow> byte list \<Rightarrow> (byte list \<times> byte list) list \<Rightarrow> 'p \<Rightarrow> bool" where
  "reads_header X mx q head url kvs q' \<longleftrightarrow> head \<noteq> [] \<and> last head = 10 \<and> (\<forall>buf rest. \<exists>off us hs events tail fin.
     hx_execute X q buf (head @ rest) = (events @ (Headers_complete, length head - 1, q') # tail, fin)
     \<and> map fst events = Message_begin # in_pieces Url (buf + of_nat off) us @ concat (map header_callbacks hs)
     \<and> us \<noteq> [] \<and> within mx us \<and> sum_list us = of_nat (length url) \<and> off \<le> length head - length url \<and> length url \<le> length head
     \<and> take (length url) (drop off head) = url \<and> list_all (line_ok mx) hs
     \<and> (\<forall>m. bytes_at (mem_bytes m) buf head \<longrightarrow> list_all2 (line_at m) hs kvs))"

lemma in_pieces_not_complete: "(\<And>at n. c at n \<noteq> Headers_complete) \<Longrightarrow> Headers_complete \<notin> set (in_pieces c at ns)"
  by (induction ns arbitrary: at) (auto, metis)

lemma header_not_complete:
  "Headers_complete \<notin> set (Message_begin # in_pieces Url at us @ concat (map header_callbacks hs))"
  using in_pieces_not_complete [of Url] in_pieces_not_complete [of Field] in_pieces_not_complete [of Value]
  by (auto simp: header_callbacks_def)

lemma run_events_callbacks:
  "run_callbacks env mx p (map fst events @ [Headers_complete]) = Some (0, p') \<Longrightarrow> Headers_complete \<notin> set (map fst events) \<Longrightarrow>
    run_events env mx p (events @ (Headers_complete, n, q) # tail) fin = Some ((n, HPE_PAUSED, q), p')"
  by (induction events arbitrary: p) (auto simp: bind_eq_Some_conv split: if_splits)

lemma run_whole_header:
  assumes "maps_ok env (hp_world p0) (64 * length hs + n) ((req_headers (hp_req p0), Map.empty) # ms)"
    and "cheader_field p0 = no_buf" "cheader_value p0 = no_buf" "hp_errno p0 = dfk_err_ok" "req_url (hp_req p0) = no_buf"
    and "at \<noteq> NULL" "us \<noteq> []" "within mx us"
    and "list_all (line_ok mx) hs" "list_all2 (line_at (hw_heap (hp_world p0))) hs kvs" "keys_ok (fst ` set kvs)"
  shows "\<exists>p. run_callbacks env mx p0 ((Message_begin # in_pieces Url at us @ concat (map header_callbacks hs)) @ [Headers_complete]) = Some (0, p)
    \<and> same_but_maps (hp_world p0) (hp_world p)
    \<and> hp_req p = (hp_req p0)\<lparr>req_url := \<lparr>buf_data = at, buf_size = sum_list us\<rparr>, req_headers := req_headers (hp_req p)\<rparr>
    \<and> maps_ok env (hp_world p) n ((req_headers (hp_req p), lifted (map_of kvs)) # ms)"
proof -
  obtain u us' where us: "us = u # us'" using assms(7) by (cases us) auto
  let ?b = "\<lparr>buf_data = at, buf_size = u\<rparr>"
  let ?p1 = "p0\<lparr>hp_req := (hp_req p0)\<lparr>req_url := ?b\<rparr>\<rparr>"
  let ?p2 = "p0\<lparr>hp_req := (hp_req p0)\<lparr>req_url := \<lparr>buf_data = at, buf_size = u + sum_list us'\<rparr>\<rparr>\<rparr>"
  have w: "within mx ([u] @ us')" using assms(8) us by simp
  have "dfk_http_request_on_url mx p0 at u = Some (0, ?p1)"
    using assms(5) within_le [OF w, of "[u]" us'] by (simp add: dfk_http_request_on_url_def dfk_buf_append_def not_less Let_def)
  moreover have "run_callbacks env mx ?p1 (in_pieces Url (at + u) us' @ cs) = run_callbacks env mx ?p2 cs" for cs
    using run_url_pieces [of ?b ?p1 mx "[u]" us' env cs] assms(6) w by simp
  ultimately have "run_callbacks env mx p0 (Message_begin # in_pieces Url at us @ cs) = run_callbacks env mx ?p2 cs" for cs
    by (simp add: us dfk_http_request_on_message_begin_def)
  moreover obtain p where "run_callbacks env mx ?p2 (concat (map header_callbacks hs) @ [Headers_complete]) = Some (0, p)"
      "same_but_maps (hp_world ?p2) (hp_world p)" "hp_req p = (hp_req ?p2)\<lparr>req_headers := req_headers (hp_req p)\<rparr>"
      "maps_ok env (hp_world p) n ((req_headers (hp_req p), lifted (map_of kvs)) # ms)"
    using run_header [of env ?p2 hs n ms mx kvs] assms(1-4,9-11) by auto
  ultimately show ?thesis by (auto simp: us)
qed

lemma round_complete:
  assumes fb: "first_buffer env (64 * length kvs + n) ((req_headers req, Map.empty) # ms) req w buf y seg"
    and size: "buf_size buf \<noteq> 0" "mx \<le> buf_size buf" and req: "req_url req = no_buf"
    and rd: "os_read S (t_socket (req_socket req)) (unat (buf_size buf)) (hw_os w) = (int (length (head @ body)), head @ body, s')"
      "length (head @ body) \<le> unat (buf_size buf)" "head \<noteq> []"
    and X: "reads_header X mx (req_parser req) head url kvs q'" "keys_ok (fst ` set kvs)"
  shows "\<exists>p off. read_headers_round env S X http mx (no_headers req w) buf = Some (Complete, p)
    \<and> hp_req p = req\<lparr>req_url := \<lparr>buf_data = buf_data buf + of_nat off, buf_size = of_nat (length url)\<rparr>,
        req_headers := req_headers (hp_req p), req_parser := q', req_remainder := 10 # body\<rparr>
    \<and> first_buffer env n ((req_headers (hp_req p), lifted (map_of kvs)) # ms) (hp_req p) (hp_world p) buf y seg
    \<and> bytes_at (mem_bytes (hw_heap (hp_world p))) (buf_data buf + of_nat off) url \<and> off + length url \<le> length head
    \<and> mem_blocks (hw_heap (hp_world p)) = mem_blocks (hw_heap w) \<and> hw_os (hp_world p) = s' \<and> hw_ctx (hp_world p) = hw_ctx w"
proof -
  obtain w1 junk where w1: "dfk__mocked_read S req w (buf_data buf) (buf_size buf) = Some (int (length (head @ body)), w1)"
      "first_buffer env (64 * length kvs + n) ((req_headers req, Map.empty) # ms) req w1 buf y seg"
      "mem_load (hw_heap w1) (buf_data buf) (unat (buf_size buf)) = Some (head @ body @ junk)"
      "bytes_at (mem_bytes (hw_heap w1)) (buf_data buf) (head @ body @ junk)" "mem_blocks (hw_heap w1) = mem_blocks (hw_heap w)" "hw_os w1 = s'"
      "hw_ctx w1 = hw_ctx w"
    using mocked_read_ok [OF fb size(1) rd(1,2)] by auto
  define k where "k = length head - 1"
  have hl: "head \<noteq> []" "last head = 10" using X(1) by (simp_all add: reads_header_def)
  have hd: "head = butlast head @ [10]" using append_butlast_last_id [OF hl(1)] hl(2) by simp
  have lb: "length (butlast head) = k" unfolding k_def by simp
  have lh: "length head = Suc k" using hl(1) by (cases head) (auto simp: k_def)
  have at: "bytes_at (mem_bytes (hw_heap w1)) (buf_data buf) head"
    using w1(4) unfolding bytes_at_append by blast
  have "bytes_at (mem_bytes (hw_heap w1)) (buf_data buf) (butlast head @ (10 # body) @ junk)"
    using w1(4) hd by (metis append.assoc append_Cons append_Nil)
  then have at2: "bytes_at (mem_bytes (hw_heap w1)) (buf_data buf + of_nat k) (10 # body)"
    unfolding bytes_at_append lb by blast
  obtain off us hs events tail fin where x: "hx_execute X (req_parser req) (buf_data buf) (head @ body @ junk)
        = (events @ (Headers_complete, k, q') # tail, fin)"
      "map fst events = Message_begin # in_pieces Url (buf_data buf + of_nat off) us @ concat (map header_callbacks hs)"
      "us \<noteq> []" "within mx us" "sum_list us = of_nat (length url)" "off \<le> length head - length url" "length url \<le> length head"
      "take (length url) (drop off head) = url" "list_all (line_ok mx) hs" "list_all2 (line_at (hw_heap w1)) hs kvs"
    using X(1) at unfolding reads_header_def k_def [symmetric] by metis
  let ?at = "buf_data buf + of_nat off" and ?p0 = "(no_headers req w)\<lparr>hp_world := w1\<rparr>"
  have u: "bytes_at (mem_bytes (hw_heap w1)) ?at url" using bytes_at_sub [OF at, of off "length url"] x(6-8) by simp
  then have nn: "?at \<noteq> NULL" by (auto simp: bytes_at_def fits_def)
  have len: "length hs = length kvs" using x(10) by (rule list_all2_lengthD)
  have "maps_ok env (hp_world ?p0) (64 * length hs + n) ((req_headers (hp_req ?p0), Map.empty) # ms)"
    using w1(2) len by (simp add: first_buffer_def no_headers_def)
  from run_whole_header [OF this _ _ _ _ nn x(3,4,9) _ X(2)] x(10) req obtain p where
    p: "run_callbacks env mx ?p0 (map fst events @ [Headers_complete]) = Some (0, p)"
      "same_but_maps w1 (hp_world p)"
      "hp_req p = req\<lparr>req_url := \<lparr>buf_data = ?at, buf_size = of_nat (length url)\<rparr>, req_headers := req_headers (hp_req p)\<rparr>"
      "maps_ok env (hp_world p) n ((req_headers (hp_req p), lifted (map_of kvs)) # ms)"
    unfolding x(2) by (auto simp: no_headers_def x(5))
  have "Headers_complete \<notin> set (map fst events)" unfolding x(2) by (rule header_not_complete)
  note re = run_events_callbacks [OF p(1) this, of k q' tail fin]
  have heap: "hw_heap (hp_world p) = hw_heap w1" "hw_os (hp_world p) = hw_os w1" "hw_ctx (hp_world p) = hw_ctx w1"
    using p(2) by (simp_all add: same_but_maps_def)
  let ?p = "p\<lparr>hp_req := (hp_req p)\<lparr>req_parser := q', req_remainder := 10 # body\<rparr>\<rparr>"
  have ld: "mem_load (hw_heap w1) (buf_data buf + of_nat k) (Suc (length body)) = Some (10 # body)"
    using load_bytes_at [OF at2] by (simp add: mem_load_def)
  have nat: "nat (int (length (head @ body))) - k = Suc (length body)" by (simp add: lh)
  have "read_headers_parsed env http mx buf (int (length (head @ body))) (k, HPE_PAUSED, q') p = Some (Complete, ?p)"
    unfolding read_headers_parsed_def nat using ld heap(1) nat by (simp add: Let_def lh)
  moreover have "\<not> int (length head) + int (length body) \<le> 0" using lh by simp
  ultimately have "read_headers_round env S X http mx (no_headers req w) buf = Some (Complete, ?p)"
    using size(2) w1(1,3) x(1) re by (simp add: read_headers_round_def Let_def) (simp add: no_headers_def)
  moreover have "hp_req ?p = req\<lparr>req_url := \<lparr>buf_data = ?at, buf_size = of_nat (length url)\<rparr>, req_headers := req_headers (hp_req ?p),
      req_parser := q', req_remainder := 10 # body\<rparr>" by (simp, subst p(3)) simp
  moreover have "req_buffers (hp_req p) = req_buffers req" by (subst p(3)) simp
  then have "first_buffer env n ((req_headers (hp_req ?p), lifted (map_of kvs)) # ms) (hp_req ?p) (hp_world ?p) buf y seg"
    using first_buffer_maps [OF w1(2), of "hp_world p" n _ "hp_req ?p"] p(2,4) by simp
  ultimately show ?thesis
    using u heap w1(5-7) x(6,7) by (intro exI [of _ ?p] exI [of _ off]) simp
qed

section \<open>After the header\<close>

definition common_names :: "byte list set" where
  "common_names = {DFK_HTTP_USER_AGENT, DFK_HTTP_HOST, DFK_HTTP_ACCEPT, DFK_HTTP_CONTENT_TYPE, DFK_HTTP_CONTENT_LENGTH}"

text \<open>The length of the body: the number in the header, if it can be read; without one, unknown for a chunked body and 0 otherwise.\<close>

definition length_of_body :: "bool \<Rightarrow> byte list option \<Rightarrow> int" where
  "length_of_body chunked v = (let n = (case read_content_length (-1) v of None \<Rightarrow> -1 | Some i \<Rightarrow> i)
     in if n = -1 \<and> \<not> chunked then 0 else n)"

lemma read_content_length_total: "\<exists>n. read_content_length old v = Some n"
proof -
  have "\<exists>res i e. dfk_strtoll bs False 10 = Some (res, i, e)" for bs
    by (auto simp: dfk_strtoll_def Let_def split: prod.split)
  then obtain res i e where "dfk_strtoll (bytes_of v) False 10 = Some (res, i, e)" by blast
  then show ?thesis by (simp add: read_content_length_def)
qed

lemma decimal_int_length: "LLONG_MIN \<le> i \<Longrightarrow> i \<le> LLONG_MAX \<Longrightarrow> length (decimal_int i) < 22 \<and> decimal_int i \<noteq> []"
proof -
  assume a: "LLONG_MIN \<le> i" "i \<le> LLONG_MAX"
  have "\<bar>i\<bar> < 10 ^ 20" using a by (simp add: LLONG_MIN_def LLONG_MAX_def)
  from length_decimal_int [OF this] show ?thesis by simp
qed

lemma length_of_body_decimal:
  assumes "0 \<le> i" "i \<le> LLONG_MAX"
  shows "length_of_body chunked (Some (decimal_int i)) = i" "length_of_body chunked None = (if chunked then -1 else 0)"
proof -
  have r: "LLONG_MIN \<le> i" using assms(1) by (simp add: LLONG_MIN_def)
  have nz: "\<forall>c\<in>set (decimal_int i). c \<noteq> 0" using decimal_int_chars by blast
  have "c_string (decimal_int i @ [0]) = decimal_int i" using nz by (simp add: c_string_def takeWhile_append2)
  then have "dfk_strtoll (decimal_int i) False 10 = Some (dfk_err_ok, Some i, None)"
    using strtoll_decimal [of "[]" i] decimal_int_length [OF r assms(2)] r assms(2)
    by (simp add: dfk_strtoll_def)
  then show "length_of_body chunked (Some (decimal_int i)) = i" using assms(1) decimal_int_length [OF r assms(2)]
    by (simp add: length_of_body_def read_content_length_def bytes_of_def)
  show "length_of_body chunked None = (if chunked then -1 else 0)"
    by (simp add: length_of_body_def read_content_length_def bytes_of_def)
qed

lemma populate_ok:
  assumes maps: "maps_ok env w n ((req_headers req, lifted (map_of kvs)) # ms)" and keys: "keys_ok (common_names \<union> fst ` set kvs)"
    and cl: "req_content_length req = -1"
  shows "populate_headers X req w = Some (req\<lparr>req_major_version := hx_http_major X (req_parser req),
    req_minor_version := hx_http_minor X (req_parser req), req_method := hx_method X (req_parser req),
    req_user_agent := map_of kvs DFK_HTTP_USER_AGENT, req_host := map_of kvs DFK_HTTP_HOST, req_accept := map_of kvs DFK_HTTP_ACCEPT,
    req_content_type := map_of kvs DFK_HTTP_CONTENT_TYPE, req_keepalive := hx_should_keep_alive X (req_parser req),
    req_chunked := hx_chunked X (req_parser req),
    req_content_length := length_of_body (hx_chunked X (req_parser req)) (map_of kvs DFK_HTTP_CONTENT_LENGTH)\<rparr>)"
proof -
  have g: "world_get w (req_headers req) k = Some (map_of kvs k)" if "k \<in> common_names" for k
  proof -
    have "keys_ok (insert k (dom (lifted (map_of kvs))))"
      by (rule keys_ok_mono [OF keys]) (use that in \<open>auto simp: dom_map_of_conv_image_fst\<close>)
    from world_get_ok [OF maps this] show ?thesis by simp
  qed
  obtain n where n: "read_content_length (-1) (map_of kvs DFK_HTTP_CONTENT_LENGTH) = Some n" using read_content_length_total by blast
  show ?thesis
    using g [of DFK_HTTP_USER_AGENT] g [of DFK_HTTP_HOST] g [of DFK_HTTP_ACCEPT] g [of DFK_HTTP_CONTENT_TYPE]
      g [of DFK_HTTP_CONTENT_LENGTH] n cl
    by (simp add: populate_headers_def Let_def common_names_def length_of_body_def)
qed

text \<open>The query of a URL, and what reading it gives: the arguments, and whether it is well-formed.\<close>

definition query_of :: "http_parser_url \<Rightarrow> byte list \<Rightarrow> byte list" where
  "query_of u url = (case uf_query u of None \<Rightarrow> [] | Some (off, len) \<Rightarrow> take len (drop off url))"

definition arguments_of :: "byte list \<Rightarrow> arguments \<times> bool" where
  "arguments_of xs = (case pct_decode xs of (d, r) \<Rightarrow> (fst (query_spec d), r = [] \<and> snd (query_spec d)))"

definition url_fits :: "http_parser_url \<Rightarrow> byte list \<Rightarrow> bool" where
  "url_fits u url \<longleftrightarrow> (case uf_query u of None \<Rightarrow> True | Some (off, len) \<Rightarrow> off + len \<le> length url)"

text \<open>The buffer of the header is no part of the arena.\<close>

lemma first_buffer_away:
  assumes fb: "first_buffer env n ms req w buf y seg" and i: "i + k \<le> unat (buf_size buf)"
  shows "away w (buf_data buf + of_nat i) k"
  unfolding away_def
proof (intro allI impI)
  fix ss s j
  assume a: "list_rep (hw_lists w) (arena_segments (hw_arena w)) ss" "s \<in> set ss" "mem_blocks (hw_heap w) s = Some j"
  have b: "list_rep (hw_lists w) (arena_segments (hw_arena w)) [seg]" "seg \<noteq> buf_data buf"
      "block env (hw_heap w) (buf_data buf) (unat (buf_size buf))" "heap_ok env (hw_heap w)"
    using fb by (auto simp: first_buffer_def maps_ok_def arena_inv_def)
  have "s = seg" using list_rep_unique [OF a(1) b(1)] a(2) by simp
  then have "range_of (buf_data buf) (unat (buf_size buf)) \<inter> range_of s j = {}"
    using b(2-4) a(3) by (auto simp: heap_ok_def block_def)
  then show "range_of (buf_data buf + of_nat i) k \<inter> range_of s j = {}" using range_of_sub [OF i] by blast
qed

definition with_url :: "http_parser_url \<Rightarrow> 'p dfk_http_request_t \<Rightarrow> 'p dfk_http_request_t" where
  "with_url u req = req\<lparr>req_path := url_part (req_path req) (req_url req) (uf_path u),
     req_query := url_part (req_query req) (req_url req) (uf_query u), req_fragment := url_part (req_fragment req) (req_url req) (uf_fragment u)\<rparr>"

definition headers_read :: "'o http_world \<Rightarrow> dfk_strmap_t \<Rightarrow> (byte list \<times> byte list) list \<Rightarrow> bool" where
  "headers_read w smap kvs \<longleftrightarrow> (\<forall>k. keys_ok (insert k (fst ` set kvs)) \<longrightarrow> world_get w smap k = Some (map_of kvs k))"

lemma headers_readI: "maps_ok env w n ((smap, lifted (map_of kvs)) # ms) \<Longrightarrow> headers_read w smap kvs"
proof -
  assume m: "maps_ok env w n ((smap, lifted (map_of kvs)) # ms)"
  have "world_get w smap k = Some (map_of kvs k)" if "keys_ok (insert k (fst ` set kvs))" for k
    using world_get_ok [OF m, of k] that by (simp add: dom_map_of_conv_image_fst)
  then show ?thesis by (simp add: headers_read_def)
qed

lemma query_ok:
  assumes fb: "first_buffer env (length (query_of u url) + 64 * length (fst (arguments_of (query_of u url))))
        [(req_headers req, lifted (map_of kvs)), (req_arguments req, Map.empty)] req w buf y seg"
    and url: "req_url req = \<lparr>buf_data = buf_data buf + of_nat off, buf_size = of_nat (length url)\<rparr>"
      "bytes_at (mem_bytes (hw_heap w)) (buf_data buf + of_nat off) url" "off + length url \<le> unat (buf_size buf)"
    and u: "url_fits u url" "req_query req = no_buf" and keys: "keys_ok (fst ` set (fst (arguments_of (query_of u url))))"
  shows "\<exists>req' w'. read_query env (with_url u req) w
      = Some (if snd (arguments_of (query_of u url)) then dfk_err_ok else dfk_err_protocol, req', w')
    \<and> req' = (with_url u req)\<lparr>req_arguments := req_arguments req'\<rparr> \<and> first_buffer env 0 [] req' w' buf y seg
    \<and> headers_read w' (req_headers req) kvs
    \<and> (snd (arguments_of (query_of u url)) \<longrightarrow> headers_read w' (req_arguments req') (fst (arguments_of (query_of u url))))
    \<and> mem_blocks (hw_heap w') = mem_blocks (hw_heap w) \<and> hw_os w' = hw_os w \<and> hw_ctx w' = hw_ctx w"
proof (cases "query_of u url = []")
  case True
  let ?req = "with_url u req"
  have a: "arguments_of [] = ([], True)" by (simp add: arguments_of_def)
  have "unat (buf_size (req_query ?req)) = 0"
  proof (cases "uf_query u")
    case (Some ol)
    then obtain qo l where q: "uf_query u = Some (qo, l)" by (cases ol) auto
    have "l = 0" using True u(1) by (auto simp: query_of_def url_fits_def q)
    then show ?thesis by (simp add: with_url_def url_part_def q)
  qed (simp add: with_url_def url_part_def u(2))
  then have q: "read_query env ?req w = Some (dfk_err_ok, ?req, w)" by (simp add: read_query_def unat_eq_0)
  have m: "maps_ok env w 0 [(req_headers req, lifted (map_of kvs)), (req_arguments req, Map.empty)]"
    using fb maps_ok_mono by (fastforce simp: first_buffer_def)
  have e: "lifted (map_of []) = Map.empty" by simp
  have "first_buffer env 0 [] ?req w buf y seg"
    by (rule first_buffer_maps [OF fb same_but_maps_refl maps_ok_tl [OF maps_ok_tl [OF m]]]) (simp add: with_url_def)
  moreover have "headers_read w (req_arguments ?req) []"
    using headers_readI [of env w 0 "req_arguments req" "[]"] maps_ok_swap [OF m] by (simp add: with_url_def)
  ultimately show ?thesis using q headers_readI [OF m] True a
    by (intro exI [of _ ?req] exI [of _ w]) (simp add: with_url_def)
next
  case False
  let ?req = "with_url u req" and ?xs = "query_of u url"
  obtain qo l where ol: "uf_query u = Some (qo, l)" using False by (auto simp: query_of_def split: option.splits)
  then have xs: "?xs = take l (drop qo url)" "qo + l \<le> length url" "length ?xs = l" using u(1) by (auto simp: query_of_def url_fits_def)
  obtain d r where d: "pct_decode ?xs = (d, r)" by (cases "pct_decode ?xs")
  have ao: "arguments_of ?xs = (fst (query_spec d), r = [] \<and> snd (query_spec d))" by (simp add: arguments_of_def d)
  have at: "req_query ?req = \<lparr>buf_data = buf_data buf + of_nat (off + qo), buf_size = of_nat (length ?xs)\<rparr>"
    using ol xs(3) by (simp add: with_url_def url_part_def url(1) ac_simps)
  have b: "bytes_at (mem_bytes (hw_heap w)) (buf_data (req_query ?req)) ?xs"
    using bytes_at_sub [OF url(2), of qo l] xs by (simp add: at ac_simps)
  have blk: "fits (buf_data buf) (unat (buf_size buf))" "unat (buf_data buf) + unat (buf_size buf) < 2 ^ 62"
    using fb block_fits by (auto simp: first_buffer_def block_def)
  have le: "off + qo + length ?xs \<le> unat (buf_size buf)" using url(3) xs by simp
  have "unat (buf_data buf + of_nat (off + qo)) = unat (buf_data buf) + (off + qo)" by (rule unat_add_fits [OF blk(1)]) (use le in simp)
  then have f: "fits (buf_data (req_query ?req)) (length ?xs + 2)"
    using blk le bytes_at_fits [OF b] by (simp add: fits_def at)
  have aw: "away w (buf_data (req_query ?req)) (length ?xs)" using first_buffer_away [OF fb le] by (simp add: at)
  have m: "maps_ok env w (length ?xs + (64 * length (fst (query_spec d)) + 0)) ((req_arguments ?req, Map.empty) # [(req_headers req, lifted (map_of kvs))])"
    by (rule maps_ok_swap) (use fb ao in \<open>simp add: first_buffer_def with_url_def\<close>)
  have k: "keys_ok (fst ` set (fst (query_spec d)))" using keys ao by simp
  obtain req' w' where r: "read_query env ?req w = Some (if r = [] \<and> snd (query_spec d) then dfk_err_ok else dfk_err_protocol, req', w')"
    "maps_ok env w' 0 ((req_arguments req', lifted (if r = [] then map_of (fst (query_spec d)) else Map.empty)) # [(req_headers req, lifted (map_of kvs))])"
    "req' = ?req\<lparr>req_arguments := req_arguments req'\<rparr>" "hw_lists w' = hw_lists w" "hw_bufs w' = hw_bufs w" "hw_arena w' = hw_arena w"
    "hw_ctx w' = hw_ctx w" "hw_os w' = hw_os w" "mem_blocks (hw_heap w') = mem_blocks (hw_heap w)" "dom (mem_bytes (hw_heap w')) = dom (mem_bytes (hw_heap w))"
    using read_query_ok [OF m b _ False aw f d k] at by auto
  have "req_buffers req' = req_buffers req" by (subst r(3)) (simp add: with_url_def)
  then have "first_buffer env 0 [] req' w' buf y seg"
    using fb maps_ok_tl [OF maps_ok_tl [OF r(2)]] r(4-6,9,10) by (simp add: first_buffer_def block_def allocated_def)
  then show ?thesis
    using r headers_readI [OF r(2) [THEN maps_ok_swap]] headers_readI [of env w' 0 "req_arguments req'" "fst (query_spec d)"] ao
    by (intro exI [of _ req'] exI [of _ w']) auto
qed

lemma split_url_ok:
  assumes "bytes_at (mem_bytes (hw_heap w)) (buf_data (req_url req)) url" "buf_size (req_url req) = of_nat (length url)"
    and "block env (hw_heap w) a k" "length url \<le> k" "hx_parse_url X url = Some u"
  shows "split_url X req w = Some (dfk_err_ok, with_url u req)"
proof -
  have "unat (buf_size (req_url req)) = length url"
    using assms(2,4) block_fits [OF assms(3)] of_nat_inverse [of "length url" "of_nat (length url) :: size_t"]
    by (simp add: fits_def)
  then have b: "buffer_has (hw_heap w) (req_url req) url" using assms(1,2) by (simp add: buffer_has_def)
  show ?thesis using buffer_has_load [OF b] assms(5) by (auto simp: split_url_def with_url_def bytes_of_def)
qed

text \<open>
  A header that arrives in one piece is read as the parser reports it. The body bytes that came along are kept for
  later, the header lines and the arguments of the query are in their maps, and the buffer is the one of the request.
\<close>

text \<open>What is known of the request, given the parser's state at the end of the header, the URL and the header lines.\<close>

definition describes ::
  "'p http_parser \<Rightarrow> 'p \<Rightarrow> (byte list \<times> byte list) list \<Rightarrow> byte list \<Rightarrow> 'p dfk_http_request_t \<Rightarrow> bool" where
  "describes X q kvs body req \<longleftrightarrow> req_remainder req = body \<and> req_method req = hx_method X q
     \<and> req_major_version req = hx_http_major X q \<and> req_minor_version req = hx_http_minor X q
     \<and> req_keepalive req = hx_should_keep_alive X q \<and> req_chunked req = hx_chunked X q
     \<and> req_user_agent req = map_of kvs DFK_HTTP_USER_AGENT \<and> req_host req = map_of kvs DFK_HTTP_HOST
     \<and> req_accept req = map_of kvs DFK_HTTP_ACCEPT \<and> req_content_type req = map_of kvs DFK_HTTP_CONTENT_TYPE
     \<and> req_content_length req = length_of_body (hx_chunked X q) (map_of kvs DFK_HTTP_CONTENT_LENGTH)"

definition header_room :: "dfk_env \<Rightarrow> (byte list \<times> byte list) list \<Rightarrow> byte list \<Rightarrow> bool" where
  "header_room env kvs q \<longleftrightarrow>
     64 * length kvs + (length q + 64 * length (fst (arguments_of q))) + 64 < unat (DFK_ARENA_SEGMENT_SIZE env - 32)"

lemma request_init_fresh:
  assumes "dfk__http_request_init X w sock = Some req"
  shows "list_rep (hw_lists w) (req_buffers req) [] \<and> strmap_rep (hw_hooks w) (hw_items w) (req_headers req) [] Map.empty
    \<and> strmap_rep (hw_hooks w) (hw_items w) (req_arguments req) [] Map.empty
    \<and> req_url req = no_buf \<and> req_socket req = sock \<and> req_content_length req = -1 \<and> req_query req = no_buf
    \<and> req_parser req = hx_zero X"
proof -
  obtain l where "dfk_list_init (hw_lists w) = Some l" "list_rep (hw_lists w) l []" using list_init_spec by blast
  moreover obtain m where "dfk_strmap_init (hw_hooks w) (hw_items w) = Some m" "strmap_rep (hw_hooks w) (hw_items w) m [] Map.empty"
    using strmap_init_spec by blast
  ultimately show ?thesis using assms by (auto simp: dfk__http_request_init_def)
qed

lemma first_round_ok:
  assumes env: "alloc_ok env" "arena_inv env (sm_arena (hw_mem w)) (hw_arena w) [] [] []"
    and init: "dfk__http_request_init X w sock = Some req"
    and alloc: "dfk__http_request_allocate_headers_buf env http (req\<lparr>req_parser := q0\<rparr>) w = Some (dfk_err_ok, buf, req1, w1)"
    and size: "http_headers_buffer_size http \<noteq> 0" "mx \<le> http_headers_buffer_size http"
      "length (head @ body) \<le> unat (http_headers_buffer_size http)"
    and rd: "os_read S (t_socket sock) (unat (http_headers_buffer_size http)) (hw_os w) = (int (length (head @ body)), head @ body, s')"
      "head \<noteq> []"
    and X: "reads_header X mx q0 head url kvs q" "keys_ok (fst ` set kvs)"
    and n: "(64 * length kvs + n) + 64 < unat (DFK_ARENA_SEGMENT_SIZE env - 32)"
  shows "\<exists>p off y seg. read_headers_loop env S X http mx (no_headers req1 w1) buf = Some (dfk_err_ok, p)
    \<and> first_buffer env n [(req_headers (hp_req p), lifted (map_of kvs)), (req_arguments (hp_req p), Map.empty)] (hp_req p) (hp_world p) buf y seg
    \<and> req_parser (hp_req p) = q \<and> req_content_length (hp_req p) = -1 \<and> req_query (hp_req p) = no_buf \<and> req_remainder (hp_req p) = 10 # body
    \<and> req_url (hp_req p) = \<lparr>buf_data = buf_data buf + of_nat off, buf_size = of_nat (length url)\<rparr>
    \<and> bytes_at (mem_bytes (hw_heap (hp_world p))) (buf_data buf + of_nat off) url \<and> off + length url \<le> unat (buf_size buf)
    \<and> hw_os (hp_world p) = s' \<and> hw_ctx (hp_world p) = hw_ctx w
    \<and> dom (mem_blocks (hw_heap (hp_world p))) = insert (buf_data buf) (insert seg (dom (mem_blocks (hw_heap w))))
    \<and> {buf_data buf, seg} \<inter> dom (mem_blocks (hw_heap w)) = {}"
proof -
  let ?r = "req\<lparr>req_parser := q0\<rparr>"
  have req: "list_rep (hw_lists w) (req_buffers ?r) []" "strmap_rep (hw_hooks w) (hw_items w) (req_headers ?r) [] Map.empty"
      "strmap_rep (hw_hooks w) (hw_items w) (req_arguments ?r) [] Map.empty" "req_url req = no_buf" "req_socket req = sock"
      "req_content_length req = -1" "req_query req = no_buf"
    using request_init_fresh [OF init] by simp_all
  let ?ms = "[(req_headers ?r, Map.empty), (req_arguments ?r, Map.empty)]"
  have e: "\<forall>(smap, m)\<in>set ?ms. strmap_rep (hw_hooks w) (hw_items w) smap [] m" using req(2,3) by simp
  obtain y seg k where a: "first_buffer env (64 * length kvs + n) ?ms req1 w1 buf y seg" "buf_size buf = http_headers_buffer_size http"
      "req1 = ?r\<lparr>req_buffers := req_buffers req1\<rparr>" "hw_ctx w1 = hw_ctx w" "hw_os w1 = hw_os w"
      "mem_blocks (hw_heap w1) = (mem_blocks (hw_heap w))(buf_data buf \<mapsto> unat (buf_size buf), seg \<mapsto> k)"
      "{buf_data buf, seg} \<inter> dom (mem_blocks (hw_heap w)) = {}"
    using allocate_fresh [OF env req(1) e size(1) n alloc] by fastforce
  have r1: "req_headers req1 = req_headers req" "req_arguments req1 = req_arguments req" "req_url req1 = no_buf"
      "req_socket req1 = sock" "req_content_length req1 = -1" "req_query req1 = no_buf" "req_parser req1 = q0"
    by (subst a(3), simp add: req)+
  have fb1: "first_buffer env (64 * length kvs + n) ((req_headers req1, Map.empty) # [(req_arguments req1, Map.empty)]) req1 w1 buf y seg"
    using a(1) r1 by simp
  obtain p off where p: "read_headers_round env S X http mx (no_headers req1 w1) buf = Some (Complete, p)"
      "hp_req p = req1\<lparr>req_url := \<lparr>buf_data = buf_data buf + of_nat off, buf_size = of_nat (length url)\<rparr>,
        req_headers := req_headers (hp_req p), req_parser := q, req_remainder := 10 # body\<rparr>"
      "first_buffer env n ((req_headers (hp_req p), lifted (map_of kvs)) # [(req_arguments req1, Map.empty)]) (hp_req p) (hp_world p) buf y seg"
      "bytes_at (mem_bytes (hw_heap (hp_world p))) (buf_data buf + of_nat off) url" "off + length url \<le> length head"
      "mem_blocks (hw_heap (hp_world p)) = mem_blocks (hw_heap w1)" "hw_os (hp_world p) = s'" "hw_ctx (hp_world p) = hw_ctx w1"
    using round_complete [OF fb1, where mx = mx and S = S and head = head and body = body and s' = s' and url = url and q' = q
        and X = X and http = http] size rd X a(2,5) r1 by auto
  have "req_arguments (hp_req p) = req_arguments req1" "req_parser (hp_req p) = q"
      "req_content_length (hp_req p) = -1" "req_query (hp_req p) = no_buf" "req_remainder (hp_req p) = 10 # body"
      "req_url (hp_req p) = \<lparr>buf_data = buf_data buf + of_nat off, buf_size = of_nat (length url)\<rparr>"
    by ((subst p(2), simp add: r1)+)
  moreover have "read_headers_loop env S X http mx (no_headers req1 w1) buf = Some (dfk_err_ok, p)"
    by (subst read_headers_loop.simps) (simp add: p(1))
  moreover have "dom (mem_blocks (hw_heap (hp_world p))) = insert (buf_data buf) (insert seg (dom (mem_blocks (hw_heap w))))"
    using p(6) a(6) by auto
  moreover have "off + length url \<le> unat (buf_size buf)" using p(5) size(3) a(2) by simp
  ultimately show ?thesis
    using p(3,4,7,8) a(4,7) by (intro exI [of _ p] exI [of _ off] exI [of _ y] exI [of _ seg]) simp
qed

text \<open>
  C5. A header that arrives in one piece is read as the parser reports it, when no name in it is a proper prefix of another name in it or of
  one of the five common names (so there is no \<^verbatim>\<open>Accept-Encoding\<close>, of which \<^verbatim>\<open>Accept\<close> is a prefix), when the same holds of
  the names of the arguments, and when header and arguments fit into the first segment of a fresh arena (\<open>header_room\<close>) and
  within the size limits: \<open>dfk__http_request_read_headers\<close> returns success
  (\<open>dfk_err_protocol\<close> when the query of the URL is malformed), the request has the method, version and common headers, the
  header lines and the arguments of the query are in their maps, the line feed that ends the header and the bytes of the body that came
  along are kept for later, and the memory taken is one buffer and one segment of the arena.
\<close>

theorem header_read_correct:
  fixes X :: "'p http_parser"
  defines "q0 \<equiv> hx_init X (hx_zero X)"
  assumes env: "alloc_ok env" "arena_inv env (sm_arena (hw_mem w)) (hw_arena w) [] [] []"
    and init: "dfk__http_request_init X w sock = Some req"
    and alloc: "dfk__http_request_allocate_headers_buf env http (req\<lparr>req_parser := q0\<rparr>) w = Some (dfk_err_ok, buf, req1, w1)"
    and size: "http_headers_buffer_size http \<noteq> 0" "mx \<le> http_headers_buffer_size http"
      "length (head @ body) \<le> unat (http_headers_buffer_size http)"
    and rd: "os_read S (t_socket sock) (unat (http_headers_buffer_size http)) (hw_os w) = (int (length (head @ body)), head @ body, s')"
      "head \<noteq> []"
    and X: "reads_header X mx q0 head url kvs q" "hx_parse_url X url = Some u" "url_fits u url"
    and keys: "keys_ok (common_names \<union> fst ` set kvs)" "keys_ok (fst ` set (fst (arguments_of (query_of u url))))"
    and room: "header_room env kvs (query_of u url)"
  shows "\<exists>req' w' y seg. dfk__http_request_read_headers env S X http mx req w
      = Some (if snd (arguments_of (query_of u url)) then dfk_err_ok else dfk_err_protocol, req', w')
    \<and> describes X q kvs (10 # body) req' \<and> first_buffer env 0 [] req' w' buf y seg \<and> headers_read w' (req_headers req') kvs
    \<and> (snd (arguments_of (query_of u url)) \<longrightarrow> headers_read w' (req_arguments req') (fst (arguments_of (query_of u url))))
    \<and> hw_os w' = s' \<and> hw_ctx w' = hw_ctx w
    \<and> dom (mem_blocks (hw_heap w')) = insert (buf_data buf) (insert seg (dom (mem_blocks (hw_heap w))))
    \<and> {buf_data buf, seg} \<inter> dom (mem_blocks (hw_heap w)) = {}"
proof -
  let ?args = "arguments_of (query_of u url)" and ?q = "query_of u url"
  let ?n = "length ?q + 64 * length (fst ?args)"
  have n: "(64 * length kvs + ?n) + 64 < unat (DFK_ARENA_SEGMENT_SIZE env - 32)" using room by (simp add: header_room_def)
  have kk: "keys_ok (fst ` set kvs)" by (rule keys_ok_mono [OF keys(1)]) auto
  obtain p off y seg where p: "read_headers_loop env S X http mx (no_headers req1 w1) buf = Some (dfk_err_ok, p)"
      "first_buffer env ?n [(req_headers (hp_req p), lifted (map_of kvs)), (req_arguments (hp_req p), Map.empty)] (hp_req p) (hp_world p) buf y seg"
      "req_parser (hp_req p) = q" "req_content_length (hp_req p) = -1" "req_query (hp_req p) = no_buf" "req_remainder (hp_req p) = 10 # body"
      "req_url (hp_req p) = \<lparr>buf_data = buf_data buf + of_nat off, buf_size = of_nat (length url)\<rparr>"
      "bytes_at (mem_bytes (hw_heap (hp_world p))) (buf_data buf + of_nat off) url" "off + length url \<le> unat (buf_size buf)"
      "hw_os (hp_world p) = s'" "hw_ctx (hp_world p) = hw_ctx w"
      "dom (mem_blocks (hw_heap (hp_world p))) = insert (buf_data buf) (insert seg (dom (mem_blocks (hw_heap w))))"
      "{buf_data buf, seg} \<inter> dom (mem_blocks (hw_heap w)) = {}"
    using first_round_ok [OF env init alloc size rd X(1) kk n] by blast
  have m: "maps_ok env (hp_world p) ?n ((req_headers (hp_req p), lifted (map_of kvs)) # [(req_arguments (hp_req p), Map.empty)])"
    using p(2) by (simp add: first_buffer_def)
  obtain req2 where r2: "populate_headers X (hp_req p) (hp_world p) = Some req2" "describes X q kvs (10 # body) req2"
      "req_url req2 = req_url (hp_req p)" "req_query req2 = no_buf" "req_headers req2 = req_headers (hp_req p)"
      "req_arguments req2 = req_arguments (hp_req p)" "req_buffers req2 = req_buffers (hp_req p)"
    using populate_ok [OF m keys(1) p(4), of X] p(3,5,6) by (auto simp: describes_def)
  have fb2: "first_buffer env ?n [(req_headers req2, lifted (map_of kvs)), (req_arguments req2, Map.empty)] req2 (hp_world p) buf y seg"
    using p(2) r2(5-7) by (simp add: first_buffer_def)
  have blk: "block env (hw_heap (hp_world p)) (buf_data buf) (unat (buf_size buf))" using p(2) by (simp add: first_buffer_def)
  have su: "split_url X req2 (hp_world p) = Some (dfk_err_ok, with_url u req2)"
    by (rule split_url_ok [OF _ _ blk _ X(2)]) (use p(7-9) r2(3) in auto)
  have ru: "req_url req2 = \<lparr>buf_data = buf_data buf + of_nat off, buf_size = of_nat (length url)\<rparr>" by (simp add: r2(3) p(7))
  obtain req' w' where q: "read_query env (with_url u req2) (hp_world p) = Some (if snd ?args then dfk_err_ok else dfk_err_protocol, req', w')"
      "req' = (with_url u req2)\<lparr>req_arguments := req_arguments req'\<rparr>" "first_buffer env 0 [] req' w' buf y seg"
      "headers_read w' (req_headers req2) kvs" "snd ?args \<longrightarrow> headers_read w' (req_arguments req') (fst ?args)"
      "mem_blocks (hw_heap w') = mem_blocks (hw_heap (hp_world p))" "hw_os w' = hw_os (hp_world p)" "hw_ctx w' = hw_ctx (hp_world p)"
    using query_ok [OF fb2 ru p(8,9) X(3) r2(4) keys(2)] by blast
  have "req_headers req' = req_headers req2" by (subst q(2)) (simp add: with_url_def)
  moreover have "describes X q kvs (10 # body) req'" by (subst q(2)) (use r2(2) in \<open>simp add: describes_def with_url_def\<close>)
  moreover have "dfk__http_request_read_headers env S X http mx req w
      = Some (if snd ?args then dfk_err_ok else dfk_err_protocol, req', w')"
    using alloc q0_def p(1) r2(1) su q(1) request_init_fresh [OF init] by (simp add: dfk__http_request_read_headers_def Let_def)
  ultimately show ?thesis using q(3-8) p(10-13) by (intro exI [of _ req'] exI [of _ w'] exI [of _ y] exI [of _ seg]) simp
qed

section \<open>The release of a request\<close>

text \<open>The buffers of a request: the items of its list, and the blocks they hold.\<close>

definition holds_buffers :: "'p dfk_http_request_t \<Rightarrow> 'o http_world \<Rightarrow> dfk_buf_t list \<Rightarrow> bool" where
  "holds_buffers req w bs \<longleftrightarrow> (\<exists>ys. list_rep (hw_lists w) (req_buffers req) ys \<and> list_all2 (\<lambda>y b. hw_bufs w y = Some b) ys bs)
     \<and> distinct (map buf_data bs) \<and> buf_data ` set bs \<subseteq> dom (mem_blocks (hw_heap w))"

lemma request_free_loop_ok:
  assumes "list_rep (hw_lists w) l (xs @ ys)" "list_all2 (\<lambda>y b. hw_bufs w y = Some b) ys bs" "heap_ok env (hw_heap w)"
    and "distinct (map buf_data bs)" "buf_data ` set bs \<subseteq> dom (mem_blocks (hw_heap w))"
  shows "\<exists>heap. request_free_loop env w \<lparr>it_value = hd_or ys NULL\<rparr> \<lparr>it_value = NULL\<rparr> = Some (with_heap w heap) \<and> heap_ok env heap
    \<and> mem_blocks heap = mem_blocks (hw_heap w) |` (- buf_data ` set bs)"
  using assms
proof (induction ys arbitrary: xs bs w)
  case Nil
  have e: "with_heap w (hw_heap w) = w" by (simp add: with_heap_def)
  from Nil have "request_free_loop env w \<lparr>it_value = NULL\<rparr> \<lparr>it_value = NULL\<rparr> = Some (with_heap w (hw_heap w))"
    using list_it_equal_spec [OF Nil.prems(1)] by (subst request_free_loop.simps) (simp add: e)
  with Nil show ?case by (intro exI [of _ "hw_heap w"]) (simp add: restrict_map_def)
next
  case (Cons y ys)
  then obtain b bs' where bs: "bs = b # bs'" by (cases bs) auto
  obtain n where n: "mem_blocks (hw_heap w) (buf_data b) = Some n" using Cons.prems(5) bs by auto
  obtain m where m: "dfk__free env (hw_heap w) (buf_data b) = Some m" "heap_ok env m" "mem_blocks m = (mem_blocks (hw_heap w))(buf_data b := None)"
    by (rule heap_ok_free [OF Cons.prems(3) n])
  let ?w = "with_heap w m"
  have h: "hw_lists ?w = hw_lists w" "hw_bufs ?w = hw_bufs w" "hw_heap ?w = m" by (simp_all add: with_heap_def)
  have y: "y \<noteq> NULL" using Cons.prems(1) by (auto simp: list_rep_def)
  have d: "buf_data b \<notin> buf_data ` set bs'" using Cons.prems(4) bs by auto
  have "dom (mem_blocks m) = dom (mem_blocks (hw_heap w)) - {buf_data b}" using m(3) by auto
  then have sub: "buf_data ` set bs' \<subseteq> dom (mem_blocks (hw_heap ?w))" using Cons.prems(5) bs h(3) d by (simp add: subset_Diff_insert)
  have "\<exists>heap. request_free_loop env ?w \<lparr>it_value = hd_or ys NULL\<rparr> \<lparr>it_value = NULL\<rparr> = Some (with_heap ?w heap) \<and> heap_ok env heap
      \<and> mem_blocks heap = mem_blocks (hw_heap ?w) |` (- buf_data ` set bs')"
    by (rule Cons.IH [of _ "xs @ [y]"]) (use Cons.prems bs m(2) h sub in auto)
  then obtain heap where r: "request_free_loop env ?w \<lparr>it_value = hd_or ys NULL\<rparr> \<lparr>it_value = NULL\<rparr> = Some (with_heap ?w heap)"
      "heap_ok env heap" "mem_blocks heap = mem_blocks m |` (- buf_data ` set bs')" using h(3) by auto
  have "request_free_loop env w \<lparr>it_value = y\<rparr> \<lparr>it_value = NULL\<rparr> = Some (with_heap w heap)"
    using r(1) m(1) Cons.prems(2) bs y list_it_equal_spec [OF Cons.prems(1)] list_it_next_spec [OF Cons.prems(1), of "\<lparr>it_value = y\<rparr>"] h(1)
    by (subst request_free_loop.simps) (simp add: Let_def, simp add: with_heap_def)
  moreover have "mem_blocks m |` (- buf_data ` set bs') = mem_blocks (hw_heap w) |` (- buf_data ` set bs)"
    by (auto simp: m(3) bs restrict_map_def fun_eq_iff)
  ultimately show ?case using r(2,3) by (intro exI [of _ heap]) simp
qed

text \<open>
  C21. The release of a request: its buffers and the segments of its arena are freed, each once, and no other block. It always comes to
  an end, however many buffers the header took.
\<close>

theorem request_released:
  assumes "arena_inv env (sm_arena (hw_mem w)) (hw_arena w) ss os regs" "holds_buffers req w bs" "set ss \<inter> buf_data ` set bs = {}"
  shows "\<exists>w' st' arena' calls. dfk__http_request_free env req w = Some w'
    \<and> dfk_arena_free env (sm_arena (hw_mem w')) (hw_arena w') = Some (st', arena', calls)
    \<and> mem_blocks (am_heap st') = mem_blocks (hw_heap w) |` (- (set ss \<union> buf_data ` set bs))"
proof -
  obtain ys where ys: "list_rep (hw_lists w) (req_buffers req) ys" "list_all2 (\<lambda>y b. hw_bufs w y = Some b) ys bs"
    using assms(2) by (auto simp: holds_buffers_def)
  have i: "list_rep (hw_lists w) (arena_segments (hw_arena w)) ss" "list_rep (hw_lists w) (arena_owc (hw_arena w)) os"
      "heap_ok env (hw_heap w)" "\<forall>a\<in>set os. am_owcs (sm_arena (hw_mem w)) a \<noteq> None" "set ss \<subseteq> dom (mem_blocks (hw_heap w))"
    using assms(1) by (auto simp: arena_inv_def segment_ok_def)
  obtain heap where f: "request_free_loop env w \<lparr>it_value = hd_or ys NULL\<rparr> \<lparr>it_value = NULL\<rparr> = Some (with_heap w heap)" "heap_ok env heap"
      "mem_blocks heap = mem_blocks (hw_heap w) |` (- buf_data ` set bs)"
    using request_free_loop_ok [of w "req_buffers req" "[]" ys bs env] ys i(3) assms(2) by (auto simp: holds_buffers_def)
  let ?st = "(sm_arena (hw_mem w))\<lparr>am_heap := heap\<rparr>"
  have w: "sm_arena (hw_mem (with_heap w heap)) = ?st" "hw_arena (with_heap w heap) = hw_arena w" by (simp_all add: with_heap_def)
  have "dom (mem_blocks heap) = dom (mem_blocks (hw_heap w)) - buf_data ` set bs" unfolding f(3) dom_restrict by blast
  then have "set ss \<subseteq> dom (mem_blocks heap)"
    using i(5) assms(3) by (simp only: Diff_eq disjoint_eq_subset_Compl le_inf_iff)
  then obtain st' l' where a: "arena_release env ?st (arena_segments (hw_arena w)) = Some (st', l')"
      "mem_blocks (am_heap st') = mem_blocks heap |` (- set ss)"
    using arena_release_spec [of ?st "arena_segments (hw_arena w)" ss env] i(1) f(2) by auto
  have "arena_cleanups ?st \<lparr>it_value = hd_or os NULL\<rparr> \<lparr>it_value = NULL\<rparr> = Some (map (cleanup_call ?st) os)"
    using arena_cleanups_spec [of ?st "arena_owc (hw_arena w)" "[]" os] i(2,4) by simp
  then obtain arena' calls where c: "dfk_arena_free env ?st (hw_arena w) = Some (st', arena', calls)"
    using a(1) list_begin_spec [OF i(2)] list_end_spec [OF i(2)] by (simp add: dfk_arena_free_def)
  have "dfk__http_request_free env req w = Some (with_heap w heap)"
    using f(1) list_begin_spec [OF ys(1)] list_end_spec [OF ys(1)] by (simp add: dfk__http_request_free_def)
  moreover have "mem_blocks heap |` (- set ss) = mem_blocks (hw_heap w) |` (- (set ss \<union> buf_data ` set bs))"
    by (auto simp: f(3) restrict_map_def fun_eq_iff)
  ultimately show ?thesis using a(2) c w by auto
qed

lemma first_buffer_release:
  assumes "first_buffer env n ms req w buf y seg"
  shows "\<exists>os regs. arena_inv env (sm_arena (hw_mem w)) (hw_arena w) [seg] os regs" "holds_buffers req w [buf]" "set [seg] \<inter> buf_data ` set [buf] = {}"
proof -
  obtain ss os regs where i: "arena_inv env (sm_arena (hw_mem w)) (hw_arena w) ss os regs"
    using assms unfolding first_buffer_def maps_ok_def by blast
  moreover have "ss = [seg]"
    using list_rep_unique [of "hw_lists w" "arena_segments (hw_arena w)" ss "[seg]"] i assms by (auto simp: first_buffer_def arena_inv_def)
  ultimately show "\<exists>os regs. arena_inv env (sm_arena (hw_mem w)) (hw_arena w) [seg] os regs" by blast
  show "holds_buffers req w [buf]" using assms by (auto simp: first_buffer_def holds_buffers_def block_def)
  show "set [seg] \<inter> buf_data ` set [buf] = {}" using assms by (simp add: first_buffer_def)
qed

section \<open>A sample\<close>

text \<open>Memory for a buffer and a segment.\<close>

lemma small_next_malloc:
  assumes "dom (mem_bytes m) = range_of 4096 k" "k \<le> 65536" "mem_blocks m = [4096 \<mapsto> k]" "n \<noteq> 0" "unat n \<le> 65536"
  shows "\<exists>heap. dfk__malloc small_env m n = Some (heap, 0x100000)"
proof -
  have "mem_bytes m (0x100000 + of_nat i) = None" if i: "i < unat n" for i
  proof (rule ccontr)
    assume "\<not> ?thesis"
    then have "0x100000 + of_nat i \<in> range_of 4096 k" using assms(1) by auto
    then obtain j where j: "j < k" "(0x100000 + of_nat i :: addr) = 4096 + of_nat j" by (auto simp: range_of_def)
    have "unat (0x100000 + of_nat i :: addr) = 0x100000 + i" using i assms(5) by (simp add: unat_word_ariths unat_of_nat)
    moreover have "unat (4096 + of_nat j :: addr) = 4096 + j" using j(1) assms(2) by (simp add: unat_word_ariths unat_of_nat)
    ultimately show False using j assms(2) by simp
  qed
  then have "free_at m n 0x100000" using assms(3,5) by (simp add: free_at_def)
  moreover have "\<not> free_at m n 0x1000" using assms(3) by (simp add: free_at_def)
  ultimately show ?thesis using assms(4)
    by (simp add: dfk__malloc_def small_env_def slot_alloc_def slots_def ALIGNED_def)
qed

definition header_world :: "byte list \<Rightarrow> kernel http_world" where
  "header_world input = (world_of fresh_arena_mem fresh_arena)\<lparr>hw_os := sample_kernel\<lparr>k_input := input\<rparr>\<rparr>"

lemma header_world_simps:
  "sm_arena (hw_mem (header_world xs)) = fresh_arena_mem" "hw_arena (header_world xs) = fresh_arena"
  "hw_os (header_world xs) = sample_kernel\<lparr>k_input := xs\<rparr>" "hw_heap (header_world xs) = am_heap fresh_arena_mem"
  by (simp_all add: header_world_def world_of_def)

lemma header_world_arena:
  "arena_inv small_env (sm_arena (hw_mem (header_world xs))) (hw_arena (header_world xs)) [] [] []"
  using init_spec [OF fresh_arena_ok] fresh_arena_init by (auto simp: header_world_simps)

lemma request_init_ok: "\<exists>req. dfk__http_request_init X w sock = Some req"
  using list_init_spec [of "hw_lists w"] strmap_init_spec [of "hw_hooks w" "hw_items w"] by (auto simp: dfk__http_request_init_def)

lemma sample_buffer:
  assumes n: "http_headers_buffer_size http = n" "n \<noteq> 0" "unat n \<le> 65536"
    and req: "list_rep (hw_lists (header_world xs)) (req_buffers req) []"
  shows "\<exists>buf req1 w1. dfk__http_request_allocate_headers_buf small_env http req (header_world xs) = Some (dfk_err_ok, buf, req1, w1)
    \<and> buf_size buf = n"
proof -
  let ?w = "header_world xs"
  obtain heap where m: "dfk__malloc small_env (am_heap fresh_arena_mem) n = Some (heap, 4096)"
    using small_malloc [OF n(2)] n(3) by fastforce
  then have "heap = \<lparr>mem_bytes = put_bytes (\<lambda>_. None) 4096 (replicate (unat n) 0), mem_blocks = [4096 \<mapsto> unat n]\<rparr>"
    using n by (auto simp: dfk__malloc_def small_env_def slot_alloc_def slots_def free_at_def ALIGNED_def)
  then have h: "dom (mem_bytes heap) = range_of 4096 (unat n)" "mem_blocks heap = [4096 \<mapsto> unat n]"
    by (simp_all add: put_bytes_dom)
  obtain heap2 where m2: "dfk__malloc small_env heap 40960 = Some (heap2, 0x100000)"
    using small_next_malloc [OF h(1) n(3) h(2), of 40960] by auto
  let ?am = "fresh_arena_mem\<lparr>am_heap := heap\<rparr>"
  have reps: "list_rep (am_hooks ?am) (arena_segments fresh_arena) []" by (simp add: list_rep_Nil)
  obtain h1 h2 l2 where l: "dfk_list_hook_init (fresh_hook (am_hooks ?am) 0x100000) 0x100000 = Some h1"
      "dfk_list_append h1 (arena_segments fresh_arena) 0x100000 = Some (h2, l2)"
    by (rule link_fresh [OF reps reps, of "0x100000"]) auto
  obtain am arena where a: "dfk_arena_alloc small_env ?am fresh_arena sizeof_buflist_item = Some (am, arena, 0x100020)" "am_hooks am = h2"
    using m2 l list_empty_spec [OF reps]
    by (simp add: dfk_arena_alloc_def small_env_def sizeof_buflist_item_def) (simp add: sizeof_segment_def)
  have r: "list_rep (am_hooks am) (req_buffers req) []" using req by (simp add: list_rep_Nil)
  obtain h3 h4 l4 where "dfk_list_hook_init (fresh_hook (am_hooks am) 0x100020) 0x100020 = Some h3"
      "dfk_list_append h3 (req_buffers req) 0x100020 = Some (h4, l4)"
    by (rule link_fresh [OF r r, of "0x100020"]) auto
  then show ?thesis
    using m a n(1) by (simp add: dfk__http_request_allocate_headers_buf_def world_alloc_def Let_def header_world_simps with_heap_def)
qed

text \<open>A parser for one header, and a kernel that delivers it with the first bytes of a body.\<close>

definition one_header :: "byte list" where
  "one_header = str ''GET /?a=b HTTP/1.1'' @ [13, 10] @ str ''Host: ab'' @ [13, 10, 13, 10]"

abbreviation at_start :: count_state where "at_start \<equiv> (False, 0)"

definition sample_parser :: "count_state http_parser" where
  "sample_parser = \<lparr>hx_zero = at_start, hx_init = (\<lambda>_. at_start),
     hx_execute = (\<lambda>q buf bs. if take 32 bs = one_header
       then ([(Message_begin, 1, at_start), (Url (buf + 4) 5, 9, at_start), (Field (buf + 20) 4, 24, at_start),
              (Value (buf + 26) 2, 28, at_start), (Headers_complete, 31, (True, 0))], length bs, HPE_OK, at_start)
       else if bs = [] then ([], 0, HPE_OK, q) else ([], 0, HPE_INVALID, q)),
     hx_body = count_parser, hx_http_major = (\<lambda>_. 1), hx_http_minor = (\<lambda>_. 1), hx_method = (\<lambda>_. 1),
     hx_should_keep_alive = (\<lambda>_. True), hx_chunked = (\<lambda>_. False),
     hx_parse_url = (\<lambda>url. if url = str ''/?a=b'' then Some \<lparr>uf_path = Some (0, 1), uf_query = Some (2, 3), uf_fragment = None\<rparr> else None)\<rparr>"

lemma one_header_length: "length one_header = 32"
  by (simp add: one_header_def str_def)

lemma sample_parser_reads:
  "reads_header sample_parser 8192 at_start one_header (str ''/?a=b'') [(str ''Host'', str ''ab'')] (True, 0)"
  unfolding reads_header_def
proof (intro conjI allI)
  show "one_header \<noteq> []" "last one_header = 10" by (simp_all add: one_header_def)
  fix buf rest
  let ?hs = "[\<lparr>h_field = buf + 20, h_field_sizes = [4], h_value = buf + 26, h_value_sizes = [2]\<rparr>]"
  have "line_at m (hd ?hs) (str ''Host'', str ''ab'')" if b: "bytes_at (mem_bytes m) buf one_header" for m
    using bytes_at_sub [OF b, of 20 4] bytes_at_sub [OF b, of 26 2]
    by (simp add: one_header_length line_at_def buffer_has_def) (simp add: one_header_def str_def)
  then show "\<exists>off us hs events tail fin.
     hx_execute sample_parser at_start buf (one_header @ rest) = (events @ (Headers_complete, length one_header - 1, (True, 0)) # tail, fin)
     \<and> map fst events = Message_begin # in_pieces Url (buf + of_nat off) us @ concat (map header_callbacks hs)
     \<and> us \<noteq> [] \<and> within 8192 us \<and> sum_list us = of_nat (length (str ''/?a=b'')) \<and> off \<le> length one_header - length (str ''/?a=b'')
     \<and> length (str ''/?a=b'') \<le> length one_header
     \<and> take (length (str ''/?a=b'')) (drop off one_header) = str ''/?a=b'' \<and> list_all (line_ok 8192) hs
     \<and> (\<forall>m. bytes_at (mem_bytes m) buf one_header \<longrightarrow> list_all2 (line_at m) hs [(str ''Host'', str ''ab'')])"
    by (intro exI [of _ 4] exI [of _ "[5]"] exI [of _ ?hs]
        exI [of _ "[(Message_begin, 1, at_start), (Url (buf + 4) 5, 9, at_start), (Field (buf + 20) 4, 24, at_start), (Value (buf + 26) 2, 28, at_start)]"]
        exI [of _ "[]"] exI [of _ "(length (one_header @ rest), HPE_OK, at_start)"])
      (simp add: one_header_length sample_parser_def within_def line_ok_def header_callbacks_def,
       simp add: one_header_def str_def)
qed

definition sample_http :: dfk_http_t where
  "sample_http = \<lparr>http_server = 16, http_keepalive_requests = 100, http_header_max_size = 8192,
     http_headers_buffer_size = 16384, http_headers_buffer_count = 8\<rparr>"

lemma sample_query: "arguments_of (str ''a=b'') = ([(str ''a'', str ''b'')], True)"
  by code_simp

lemma sample_first_buffer:
  assumes "hx_init X (hx_zero X) = q0"
  obtains req buf req1 w1 y seg where "dfk__http_request_init X (header_world xs) \<lparr>t_socket = 3\<rparr> = Some req" "req_parser req = hx_zero X"
    "dfk__http_request_allocate_headers_buf small_env sample_http (req\<lparr>req_parser := q0\<rparr>) (header_world xs) = Some (dfk_err_ok, buf, req1, w1)"
    "first_buffer small_env 0 [] req1 w1 buf y seg" "buf_size buf = 16384" "hw_os w1 = sample_kernel\<lparr>k_input := xs\<rparr>"
    "req_socket req1 = \<lparr>t_socket = 3\<rparr>" "dom (mem_blocks (hw_heap w1)) = {buf_data buf, seg}"
proof -
  let ?w = "header_world xs"
  obtain req where i: "dfk__http_request_init X ?w \<lparr>t_socket = 3\<rparr> = Some req" using request_init_ok by blast
  note fresh = request_init_fresh [OF i]
  have e: "list_rep (hw_lists ?w) (req_buffers (req\<lparr>req_parser := q0\<rparr>)) []" using fresh by simp
  from sample_buffer [OF _ _ _ this, of sample_http 16384] obtain buf req1 w1 where
    a: "dfk__http_request_allocate_headers_buf small_env sample_http (req\<lparr>req_parser := q0\<rparr>) ?w = Some (dfk_err_ok, buf, req1, w1)"
    by (auto simp: sample_http_def)
  obtain y seg k where f: "first_buffer small_env 0 [] req1 w1 buf y seg" "buf_size buf = 16384" "hw_os w1 = hw_os ?w"
      "req1 = req\<lparr>req_parser := q0, req_buffers := req_buffers req1\<rparr>"
      "mem_blocks (hw_heap w1) = (mem_blocks (hw_heap ?w))(buf_data buf \<mapsto> unat (buf_size buf), seg \<mapsto> k)"
    using allocate_fresh [OF small_env_ok header_world_arena e _ _ _ a, of "[]" 0] by (fastforce simp: sample_http_def small_env_def)
  have "req_socket req1 = \<lparr>t_socket = 3\<rparr>" by (subst f(4)) (use fresh in simp)
  moreover have "dom (mem_blocks (hw_heap w1)) = {buf_data buf, seg}" by (auto simp: f(5) header_world_simps)
  ultimately show thesis using that [OF i _ a f(1,2)] f(3) fresh by (simp add: header_world_simps)
qed

theorem header_read_correct_witness:
  "\<exists>req req' w' seg. dfk__http_request_init sample_parser (header_world (one_header @ [7, 8])) \<lparr>t_socket = 3\<rparr> = Some req
    \<and> dfk__http_request_read_headers small_env sample_os sample_parser sample_http 8192 req (header_world (one_header @ [7, 8]))
      = Some (dfk_err_ok, req', w')
    \<and> describes sample_parser (True, 0) [(str ''Host'', str ''ab'')] [10, 7, 8] req' \<and> headers_read w' (req_arguments req') [(str ''a'', str ''b'')]
    \<and> k_input (hw_os w') = []"
proof -
  let ?w = "header_world (one_header @ [7, 8])" and ?u = "\<lparr>uf_path = Some (0, 1), uf_query = Some (2, 3), uf_fragment = None\<rparr>"
  have q0: "hx_init sample_parser (hx_zero sample_parser) = at_start" by (simp add: sample_parser_def)
  obtain req buf req1 w1 y seg where i: "dfk__http_request_init sample_parser ?w \<lparr>t_socket = 3\<rparr> = Some req"
    and "dfk__http_request_allocate_headers_buf small_env sample_http (req\<lparr>req_parser := at_start\<rparr>) ?w = Some (dfk_err_ok, buf, req1, w1)"
    by (rule sample_first_buffer [OF q0])
  then have a: "dfk__http_request_allocate_headers_buf small_env sample_http
      (req\<lparr>req_parser := hx_init sample_parser (hx_zero sample_parser)\<rparr>) ?w = Some (dfk_err_ok, buf, req1, w1)" using q0 by simp
  have ne: "one_header \<noteq> []" by (simp add: one_header_def)
  have rd: "os_read sample_os (t_socket \<lparr>t_socket = 3\<rparr>) (unat (http_headers_buffer_size sample_http)) (hw_os ?w)
      = (int (length (one_header @ [7, 8])), one_header @ [7, 8], sample_kernel\<lparr>k_input := []\<rparr>)"
    by (simp add: sample_os_def kernel_read_def header_world_simps sample_http_def one_header_length Let_def)
  have X: "reads_header sample_parser 8192 (hx_init sample_parser (hx_zero sample_parser)) one_header (str ''/?a=b'') [(str ''Host'', str ''ab'')] (True, 0)"
      "hx_parse_url sample_parser (str ''/?a=b'') = Some ?u"
    using sample_parser_reads by (simp_all add: sample_parser_def)
  have q: "query_of ?u (str ''/?a=b'') = str ''a=b''" "url_fits ?u (str ''/?a=b'')"
    by (simp_all add: query_of_def url_fits_def str_def)
  have k: "keys_ok (common_names \<union> fst ` set [(str ''Host'', str ''ab'')])"
      "keys_ok (fst ` set (fst (arguments_of (query_of ?u (str ''/?a=b'')))))"
    unfolding q sample_query
    by (simp_all add: keys_ok_def common_names_def DFK_HTTP_USER_AGENT_def DFK_HTTP_HOST_def DFK_HTTP_ACCEPT_def DFK_HTTP_CONTENT_TYPE_def
        DFK_HTTP_CONTENT_LENGTH_def str_def)
  have room: "header_room small_env [(str ''Host'', str ''ab'')] (query_of ?u (str ''/?a=b''))"
    unfolding q header_room_def sample_query by (simp add: small_env_def str_def)
  obtain req' w' y seg where r: "dfk__http_request_read_headers small_env sample_os sample_parser sample_http 8192 req ?w = Some (dfk_err_ok, req', w')"
      "describes sample_parser (True, 0) [(str ''Host'', str ''ab'')] [10, 7, 8] req'" "headers_read w' (req_arguments req') [(str ''a'', str ''b'')]"
      "hw_os w' = sample_kernel\<lparr>k_input := []\<rparr>"
    using header_read_correct [OF small_env_ok header_world_arena i a _ _ _ rd _ X q(2) k room]
    unfolding q sample_query by (simp add: sample_http_def one_header_length ne) blast
  show ?thesis using i r by (intro exI [of _ req] exI [of _ req'] exI [of _ w']) simp
qed

section \<open>A header in two pieces\<close>

text \<open>
  C20. A header must arrive in one read. \<open>dfk__http_request_read_headers\<close> hands the whole buffer to the parser instead of the bytes that
  were read. So when the first read delivers some bytes \<open>got\<close>, no callback fails or reports the end of the header, and the parser, finding no error,
  asks for more, it has parsed the whole buffer. When fewer bytes than that were read, the assertion \<open>nparsed <= nread\<close>
  fails: the round goes on with \<open>read_headers_parsed\<close>, which starts with this assertion, and \<open>n\<close> is larger than what was read. When the
  buffer was filled and the round goes on, nothing is left of the buffer, and the assertion at the head of the loop, that there
  is room for a header of the largest size, fails. In both cases the server aborts.
\<close>

theorem header_in_one_read:
  fixes X :: "'p http_parser"
  defines "q0 \<equiv> hx_init X (hx_zero X)"
  assumes env: "alloc_ok env" "arena_inv env (sm_arena (hw_mem w)) (hw_arena w) [] [] []"
      "64 < unat (DFK_ARENA_SEGMENT_SIZE env - 32)"
    and init: "dfk__http_request_init X w sock = Some req"
    and alloc: "dfk__http_request_allocate_headers_buf env http (req\<lparr>req_parser := q0\<rparr>) w = Some (dfk_err_ok, buf, req1, w1)"
    and size: "mx \<noteq> 0" "mx \<le> http_headers_buffer_size http" "length got \<le> unat (http_headers_buffer_size http)"
    and rd: "os_read S (t_socket sock) (unat (http_headers_buffer_size http)) (hw_os w) = (int (length got), got, s')" "got \<noteq> []"
    and X: "parser_total X"
  shows "\<exists>w' junk. dfk__mocked_read S req1 w1 (buf_data buf) (buf_size buf) = Some (int (length got), w')
    \<and> mem_load (hw_heap w') (buf_data buf) (unat (buf_size buf)) = Some (got @ junk)
    \<and> (\<forall>events fin n q p. hx_execute X q0 (buf_data buf) (got @ junk) = (events, fin)
        \<and> run_events env mx ((no_headers req1 w1)\<lparr>hp_world := w'\<rparr>) events fin = Some ((n, HPE_OK, q), p) \<longrightarrow>
      n = unat (http_headers_buffer_size http)
      \<and> read_headers_round env S X http mx (no_headers req1 w1) buf
          = read_headers_parsed env http mx buf (int (length got)) (n, HPE_OK, q) p
      \<and> (length got < n \<longrightarrow> \<not> int n \<le> int (length got) \<and> dfk__http_request_read_headers env S X http mx req w = None)
      \<and> (\<forall>buf2 p2. read_headers_round env S X http mx (no_headers req1 w1) buf = Some (Go_on buf2, p2) \<longrightarrow>
          \<not> mx \<le> buf_size buf2 \<and> dfk__http_request_read_headers env S X http mx req w = None))"
proof -
  note fresh = request_init_fresh [OF init]
  have e: "list_rep (hw_lists w) (req_buffers (req\<lparr>req_parser := q0\<rparr>)) []" using fresh by simp
  have sz: "http_headers_buffer_size http \<noteq> 0" using size(1,2) by auto
  obtain y seg k where a: "first_buffer env 0 [] req1 w1 buf y seg" "buf_size buf = http_headers_buffer_size http"
      "req1 = req\<lparr>req_parser := q0, req_buffers := req_buffers req1\<rparr>" "hw_os w1 = hw_os w"
    using allocate_fresh [OF env(1,2) e _ sz _ alloc, of "[]" 0] env(3) by fastforce
  have r1: "req_socket req1 = sock" "req_parser req1 = q0" by (subst a(3), simp add: fresh)+
  have "os_read S (t_socket (req_socket req1)) (unat (buf_size buf)) (hw_os w1) = (int (length got), got, s')"
    using rd(1) by (simp add: r1(1) a(2,4))
  from mocked_read_ok [OF a(1) _ this] size(3) sz obtain w' junk where m:
      "dfk__mocked_read S req1 w1 (buf_data buf) (buf_size buf) = Some (int (length got), w')"
      "mem_load (hw_heap w') (buf_data buf) (unat (buf_size buf)) = Some (got @ junk)"
    by (auto simp: a(2))
  have len: "length (got @ junk) = unat (buf_size buf)"
    using m(2) by (intro load_bytes_length [of "mem_bytes (hw_heap w')" "buf_data buf"]) (simp add: mem_load_def)
  have pz: "req_parser req = hx_zero X" using fresh by simp
  have whole: "dfk__http_request_read_headers env S X http mx req w = None"
    if "read_headers_loop env S X http mx (no_headers req1 w1) buf = None"
    using alloc that by (simp add: dfk__http_request_read_headers_def Let_def pz q0_def)
  {
    fix events fin n q p
    assume x: "hx_execute X q0 (buf_data buf) (got @ junk) = (events, fin)"
      "run_events env mx ((no_headers req1 w1)\<lparr>hp_world := w'\<rparr>) events fin = Some ((n, HPE_OK, q), p)"
    have n: "n = unat (buf_size buf)"
      using run_events_ok [OF x(2)] x(1) X len unfolding parser_total_def by (cases fin) blast
    have "\<not> int (length got) \<le> 0" using rd(2) by simp
    then have round: "read_headers_round env S X http mx (no_headers req1 w1) buf
          = read_headers_parsed env http mx buf (int (length got)) (n, HPE_OK, q) p"
      using size(2) m x r1(2) by (simp add: read_headers_round_def a(2) no_headers_def Let_def)
    have short: "dfk__http_request_read_headers env S X http mx req w = None" if "length got < n"
    proof (rule whole)
      have "read_headers_round env S X http mx (no_headers req1 w1) buf = None"
        using that by (simp add: round read_headers_parsed_def c_assert_def)
      then show "read_headers_loop env S X http mx (no_headers req1 w1) buf = None" by (subst read_headers_loop.simps) simp
    qed
    have full: "\<not> mx \<le> buf_size buf2 \<and> dfk__http_request_read_headers env S X http mx req w = None"
      if g: "read_headers_round env S X http mx (no_headers req1 w1) buf = Some (Go_on buf2, p2)" for buf2 p2
    proof (rule conjI [OF _ whole])
      have z: "buf_size buf2 = 0" by (rule round_goes_on [OF X g a(2)])
      then show "\<not> mx \<le> buf_size buf2" using size(1) by simp
      show "read_headers_loop env S X http mx (no_headers req1 w1) buf = None"
        using g loop_no_room [OF size(1) z] by (subst read_headers_loop.simps) simp
    qed
    note n [unfolded a(2)] round short full
  }
  then show ?thesis using m by (intro exI [of _ w'] exI [of _ junk]) (simp add: not_le)
qed

text \<open>A parser that always expects more.\<close>

definition idle_parser :: "count_state http_parser" where
  "idle_parser = \<lparr>hx_zero = at_start, hx_init = (\<lambda>_. at_start), hx_execute = (\<lambda>p a bs. ([], length bs, HPE_OK, p)), hx_body = count_parser,
     hx_http_major = (\<lambda>_. 1), hx_http_minor = (\<lambda>_. 1), hx_method = (\<lambda>_. 1), hx_should_keep_alive = (\<lambda>_. True),
     hx_chunked = (\<lambda>_. False), hx_parse_url = (\<lambda>_. None)\<rparr>"

theorem header_in_one_read_witness:
  "\<exists>req. dfk__http_request_init idle_parser (header_world (take 10 one_header)) \<lparr>t_socket = 3\<rparr> = Some req
    \<and> dfk__http_request_read_headers small_env sample_os idle_parser sample_http 8192 req (header_world (take 10 one_header)) = None"
proof -
  let ?w = "header_world (take 10 one_header)"
  have q0: "hx_init idle_parser (hx_zero idle_parser) = at_start" by (simp add: idle_parser_def)
  obtain req buf req1 w1 y seg where i: "dfk__http_request_init idle_parser ?w \<lparr>t_socket = 3\<rparr> = Some req"
    "dfk__http_request_allocate_headers_buf small_env sample_http (req\<lparr>req_parser := at_start\<rparr>) ?w = Some (dfk_err_ok, buf, req1, w1)"
    by (rule sample_first_buffer [OF q0])
  then have a: "dfk__http_request_allocate_headers_buf small_env sample_http
      (req\<lparr>req_parser := hx_init idle_parser (hx_zero idle_parser)\<rparr>) ?w = Some (dfk_err_ok, buf, req1, w1)" using q0 by simp
  have rd: "os_read sample_os (t_socket \<lparr>t_socket = 3\<rparr>) (unat (http_headers_buffer_size sample_http)) (hw_os ?w)
      = (int (length (take 10 one_header)), take 10 one_header, sample_kernel\<lparr>k_input := []\<rparr>)"
    by (simp add: sample_os_def kernel_read_def header_world_simps sample_http_def one_header_length Let_def)
  have X: "parser_total idle_parser" by (simp add: parser_total_def idle_parser_def)
  have ne: "take 10 one_header \<noteq> []" "64 < unat (DFK_ARENA_SEGMENT_SIZE small_env - 32)"
      "(8192 :: size_t) \<noteq> 0" "8192 \<le> http_headers_buffer_size sample_http"
      "length (take 10 one_header) \<le> unat (http_headers_buffer_size sample_http)"
    by (simp_all add: one_header_def str_def small_env_def sample_http_def)
  have ex: "hx_execute idle_parser q at bs = ([], length bs, HPE_OK, q)" for q at bs by (simp add: idle_parser_def)
  from header_in_one_read [OF small_env_ok header_world_arena ne(2) i(1) a ne(3-5) rd ne(1) X] obtain w' junk where
    r: "\<forall>events fin n q p. hx_execute idle_parser (hx_init idle_parser (hx_zero idle_parser)) (buf_data buf) (take 10 one_header @ junk) = (events, fin)
        \<and> run_events small_env 8192 ((no_headers req1 w1)\<lparr>hp_world := w'\<rparr>) events fin = Some ((n, HPE_OK, q), p) \<longrightarrow>
      n = unat (http_headers_buffer_size sample_http)
      \<and> read_headers_round small_env sample_os idle_parser sample_http 8192 (no_headers req1 w1) buf
          = read_headers_parsed small_env sample_http 8192 buf (int (length (take 10 one_header))) (n, HPE_OK, q) p
      \<and> (length (take 10 one_header) < n \<longrightarrow> \<not> int n \<le> int (length (take 10 one_header))
          \<and> dfk__http_request_read_headers small_env sample_os idle_parser sample_http 8192 req ?w = None)
      \<and> (\<forall>buf2 p2. read_headers_round small_env sample_os idle_parser sample_http 8192 (no_headers req1 w1) buf = Some (Go_on buf2, p2) \<longrightarrow>
          \<not> 8192 \<le> buf_size buf2 \<and> dfk__http_request_read_headers small_env sample_os idle_parser sample_http 8192 req ?w = None)"
    by blast
  let ?n = "length (take 10 one_header @ junk)"
  note n = r [rule_format, OF conjI [OF ex], of ?n _ "(no_headers req1 w1)\<lparr>hp_world := w'\<rparr>"]
  have "run_events small_env 8192 ((no_headers req1 w1)\<lparr>hp_world := w'\<rparr>) [] (?n, HPE_OK, at_start)
      = Some ((?n, HPE_OK, at_start), (no_headers req1 w1)\<lparr>hp_world := w'\<rparr>)" by simp
  then have "length (take 10 one_header) < ?n \<longrightarrow> dfk__http_request_read_headers small_env sample_os idle_parser sample_http 8192 req ?w = None"
      "?n = unat (http_headers_buffer_size sample_http)"
    using n q0 by auto
  then have "dfk__http_request_read_headers small_env sample_os idle_parser sample_http 8192 req ?w = None"
    by (simp add: one_header_length sample_http_def) (metis length_greater_0_conv list.size(3) zero_less_numeral)
  then show ?thesis using i(1) by blast
qed

theorem request_released_witness:
  "\<exists>req http (w :: kernel http_world) buf w1 req1 w2 st arena calls.
    dfk__http_request_allocate_headers_buf small_env http req w = Some (dfk_err_ok, buf, req1, w1)
    \<and> mem_blocks (hw_heap w1) \<noteq> Map.empty \<and> dfk__http_request_free small_env (req1 :: count_state dfk_http_request_t) w1 = Some w2
    \<and> dfk_arena_free small_env (sm_arena (hw_mem w2)) (hw_arena w2) = Some (st, arena, calls) \<and> mem_blocks (am_heap st) = Map.empty"
proof -
  have q0: "hx_init idle_parser (hx_zero idle_parser) = at_start" by (simp add: idle_parser_def)
  obtain req :: "count_state dfk_http_request_t" and buf req1 w1 y seg where
    a: "dfk__http_request_allocate_headers_buf small_env sample_http (req\<lparr>req_parser := at_start\<rparr>) (header_world []) = Some (dfk_err_ok, buf, req1, w1)"
    and f: "first_buffer small_env 0 [] req1 w1 buf y seg" "dom (mem_blocks (hw_heap w1)) = {buf_data buf, seg}"
    by (rule sample_first_buffer [OF q0, of "[]"])
  obtain os regs where i: "arena_inv small_env (sm_arena (hw_mem w1)) (hw_arena w1) [seg] os regs" using first_buffer_release(1) [OF f(1)] by blast
  obtain w2 st arena calls where r: "dfk__http_request_free small_env req1 w1 = Some w2"
      "dfk_arena_free small_env (sm_arena (hw_mem w2)) (hw_arena w2) = Some (st, arena, calls)"
      "mem_blocks (am_heap st) = mem_blocks (hw_heap w1) |` (- (set [seg] \<union> buf_data ` set [buf]))"
    using request_released [OF i first_buffer_release(2,3) [OF f(1)]] by blast
  have "dom (mem_blocks (am_heap st)) = {}" using f(2) unfolding r(3) dom_restrict by auto
  then show ?thesis using a f(2) r(1,2) by fastforce
qed

end
