(* ===== verification/Dfk_Http_Response.thy ===== *)
theory Dfk_Http_Response
  imports Dfk_Http_World Dfk_Http_Constants Dfk_Sponge Dfk_Strtoll
begin

text \<open>
  The HTTP response of \<^verbatim>\<open>src/http/response.c\<close>: headers are collected in a string map whose items live in the
  request's arena, and are sent together with the status line before the first byte of the body.

  Names, values and bodies are given by their contents. The request's arena, the context and the operating system
  are shared with other components and are passed along; the sponge that replaces the socket in tests
  (\<^verbatim>\<open>_socket_mock\<close>) is part of the response.
\<close>

section \<open>Data\<close>

record dfk_http_response_t =
  resp_socket :: dfk_tcp_socket_t
  resp_mock :: "dfk__sponge_t option"
  resp_headers_flushed :: bool
  resp_major_version :: "16 word"
  resp_minor_version :: "16 word"
  resp_status :: int
  resp_content_length :: size_t
  resp_chunked :: bool
  resp_keepalive :: bool
  resp_headers :: dfk_strmap_t

section \<open>Formatted output\<close>

text \<open>
  The conversions \<^verbatim>\<open>%llu\<close>, \<^verbatim>\<open>%d\<close> and \<^verbatim>\<open>%3d\<close> of the C library, and \<^verbatim>\<open>snprintf\<close> into a buffer of \<open>n\<close> zero bytes:
  the contents of the buffer afterwards and the length of the whole text.
\<close>

definition decimal3 :: "int \<Rightarrow> byte list" where
  "decimal3 i = (let ds = decimal_int i in replicate (3 - length ds) 32 @ ds)"

definition snprintf :: "nat \<Rightarrow> byte list \<Rightarrow> byte list \<times> nat" where
  "snprintf n text = (let bs = take (n - 1) text in (bs @ replicate (n - length bs) 0, length text))"

text \<open>The first \<open>n\<close> bytes of an array, which must have them.\<close>

definition read_array :: "byte list \<Rightarrow> nat \<Rightarrow> byte list option" where
  "read_array buf n = do { c_assert (n \<le> length buf); Some (take n buf) }"

definition crlf :: "byte list" where
  "crlf = [13, 10]"

definition colon_space :: "byte list" where
  "colon_space = [58, 32]"

section \<open>Operations\<close>

definition dfk__mocked_write ::
  "dfk_env \<Rightarrow> 'o os_ops \<Rightarrow> 'o http_world \<Rightarrow> dfk_http_response_t \<Rightarrow> byte list
    \<Rightarrow> ('o http_world \<times> dfk_http_response_t \<times> int) option" where
  "dfk__mocked_write env S w resp buf = (case resp_mock resp of
     Some sponge \<Rightarrow> do {
       (heap, sponge, err) \<leftarrow> dfk__sponge_write env (hw_heap w) sponge buf;
       let am = (sm_arena (hw_mem w))\<lparr>am_heap := heap\<rparr>;
       Some (w\<lparr>hw_mem := (hw_mem w)\<lparr>sm_arena := am\<rparr>\<rparr>, resp\<lparr>resp_mock := Some sponge\<rparr>, err_code err)
     }
   | None \<Rightarrow> do {
       (n, c, s) \<leftarrow> dfk_tcp_socket_write S (hw_ctx w) (resp_socket resp) buf (hw_os w);
       Some (w\<lparr>hw_ctx := c, hw_os := s\<rparr>, resp, n)
     })"

definition dfk__mocked_writev ::
  "dfk_env \<Rightarrow> 'o os_ops \<Rightarrow> 'o http_world \<Rightarrow> dfk_http_response_t \<Rightarrow> byte list list
    \<Rightarrow> ('o http_world \<times> dfk_http_response_t \<times> int) option" where
  "dfk__mocked_writev env S w resp iov = (case resp_mock resp of
     Some sponge \<Rightarrow> do {
       (heap, sponge, err) \<leftarrow> dfk__sponge_writev env (hw_heap w) sponge iov;
       let am = (sm_arena (hw_mem w))\<lparr>am_heap := heap\<rparr>;
       Some (w\<lparr>hw_mem := (hw_mem w)\<lparr>sm_arena := am\<rparr>\<rparr>, resp\<lparr>resp_mock := Some sponge\<rparr>, err_code err)
     }
   | None \<Rightarrow> do {
       (n, c, s) \<leftarrow> dfk_tcp_socket_writev S (hw_ctx w) (resp_socket resp) iov (hw_os w);
       Some (w\<lparr>hw_ctx := c, hw_os := s\<rparr>, resp, n)
     })"

text \<open>Of the request the initialisation reads the protocol version.\<close>

definition dfk__http_response_init ::
  "'o http_world \<Rightarrow> 16 word \<Rightarrow> 16 word \<Rightarrow> dfk_tcp_socket_t \<Rightarrow> int \<Rightarrow> dfk_http_response_t option" where
  "dfk__http_response_init w major minor sock keepalive = do {
     headers \<leftarrow> dfk_strmap_init (hw_hooks w) (hw_items w);
     Some \<lparr>resp_socket = sock, resp_mock = None, resp_headers_flushed = False,
           resp_major_version = major, resp_minor_version = minor, resp_status = status_code DFK_HTTP_OK,
           resp_content_length = -1, resp_chunked = False, resp_keepalive = (keepalive \<noteq> 0),
           resp_headers = headers\<rparr>
   }"

text \<open>Inserting an item into the header map.\<close>

definition insert_header ::
  "'o http_world \<Rightarrow> dfk_http_response_t \<Rightarrow> addr \<Rightarrow> ('o http_world \<times> dfk_http_response_t) option" where
  "insert_header w resp item = do {
     (h, headers) \<leftarrow> dfk_strmap_insert (hw_hooks w) (hw_items w) (resp_headers resp) item;
     Some (w\<lparr>hw_mem := (hw_mem w)\<lparr>sm_hooks := h\<rparr>\<rparr>, resp\<lparr>resp_headers := headers\<rparr>)
   }"

text \<open>The status line, and the header lines as entries of the vector.\<close>

definition status_line :: "dfk_http_response_t \<Rightarrow> byte list" where
  "status_line resp = str ''HTTP/'' @ decimal (unat (resp_major_version resp)) @ str ''.''
     @ decimal (unat (resp_minor_version resp)) @ str '' '' @ decimal3 (resp_status resp) @ str '' ''
     @ str (dfk_http_reason_phrase (resp_status resp)) @ crlf"

partial_function (option) headers_iov ::
  "avl_hooks \<Rightarrow> strmap_items \<Rightarrow> dfk_strmap_it \<Rightarrow> dfk_strmap_it \<Rightarrow> nat \<Rightarrow> byte list list \<Rightarrow> byte list list option" where
  "headers_iov h items it end niov iov = do {
     eq \<leftarrow> dfk_strmap_it_equal it end;
     if \<not> eq \<and> length iov < niov then do {
       item \<leftarrow> load items (avl_it_value (strmap_it it));
       c_assert (length iov + 4 \<le> niov);
       let iov = iov @ [item_key item, colon_space, bytes_of (item_value item), crlf];
       it \<leftarrow> dfk_strmap_it_next h it;
       headers_iov h items it end niov iov
     } else Some iov
   }"

text \<open>The header \<^verbatim>\<open>Content-Length\<close>, unless it has been set by hand.\<close>

definition set_content_length ::
  "dfk_env \<Rightarrow> 'o http_world \<Rightarrow> dfk_http_response_t \<Rightarrow> ('o http_world \<times> dfk_http_response_t) option" where
  "set_content_length env w resp =
     (if resp_content_length resp \<noteq> -1 then do {
        content_length \<leftarrow> dfk_strmap_get (hw_hooks w) (hw_items w) (resp_headers resp) DFK_HTTP_CONTENT_LENGTH;
        if content_length = None then do {
          let (buf, len) = snprintf 64 (decimal (unat (resp_content_length resp)));
          value \<leftarrow> read_array buf len;
          (mem, arena, cl) \<leftarrow> dfk_strmap_item_acopy_value env (hw_mem w) (hw_arena w) DFK_HTTP_CONTENT_LENGTH (Some value);
          insert_header (w\<lparr>hw_mem := mem, hw_arena := arena\<rparr>) resp cl
        } else Some (w, resp)
      } else Some (w, resp))"

text \<open>The size of a \<^verbatim>\<open>dfk_iovec_t\<close>: a pointer and a size.\<close>

definition sizeof_iovec :: size_t where
  "sizeof_iovec = 16"

definition dfk__http_response_flush_headers ::
  "dfk_env \<Rightarrow> 'o os_ops \<Rightarrow> 'o http_world \<Rightarrow> dfk_http_response_t
    \<Rightarrow> ('o http_world \<times> dfk_http_response_t \<times> dfk_error_e) option" where
  "dfk__http_response_flush_headers env S w resp =
     (if resp_headers_flushed resp then Some (w, resp, dfk_err_ok)
      else do {
        (w, resp) \<leftarrow> set_content_length env w resp;
        totalheaders \<leftarrow> dfk_strmap_size (hw_hooks w) (hw_items w) (resp_headers resp);
        let niov = 4 * totalheaders + 2;
        (am, arena, iov) \<leftarrow> dfk_arena_alloc env (sm_arena (hw_mem w)) (hw_arena w) (niov * sizeof_iovec);
        let w = w\<lparr>hw_mem := (hw_mem w)\<lparr>sm_arena := am\<rparr>, hw_arena := arena\<rparr>;
        let resp = (if iov = NULL then resp\<lparr>resp_status := status_code DFK_HTTP_INTERNAL_SERVER_ERROR\<rparr> else resp);
        let (sbuf, ssize) = snprintf 128 (status_line resp);
        line \<leftarrow> read_array sbuf ssize;
        (w, resp) \<leftarrow> (if iov = NULL then do {
            (w, resp, n) \<leftarrow> dfk__mocked_write env S w resp line;
            Some (w, resp)
          } else do {
            it \<leftarrow> dfk_strmap_begin (hw_hooks w) (hw_items w) (resp_headers resp);
            end \<leftarrow> dfk_strmap_end (hw_hooks w) (hw_items w) (resp_headers resp);
            v \<leftarrow> headers_iov (hw_hooks w) (hw_items w) it end (unat niov) [line];
            c_assert (length v < unat niov);
            let v = v @ [crlf];
            c_assert (length v = unat niov);
            (w, resp, n) \<leftarrow> dfk__mocked_writev env S w resp v;
            Some (w, resp)
          });
        Some (w, resp\<lparr>resp_headers_flushed := True\<rparr>, dfk_err_ok)
      })"

definition dfk_http_response_writev ::
  "dfk_env \<Rightarrow> 'o os_ops \<Rightarrow> 'o http_world \<Rightarrow> dfk_http_response_t \<Rightarrow> byte list list
    \<Rightarrow> ('o http_world \<times> dfk_http_response_t \<times> int) option" where
  "dfk_http_response_writev env S w resp iov = do {
     c_assert (iov \<noteq> []);
     (w, resp, err) \<leftarrow> dfk__http_response_flush_headers env S w resp;
     dfk__mocked_writev env S w resp iov
   }"

definition dfk_http_response_write ::
  "dfk_env \<Rightarrow> 'o os_ops \<Rightarrow> 'o http_world \<Rightarrow> dfk_http_response_t \<Rightarrow> byte list
    \<Rightarrow> ('o http_world \<times> dfk_http_response_t \<times> int) option" where
  "dfk_http_response_write env S w resp buf = do {
     c_assert (buf \<noteq> []);
     dfk_http_response_writev env S w resp [buf]
   }"

text \<open>The setters differ in what they copy into the arena.\<close>

type_synonym 'o setter =
  "dfk_env \<Rightarrow> 'o http_world \<Rightarrow> dfk_http_response_t \<Rightarrow> byte list \<Rightarrow> byte list
    \<Rightarrow> ('o http_world \<times> dfk_http_response_t \<times> dfk_error_e) option"

definition dfk_http_response_set :: "'o setter" where
  "dfk_http_response_set env w resp name value = do {
     c_assert (name \<noteq> []);
     c_assert (value \<noteq> []);
     (mem, arena, item) \<leftarrow> strmap_item_anew env (hw_mem w) (hw_arena w) name (Some value);
     let w = w\<lparr>hw_mem := mem, hw_arena := arena\<rparr>;
     if item = NULL then Some (w, resp, dfk_err_nomem)
     else do {
       (w, resp) \<leftarrow> insert_header w resp item;
       Some (w, resp, dfk_err_ok)
     }
   }"

definition dfk_http_response_set_copy :: "'o setter" where
  "dfk_http_response_set_copy env w resp name value = do {
     c_assert (name \<noteq> []);
     c_assert (value \<noteq> []);
     (mem, arena, i) \<leftarrow> dfk_strmap_item_acopy env (hw_mem w) (hw_arena w) name (Some value);
     let w = w\<lparr>hw_mem := mem, hw_arena := arena\<rparr>;
     if i = NULL then Some (w, resp, dfk_err_nomem)
     else do {
       (w, resp) \<leftarrow> insert_header w resp i;
       Some (w, resp, dfk_err_ok)
     }
   }"

definition dfk_http_response_set_copy_name :: "'o setter" where
  "dfk_http_response_set_copy_name env w resp name value = do {
     c_assert (name \<noteq> []);
     c_assert (value \<noteq> []);
     (mem, arena, i) \<leftarrow> dfk_strmap_item_acopy_key env (hw_mem w) (hw_arena w) name (Some value);
     let w = w\<lparr>hw_mem := mem, hw_arena := arena\<rparr>;
     if i = NULL then Some (w, resp, dfk_err_nomem)
     else do {
       (w, resp) \<leftarrow> insert_header w resp i;
       Some (w, resp, dfk_err_ok)
     }
   }"

definition dfk_http_response_set_copy_value :: "'o setter" where
  "dfk_http_response_set_copy_value env w resp name value = do {
     c_assert (name \<noteq> []);
     c_assert (value \<noteq> []);
     (mem, arena, i) \<leftarrow> dfk_strmap_item_acopy_value env (hw_mem w) (hw_arena w) name (Some value);
     let w = w\<lparr>hw_mem := mem, hw_arena := arena\<rparr>;
     if i = NULL then Some (w, resp, dfk_err_nomem)
     else do {
       (w, resp) \<leftarrow> insert_header w resp i;
       Some (w, resp, dfk_err_ok)
     }
   }"

text \<open>The variants on buffers take them apart; a buffer with its contents is a pair of a name and a value here too.\<close>

definition dfk_http_response_bset :: "'o setter" where
  "dfk_http_response_bset env w resp name value = dfk_http_response_set env w resp name value"

definition dfk_http_response_bset_copy :: "'o setter" where
  "dfk_http_response_bset_copy env w resp name value = dfk_http_response_set_copy env w resp name value"

definition dfk_http_response_bset_copy_name :: "'o setter" where
  "dfk_http_response_bset_copy_name env w resp name value = dfk_http_response_set_copy_name env w resp name value"

definition dfk_http_response_bset_copy_value :: "'o setter" where
  "dfk_http_response_bset_copy_value env w resp name value = dfk_http_response_set_copy_value env w resp name value"

section \<open>Formatted output fits its buffer\<close>

definition short_phrase :: "string \<Rightarrow> bool" where
  "short_phrase s \<longleftrightarrow> s \<noteq> [] \<and> length s \<le> 31"

lemma short_phrase_if: "short_phrase s \<Longrightarrow> short_phrase t \<Longrightarrow> short_phrase (if b then s else t)"
  by simp

lemma reason_phrase_short: "short_phrase (dfk_http_reason_phrase status)"
  unfolding dfk_http_reason_phrase_def by (intro short_phrase_if) (simp_all add: short_phrase_def)

lemma reason_phrase_known: "dfk_http_reason_phrase (status_code s) \<noteq> ''Unknown''"
  by (cases s) (simp_all add: dfk_http_reason_phrase_def)

lemma status_code_bounds: "100 \<le> status_code s \<and> status_code s \<le> 511"
  by (cases s) simp_all

lemma snprintf_fits: "length text < n \<Longrightarrow> snprintf n text = (buf, len) \<Longrightarrow> read_array buf len = Some text"
  by (auto simp: snprintf_def Let_def read_array_def)

definition c_int :: "int \<Rightarrow> bool" where
  "c_int i \<longleftrightarrow> - (2 ^ 31) \<le> i \<and> i < 2 ^ 31"

lemma status_line_length:
  assumes "c_int (resp_status resp)"
  shows "length (status_line resp) < 128"
proof -
  have v: "unat v < 10 ^ 5" for v :: "16 word" using unsigned_less [of v, where 'a = nat] by simp
  have d: "length (decimal (unat v)) \<le> 5" for v :: "16 word" using length_decimal [OF v] by simp
  have "length (decimal_int (resp_status resp)) \<le> 11"
    using length_decimal_int [of "resp_status resp" 10] assms by (auto simp: c_int_def)
  then have "length (decimal3 (resp_status resp)) \<le> 11" by (simp add: decimal3_def Let_def)
  then show ?thesis
    using d [of "resp_major_version resp"] d [of "resp_minor_version resp"] reason_phrase_short [of "resp_status resp"] by (simp add: short_phrase_def status_line_def str_def crlf_def)
qed

section \<open>Iterating over the headers\<close>

definition header_list :: "strmap_items \<Rightarrow> addr list \<Rightarrow> (byte list \<times> byte list) list" where
  "header_list items xs = map (\<lambda>a. (key_of items a, case items a of Some it \<Rightarrow> bytes_of (item_value it) | None \<Rightarrow> [])) xs"

text \<open>The keys in the order of the map: descending.\<close>

definition descending :: "byte list list \<Rightarrow> bool" where
  "descending ks \<longleftrightarrow> sorted_wrt (\<lambda>k k'. 0 < cmp_min k k') ks"

lemma cmp_min_self: "cmp_min k k = 0"
  using cmp_min_antisym [of k k] by simp

lemma descending_distinct: "descending ks \<Longrightarrow> distinct ks"
  using cmp_min_self by (induction ks) (fastforce simp: descending_def)+

lemma header_list_map:
  assumes "strmap_rep h items smap xs (\<lambda>k. map_option Some (hm k))"
  shows "descending (map fst (header_list items xs))" "map_of (header_list items xs) = hm"
proof -
  note r = assms [unfolded strmap_rep_def avl_set_def]
  have "sorted_wrt (\<lambda>a b. 0 < cmp_min (key_of items a) (key_of items b)) xs"
    by (rule sorted_wrt_mono_rel [of xs "\<lambda>a b. 0 < dfk__strmap_cmp items a b"])
      (use r strmap_cmp_keys_ok(1) [of items _ _ "key_of items ` set xs"] in \<open>auto simp: ordered_def\<close>)
  then show d: "descending (map fst (header_list items xs))"
    by (simp add: descending_def header_list_def sorted_wrt_map o_def)
  have "map_of (header_list items xs) k = Some v \<longleftrightarrow> hm k = Some v" for k v
  proof -
    have "map_of (header_list items xs) k = Some v \<longleftrightarrow> (k, v) \<in> set (header_list items xs)"
      by (rule map_of_eq_Some_iff) (rule descending_distinct [OF d])
    also have "\<dots> \<longleftrightarrow> (\<exists>a\<in>set xs. items a = Some \<lparr>item_key = k, item_value = Some v\<rparr>)"
    proof
      assume "(k, v) \<in> set (header_list items xs)"
      then obtain a it where a: "a \<in> set xs" "items a = Some it" "k = item_key it" "v = bytes_of (item_value it)"
        using r by (auto simp: header_list_def key_of_def)
      have "map_option Some (hm (item_key it)) = Some (item_value it)" using r a(1,2) by (cases it) auto
      then show "\<exists>a\<in>set xs. items a = Some \<lparr>item_key = k, item_value = Some v\<rparr>"
        using a by (cases it) (auto simp: bytes_of_def)
    qed (force simp: header_list_def key_of_def bytes_of_def)
    also have "\<dots> \<longleftrightarrow> hm k = Some v" using r by (metis (no_types, lifting) map_option_eq_Some option.inject)
    finally show ?thesis .
  qed
  then show "map_of (header_list items xs) = hm" by (metis ext option.exhaust)
qed

lemma header_list_not_empty:
  assumes "strmap_rep h items smap xs (\<lambda>k. map_option Some (hm k))" "[] \<notin> ran hm"
  shows "\<forall>(k, v)\<in>set (header_list items xs). k \<noteq> [] \<and> v \<noteq> []"
proof clarify
  fix k v assume kv: "(k, v) \<in> set (header_list items xs)"
  note h = header_list_map [OF assms(1)]
  have "hm k = Some v" using kv map_of_is_SomeI [OF descending_distinct [OF h(1)]] h(2) by metis
  moreover have "k \<in> key_of items ` set xs" using kv by (auto simp: header_list_def)
  then have "k \<noteq> []" using assms(1) by (auto simp: strmap_rep_def keys_ok_def)
  ultimately show "k \<noteq> [] \<and> v \<noteq> []" using assms(2) by (auto simp: ran_def)
qed

definition header_line_iov :: "byte list \<times> byte list \<Rightarrow> byte list list" where
  "header_line_iov kv = [fst kv, colon_space, snd kv, crlf]"

lemma headers_iov_ok:
  assumes "strmap_rep h items smap (xs @ ys) m" "length iov + 4 * length ys < niov"
  shows "headers_iov h items \<lparr>strmap_it = \<lparr>avl_it_value = hd_or ys NULL\<rparr>\<rparr> \<lparr>strmap_it = \<lparr>avl_it_value = NULL\<rparr>\<rparr> niov iov
    = Some (iov @ concat (map header_line_iov (header_list items ys)))"
  using assms
proof (induction ys arbitrary: xs iov)
  case Nil
  then show ?case
    by (subst headers_iov.simps) (simp add: dfk_strmap_it_equal_def dfk_avltree_it_equal_def header_list_def)
next
  case (Cons y ys)
  obtain t where t: "avl_rep h (cont items smap) t" "inorder t = xs @ y # ys"
    using Cons.prems(1) by (auto simp: strmap_rep_def avl_set_def)
  have y: "y \<noteq> NULL" using t tree_at_not_NULL by (fastforce simp: avl_rep_def)
  obtain it where it: "items y = Some it" using Cons.prems(1) by (auto simp: strmap_rep_def)
  let ?iov = "iov @ [item_key it, colon_space, bytes_of (item_value it), crlf]"
  have "headers_iov h items \<lparr>strmap_it = \<lparr>avl_it_value = hd_or ys NULL\<rparr>\<rparr> \<lparr>strmap_it = \<lparr>avl_it_value = NULL\<rparr>\<rparr> niov ?iov
    = Some (?iov @ concat (map header_line_iov (header_list items ys)))"
    using Cons.IH [of "xs @ [y]" ?iov] Cons.prems by simp
  then show ?case
    using y it it_next_spec [OF t] Cons.prems(2)
    by (subst headers_iov.simps)
      (simp add: dfk_strmap_it_equal_def dfk_avltree_it_equal_def dfk_strmap_it_next_def header_list_def header_line_iov_def key_of_def)
qed

section \<open>Setting headers\<close>

text \<open>
  \<open>response_ok env w resp n hm\<close>: the headers set so far are \<open>hm\<close>, none with an empty value; their items lie in
  regions of the request's arena, in whose last segment there is room for \<open>n\<close> more bytes.
\<close>

definition response_ok ::
  "dfk_env \<Rightarrow> 'o http_world \<Rightarrow> dfk_http_response_t \<Rightarrow> nat \<Rightarrow> (byte list \<rightharpoonup> byte list) \<Rightarrow> bool" where
  "response_ok env w resp n hm \<longleftrightarrow> (\<exists>ss os regs xs.
     arena_inv env (sm_arena (hw_mem w)) (hw_arena w) ss os regs \<and> arena_room (sm_arena (hw_mem w)) ss n
     \<and> strmap_rep (hw_hooks w) (hw_items w) (resp_headers resp) xs (\<lambda>k. map_option Some (hm k))
     \<and> (\<forall>a\<in>set xs. (a, 64) \<in> set regs)) \<and> [] \<notin> ran hm"

text \<open>Only the header map of the response differs, and the rest of the world is the same.\<close>

definition only_headers :: "'o http_world \<Rightarrow> dfk_http_response_t \<Rightarrow> 'o http_world \<Rightarrow> dfk_http_response_t \<Rightarrow> bool" where
  "only_headers w resp w' resp' \<longleftrightarrow> hw_os w' = hw_os w \<and> hw_ctx w' = hw_ctx w
     \<and> resp' = resp\<lparr>resp_headers := resp_headers resp'\<rparr>"

lemma only_headers_refl [simp]: "only_headers w resp w resp"
  by (simp add: only_headers_def)

lemma only_headers_trans: "only_headers w r w1 r1 \<Longrightarrow> only_headers w1 r1 w2 r2 \<Longrightarrow> only_headers w r w2 r2"
  unfolding only_headers_def by (cases r; cases r1; cases r2) auto

lemma response_ok_mono: "response_ok env w resp n hm \<Longrightarrow> k \<le> n \<Longrightarrow> response_ok env w resp k hm"
  unfolding response_ok_def using arena_room_mono by blast

lemma ran_put_first: "v \<noteq> [] \<Longrightarrow> [] \<notin> ran m \<Longrightarrow> [] \<notin> ran (put_first k v m)"
  by (auto simp: put_first_def ran_def)

lemma dom_lift [simp]: "dom (\<lambda>k. map_option Some (hm k)) = dom hm"
  by (auto simp: dom_def)

text \<open>An item made by one of the constructors joins the headers.\<close>

lemma insert_header_ok:
  assumes inv: "arena_inv env (sm_arena (hw_mem w)) (hw_arena w) ss os regs"
    and rep: "strmap_rep (hw_hooks w) (hw_items w) (resp_headers resp) xs (\<lambda>k. map_option Some (hm k))"
    and xs: "\<forall>a\<in>set xs. (a, 64) \<in> set regs" "[] \<notin> ran hm"
    and made: "item_made env (hw_arena w) ss os regs n (hw_mem w) mem item name (Some v)" "v \<noteq> []"
    and ok: "keys_ok (insert name (dom hm))"
  shows "\<exists>w' resp'. insert_header (w\<lparr>hw_mem := mem\<rparr>) resp item = Some (w', resp')
    \<and> response_ok env w' resp' n (put_first name v hm) \<and> only_headers w resp w' resp'"
proof -
  let ?m = "\<lambda>k. map_option Some (hm k)"
  obtain regs' where r: "arena_inv env (sm_arena mem) (hw_arena w) ss os (regs' @ regs)" "(item, 64) \<in> set regs'"
    and pl: "placed_item (hw_mem w) mem item name (Some v)" "arena_room (sm_arena mem) ss n"
    using made(1) by (auto simp: item_made_def)
  have ni: "item \<notin> set xs"
  proof
    assume "item \<in> set xs"
    then have "(item, 64) \<in> set regs" using xs(1) by blast
    then have "range_of item 64 \<inter> range_of item 64 = {}"
      using r by (fastforce simp: arena_inv_def sorted_wrt_append)
    then show False using head_in_range [of 64 item] by auto
  qed
  have rep': "strmap_rep (sm_hooks mem) (sm_items mem) (resp_headers resp) xs ?m"
    by (rule strmap_rep_cong [OF rep]) (use pl(1) ni in \<open>auto simp: placed_item_def\<close>)
  obtain h' smap' xs' where
      i: "dfk_strmap_insert (sm_hooks mem) (sm_items mem) (resp_headers resp) item = Some (h', smap')"
      "strmap_rep h' (sm_items mem) smap' xs' (if name \<in> dom hm then ?m else ?m(name \<mapsto> Some v))"
      "set xs' = (if name \<in> dom hm then set xs else insert item (set xs))"
    using strmap_insert_spec [OF rep' _ ni, of name "Some v"] pl(1) ok unfolding dom_lift placed_item_def by blast
  have sub: "set xs' \<subseteq> insert item (set xs)" using i(3) by (auto split: if_splits)
  have "(if name \<in> dom hm then ?m else ?m(name \<mapsto> Some v)) = (\<lambda>k. map_option Some (put_first name v hm k))"
    by (auto simp: put_first_def fun_eq_iff)
  then have "response_ok env (w\<lparr>hw_mem := mem\<lparr>sm_hooks := h'\<rparr>\<rparr>) (resp\<lparr>resp_headers := smap'\<rparr>) n (put_first name v hm)"
    unfolding response_ok_def using r pl(2) i(2) sub xs(1) ran_put_first [OF made(2) xs(2)]
    by (intro conjI exI [of _ ss] exI [of _ os] exI [of _ "regs' @ regs"] exI [of _ xs']) auto
  then show ?thesis using i(1) by (auto simp: insert_header_def only_headers_def)
qed

text \<open>Setting several headers, the result of each call ignored.\<close>

fun set_all :: "'o setter \<Rightarrow> dfk_env \<Rightarrow> 'o http_world \<Rightarrow> dfk_http_response_t \<Rightarrow> (byte list \<times> byte list) list
    \<Rightarrow> ('o http_world \<times> dfk_http_response_t) option" where
  "set_all put env w resp [] = Some (w, resp)"
| "set_all put env w resp ((name, v) # kvs) = do {
     (w, resp, err) \<leftarrow> put env w resp name v;
     set_all put env w resp kvs
   }"

text \<open>
  The contract the four setters share, with \<open>cost\<close> the bytes of the arena a call takes: the value is stored unless
  there is one already.
\<close>

locale header_setter =
  fixes put :: "'o setter"
    and cost :: "byte list \<Rightarrow> byte list \<Rightarrow> nat"
  assumes put_law: "response_ok env w resp (cost name v + n) hm \<Longrightarrow> keys_ok (insert name (dom hm)) \<Longrightarrow> v \<noteq> [] \<Longrightarrow>
      length name < 2 ^ 62 \<Longrightarrow> length v < 2 ^ 62 \<Longrightarrow>
      \<exists>w' resp'. put env w resp name v = Some (w', resp', dfk_err_ok)
        \<and> response_ok env w' resp' n (put_first name v hm) \<and> only_headers w resp w' resp'"
begin

lemma set_all_law:
  "response_ok env w resp (sum_list (map (\<lambda>(k, v). cost k v) kvs) + n) hm \<Longrightarrow> keys_ok (fst ` set kvs \<union> dom hm) \<Longrightarrow>
   \<forall>(k, v)\<in>set kvs. v \<noteq> [] \<and> length k < 2 ^ 62 \<and> length v < 2 ^ 62 \<Longrightarrow>
   \<exists>w' resp'. set_all put env w resp kvs = Some (w', resp') \<and> response_ok env w' resp' n (map_of kvs ++ hm)
     \<and> only_headers w resp w' resp'"
proof (induction kvs arbitrary: w resp hm)
  case (Cons kv kvs)
  obtain k v where kv: "kv = (k, v)" by (cases kv)
  have "keys_ok (insert k (dom hm))" by (rule keys_ok_mono [OF Cons.prems(2)]) (use kv in auto)
  then obtain w1 resp1 where 1: "put env w resp k v = Some (w1, resp1, dfk_err_ok)"
      "response_ok env w1 resp1 (sum_list (map (\<lambda>(k, v). cost k v) kvs) + n) (put_first k v hm)" "only_headers w resp w1 resp1"
    using put_law [of env w resp k v "sum_list (map (\<lambda>(k, v). cost k v) kvs) + n" hm] Cons.prems(1,3) kv by (auto simp: add.assoc)
  have "keys_ok (fst ` set kvs \<union> dom (put_first k v hm))" using Cons.prems(2) kv by simp
  from Cons.IH [OF 1(2) this] Cons.prems(3) obtain w2 resp2 where 2: "set_all put env w1 resp1 kvs = Some (w2, resp2)"
      "response_ok env w2 resp2 n (map_of kvs ++ put_first k v hm)" "only_headers w1 resp1 w2 resp2"
    by auto
  have "map_of kvs ++ put_first k v hm = map_of (kv # kvs) ++ hm"
    unfolding kv by (auto simp: put_first_def map_add_def fun_eq_iff split: option.splits)
  moreover have "set_all put env w resp (kv # kvs) = Some (w2, resp2)" using 1(1) 2(1) kv by simp
  ultimately show ?case using 2(2) only_headers_trans [OF 1(3) 2(3)] by metis
qed simp

end

lemma response_okE:
  assumes "response_ok env w resp n hm"
  obtains ss os regs xs where
    "arena_inv env (sm_arena (hw_mem w)) (hw_arena w) ss os regs" "arena_room (sm_arena (hw_mem w)) ss n"
    "strmap_rep (hw_hooks w) (hw_items w) (resp_headers resp) xs (\<lambda>k. map_option Some (hm k))"
    "\<forall>a\<in>set xs. (a, 64) \<in> set regs" "[] \<notin> ran hm"
  using assms unfolding response_ok_def by blast

lemma key_not_empty: "keys_ok (insert k K) \<Longrightarrow> k \<noteq> []"
  by (auto simp: keys_ok_def)

interpretation plain_set: header_setter dfk_http_response_set "\<lambda>name v. 64"
proof (unfold_locales, goal_cases)
  case (1 env w resp name v n hm)
  obtain ss os regs xs where a: "arena_inv env (sm_arena (hw_mem w)) (hw_arena w) ss os regs" "arena_room (sm_arena (hw_mem w)) ss (64 + n)"
    and b: "strmap_rep (hw_hooks w) (hw_items w) (resp_headers resp) xs (\<lambda>k. map_option Some (hm k))"
      "\<forall>a\<in>set xs. (a, 64) \<in> set regs" "[] \<notin> ran hm"
    by (rule response_okE [OF 1(1)])
  obtain mem item where i: "strmap_item_anew env (hw_mem w) (hw_arena w) name (Some v) = Some (mem, hw_arena w, item)"
      "item_made env (hw_arena w) ss os regs n (hw_mem w) mem item name (Some v)"
    using item_anew_room [OF a key_not_empty [OF 1(2)], of "Some v"] by blast
  show ?case
    using insert_header_ok [OF a(1) b i(2) 1(3,2)] i key_not_empty [OF 1(2)] 1(3)
    by (auto simp: dfk_http_response_set_def item_made_def)
qed

interpretation copy_set: header_setter dfk_http_response_set_copy "\<lambda>name v. length name + length v + 64"
proof (unfold_locales, goal_cases)
  case (1 env w resp name v n hm)
  obtain ss os regs xs where a: "arena_inv env (sm_arena (hw_mem w)) (hw_arena w) ss os regs"
      "arena_room (sm_arena (hw_mem w)) ss (length name + length v + 64 + n)"
    and b: "strmap_rep (hw_hooks w) (hw_items w) (resp_headers resp) xs (\<lambda>k. map_option Some (hm k))"
      "\<forall>a\<in>set xs. (a, 64) \<in> set regs" "[] \<notin> ran hm"
    by (rule response_okE [OF 1(1)])
  obtain mem item where i: "dfk_strmap_item_acopy env (hw_mem w) (hw_arena w) name (Some v) = Some (mem, hw_arena w, item)"
      "item_made env (hw_arena w) ss os regs n (hw_mem w) mem item name (Some v)"
    using acopy_room [OF a(1) _ key_not_empty [OF 1(2)] 1(4,3,5), of n] a(2) by (auto simp: add.assoc)
  show ?case
    using insert_header_ok [OF a(1) b i(2) 1(3,2)] i key_not_empty [OF 1(2)] 1(3)
    by (auto simp: dfk_http_response_set_copy_def item_made_def)
qed

interpretation copy_name_set: header_setter dfk_http_response_set_copy_name "\<lambda>name v. length name + 64"
proof (unfold_locales, goal_cases)
  case (1 env w resp name v n hm)
  obtain ss os regs xs where a: "arena_inv env (sm_arena (hw_mem w)) (hw_arena w) ss os regs"
      "arena_room (sm_arena (hw_mem w)) ss (length name + 64 + n)"
    and b: "strmap_rep (hw_hooks w) (hw_items w) (resp_headers resp) xs (\<lambda>k. map_option Some (hm k))"
      "\<forall>a\<in>set xs. (a, 64) \<in> set regs" "[] \<notin> ran hm"
    by (rule response_okE [OF 1(1)])
  obtain mem item where i: "dfk_strmap_item_acopy_key env (hw_mem w) (hw_arena w) name (Some v) = Some (mem, hw_arena w, item)"
      "item_made env (hw_arena w) ss os regs n (hw_mem w) mem item name (Some v)"
    using acopy_key_room [OF a(1) _ key_not_empty [OF 1(2)] 1(4), of n "Some v"] a(2) by (auto simp: add.assoc)
  show ?case
    using insert_header_ok [OF a(1) b i(2) 1(3,2)] i key_not_empty [OF 1(2)] 1(3)
    by (auto simp: dfk_http_response_set_copy_name_def item_made_def)
qed

interpretation copy_value_set: header_setter dfk_http_response_set_copy_value "\<lambda>name v. length v + 64"
proof (unfold_locales, goal_cases)
  case (1 env w resp name v n hm)
  obtain ss os regs xs where a: "arena_inv env (sm_arena (hw_mem w)) (hw_arena w) ss os regs"
      "arena_room (sm_arena (hw_mem w)) ss (length v + 64 + n)"
    and b: "strmap_rep (hw_hooks w) (hw_items w) (resp_headers resp) xs (\<lambda>k. map_option Some (hm k))"
      "\<forall>a\<in>set xs. (a, 64) \<in> set regs" "[] \<notin> ran hm"
    by (rule response_okE [OF 1(1)])
  obtain mem item where i: "dfk_strmap_item_acopy_value env (hw_mem w) (hw_arena w) name (Some v) = Some (mem, hw_arena w, item)"
      "item_made env (hw_arena w) ss os regs n (hw_mem w) mem item name (Some v)"
    using acopy_value_room [OF a(1) _ key_not_empty [OF 1(2)] 1(3,5), of n] a(2) by (auto simp: add.assoc)
  show ?case
    using insert_header_ok [OF a(1) b i(2) 1(3,2)] i key_not_empty [OF 1(2)] 1(3)
    by (auto simp: dfk_http_response_set_copy_value_def item_made_def)
qed

section \<open>Sending the headers\<close>

text \<open>The headers that are sent: \<^verbatim>\<open>Content-Length\<close> is added when the length is known and the header has not been set.\<close>

definition sent_headers :: "dfk_http_response_t \<Rightarrow> (byte list \<rightharpoonup> byte list) \<Rightarrow> byte list \<rightharpoonup> byte list" where
  "sent_headers resp hm = (if resp_content_length resp = -1 then hm
     else put_first DFK_HTTP_CONTENT_LENGTH (decimal (unat (resp_content_length resp))) hm)"

definition header_lines :: "(byte list \<times> byte list) list \<Rightarrow> byte list" where
  "header_lines kvs = concat (map (\<lambda>(k, v). k @ colon_space @ v @ crlf) kvs)"

definition header_block :: "dfk_http_response_t \<Rightarrow> (byte list \<times> byte list) list \<Rightarrow> byte list" where
  "header_block resp kvs = status_line resp @ header_lines kvs @ crlf"

text \<open>What the header block needs of the arena: an item, its value of at most 20 digits, and the vector.\<close>

definition flush_cost :: "(byte list \<rightharpoonup> byte list) \<Rightarrow> nat" where
  "flush_cost hm = 180 + 64 * card (dom hm)"

lemma set_content_length_ok:
  assumes ok: "response_ok env w resp (84 + n) hm" and keys: "keys_ok (insert DFK_HTTP_CONTENT_LENGTH (dom hm))"
  shows "\<exists>w' resp'. set_content_length env w resp = Some (w', resp')
    \<and> response_ok env w' resp' n (sent_headers resp hm) \<and> only_headers w resp w' resp'"
proof (cases "resp_content_length resp = -1")
  case True
  then show ?thesis using response_ok_mono [OF ok] by (simp add: set_content_length_def sent_headers_def)
next
  case False
  obtain ss os regs xs where a: "arena_inv env (sm_arena (hw_mem w)) (hw_arena w) ss os regs"
      "arena_room (sm_arena (hw_mem w)) ss (84 + n)"
    and b: "strmap_rep (hw_hooks w) (hw_items w) (resp_headers resp) xs (\<lambda>k. map_option Some (hm k))"
      "\<forall>a\<in>set xs. (a, 64) \<in> set regs" "[] \<notin> ran hm"
    by (rule response_okE [OF ok])
  have g: "dfk_strmap_get (hw_hooks w) (hw_items w) (resp_headers resp) DFK_HTTP_CONTENT_LENGTH = Some (hm DFK_HTTP_CONTENT_LENGTH)"
    using strmap_get_spec [OF b(1), of DFK_HTTP_CONTENT_LENGTH] keys by (simp split: option.splits)
  let ?v = "decimal (unat (resp_content_length resp))"
  have "unat (resp_content_length resp) < 10 ^ 20"
    using unsigned_less [of "resp_content_length resp", where 'a = nat] by simp
  then have v: "length ?v \<le> 20" "?v \<noteq> []" using length_decimal [of _ 20] by auto
  show ?thesis
  proof (cases "hm DFK_HTTP_CONTENT_LENGTH")
    case (Some l)
    then show ?thesis
      using False g response_ok_mono [OF ok] by (auto simp: set_content_length_def sent_headers_def put_first_def)
  next
    case None
    obtain buf len where sn: "snprintf 64 ?v = (buf, len)" by (cases "snprintf 64 ?v")
    have rd: "read_array buf len = Some ?v" by (rule snprintf_fits [OF _ sn]) (use v in simp)
    obtain mem item where i: "dfk_strmap_item_acopy_value env (hw_mem w) (hw_arena w) DFK_HTTP_CONTENT_LENGTH (Some ?v)
          = Some (mem, hw_arena w, item)"
        "item_made env (hw_arena w) ss os regs n (hw_mem w) mem item DFK_HTTP_CONTENT_LENGTH (Some ?v)"
      using acopy_value_room [OF a(1) _ key_not_empty [OF keys] v(2), of n] arena_room_mono [OF a(2)] v(1) by auto
    show ?thesis
      using insert_header_ok [OF a(1) b i(2) v(2) keys] i(1) False None g sn rd
      by (auto simp: set_content_length_def sent_headers_def)
  qed
qed

lemma arena_room_bound: "arena_room st ss n \<Longrightarrow> n < 2 ^ 64"
proof -
  assume "arena_room st ss n"
  then obtain v :: segment_t where "unat (seg_used v) + n < unat (seg_size v)" by (auto simp: arena_room_def split: option.splits)
  then show ?thesis using unsigned_less [of "seg_size v", where 'a = nat] by simp
qed

lemma iov_size:
  assumes "64 * n + 32 < 2 ^ 64"
  shows "unat (4 * of_nat n + 2 :: size_t) = 4 * n + 2" "unat ((4 * of_nat n + 2) * sizeof_iovec) = 64 * n + 32"
  using assms unat_of_nat_addr [of "4 * n + 2"] unat_of_nat_addr [of "64 * n + 32"]
  by (simp_all add: sizeof_iovec_def algebra_simps)

lemma strmap_bounds:
  assumes "strmap_rep h items smap xs m"
  shows "dfk_strmap_begin h items smap = Some \<lparr>strmap_it = \<lparr>avl_it_value = hd_or xs NULL\<rparr>\<rparr>"
    "dfk_strmap_end h items smap = Some \<lparr>strmap_it = \<lparr>avl_it_value = NULL\<rparr>\<rparr>"
  using assms begin_spec avl_check_ok
  by (auto simp: dfk_strmap_begin_def dfk_strmap_end_def dfk_avltree_end_def strmap_rep_def avl_set_def)

lemma only_headersD:
  assumes "only_headers w resp w' resp'"
  shows "resp_status resp' = resp_status resp" "resp_headers_flushed resp' = resp_headers_flushed resp"
    "resp_mock resp' = resp_mock resp" "resp_socket resp' = resp_socket resp"
    "resp_content_length resp' = resp_content_length resp" "status_line resp' = status_line resp"
    "hw_os w' = hw_os w" "hw_ctx w' = hw_ctx w"
  using assms unfolding only_headers_def by (cases resp; cases resp'; simp add: status_line_def)+

lemma header_iov_concat: "concat (concat (map header_line_iov kvs)) = header_lines kvs"
  by (induction kvs) (auto simp: header_line_iov_def header_lines_def)

lemma iov_not_empty:
  assumes "\<forall>(k, v)\<in>set kvs. k \<noteq> [] \<and> v \<noteq> []"
  shows "[] \<notin> set (concat (map header_line_iov kvs))"
  using assms by (force simp: header_line_iov_def colon_space_def crlf_def)

text \<open>
  Flushing hands the vector of the header block to the socket; the vector has exactly the entries that are filled
  in, none of them empty.
\<close>

lemma flush_vector:
  assumes ok: "response_ok env w resp (flush_cost hm + n) hm" and keys: "keys_ok (insert DFK_HTTP_CONTENT_LENGTH (dom hm))"
    and nf: "\<not> resp_headers_flushed resp" and st: "c_int (resp_status resp)"
  shows "\<exists>w1 resp1 v kvs. dfk__http_response_flush_headers env S w resp = do {
        (w', resp', r) \<leftarrow> dfk__mocked_writev env S w1 resp1 v;
        Some (w', resp'\<lparr>resp_headers_flushed := True\<rparr>, dfk_err_ok)
      }
    \<and> response_ok env w1 resp1 n (sent_headers resp hm) \<and> only_headers w resp w1 resp1
    \<and> descending (map fst kvs) \<and> map_of kvs = sent_headers resp hm
    \<and> concat v = header_block resp kvs \<and> [] \<notin> set v \<and> v \<noteq> []"
proof -
  let ?hm = "sent_headers resp hm"
  let ?n = "64 * card (dom ?hm) + 32"
  have "card (dom ?hm) \<le> Suc (card (dom hm))"
    by (cases "finite (dom hm)") (auto simp: sent_headers_def card_insert_if)
  then have le: "84 + (?n + n) \<le> flush_cost hm + n" by (simp add: flush_cost_def)
  obtain w1 resp1 where 1: "set_content_length env w resp = Some (w1, resp1)"
      "response_ok env w1 resp1 (?n + n) ?hm" "only_headers w resp w1 resp1"
    using set_content_length_ok [OF response_ok_mono [OF ok le] keys] by blast
  obtain ss os regs xs where a: "arena_inv env (sm_arena (hw_mem w1)) (hw_arena w1) ss os regs"
      "arena_room (sm_arena (hw_mem w1)) ss (?n + n)"
    and b: "strmap_rep (hw_hooks w1) (hw_items w1) (resp_headers resp1) xs (\<lambda>k. map_option Some (?hm k))"
      "\<forall>a\<in>set xs. (a, 64) \<in> set regs" "[] \<notin> ran ?hm"
    by (rule response_okE [OF 1(2)])
  note sz = strmap_size_spec [OF b(1), unfolded dom_lift]
  have "64 * length xs + 32 < 2 ^ 64"
    using arena_room_bound [OF a(2)] sz(2) by simp
  note niov = iov_size [OF this]
  obtain am p where al: "dfk_arena_alloc env (sm_arena (hw_mem w1)) (hw_arena w1) ((4 * of_nat (length xs) + 2) * sizeof_iovec)
        = Some (am, hw_arena w1, p)" "p \<noteq> NULL"
      "arena_inv env am (hw_arena w1) ss os ((p, 64 * length xs + 32) # regs)" "arena_room am ss n"
    using alloc_room [OF a(1), of "(4 * of_nat (length xs) + 2) * sizeof_iovec" n] a(2) niov(2) sz(2)
    by (metis Zero_not_Suc add_Suc_right add_2_eq_Suc' unat_0 add_eq_0_iff_both_eq_0 zero_neq_numeral)
  let ?w2 = "w1\<lparr>hw_mem := (hw_mem w1)\<lparr>sm_arena := am\<rparr>, hw_arena := hw_arena w1\<rparr>"
  let ?kvs = "header_list (hw_items w1) xs"
  let ?v = "status_line resp1 # concat (map header_line_iov ?kvs) @ [crlf]"
  note r1 = only_headersD [OF 1(3)]
  obtain sbuf ssize where sn: "snprintf 128 (status_line resp1) = (sbuf, ssize)" by (cases "snprintf 128 (status_line resp1)")
  have rd: "read_array sbuf ssize = Some (status_line resp1)"
    by (rule snprintf_fits [OF _ sn]) (use status_line_length st r1 in auto)
  have len: "length (concat (map header_line_iov ?kvs)) = 4 * length xs"
    by (simp add: length_concat header_line_iov_def header_list_def o_def sum_list_triv)
  have iov: "headers_iov (hw_hooks w1) (hw_items w1) \<lparr>strmap_it = \<lparr>avl_it_value = hd_or xs NULL\<rparr>\<rparr>
      \<lparr>strmap_it = \<lparr>avl_it_value = NULL\<rparr>\<rparr> (4 * length xs + 2) [status_line resp1]
      = Some (status_line resp1 # concat (map header_line_iov ?kvs))"
    using headers_iov_ok [of _ _ _ "[]" xs, OF _, of "hw_hooks w1" "hw_items w1" "resp_headers resp1"] b(1) by simp
  have eq: "dfk__http_response_flush_headers env S w resp = do {
      (w', resp', r) \<leftarrow> dfk__mocked_writev env S ?w2 resp1 ?v;
      Some (w', resp'\<lparr>resp_headers_flushed := True\<rparr>, dfk_err_ok)}"
    using nf 1(1) sz(1) al(1,2) sn rd strmap_bounds [OF b(1)] iov niov(1) len
    by (simp add: dfk__http_response_flush_headers_def split_def Let_def)
  have "response_ok env ?w2 resp1 n ?hm"
    unfolding response_ok_def using al(3,4) b
    by (intro conjI exI [of _ ss] exI [of _ os] exI [of _ "(p, 64 * length xs + 32) # regs"] exI [of _ xs]) auto
  moreover have "only_headers w resp ?w2 resp1" using 1(3) by (simp add: only_headers_def)
  moreover have "\<forall>(k, v)\<in>set ?kvs. k \<noteq> [] \<and> v \<noteq> []" by (rule header_list_not_empty [OF b(1,3)])
  then have "[] \<notin> set ?v" using iov_not_empty by (auto simp: status_line_def str_def crlf_def)
  moreover have "concat ?v = header_block resp ?kvs" using r1 by (simp add: header_block_def header_iov_concat)
  ultimately show ?thesis using eq header_list_map [OF b(1)] by blast
qed

section \<open>Properties\<close>

text \<open>
  What is relied on of a non-blocking descriptor when writes are to be complete: \<open>room\<close> is the room in its send buffer; a write of no more
  bytes than that takes all of them and uses up no more room. Writes of more bytes may take a part of them, or none.
\<close>

definition buffered :: "'o os_ops \<Rightarrow> fd \<Rightarrow> ('o \<Rightarrow> nat) \<Rightarrow> bool" where
  "buffered S fd room \<longleftrightarrow> (\<forall>buf s. buf \<noteq> [] \<longrightarrow> length buf \<le> room s \<longrightarrow>
     (case os_write S fd buf s of (r, s') \<Rightarrow> r = int (length buf) \<and> room s \<le> room s' + length buf))"

lemma bufferedD:
  assumes "buffered S fd room" "buf \<noteq> []" "length buf \<le> room s"
  obtains s' where "os_write S fd buf s = (int (length buf), s')" "room s \<le> room s' + length buf"
proof -
  obtain r s' where w: "os_write S fd buf s = (r, s')" by (cases "os_write S fd buf s")
  have "r = int (length buf) \<and> room s \<le> room s' + length buf"
    using assms(1) [unfolded buffered_def, THEN spec [of _ buf], THEN spec [of _ s]] assms(2,3) by (simp add: w)
  with w that show thesis by blast
qed

text \<open>The size of a header block, which does not depend on the order of its lines.\<close>

definition block_size :: "dfk_http_response_t \<Rightarrow> (byte list \<rightharpoonup> byte list) \<Rightarrow> nat" where
  "block_size resp hm = length (status_line resp) + (\<Sum>k\<in>dom hm. length k + length (the (hm k)) + 4) + 2"

lemma header_block_size:
  assumes "descending (map fst hdrs)" "map_of hdrs = hm"
  shows "length (header_block resp hdrs) = block_size resp hm"
proof -
  have d: "distinct (map fst hdrs)" by (rule descending_distinct [OF assms(1)])
  have "length (header_lines hdrs) = sum_list (map (\<lambda>(k, v). length k + length v + 4) hdrs)"
    by (induction hdrs) (auto simp: header_lines_def colon_space_def crlf_def str_def)
  also have "\<dots> = sum_list (map ((\<lambda>k. length k + length (the (hm k)) + 4) \<circ> fst) hdrs)"
    using d by (intro arg_cong [where f = sum_list] map_cong) (auto simp: assms(2) [symmetric])
  also have "\<dots> = (\<Sum>k\<in>set (map fst hdrs). length k + length (the (hm k)) + 4)"
    using sum_list_distinct_conv_sum_set [OF d, of "\<lambda>k. length k + length (the (hm k)) + 4"] by (simp add: o_def)
  also have "set (map fst hdrs) = dom hm" using dom_map_of_conv_image_fst [of hdrs] assms(2) by simp
  finally show ?thesis by (simp add: header_block_def block_size_def crlf_def)
qed

lemma writev_loop_all:
  assumes "sends S (t_socket sock) snt" "buffered S (t_socket sock) room"
  shows "[] \<notin> set iov \<Longrightarrow> length (concat iov) \<le> room s \<Longrightarrow> \<exists>s'. writev_loop S c sock iov tot s = Some (tot + int (length (concat iov)), c, s')
    \<and> snt s' = snt s @ concat iov \<and> room s \<le> room s' + length (concat iov)"
proof (induction iov arbitrary: tot s)
  case (Cons buf iov)
  have "buf \<noteq> []" "length buf \<le> room s" using Cons.prems by auto
  then obtain s1 where w: "os_write S (t_socket sock) buf s = (int (length buf), s1)" "room s \<le> room s1 + length buf"
    by (rule bufferedD [OF assms(2)])
  then have "snt s1 = snt s @ buf" "length (concat iov) \<le> room s1" using sendsD(1) [OF assms(1) w(1)] Cons.prems(2) by auto
  then show ?case
    using Cons.IH [of s1 "tot + int (length buf)"] Cons.prems(1) w by (auto simp: dfk_tcp_socket_write_def)
qed simp

text \<open>
  A vectored write to the descriptor of a response: it returns, having sent a prefix of the bytes, and all of them if there is room
  for them.
\<close>

lemma socket_writev_part:
  assumes "sends S (t_socket (resp_socket resp)) snt" "polls_requested S" "resp_mock resp = None" "iov \<noteq> []" "[] \<notin> set iov"
  shows "\<exists>n c s' p. dfk__mocked_writev env S w resp iov = Some (w\<lparr>hw_ctx := c, hw_os := s'\<rparr>, resp, n)
    \<and> snt s' = snt (hw_os w) @ p \<and> prefix p (concat iov)
    \<and> (\<forall>room. buffered S (t_socket (resp_socket resp)) room \<longrightarrow> length (concat iov) \<le> room (hw_os w) \<longrightarrow>
        p = concat iov \<and> n = int (length (concat iov)) \<and> room (hw_os w) \<le> room s' + length (concat iov))"
proof -
  let ?sock = "resp_socket resp"
  obtain n c s' k q where l: "writev_loop S (hw_ctx w) ?sock iov 0 (hw_os w) = Some (n, c, s')" "k \<le> length iov"
      "snt s' = snt (hw_os w) @ concat (take k iov) @ q" "if k = length iov then q = [] else strict_prefix q (iov ! k)"
    using writev_loop_ok [OF assms(1,2,5), of "hw_ctx w" 0 "hw_os w"] by (metis (lifting))
  have "prefix (concat (take k iov) @ q) (concat iov)"
  proof (cases "k = length iov")
    case False
    then have k: "k < length iov" "prefix q (iov ! k)" using l(2,4) by (auto simp: strict_prefix_def)
    have "concat iov = concat (take k iov) @ iov ! k @ concat (drop (Suc k) iov)"
      using k(1) by (metis append_take_drop_id concat.simps(2) concat_append Cons_nth_drop_Suc)
    then show ?thesis using k(2) by (auto simp: prefix_def)
  qed (use l(4) in simp)
  moreover have "concat (take k iov) @ q = concat iov \<and> n = int (length (concat iov)) \<and> room (hw_os w) \<le> room s' + length (concat iov)"
    if room: "buffered S (t_socket ?sock) room" "length (concat iov) \<le> room (hw_os w)" for room
    using writev_loop_all [OF assms(1) room(1) assms(5) room(2), of "hw_ctx w" 0] l(1,3) by auto
  moreover have "dfk__mocked_writev env S w resp iov = Some (w\<lparr>hw_ctx := c, hw_os := s'\<rparr>, resp, n)"
    using l(1) assms(3,4) by (simp add: dfk__mocked_writev_def dfk_tcp_socket_writev_def)
  ultimately show ?thesis using l(3) by (intro exI [of _ n] exI [of _ c] exI [of _ s'] exI [of _ "concat (take k iov) @ q"]) simp
qed

lemma response_init_ok:
  assumes "arena_inv env (sm_arena (hw_mem w)) (hw_arena w) ss os regs" "arena_room (sm_arena (hw_mem w)) ss n"
    and "dfk__http_response_init w major minor sock keepalive = Some resp"
  shows "response_ok env w resp n Map.empty" "resp_mock resp = None" "\<not> resp_headers_flushed resp" "resp_socket resp = sock"
proof -
  obtain smap where s: "dfk_strmap_init (hw_hooks w) (hw_items w) = Some smap"
      "strmap_rep (hw_hooks w) (hw_items w) smap [] Map.empty"
    using strmap_init_spec by blast
  then show "response_ok env w resp n Map.empty"
    using assms unfolding response_ok_def dfk__http_response_init_def by (fastforce simp: strmap_rep_def)
  show "resp_mock resp = None" "\<not> resp_headers_flushed resp" "resp_socket resp = sock"
    using assms(3) s(1) by (auto simp: dfk__http_response_init_def)
qed

text \<open>The status and the length, which a handler sets directly.\<close>

abbreviation with_status :: "dfk_http_response_t \<Rightarrow> int \<Rightarrow> size_t \<Rightarrow> dfk_http_response_t" where
  "with_status resp st len \<equiv> resp\<lparr>resp_status := st, resp_content_length := len\<rparr>"

lemma response_ok_with_status [simp]: "response_ok env w (with_status resp st len) n hm = response_ok env w resp n hm"
  by (simp add: response_ok_def)

text \<open>The first piece of the body follows the header block, a later one stands alone.\<close>

lemma writev_first:
  assumes ok: "response_ok env w resp (flush_cost hm) hm" "keys_ok (insert DFK_HTTP_CONTENT_LENGTH (dom hm))"
    and resp: "\<not> resp_headers_flushed resp" "c_int (resp_status resp)" "resp_mock resp = None"
    and os: "sends S (t_socket (resp_socket resp)) snt" "polls_requested S"
    and body: "iov \<noteq> []" "[] \<notin> set iov"
  shows "\<exists>w' resp' n hdrs p q. dfk_http_response_writev env S w resp iov = Some (w', resp', n)
    \<and> snt (hw_os w') = snt (hw_os w) @ p @ q \<and> prefix p (header_block resp hdrs) \<and> prefix q (concat iov)
    \<and> (\<forall>room. buffered S (t_socket (resp_socket resp)) room \<longrightarrow>
        block_size resp (sent_headers resp hm) + length (concat iov) \<le> room (hw_os w) \<longrightarrow>
        p = header_block resp hdrs \<and> q = concat iov \<and> n = int (length (concat iov))
        \<and> room (hw_os w) \<le> room (hw_os w') + block_size resp (sent_headers resp hm) + length (concat iov))
    \<and> map_of hdrs = sent_headers resp hm \<and> descending (map fst hdrs)
    \<and> resp_headers_flushed resp' \<and> resp_mock resp' = None \<and> resp_socket resp' = resp_socket resp"
proof -
  let ?fd = "t_socket (resp_socket resp)"
  obtain wa ra v hdrs where f: "dfk__http_response_flush_headers env S w resp = do {
        (w', resp', r) \<leftarrow> dfk__mocked_writev env S wa ra v;
        Some (w', resp'\<lparr>resp_headers_flushed := True\<rparr>, dfk_err_ok)}"
      "only_headers w resp wa ra" "descending (map fst hdrs)"
      "map_of hdrs = sent_headers resp hm" "concat v = header_block resp hdrs" "[] \<notin> set v" "v \<noteq> []"
    using flush_vector [of env w resp hm 0 S] ok resp by auto
  note ra = only_headersD [OF f(2)]
  have size: "length (concat v) = block_size resp (sent_headers resp hm)" unfolding f(5) by (rule header_block_size [OF f(3,4)])
  obtain n1 c1 s1 p where s1: "dfk__mocked_writev env S wa ra v = Some (wa\<lparr>hw_ctx := c1, hw_os := s1\<rparr>, ra, n1)"
      "snt s1 = snt (hw_os w) @ p" "prefix p (concat v)"
      "\<forall>room. buffered S ?fd room \<longrightarrow> length (concat v) \<le> room (hw_os w) \<longrightarrow> p = concat v \<and> room (hw_os w) \<le> room s1 + length (concat v)"
    using socket_writev_part [of S ra snt v env wa] ra resp os f by auto
  let ?rb = "ra\<lparr>resp_headers_flushed := True\<rparr>" and ?wb = "wa\<lparr>hw_ctx := c1, hw_os := s1\<rparr>"
  obtain n c2 s2 q where s2: "dfk__mocked_writev env S ?wb ?rb iov = Some (wa\<lparr>hw_ctx := c2, hw_os := s2\<rparr>, ?rb, n)"
      "snt s2 = snt s1 @ q" "prefix q (concat iov)"
      "\<forall>room. buffered S ?fd room \<longrightarrow> length (concat iov) \<le> room s1 \<longrightarrow>
        q = concat iov \<and> n = int (length (concat iov)) \<and> room s1 \<le> room s2 + length (concat iov)"
    using socket_writev_part [of S ?rb snt iov env ?wb] ra resp os body by auto
  have "dfk_http_response_writev env S w resp iov = Some (wa\<lparr>hw_ctx := c2, hw_os := s2\<rparr>, ?rb, n)"
    using body f(1) s1(1) s2(1) by (simp add: dfk_http_response_writev_def)
  moreover have "p = header_block resp hdrs \<and> q = concat iov \<and> n = int (length (concat iov))
      \<and> room (hw_os w) \<le> room s2 + block_size resp (sent_headers resp hm) + length (concat iov)"
    if r: "buffered S ?fd room" "block_size resp (sent_headers resp hm) + length (concat iov) \<le> room (hw_os w)" for room
  proof -
    have 1: "p = concat v \<and> room (hw_os w) \<le> room s1 + length (concat v)" using s1(4) r size by simp
    then have "length (concat iov) \<le> room s1" using r(2) size by simp
    then have "q = concat iov \<and> n = int (length (concat iov)) \<and> room s1 \<le> room s2 + length (concat iov)" using s2(4) r(1) by simp
    with 1 size f(5) show ?thesis by simp
  qed
  ultimately show ?thesis using f(3-5) s1(2,3) s2(2,3) ra resp
    by (intro exI [of _ "wa\<lparr>hw_ctx := c2, hw_os := s2\<rparr>"] exI [of _ ?rb] exI [of _ n] exI [of _ hdrs] exI [of _ p] exI [of _ q]) simp
qed

lemma writev_again:
  assumes "resp_headers_flushed resp" "resp_mock resp = None" "iov \<noteq> []" "[] \<notin> set iov"
    and "sends S (t_socket (resp_socket resp)) snt" "polls_requested S"
  shows "\<exists>n c s' p. dfk_http_response_writev env S w resp iov = Some (w\<lparr>hw_ctx := c, hw_os := s'\<rparr>, resp, n)
    \<and> snt s' = snt (hw_os w) @ p \<and> prefix p (concat iov)
    \<and> (\<forall>room. buffered S (t_socket (resp_socket resp)) room \<longrightarrow> length (concat iov) \<le> room (hw_os w) \<longrightarrow>
        p = concat iov \<and> n = int (length (concat iov)) \<and> room (hw_os w) \<le> room s' + length (concat iov))"
  using socket_writev_part [OF assms(5,6,2-4), of env w] assms(1,3)
  by (simp add: dfk_http_response_writev_def dfk__http_response_flush_headers_def)

text \<open>
  C4. What a response puts on the wire. A handler sets headers with \<^verbatim>\<open>dfk_http_response_set_copy\<close>, with values that are not empty
  and names that are not empty, contain no zero byte and of which, \<^verbatim>\<open>Content-Length\<close> among them, none is a proper prefix of another; it
  sets status and content length and writes the body in two pieces. There is room for the headers in the request's arena.
  Then the calls return, whatever the descriptor takes: the bytes sent are a prefix of the header block, a prefix of the first piece and a
  prefix of the second, one behind the other, also when one of them is not complete. The header block is the status line, one line per header,
  and an empty line; the headers are those that were set, each with the value set first, and \<^verbatim>\<open>Content-Length\<close> when
  a length was given and the header was not set; they come in descending order of their names. When the send buffer of
  the descriptor has room for the header block and the body, all of it is sent, and the calls return the sizes of the two pieces.
\<close>

theorem response_on_the_wire:
  assumes arena: "arena_inv env (sm_arena (hw_mem w)) (hw_arena w) ss os regs"
      "arena_room (sm_arena (hw_mem w)) ss (sum_list (map (\<lambda>(k, v). length k + length v + 64) kvs) + flush_cost (map_of kvs))"
    and init: "dfk__http_response_init w major minor sock keepalive = Some resp"
    and headers: "keys_ok (insert DFK_HTTP_CONTENT_LENGTH (fst ` set kvs))"
      "\<forall>(k, v)\<in>set kvs. v \<noteq> [] \<and> length k < 2 ^ 62 \<and> length v < 2 ^ 62" "c_int st"
    and os: "sends S (t_socket sock) snt" "polls_requested S"
    and body: "iov \<noteq> []" "[] \<notin> set iov" "iov' \<noteq> []" "[] \<notin> set iov'"
  shows "\<exists>w1 resp1 w2 resp2 n w3 resp3 n' hdrs p q q'.
    set_all dfk_http_response_set_copy env w resp kvs = Some (w1, resp1)
    \<and> dfk_http_response_writev env S w1 (with_status resp1 st len) iov = Some (w2, resp2, n)
    \<and> dfk_http_response_writev env S w2 resp2 iov' = Some (w3, resp3, n')
    \<and> snt (hw_os w3) = snt (hw_os w) @ p @ q @ q'
    \<and> prefix p (header_block (with_status resp st len) hdrs) \<and> prefix q (concat iov) \<and> prefix q' (concat iov')
    \<and> map_of hdrs = sent_headers (with_status resp st len) (map_of kvs) \<and> descending (map fst hdrs)
    \<and> (\<forall>room. buffered S (t_socket sock) room \<longrightarrow>
        length (header_block (with_status resp st len) hdrs @ concat iov @ concat iov') \<le> room (hw_os w) \<longrightarrow>
        p @ q @ q' = header_block (with_status resp st len) hdrs @ concat iov @ concat iov'
        \<and> n = int (length (concat iov)) \<and> n' = int (length (concat iov')))"
proof -
  note r0 = response_init_ok [OF arena init]
  have keys: "keys_ok (insert DFK_HTTP_CONTENT_LENGTH (dom (map_of kvs)))" using headers(1) by (simp add: dom_map_of_conv_image_fst)
  have "keys_ok (fst ` set kvs \<union> dom Map.empty)" by (rule keys_ok_mono [OF headers(1)]) auto
  then obtain w1 resp1 where 1: "set_all dfk_http_response_set_copy env w resp kvs = Some (w1, resp1)"
      "response_ok env w1 resp1 (flush_cost (map_of kvs)) (map_of kvs)" "only_headers w resp w1 resp1"
    using copy_set.set_all_law [OF r0(1)] headers(2) by auto
  then obtain hd where hd: "resp1 = resp\<lparr>resp_headers := hd\<rparr>" "hw_os w1 = hw_os w" by (auto simp: only_headers_def)
  let ?r1 = "with_status resp1 st len"
  have line: "header_block ?r1 = header_block (with_status resp st len)"
    "sent_headers ?r1 = sent_headers (with_status resp st len)"
    unfolding hd by (simp_all add: header_block_def status_line_def sent_headers_def fun_eq_iff)
  have ok1: "response_ok env w1 ?r1 (flush_cost (map_of kvs)) (map_of kvs)" using 1(2) by simp
  have sock: "resp_socket ?r1 = sock" "resp_mock ?r1 = None" "\<not> resp_headers_flushed ?r1" "c_int (resp_status ?r1)"
    using r0 headers(3) hd by simp_all
  let ?size = "block_size ?r1 (sent_headers ?r1 (map_of kvs))"
  obtain w2 resp2 n hdrs p q where 2: "dfk_http_response_writev env S w1 ?r1 iov = Some (w2, resp2, n)"
      "snt (hw_os w2) = snt (hw_os w) @ p @ q" "prefix p (header_block ?r1 hdrs)" "prefix q (concat iov)"
      "\<forall>room. buffered S (t_socket sock) room \<longrightarrow> ?size + length (concat iov) \<le> room (hw_os w) \<longrightarrow>
        p = header_block ?r1 hdrs \<and> q = concat iov \<and> n = int (length (concat iov))
        \<and> room (hw_os w) \<le> room (hw_os w2) + ?size + length (concat iov)"
      "map_of hdrs = sent_headers ?r1 (map_of kvs)" "descending (map fst hdrs)"
      "resp_headers_flushed resp2" "resp_mock resp2 = None" "resp_socket resp2 = sock"
    using writev_first [OF ok1 keys sock(3,4,2), unfolded sock(1) hd(2), OF os body(1,2)] by blast
  obtain n' c s3 q' where 3: "dfk_http_response_writev env S w2 resp2 iov' = Some (w2\<lparr>hw_ctx := c, hw_os := s3\<rparr>, resp2, n')"
      "snt s3 = snt (hw_os w2) @ q'" "prefix q' (concat iov')"
      "\<forall>room. buffered S (t_socket sock) room \<longrightarrow> length (concat iov') \<le> room (hw_os w2) \<longrightarrow>
        q' = concat iov' \<and> n' = int (length (concat iov'))"
    using writev_again [OF 2(8,9) body(3,4), unfolded 2(10), OF os] by blast
  have "p @ q @ q' = header_block ?r1 hdrs @ concat iov @ concat iov' \<and> n = int (length (concat iov)) \<and> n' = int (length (concat iov'))"
    if r: "buffered S (t_socket sock) room" "length (header_block ?r1 hdrs @ concat iov @ concat iov') \<le> room (hw_os w)" for room
  proof -
    have size: "?size + length (concat iov) + length (concat iov') \<le> room (hw_os w)" using r(2) header_block_size [OF 2(7,6)] by simp
    then have "?size + length (concat iov) \<le> room (hw_os w)" by simp
    with 2(5) r(1) have h: "p = header_block ?r1 hdrs" "q = concat iov" "n = int (length (concat iov))"
      "room (hw_os w) \<le> room (hw_os w2) + ?size + length (concat iov)" by blast+
    then have "length (concat iov') \<le> room (hw_os w2)" using size by simp
    then show ?thesis using 3(4) r(1) h by simp
  qed
  then have all: "\<forall>room. buffered S (t_socket sock) room \<longrightarrow> length (header_block ?r1 hdrs @ concat iov @ concat iov') \<le> room (hw_os w) \<longrightarrow>
      p @ q @ q' = header_block ?r1 hdrs @ concat iov @ concat iov' \<and> n = int (length (concat iov)) \<and> n' = int (length (concat iov'))"
    by blast
  have sent: "snt (hw_os (w2\<lparr>hw_ctx := c, hw_os := s3\<rparr>)) = snt (hw_os w) @ p @ q @ q'" using 2(2) 3(2) by simp
  show ?thesis
    by (intro exI conjI) (rule 1(1) 2(1) 3(1) sent 2(3) [unfolded line] 2(4) 3(3) 2(6) [unfolded line] 2(7) all [unfolded line])+
qed

text \<open>The sample kernel with a send buffer of 4096 bytes that nobody empties.\<close>

definition send_room :: "kernel \<Rightarrow> nat" where
  "send_room k = 4096 - length (k_sent k)"

definition buffered_write :: "byte list \<Rightarrow> kernel \<Rightarrow> int \<times> kernel" where
  "buffered_write buf k = (if send_room k = 0 then (-1, k\<lparr>k_errno := EAGAIN\<rparr>)
     else (int (min (send_room k) (length buf)), k\<lparr>k_sent := k_sent k @ take (send_room k) buf\<rparr>))"

definition reliable_os :: "kernel os_ops" where
  "reliable_os = sample_os\<lparr>os_write := \<lambda>fd. buffered_write\<rparr>"

lemma reliable_os_writes: "sends reliable_os fd k_sent" "polls_requested reliable_os"
  using sample_polls by (auto simp: sends_def polls_requested_def reliable_os_def sample_os_def buffered_write_def min_def)

lemma reliable_os_buffered: "buffered reliable_os fd send_room"
  by (auto simp: buffered_def reliable_os_def buffered_write_def send_room_def)

theorem response_on_the_wire_witness:
  "\<exists>w resp w1 resp1 w2 resp2 w3 resp3 hdrs. dfk__http_response_init w 1 1 \<lparr>t_socket = 3\<rparr> 1 = Some resp
    \<and> set_all dfk_http_response_set_copy small_env w resp [(str ''Server'', str ''dfk'')] = Some (w1, resp1)
    \<and> dfk_http_response_writev small_env reliable_os w1 (with_status resp1 200 5) [str ''hel''] = Some (w2, resp2, 3)
    \<and> dfk_http_response_writev small_env reliable_os w2 resp2 [str ''lo''] = Some (w3, resp3, 2)
    \<and> k_sent (hw_os w3) = header_block (with_status resp 200 5) hdrs @ str ''hello''
    \<and> map_of hdrs = [str ''Server'' \<mapsto> str ''dfk'', str ''Content-Length'' \<mapsto> str ''5'']"
proof -
  obtain st arena s regs where a: "arena_inv small_env st arena [s] [] regs" "arena_room st [s] 40000"
    by (rule small_arena_room) blast
  let ?w = "world_of st arena" and ?kvs = "[(str ''Server'', str ''dfk'')]"
  obtain resp where i: "dfk__http_response_init ?w 1 1 \<lparr>t_socket = 3\<rparr> 1 = Some resp"
    using strmap_init_spec [of "hw_hooks ?w" "hw_items ?w"] by (auto simp: dfk__http_response_init_def)
  have inv: "arena_inv small_env (sm_arena (hw_mem ?w)) (hw_arena ?w) [s] [] regs" using a by (simp add: world_of_def)
  have room: "arena_room (sm_arena (hw_mem ?w)) [s] (sum_list (map (\<lambda>(k, v). length k + length v + 64) ?kvs) + flush_cost (map_of ?kvs))"
    using arena_room_mono [OF a(2)] by (simp add: world_of_def flush_cost_def str_def)
  have keys: "keys_ok (insert DFK_HTTP_CONTENT_LENGTH (fst ` set ?kvs))"
    by (simp add: keys_ok_def DFK_HTTP_CONTENT_LENGTH_def str_def)
  have hm: "sent_headers (with_status resp 200 5) (map_of ?kvs) = [str ''Server'' \<mapsto> str ''dfk'', str ''Content-Length'' \<mapsto> str ''5'']"
    by (simp add: sent_headers_def put_first_def DFK_HTTP_CONTENT_LENGTH_def str_def decimal.simps)
  have vals: "\<forall>(k, v)\<in>set ?kvs. v \<noteq> [] \<and> length k < 2 ^ 62 \<and> length v < 2 ^ 62" "c_int 200"
      "[str ''hel''] \<noteq> []" "[] \<notin> set [str ''hel'']" "[str ''lo''] \<noteq> []" "[] \<notin> set [str ''lo'']"
    and len: "int (length (concat [str ''hel''])) = 3" "int (length (concat [str ''lo''])) = 2"
      "concat [str ''hel''] @ concat [str ''lo''] = str ''hello''" "k_sent (hw_os ?w) = []"
    by (simp_all add: str_def c_int_def world_of_def sample_kernel_def)
  obtain w1 resp1 w2 resp2 n w3 resp3 n' hdrs p q q' where c: "set_all dfk_http_response_set_copy small_env ?w resp ?kvs = Some (w1, resp1)"
      "dfk_http_response_writev small_env reliable_os w1 (with_status resp1 200 5) [str ''hel''] = Some (w2, resp2, n)"
      "dfk_http_response_writev small_env reliable_os w2 resp2 [str ''lo''] = Some (w3, resp3, n')"
      "k_sent (hw_os w3) = p @ q @ q'" "map_of hdrs = [str ''Server'' \<mapsto> str ''dfk'', str ''Content-Length'' \<mapsto> str ''5'']"
      "descending (map fst hdrs)"
      "length (header_block (with_status resp 200 5) hdrs @ str ''hello'') \<le> send_room (hw_os ?w) \<longrightarrow>
        p @ q @ q' = header_block (with_status resp 200 5) hdrs @ str ''hello'' \<and> n = 3 \<and> n' = 2"
    using response_on_the_wire [OF inv room i keys vals(1,2) reliable_os_writes vals(3-6), of 5, unfolded hm len append_Nil] reliable_os_buffered by blast
  have "length (status_line (with_status resp 200 5)) < 128" by (rule status_line_length) (simp add: c_int_def)
  then have "block_size (with_status resp 200 5) [str ''Server'' \<mapsto> str ''dfk'', str ''Content-Length'' \<mapsto> str ''5''] < 200"
    by (simp add: block_size_def str_def)
  then have "length (header_block (with_status resp 200 5) hdrs @ str ''hello'') \<le> send_room (hw_os ?w)"
    unfolding length_append header_block_size [OF c(6,5)] by (simp add: str_def send_room_def world_of_def sample_kernel_def)
  with c(7) have e: "p @ q @ q' = header_block (with_status resp 200 5) hdrs @ str ''hello''" "n = 3" "n' = 2" by blast+
  show ?thesis using i c(1) c(2) [unfolded e(2)] c(3) [unfolded e(3)] c(4) [unfolded e(1)] c(5) by blast
qed

text \<open>
  When the vector for the header block cannot be allocated, the headers are dropped without a trace: the client
  gets the status line of an internal server error and nothing else, not even the empty line that ends a header
  block, and the function reports success. Whatever is written next becomes part of the header block.
\<close>

theorem response_flush_nomem:
  assumes "\<not> resp_headers_flushed resp" "resp_mock resp = None"
    and "set_content_length env w resp = Some (w1, resp1)" "only_headers w resp w1 resp1"
    and "dfk_strmap_size (hw_hooks w1) (hw_items w1) (resp_headers resp1) = Some n"
    and "dfk_arena_alloc env (sm_arena (hw_mem w1)) (hw_arena w1) ((4 * n + 2) * sizeof_iovec) = Some (am, arena, NULL)"
    and "sends S (t_socket (resp_socket resp)) snt" "buffered S (t_socket (resp_socket resp)) room"
    and "length (status_line (resp\<lparr>resp_status := status_code DFK_HTTP_INTERNAL_SERVER_ERROR\<rparr>)) \<le> room (hw_os w)"
  shows "\<exists>w' resp'. dfk__http_response_flush_headers env S w resp = Some (w', resp', dfk_err_ok)
    \<and> resp_headers_flushed resp'
    \<and> snt (hw_os w') = snt (hw_os w) @ status_line (resp\<lparr>resp_status := status_code DFK_HTTP_INTERNAL_SERVER_ERROR\<rparr>)"
proof -
  let ?r = "resp1\<lparr>resp_status := status_code DFK_HTTP_INTERNAL_SERVER_ERROR\<rparr>"
  obtain hd where hd: "resp1 = resp\<lparr>resp_headers := hd\<rparr>" "hw_os w1 = hw_os w" using assms(4) by (auto simp: only_headers_def)
  obtain sbuf ssize where sn: "snprintf 128 (status_line ?r) = (sbuf, ssize)" by (cases "snprintf 128 (status_line ?r)")
  have rd: "read_array sbuf ssize = Some (status_line ?r)"
    by (rule snprintf_fits [OF _ sn]) (rule status_line_length, simp add: c_int_def)
  have ne: "status_line ?r \<noteq> []" by (simp add: status_line_def str_def)
  have line: "status_line ?r = status_line (resp\<lparr>resp_status := status_code DFK_HTTP_INTERNAL_SERVER_ERROR\<rparr>)"
    unfolding hd by (simp add: status_line_def)
  obtain s' where w: "os_write S (t_socket (resp_socket resp)) (status_line ?r) (hw_os w) = (int (length (status_line ?r)), s')"
    using bufferedD [OF assms(8) ne assms(9) [folded line]] by blast
  from line show ?thesis
    using assms(1-3,5,6) sn rd ne w sendsD(1) [OF assms(7) w] hd
    by (simp add: dfk__http_response_flush_headers_def dfk__mocked_write_def dfk_tcp_socket_write_def split_def Let_def)
qed

definition no_memory :: dfk_env where
  "no_memory = small_env\<lparr>dfk_malloc := \<lambda>m n. None\<rparr>"

theorem response_flush_nomem_witness:
  "\<exists>resp w' resp'. dfk__http_response_init (world_of fresh_arena_mem fresh_arena) 1 1 \<lparr>t_socket = 3\<rparr> 0 = Some resp
    \<and> dfk__http_response_flush_headers no_memory reliable_os (world_of fresh_arena_mem fresh_arena) resp = Some (w', resp', dfk_err_ok)
    \<and> k_sent (hw_os w') = str ''HTTP/1.1 500 Internal Server Error'' @ crlf"
proof -
  let ?w = "world_of fresh_arena_mem fresh_arena"
  obtain smap where s: "dfk_strmap_init (hw_hooks ?w) (hw_items ?w) = Some smap" "strmap_rep (hw_hooks ?w) (hw_items ?w) smap [] Map.empty"
    using strmap_init_spec by blast
  then obtain resp where i: "dfk__http_response_init ?w 1 1 \<lparr>t_socket = 3\<rparr> 0 = Some resp"
    and r: "resp_headers resp = smap" "resp_content_length resp = -1" "\<not> resp_headers_flushed resp" "resp_mock resp = None"
      "resp_major_version resp = 1" "resp_minor_version resp = 1"
    by (auto simp: dfk__http_response_init_def)
  have "dfk_arena_alloc no_memory (sm_arena (hw_mem ?w)) (hw_arena ?w) ((4 * 0 + 2) * sizeof_iovec) = Some (fresh_arena_mem, fresh_arena, NULL)"
    using list_empty_spec [of "am_hooks fresh_arena_mem" "arena_segments fresh_arena" "[]"]
    by (simp add: dfk_arena_alloc_def world_of_def list_rep_Nil no_memory_def small_env_def sizeof_iovec_def sizeof_segment_def
        dfk__malloc_def max_def)
  moreover have "dfk_strmap_size (hw_hooks ?w) (hw_items ?w) (resp_headers resp) = Some 0"
    using strmap_size_spec(1) [OF s(2)] r(1) by simp
  moreover have "set_content_length no_memory ?w resp = Some (?w, resp)" using r(2) by (simp add: set_content_length_def)
  ultimately obtain w' resp' where "dfk__http_response_flush_headers no_memory reliable_os ?w resp = Some (w', resp', dfk_err_ok)"
      "k_sent (hw_os w') = k_sent (hw_os ?w) @ status_line (resp\<lparr>resp_status := status_code DFK_HTTP_INTERNAL_SERVER_ERROR\<rparr>)"
    using response_flush_nomem [OF r(3,4), of no_memory ?w ?w resp 0 _ _ reliable_os k_sent send_room] reliable_os_writes reliable_os_buffered
      status_line_length [of "resp\<lparr>resp_status := status_code DFK_HTTP_INTERNAL_SERVER_ERROR\<rparr>"]
    by (auto simp: c_int_def send_room_def world_of_def sample_kernel_def)
  then show ?thesis
    using i r(5,6) by (simp add: status_line_def decimal.simps decimal3_def decimal_int_def Let_def dfk_http_reason_phrase_def
        world_of_def sample_kernel_def str_def)
qed

text \<open>
  C36. The status line of any response fits the buffer on the stack that it is formatted in, whatever value the
  status has been set to; for the status codes the library names, the code has three digits and the reason phrase
  is known.
\<close>

theorem status_line_fits:
  "(c_int (resp_status resp) \<longrightarrow> (case snprintf 128 (status_line resp) of (sbuf, ssize) \<Rightarrow> read_array sbuf ssize = Some (status_line resp)))
    \<and> length (decimal3 (status_code s)) = 3 \<and> dfk_http_reason_phrase (status_code s) \<noteq> ''Unknown''"
proof -
  have "decimal3 (status_code s) = decimal (nat (status_code s))" "length (decimal (nat (status_code s))) = 3"
    by (cases s; simp add: decimal3_def decimal_int_def decimal.simps)+
  then show ?thesis using reason_phrase_known by (auto intro: snprintf_fits status_line_length split: prod.split)
qed

theorem status_line_fits_witness:
  "case snprintf 128 (status_line \<lparr>resp_socket = \<lparr>t_socket = 3\<rparr>, resp_mock = None, resp_headers_flushed = False,
      resp_major_version = 65535, resp_minor_version = 65535, resp_status = -2147483648, resp_content_length = 0,
      resp_chunked = False, resp_keepalive = False,
      resp_headers = \<lparr>strmap_cont = \<lparr>avl_root = NULL, avl_cmp = \<lambda>_ _. 0, avl_size = 0\<rparr>\<rparr>\<rparr>) of
    (sbuf, ssize) \<Rightarrow> read_array sbuf ssize = Some (str ''HTTP/65535.65535 -2147483648 Unknown'' @ crlf)"
proof -
  let ?r = "\<lparr>resp_socket = \<lparr>t_socket = 3\<rparr>, resp_mock = None, resp_headers_flushed = False,
      resp_major_version = 65535, resp_minor_version = 65535, resp_status = -2147483648, resp_content_length = 0,
      resp_chunked = False, resp_keepalive = False,
      resp_headers = \<lparr>strmap_cont = \<lparr>avl_root = NULL, avl_cmp = \<lambda>_ _. 0, avl_size = 0\<rparr>\<rparr>\<rparr>"
  have "status_line ?r = str ''HTTP/65535.65535 -2147483648 Unknown'' @ crlf"
    by (simp add: status_line_def decimal.simps decimal3_def decimal_int_def Let_def dfk_http_reason_phrase_def str_def)
  with status_line_fits [of ?r DFK_HTTP_OK] show ?thesis by (simp add: c_int_def)
qed

end
