(* ===== verification/Dfk_Http_Protocol.thy ===== *)
theory Dfk_Http_Protocol
  imports Dfk_Http_Header Dfk_Http_Response
begin

text \<open>
  The connection loop of the HTTP server, \<^verbatim>\<open>src/http/protocol.c\<close>: requests of one connection are read, handled and
  answered in turn until one side wants to close. The handler is the user's, and the HTTP parser a third-party library.
\<close>

section \<open>Operations\<close>

text \<open>The handler, the parser, and the configured \<^verbatim>\<open>DFK_HTTP_HEADER_MAX_SIZE\<close>.\<close>

record ('p, 'o) protocol_ops =
  op_handler :: "'p dfk_http_request_t \<Rightarrow> dfk_http_response_t \<Rightarrow> dfk_arena_t \<Rightarrow> 'o http_world
    \<Rightarrow> (dfk_error_e \<times> 'p dfk_http_request_t \<times> dfk_http_response_t \<times> dfk_arena_t \<times> 'o http_world) option"
  op_parser :: "'p http_parser"
  op_header_max :: size_t

text \<open>The connection type the client asks for; the flag keeps its value when the header says something else.\<close>

definition requested_keepalive :: "bool \<Rightarrow> byte list \<Rightarrow> 'p dfk_http_request_t \<Rightarrow> bool" where
  "requested_keepalive keepalive connection req =
     (if connection \<noteq> [] then
       (let keepalive = (if strncmp connection (str ''close'') (min (length connection) 5) = 0 then False else keepalive)
        in if strncmp connection (str ''Keep-Alive'') (min (length connection) 10) = 0 then True else keepalive)
     else \<not> (req_major_version req = 1 \<and> req_minor_version req = 0))"

definition fix_version :: "'p dfk_http_request_t \<Rightarrow> dfk_http_response_t \<Rightarrow> dfk_http_response_t" where
  "fix_version req resp =
     (if req_major_version req < resp_major_version resp
      then resp\<lparr>resp_major_version := req_major_version req, resp_minor_version := req_minor_version req\<rparr>
      else if req_minor_version req < resp_minor_version resp
      then resp\<lparr>resp_minor_version := req_minor_version req\<rparr>
      else resp)"

definition keepalive_after :: "dfk_http_t \<Rightarrow> int \<Rightarrow> bool \<Rightarrow> dfk_http_response_t \<Rightarrow> bool" where
  "keepalive_after http nrequests keepalive resp = (let keepalive = (keepalive \<and> resp_keepalive resp) in
     if keepalive \<and> 0 \<le> http_keepalive_requests http \<and> http_keepalive_requests http \<le> nrequests + 1 then False
     else keepalive)"

text \<open>The two headers that are always set, and the header block, unless the handler has sent it already.\<close>

definition finish_response ::
  "dfk_env \<Rightarrow> 'o os_ops \<Rightarrow> 'o http_world \<Rightarrow> dfk_http_response_t \<Rightarrow> bool \<Rightarrow> ('o http_world \<times> dfk_http_response_t) option" where
  "finish_response env S w resp keepalive = do {
     (w, resp, err) \<leftarrow> dfk_http_response_set env w resp DFK_HTTP_CONNECTION
       (if \<not> keepalive then str ''close'' else str ''Keep-Alive'');
     (w, resp, err) \<leftarrow> dfk_http_response_set env w resp (str ''Content-Length'') (str ''0'');
     (w, resp, err) \<leftarrow> dfk__http_response_flush_headers env S w resp;
     Some (w, resp)
   }"

text \<open>The rest of the body is read and thrown away, in pieces of up to 1024 bytes.\<close>

partial_function (option) skip_loop ::
  "'p http_parser_execute \<Rightarrow> 'o os_ops \<Rightarrow> 'p dfk_http_request_t \<Rightarrow> 64 word \<Rightarrow> dfk_ctx \<Rightarrow> 'o
    \<Rightarrow> (bool \<times> 'p dfk_http_request_t \<times> dfk_ctx \<times> 'o) option" where
  "skip_loop ex S req bytesremain c s =
     (if bytesremain = 0 then Some (True, req, c, s)
      else do {
        (nread, buf, req, c, s) \<leftarrow> dfk_http_request_read ex S req False (min bytesremain 1024) c s;
        if nread < 0 then Some (False, req, c, s)
        else skip_loop ex S req (bytesremain - of_int nread) c s
      })"

definition skip_body ::
  "'p http_parser_execute \<Rightarrow> 'o os_ops \<Rightarrow> 'p dfk_http_request_t \<Rightarrow> dfk_ctx \<Rightarrow> 'o
    \<Rightarrow> (bool \<times> 'p dfk_http_request_t \<times> dfk_ctx \<times> 'o) option" where
  "skip_body ex S req c s =
     (if 0 < req_content_length req \<and> sint (req_body_nread req) < req_content_length req
      then skip_loop ex S req (of_int (req_content_length req) - req_body_nread req) c s
      else Some (True, req, c, s))"

text \<open>One request. The state is the flag \<^verbatim>\<open>keepalive\<close>, the number of requests, the arena of the connection and the world.\<close>

type_synonym 'o connection = "bool \<times> int \<times> dfk_arena_t \<times> 'o http_world"

definition answer_request ::
  "dfk_env \<Rightarrow> 'o os_ops \<Rightarrow> ('p, 'o) protocol_ops \<Rightarrow> dfk_http_t \<Rightarrow> dfk_tcp_socket_t \<Rightarrow> 'p dfk_http_request_t \<Rightarrow> 'o connection
    \<Rightarrow> ('p dfk_http_request_t \<times> 'o connection) option" where
  "answer_request env S ops http sock req cn = (case cn of (keepalive, nrequests, conn, w) \<Rightarrow> do {
     connection \<leftarrow> world_get w (req_headers req) DFK_HTTP_CONNECTION;
     let keepalive = requested_keepalive keepalive (bytes_of connection) req;
     resp \<leftarrow> dfk__http_response_init w (req_major_version req) (req_minor_version req) sock (if keepalive then 1 else 0);
     (hres, req, resp, conn, w) \<leftarrow> op_handler ops req resp conn w;
     let resp = (if hres \<noteq> dfk_err_ok then resp\<lparr>resp_status := status_code DFK_HTTP_INTERNAL_SERVER_ERROR\<rparr> else resp);
     let resp = fix_version req resp;
     let keepalive = keepalive_after http nrequests keepalive resp;
     (w, resp) \<leftarrow> finish_response env S w resp keepalive;
     (ok, req, c, s) \<leftarrow> skip_body (hx_body (op_parser ops)) S req (hw_ctx w) (hw_os w);
     let w = w\<lparr>hw_ctx := c, hw_os := s\<rparr>;
     Some (req, if ok then (keepalive, nrequests + 1, conn, w) else (False, nrequests, conn, w))
   })"

definition protocol_request ::
  "dfk_env \<Rightarrow> 'o os_ops \<Rightarrow> ('p, 'o) protocol_ops \<Rightarrow> dfk_http_t \<Rightarrow> dfk_tcp_socket_t \<Rightarrow> 'o connection \<Rightarrow> 'o connection option" where
  "protocol_request env S ops http sock cn = (case cn of (keepalive, nrequests, conn, w) \<Rightarrow> do {
     arena \<leftarrow> dfk_arena_init (sm_arena (hw_mem w));
     let w = w\<lparr>hw_arena := arena\<rparr>;
     req \<leftarrow> dfk__http_request_init (op_parser ops) w sock;
     (err, req, w) \<leftarrow> dfk__http_request_read_headers env S (op_parser ops) http (op_header_max ops) req w;
     (req, keepalive, nrequests, conn, w) \<leftarrow>
       (if err \<noteq> dfk_err_ok then Some (req, False, nrequests, conn, w)
        else answer_request env S ops http sock req (keepalive, nrequests, conn, w));
     w \<leftarrow> dfk__http_request_free env req w;
     (am, arena, calls) \<leftarrow> dfk_arena_free env (sm_arena (hw_mem w)) (hw_arena w);
     Some (keepalive, nrequests, conn, w\<lparr>hw_mem := (hw_mem w)\<lparr>sm_arena := am\<rparr>, hw_arena := arena\<rparr>)
   })"

partial_function (option) protocol_loop ::
  "dfk_env \<Rightarrow> 'o os_ops \<Rightarrow> ('p, 'o) protocol_ops \<Rightarrow> dfk_http_t \<Rightarrow> dfk_tcp_socket_t \<Rightarrow> 'o connection \<Rightarrow> 'o connection option" where
  "protocol_loop env S ops http sock cn =
     (if fst cn then do {
        cn \<leftarrow> protocol_request env S ops http sock cn;
        protocol_loop env S ops http sock cn
      } else Some cn)"

definition dfk__http_protocol ::
  "dfk_env \<Rightarrow> 'o os_ops \<Rightarrow> ('p, 'o) protocol_ops \<Rightarrow> dfk_http_t \<Rightarrow> dfk_tcp_socket_t \<Rightarrow> 'o http_world \<Rightarrow> 'o http_world option" where
  "dfk__http_protocol env S ops http sock w = do {
     connection_arena \<leftarrow> dfk_arena_init (sm_arena (hw_mem w));
     (keepalive, nrequests, connection_arena, w) \<leftarrow> protocol_loop env S ops http sock (True, 0, connection_arena, w);
     (am, connection_arena, calls) \<leftarrow> dfk_arena_free env (sm_arena (hw_mem w)) connection_arena;
     let w = w\<lparr>hw_mem := (hw_mem w)\<lparr>sm_arena := am\<rparr>\<rparr>;
     let (err, c, s) = dfk_tcp_socket_close S (hw_ctx w) sock (hw_os w);
     Some (w\<lparr>hw_ctx := c, hw_os := s\<rparr>)
   }"

lemma sint_small: "unat w < 2 ^ 63 \<Longrightarrow> sint (w :: 64 word) = int (unat w)"
proof -
  assume "unat w < 2 ^ 63"
  then have "uint w < 2 ^ 63" by (metis of_nat_less_iff of_nat_numeral of_nat_power of_nat_unat)
  moreover have "- (2 ^ 63) \<le> uint w" using unsigned_greater_eq [of w] by (rule order_trans [rotated]) simp
  ultimately show ?thesis by (simp add: sint_uint signed_take_bit_int_eq_self)
qed

section \<open>Skipping the rest of a body\<close>

lemma drop_rest: "length new \<le> l \<Longrightarrow> xs = new @ ys \<Longrightarrow> drop l xs = drop (l - length new) ys"
  by simp

lemma skip_loop_ok:
  assumes ex: "passes_body ex pend left" and S: "delivers S (t_socket (req_socket req)) inp" and b: "body_at pend left n req"
    and enough: "left (req_parser req) \<le> length (to_come pend inp req s)"
  shows "\<exists>req' s'. skip_loop ex S req (of_nat (left (req_parser req))) c s = Some (True, req', c, s')
    \<and> to_come pend inp req' s' = drop (left (req_parser req)) (to_come pend inp req s)
    \<and> cached_bytes pend req' = drop (left (req_parser req)) (cached_bytes pend req) \<and> unat (req_body_nread req') = n"
  using S b enough
proof (induction "left (req_parser req)" arbitrary: req s rule: less_induct)
  case less
  let ?l = "left (req_parser req)"
  have l: "unat (of_nat ?l :: 64 word) = ?l" using less.prems(2) by (simp add: body_at_def unat_of_nat_addr)
  show ?case
  proof (cases "?l = 0")
    case True
    then show ?thesis using less.prems(2) by (subst skip_loop.simps) (simp add: body_at_def)
  next
    case False
    let ?k = "min (of_nat ?l) 1024 :: 64 word"
    have k: "unat ?k \<le> ?l" "?k \<noteq> 0" using l False min_unat [of "of_nat ?l" 1024] unat_gt_0 [of ?k] by auto
    obtain new req1 s1 where r: "dfk_http_request_read ex S req False ?k c s = Some (int (length new), new, req1, c, s1)"
        "body_read pend left inp n req \<lparr>out_data = [], out_size = ?k\<rparr> s new req1 s1"
      using request_read_ok [OF ex less.prems(1,2), of ?k c s] k False by blast
    have a: "left (req_parser req1) = ?l - length new" "req_socket req1 = req_socket req" "length new \<le> ?l"
        "to_come pend inp req s = new @ to_come pend inp req1 s1" "body_at pend left n req1" "new \<noteq> []"
        "cached_bytes pend req1 = drop (length new) (cached_bytes pend req)"
      using r(2) k(2) less.prems(3) False by (auto simp: body_read_def advanced_def)
    have dec: "left (req_parser req1) < ?l" using a(1,6) False by (simp add: diff_less)
    have so: "delivers S (t_socket (req_socket req1)) inp" using less.prems(1) a(2) by simp
    have le: "left (req_parser req1) \<le> length (to_come pend inp req1 s1)" using a(1,4) less.prems(3) by simp
    obtain req2 s2 where i: "skip_loop ex S req1 (of_nat (left (req_parser req1))) c s1 = Some (True, req2, c, s2)"
        "to_come pend inp req2 s2 = drop (left (req_parser req1)) (to_come pend inp req1 s1)"
        "cached_bytes pend req2 = drop (left (req_parser req1)) (cached_bytes pend req1)" "unat (req_body_nread req2) = n"
      using less.hyps [OF dec so a(5) le] by blast
    have "of_nat ?l \<noteq> (0 :: 64 word)" using l False by (metis unat_0)
    moreover have "of_nat ?l - of_int (int (length new)) = (of_nat (left (req_parser req1)) :: 64 word)"
      using a(1,3) by (simp add: of_nat_diff)
    ultimately have "skip_loop ex S req (of_nat ?l) c s = Some (True, req2, c, s2)"
      using r(1) i(1) by (subst skip_loop.simps) simp
    then show ?thesis using i a(1,3,7) drop_rest [OF a(3,4)] by simp
  qed
qed

text \<open>At the end of the stream a read gives nothing and changes nothing the loop depends on.\<close>

definition stream_ended ::
  "'p http_parser_execute \<Rightarrow> 'o os_ops \<Rightarrow> ('p \<Rightarrow> 8 word list) \<Rightarrow> ('p \<Rightarrow> nat) \<Rightarrow> ('o \<Rightarrow> 8 word list) \<Rightarrow> nat
    \<Rightarrow> 'p dfk_http_request_t \<Rightarrow> 'o \<Rightarrow> bool" where
  "stream_ended ex S pend left inp n req s \<longleftrightarrow> passes_body ex pend left \<and> delivers S (t_socket (req_socket req)) inp
     \<and> body_at pend left n req \<and> to_come pend inp req s = []"

lemma read_at_end:
  assumes "stream_ended ex S pend left inp n req s" "k \<noteq> 0" "unat k \<le> left (req_parser req)"
  shows "\<exists>req' s'. dfk_http_request_read ex S req False k c s = Some (0, [], req', c, s')
    \<and> stream_ended ex S pend left inp n req' s' \<and> left (req_parser req') = left (req_parser req)"
proof -
  have l: "0 < left (req_parser req)" using assms(2,3) unat_gt_0 [of k] by auto
  obtain new req1 s1 where r: "dfk_http_request_read ex S req False k c s = Some (int (length new), new, req1, c, s1)"
      "body_read pend left inp n req \<lparr>out_data = [], out_size = k\<rparr> s new req1 s1"
    using request_read_ok [of ex pend left S req inp n k c s] assms(1,3) l unfolding stream_ended_def by blast
  then have n: "new = []" using assms(1) by (auto simp: body_read_def stream_ended_def)
  then have "stream_ended ex S pend left inp n req1 s1" "left (req_parser req1) = left (req_parser req)"
    using r(2) assms(1) by (auto simp: body_read_def advanced_def stream_ended_def)
  then show ?thesis using r(1) n by (intro exI [of _ req1] exI [of _ s1]) simp
qed

lemma skip_loop_eof:
  assumes ret: "skip_loop ex S req k c s = Some r"
  shows "\<not> (stream_ended ex S pend left inp n req s \<and> k \<noteq> 0 \<and> unat k \<le> left (req_parser req))"
proof (rule skip_loop.raw_induct [where P = "\<lambda>ex S req k c s r. \<not> (stream_ended ex S pend left inp n req s
    \<and> k \<noteq> 0 \<and> unat k \<le> left (req_parser req))", OF _ ret], rule notI)
  fix f ex S req k c s r
  assume IH: "\<And>ex S req k c s r. f ex S req k c s = Some r \<Longrightarrow> \<not> (stream_ended ex S pend left inp n req s
      \<and> k \<noteq> 0 \<and> unat k \<le> left (req_parser req))"
    and eq: "(if k = 0 then Some (True, req, c, s) else do {
        (nread, buf, req, c, s) \<leftarrow> dfk_http_request_read ex S req False (min k 1024) c s;
        if nread < 0 then Some (False, req, c, s) else f ex S req (k - of_int nread) c s}) = Some r"
    and a: "stream_ended ex S pend left inp n req s \<and> k \<noteq> 0 \<and> unat k \<le> left (req_parser req)"
  have l: "min k 1024 \<noteq> 0" "unat (min k 1024) \<le> left (req_parser req)"
    using a unat_gt_0 [of "min k 1024"] unat_gt_0 [of k] by (auto simp: min_unat)
  obtain req1 s1 where r: "dfk_http_request_read ex S req False (min k 1024) c s = Some (0, [], req1, c, s1)"
      "stream_ended ex S pend left inp n req1 s1" "left (req_parser req1) = left (req_parser req)"
    using read_at_end [of ex S pend left inp n req s "min k 1024" c] a l by blast
  then have "f ex S req1 k c s1 = Some r" using eq a by simp
  from IH [OF this] show False using a r(2,3) by simp
qed

text \<open>The states of the loop when nothing more arrives: one read after the other.\<close>

definition read_again ::
  "'p http_parser_execute \<Rightarrow> 'o os_ops \<Rightarrow> 64 word \<Rightarrow> dfk_ctx \<Rightarrow> 'p dfk_http_request_t \<times> 'o \<Rightarrow> 'p dfk_http_request_t \<times> 'o" where
  "read_again ex S k c st = (case dfk_http_request_read ex S (fst st) False k c (snd st) of
     None \<Rightarrow> st | Some (nread, buf, req, c, s) \<Rightarrow> (req, s))"

lemma reads_for_ever:
  assumes "stream_ended ex S pend left inp n req s" "k \<noteq> 0" "unat k \<le> left (req_parser req)"
  shows "\<exists>\<sigma>. \<sigma> (0 :: nat) = (req, s) \<and> (\<forall>i. dfk_http_request_read ex S (fst (\<sigma> i)) False k c (snd (\<sigma> i))
    = Some (0, [], fst (\<sigma> (Suc i)), c, snd (\<sigma> (Suc i))))"
proof -
  define \<sigma> where "\<sigma> i = (read_again ex S k c ^^ i) (req, s)" for i
  have s0: "\<sigma> 0 = (req, s)" and suc: "\<sigma> (Suc i) = read_again ex S k c (\<sigma> i)" for i by (simp_all add: \<sigma>_def)
  have inv: "stream_ended ex S pend left inp n (fst (\<sigma> i)) (snd (\<sigma> i)) \<and> left (req_parser (fst (\<sigma> i))) = left (req_parser req)" for i
  proof (induction i)
    case (Suc i)
    obtain req' s' where "dfk_http_request_read ex S (fst (\<sigma> i)) False k c (snd (\<sigma> i)) = Some (0, [], req', c, s')"
        "stream_ended ex S pend left inp n req' s'" "left (req_parser req') = left (req_parser (fst (\<sigma> i)))"
      using read_at_end [of ex S pend left inp n "fst (\<sigma> i)" "snd (\<sigma> i)" k c] Suc assms(2,3) by auto
    then show ?case using Suc by (simp add: suc read_again_def)
  qed (simp add: s0 assms(1))
  have "dfk_http_request_read ex S (fst (\<sigma> i)) False k c (snd (\<sigma> i)) = Some (0, [], fst (\<sigma> (Suc i)), c, snd (\<sigma> (Suc i)))" for i
    using read_at_end [of ex S pend left inp n "fst (\<sigma> i)" "snd (\<sigma> i)" k c] inv [of i] assms(2,3) by (auto simp: suc read_again_def)
  then show ?thesis using s0 by (intro exI [of _ \<sigma>]) simp
qed

section \<open>Properties\<close>

text \<open>
  C18. After a request has been answered, the rest of its body is skipped exactly. The body has a known length and is not chunked, the handler has
  read some part of it, and the peer sends the whole of it without errors. Then the loop ends, all of the body counts as read, and what
  was taken is the rest of the body and nothing else: from the bytes cached with the request first, and from the socket only what
  the cache did not hold. Bytes behind the body that are in the cache stay there; they belong to this request and are not given to the next one.
\<close>

theorem skip_body_exact:
  assumes ex: "passes_body ex pend left" and S: "delivers S (t_socket (req_socket req)) inp" and b: "body_at pend left n req"
    and enough: "left (req_parser req) \<le> length (cached_bytes pend req @ inp s)"
  shows "\<exists>req' s'. skip_body ex S req c s = Some (True, req', c, s')
    \<and> cached_bytes pend req' = drop (left (req_parser req)) (cached_bytes pend req)
    \<and> inp s' = drop (left (req_parser req) - length (cached_bytes pend req)) (inp s)
    \<and> unat (req_body_nread req') = n"
proof -
  let ?l = "left (req_parser req)"
  have nr: "unat (req_body_nread req) + ?l = n" "n < 2 ^ 63" "req_content_length req = int n"
    using b by (auto simp: body_at_def)
  have si: "sint (req_body_nread req) = int (unat (req_body_nread req))" by (rule sint_small) (use nr in linarith)
  then have sint: "sint (req_body_nread req) < req_content_length req \<longleftrightarrow> 0 < ?l" using nr(1,3) by linarith
  show ?thesis
  proof (cases "?l = 0")
    case True
    then show ?thesis using nr si by (simp add: skip_body_def)
  next
    case False
    have k: "of_int (req_content_length req) - req_body_nread req = of_nat ?l"
      using body_left [OF b] by (metis of_nat_unat_addr)
    have "?l \<le> length (to_come pend inp req s)" using enough by (simp add: to_come_def)
    from skip_loop_ok [OF ex S b this, of c] obtain req' s' where l: "skip_loop ex S req (of_nat ?l) c s = Some (True, req', c, s')"
        "cached_bytes pend req' @ inp s' = drop ?l (cached_bytes pend req @ inp s)"
        "cached_bytes pend req' = drop ?l (cached_bytes pend req)" "unat (req_body_nread req') = n"
      by (auto simp: to_come_def)
    have "skip_body ex S req c s = Some (True, req', c, s')"
      using l(1) nr(2,3) sint False k nr(1) by (auto simp: skip_body_def)
    moreover have "inp s' = drop (?l - length (cached_bytes pend req)) (inp s)" using l(2,3) by simp
    ultimately show ?thesis using l(3,4) by blast
  qed
qed

theorem skip_body_exact_witness:
  "\<exists>req' s'. skip_body count_parser sample_os (sample_request [10, 7, 8, 9]) sample_ctx sample_kernel = Some (True, req', sample_ctx, s')
    \<and> cached_bytes due_first req' = [] \<and> k_input s' = [3] \<and> unat (req_body_nread req') = 5"
proof -
  have b: "body_at due_first snd 5 (sample_request [10, 7, 8, 9])" by (rule sample_body_at) simp
  have c: "cached_bytes due_first (sample_request [10, 7, 8, 9]) = [7, 8, 9]" by (simp add: cached_bytes_def due_first_def)
  from skip_body_exact [OF count_parser_passes sample_delivers b, of sample_kernel sample_ctx, unfolded c]
  show ?thesis by (simp add: sample_kernel_def)
qed

text \<open>
  C38. A client can keep a fiber busy for ever: when it ends its stream before the body is complete, the loop that skips the body does
  not end. There is an infinite sequence of states of the loop, in each of which the read returns 0 and the number of bytes to skip
  stays as it is, so that the loop in one state is the loop in the next one; no assertion fails on the way, and there is no result.
\<close>

theorem skip_body_diverges:
  assumes ex: "passes_body ex pend left" and S: "delivers S (t_socket (req_socket req)) inp" and b: "body_at pend left n req"
    and l: "0 < left (req_parser req)" and eof: "to_come pend inp req s = []"
  defines "k \<equiv> of_int (req_content_length req) - req_body_nread req"
  shows "\<exists>\<sigma>. \<sigma> (0 :: nat) = (req, s) \<and> k \<noteq> 0 \<and> skip_body ex S req c s = skip_loop ex S req k c s
    \<and> (\<forall>i. dfk_http_request_read ex S (fst (\<sigma> i)) False (min k 1024) c (snd (\<sigma> i)) = Some (0, [], fst (\<sigma> (Suc i)), c, snd (\<sigma> (Suc i)))
      \<and> skip_loop ex S (fst (\<sigma> i)) k c (snd (\<sigma> i)) = skip_loop ex S (fst (\<sigma> (Suc i))) k c (snd (\<sigma> (Suc i))))
    \<and> skip_body ex S req c s = None"
proof -
  have nr: "unat (req_body_nread req) + left (req_parser req) = n" "n < 2 ^ 63" "req_content_length req = int n"
    using b by (auto simp: body_at_def)
  have si: "sint (req_body_nread req) = int (unat (req_body_nread req))" by (rule sint_small) (use nr in linarith)
  have k: "unat k = left (req_parser req)" unfolding k_def by (rule body_left [OF b])
  then have k0: "k \<noteq> 0" using l by auto
  have e: "stream_ended ex S pend left inp n req s" using ex S b eof by (simp add: stream_ended_def)
  have m: "min k 1024 \<noteq> 0" "unat (min k 1024) \<le> left (req_parser req)"
    using k l unat_gt_0 [of "min k 1024"] by (auto simp: min_unat)
  obtain \<sigma> where \<sigma>: "\<sigma> (0 :: nat) = (req, s)" "\<And>i. dfk_http_request_read ex S (fst (\<sigma> i)) False (min k 1024) c (snd (\<sigma> i))
      = Some (0, [], fst (\<sigma> (Suc i)), c, snd (\<sigma> (Suc i)))"
    using reads_for_ever [OF e m] by blast
  have same: "skip_loop ex S (fst (\<sigma> i)) k c (snd (\<sigma> i)) = skip_loop ex S (fst (\<sigma> (Suc i))) k c (snd (\<sigma> (Suc i)))" for i
    by (subst skip_loop.simps) (simp add: k0 \<sigma>(2))
  have "skip_loop ex S req k c s = None"
    using skip_loop_eof [of ex S req k c s _ pend left inp n] e k k0 by (cases "skip_loop ex S req k c s") auto
  moreover have "sint (req_body_nread req) < req_content_length req" "0 < req_content_length req" using nr si l by linarith+
  then have "skip_body ex S req c s = skip_loop ex S req k c s" by (simp add: skip_body_def k_def)
  ultimately show ?thesis using \<sigma> same k0 by (intro exI [of _ \<sigma>]) simp
qed

definition closed_kernel :: kernel where
  "closed_kernel = sample_kernel\<lparr>k_input := []\<rparr>"

theorem skip_body_diverges_witness:
  "skip_body count_parser sample_os (sample_request [10]) sample_ctx closed_kernel = None"
proof -
  have b: "body_at due_first snd 5 (sample_request [10])" by (rule sample_body_at) simp
  have t: "to_come due_first k_input (sample_request [10]) closed_kernel = []"
    by (simp add: to_come_def cached_bytes_def due_first_def closed_kernel_def)
  from skip_body_diverges [OF count_parser_passes sample_delivers b _ t, of sample_ctx] show ?thesis by auto
qed

text \<open>
  The answer of a handler that has not written anything: the headers the handler has set, then \<^verbatim>\<open>Connection\<close> with the decision of the
  server and \<^verbatim>\<open>Content-Length: 0\<close> are sent in one header block. A value the handler has set for one of the two headers is kept,
  also when it contradicts what the server does with the connection; a content length the handler has announced in the
  response object is not. The send buffer of the descriptor has room for the header block.
\<close>

theorem finish_response_headers:
  assumes ok: "response_ok env w resp (128 + (180 + 64 * (card (dom hm) + 2))) hm"
    and keys: "keys_ok ({DFK_HTTP_CONNECTION, DFK_HTTP_CONTENT_LENGTH} \<union> dom hm)"
    and resp: "\<not> resp_headers_flushed resp" "c_int (resp_status resp)" "resp_mock resp = None"
    and os: "sends S (t_socket (resp_socket resp)) snt" "polls_requested S" "buffered S (t_socket (resp_socket resp)) room"
    and room: "block_size resp (put_first DFK_HTTP_CONTENT_LENGTH (str ''0'')
        (put_first DFK_HTTP_CONNECTION (if keepalive then str ''Keep-Alive'' else str ''close'') hm)) \<le> room (hw_os w)"
  shows "\<exists>w' resp' hdrs. finish_response env S w resp keepalive = Some (w', resp')
    \<and> snt (hw_os w') = snt (hw_os w) @ header_block resp hdrs
    \<and> map_of hdrs = put_first DFK_HTTP_CONTENT_LENGTH (str ''0'')
        (put_first DFK_HTTP_CONNECTION (if keepalive then str ''Keep-Alive'' else str ''close'') hm)"
proof -
  let ?v = "if \<not> keepalive then str ''close'' else str ''Keep-Alive''"
  let ?m1 = "put_first DFK_HTTP_CONNECTION ?v hm" let ?m2 = "put_first DFK_HTTP_CONTENT_LENGTH (str ''0'') ?m1"
  let ?n = "180 + 64 * (card (dom hm) + 2)"
  have len: "?v \<noteq> []" "length ?v < 2 ^ 62" "str ''0'' \<noteq> []" "length (str ''0'') < 2 ^ 62"
      "length DFK_HTTP_CONNECTION < 2 ^ 62" "length DFK_HTTP_CONTENT_LENGTH < 2 ^ 62"
    by (simp_all add: str_def DFK_HTTP_CONNECTION_def DFK_HTTP_CONTENT_LENGTH_def)
  have "keys_ok (insert DFK_HTTP_CONNECTION (dom hm))" by (rule keys_ok_mono [OF keys]) auto
  then obtain w1 r1 where 1: "dfk_http_response_set env w resp DFK_HTTP_CONNECTION ?v = Some (w1, r1, dfk_err_ok)"
      "response_ok env w1 r1 (64 + ?n) ?m1" "only_headers w resp w1 r1"
    using plain_set.put_law [of env w resp "64 + ?n" hm DFK_HTTP_CONNECTION ?v] ok len by (auto simp: add.assoc)
  have "keys_ok (insert DFK_HTTP_CONTENT_LENGTH (dom ?m1))" by (rule keys_ok_mono [OF keys]) auto
  then obtain w2 r2 where 2: "dfk_http_response_set env w1 r1 DFK_HTTP_CONTENT_LENGTH (str ''0'') = Some (w2, r2, dfk_err_ok)"
      "response_ok env w2 r2 ?n ?m2" "only_headers w1 r1 w2 r2"
    using plain_set.put_law [of env w1 r1 ?n ?m1 DFK_HTTP_CONTENT_LENGTH "str ''0''"] 1(2) len by auto
  have "card (dom ?m2) \<le> card (dom hm) + 2"
    by (cases "finite (dom hm)") (auto simp: card_insert_if)
  then have ok2: "response_ok env w2 r2 (flush_cost ?m2 + 0) ?m2" using response_ok_mono [OF 2(2)] by (simp add: flush_cost_def)
  note o = only_headersD [OF only_headers_trans [OF 1(3) 2(3)]]
  have "keys_ok (insert DFK_HTTP_CONTENT_LENGTH (dom ?m2))" by (rule keys_ok_mono [OF keys]) auto
  then obtain w3 r3 v hdrs where 3: "dfk__http_response_flush_headers env S w2 r2 = do {
        (w', resp', r) \<leftarrow> dfk__mocked_writev env S w3 r3 v;
        Some (w', resp'\<lparr>resp_headers_flushed := True\<rparr>, dfk_err_ok)}" "only_headers w2 r2 w3 r3"
      "map_of hdrs = sent_headers r2 ?m2" "concat v = header_block r2 hdrs" "[] \<notin> set v" "v \<noteq> []"
      "descending (map fst hdrs)"
    using flush_vector [OF ok2, of S] resp o by auto
  have same: "sent_headers r2 ?m2 = ?m2" "header_block r2 hdrs = header_block resp hdrs"
    using o(6) by (auto simp: sent_headers_def put_first_def header_block_def)
  note o3 = only_headersD [OF 3(2)]
  have hs: "map_of hdrs = ?m2" using 3(3) same(1) by simp
  have "concat v = header_block resp hdrs" using 3(4) same(2) by simp
  then have fit: "length (concat v) \<le> room (hw_os w)"
    using room header_block_size [OF 3(7) hs, of resp] by (cases keepalive) simp_all
  have r3: "resp_socket r3 = resp_socket resp" "resp_mock r3 = None" "hw_os w3 = hw_os w" using o o3 resp by auto
  obtain n c' s' p where v: "dfk__mocked_writev env S w3 r3 v = Some (w3\<lparr>hw_ctx := c', hw_os := s'\<rparr>, r3, n)"
      "snt s' = snt (hw_os w) @ p" "p = concat v"
    using socket_writev_part [of S r3 snt v env w3, unfolded r3, OF os(1,2) refl 3(6,5)] os(3) fit by blast
  have "finish_response env S w resp keepalive = Some (w3\<lparr>hw_ctx := c', hw_os := s'\<rparr>, r3\<lparr>resp_headers_flushed := True\<rparr>)"
    using 1(1) 2(1) 3(1) v(1) by (simp add: finish_response_def DFK_HTTP_CONTENT_LENGTH_def)
  with v(2,3) 3(4) hs same(2) show ?thesis
    by (intro exI [of _ "w3\<lparr>hw_ctx := c', hw_os := s'\<rparr>"] exI [of _ "r3\<lparr>resp_headers_flushed := True\<rparr>"] exI [of _ hdrs])
      (simp add: if_distrib)
qed

theorem finish_response_headers_witness:
  "\<exists>w resp w' resp' hdrs. dfk__http_response_init w 1 1 \<lparr>t_socket = 3\<rparr> 1 = Some resp
    \<and> finish_response small_env reliable_os w resp False = Some (w', resp')
    \<and> k_sent (hw_os w') = header_block resp hdrs
    \<and> map_of hdrs = [str ''Connection'' \<mapsto> str ''close'', str ''Content-Length'' \<mapsto> str ''0'']"
proof -
  obtain st arena s regs where a: "arena_inv small_env st arena [s] [] regs" "arena_room st [s] 40000"
    by (rule small_arena_room) blast
  let ?w = "world_of st arena"
  obtain resp where i: "dfk__http_response_init ?w 1 1 \<lparr>t_socket = 3\<rparr> 1 = Some resp"
    using strmap_init_spec [of "hw_hooks ?w" "hw_items ?w"] by (auto simp: dfk__http_response_init_def)
  then have st: "resp_status resp = 200" by (auto simp: dfk__http_response_init_def bind_eq_Some_conv)
  have "arena_inv small_env (sm_arena (hw_mem ?w)) (hw_arena ?w) [s] [] regs" "arena_room (sm_arena (hw_mem ?w)) [s] 40000"
    using a by (simp_all add: world_of_def)
  note r = response_init_ok [OF this i]
  have keys: "keys_ok ({DFK_HTTP_CONNECTION, DFK_HTTP_CONTENT_LENGTH} \<union> dom Map.empty)"
    by (simp add: keys_ok_def DFK_HTTP_CONNECTION_def DFK_HTTP_CONTENT_LENGTH_def str_def)
  have ok: "response_ok small_env ?w resp (128 + (180 + 64 * (card (dom Map.empty) + 2))) Map.empty"
    by (rule response_ok_mono [OF r(1)]) simp
  have k0: "k_sent (hw_os ?w) @ x = x" for x by (simp add: world_of_def sample_kernel_def)
  have ln: "length (status_line resp) < 128" by (rule status_line_length) (simp add: st c_int_def)
  have room: "block_size resp (put_first DFK_HTTP_CONTENT_LENGTH (str ''0'') (put_first DFK_HTTP_CONNECTION
      (if False then str ''Keep-Alive'' else str ''close'') Map.empty)) \<le> send_room (hw_os ?w)"
    using ln by (simp add: block_size_def put_first_def DFK_HTTP_CONNECTION_def DFK_HTTP_CONTENT_LENGTH_def str_def send_room_def
        world_of_def sample_kernel_def)
  obtain w' resp' hdrs where "finish_response small_env reliable_os ?w resp False = Some (w', resp')"
      "k_sent (hw_os w') = header_block resp hdrs"
      "map_of hdrs = put_first DFK_HTTP_CONTENT_LENGTH (str ''0'') (put_first DFK_HTTP_CONNECTION (str ''close'') Map.empty)"
    using finish_response_headers [where room = send_room and snt = k_sent and S = reliable_os and keepalive = False, OF ok keys r(3) _ r(2)
        reliable_os_writes reliable_os_buffered room] st by (auto simp: c_int_def k0)
  moreover have "put_first DFK_HTTP_CONTENT_LENGTH (str ''0'') (put_first DFK_HTTP_CONNECTION (str ''close'') Map.empty)
      = [str ''Connection'' \<mapsto> str ''close'', str ''Content-Length'' \<mapsto> str ''0'']"
    by (simp add: put_first_def DFK_HTTP_CONNECTION_def DFK_HTTP_CONTENT_LENGTH_def str_def)
  ultimately show ?thesis using i by metis
qed

text \<open>
  When a connection is kept open after a request: the handler has not refused, the limit of requests per connection is not
  reached, and the client wants it. Without a \<^verbatim>\<open>Connection\<close> header the client wants it unless it speaks HTTP/1.0. A header value counts
  as \<^verbatim>\<open>Keep-Alive\<close> or as \<^verbatim>\<open>close\<close> when one of the two texts is a prefix of the other, in exactly this case; any other value
  counts as a wish to keep the connection, for HTTP/1.0 too.
\<close>

theorem keepalive_decision:
  assumes "0 \<notin> set v"
  shows "keepalive_after http nrequests (requested_keepalive True v req) resp \<longleftrightarrow>
    resp_keepalive resp \<and> (http_keepalive_requests http < 0 \<or> nrequests + 1 < http_keepalive_requests http)
    \<and> (let like = (\<lambda>t. prefix v t \<or> prefix t v) in
       if v = [] then \<not> (req_major_version req = 1 \<and> req_minor_version req = 0)
       else like (str ''Keep-Alive'') \<or> \<not> like (str ''close''))"
proof -
  have c: "strncmp v t (min (length v) (length t)) = 0 \<longleftrightarrow> prefix v t \<or> prefix t v" for t
    by (rule cmp_min_zero [OF assms])
  have len: "length (str ''close'') = 5" "length (str ''Keep-Alive'') = 10" by (simp_all add: str_def)
  show ?thesis
    using c [of "str ''close''"] c [of "str ''Keep-Alive''"] unfolding len
    by (auto simp: keepalive_after_def requested_keepalive_def Let_def)
qed

definition sample_response :: dfk_http_response_t where
  "sample_response = \<lparr>resp_socket = \<lparr>t_socket = 3\<rparr>, resp_mock = None, resp_headers_flushed = False,
     resp_major_version = 1, resp_minor_version = 0, resp_status = 200, resp_content_length = -1, resp_chunked = False,
     resp_keepalive = True, resp_headers = \<lparr>strmap_cont = \<lparr>avl_root = NULL, avl_cmp = \<lambda>_ _. 0, avl_size = 0\<rparr>\<rparr>\<rparr>"

theorem keepalive_decision_witness:
  "keepalive_after sample_http 0 (requested_keepalive True (str ''keep-alive'') ((sample_request [])\<lparr>req_minor_version := 0\<rparr>)) sample_response
   \<and> \<not> keepalive_after sample_http 0 (requested_keepalive True (str ''c'') (sample_request [])) sample_response"
  using keepalive_decision [of "str ''keep-alive''" sample_http 0 "(sample_request [])\<lparr>req_minor_version := 0\<rparr>" sample_response]
    keepalive_decision [of "str ''c''" sample_http 0 "sample_request []" sample_response]
  by (simp add: sample_http_def sample_response_def str_def)

text \<open>The number of requests after one round, and when there is another.\<close>

lemma bind_SomeE: "Option.bind f g = Some x \<Longrightarrow> (\<And>y. f = Some y \<Longrightarrow> g y = Some x \<Longrightarrow> P) \<Longrightarrow> P"
  by (auto simp: bind_eq_Some_conv)

lemma keepalive_after_limit:
  "keepalive_after http n ka resp \<Longrightarrow> 0 \<le> http_keepalive_requests http \<Longrightarrow> n + 1 < http_keepalive_requests http"
  by (auto simp: keepalive_after_def Let_def split: if_splits)

lemma answer_counts:
  assumes "answer_request env S ops http sock req (ka, n, conn, w) = Some (req', ka', n', conn', w')"
  shows "n' \<le> n + 1 \<and> (ka' \<and> 0 \<le> http_keepalive_requests http \<longrightarrow> n' = n + 1 \<and> n + 1 < http_keepalive_requests http)"
  using assms unfolding answer_request_def Let_def prod.case
  by (elim bind_SomeE) (auto dest: keepalive_after_limit split: if_splits prod.splits elim!: bind_SomeE)

lemma request_counts:
  assumes "protocol_request env S ops http sock (ka, n, conn, w) = Some (ka', n', conn', w')"
  shows "n' \<le> n + 1" "ka' \<and> 0 \<le> http_keepalive_requests http \<Longrightarrow> n' = n + 1 \<and> n + 1 < http_keepalive_requests http"
proof -
  obtain err req w1 cn where r: "(if err \<noteq> dfk_err_ok then Some (req, False, n, conn, w1)
      else answer_request env S ops http sock req (ka, n, conn, w1)) = Some cn"
      "fst (snd cn) = ka'" "fst (snd (snd cn)) = n'"
    using assms unfolding protocol_request_def prod.case Let_def
    by (elim bind_SomeE) (simp split: prod.splits, elim bind_SomeE, fastforce split: prod.splits elim!: bind_SomeE)
  obtain req' conn1 w2 where cn: "cn = (req', ka', n', conn1, w2)" using r(2,3) by (cases cn) auto
  have "n' \<le> n + 1 \<and> (ka' \<and> 0 \<le> http_keepalive_requests http \<longrightarrow> n' = n + 1 \<and> n + 1 < http_keepalive_requests http)"
  proof (cases "err = dfk_err_ok")
    case True
    then show ?thesis using r(1) cn answer_counts by simp
  next
    case False
    then show ?thesis using r(1) cn by simp
  qed
  then show "n' \<le> n + 1" "ka' \<and> 0 \<le> http_keepalive_requests http \<Longrightarrow> n' = n + 1 \<and> n + 1 < http_keepalive_requests http" by blast+
qed

text \<open>
  The loop as it is unrolled: \<open>serve_requests k\<close> deals with \<open>k\<close> requests one after the other, the loop condition being true before each of
  them.
\<close>

primrec serve_requests ::
  "nat \<Rightarrow> dfk_env \<Rightarrow> 'o os_ops \<Rightarrow> ('p, 'o) protocol_ops \<Rightarrow> dfk_http_t \<Rightarrow> dfk_tcp_socket_t \<Rightarrow> 'o connection \<Rightarrow> 'o connection option" where
  "serve_requests 0 env S ops http sock cn = Some cn"
| "serve_requests (Suc k) env S ops http sock cn = do {
     cn \<leftarrow> serve_requests k env S ops http sock cn;
     if fst cn then protocol_request env S ops http sock cn else None
   }"

lemma inc_induct_stop:
  assumes "P (0 :: nat)" "\<not> P m"
  obtains k where "k < m" "P k" "\<not> P (Suc k)"
  using assms by (induction m) (auto intro: less_SucI)

lemma serve_requests_loop:
  "serve_requests k env S ops http sock cn = Some cn' \<Longrightarrow> protocol_loop env S ops http sock cn = protocol_loop env S ops http sock cn'"
proof (induction k arbitrary: cn')
  case (Suc k)
  then obtain cn1 where 1: "serve_requests k env S ops http sock cn = Some cn1" "fst cn1" "protocol_request env S ops http sock cn1 = Some cn'"
    by (auto simp: bind_eq_Some_conv split: if_splits)
  then show ?case using Suc.IH [OF 1(1)] by (simp add: protocol_loop.simps [of env S ops http sock cn1])
qed simp

lemma serve_requests_counts:
  assumes "serve_requests k env S ops http sock (True, 0, conn, w) = Some (ka, n, conn', w')" "0 \<le> http_keepalive_requests http"
  shows "n \<le> int k \<and> (ka \<longrightarrow> n = int k \<and> (k = 0 \<or> int k < http_keepalive_requests http))"
  using assms(1)
proof (induction k arbitrary: ka n conn' w')
  case (Suc k)
  then obtain n1 conn1 w1 where 1: "serve_requests k env S ops http sock (True, 0, conn, w) = Some (True, n1, conn1, w1)"
      "protocol_request env S ops http sock (True, n1, conn1, w1) = Some (ka, n, conn', w')"
    by (auto simp: bind_eq_Some_conv split: if_splits)
  show ?case using Suc.IH [OF 1(1)] request_counts [OF 1(2)] assms(2) by auto
qed simp

text \<open>
  C16. The limit on the requests of a connection is kept. With a limit that is not negative (a negative one means that there is
  none), and whatever the parser, the handler and the system do, the loop deals with at most as many requests as the limit says, but at least with
  one, also when the limit is 0: either it ends after \<open>k\<close> of them, with as many requests answered or one less when the last one
  failed, or the call for one of them does not return and neither does the loop.
\<close>

theorem connection_bounded:
  assumes "0 \<le> http_keepalive_requests http"
  shows "\<exists>k cn. int k \<le> max 1 (http_keepalive_requests http) \<and> serve_requests k env S ops http sock (True, 0, conn, w) = Some cn
    \<and> ((\<exists>n conn' w'. 0 < k \<and> cn = (False, n, conn', w') \<and> n \<le> int k \<and> protocol_loop env S ops http sock (True, 0, conn, w) = Some cn)
      \<or> (fst cn \<and> int k < max 1 (http_keepalive_requests http) \<and> protocol_request env S ops http sock cn = None
          \<and> protocol_loop env S ops http sock (True, 0, conn, w) = None))"
proof -
  let ?l = "http_keepalive_requests http" and ?run = "\<lambda>k. serve_requests k env S ops http sock (True, 0, conn, w)"
  define m where "m = nat (max 1 ?l)"
  have m: "int m = max 1 ?l" "0 < m" by (simp_all add: m_def)
  have bound: "int k < max 1 ?l" if "?run k = Some cn" "fst cn" for k cn
    using serve_requests_counts [of k env S ops http sock conn w] that assms by (cases cn) fastforce
  have "\<not> (\<exists>cn. ?run m = Some cn \<and> fst cn)" using bound m(1) by fastforce
  moreover have "\<exists>cn. ?run 0 = Some cn \<and> fst cn" by simp
  ultimately obtain k where k: "k < m" "\<exists>cn. ?run k = Some cn \<and> fst cn" "\<not> (\<exists>cn. ?run (Suc k) = Some cn \<and> fst cn)"
    using inc_induct_stop [of "\<lambda>k. \<exists>cn. ?run k = Some cn \<and> fst cn" m] by blast
  then obtain cn where cn: "?run k = Some cn" "fst cn" by blast
  have loop: "protocol_loop env S ops http sock (True, 0, conn, w) = do {
      cn \<leftarrow> protocol_request env S ops http sock cn; protocol_loop env S ops http sock cn}"
    unfolding serve_requests_loop [OF cn(1)] by (subst protocol_loop.simps) (simp add: cn(2))
  show ?thesis
  proof (cases "protocol_request env S ops http sock cn")
    case None
    then show ?thesis using cn loop bound [OF cn] by (intro exI [of _ k] exI [of _ cn]) simp
  next
    case (Some cn')
    obtain ka n conn' w' where c: "cn' = (ka, n, conn', w')" by (cases cn')
    have run: "?run (Suc k) = Some cn'" using cn Some by simp
    then have ka: "\<not> ka" using k(3) c by auto
    then have "protocol_loop env S ops http sock (True, 0, conn, w) = Some cn'"
      using loop Some c ka protocol_loop.simps [of env S ops http sock cn'] by simp
    moreover have "n \<le> int (Suc k)" using serve_requests_counts run assms unfolding c by blast
    moreover have "int (Suc k) \<le> max 1 ?l" using k(1) m(1) by linarith
    ultimately show ?thesis using run ka c by (intro exI [of _ "Suc k"] exI [of _ cn']) simp
  qed
qed

text \<open>A server without memory.\<close>

definition idle_ops :: "(count_state, kernel) protocol_ops" where
  "idle_ops = \<lparr>op_handler = (\<lambda>req resp conn w. Some (dfk_err_ok, req, resp, conn, w)), op_parser = idle_parser, op_header_max = 8192\<rparr>"

lemma fresh_arena_free: "\<exists>st' arena' calls. dfk_arena_free env st fresh_arena = Some (st', arena', calls)"
proof -
  have r: "list_rep (am_hooks st) \<lparr>list_head = NULL, list_tail = NULL, list_size = 0\<rparr> []" by (simp add: list_rep_Nil)
  have "arena_release env st \<lparr>list_head = NULL, list_tail = NULL, list_size = 0\<rparr>
      = Some (st, \<lparr>list_head = NULL, list_tail = NULL, list_size = 0\<rparr>)"
    using list_empty_spec [OF r] by (subst arena_release.simps) simp
  then show ?thesis
    using list_begin_spec [OF r] list_end_spec [OF r] arena_cleanups_spec [of st _ "[]" "[]"] r
    by (simp add: dfk_arena_free_def)
qed

lemma no_memory_request:
  "\<exists>cn'. protocol_request no_memory S idle_ops (sample_http\<lparr>http_keepalive_requests := lim\<rparr>) sock cn = Some cn'"
proof -
  let ?http = "sample_http\<lparr>http_keepalive_requests := lim\<rparr>"
  obtain ka n conn w where cn: "cn = (ka, n, conn, w)" by (cases cn)
  let ?e = "\<lparr>list_head = NULL, list_tail = NULL, list_size = 0\<rparr>"
  have f: "dfk_arena_init st = Some fresh_arena" "dfk_list_init h = Some ?e" for st h
    by (simp_all add: dfk_arena_init_def dfk_list_init_def dfk__list_check_invariants_def)
  have r: "list_rep h ?e []" for h by (simp add: list_rep_Nil)
  obtain smap where s: "dfk_strmap_init (hw_hooks w) (hw_items w) = Some smap" using strmap_init_spec by blast
  have m: "dfk__malloc no_memory heap 16384 = Some (heap, NULL)" for heap by (simp add: dfk__malloc_def no_memory_def)
  have h: "with_heap w (hw_heap w) = w" for w :: "kernel http_world" by (simp add: with_heap_def)
  obtain req where i: "dfk__http_request_init idle_parser (w\<lparr>hw_arena := fresh_arena\<rparr>) sock = Some req" "req_buffers req = ?e"
    using f s by (auto simp: dfk__http_request_init_def)
  have rd: "dfk__http_request_read_headers no_memory S idle_parser ?http 8192 req w'
      = Some (dfk_err_nomem, req\<lparr>req_parser := at_start\<rparr>, w')" for w'
    by (simp add: dfk__http_request_read_headers_def dfk__http_request_allocate_headers_buf_def m sample_http_def idle_parser_def h)
  have fr: "dfk__http_request_free no_memory (req\<lparr>req_parser := at_start\<rparr>) w' = Some w'" for w' :: "kernel http_world"
    using i(2) list_begin_spec [OF r] list_end_spec [OF r] list_it_equal_spec [OF r]
    by (simp add: dfk__http_request_free_def) (subst request_free_loop.simps, simp)
  show ?thesis
    using f i rd fr fresh_arena_free [of no_memory "sm_arena (hw_mem w)"]
    by (auto simp: cn protocol_request_def idle_ops_def)
qed

theorem connection_bounded_witness:
  "\<exists>n conn' w'. serve_requests 1 no_memory sample_os idle_ops (sample_http\<lparr>http_keepalive_requests := 0\<rparr>) \<lparr>t_socket = 3\<rparr>
      (True, 0, fresh_arena, world_of fresh_arena_mem fresh_arena) = Some (False, n, conn', w')
    \<and> protocol_loop no_memory sample_os idle_ops (sample_http\<lparr>http_keepalive_requests := 0\<rparr>) \<lparr>t_socket = 3\<rparr>
      (True, 0, fresh_arena, world_of fresh_arena_mem fresh_arena) = Some (False, n, conn', w') \<and> n \<le> 1"
proof -
  let ?http = "sample_http\<lparr>http_keepalive_requests := 0\<rparr>" and ?sock = "\<lparr>t_socket = 3\<rparr>"
    and ?cn = "(True, 0, fresh_arena, world_of fresh_arena_mem fresh_arena)"
  have l: "0 \<le> http_keepalive_requests ?http" and m: "max 1 (http_keepalive_requests ?http) = 1" by simp_all
  have returns: "protocol_request no_memory sample_os idle_ops ?http ?sock cn \<noteq> None" for cn
    using no_memory_request [of sample_os 0 ?sock cn] by auto
  from connection_bounded [OF l, of no_memory sample_os idle_ops ?sock fresh_arena "world_of fresh_arena_mem fresh_arena", unfolded m]
  obtain k n conn' w' where k: "int k \<le> 1" "serve_requests k no_memory sample_os idle_ops ?http ?sock ?cn = Some (False, n, conn', w')"
      "0 < k" "n \<le> int k" "protocol_loop no_memory sample_os idle_ops ?http ?sock ?cn = Some (False, n, conn', w')"
    using returns by blast
  have "k = 1" using k(1,3) by simp
  then show ?thesis using k(2,4,5) by (intro exI [of _ n] exI [of _ conn'] exI [of _ w'] conjI) simp_all
qed

end
