(* ===== verification/Dfk_Eventloop.thy ===== *)
theory Dfk_Eventloop
  imports Dfk_Arena Dfk_Sched_Inv Dfk_Socket
begin

text \<open>
  The two back ends of the event loop: \<^verbatim>\<open>src/epoll.c\<close> and \<^verbatim>\<open>src/select.c\<close>, over the scheduler and the intrusive list. The
  scheduler model has the event loop as an abstract step that resumes some of the fibers that wait (\<open>io_ready\<close>); here it is shown
  which fibers each back end resumes, and that it does so by such a step.

  The loop of \<^verbatim>\<open>dfk__eventloop_main\<close> is split where it hands the processor over. The fibers registered are the
  field \<open>io_fibers\<close> of the scheduler model, which the code does not have: what it has is the list of descriptors
  or the interest list of the kernel.
\<close>

section \<open>The end of a round\<close>

text \<open>The loop goes on with its next statement, has handed the processor over, or has been left.\<close>

datatype loop_next = Goes_on | Switched | Left_loop

abbreviation EINTR :: errno where
  "EINTR \<equiv> E_other 4"

definition loop_suspend :: "dfk_world \<Rightarrow> dfk_world option" where
  "loop_suspend w = dfk_yield w (dfk__this_fiber w) (s_fiber (sched w))"

section \<open>The back end on epoll\<close>

record dfk_epoll_arg_t =
  ep_yieldback :: fiber
  ep_events :: io_events
  ep_fd :: fd

record dfk_eventloop_t =
  epoll_fd :: fd

text \<open>\<open>p_wait\<close> gives the number of events and the events, each with the argument that was registered with it.\<close>

record 'o epoll_os =
  p_create :: "'o \<Rightarrow> int \<times> 'o"
  p_wait :: "fd \<Rightarrow> nat \<Rightarrow> 'o \<Rightarrow> int \<times> (io_events \<times> addr) list \<times> 'o"
  p_del :: "fd \<Rightarrow> fd \<Rightarrow> 'o \<Rightarrow> int \<times> 'o"

definition dfk__eventloop_init ::
  "'o os_ops \<Rightarrow> 'o epoll_os \<Rightarrow> dfk_ctx \<Rightarrow> dfk_eventloop_t \<Rightarrow> 'o \<Rightarrow> dfk_error_e \<times> dfk_eventloop_t \<times> dfk_ctx \<times> 'o" where
  "dfk__eventloop_init S P c epoll s = (case p_create P s of (fd, s) \<Rightarrow>
     if fd = -1 then (dfk_err_sys, epoll, error_syscall S c s, s) else (dfk_err_ok, epoll\<lparr>epoll_fd := fd\<rparr>, c, s))"

definition dfk__eventloop_free :: "'o os_ops \<Rightarrow> dfk_ctx \<Rightarrow> dfk_eventloop_t \<Rightarrow> 'o \<Rightarrow> (dfk_error_e \<times> dfk_ctx \<times> 'o) option" where
  "dfk__eventloop_free S c epoll s = do {
     c_assert (epoll_fd epoll \<noteq> 0);
     let (ret, s) = os_close S (epoll_fd epoll) s;
     Some (if ret < 0 then (dfk_err_sys, error_syscall S c s, s) else (dfk_err_ok, c, s))
   }"

text \<open>The fibers whose events have been reported. A failure to unregister a descriptor ends the inner loop only.\<close>

fun epoll_ready_loop ::
  "'o os_ops \<Rightarrow> 'o epoll_os \<Rightarrow> fd \<Rightarrow> (io_events \<times> addr) list \<Rightarrow> dfk_epoll_arg_t mem \<Rightarrow> dfk_world \<Rightarrow> dfk_ctx \<Rightarrow> 'o
    \<Rightarrow> (dfk_epoll_arg_t mem \<times> dfk_world \<times> dfk_ctx \<times> 'o) option" where
  "epoll_ready_loop S P fd [] args w c s = Some (args, w, c, s)"
| "epoll_ready_loop S P fd ((events, a) # ready) args w c s = do {
     arg \<leftarrow> load args a;
     let args = args(a \<mapsto> arg\<lparr>ep_events := events\<rparr>);
     w \<leftarrow> dfk__ioresume w (ep_yieldback arg);
     let (ret, s) = p_del P fd (ep_fd arg) s;
     if ret = -1 then Some (args, w, error_syscall S c s, s)
     else epoll_ready_loop S P fd ready args w c s
   }"

definition epoll_round ::
  "'o os_ops \<Rightarrow> 'o epoll_os \<Rightarrow> dfk_eventloop_t \<Rightarrow> dfk_epoll_arg_t mem \<Rightarrow> dfk_world \<Rightarrow> dfk_ctx \<Rightarrow> 'o
    \<Rightarrow> (loop_next \<times> dfk_epoll_arg_t mem \<times> dfk_world \<times> dfk_ctx \<times> 'o) option" where
  "epoll_round S P epoll args w c s = do {
     c_assert (epoll_fd epoll \<noteq> 0);
     let (nfd, fds, s) = p_wait P (epoll_fd epoll) 64 s;
     if nfd = -1 then Some (if os_errno S s = EINTR then (Goes_on, args, w, c, s) else (Left_loop, args, w, error_syscall S c s, s))
     else if nfd = 0 then do {
       w \<leftarrow> loop_suspend w;
       Some (Switched, args, w, c, s)
     } else do {
       c_assert (nat nfd \<le> length fds);
       (args, w, c, s) \<leftarrow> epoll_ready_loop S P (epoll_fd epoll) (take (nat nfd) fds) args w c s;
       w \<leftarrow> loop_suspend w;
       Some (Switched, args, w, c, s)
     }
   }"

section \<open>The back end on select\<close>

definition SELECT_IO_IN :: io_events where "SELECT_IO_IN = 1"
definition SELECT_IO_OUT :: io_events where "SELECT_IO_OUT = 2"
definition SELECT_IO_ERR :: io_events where "SELECT_IO_ERR = 4"

record dfk_fdlist_element_t =
  e_fd :: fd
  e_events :: io_events
  e_yieldback :: fiber

text \<open>The elements lie on the stacks of the fibers that wait, each with a hook; the list is the one of the loop.\<close>

record select_loop =
  sl_hooks :: hooks
  sl_elems :: "dfk_fdlist_element_t mem"
  sl_fds :: dfk_list_t
  sl_world :: dfk_world

record fd_sets =
  readfds :: "fd set"
  writefds :: "fd set"
  exceptfds :: "fd set"

text \<open>A descriptor outside of a set's range is an access behind its end.\<close>

definition FD_SETSIZE :: int where "FD_SETSIZE = 1024"

definition fd_in_range :: "fd \<Rightarrow> bool" where
  "fd_in_range fd \<longleftrightarrow> 0 \<le> fd \<and> fd < FD_SETSIZE"

definition dfk__eventloop_init_s :: "select_loop \<Rightarrow> select_loop option" where
  "dfk__eventloop_init_s st = do {
     l \<leftarrow> dfk_list_init (sl_hooks st);
     Some (st\<lparr>sl_fds := l\<rparr>)
   }"

definition add_to_sets :: "dfk_fdlist_element_t \<Rightarrow> fd_sets \<Rightarrow> fd_sets" where
  "add_to_sets e sets = sets\<lparr>
     readfds := (if e_events e AND SELECT_IO_IN \<noteq> 0 then insert (e_fd e) (readfds sets) else readfds sets),
     writefds := (if e_events e AND SELECT_IO_OUT \<noteq> 0 then insert (e_fd e) (writefds sets) else writefds sets),
     exceptfds := insert (e_fd e) (exceptfds sets)\<rparr>"

partial_function (option) collect_fds ::
  "select_loop \<Rightarrow> dfk_list_it \<Rightarrow> dfk_list_it \<Rightarrow> fd_sets \<Rightarrow> fd \<Rightarrow> (fd_sets \<times> fd) option" where
  "collect_fds st it stop sets maxfd = do {
     eq \<leftarrow> dfk_list_it_equal (sl_hooks st) it stop;
     if eq then Some (sets, maxfd)
     else do {
       e \<leftarrow> load (sl_elems st) (it_value it);
       c_assert (fd_in_range (e_fd e));
       it \<leftarrow> dfk_list_it_next (sl_hooks st) it;
       collect_fds st it stop (add_to_sets e sets) (max maxfd (e_fd e))
     }
   }"

definition reported :: "fd_sets \<Rightarrow> fd \<Rightarrow> io_events" where
  "reported sets fd = (if fd \<in> readfds sets then SELECT_IO_IN else 0)
     OR (if fd \<in> writefds sets then SELECT_IO_OUT else 0) OR (if fd \<in> exceptfds sets then SELECT_IO_ERR else 0)"

definition any_reported :: "fd_sets \<Rightarrow> fd \<Rightarrow> bool" where
  "any_reported sets fd \<longleftrightarrow> fd \<in> readfds sets \<or> fd \<in> writefds sets \<or> fd \<in> exceptfds sets"

text \<open>The iterator moves on before the element it has pointed to is erased.\<close>

partial_function (option) select_ready_loop ::
  "fd_sets \<Rightarrow> dfk_list_it \<Rightarrow> dfk_list_it \<Rightarrow> bool \<Rightarrow> select_loop \<Rightarrow> (bool \<times> select_loop) option" where
  "select_ready_loop sets it stop any_ready st = do {
     eq \<leftarrow> dfk_list_it_equal (sl_hooks st) it stop;
     if eq then Some (any_ready, st)
     else do {
       e \<leftarrow> load (sl_elems st) (it_value it);
       c_assert (fd_in_range (e_fd e));
       if any_reported sets (e_fd e) then do {
         let st = st\<lparr>sl_elems := (sl_elems st)(it_value it \<mapsto> e\<lparr>e_events := reported sets (e_fd e)\<rparr>)\<rparr>;
         let itcopy = it;
         it \<leftarrow> dfk_list_it_next (sl_hooks st) it;
         (h, l) \<leftarrow> dfk_list_erase (sl_hooks st) (sl_fds st) itcopy;
         w \<leftarrow> dfk__ioresume (sl_world st) (e_yieldback e);
         select_ready_loop sets it stop True (st\<lparr>sl_hooks := h, sl_fds := l, sl_world := w\<rparr>)
       } else do {
         it \<leftarrow> dfk_list_it_next (sl_hooks st) it;
         select_ready_loop sets it stop any_ready st
       }
     }
   }"

text \<open>The loop from its beginning, and from behind the first suspension.\<close>

definition select_top :: "select_loop \<Rightarrow> (loop_next \<times> select_loop) option" where
  "select_top st = do {
     e \<leftarrow> dfk_list_empty (sl_hooks st) (sl_fds st);
     if e then do {
       w \<leftarrow> loop_suspend (sl_world st);
       Some (Switched, st\<lparr>sl_world := w\<rparr>)
     } else Some (Goes_on, st)
   }"

definition select_round ::
  "'o os_ops \<Rightarrow> (int \<Rightarrow> fd_sets \<Rightarrow> 'o \<Rightarrow> int \<times> fd_sets \<times> 'o) \<Rightarrow> select_loop \<Rightarrow> dfk_ctx \<Rightarrow> 'o
    \<Rightarrow> (loop_next \<times> select_loop \<times> dfk_ctx \<times> 'o) option" where
  "select_round S os_select st c s = do {
     it \<leftarrow> dfk_list_begin (sl_hooks st) (sl_fds st);
     stop \<leftarrow> dfk_list_end (sl_hooks st) (sl_fds st);
     (sets, maxfd) \<leftarrow> collect_fds st it stop \<lparr>readfds = {}, writefds = {}, exceptfds = {}\<rparr> 0;
     let (nfd, sets, s) = os_select (maxfd + 1) sets s;
     if nfd = -1 then Some (if os_errno S s = EINTR then (Goes_on, st, c, s) else (Left_loop, st, error_syscall S c s, s))
     else if nfd = 0 then do {
       w \<leftarrow> loop_suspend (sl_world st);
       Some (Switched, st\<lparr>sl_world := w\<rparr>, c, s)
     } else do {
       it \<leftarrow> dfk_list_begin (sl_hooks st) (sl_fds st);
       stop \<leftarrow> dfk_list_end (sl_hooks st) (sl_fds st);
       (any_ready, st) \<leftarrow> select_ready_loop sets it stop False st;
       if any_ready then do {
         w \<leftarrow> loop_suspend (sl_world st);
         Some (Switched, st\<lparr>sl_world := w\<rparr>, c, s)
       } else Some (Goes_on, st, c, s)
     }
   }"

text \<open>\<^verbatim>\<open>dfk__io\<close>, split at its suspension: \<open>at\<close> is the address of the element on the stack of the fiber.\<close>

definition dfk__io_s_begin :: "select_loop \<Rightarrow> addr \<Rightarrow> fd \<Rightarrow> io_events \<Rightarrow> select_loop option" where
  "dfk__io_s_begin st at sock events = do {
     c_assert (sock \<noteq> 0);
     let e = \<lparr>e_fd = sock, e_events = events, e_yieldback = dfk__this_fiber (sl_world st)\<rparr>;
     (h, l) \<leftarrow> dfk_list_append (fresh_hook (sl_hooks st) at) (sl_fds st) at;
     w \<leftarrow> dfk__iosuspend (sl_world st);
     Some (st\<lparr>sl_hooks := h, sl_elems := (sl_elems st)(at \<mapsto> e), sl_fds := l, sl_world := w\<rparr>)
   }"

definition dfk__io_s_end :: "select_loop \<Rightarrow> addr \<Rightarrow> io_events option" where
  "dfk__io_s_end st at = map_option e_events (load (sl_elems st) at)"

section \<open>Fibers resumed\<close>

definition resume_all :: "fiber list \<Rightarrow> dfk_world \<Rightarrow> dfk_world" where
  "resume_all fs w = w\<lparr>sched := (sched w)\<lparr>s_iowait := s_iowait (sched w) - of_nat (length fs), s_pending := s_pending (sched w) @ fs\<rparr>\<rparr>"

lemma resume_all_Nil: "resume_all [] w = w"
  by (simp add: resume_all_def)

lemma ioresume_Cons: "f \<noteq> NULL \<Longrightarrow> dfk__ioresume w f = Some (resume_all [f] w)"
  by (simp add: dfk__ioresume_def resume_all_def)

lemma resume_all_append: "resume_all gs (resume_all fs w) = resume_all (fs @ gs) w"
  by (simp add: resume_all_def algebra_simps)

lemma resume_all_io: "resume_all fs (w\<lparr>io_fibers := x\<rparr>) = (resume_all fs w)\<lparr>io_fibers := x\<rparr>"
  by (simp add: resume_all_def)

lemma io_ready_eq:
  "NULL \<notin> set fs \<Longrightarrow> distinct (io_fibers w) \<Longrightarrow>
    io_ready w fs = loop_suspend ((resume_all fs w)\<lparr>io_fibers := filter (\<lambda>f. f \<notin> set fs) (io_fibers w)\<rparr>)"
proof (induction fs arbitrary: w)
  case Nil
  then show ?case by (simp add: loop_suspend_def resume_all_Nil)
next
  case (Cons f fs)
  let ?w = "w\<lparr>io_fibers := remove1 f (io_fibers w)\<rparr>"
  have r: "dfk__ioresume ?w f = Some (resume_all [f] ?w)" using Cons.prems(1) by (intro ioresume_Cons) auto
  have i: "io_fibers (resume_all [f] ?w) = remove1 f (io_fibers w)" by (simp add: resume_all_def)
  have d: "distinct (io_fibers (resume_all [f] ?w))" unfolding i using Cons.prems(2) by simp
  have "remove1 f (io_fibers w) = filter (\<lambda>g. g \<noteq> f) (io_fibers w)"
    using Cons.prems(2) by (simp add: distinct_remove1_removeAll removeAll_filter_not_eq) (metis)
  then have e: "filter (\<lambda>g. g \<notin> set fs) (remove1 f (io_fibers w)) = filter (\<lambda>g. g \<notin> set (f # fs)) (io_fibers w)"
    by (simp add: conj_commute)
  have "io_ready w (f # fs) = io_ready (resume_all [f] ?w) fs" by (simp add: r)
  also have "\<dots> = loop_suspend ((resume_all fs (resume_all [f] ?w))\<lparr>io_fibers := filter (\<lambda>g. g \<notin> set fs) (remove1 f (io_fibers w))\<rparr>)"
    using Cons.IH [OF _ d] Cons.prems(1) i by simp
  finally show ?case unfolding e by (simp add: resume_all_append resume_all_io)
qed

lemma loop_suspend_io: "loop_suspend (w\<lparr>io_fibers := x\<rparr>) = map_option (\<lambda>w. w\<lparr>io_fibers := x\<rparr>) (loop_suspend w)"
  by (simp add: loop_suspend_def dfk_yield_def dfk__yielded_def dfk__this_fiber_def c_assert_def)

text \<open>The code's world is the model's but for the list of fibers that wait, which the code does not have.\<close>

definition same_world :: "dfk_world \<Rightarrow> dfk_world \<Rightarrow> bool" where
  "same_world v w \<longleftrightarrow> v\<lparr>io_fibers := []\<rparr> = w\<lparr>io_fibers := []\<rparr>"

lemma same_worldE:
  assumes "same_world v w"
  obtains x where "v = w\<lparr>io_fibers := x\<rparr>"
proof -
  have "v = (v\<lparr>io_fibers := []\<rparr>)\<lparr>io_fibers := io_fibers v\<rparr>" by simp
  also have "\<dots> = w\<lparr>io_fibers := io_fibers v\<rparr>" using assms by (simp add: same_world_def)
  finally show thesis by (rule that)
qed

lemma same_world_resume: "same_world v w \<Longrightarrow> same_world (resume_all fs v) (resume_all fs w)"
  by (erule same_worldE) (simp add: same_world_def resume_all_def)

lemma loop_suspend_ok:
  "dfk__this_fiber w \<noteq> NULL \<Longrightarrow> s_fiber (sched w) \<noteq> NULL \<Longrightarrow> \<exists>w'. loop_suspend w = Some w' \<and> io_fibers w' = io_fibers w
    \<and> dfk__this_fiber w' \<noteq> NULL \<and> s_fiber (sched w') \<noteq> NULL"
  by (simp add: loop_suspend_def dfk_yield_def dfk__yielded_def dfk__this_fiber_def)

lemma same_world_suspend: "same_world v w \<Longrightarrow> loop_suspend w = Some w' \<Longrightarrow> \<exists>v'. loop_suspend v = Some v' \<and> same_world v' w'"
  by (erule same_worldE) (auto simp: loop_suspend_io same_world_def)

text \<open>What waking some of the waiting fibers is in the scheduler model, and what the code does to its world.\<close>

lemma wake_step:
  assumes "same_world v w" "distinct (io_fibers w)" "NULL \<notin> set fs" "dfk__this_fiber w \<noteq> NULL" "s_fiber (sched w) \<noteq> NULL"
  shows "\<exists>v' w'. loop_suspend (resume_all fs v) = Some v' \<and> io_ready w fs = Some w' \<and> same_world v' w'
    \<and> io_fibers w' = filter (\<lambda>f. f \<notin> set fs) (io_fibers w) \<and> dfk__this_fiber w' \<noteq> NULL \<and> s_fiber (sched w') \<noteq> NULL"
proof -
  let ?w = "(resume_all fs w)\<lparr>io_fibers := filter (\<lambda>f. f \<notin> set fs) (io_fibers w)\<rparr>"
  have t: "dfk__this_fiber ?w \<noteq> NULL" "s_fiber (sched ?w) \<noteq> NULL" using assms(4,5) by (simp_all add: resume_all_def dfk__this_fiber_def)
  obtain w' where w': "loop_suspend ?w = Some w'" "io_fibers w' = io_fibers ?w" "dfk__this_fiber w' \<noteq> NULL" "s_fiber (sched w') \<noteq> NULL" using loop_suspend_ok [OF t] by blast
  have "same_world (resume_all fs v) ?w" using same_world_resume [OF assms(1)] by (simp add: same_world_def)
  then obtain v' where "loop_suspend (resume_all fs v) = Some v'" "same_world v' w'" using same_world_suspend w'(1) by blast
  then show ?thesis using io_ready_eq [OF assms(3,2)] w' by simp
qed

lemma filter_map_key:
  "distinct (map f zs) \<Longrightarrow> filter (\<lambda>x. x \<notin> set (map f (filter P zs))) (map f zs) = map f (filter (\<lambda>z. \<not> P z) zs)"
proof -
  assume d: "distinct (map f zs)"
  have "f z \<in> f ` set (filter P zs) \<longleftrightarrow> P z" if "z \<in> set zs" for z
    using d that by (auto simp: distinct_map inj_on_def)
  then have "filter (\<lambda>z. f z \<notin> f ` set (filter P zs)) zs = filter (\<lambda>z. \<not> P z) zs" by (intro filter_cong) auto
  then show ?thesis by (simp add: filter_map o_def)
qed

section \<open>The passes over the descriptors\<close>

definition requested :: "dfk_fdlist_element_t list \<Rightarrow> fd_sets" where
  "requested es = \<lparr>readfds = e_fd ` set (filter (\<lambda>e. e_events e AND SELECT_IO_IN \<noteq> 0) es),
     writefds = e_fd ` set (filter (\<lambda>e. e_events e AND SELECT_IO_OUT \<noteq> 0) es), exceptfds = e_fd ` set es\<rparr>"

definition highest :: "dfk_fdlist_element_t list \<Rightarrow> fd" where
  "highest es = Max (insert 0 (e_fd ` set es))"

lemma requested_fold:
  "fold add_to_sets es \<lparr>readfds = R, writefds = W, exceptfds = E\<rparr>
    = \<lparr>readfds = R \<union> readfds (requested es), writefds = W \<union> writefds (requested es), exceptfds = E \<union> exceptfds (requested es)\<rparr>"
proof (induction es arbitrary: R W E)
  case (Cons e es)
  have "fold add_to_sets (e # es) \<lparr>readfds = R, writefds = W, exceptfds = E\<rparr>
      = fold add_to_sets es \<lparr>readfds = if e_events e AND SELECT_IO_IN \<noteq> 0 then insert (e_fd e) R else R,
          writefds = if e_events e AND SELECT_IO_OUT \<noteq> 0 then insert (e_fd e) W else W, exceptfds = insert (e_fd e) E\<rparr>"
    by (simp add: add_to_sets_def)
  also have "\<dots> = \<lparr>readfds = R \<union> readfds (requested (e # es)), writefds = W \<union> writefds (requested (e # es)),
      exceptfds = E \<union> exceptfds (requested (e # es))\<rparr>"
    unfolding Cons.IH by (auto simp: requested_def)
  finally show ?case .
qed (simp add: requested_def)

lemma highest_fold: "fold (\<lambda>e m. max m (e_fd e)) es m = Max (insert m (e_fd ` set es))"
proof (induction es arbitrary: m)
  case (Cons e es)
  have "Max (insert (max m (e_fd e)) A) = Max (insert m (insert (e_fd e) A))" if "finite A" for A
    using that by (cases "A = {}") (simp_all add: max.assoc)
  then show ?case by (simp add: Cons.IH)
qed simp

definition elems_at :: "select_loop \<Rightarrow> (addr \<times> dfk_fdlist_element_t) list \<Rightarrow> bool" where
  "elems_at st zs \<longleftrightarrow> (\<forall>(a, e)\<in>set zs. sl_elems st a = Some e \<and> fd_in_range (e_fd e) \<and> e_yieldback e \<noteq> NULL)"

lemma collect_ok:
  assumes "list_rep (sl_hooks st) (sl_fds st) (xs @ map fst zs)" "elems_at st zs"
  shows "collect_fds st \<lparr>it_value = hd_or (map fst zs) NULL\<rparr> \<lparr>it_value = NULL\<rparr> sets m
    = Some (fold add_to_sets (map snd zs) sets, fold (\<lambda>e m. max m (e_fd e)) (map snd zs) m)"
  using assms
proof (induction zs arbitrary: xs sets m)
  case Nil
  then show ?case using list_it_equal_spec [OF Nil(1)] by (subst collect_fds.simps) simp
next
  case (Cons z zs)
  obtain a e where z: "z = (a, e)" by (cases z)
  have a: "a \<noteq> NULL" using Cons.prems(1) z list_rep_not_NULL by fastforce
  have r: "list_rep (sl_hooks st) (sl_fds st) (xs @ a # map fst zs)" using Cons.prems(1) z by simp
  have e: "sl_elems st a = Some e" "fd_in_range (e_fd e)" "elems_at st zs" using Cons.prems(2) z by (auto simp: elems_at_def)
  have "collect_fds st \<lparr>it_value = hd_or (map fst zs) NULL\<rparr> \<lparr>it_value = NULL\<rparr> (add_to_sets e sets) (max m (e_fd e))
    = Some (fold add_to_sets (map snd zs) (add_to_sets e sets), fold (\<lambda>e m. max m (e_fd e)) (map snd zs) (max m (e_fd e)))"
    by (rule Cons.IH [of "xs @ [a]"]) (use r e(3) in auto)
  then show ?case using a e list_it_equal_spec [OF r] list_it_next_spec [OF r, of "\<lparr>it_value = a\<rparr>"] z
    by (subst collect_fds.simps) simp
qed

lemma collect_out_of_range:
  assumes "list_rep (sl_hooks st) (sl_fds st) (xs @ map fst zs)" "\<forall>(a, e)\<in>set zs. sl_elems st a = Some e"
    and "\<exists>(a, e)\<in>set zs. \<not> fd_in_range (e_fd e)"
  shows "collect_fds st \<lparr>it_value = hd_or (map fst zs) NULL\<rparr> \<lparr>it_value = NULL\<rparr> sets m = None"
  using assms
proof (induction zs arbitrary: xs sets m)
  case (Cons z zs)
  obtain a e where z: "z = (a, e)" by (cases z)
  have a: "a \<noteq> NULL" using Cons.prems(1) z list_rep_not_NULL by fastforce
  have r: "list_rep (sl_hooks st) (sl_fds st) (xs @ a # map fst zs)" using Cons.prems(1) z by simp
  have e: "sl_elems st a = Some e" using Cons.prems(2) z by simp
  have "collect_fds st \<lparr>it_value = hd_or (map fst zs) NULL\<rparr> \<lparr>it_value = NULL\<rparr> sets m = None" if "fd_in_range (e_fd e)" for sets m
    by (rule Cons.IH [of "xs @ [a]"]) (use Cons.prems(2,3) r z that in auto)
  then show ?case using a e list_it_equal_spec [OF r] list_it_next_spec [OF r, of "\<lparr>it_value = a\<rparr>"] z
    by (subst collect_fds.simps) (simp add: c_assert_def)
qed simp

lemma ready_loop_ok:
  fixes sets :: fd_sets
  defines "hit \<equiv> \<lambda>(a :: addr, e). any_reported sets (e_fd e)"
  assumes "list_rep (sl_hooks st) (sl_fds st) (xs @ map fst zs)" "elems_at st zs" "distinct (map fst zs)"
  shows "\<exists>st'. select_ready_loop sets \<lparr>it_value = hd_or (map fst zs) NULL\<rparr> \<lparr>it_value = NULL\<rparr> b st = Some (b \<or> filter hit zs \<noteq> [], st')
    \<and> list_rep (sl_hooks st') (sl_fds st') (xs @ map fst (filter (\<lambda>z. \<not> hit z) zs))
    \<and> sl_world st' = resume_all (map (\<lambda>z. e_yieldback (snd z)) (filter hit zs)) (sl_world st)
    \<and> (\<forall>(a, e)\<in>set (filter hit zs). sl_elems st' a = Some (e\<lparr>e_events := reported sets (e_fd e)\<rparr>))
    \<and> (\<forall>a. a \<notin> fst ` set (filter hit zs) \<longrightarrow> sl_elems st' a = sl_elems st a)"
  using assms(2-)
proof (induction zs arbitrary: xs b st)
  case Nil
  then show ?case using list_it_equal_spec [OF Nil(1)] by (subst select_ready_loop.simps) (simp add: resume_all_Nil)
next
  case (Cons z zs)
  obtain a e where z: "z = (a, e)" by (cases z)
  have a: "a \<noteq> NULL" using Cons.prems(1) z list_rep_not_NULL by fastforce
  have r: "list_rep (sl_hooks st) (sl_fds st) (xs @ a # map fst zs)" using Cons.prems(1) z by simp
  have e: "sl_elems st a = Some e" "fd_in_range (e_fd e)" "elems_at st zs" "e_yieldback e \<noteq> NULL"
    using Cons.prems(2) z by (auto simp: elems_at_def)
  have d: "a \<notin> fst ` set zs" "distinct (map fst zs)" using Cons.prems(3) z by auto
  note eq = list_it_equal_spec [OF r, of "\<lparr>it_value = a\<rparr>" "\<lparr>it_value = NULL\<rparr>"]
  note nxt = list_it_next_spec [OF r, of "\<lparr>it_value = a\<rparr>"]
  show ?case
  proof (cases "hit z")
    case False
    then have f: "\<not> any_reported sets (e_fd e)" by (simp add: hit_def z)
    have "select_ready_loop sets \<lparr>it_value = a\<rparr> \<lparr>it_value = NULL\<rparr> b st
        = select_ready_loop sets \<lparr>it_value = hd_or (map fst zs) NULL\<rparr> \<lparr>it_value = NULL\<rparr> b st"
      using a e(1,2) eq nxt f by (subst select_ready_loop.simps) simp
    then show ?thesis using Cons.IH [of st "xs @ [a]" b] r e(3) d False z by auto
  next
    case True
    then have t: "any_reported sets (e_fd e)" by (simp add: hit_def z)
    obtain h l where er: "dfk_list_erase (sl_hooks st) (sl_fds st) \<lparr>it_value = a\<rparr> = Some (h, l)" "list_rep h l (xs @ map fst zs)"
      using list_erase_spec [OF r, of "\<lparr>it_value = a\<rparr>"] by auto
    let ?e = "e\<lparr>e_events := reported sets (e_fd e)\<rparr>"
    let ?st = "st\<lparr>sl_elems := (sl_elems st)(a \<mapsto> ?e), sl_hooks := h, sl_fds := l, sl_world := resume_all [e_yieldback e] (sl_world st)\<rparr>"
    have step: "select_ready_loop sets \<lparr>it_value = a\<rparr> \<lparr>it_value = NULL\<rparr> b st
        = select_ready_loop sets \<lparr>it_value = hd_or (map fst zs) NULL\<rparr> \<lparr>it_value = NULL\<rparr> True ?st"
      using a e(1,2) eq nxt t er(1) ioresume_Cons [OF e(4)] by (subst select_ready_loop.simps) (simp add: Let_def)
    have "elems_at ?st zs" using e(3) d(1) by (force simp: elems_at_def)
    then obtain st' where st': "select_ready_loop sets \<lparr>it_value = hd_or (map fst zs) NULL\<rparr> \<lparr>it_value = NULL\<rparr> True ?st = Some (True, st')"
        "list_rep (sl_hooks st') (sl_fds st') (xs @ map fst (filter (\<lambda>z. \<not> hit z) zs))"
        "sl_world st' = resume_all (map (\<lambda>z. e_yieldback (snd z)) (filter hit zs)) (sl_world ?st)"
        "\<forall>(a, e)\<in>set (filter hit zs). sl_elems st' a = Some (e\<lparr>e_events := reported sets (e_fd e)\<rparr>)"
        "\<forall>a. a \<notin> fst ` set (filter hit zs) \<longrightarrow> sl_elems st' a = sl_elems ?st a"
      using Cons.IH [of ?st xs True] er(2) d(2) by auto
    have "a \<notin> fst ` set (filter hit zs)" using d(1) by auto
    then have "sl_elems st' a = Some ?e" using st'(5) by simp
    then show ?thesis using step st' True z by (auto simp: resume_all_append)
  qed
qed

section \<open>Properties\<close>

text \<open>
  The code's loop with the world of the scheduler model: the list holds the elements \<open>zs\<close>, and the fibers that wait are theirs,
  in the order of the list.
\<close>

definition tracks :: "select_loop \<Rightarrow> dfk_world \<Rightarrow> (addr \<times> dfk_fdlist_element_t) list \<Rightarrow> bool" where
  "tracks st w zs \<longleftrightarrow> list_rep (sl_hooks st) (sl_fds st) (map fst zs) \<and> elems_at st zs \<and> same_world (sl_world st) w
     \<and> io_fibers w = map (\<lambda>z. e_yieldback (snd z)) zs \<and> distinct (io_fibers w)
     \<and> dfk__this_fiber w \<noteq> NULL \<and> s_fiber (sched w) \<noteq> NULL"

text \<open>
  C24. One round of the event loop on select wakes exactly the fibers whose descriptors are reported. The kernel is asked for the
  descriptors and events of the list. The elements that are reported leave the list, the others stay in order; each
  fiber that is woken finds its events as the result of its call; and for the scheduler the round is the step of the abstract event
  loop that resumes these fibers, in the order of the list.
\<close>

theorem select_wakes_ready:
  defines "hit \<equiv> \<lambda>sets (a :: addr, e). any_reported sets (e_fd e)"
  assumes "tracks st w zs" "os_select (highest (map snd zs) + 1) (requested (map snd zs)) s = (nfd, sets, s')" "0 < nfd"
    and "filter (hit sets) zs \<noteq> []"
  shows "\<exists>st' w'. select_round S os_select st c s = Some (Switched, st', c, s')
    \<and> io_ready w (map (\<lambda>z. e_yieldback (snd z)) (filter (hit sets) zs)) = Some w'
    \<and> tracks st' w' (filter (\<lambda>z. \<not> hit sets z) zs)
    \<and> (\<forall>(a, e)\<in>set (filter (hit sets) zs). dfk__io_s_end st' a = Some (reported sets (e_fd e)))"
proof -
  have t: "list_rep (sl_hooks st) (sl_fds st) (map fst zs)" "elems_at st zs" "same_world (sl_world st) w"
      "io_fibers w = map (\<lambda>z. e_yieldback (snd z)) zs" "distinct (io_fibers w)" "dfk__this_fiber w \<noteq> NULL" "s_fiber (sched w) \<noteq> NULL"
    using assms(2) unfolding tracks_def by blast+
  have r0: "list_rep (sl_hooks st) (sl_fds st) ([] @ map fst zs)" using t(1) by simp
  have collect: "collect_fds st \<lparr>it_value = hd_or (map fst zs) NULL\<rparr> \<lparr>it_value = NULL\<rparr> \<lparr>readfds = {}, writefds = {}, exceptfds = {}\<rparr> 0
      = Some (requested (map snd zs), highest (map snd zs))"
    by (simp add: collect_ok [OF r0 t(2)] requested_fold highest_fold highest_def)
  let ?fs = "map (\<lambda>z. e_yieldback (snd z)) (filter (hit sets) zs)"
  obtain st1 where st1: "select_ready_loop sets \<lparr>it_value = hd_or (map fst zs) NULL\<rparr> \<lparr>it_value = NULL\<rparr> False st = Some (True, st1)"
      "list_rep (sl_hooks st1) (sl_fds st1) (map fst (filter (\<lambda>z. \<not> hit sets z) zs))" "sl_world st1 = resume_all ?fs (sl_world st)"
      "\<forall>(a, e)\<in>set (filter (hit sets) zs). sl_elems st1 a = Some (e\<lparr>e_events := reported sets (e_fd e)\<rparr>)"
      "\<forall>a. a \<notin> fst ` set (filter (hit sets) zs) \<longrightarrow> sl_elems st1 a = sl_elems st a"
    using ready_loop_ok [OF r0 t(2) list_rep_distinct [OF t(1)], of sets False] assms(5) unfolding hit_def by auto
  have nn: "NULL \<notin> set ?fs" using t(2) by (auto simp: elems_at_def)
  obtain v' w' where w': "loop_suspend (sl_world st1) = Some v'" "io_ready w ?fs = Some w'" "same_world v' w'"
      "io_fibers w' = filter (\<lambda>f. f \<notin> set ?fs) (io_fibers w)" "dfk__this_fiber w' \<noteq> NULL" "s_fiber (sched w') \<noteq> NULL"
    using wake_step [OF t(3,5) nn t(6,7)] st1(3) by auto
  have io: "io_fibers w' = map (\<lambda>z. e_yieldback (snd z)) (filter (\<lambda>z. \<not> hit sets z) zs)"
    using filter_map_key [of "\<lambda>z. e_yieldback (snd z)" zs "hit sets"] w'(4) t(4,5) by simp
  have "distinct (io_fibers w')" unfolding w'(4) using t(5) by simp
  moreover have "select_round S os_select st c s = Some (Switched, st1\<lparr>sl_world := v'\<rparr>, c, s')"
    using list_begin_spec [OF t(1)] list_end_spec [OF t(1)] collect assms(3,4) st1(1) w'(1) by (simp add: select_round_def Let_def)
  moreover have "elems_at st1 (filter (\<lambda>z. \<not> hit sets z) zs)"
  proof -
    have "a \<notin> fst ` set (filter (hit sets) zs)" if "(a, e) \<in> set zs" "\<not> hit sets (a, e)" for a e
    proof
      assume "a \<in> fst ` set (filter (hit sets) zs)"
      then obtain e' where "(a, e') \<in> set zs" "hit sets (a, e')" by auto
      with that show False using eq_key_imp_eq_value [OF list_rep_distinct [OF t(1)]] by blast
    qed
    then show ?thesis using st1(5) t(2) by (fastforce simp: elems_at_def)
  qed
  moreover have "\<forall>(a, e)\<in>set (filter (hit sets) zs). dfk__io_s_end (st1\<lparr>sl_world := v'\<rparr>) a = Some (reported sets (e_fd e))"
  proof -
    have "a \<noteq> NULL" if "(a, e) \<in> set zs" for a e
      using list_rep_not_NULL [OF t(1)] that by force
    then show ?thesis using st1(4) by (fastforce simp: dfk__io_s_end_def)
  qed
  ultimately show ?thesis using st1(2) w'(2,3,5,6) io
    by (intro exI [of _ "st1\<lparr>sl_world := v'\<rparr>"] exI [of _ w']) (simp add: elems_at_def tracks_def)
qed

text \<open>
  A fiber that waits for a descriptor in the select back end is registered at the end of the list, and for the scheduler
  its call is the abstract one.
\<close>

theorem select_registers:
  assumes "tracks st w zs" "at \<noteq> NULL" "at \<notin> fst ` set zs" "sock \<noteq> 0" "fd_in_range sock" "dfk__this_fiber w \<notin> set (io_fibers w)"
  shows "\<exists>st' w'. dfk__io_s_begin st at sock events = Some st' \<and> api_call w Io = Some w'
    \<and> tracks st' w' (zs @ [(at, \<lparr>e_fd = sock, e_events = events, e_yieldback = dfk__this_fiber w\<rparr>)])"
proof -
  have t: "list_rep (sl_hooks st) (sl_fds st) (map fst zs)" "elems_at st zs" "same_world (sl_world st) w"
      "io_fibers w = map (\<lambda>z. e_yieldback (snd z)) zs" "distinct (io_fibers w)" "dfk__this_fiber w \<noteq> NULL" "s_fiber (sched w) \<noteq> NULL"
    using assms(1) unfolding tracks_def by blast+
  let ?h = "fresh_hook (sl_hooks st) at"
  have "list_rep ?h (sl_fds st) (map fst zs)" using list_rep_upd [OF t(1)] assms(3) by (simp add: fresh_hook_def)
  then obtain h l where a: "dfk_list_append ?h (sl_fds st) at = Some (h, l)" "list_rep h l (map fst zs @ [at])"
    using list_append_spec [of ?h "sl_fds st" "map fst zs" at] assms(2,3) by (auto simp: fresh_hook_def)
  obtain x where x: "sl_world st = w\<lparr>io_fibers := x\<rparr>" by (rule same_worldE [OF t(3)])
  obtain w' where w': "api_call w Io = Some w'" "dfk__iosuspend (sl_world st) = Some (w'\<lparr>io_fibers := x\<rparr>)"
      "io_fibers w' = io_fibers w @ [dfk__this_fiber w]" "dfk__this_fiber w' \<noteq> NULL" "s_fiber (sched w') \<noteq> NULL"
    using t(6,7) by (simp add: x dfk__iosuspend_def dfk_yield_def dfk__yielded_def dfk__this_fiber_def go_on_at_def Let_def)
  have this_fiber: "dfk__this_fiber (sl_world st) = dfk__this_fiber w" by (simp add: x dfk__this_fiber_def)
  let ?e = "\<lparr>e_fd = sock, e_events = events, e_yieldback = dfk__this_fiber w\<rparr>"
  let ?st = "st\<lparr>sl_hooks := h, sl_elems := (sl_elems st)(at \<mapsto> ?e), sl_fds := l, sl_world := w'\<lparr>io_fibers := x\<rparr>\<rparr>"
  have "elems_at ?st (zs @ [(at, ?e)])" using t(2,6) assms(3,5) by (force simp: elems_at_def)
  moreover have "dfk__io_s_begin st at sock events = Some ?st"
    using assms(4) a(1) w'(2) by (simp add: dfk__io_s_begin_def this_fiber Let_def)
  ultimately show ?thesis using w' a(2) t(4,5) assms(6) same_world_def
    by (intro exI [of _ ?st] exI [of _ w']) (simp add: tracks_def)
qed

text \<open>
  The select back end does not look at the limit of a descriptor set: as soon as a fiber waits for a descriptor of \<open>FD_SETSIZE\<close>
  or more, the next round accesses memory behind the set.
\<close>

theorem select_large_descriptor:
  assumes "list_rep (sl_hooks st) (sl_fds st) (map fst zs)" "\<forall>(a, e)\<in>set zs. sl_elems st a = Some e"
    and "\<exists>(a, e)\<in>set zs. \<not> fd_in_range (e_fd e)"
  shows "select_round S os_select st c s = None"
proof -
  have "list_rep (sl_hooks st) (sl_fds st) ([] @ map fst zs)" using assms(1) by simp
  note collect_out_of_range [OF this assms(2,3)]
  then show ?thesis
    using list_begin_spec [OF assms(1)] list_end_spec [OF assms(1)] by (simp add: select_round_def)
qed

text \<open>
  The reports the inner loop gets to: all of them, or those up to the first whose descriptor cannot be unregistered, that one included.
\<close>

fun gets_to :: "'o epoll_os \<Rightarrow> fd \<Rightarrow> (addr \<Rightarrow> fd) \<Rightarrow> (io_events \<times> addr) list \<Rightarrow> 'o \<Rightarrow> (io_events \<times> addr) list" where
  "gets_to P fd sock [] s = []"
| "gets_to P fd sock ((ev, a) # fds) s = (ev, a) # (case p_del P fd (sock a) s of (ret, s) \<Rightarrow>
     if ret = -1 then [] else gets_to P fd sock fds s)"

lemma gets_to_prefix: "\<exists>k. gets_to P fd sock fds s = take k fds"
proof (induction fds arbitrary: s)
  case (Cons x fds)
  obtain ev a where x: "x = (ev, a)" by (cases x)
  obtain ret s1 where p: "p_del P fd (sock a) s = (ret, s1)" by (cases "p_del P fd (sock a) s")
  obtain k where "gets_to P fd sock fds s1 = take k fds" using Cons.IH by blast
  then show ?case using x p by (intro exI [of _ "if ret = -1 then 1 else Suc k"]) simp
qed simp

lemma gets_to_all: "\<forall>d s. fst (p_del P fd d s) \<noteq> -1 \<Longrightarrow> gets_to P fd sock fds s = fds"
proof (induction fds arbitrary: s)
  case (Cons x fds)
  then show ?case by (cases x) (simp split: prod.split, metis fst_conv)
qed simp

lemma gets_to_cong: "\<forall>a\<in>snd ` set fds. sock a = sock' a \<Longrightarrow> gets_to P fd sock fds s = gets_to P fd sock' fds s"
proof (induction fds arbitrary: s)
  case (Cons x fds)
  then show ?case by (cases x) (simp split: prod.split)
qed simp

lemma gets_to_not_Nil: "fds \<noteq> [] \<Longrightarrow> gets_to P fd sock fds s \<noteq> []"
  by (cases fds) auto

lemma epoll_loop_ok:
  assumes "\<forall>(ev, a)\<in>set fds. \<exists>arg. a \<noteq> NULL \<and> args a = Some arg \<and> ep_yieldback arg \<noteq> NULL" "distinct (map snd fds)"
  shows "\<exists>args' c' s'. epoll_ready_loop S P fd fds args v c s
      = Some (args', resume_all (map (\<lambda>(ev, a). ep_yieldback (the (args a))) (gets_to P fd (\<lambda>a. ep_fd (the (args a))) fds s)) v, c', s')
    \<and> (\<forall>(ev, a)\<in>set (gets_to P fd (\<lambda>a. ep_fd (the (args a))) fds s). args' a = map_option (\<lambda>arg. arg\<lparr>ep_events := ev\<rparr>) (args a))
    \<and> (\<forall>a. a \<notin> snd ` set (gets_to P fd (\<lambda>a. ep_fd (the (args a))) fds s) \<longrightarrow> args' a = args a)"
  using assms
proof (induction fds arbitrary: args v s)
  case Nil
  then show ?case by (simp add: resume_all_Nil)
next
  case (Cons x fds)
  obtain ev a where x: "x = (ev, a)" by (cases x)
  obtain arg where a: "a \<noteq> NULL" "args a = Some arg" "ep_yieldback arg \<noteq> NULL" using Cons.prems(1) x by auto
  have d: "a \<notin> snd ` set fds" "distinct (map snd fds)" using Cons.prems(2) x by auto
  obtain ret s1 where p: "p_del P fd (ep_fd arg) s = (ret, s1)" by (cases "p_del P fd (ep_fd arg) s")
  let ?args = "args(a \<mapsto> arg\<lparr>ep_events := ev\<rparr>)" and ?v = "resume_all [ep_yieldback arg] v"
  show ?case
  proof (cases "ret = -1")
    case True
    then have "epoll_ready_loop S P fd (x # fds) args v c s = Some (?args, ?v, error_syscall S c s1, s1)"
      using a p ioresume_Cons [OF a(3)] by (simp add: x Let_def)
    then show ?thesis using a p True x by simp
  next
    case False
    let ?got = "gets_to P fd (\<lambda>a. ep_fd (the (args a))) fds s1"
    have same: "?args b = args b" if "(e, b) \<in> set fds" for e b using d(1) that by force
    have "\<exists>arg. b \<noteq> NULL \<and> ?args b = Some arg \<and> ep_yieldback arg \<noteq> NULL" if "(e, b) \<in> set fds" for e b
      unfolding same [OF that] using Cons.prems(1) that by auto
    then have IHp: "\<forall>(ev, a)\<in>set fds. \<exists>arg. a \<noteq> NULL \<and> ?args a = Some arg \<and> ep_yieldback arg \<noteq> NULL" by blast
    have got: "gets_to P fd (\<lambda>a. ep_fd (the (?args a))) fds s1 = ?got" by (rule gets_to_cong) (use d(1) in \<open>auto split: if_splits\<close>)
    have sub: "set ?got \<subseteq> set fds" using gets_to_prefix by (metis set_take_subset)
    from Cons.IH [OF IHp d(2), of ?v s1, unfolded got] obtain args' c' s' where
      r: "epoll_ready_loop S P fd fds ?args ?v c s1 = Some (args', resume_all (map (\<lambda>(ev, a). ep_yieldback (the (?args a))) ?got) ?v, c', s')"
        "\<forall>(ev, a)\<in>set ?got. args' a = map_option (\<lambda>arg. arg\<lparr>ep_events := ev\<rparr>) (?args a)"
        "\<forall>b. b \<notin> snd ` set ?got \<longrightarrow> args' b = ?args b"
      by blast
    have m: "map (\<lambda>(ev, a). ep_yieldback (the (?args a))) ?got = map (\<lambda>(ev, a). ep_yieldback (the (args a))) ?got"
      using same sub by (intro map_cong) auto
    have step: "epoll_ready_loop S P fd (x # fds) args v c s = epoll_ready_loop S P fd fds ?args ?v c s1"
      using a p False ioresume_Cons [OF a(3)] by (simp add: x Let_def)
    have "a \<notin> snd ` set ?got" using sub d(1) by auto
    then have "args' a = Some (arg\<lparr>ep_events := ev\<rparr>)" using r(3) by simp
    moreover have "args' b = map_option (\<lambda>arg. arg\<lparr>ep_events := e\<rparr>) (args b)" if b: "(e, b) \<in> set ?got" for e b
    proof -
      have "args' b = map_option (\<lambda>arg. arg\<lparr>ep_events := e\<rparr>) (?args b)" using r(2) b by blast
      moreover have "?args b = args b" by (rule same) (use b sub in blast)
      ultimately show ?thesis by simp
    qed
    ultimately show ?thesis using step r(1) [unfolded m resume_all_append] r(3) a(2) p False
      by (intro exI [of _ args'] exI [of _ c'] exI [of _ s']) (auto simp: x)
  qed
qed

text \<open>
  The arguments of the fibers that wait, which lie on their stacks, with the world of the scheduler model: the fibers that wait are
  those of the arguments \<open>zs\<close>, in the order in which they have been registered.
\<close>

definition registered :: "dfk_epoll_arg_t mem \<Rightarrow> dfk_world \<Rightarrow> dfk_world \<Rightarrow> (addr \<times> dfk_epoll_arg_t) list \<Rightarrow> bool" where
  "registered args v w zs \<longleftrightarrow> (\<forall>(a, arg)\<in>set zs. a \<noteq> NULL \<and> args a = Some arg \<and> ep_yieldback arg \<noteq> NULL)
     \<and> distinct (map fst zs) \<and> same_world v w \<and> io_fibers w = map (\<lambda>z. ep_yieldback (snd z)) zs \<and> distinct (io_fibers w)
     \<and> dfk__this_fiber w \<noteq> NULL \<and> s_fiber (sched w) \<noteq> NULL"

lemma registered_fibers:
  assumes "registered args v w zs" "snd ` set fds \<subseteq> fst ` set zs" "distinct (map snd fds)"
  defines "fs \<equiv> map (\<lambda>(ev, a). ep_yieldback (the (args a))) fds"
  shows "NULL \<notin> set fs" "distinct fs" "set fs \<subseteq> set (io_fibers w)"
    and "filter (\<lambda>f. f \<notin> set fs) (io_fibers w) = map (\<lambda>z. ep_yieldback (snd z)) (filter (\<lambda>z. fst z \<notin> snd ` set fds) zs)"
proof -
  have z: "\<forall>(a, arg)\<in>set zs. args a = Some arg \<and> ep_yieldback arg \<noteq> NULL" "distinct (map fst zs)"
      "io_fibers w = map (\<lambda>z. ep_yieldback (snd z)) zs" "distinct (map (\<lambda>z. ep_yieldback (snd z)) zs)"
    using assms(1) unfolding registered_def by auto
  let ?f = "\<lambda>a. ep_yieldback (the (args a))"
  have fs: "fs = map ?f (map snd fds)" by (simp add: fs_def case_prod_unfold)
  have f: "?f (fst z) = ep_yieldback (snd z)" if "z \<in> set zs" for z using z(1) that by (cases z) auto
  then have m: "map (\<lambda>z. ep_yieldback (snd z)) zs = map ?f (map fst zs)" by simp
  have inj: "inj_on ?f (fst ` set zs)" using z(4) unfolding m distinct_map by simp
  show "NULL \<notin> set fs" using assms(2) z(1) by (fastforce simp: fs)
  have "inj_on ?f (set (map snd fds))" using inj_on_subset [OF inj assms(2)] by simp
  with assms(3) show "distinct fs" unfolding fs distinct_map [of ?f] by (rule conjI)
  show "set fs \<subseteq> set (io_fibers w)" unfolding fs z(3) m using image_mono [OF assms(2), of ?f] by (simp only: set_map)
  have sfs: "set fs = ?f ` snd ` set fds" unfolding fs by (simp only: set_map)
  have "ep_yieldback (snd z) \<notin> set fs \<longleftrightarrow> fst z \<notin> snd ` set fds" if "z \<in> set zs" for z
    using inj_on_image_mem_iff [OF inj _ assms(2), of "fst z"] that by (simp only: sfs f [OF that, symmetric]) simp
  then have "filter (\<lambda>z. ep_yieldback (snd z) \<notin> set fs) zs = filter (\<lambda>z. fst z \<notin> snd ` set fds) zs" by (intro filter_cong) auto
  then show "filter (\<lambda>f. f \<notin> set fs) (io_fibers w) = map (\<lambda>z. ep_yieldback (snd z)) (filter (\<lambda>z. fst z \<notin> snd ` set fds) zs)"
    unfolding z(3) filter_map o_def by (rule arg_cong)
qed

text \<open>
  C27. One round of the event loop on epoll, when the kernel reports at most 64 registered arguments, each once. The fibers of the reported
  arguments are woken in the order of the reports, each of which finds its events in its argument; all of them if every
  descriptor can be unregistered, and otherwise those up to the first one that cannot, that one included. They have been waiting and are
  different from each other, so for the scheduler the round is the step of the abstract event loop that resumes them; the
  arguments and fibers of the others stay registered in order and wait on.
\<close>

theorem epoll_wakes_ready:
  assumes r: "registered args v w zs" "running w = s_eventloop (sched w)"
    and os: "epoll_fd epoll \<noteq> 0" "p_wait P (epoll_fd epoll) 64 s = (int (length fds), fds, s1)" "fds \<noteq> []"
    and fds: "snd ` set fds \<subseteq> fst ` set zs" "distinct (map snd fds)"
  defines "woken \<equiv> gets_to P (epoll_fd epoll) (\<lambda>a. ep_fd (the (args a))) fds s1"
  shows "\<exists>args' v' w' c' s'. epoll_round S P epoll args v c s = Some (Switched, args', v', c', s')
    \<and> io_ready w (map (\<lambda>(ev, a). ep_yieldback (the (args a))) woken) = Some w' \<and> dfk_step w w'
    \<and> registered args' v' w' (filter (\<lambda>z. fst z \<notin> snd ` set woken) zs)
    \<and> (\<forall>(ev, a)\<in>set woken. \<exists>arg. args' a = Some arg \<and> ep_events arg = ev)
    \<and> (\<exists>k. woken = take k fds) \<and> woken \<noteq> [] \<and> ((\<forall>d s. fst (p_del P (epoll_fd epoll) d s) \<noteq> -1) \<longrightarrow> woken = fds)"
proof -
  have z: "\<forall>(a, arg)\<in>set zs. a \<noteq> NULL \<and> args a = Some arg \<and> ep_yieldback arg \<noteq> NULL" "distinct (map fst zs)" "same_world v w"
      "distinct (io_fibers w)" "dfk__this_fiber w \<noteq> NULL" "s_fiber (sched w) \<noteq> NULL"
    using r(1) unfolding registered_def by blast+
  have "\<forall>(ev, a)\<in>set fds. \<exists>arg. a \<noteq> NULL \<and> args a = Some arg \<and> ep_yieldback arg \<noteq> NULL" using fds(1) z(1) by fastforce
  from epoll_loop_ok [OF this fds(2), of S P "epoll_fd epoll" v c s1, folded woken_def] obtain args' c' s' where
    l: "epoll_ready_loop S P (epoll_fd epoll) fds args v c s1
        = Some (args', resume_all (map (\<lambda>(ev, a). ep_yieldback (the (args a))) woken) v, c', s')"
      "\<forall>(ev, a)\<in>set woken. args' a = map_option (\<lambda>arg. arg\<lparr>ep_events := ev\<rparr>) (args a)"
      "\<forall>a. a \<notin> snd ` set woken \<longrightarrow> args' a = args a" by blast
  obtain k where k: "woken = take k fds" unfolding woken_def using gets_to_prefix [of P "epoll_fd epoll" "\<lambda>a. ep_fd (the (args a))" fds s1] by blast
  have sub: "set woken \<subseteq> set fds" and d: "distinct (map snd woken)"
    using fds(2) by (auto simp: k take_map [symmetric] dest: in_set_takeD)
  have "snd ` set woken \<subseteq> fst ` set zs" using sub fds(1) by auto
  note f = registered_fibers [OF r(1) this d]
  obtain v' w' where v: "loop_suspend (resume_all (map (\<lambda>(ev, a). ep_yieldback (the (args a))) woken) v) = Some v'"
      "io_ready w (map (\<lambda>(ev, a). ep_yieldback (the (args a))) woken) = Some w'" "same_world v' w'"
      "io_fibers w' = filter (\<lambda>g. g \<notin> set (map (\<lambda>(ev, a). ep_yieldback (the (args a))) woken)) (io_fibers w)"
      "dfk__this_fiber w' \<noteq> NULL" "s_fiber (sched w') \<noteq> NULL"
    using wake_step [OF z(3,4) f(1) z(5,6)] by blast
  have "epoll_round S P epoll args v c s = Some (Switched, args', v', c', s')"
    using os l(1) v(1) by (simp add: epoll_round_def Let_def)
  moreover have "dfk_step w w'" by (rule dfk_step.eventloop [OF r(2) f(2,3) v(2)])
  moreover have "distinct (io_fibers w')" unfolding v(4) using z(4) by simp
  have "registered args' v' w' (filter (\<lambda>z. fst z \<notin> snd ` set woken) zs)"
  proof -
    have "\<forall>(a, arg)\<in>set (filter (\<lambda>z. fst z \<notin> snd ` set woken) zs). a \<noteq> NULL \<and> args' a = Some arg \<and> ep_yieldback arg \<noteq> NULL"
      using z(1) l(3) by fastforce
    moreover have "distinct (map fst (filter (\<lambda>z. fst z \<notin> snd ` set woken) zs))" by (rule distinct_map_filter [OF z(2)])
    ultimately show ?thesis using \<open>distinct (io_fibers w')\<close> v(3,5,6) v(4) [unfolded f(4)] unfolding registered_def by (intro conjI)
  qed
  moreover have "\<exists>arg. args' a = Some arg \<and> ep_events arg = ev" if "(ev, a) \<in> set woken" for ev a
  proof -
    have "a \<in> fst ` set zs" using that sub fds(1) by force
    then obtain arg where "args a = Some arg" using z(1) by auto
    then show ?thesis using l(2) that by fastforce
  qed
  then have "\<forall>(ev, a)\<in>set woken. \<exists>arg. args' a = Some arg \<and> ep_events arg = ev" by blast
  moreover have "woken \<noteq> []" unfolding woken_def by (rule gets_to_not_Nil [OF os(3)])
  moreover have "woken = fds" if "\<forall>d s. fst (p_del P (epoll_fd epoll) d s) \<noteq> -1" unfolding woken_def by (rule gets_to_all [OF that])
  ultimately show ?thesis using v(2) k by blast
qed

section \<open>A sample\<close>

text \<open>The event loop runs, and two fibers wait, one for reading from descriptor 5, one for writing to descriptor 7.\<close>

definition loop_sched :: dfk_scheduler_t where
  "loop_sched = \<lparr>s_fiber = 131072, s_current = 196608, s_eventloop = 196608, s_pending = [], s_iowait = 2, s_terminated = []\<rparr>"

definition loop_world :: "fiber list \<Rightarrow> dfk_world" where
  "loop_world io = \<lparr>senv = \<lparr>sizeof_fiber = 128, default_stack_size = 4096, DFK_STACK_GUARD_SIZE = 0, DFK_STACK_ALIGNMENT = 16\<rparr>,
     dfk_errno = dfk_err_ok, stacks = (\<lambda>_. None), sched = loop_sched, spc = S_drain [], running = 196608, cont = (\<lambda>_. At_io),
     fibers = {65536, 262144}, io_fibers = io, mutexes = (\<lambda>_. None), conds = (\<lambda>_. None)\<rparr>"

definition reader :: dfk_fdlist_element_t where
  "reader = \<lparr>e_fd = 5, e_events = SELECT_IO_IN, e_yieldback = 65536\<rparr>"

definition writer :: dfk_fdlist_element_t where
  "writer = \<lparr>e_fd = 7, e_events = SELECT_IO_OUT, e_yieldback = 262144\<rparr>"

definition two_waiting :: "select_loop" where
  "two_waiting = \<lparr>sl_hooks = [0x7000 \<mapsto> \<lparr>hook_next = 0x7100, hook_prev = NULL\<rparr>, 0x7100 \<mapsto> \<lparr>hook_next = NULL, hook_prev = 0x7000\<rparr>],
     sl_elems = [0x7000 \<mapsto> reader, 0x7100 \<mapsto> writer], sl_fds = \<lparr>list_head = 0x7000, list_tail = 0x7100, list_size = 2\<rparr>,
     sl_world = loop_world []\<rparr>"

lemma two_waiting_tracks: "tracks two_waiting (loop_world [65536, 262144]) [(0x7000, reader), (0x7100, writer)]"
  by (simp add: tracks_def two_waiting_def list_rep_def elems_at_def same_world_def loop_world_def loop_sched_def reader_def writer_def
      fd_in_range_def FD_SETSIZE_def dfk__this_fiber_def)

text \<open>A kernel that reports the descriptors to read from.\<close>

definition sample_select :: "int \<Rightarrow> fd_sets \<Rightarrow> kernel \<Rightarrow> int \<times> fd_sets \<times> kernel" where
  "sample_select n sets k = (int (card (readfds sets)), sets\<lparr>writefds := {}, exceptfds := {}\<rparr>, k)"

theorem select_wakes_ready_witness:
  "\<exists>st' w'. select_round sample_os sample_select two_waiting sample_ctx sample_kernel = Some (Switched, st', sample_ctx, sample_kernel)
    \<and> tracks st' w' [(0x7100, writer)] \<and> dfk__io_s_end st' 0x7000 = Some SELECT_IO_IN"
proof -
  let ?zs = "[(0x7000 :: addr, reader), (0x7100, writer)]"
  have r: "requested (map snd ?zs) = \<lparr>readfds = {5}, writefds = {7}, exceptfds = {5, 7}\<rparr>"
    by (auto simp: requested_def reader_def writer_def SELECT_IO_IN_def SELECT_IO_OUT_def)
  have s: "sample_select (highest (map snd ?zs) + 1) (requested (map snd ?zs)) sample_kernel
      = (1, \<lparr>readfds = {5}, writefds = {}, exceptfds = {}\<rparr>, sample_kernel)"
    unfolding r by (simp add: sample_select_def)
  let ?hit = "\<lambda>(a :: addr, e). any_reported \<lparr>readfds = {5}, writefds = {}, exceptfds = {}\<rparr> (e_fd e)"
  have h: "filter ?hit ?zs = [(0x7000, reader)]" "filter (\<lambda>z. \<not> ?hit z) ?zs = [(0x7100, writer)]"
    by (simp_all add: any_reported_def reader_def writer_def)
  have f: "reported \<lparr>readfds = {5}, writefds = {}, exceptfds = {}\<rparr> (e_fd reader) = SELECT_IO_IN"
    by (simp add: reported_def reader_def)
  have "filter ?hit ?zs \<noteq> []" unfolding h by simp
  from select_wakes_ready [where os_select = sample_select and s = sample_kernel and S = sample_os and c = sample_ctx, OF two_waiting_tracks s zero_less_one this] show ?thesis unfolding h by (auto simp: f)
qed

theorem select_registers_witness:
  "\<exists>st' w'. dfk__io_s_begin (two_waiting\<lparr>sl_world := (loop_world [])\<lparr>sched := loop_sched\<lparr>s_current := 327680\<rparr>\<rparr>\<rparr>) 0x7200 9 SELECT_IO_IN
      = Some st' \<and> tracks st' w' [(0x7000, reader), (0x7100, writer), (0x7200, \<lparr>e_fd = 9, e_events = SELECT_IO_IN, e_yieldback = 327680\<rparr>)]"
proof -
  let ?st = "two_waiting\<lparr>sl_world := (loop_world [])\<lparr>sched := loop_sched\<lparr>s_current := 327680\<rparr>\<rparr>\<rparr>"
  let ?w = "(loop_world [65536, 262144])\<lparr>sched := loop_sched\<lparr>s_current := 327680\<rparr>\<rparr>"
  have t: "tracks ?st ?w [(0x7000, reader), (0x7100, writer)]"
    by (simp add: tracks_def two_waiting_def list_rep_def elems_at_def same_world_def loop_world_def loop_sched_def reader_def writer_def
        fd_in_range_def FD_SETSIZE_def dfk__this_fiber_def)
  have f: "dfk__this_fiber ?w = 327680" by (simp add: dfk__this_fiber_def loop_sched_def)
  from select_registers [OF t, of "0x7200" 9 SELECT_IO_IN] show ?thesis unfolding f
    by (auto simp: loop_world_def fd_in_range_def FD_SETSIZE_def)
qed

theorem select_large_descriptor_witness:
  "select_round sample_os sample_select (two_waiting\<lparr>sl_elems := [0x7000 \<mapsto> reader, 0x7100 \<mapsto> writer\<lparr>e_fd := 1024\<rparr>]\<rparr>)
     sample_ctx sample_kernel = None"
  by (rule select_large_descriptor [of _ "[(0x7000, reader), (0x7100, writer\<lparr>e_fd := 1024\<rparr>)]"])
    (simp_all add: two_waiting_def list_rep_def fd_in_range_def FD_SETSIZE_def)

text \<open>Two fibers wait and one is reported.\<close>

definition one_reported :: "kernel epoll_os" where
  "one_reported = \<lparr>p_create = (\<lambda>k. (4, k)), p_wait = (\<lambda>fd n k. (1, [(DFK_IO_IN, 0x7000)], k)), p_del = (\<lambda>fd d k. (0, k))\<rparr>"

theorem epoll_wakes_ready_witness:
  "\<exists>args' v' w' c' s'. epoll_round sample_os one_reported \<lparr>epoll_fd = 4\<rparr>
      [0x7000 \<mapsto> \<lparr>ep_yieldback = 65536, ep_events = 0, ep_fd = 5\<rparr>, 0x7100 \<mapsto> \<lparr>ep_yieldback = 262144, ep_events = 0, ep_fd = 7\<rparr>]
      (loop_world []) sample_ctx sample_kernel = Some (Switched, args', v', c', s')
    \<and> dfk_step (loop_world [65536, 262144]) w'
    \<and> registered args' v' w' [(0x7100, \<lparr>ep_yieldback = 262144, ep_events = 0, ep_fd = 7\<rparr>)]"
proof -
  let ?args = "[0x7000 \<mapsto> \<lparr>ep_yieldback = 65536, ep_events = 0, ep_fd = 5\<rparr>, 0x7100 \<mapsto> \<lparr>ep_yieldback = 262144, ep_events = 0, ep_fd = 7\<rparr>]"
  let ?zs = "[(0x7000, \<lparr>ep_yieldback = 65536, ep_events = 0, ep_fd = 5\<rparr>), (0x7100, \<lparr>ep_yieldback = 262144, ep_events = 0, ep_fd = 7\<rparr>)]"
  let ?w = "loop_world [65536, 262144]"
  have w: "registered ?args (loop_world []) ?w ?zs" "running ?w = s_eventloop (sched ?w)"
    by (simp_all add: registered_def same_world_def loop_world_def loop_sched_def dfk__this_fiber_def)
  have o1: "epoll_fd \<lparr>epoll_fd = 4\<rparr> \<noteq> 0"
      "p_wait one_reported (epoll_fd \<lparr>epoll_fd = 4\<rparr>) 64 sample_kernel = (int (length [(DFK_IO_IN, 0x7000)]), [(DFK_IO_IN, 0x7000)], sample_kernel)"
      "[(DFK_IO_IN, 0x7000 :: addr)] \<noteq> []"
    by (simp_all add: one_reported_def)
  from epoll_wakes_ready [OF w o1, of sample_os sample_ctx] show ?thesis by (auto simp: one_reported_def)
qed

end
