(* ===== verification/Dfk_Signal.thy ===== *)
theory Dfk_Signal
  imports Dfk_Arena Dfk_Socket
begin

text \<open>
  Waiting for signals: \<^verbatim>\<open>src/signal.c\<close>. A fiber that waits has a pipe and an element in a static list; the signal handler writes
  to the pipes of the elements that wait for the signal. \<^verbatim>\<open>dfk__sigwait\<close> is split where the fiber waits for its pipe, since
  the handler and other fibers run there.

  The elements lie on the stacks of the fibers. A C array is given by its contents; an index behind its end is an
  access outside of it.
\<close>

section \<open>State\<close>

record waiting_fiber_t =
  wf_wfd :: fd
  wf_signum0 :: int
  wf_signum1 :: int

record signal_state =
  sg_hooks :: hooks
  sg_elems :: "waiting_fiber_t mem"
  sg_waiting :: dfk_list_t

text \<open>\<open>g_pipe\<close> is \<^verbatim>\<open>pipe2\<close> where there is one, and \<^verbatim>\<open>pipe\<close> elsewhere; it gives the descriptors to read from and to write to.\<close>

record 'o signal_os =
  g_pipe :: "'o \<Rightarrow> int \<times> fd \<times> fd \<times> 'o"
  g_sigaction :: "int \<Rightarrow> 'o \<Rightarrow> int \<times> 'o"

definition array_get :: "'a list \<Rightarrow> nat \<Rightarrow> 'a option" where
  "array_get xs i = (if i < length xs then Some (xs ! i) else None)"

section \<open>The handler\<close>

definition waits_for :: "int \<Rightarrow> waiting_fiber_t \<Rightarrow> bool" where
  "waits_for signum wt \<longleftrightarrow> wf_signum0 wt = signum \<or> wf_signum1 wt = signum"

partial_function (option) sighandler_loop ::
  "'o os_ops \<Rightarrow> signal_state \<Rightarrow> int \<Rightarrow> dfk_list_it \<Rightarrow> dfk_list_it \<Rightarrow> 'o \<Rightarrow> 'o option" where
  "sighandler_loop S st signum it stop s = do {
     eq \<leftarrow> dfk_list_it_equal (sg_hooks st) it stop;
     if eq then Some s
     else do {
       wt \<leftarrow> load (sg_elems st) (it_value it);
       let s = (if waits_for signum wt then snd (os_write S (wf_wfd wt) [27] s) else s);
       it \<leftarrow> dfk_list_it_next (sg_hooks st) it;
       sighandler_loop S st signum it stop s
     }
   }"

definition dfk__sighandler :: "'o os_ops \<Rightarrow> signal_state \<Rightarrow> int \<Rightarrow> 'o \<Rightarrow> 'o option" where
  "dfk__sighandler S st signum s = do {
     it \<leftarrow> dfk_list_begin (sg_hooks st) (sg_waiting st);
     stop \<leftarrow> dfk_list_end (sg_hooks st) (sg_waiting st);
     sighandler_loop S st signum it stop s
   }"

section \<open>Waiting\<close>

definition dfk__create_pipe ::
  "'o os_ops \<Rightarrow> 'o signal_os \<Rightarrow> bool \<Rightarrow> dfk_ctx \<Rightarrow> 'o \<Rightarrow> dfk_error_e \<times> (fd \<times> fd) \<times> dfk_ctx \<times> 'o" where
  "dfk__create_pipe S G pipe2 c s = (case g_pipe G s of (ret, r, w, s) \<Rightarrow>
     if ret \<noteq> 0 then (dfk_err_sys, (r, w), error_syscall S c s, s)
     else if pipe2 then (dfk_err_ok, (r, w), c, s)
     else
       let (err, c, s) = dfk__make_nonblock S c r s;
         (err, c, s) = (if err \<noteq> dfk_err_ok then (err, c, s) else dfk__make_nonblock S c w s)
       in if err \<noteq> dfk_err_ok then
            (let (_, c, s) = dfk__close S c r s; (_, c, s) = dfk__close S c w s in (err, (r, w), c, s))
          else (dfk_err_ok, (r, w), c, s))"

text \<open>The flag tells whether all handlers have been set.\<close>

fun sigaction_loop :: "'o os_ops \<Rightarrow> 'o signal_os \<Rightarrow> int list \<Rightarrow> dfk_ctx \<Rightarrow> 'o \<Rightarrow> bool \<times> dfk_ctx \<times> 'o" where
  "sigaction_loop S G [] c s = (True, c, s)"
| "sigaction_loop S G (signum # signums) c s = (case g_sigaction G signum s of (ret, s) \<Rightarrow>
     if ret \<noteq> 0 then (False, error_syscall S c s, s) else sigaction_loop S G signums c s)"

definition dfk__sigwait_begin ::
  "'o os_ops \<Rightarrow> 'o signal_os \<Rightarrow> bool \<Rightarrow> nat \<Rightarrow> int list \<Rightarrow> addr \<Rightarrow> signal_state \<Rightarrow> dfk_ctx \<Rightarrow> 'o
    \<Rightarrow> ((dfk_error_e + fd \<times> fd) \<times> signal_state \<times> dfk_ctx \<times> 'o) option" where
  "dfk__sigwait_begin S G pipe2 nsignals signum at st c s = do {
     c_assert (nsignals \<noteq> 0);
     let (err, (r, w), c, s) = dfk__create_pipe S G pipe2 c s;
     if err \<noteq> dfk_err_ok then Some (Inl err, st, c, s)
     else do {
       signum0 \<leftarrow> array_get signum 0;
       signum1 \<leftarrow> (if nsignals \<noteq> 0 then array_get signum 1 else Some 0);
       let st = st\<lparr>sg_elems := (sg_elems st)(at \<mapsto> \<lparr>wf_wfd = w, wf_signum0 = signum0, wf_signum1 = signum1\<rparr>)\<rparr>;
       h \<leftarrow> dfk_list_hook_init (fresh_hook (sg_hooks st) at) at;
       (h, l) \<leftarrow> dfk_list_append h (sg_waiting st) at;
       let st = st\<lparr>sg_hooks := h, sg_waiting := l\<rparr>;
       c_assert (nsignals \<le> length signum);
       let (done, c, s) = sigaction_loop S G (take nsignals signum) c s;
       if \<not> done then (let (_, c, s) = dfk__close S c r s; (_, c, s) = dfk__close S c w s in Some (Inl dfk_err_sys, st, c, s))
       else Some (Inr (r, w), st, c, s)
     }
   }"

text \<open>Behind the read of one byte from the pipe: \<open>nread\<close> is its result.\<close>

definition dfk__sigwait_end ::
  "'o os_ops \<Rightarrow> int \<Rightarrow> fd \<times> fd \<Rightarrow> addr \<Rightarrow> signal_state \<Rightarrow> dfk_ctx \<Rightarrow> 'o \<Rightarrow> (dfk_error_e \<times> signal_state \<times> dfk_ctx \<times> 'o) option" where
  "dfk__sigwait_end S nread pipefd at st c s = do {
     let finalerr = (if nread < 0 then dfk_err_sys else dfk_err_ok);
     it \<leftarrow> dfk_list_it_from_value (sg_hooks st) (sg_waiting st) at;
     (h, l) \<leftarrow> dfk_list_erase (sg_hooks st) (sg_waiting st) it;
     let st = st\<lparr>sg_hooks := h, sg_waiting := l\<rparr>;
     let (err, c, s) = dfk__close S c (fst pipefd) s;
     let finalerr = (if finalerr = dfk_err_ok \<and> err \<noteq> dfk_err_ok then err else finalerr);
     let (err, c, s) = dfk__close S c (snd pipefd) s;
     let finalerr = (if finalerr = dfk_err_ok \<and> err \<noteq> dfk_err_ok then err else finalerr);
     Some (finalerr, st, c, s)
   }"

definition dfk_sigwait ::
  "'o os_ops \<Rightarrow> 'o signal_os \<Rightarrow> bool \<Rightarrow> int \<Rightarrow> addr \<Rightarrow> signal_state \<Rightarrow> dfk_ctx \<Rightarrow> 'o
    \<Rightarrow> ((dfk_error_e + fd \<times> fd) \<times> signal_state \<times> dfk_ctx \<times> 'o) option" where
  "dfk_sigwait S G pipe2 signum at st c s = dfk__sigwait_begin S G pipe2 1 [signum] at st c s"

definition dfk_sigwait2 ::
  "'o os_ops \<Rightarrow> 'o signal_os \<Rightarrow> bool \<Rightarrow> int \<Rightarrow> int \<Rightarrow> addr \<Rightarrow> signal_state \<Rightarrow> dfk_ctx \<Rightarrow> 'o
    \<Rightarrow> ((dfk_error_e + fd \<times> fd) \<times> signal_state \<times> dfk_ctx \<times> 'o) option" where
  "dfk_sigwait2 S G pipe2 signum1 signum2 at st c s = dfk__sigwait_begin S G pipe2 2 [signum1, signum2] at st c s"

section \<open>Properties\<close>

text \<open>The fibers that wait, in the order of the list.\<close>

definition waiting :: "signal_state \<Rightarrow> (addr \<times> waiting_fiber_t) list \<Rightarrow> bool" where
  "waiting st zs \<longleftrightarrow> list_rep (sg_hooks st) (sg_waiting st) (map fst zs) \<and> (\<forall>(a, wt)\<in>set zs. sg_elems st a = Some wt)"

definition notify :: "'o os_ops \<Rightarrow> waiting_fiber_t list \<Rightarrow> 'o \<Rightarrow> 'o" where
  "notify S wfs s = fold (\<lambda>wt s. snd (os_write S (wf_wfd wt) [27] s)) wfs s"

lemma sighandler_loop_ok:
  assumes "list_rep (sg_hooks st) (sg_waiting st) (xs @ map fst zs)" "\<forall>(a, wt)\<in>set zs. sg_elems st a = Some wt"
  shows "sighandler_loop S st signum \<lparr>it_value = hd_or (map fst zs) NULL\<rparr> \<lparr>it_value = NULL\<rparr> s
    = Some (notify S (filter (waits_for signum) (map snd zs)) s)"
  using assms
proof (induction zs arbitrary: xs s)
  case Nil
  then show ?case using list_it_equal_spec [OF Nil(1)] by (subst sighandler_loop.simps) (simp add: notify_def)
next
  case (Cons z zs)
  obtain a wt where z: "z = (a, wt)" by (cases z)
  have a: "a \<noteq> NULL" using Cons.prems(1) z list_rep_not_NULL by fastforce
  have r: "list_rep (sg_hooks st) (sg_waiting st) (xs @ a # map fst zs)" using Cons.prems(1) z by simp
  have e: "sg_elems st a = Some wt" using Cons.prems(2) z by simp
  let ?s = "if waits_for signum wt then snd (os_write S (wf_wfd wt) [27] s) else s"
  have "sighandler_loop S st signum \<lparr>it_value = hd_or (map fst zs) NULL\<rparr> \<lparr>it_value = NULL\<rparr> ?s
      = Some (notify S (filter (waits_for signum) (map snd zs)) ?s)"
    by (rule Cons.IH [of "xs @ [a]"]) (use r Cons.prems(2) in auto)
  then show ?case using a e list_it_equal_spec [OF r] list_it_next_spec [OF r, of "\<lparr>it_value = a\<rparr>"] z
    by (subst sighandler_loop.simps) (simp add: Let_def notify_def)
qed

lemma sighandler_ok:
  "waiting st zs \<Longrightarrow> dfk__sighandler S st signum s = Some (notify S (filter (waits_for signum) (map snd zs)) s)"
  using sighandler_loop_ok [of st "[]" zs] list_begin_spec list_end_spec
  by (fastforce simp: waiting_def dfk__sighandler_def)

text \<open>
  C28. Waiting for two signals. A call that gets its pipe and its handlers registers the fiber at the end of the list. From then on,
  and as long as it is there, whoever else comes and goes, the handler of either signal writes one byte to its pipe and one to
  the pipe of each other fiber that waits for the signal. When the fiber goes on it leaves the list to the others and closes both ends of
  its pipe, the one it reads from first, each exactly once and whatever the other one returns; the call reports dfk_err_sys if the
  read or one of these fails, and dfk_err_ok otherwise.
\<close>

theorem sigwait_registers_and_leaves:
  assumes w: "waiting st zs" "at \<noteq> NULL" "at \<notin> fst ` set zs"
    and call: "dfk_sigwait2 S G pipe2 signum1 signum2 at st c s = Some (Inr (r, f), st1, c1, s1)"
  shows "\<exists>wt. waiting st1 (zs @ [(at, wt)]) \<and> wf_wfd wt = f \<and> (\<forall>signum. waits_for signum wt \<longleftrightarrow> signum \<in> {signum1, signum2})
    \<and> (\<forall>st' xs ys signum s. waiting st' (xs @ (at, wt) # ys) \<longrightarrow> signum \<in> {signum1, signum2} \<longrightarrow>
        dfk__sighandler S st' signum s = Some (notify S (filter (waits_for signum) (map snd xs) @ wt # filter (waits_for signum) (map snd ys)) s))
    \<and> (\<forall>st' xs ys nread c s. waiting st' (xs @ (at, wt) # ys) \<longrightarrow>
        (\<exists>st'' c'. dfk__sigwait_end S nread (r, f) at st' c s = Some
            (if nread < 0 \<or> fst (os_close S r s) = -1 \<or> fst (os_close S f (snd (os_close S r s))) = -1 then dfk_err_sys else dfk_err_ok,
             st'', c', snd (os_close S f (snd (os_close S r s)))) \<and> waiting st'' (xs @ ys)))"
proof -
  let ?wt = "\<lparr>wf_wfd = f, wf_signum0 = signum1, wf_signum1 = signum2\<rparr>"
  have rep: "list_rep (sg_hooks st) (sg_waiting st) (map fst zs)" "\<forall>(a, wt)\<in>set zs. sg_elems st a = Some wt"
    using w(1) by (simp_all add: waiting_def)
  have e: "list_rep (sg_hooks st) \<lparr>list_head = NULL, list_tail = NULL, list_size = 0\<rparr> []" by (simp add: list_rep_Nil)
  obtain h1 h2 l where l: "dfk_list_hook_init (fresh_hook (sg_hooks st) at) at = Some h1" "dfk_list_append h1 (sg_waiting st) at = Some (h2, l)"
      "list_rep h2 l (map fst zs @ [at])"
    by (rule link_fresh [OF rep(1) e w(2)]) (use w(3) in auto)
  have st1: "st1 = st\<lparr>sg_elems := (sg_elems st)(at \<mapsto> ?wt), sg_hooks := h2, sg_waiting := l\<rparr>"
    using call l(1,2)
    by (auto simp: dfk_sigwait2_def dfk__sigwait_begin_def array_get_def Let_def bind_eq_Some_conv numeral_2_eq_2 split: prod.splits if_splits)
  have "waiting st1 (zs @ [(at, ?wt)])" using l(3) rep(2) w(3) by (force simp: st1 waiting_def)
  moreover have "dfk__sighandler S st' signum s
      = Some (notify S (filter (waits_for signum) (map snd xs) @ ?wt # filter (waits_for signum) (map snd ys)) s)"
    if "waiting st' (xs @ (at, ?wt) # ys)" "signum \<in> {signum1, signum2}" for st' xs ys signum s
    using sighandler_ok [OF that(1), of S signum s] that(2) by (auto simp: waits_for_def)
  moreover have "\<exists>st'' c'. dfk__sigwait_end S nread (r, f) at st' c s = Some
        (if nread < 0 \<or> fst (os_close S r s) = -1 \<or> fst (os_close S f (snd (os_close S r s))) = -1 then dfk_err_sys else dfk_err_ok,
         st'', c', snd (os_close S f (snd (os_close S r s)))) \<and> waiting st'' (xs @ ys)"
    if a: "waiting st' (xs @ (at, ?wt) # ys)" for st' xs ys nread c s
  proof -
    have rr: "list_rep (sg_hooks st') (sg_waiting st') (map fst xs @ at # map fst ys)" using a by (simp add: waiting_def)
    obtain h l where er: "dfk_list_erase (sg_hooks st') (sg_waiting st') \<lparr>it_value = at\<rparr> = Some (h, l)" "list_rep h l (map fst xs @ map fst ys)"
      using list_erase_spec [OF rr, of "\<lparr>it_value = at\<rparr>"] by auto
    then have "waiting (st'\<lparr>sg_hooks := h, sg_waiting := l\<rparr>) (xs @ ys)" using a by (auto simp: waiting_def)
    moreover have "\<exists>c'. dfk__close S c fd s = (if fst (os_close S fd s) = -1 then dfk_err_sys else dfk_err_ok, c', snd (os_close S fd s))"
      for c fd s by (simp add: dfk__close_def split: prod.split)
    then obtain c1 c2 where "dfk__close S c r s = (if fst (os_close S r s) = -1 then dfk_err_sys else dfk_err_ok, c1, snd (os_close S r s))"
        "dfk__close S c1 f (snd (os_close S r s)) = (if fst (os_close S f (snd (os_close S r s))) = -1 then dfk_err_sys else dfk_err_ok, c2,
          snd (os_close S f (snd (os_close S r s))))"
      by blast
    ultimately show ?thesis using er(1) list_it_from_value_spec [OF rr, of at] by (auto simp: dfk__sigwait_end_def Let_def)
  qed
  ultimately show ?thesis by (intro exI [of _ ?wt]) (auto simp: waits_for_def)
qed

text \<open>
  \<^verbatim>\<open>dfk_sigwait\<close> passes the address of one signal number to a function that reads two: whenever the pipe has been created,
  the call accesses memory behind its argument.
\<close>

theorem sigwait_reads_behind:
  assumes "dfk__create_pipe S G pipe2 c s = (dfk_err_ok, fds, c', s')"
  shows "dfk_sigwait S G pipe2 signum at st c s = None"
  using assms by (cases fds) (simp add: dfk_sigwait_def dfk__sigwait_begin_def array_get_def)

text \<open>
  When a handler cannot be set, \<^verbatim>\<open>dfk_sigwait2\<close> returns an error but leaves the element of its stack frame in the list: the next
  signal, or the next fiber that waits, uses it.
\<close>

theorem sigwait_failure_stays_linked:
  assumes "waiting st zs" "at \<noteq> NULL" "at \<notin> fst ` set zs" "dfk__create_pipe S G pipe2 c s = (dfk_err_ok, (r, f), c0, s0)"
    and "sigaction_loop S G [signum1, signum2] c0 s0 = (False, c1, s1)"
  shows "\<exists>st' c' s'. dfk_sigwait2 S G pipe2 signum1 signum2 at st c s = Some (Inl dfk_err_sys, st', c', s')
    \<and> list_rep (sg_hooks st') (sg_waiting st') (map fst zs @ [at])"
proof -
  have rep: "list_rep (sg_hooks st) (sg_waiting st) (map fst zs)" using assms(1) by (simp add: waiting_def)
  have e: "list_rep (sg_hooks st) \<lparr>list_head = NULL, list_tail = NULL, list_size = 0\<rparr> []" by (simp add: list_rep_Nil)
  obtain h1 h2 l where "dfk_list_hook_init (fresh_hook (sg_hooks st) at) at = Some h1" "dfk_list_append h1 (sg_waiting st) at = Some (h2, l)"
      "list_rep h2 l (map fst zs @ [at])"
    by (rule link_fresh [OF rep e assms(2)]) (use assms(3) in auto)
  then show ?thesis using assms(4,5)
    by (auto simp: dfk_sigwait2_def dfk__sigwait_begin_def array_get_def Let_def split: prod.splits)
qed

section \<open>A sample\<close>

definition sample_signals :: "kernel signal_os" where
  "sample_signals = \<lparr>g_pipe = (\<lambda>k. (0, 10, 11, k)), g_sigaction = (\<lambda>n k. (if n = 9 then -1 else 0, k))\<rparr>"

definition nobody_waits :: signal_state where
  "nobody_waits = \<lparr>sg_hooks = (\<lambda>_. None), sg_elems = (\<lambda>_. None), sg_waiting = \<lparr>list_head = NULL, list_tail = NULL, list_size = 0\<rparr>\<rparr>"

lemma nobody_waiting: "waiting nobody_waits []"
  by (simp add: waiting_def nobody_waits_def list_rep_Nil)

lemma sample_pipe: "dfk__create_pipe sample_os sample_signals True c k = (dfk_err_ok, (10, 11), c, k)"
  by (simp add: dfk__create_pipe_def sample_signals_def)

theorem sigwait_registers_and_leaves_witness:
  "\<exists>st1 c1 s1 wt. dfk_sigwait2 sample_os sample_signals True 2 15 0x7000 nobody_waits sample_ctx sample_kernel = Some (Inr (10, 11), st1, c1, s1)
    \<and> waiting st1 [(0x7000, wt)] \<and> dfk__sighandler sample_os st1 15 sample_kernel = Some (sample_kernel\<lparr>k_room := [1], k_sent := [27]\<rparr>)"
proof -
  have e: "list_rep (\<lambda>_. None) \<lparr>list_head = NULL, list_tail = NULL, list_size = 0\<rparr> []" by (simp add: list_rep_Nil)
  obtain h1 h2 l where "dfk_list_hook_init (fresh_hook (\<lambda>_. None) 0x7000) 0x7000 = Some h1"
      "dfk_list_append h1 \<lparr>list_head = NULL, list_tail = NULL, list_size = 0\<rparr> 0x7000 = Some (h2, l)"
    by (rule link_fresh [OF e e, of "0x7000"]) auto
  moreover have "sigaction_loop sample_os sample_signals [2, 15] c k = (True, c, k)" for c k by (simp add: sample_signals_def)
  ultimately obtain st1 c1 s1 where call: "dfk_sigwait2 sample_os sample_signals True 2 15 0x7000 nobody_waits sample_ctx sample_kernel
      = Some (Inr (10, 11), st1, c1, s1)"
    by (simp add: dfk_sigwait2_def dfk__sigwait_begin_def sample_pipe array_get_def nobody_waits_def Let_def)
  from sigwait_registers_and_leaves [OF nobody_waiting _ _ call] obtain wt where wt: "waiting st1 [(0x7000, wt)]" "wf_wfd wt = 11"
      "\<forall>st' xs ys signum s. waiting st' (xs @ (0x7000, wt) # ys) \<longrightarrow> signum \<in> {2, 15} \<longrightarrow>
        dfk__sighandler sample_os st' signum s
          = Some (notify sample_os (filter (waits_for signum) (map snd xs) @ wt # filter (waits_for signum) (map snd ys)) s)"
    by auto
  have "dfk__sighandler sample_os st1 15 sample_kernel = Some (notify sample_os [wt] sample_kernel)"
    using wt(3) [rule_format, of st1 "[]" "[]" 15 sample_kernel] wt(1) by simp
  then show ?thesis using call wt(1)
    by (auto simp: notify_def sample_os_def kernel_write_def sample_kernel_def)
qed

theorem sigwait_reads_behind_witness:
  "dfk_sigwait sample_os sample_signals True 15 0x7000 nobody_waits sample_ctx sample_kernel = None"
  by (rule sigwait_reads_behind [OF sample_pipe])

theorem sigwait_failure_stays_linked_witness:
  "\<exists>st' c' s'. dfk_sigwait2 sample_os sample_signals True 9 15 0x7000 nobody_waits sample_ctx sample_kernel = Some (Inl dfk_err_sys, st', c', s')
    \<and> list_rep (sg_hooks st') (sg_waiting st') [0x7000]"
proof -
  have "sigaction_loop sample_os sample_signals [9, 15] sample_ctx sample_kernel
      = (False, error_syscall sample_os sample_ctx sample_kernel, sample_kernel)"
    by (simp add: sample_signals_def)
  from sigwait_failure_stays_linked [OF nobody_waiting _ _ sample_pipe this, of "0x7000"] show ?thesis by simp
qed

end
