(* ===== verification/Dfk_Fileserver.thy ===== *)
theory Dfk_Fileserver
  imports Dfk_Http_Response Dfk_Http_Request
begin

text \<open>
  The handler that serves files: \<^verbatim>\<open>src/middleware/fileserver.c\<close>, over the arena and the path of a request, the list and the
  response.

  The file system is a parameter. A path is given to it by the bytes in front of the terminating zero; a directory entry is given by
  its type and name. The base path and the I/O buffer are blocks of the user's allocator, which this file calls directly. The
  strings of the page are given by their contents.
\<close>

section \<open>The file system\<close>

record dirent =
  de_type :: "8 word"
  de_name :: "byte list"

record file_stat =
  st_mode :: "32 word"
  st_size :: int

text \<open>\<open>f_readdir\<close> is \<^verbatim>\<open>readdir_r\<close>: its return value, and the entry unless the directory has come to its end.\<close>

record 'o file_os =
  f_stat :: "byte list \<Rightarrow> 'o \<Rightarrow> int \<times> file_stat \<times> 'o"
  f_opendir :: "byte list \<Rightarrow> 'o \<Rightarrow> addr \<times> 'o"
  f_readdir :: "addr \<Rightarrow> 'o \<Rightarrow> int \<times> dirent option \<times> 'o"
  f_closedir :: "addr \<Rightarrow> 'o \<Rightarrow> 'o"
  f_fopen :: "byte list \<Rightarrow> 'o \<Rightarrow> addr \<times> 'o"
  f_fread :: "addr \<Rightarrow> nat \<Rightarrow> 'o \<Rightarrow> byte list \<times> 'o"
  f_fclose :: "addr \<Rightarrow> 'o \<Rightarrow> 'o"

abbreviation ENOENT :: errno where "ENOENT \<equiv> E_other 2"
abbreviation ENOTDIR :: errno where "ENOTDIR \<equiv> E_other 20"

definition S_IFDIR :: "32 word" where "S_IFDIR = 0x4000"
definition DT_DIR :: "8 word" where "DT_DIR = 4"
definition DT_REG :: "8 word" where "DT_REG = 8"

section \<open>The server\<close>

record dfk_fileserver_t =
  fs_basepath :: addr
  fs_basepathlen :: size_t
  fs_io_buf_size :: size_t
  fs_autoindex :: bool

text \<open>The callbacks of the user for memory.\<close>

definition user_malloc :: "dfk_env \<Rightarrow> cmem \<Rightarrow> size_t \<Rightarrow> cmem \<times> addr" where
  "user_malloc env m n = (case dfk_malloc env m n of None \<Rightarrow> (m, NULL)
     | Some (res, junk) \<Rightarrow> (\<lparr>mem_bytes = put_bytes (mem_bytes m) res junk, mem_blocks = (mem_blocks m)(res \<mapsto> length junk)\<rparr>, res))"

definition user_free :: "cmem \<Rightarrow> addr \<Rightarrow> cmem option" where
  "user_free m p = do {
     n \<leftarrow> mem_blocks m p;
     Some \<lparr>mem_bytes = (\<lambda>a. if a \<in> range_of p n then None else mem_bytes m a), mem_blocks = (mem_blocks m)(p := None)\<rparr>
   }"

definition dfk_fileserver_init ::
  "dfk_env \<Rightarrow> size_t \<Rightarrow> cmem \<Rightarrow> dfk_fileserver_t \<Rightarrow> byte list \<Rightarrow> (dfk_error_e \<times> dfk_fileserver_t \<times> cmem) option" where
  "dfk_fileserver_init env bufsize m fs basepath = do {
     let (m, p) = user_malloc env m (of_nat (length basepath));
     let fs = fs\<lparr>fs_basepath := p\<rparr>;
     if p = NULL then Some (dfk_err_nomem, fs, m)
     else do {
       m \<leftarrow> mem_store m p basepath;
       Some (dfk_err_ok, fs\<lparr>fs_basepathlen := of_nat (length basepath), fs_io_buf_size := bufsize, fs_autoindex := True\<rparr>, m)
     }
   }"

definition dfk_fileserver_free :: "cmem \<Rightarrow> dfk_fileserver_t \<Rightarrow> (dfk_error_e \<times> cmem) option" where
  "dfk_fileserver_free m fs = do {
     m \<leftarrow> user_free m (fs_basepath fs);
     Some (dfk_err_ok, m)
   }"

text \<open>As on Linux. An entry that is neither a directory nor a regular file is listed.\<close>

definition ignore_file :: "dirent \<Rightarrow> bool" where
  "ignore_file de = (if de_type de AND (DT_DIR OR DT_REG) = 0 then False else de_name de = str ''.'' \<or> de_name de = str ''..'')"

text \<open>The path of the file: the base path, the path of the request and a zero, in the arena. \<open>None\<close> when there is no memory.\<close>

definition fileserver_path ::
  "dfk_env \<Rightarrow> dfk_fileserver_t \<Rightarrow> 'p dfk_http_request_t \<Rightarrow> 'o http_world \<Rightarrow> (byte list option \<times> 'o http_world) option" where
  "fileserver_path env fs req w = do {
     let fullpathlen = fs_basepathlen fs + buf_size (req_path req) + 1;
     (w, fullpath) \<leftarrow> world_alloc env w fullpathlen;
     if fullpath = NULL then Some (None, w)
     else do {
       base \<leftarrow> mem_load (hw_heap w) (fs_basepath fs) (unat (fs_basepathlen fs));
       heap \<leftarrow> mem_store (hw_heap w) fullpath base;
       path \<leftarrow> mem_load heap (buf_data (req_path req)) (unat (buf_size (req_path req)));
       heap \<leftarrow> mem_store heap (fullpath + fs_basepathlen fs) path;
       heap \<leftarrow> mem_store heap (fullpath + (fullpathlen - 1)) [0];
       bs \<leftarrow> mem_load heap fullpath (unat fullpathlen);
       Some (Some (c_string bs), with_heap w heap)
     }
   }"

subsection \<open>Directories\<close>

text \<open>The next entry that is not ignored: \<open>Inr None\<close> at the end, \<open>Inl\<close> on an error.\<close>

partial_function (option) next_entry :: "'o file_os \<Rightarrow> addr \<Rightarrow> 'o \<Rightarrow> ((unit + dirent option) \<times> 'o) option" where
  "next_entry F dp s = (case f_readdir F dp s of (ret, res, s) \<Rightarrow>
     if ret \<noteq> 0 then Some (Inl (), s)
     else (case res of None \<Rightarrow> Some (Inr None, s)
       | Some de \<Rightarrow> if \<not> ignore_file de then Some (Inr (Some de), s) else next_entry F dp s))"

text \<open>A list hook and a directory entry of 280 bytes.\<close>

definition sizeof_dirent_list_item :: size_t where
  "sizeof_dirent_list_item = 296"

text \<open>
  The entries are read into items of the arena, which are linked into a list; \<open>ents\<close> are the entries by the addresses of their
  items. The flag tells whether the directory has been read.
\<close>

partial_function (option) read_directory ::
  "dfk_env \<Rightarrow> 'o file_os \<Rightarrow> addr \<Rightarrow> dirent mem \<Rightarrow> dfk_list_t \<Rightarrow> 'o http_world
    \<Rightarrow> (bool \<times> dirent mem \<times> dfk_list_t \<times> 'o http_world) option" where
  "read_directory env F dp ents filelist w = do {
     (w, dei) \<leftarrow> world_alloc env w sizeof_dirent_list_item;
     if dei = NULL then Some (False, ents, filelist, w\<lparr>hw_os := f_closedir F dp (hw_os w)\<rparr>)
     else do {
       h \<leftarrow> dfk_list_hook_init (fresh_hook (hw_lists w) dei) dei;
       let w = with_lists w h;
       (res, s) \<leftarrow> next_entry F dp (hw_os w);
       let w = w\<lparr>hw_os := s\<rparr>;
       case res of Inl u \<Rightarrow> Some (False, ents, filelist, w\<lparr>hw_os := f_closedir F dp (hw_os w)\<rparr>)
       | Inr None \<Rightarrow> Some (True, ents, filelist, w\<lparr>hw_os := f_closedir F dp (hw_os w)\<rparr>)
       | Inr (Some de) \<Rightarrow> do {
           (h, filelist) \<leftarrow> dfk_list_append (hw_lists w) filelist dei;
           read_directory env F dp (ents(dei \<mapsto> de)) filelist (with_lists w h)
         }
     }
   }"

text \<open>The strings of the page, the longer ones with their terminating zero, which the code counts as a part of them.\<close>

definition newline :: "byte list" where "newline = [10]"

definition autoindex_header_1 :: "byte list" where
  "autoindex_header_1 = str ''<html>'' @ newline @ str ''  <head>'' @ newline @ str ''    <title>Directory listing for '' @ [0]"

definition autoindex_header_2 :: "byte list" where
  "autoindex_header_2 = str ''</title>'' @ newline @ str ''  </head>'' @ newline @ str ''  <body>'' @ newline
     @ str ''    <h2>Directory listing for '' @ [0]"

definition autoindex_header_3 :: "byte list" where
  "autoindex_header_3 = str ''</h2>'' @ newline @ str ''    <hr>'' @ newline @ str ''    <ul>'' @ newline @ [0]"

definition autoindex_footer :: "byte list" where
  "autoindex_footer = str ''    </ul>'' @ newline @ str ''    <hr>'' @ newline @ str ''  </body>'' @ newline @ str ''</html>'' @ newline @ [0]"

definition link_start :: "byte list" where
  "link_start = str ''      <li><a href='' @ [34]"

definition link_middle :: "byte list" where
  "link_middle = [34, 62]"

definition link_end :: "byte list" where
  "link_end = str ''</a></li>'' @ newline"

definition entry_iov :: "byte list \<Rightarrow> bool \<Rightarrow> byte list \<Rightarrow> byte list list" where
  "entry_iov path add_separator name = [link_start, path] @ (if add_separator then [str ''/''] else []) @ [name, link_middle, name, link_end]"

partial_function (option) listing_iov ::
  "hooks \<Rightarrow> dirent mem \<Rightarrow> byte list \<Rightarrow> bool \<Rightarrow> nat \<Rightarrow> dfk_list_it \<Rightarrow> dfk_list_it \<Rightarrow> byte list list \<Rightarrow> byte list list option" where
  "listing_iov h ents path add_separator niov it stop iov = do {
     eq \<leftarrow> dfk_list_it_equal h it stop;
     if eq then Some iov
     else do {
       de \<leftarrow> load ents (it_value it);
       let entry = entry_iov path add_separator (take 256 (de_name de));
       c_assert (length iov + length entry \<le> niov);
       it \<leftarrow> dfk_list_it_next h it;
       listing_iov h ents path add_separator niov it stop (iov @ entry)
     }
   }"

definition serve_directory ::
  "dfk_env \<Rightarrow> 'o os_ops \<Rightarrow> 'o file_os \<Rightarrow> 'p dfk_http_request_t \<Rightarrow> dfk_http_response_t \<Rightarrow> byte list \<Rightarrow> 'o http_world
    \<Rightarrow> (dfk_error_e \<times> dfk_http_response_t \<times> 'o http_world) option" where
  "serve_directory env S F req resp fullpath w = do {
     let (dp, s) = f_opendir F fullpath (hw_os w);
     let w = w\<lparr>hw_os := s\<rparr>;
     filelist \<leftarrow> dfk_list_init (hw_lists w);
     if dp = NULL then Some (dfk_err_ok, resp\<lparr>resp_status := status_code DFK_HTTP_INTERNAL_SERVER_ERROR\<rparr>, w)
     else do {
       (done, ents, filelist, w) \<leftarrow> read_directory env F dp (\<lambda>_. None) filelist w;
       if \<not> done then Some (dfk_err_ok, resp\<lparr>resp_status := status_code DFK_HTTP_INTERNAL_SERVER_ERROR\<rparr>, w)
       else do {
         n \<leftarrow> dfk_list_size (hw_lists w) filelist;
         tail_byte \<leftarrow> mem_load (hw_heap w) (buf_data (req_path req) + buf_size (req_path req) - 1) 1;
         let add_separator = (tail_byte \<noteq> str ''/'');
         let niov = 6 + 6 * n + (if add_separator then n else 0);
         (w, iov) \<leftarrow> world_alloc env w (niov * sizeof_iovec);
         if iov = NULL then Some (dfk_err_ok, resp\<lparr>resp_status := status_code DFK_HTTP_INTERNAL_SERVER_ERROR\<rparr>, w)
         else do {
           path \<leftarrow> mem_load (hw_heap w) (buf_data (req_path req)) (unat (buf_size (req_path req)));
           let iov = [autoindex_header_1, path, autoindex_header_2, path, autoindex_header_3];
           it \<leftarrow> dfk_list_begin (hw_lists w) filelist;
           stop \<leftarrow> dfk_list_end (hw_lists w) filelist;
           iov \<leftarrow> listing_iov (hw_lists w) ents path add_separator (unat niov) it stop iov;
           c_assert (length iov < unat niov);
           let iov = iov @ [autoindex_footer];
           c_assert (length iov = unat niov);
           let resp = resp\<lparr>resp_content_length := of_nat (length (concat iov))\<rparr>;
           (w, resp, nwritten) \<leftarrow> dfk_http_response_writev env S w resp iov;
           Some (dfk_err_ok, resp\<lparr>resp_status := status_code DFK_HTTP_OK\<rparr>, w)
         }
       }
     }
   }"

subsection \<open>Files\<close>

partial_function (option) send_file ::
  "dfk_env \<Rightarrow> 'o os_ops \<Rightarrow> 'o file_os \<Rightarrow> size_t \<Rightarrow> addr \<Rightarrow> addr \<Rightarrow> size_t \<Rightarrow> dfk_http_response_t \<Rightarrow> 'o http_world
    \<Rightarrow> (dfk_error_e \<times> dfk_http_response_t \<times> 'o http_world) option" where
  "send_file env S F io_buf_size f buffer towrite resp w =
     (if towrite = 0 then Some (dfk_err_ok, resp, w)
      else do {
        let toread = min io_buf_size towrite;
        let (bs, s) = f_fread F f (unat toread) (hw_os w);
        heap \<leftarrow> mem_store (hw_heap w) buffer bs;
        let w = (with_heap w heap)\<lparr>hw_os := s\<rparr>;
        if length bs < unat toread then Some (dfk_err_sys, resp, w\<lparr>hw_ctx := error_syscall S (hw_ctx w) s\<rparr>)
        else do {
          (w, resp, nwritten) \<leftarrow> dfk_http_response_write env S w resp bs;
          if nwritten < 0 then Some (c_dfk_errno (hw_ctx w), resp, w)
          else do {
            c_assert (nwritten \<le> sint towrite);
            send_file env S F io_buf_size f buffer (towrite - of_int nwritten) resp w
          }
        }
      })"

definition serve_file ::
  "dfk_env \<Rightarrow> 'o os_ops \<Rightarrow> 'o file_os \<Rightarrow> dfk_fileserver_t \<Rightarrow> dfk_http_response_t \<Rightarrow> byte list \<Rightarrow> file_stat \<Rightarrow> 'o http_world
    \<Rightarrow> (dfk_error_e \<times> dfk_http_response_t \<times> 'o http_world) option" where
  "serve_file env S F fs resp fullpath st w = do {
     let towrite = of_int (st_size st);
     let resp = resp\<lparr>resp_content_length := towrite\<rparr>;
     let (f, s) = f_fopen F fullpath (hw_os w);
     let w = w\<lparr>hw_os := s\<rparr>;
     if f = NULL then Some (dfk_err_ok, resp\<lparr>resp_status := status_code DFK_HTTP_INTERNAL_SERVER_ERROR\<rparr>, w)
     else do {
       let (heap, buffer) = user_malloc env (hw_heap w) (fs_io_buf_size fs);
       let w = with_heap w heap;
       if buffer = NULL then
         Some (dfk_err_ok, resp\<lparr>resp_status := status_code DFK_HTTP_INTERNAL_SERVER_ERROR\<rparr>, w\<lparr>hw_os := f_fclose F f (hw_os w)\<rparr>)
       else do {
         (err, resp, w) \<leftarrow> send_file env S F (fs_io_buf_size fs) f buffer towrite resp w;
         let w = w\<lparr>hw_os := f_fclose F f (hw_os w)\<rparr>;
         heap \<leftarrow> user_free (hw_heap w) buffer;
         Some (err, resp, with_heap w heap)
       }
     }
   }"

subsection \<open>The handler\<close>

definition dfk_fileserver_handler ::
  "dfk_env \<Rightarrow> 'o os_ops \<Rightarrow> 'o file_os \<Rightarrow> dfk_fileserver_t \<Rightarrow> 'p dfk_http_request_t \<Rightarrow> dfk_http_response_t \<Rightarrow> 'o http_world
    \<Rightarrow> (dfk_error_e \<times> dfk_http_response_t \<times> 'o http_world) option" where
  "dfk_fileserver_handler env S F fs req resp w =
     (if req_method req \<noteq> method_code DFK_HTTP_GET then
        Some (dfk_err_ok, resp\<lparr>resp_status := status_code DFK_HTTP_METHOD_NOT_ALLOWED\<rparr>, w)
      else do {
        (path, w) \<leftarrow> fileserver_path env fs req w;
        case path of None \<Rightarrow> Some (dfk_err_ok, resp\<lparr>resp_status := status_code DFK_HTTP_INTERNAL_SERVER_ERROR\<rparr>, w)
        | Some fullpath \<Rightarrow> do {
            let (ret, st, s) = f_stat F fullpath (hw_os w);
            let w = w\<lparr>hw_os := s\<rparr>;
            if ret = -1 then
              Some (dfk_err_ok, resp\<lparr>resp_status := status_code (if os_errno S s \<in> {ENOENT, ENOTDIR} then DFK_HTTP_NOT_FOUND
                else DFK_HTTP_INTERNAL_SERVER_ERROR)\<rparr>, w)
            else if st_mode st AND S_IFDIR \<noteq> 0 then
              (if \<not> fs_autoindex fs then Some (dfk_err_ok, resp\<lparr>resp_status := status_code DFK_HTTP_NOT_FOUND\<rparr>, w)
               else serve_directory env S F req resp fullpath w)
            else serve_file env S F fs resp fullpath st w
          }
      })"

section \<open>The path\<close>

lemma c_string_snoc:
  "c_string (xs @ [0]) = c_string xs"
  by (induction xs) (simp_all add: c_string_def)

lemma store_append:
  assumes x: "bytes_at (mem_bytes m) p xs" and a: "allocated (mem_bytes m) p (length xs + length ys)"
  shows "\<exists>m'. mem_store m (p + of_nat (length xs)) ys = Some m' \<and> bytes_at (mem_bytes m') p (xs @ ys)
    \<and> mem_blocks m' = mem_blocks m \<and> same_outside (range_of p (length xs + length ys)) (mem_bytes m) (mem_bytes m')"
proof -
  let ?q = "p + of_nat (length xs)"
  have "allocated (mem_bytes m) ?q (length ys)" using allocated_sub [OF a, of "length xs" "length ys"] by simp
  from store_bytes_at [OF this] obtain b where b: "store_bytes (mem_bytes m) ?q ys = Some b" "bytes_at b ?q ys"
      "same_outside (range_of ?q (length ys)) (mem_bytes m) b" by blast
  have f: "fits p (length xs + length ys)" using a by (simp add: allocated_def)
  have u: "unat ?q = unat p + length xs" using unat_add_fits [OF f, of "length xs"] bytes_at_fits [OF x] by (cases "length ys") (auto simp: fits_def)
  have "range_of p (length xs) \<inter> range_of ?q (length ys) = {}"
    using range_of_disjoint [of p "length xs" ?q "length ys"] bytes_at_fits [OF x] bytes_at_fits [OF b(2)] u by simp
  then have "bytes_at b p xs" using bytes_at_same_outside [OF x b(3)] by simp
  then have "bytes_at b p (xs @ ys)" using b(2) f by (simp add: bytes_at_append)
  moreover have "same_outside (range_of p (length xs + length ys)) (mem_bytes m) b"
    by (rule same_outside_mono [OF b(3)]) (simp add: range_of_append)
  ultimately show ?thesis using b(1) by (simp add: mem_store_def)
qed

text \<open>The bytes of a buffer that no arena allocation reaches.\<close>

definition safe_bytes :: "'o http_world \<Rightarrow> addr \<Rightarrow> byte list \<Rightarrow> bool" where
  "safe_bytes w a bs \<longleftrightarrow> bytes_at (mem_bytes (hw_heap w)) a bs \<and> away w a (length bs)"

lemma fileserver_path_ok:
  assumes maps: "maps_ok env w (length base + length path + 1 + n) ms"
    and base: "safe_bytes w (fs_basepath fs) base" "fs_basepathlen fs = of_nat (length base)"
    and path: "safe_bytes w (buf_data (req_path req)) path" "buf_size (req_path req) = of_nat (length path)"
    and small: "length base + length path + 1 < 2 ^ 62"
  shows "\<exists>w'. fileserver_path env fs req w = Some (Some (c_string (base @ path)), w') \<and> maps_ok env w' n ms
    \<and> hw_os w' = hw_os w \<and> hw_ctx w' = hw_ctx w \<and> hw_lists w' = hw_lists w \<and> safe_bytes w' (buf_data (req_path req)) path
    \<and> mem_blocks (hw_heap w') = mem_blocks (hw_heap w) \<and> dom (mem_bytes (hw_heap w')) = dom (mem_bytes (hw_heap w))"
proof -
  let ?n = "length base + length path + 1"
  let ?len = "fs_basepathlen fs + buf_size (req_path req) + 1"
  have len: "?len = of_nat ?n" "unat ?len = ?n" "?len - 1 = of_nat (length base + length path)" "?len \<noteq> 0"
    using base(2) path(2) small of_nat_inverse [of ?n ?len] by (auto simp: unat_eq_0 [symmetric])
  have sizes: "unat (fs_basepathlen fs) = length base" "unat (buf_size (req_path req)) = length path"
    using base(2) path(2) small of_nat_inverse [of "length base" "fs_basepathlen fs"] of_nat_inverse [of "length path" "buf_size (req_path req)"]
    by auto
  obtain w1 p where w1: "world_alloc env w ?len = Some (w1, p)" "p \<noteq> NULL" "maps_ok env w1 n ms" "same_but_maps w w1"
      "allocated (mem_bytes (hw_heap w1)) p ?n" "\<And>a j. away w a j \<Longrightarrow> range_of a j \<inter> range_of p ?n = {}"
    using world_alloc_ok [of env w ?len n ms] maps len(2,4) by auto
  have h: "hw_heap w1 = hw_heap w" "hw_lists w1 = hw_lists w" "hw_os w1 = hw_os w" "hw_ctx w1 = hw_ctx w" "hw_arena w1 = hw_arena w"
    using w1(4) by (simp_all add: same_but_maps_def)
  have b: "mem_load (hw_heap w1) (fs_basepath fs) (length base) = Some base" "range_of (buf_data (req_path req)) (length path) \<inter> range_of p ?n = {}"
    using base(1) path(1) w1(6) load_bytes_at by (auto simp: h safe_bytes_def mem_load_def)
  have a0: "allocated (mem_bytes (hw_heap w1)) p (length ([] :: byte list) + length base)" using allocated_mono [OF w1(5)] by simp
  have "bytes_at (mem_bytes (hw_heap w1)) p []" using fits_mono [of p ?n 0] w1(5) by (simp add: allocated_def)
  from store_append [OF this a0] obtain m1 where m1: "mem_store (hw_heap w1) p base = Some m1" "bytes_at (mem_bytes m1) p base"
      "mem_blocks m1 = mem_blocks (hw_heap w1)" "same_outside (range_of p (length base)) (mem_bytes (hw_heap w1)) (mem_bytes m1)" by auto
  have a1: "allocated (mem_bytes m1) p ?n" by (rule allocated_same_outside [OF w1(5) m1(4)])
  have p1: "bytes_at (mem_bytes m1) (buf_data (req_path req)) path"
    by (rule bytes_at_same_outside [OF _ m1(4)])
      (use path(1) b(2) range_of_mono [of "length base" ?n p] in \<open>auto simp: safe_bytes_def h\<close>)
  from store_append [OF m1(2), of path] allocated_mono [OF a1] obtain m2 where
    m2: "mem_store m1 (p + of_nat (length base)) path = Some m2" "bytes_at (mem_bytes m2) p (base @ path)" "mem_blocks m2 = mem_blocks m1"
      "same_outside (range_of p (length base + length path)) (mem_bytes m1) (mem_bytes m2)" by auto
  have a2: "allocated (mem_bytes m2) p ?n" by (rule allocated_same_outside [OF a1 m2(4)])
  from store_append [OF m2(2), of "[0]"] a2 obtain m3 where
    m3: "mem_store m2 (p + of_nat (length base + length path)) [0] = Some m3" "bytes_at (mem_bytes m3) p (base @ path @ [0])"
      "mem_blocks m3 = mem_blocks m2" "same_outside (range_of p ?n) (mem_bytes m2) (mem_bytes m3)" by (auto simp: add.assoc)
  have so: "same_outside (range_of p ?n) (mem_bytes (hw_heap w1)) (mem_bytes m3)"
    using same_outside_mono [OF m1(4), of "range_of p ?n"] same_outside_mono [OF m2(4), of "range_of p ?n"] m3(4) range_of_mono
    by (simp add: same_outside_def)
  have ld: "mem_load m3 p ?n = Some (base @ path @ [0])" using load_bytes_at [OF m3(2)] by (simp add: mem_load_def)
  have ldp: "mem_load m1 (buf_data (req_path req)) (length path) = Some path" using load_bytes_at [OF p1] by (simp add: mem_load_def)
  have "c_string (base @ path @ [0]) = c_string (base @ path)" using c_string_snoc [of "base @ path"] by simp
  then have r: "fileserver_path env fs req w = Some (Some (c_string (base @ path)), with_heap w1 m3)"
    using w1(1,2) b(1) m1(1) ldp m2(1) m3(1) ld len sizes base(2)
    by (simp add: fileserver_path_def Let_def)
  have blocks: "mem_blocks m3 = mem_blocks (hw_heap w1)" using m1(3) m2(3) m3(3) by simp
  have "maps_ok env (with_heap w1 m3) n ms"
    by (rule maps_ok_bytes [OF w1(3) blocks]) (use so in \<open>auto simp: same_outside_def\<close>)
  moreover have "safe_bytes (with_heap w1 m3) (buf_data (req_path req)) path"
    using bytes_at_same_outside [OF _ so b(2)] path(1) blocks h by (simp add: safe_bytes_def away_def with_heap_def)
  moreover have "dom (mem_bytes m3) = dom (mem_bytes (hw_heap w1))" using so by (simp add: same_outside_def)
  ultimately show ?thesis using r h blocks by (intro exI [of _ "with_heap w1 m3"]) (simp add: with_heap_def)
qed

end
