(* ===== verification/Dfk_Fileserver_Props.thy ===== *)
theory Dfk_Fileserver_Props
  imports Dfk_Fileserver
begin

text \<open>
  What the file server sends: for a file the header block and the content, for a directory the page with the links, and for what it
  refuses nothing but a status. The file system is one that reads as its documentation says (\<open>reads_file\<close>, \<open>reads_directory\<close>), and the socket
  takes every write in full.
\<close>

section \<open>Memory only grows\<close>

text \<open>Every block and every byte of \<open>m\<close> is still there in \<open>m'\<close>.\<close>

definition grows :: "cmem \<Rightarrow> cmem \<Rightarrow> bool" where
  "grows m m' \<longleftrightarrow> (\<forall>p\<in>dom (mem_blocks m). mem_blocks m' p = mem_blocks m p) \<and> dom (mem_bytes m) \<subseteq> dom (mem_bytes m')"

lemma grows_refl [simp]: "grows m m"
  by (simp add: grows_def)

lemma grows_trans [trans]: "grows m m1 \<Longrightarrow> grows m1 m2 \<Longrightarrow> grows m m2"
  unfolding grows_def by (metis (no_types, lifting) domD domI subset_trans)

lemma grows_block: "block env m p n \<Longrightarrow> grows m m' \<Longrightarrow> block env m' p n"
proof -
  assume b: "block env m p n" and g: "grows m m'"
  have "p \<in> dom (mem_blocks m)" using b by (auto simp: block_def)
  then show "block env m' p n"
    using g subset_trans [OF block_dom [OF b]] by (intro block_keep [OF b]) (simp_all add: grows_def)
qed

lemma store_bytes_grows: "store_bytes m p bs = Some m' \<Longrightarrow> dom m \<subseteq> dom m'"
proof (induction bs arbitrary: m p)
  case (Cons b bs)
  then obtain m1 where m1: "store m p b = Some m1" "store_bytes m1 (p + 1) bs = Some m'" by (auto simp: bind_eq_Some_conv)
  have "dom m \<subseteq> dom m1" using m1(1) by (auto simp: store_def modify_def load_def bind_eq_Some_conv split: option.splits)
  with Cons.IH [OF m1(2)] show ?case by blast
qed simp

lemma grows_store: "mem_store m p bs = Some m' \<Longrightarrow> grows m m'"
  using store_bytes_grows by (fastforce simp: mem_store_def bind_eq_Some_conv grows_def)

lemma grows_malloc:
  assumes "alloc_ok env" "dfk__malloc env m n = Some (m', p)"
  shows "grows m m'"
proof (cases "dfk_malloc env m n")
  case None
  then show ?thesis using assms(2) by (auto simp: dfk__malloc_def split: if_splits)
next
  case (Some r)
  obtain q junk where r: "r = (q, junk)" by (cases r)
  have m: "m' = \<lparr>mem_bytes = put_bytes (mem_bytes m) q junk, mem_blocks = (mem_blocks m)(q \<mapsto> length junk)\<rparr>"
    using assms(2) Some r by (auto simp: dfk__malloc_def split: if_splits)
  have "q \<notin> dom (mem_blocks m)" using assms(1) Some r unfolding alloc_ok_def by blast
  then show ?thesis unfolding grows_def m by (auto simp: put_bytes_dom simp del: domIff)
qed

lemma grows_alloc:
  assumes "alloc_ok env" "dfk_arena_alloc env st arena n = Some (st', arena', p)"
  shows "grows (am_heap st) (am_heap st')"
proof -
  have n: "n \<noteq> 0" using assms(2) by (auto simp: dfk_arena_alloc_def)
  obtain e new where e: "dfk_list_empty (am_hooks st) (arena_segments arena) = Some e"
      "(if e then Some True else do { avail \<leftarrow> dfk__arena_bytes_available st arena; Some (avail < n) }) = Some new"
    using assms(2) n unfolding dfk_arena_alloc_def by (force simp: bind_eq_Some_conv)
  show ?thesis
  proof (cases new)
    case True
    obtain heap s where m: "dfk__malloc env (am_heap st) (max (DFK_ARENA_SEGMENT_SIZE env) (n + sizeof_segment)) = Some (heap, s)"
      using assms(2) n e True unfolding dfk_arena_alloc_def by (force simp: bind_eq_Some_conv)
    then have "am_heap st' = heap"
      using assms(2) n e True unfolding dfk_arena_alloc_def by (force simp: bind_eq_Some_conv Let_def split: if_splits)
    then show ?thesis using grows_malloc [OF assms(1) m] by simp
  next
    case False
    then have "am_heap st' = am_heap st"
      using assms(2) n e unfolding dfk_arena_alloc_def by (force simp: bind_eq_Some_conv Let_def)
    then show ?thesis by simp
  qed
qed

lemma grows_alloc_copy:
  assumes "alloc_ok env" "dfk_arena_alloc_copy env st arena data = Some (st', arena', p)"
  shows "grows (am_heap st) (am_heap st')"
proof -
  obtain st1 where 1: "dfk_arena_alloc env st arena (of_nat (length data)) = Some (st1, arena', p)"
      "st' = st1 \<or> (\<exists>heap. mem_store (am_heap st1) p data = Some heap \<and> st' = st1\<lparr>am_heap := heap\<rparr>)"
    using assms(2) by (auto simp: dfk_arena_alloc_copy_def bind_eq_Some_conv c_assert_def split: if_splits)
  from 1(2) have "grows (am_heap st1) (am_heap st')" using grows_store by auto
  with grows_alloc [OF assms(1) 1(1)] show ?thesis by (rule grows_trans)
qed

lemma grows_item:
  assumes "alloc_ok env" "strmap_item_anew env st arena k v = Some (st', arena', p)"
  shows "grows (am_heap (sm_arena st)) (am_heap (sm_arena st'))"
proof -
  obtain am a i where 1: "dfk_arena_alloc env (sm_arena st) arena sizeof_strmap_item = Some (am, a, i)"
    using assms(2) by (auto simp: strmap_item_anew_def bind_eq_Some_conv)
  then have "sm_arena st' = am" using assms(2) by (auto simp: strmap_item_anew_def bind_eq_Some_conv Let_def split: if_splits)
  then show ?thesis using grows_alloc [OF assms(1) 1] by simp
qed

lemma grows_acopy_value:
  assumes "alloc_ok env" "dfk_strmap_item_acopy_value env st arena k v = Some (st', arena', p)"
  shows "grows (am_heap (sm_arena st)) (am_heap (sm_arena st'))"
proof -
  obtain am a i where 1: "dfk_arena_alloc_copy env (sm_arena st) arena (bytes_of v) = Some (am, a, i)"
    using assms(2) by (auto simp: dfk_strmap_item_acopy_value_def bind_eq_Some_conv c_assert_def split: if_splits)
  note g = grows_alloc_copy [OF assms(1) 1]
  show ?thesis
  proof (cases "i = NULL")
    case True
    then show ?thesis using assms(2) 1 g by (auto simp: dfk_strmap_item_acopy_value_def c_assert_def split: if_splits)
  next
    case False
    then have "strmap_item_anew env (st\<lparr>sm_arena := am\<rparr>) a k (Some (bytes_of v)) = Some (st', arena', p)"
      using assms(2) 1 by (auto simp: dfk_strmap_item_acopy_value_def c_assert_def split: if_splits)
    from grows_item [OF assms(1) this] g show ?thesis by (auto intro: grows_trans)
  qed
qed

text \<open>What writing to the socket, and waiting until that is possible, leaves alone: the memory, and what \<open>g\<close> tells of the operating system.\<close>

definition untouched_by_writes :: "'o os_ops \<Rightarrow> fd \<Rightarrow> ('o \<Rightarrow> 'b) \<Rightarrow> bool" where
  "untouched_by_writes S fd g \<longleftrightarrow> (\<forall>buf s. g (snd (os_write S fd buf s)) = g s)
     \<and> (\<forall>e s. g (snd (os_epoll_add S fd e s)) = g s) \<and> (\<forall>s. g (snd (os_wait S fd s)) = g s)"

lemma socket_write_keeps:
  assumes "untouched_by_writes S (t_socket sock) g" "dfk_tcp_socket_write S c sock buf s = Some (n, c', s')"
  shows "g s' = g s"
proof -
  have w: "os_write S (t_socket sock) buf s = (r, t) \<Longrightarrow> g t = g s" for s r t using assms(1) unfolding untouched_by_writes_def by (metis snd_conv)
  have a: "os_epoll_add S (t_socket sock) e s = (r, t) \<Longrightarrow> g t = g s" for e s r t using assms(1) unfolding untouched_by_writes_def by (metis snd_conv)
  have o: "os_wait S (t_socket sock) s = (r, t) \<Longrightarrow> g t = g s" for s r t using assms(1) unfolding untouched_by_writes_def by (metis snd_conv)
  show ?thesis
    using assms(2)
    by (auto simp: dfk_tcp_socket_write_def dfk__io_def bind_eq_Some_conv c_assert_def Let_def split: prod.splits if_splits dest!: w a o)
qed

lemma writev_loop_keeps:
  assumes "untouched_by_writes S (t_socket sock) g"
  shows "writev_loop S c sock iov tot s = Some (n, c', s') \<Longrightarrow> g s' = g s"
proof (induction iov arbitrary: c tot s)
  case (Cons buf iov)
  obtain r c1 s1 where w: "dfk_tcp_socket_write S c sock buf s = Some (r, c1, s1)" using Cons.prems by (auto simp: bind_eq_Some_conv)
  have "g s1 = g s" by (rule socket_write_keeps [OF assms w])
  then show ?case using Cons w by (auto simp: bind_eq_Some_conv split: if_splits)
qed simp

lemma mocked_writev_keeps:
  assumes "untouched_by_writes S (t_socket (resp_socket resp)) g" "resp_mock resp = None"
    and "dfk__mocked_writev env S w resp iov = Some (w', resp', n)"
  shows "g (hw_os w') = g (hw_os w)" "hw_heap w' = hw_heap w" "resp' = resp"
  using assms writev_loop_keeps [OF assms(1)]
  by (auto simp: dfk__mocked_writev_def dfk_tcp_socket_writev_def bind_eq_Some_conv c_assert_def split: if_splits)

lemma mocked_write_keeps:
  assumes "untouched_by_writes S (t_socket (resp_socket resp)) g" "resp_mock resp = None"
    and "dfk__mocked_write env S w resp buf = Some (w', resp', n)"
  shows "g (hw_os w') = g (hw_os w)" "hw_heap w' = hw_heap w" "resp' = resp"
  using assms socket_write_keeps [OF assms(1)] by (auto simp: dfk__mocked_write_def bind_eq_Some_conv)

lemma set_content_length_keeps:
  assumes "alloc_ok env" "set_content_length env w resp = Some (w', resp')"
  shows "grows (hw_heap w) (hw_heap w') \<and> hw_os w' = hw_os w \<and> resp_mock resp' = resp_mock resp \<and> resp_socket resp' = resp_socket resp"
  using assms
  by (auto simp: set_content_length_def insert_header_def bind_eq_Some_conv Let_def dest: grows_acopy_value split: if_splits prod.splits)

lemma flush_keeps:
  assumes "untouched_by_writes S (t_socket (resp_socket resp)) g" "resp_mock resp = None"
    and "alloc_ok env" "dfk__http_response_flush_headers env S w resp = Some (w', resp', e)"
  shows "g (hw_os w') = g (hw_os w) \<and> grows (hw_heap w) (hw_heap w') \<and> resp_mock resp' = None \<and> resp_socket resp' = resp_socket resp"
proof (cases "resp_headers_flushed resp")
  case True
  then show ?thesis using assms(2,4) by (simp add: dfk__http_response_flush_headers_def)
next
  case False
  obtain w1 r1 where 1: "set_content_length env w resp = Some (w1, r1)" using assms(4) False
    by (auto simp: dfk__http_response_flush_headers_def bind_eq_Some_conv)
  note k1 = set_content_length_keeps [OF assms(3) 1]
  obtain th am arena iov where 2: "dfk_strmap_size (hw_hooks w1) (hw_items w1) (resp_headers r1) = Some th"
      "dfk_arena_alloc env (sm_arena (hw_mem w1)) (hw_arena w1) ((4 * th + 2) * sizeof_iovec) = Some (am, arena, iov)"
    using assms(4) False 1 by (auto simp: dfk__http_response_flush_headers_def bind_eq_Some_conv Let_def)
  define w2 where "w2 = w1\<lparr>hw_mem := (hw_mem w1)\<lparr>sm_arena := am\<rparr>, hw_arena := arena\<rparr>"
  define r where "r = (if iov = NULL then r1\<lparr>resp_status := status_code DFK_HTTP_INTERNAL_SERVER_ERROR\<rparr> else r1)"
  obtain sbuf ssize where sn: "snprintf 128 (status_line r) = (sbuf, ssize)" by (cases "snprintf 128 (status_line r)")
  obtain line where line: "read_array sbuf ssize = Some line"
    using assms(4) False 1 2 sn by (auto simp: dfk__http_response_flush_headers_def bind_eq_Some_conv Let_def w2_def r_def split: if_splits)
  obtain l m w3 r2 k where 4: "dfk__mocked_write env S w2 r l = Some (w3, r2, k) \<or> dfk__mocked_writev env S w2 r m = Some (w3, r2, k)"
      "w' = w3" "resp' = r2\<lparr>resp_headers_flushed := True\<rparr>"
  proof (cases "iov = NULL")
    case True
    then have "dfk__http_response_flush_headers env S w resp = do {
        (w3, r2, k) \<leftarrow> dfk__mocked_write env S w2 r line; Some (w3, r2\<lparr>resp_headers_flushed := True\<rparr>, dfk_err_ok)}"
      using False 1 2 sn line by (simp add: dfk__http_response_flush_headers_def Let_def w2_def r_def split_def)
    with assms(4) obtain w3 r2 k where "dfk__mocked_write env S w2 r line = Some (w3, r2, k)" "w' = w3" "resp' = r2\<lparr>resp_headers_flushed := True\<rparr>"
      by (auto simp: bind_eq_Some_conv)
    then show ?thesis using that by blast
  next
    case n: False
    then obtain it stop v where v: "dfk_strmap_begin (hw_hooks w2) (hw_items w2) (resp_headers r) = Some it"
        "dfk_strmap_end (hw_hooks w2) (hw_items w2) (resp_headers r) = Some stop"
        "headers_iov (hw_hooks w2) (hw_items w2) it stop (unat (4 * th + 2)) [line] = Some v"
        "length v < unat (4 * th + 2)" "length (v @ [crlf]) = unat (4 * th + 2)"
      using assms(4) False 1 2 sn line
      by (auto simp: dfk__http_response_flush_headers_def bind_eq_Some_conv Let_def w2_def r_def split: if_splits)
    then have "dfk__http_response_flush_headers env S w resp = do {
        (w3, r2, k) \<leftarrow> dfk__mocked_writev env S w2 r (v @ [crlf]); Some (w3, r2\<lparr>resp_headers_flushed := True\<rparr>, dfk_err_ok)}"
      using False 1 2 sn line n by (simp add: dfk__http_response_flush_headers_def Let_def w2_def r_def split_def)
    with assms(4) obtain w3 r2 k where "dfk__mocked_writev env S w2 r (v @ [crlf]) = Some (w3, r2, k)" "w' = w3" "resp' = r2\<lparr>resp_headers_flushed := True\<rparr>"
      by (auto simp: bind_eq_Some_conv)
    then show ?thesis using that by blast
  qed
  have r: "resp_mock r = None" "resp_socket r = resp_socket resp" "hw_os w2 = hw_os w" using k1 assms(2) by (auto simp: r_def w2_def)
  have "g (hw_os w3) = g (hw_os w2) \<and> hw_heap w3 = hw_heap w2 \<and> r2 = r"
    using 4(1) mocked_write_keeps [of S r g env w2 l w3 r2 k] mocked_writev_keeps [of S r g env w2 m w3 r2 k] r assms(1) by metis
  moreover have "grows (hw_heap w1) (hw_heap w2)" using grows_alloc [OF assms(3) 2(2)] by (simp add: w2_def)
  ultimately show ?thesis using k1 4 r by (auto intro: grows_trans)
qed

lemma writev_keeps:
  assumes "untouched_by_writes S (t_socket (resp_socket resp)) g" "resp_mock resp = None"
    and "alloc_ok env" "dfk_http_response_writev env S w resp iov = Some (w', resp', n)"
  shows "g (hw_os w') = g (hw_os w)" "grows (hw_heap w) (hw_heap w')"
proof -
  obtain w1 r1 e where f: "dfk__http_response_flush_headers env S w resp = Some (w1, r1, e)" "dfk__mocked_writev env S w1 r1 iov = Some (w', resp', n)"
    using assms(4) by (auto simp: dfk_http_response_writev_def bind_eq_Some_conv c_assert_def split: if_splits)
  note k = flush_keeps [OF assms(1-3) f(1)]
  then have "untouched_by_writes S (t_socket (resp_socket r1)) g" "resp_mock r1 = None"
    using assms(1) by simp_all
  from mocked_writev_keeps [OF this f(2)] k show "g (hw_os w') = g (hw_os w)" "grows (hw_heap w) (hw_heap w')" by simp_all
qed

section \<open>A file is sent\<close>

text \<open>The callbacks of the user and the wrappers around them do the same here.\<close>

lemma user_malloc_wrapper: "alloc_ok env \<Longrightarrow> n \<noteq> 0 \<Longrightarrow> dfk__malloc env m n = Some (user_malloc env m n)"
  by (auto simp: dfk__malloc_def user_malloc_def alloc_ok_def split: option.splits)

lemma user_free_block: "block env m p n \<Longrightarrow> user_free m p = dfk__free env m p"
  by (simp add: user_free_def dfk__free_def block_def)

lemma maps_ok_malloc:
  assumes ok: "alloc_ok env" and maps: "maps_ok env w n ms" and m: "dfk__malloc env (hw_heap w) k = Some (heap, p)" "p \<noteq> NULL"
  shows "maps_ok env (with_heap w heap) n ms \<and> block env heap p (unat k)"
proof -
  obtain ss os regs xss where a: "arena_inv env (sm_arena (hw_mem w)) (hw_arena w) ss os regs"
      "arena_room (sm_arena (hw_mem w)) ss n" "maps_in w regs ms xss" using maps by (rule maps_okE)
  have k: "k \<noteq> 0" using m(1) by (auto simp: dfk__malloc_def)
  have h: "block env heap p (unat k)" "\<forall>a. a \<notin> range_of p (unat k) \<longrightarrow> mem_bytes heap a = mem_bytes (hw_heap w) a"
      "range_of p (unat k) \<inter> dom (mem_bytes (hw_heap w)) = {}"
      "mem_blocks heap = (mem_blocks (hw_heap w))(p \<mapsto> unat k)" "p \<notin> dom (mem_blocks (hw_heap w))"
    by (cases rule: malloc_cases [OF ok k, of "hw_heap w", case_names nomem mem]; use m in auto)+
  have h0: "heap_ok env heap" using heap_ok_malloc [OF _ h(1,3,5,2,4)] a(1) by (simp add: arena_inv_def)
  have "segment_ok env (sm_arena (hw_mem (with_heap w heap))) s" if "segment_ok env (sm_arena (hw_mem w)) s" for s
  proof -
    have "s \<noteq> p" using that h(5) by (auto simp: segment_ok_def)
    then show ?thesis using that h(4) by (simp add: segment_ok_def with_heap_def)
  qed
  then have "arena_inv env (sm_arena (hw_mem (with_heap w heap))) (hw_arena (with_heap w heap)) ss os regs"
    using a(1) h0 by (simp add: arena_inv_def with_heap_def in_segment_def)
  moreover have "maps_in (with_heap w heap) regs ms xss" by (rule maps_in_cong [OF a(3)]) (simp_all add: with_heap_def)
  ultimately show ?thesis using a(2) h(1) unfolding maps_ok_def by (auto simp: with_heap_def arena_room_def)
qed

lemma response_from_maps: "maps_ok env w n ((resp_headers resp, lifted hm) # ms) \<Longrightarrow> [] \<notin> ran hm \<Longrightarrow> response_ok env w resp n hm"
  unfolding maps_ok_def maps_in_def response_ok_def lifted_def by (fastforce simp: list_all2_Cons1)

text \<open>
  An open file as the documentation of \<^verbatim>\<open>fread\<close> has it: \<open>left\<close> is what there is still to be read, and reading gives the next bytes, as
  many as asked for unless the file ends before. The file and the socket have nothing to do with each other: \<open>snt\<close> is what reading leaves
  alone, such as what has been sent and the room in the send buffer.
\<close>

definition reads_file :: "'o file_os \<Rightarrow> addr \<Rightarrow> ('o \<Rightarrow> byte list) \<Rightarrow> ('o \<Rightarrow> 'b) \<Rightarrow> bool" where
  "reads_file F f left snt \<longleftrightarrow> (\<forall>n s. fst (f_fread F f n s) = take n (left s) \<and> left (snd (f_fread F f n s)) = drop n (left s)
     \<and> snt (snd (f_fread F f n s)) = snt s)"

lemma send_rest:
  assumes ok: "alloc_ok env" and bsz: "bsz \<noteq> 0"
    and os: "sends S (t_socket (resp_socket resp)) snt" "polls_requested S" "buffered S (t_socket (resp_socket resp)) room"
      "untouched_by_writes S (t_socket (resp_socket resp)) left" "reads_file F f left (\<lambda>s. (snt s, room s))"
    and resp: "resp_headers_flushed resp" "resp_mock resp = None"
  shows "length (left (hw_os w)) < 2 ^ 63 \<Longrightarrow> length (left (hw_os w)) \<le> room (hw_os w) \<Longrightarrow> block env (hw_heap w) buffer (unat bsz) \<Longrightarrow>
    \<exists>w'. send_file env S F bsz f buffer (of_nat (length (left (hw_os w)))) resp w = Some (dfk_err_ok, resp, w')
      \<and> snt (hw_os w') = snt (hw_os w) @ left (hw_os w) \<and> block env (hw_heap w') buffer (unat bsz)"
proof (induction "length (left (hw_os w))" arbitrary: w rule: less_induct)
  case less
  let ?l = "left (hw_os w)" and ?n = "min (unat bsz) (length (left (hw_os w)))"
  have un: "unat (of_nat (length ?l) :: size_t) = length ?l" using less.prems(1) by (simp add: unat_of_nat_addr)
  show ?case
  proof (cases "?l = []")
    case True
    then show ?thesis using less.prems by (subst send_file.simps) simp
  next
    case False
    let ?bs = "take ?n ?l"
    have nz: "(of_nat (length ?l) :: size_t) \<noteq> 0" using False un by (metis length_0_conv unat_0)
    have mn: "unat (min bsz (of_nat (length ?l))) = ?n" using un by (simp add: min_def word_le_nat_alt)
    have n0: "0 < ?n" using False bsz by (simp add: unat_gt_0)
    obtain s1 where s1: "f_fread F f ?n (hw_os w) = (?bs, s1)" "left s1 = drop ?n ?l" "snt s1 = snt (hw_os w)" "room s1 = room (hw_os w)"
      using os(5) by (cases "f_fread F f ?n (hw_os w)") (auto simp: reads_file_def dest!: spec [of _ ?n] spec [of _ "hw_os w"])
    have nlt: "\<not> (?n < unat bsz \<and> ?n < length ?l)" by linarith
    have lb: "length ?bs = ?n" "?bs \<noteq> []" using n0 by auto
    obtain heap where h: "mem_store (hw_heap w) (buffer + of_nat 0) ?bs = Some heap" "block env heap buffer (unat bsz)"
      by (rule store_in_block [OF less.prems(3), of 0 ?bs]) simp
    let ?w1 = "(with_heap w heap)\<lparr>hw_os := s1\<rparr>"
    have fit: "length (concat [?bs]) \<le> room (hw_os ?w1)" using less.prems(2) lb(1) s1(4) by simp
    have "[?bs] \<noteq> []" "[] \<notin> set [?bs]" using lb(2) by auto
    from writev_again [OF resp this os(1,2), of env ?w1] obtain m c s2 q where
      "dfk_http_response_writev env S ?w1 resp [?bs] = Some (?w1\<lparr>hw_ctx := c, hw_os := s2\<rparr>, resp, m)" "snt s2 = snt s1 @ q"
      "q = concat [?bs] \<and> m = int (length (concat [?bs])) \<and> room s1 \<le> room s2 + length (concat [?bs])"
      using os(3) fit by auto
    then have s2: "dfk_http_response_writev env S ?w1 resp [?bs] = Some (?w1\<lparr>hw_ctx := c, hw_os := s2\<rparr>, resp, int ?n)" "snt s2 = snt s1 @ ?bs"
      and r2: "room (hw_os w) \<le> room s2 + ?n" using lb(1) s1(4) by auto
    have l2: "left s2 = drop ?n ?l" using writev_keeps(1) [OF os(4) resp(2) ok s2(1)] s1(2) by simp
    let ?w2 = "?w1\<lparr>hw_ctx := c, hw_os := s2\<rparr>"
    have less': "length (left (hw_os ?w2)) < length (left (hw_os w))" using l2 n0 by simp
    have b2: "block env (hw_heap ?w2) buffer (unat bsz)" using h(2) by (simp add: with_heap_def)
    have small: "length (left (hw_os ?w2)) < 2 ^ 63" using less.prems(1) less' by linarith
    have "length (left (hw_os ?w2)) \<le> room (hw_os ?w2)" using less.prems(2) r2 l2 by simp
    from less.hyps [OF less' small this b2] obtain w' where
      w': "send_file env S F bsz f buffer (of_nat (length (left s2))) resp ?w2 = Some (dfk_err_ok, resp, w')"
        "snt (hw_os w') = snt s2 @ left s2" "block env (hw_heap w') buffer (unat bsz)" by auto
    have rest: "of_nat (length ?l) - of_int (int ?n) = (of_nat (length (left s2)) :: size_t)"
      using l2 by (simp add: of_nat_diff)
    have sl: "sint (of_nat (length ?l) :: size_t) = int (length ?l)"
      using less.prems(1) by (simp add: signed_of_nat signed_take_bit_int_eq_self)
    have "send_file env S F bsz f buffer (of_nat (length ?l)) resp w
        = send_file env S F bsz f buffer (of_nat (length (left s2))) resp ?w2"
      using nlt nz s1(1) h(1) s2(1) lb mn sl rest
      by (subst send_file.simps) (auto simp: Let_def dfk_http_response_write_def)
    then show ?thesis using w' s2(2) s1(3) l2 by auto
  qed
qed

lemma send_all:
  assumes ok: "alloc_ok env" and bsz: "bsz \<noteq> 0" and buf: "block env (hw_heap w) buffer (unat bsz)"
    and r: "response_ok env w resp (flush_cost hm) hm" "keys_ok (insert DFK_HTTP_CONTENT_LENGTH (dom hm))"
    and resp: "\<not> resp_headers_flushed resp" "c_int (resp_status resp)" "resp_mock resp = None"
    and os: "sends S (t_socket (resp_socket resp)) snt" "polls_requested S" "buffered S (t_socket (resp_socket resp)) room"
      "untouched_by_writes S (t_socket (resp_socket resp)) left" "reads_file F f left (\<lambda>s. (snt s, room s))"
    and content: "left (hw_os w) \<noteq> []" "length (left (hw_os w)) < 2 ^ 63"
      "block_size resp (sent_headers resp hm) + length (left (hw_os w)) \<le> room (hw_os w)"
  shows "\<exists>w' resp' hdrs. send_file env S F bsz f buffer (of_nat (length (left (hw_os w)))) resp w = Some (dfk_err_ok, resp', w')
      \<and> snt (hw_os w') = snt (hw_os w) @ header_block resp hdrs @ left (hw_os w)
      \<and> map_of hdrs = sent_headers resp hm \<and> descending (map fst hdrs) \<and> block env (hw_heap w') buffer (unat bsz)"
proof -
  let ?l = "left (hw_os w)" and ?n = "min (unat bsz) (length (left (hw_os w)))"
  let ?bs = "take ?n ?l"
  have un: "unat (of_nat (length ?l) :: size_t) = length ?l" using content(2) by (simp add: unat_of_nat_addr)
  have nz: "(of_nat (length ?l) :: size_t) \<noteq> 0" using content(1) un by (metis length_0_conv unat_0)
  have mn: "unat (min bsz (of_nat (length ?l))) = ?n" using un by (simp add: min_def word_le_nat_alt)
  have n0: "0 < ?n" using content(1) bsz by (simp add: unat_gt_0)
  obtain s1 where s1: "f_fread F f ?n (hw_os w) = (?bs, s1)" "left s1 = drop ?n ?l" "snt s1 = snt (hw_os w)" "room s1 = room (hw_os w)"
    using os(5) by (cases "f_fread F f ?n (hw_os w)") (auto simp: reads_file_def dest!: spec [of _ ?n] spec [of _ "hw_os w"])
  have nlt: "\<not> (?n < unat bsz \<and> ?n < length ?l)" by linarith
  have lb: "length ?bs = ?n" "?bs \<noteq> []" using n0 by auto
  obtain heap where h: "mem_store (hw_heap w) (buffer + of_nat 0) ?bs = Some heap" "block env heap buffer (unat bsz)"
      "mem_blocks heap = mem_blocks (hw_heap w)" "same_outside (range_of (buffer + of_nat 0) (length ?bs)) (mem_bytes (hw_heap w)) (mem_bytes heap)"
    by (rule store_in_block [OF buf, of 0 ?bs]) simp
  let ?w1 = "(with_heap w heap)\<lparr>hw_os := s1\<rparr>"
  have r1: "response_ok env ?w1 resp (flush_cost hm) hm"
  proof (rule response_okE [OF r(1)])
    fix ss os regs xs
    assume a: "arena_inv env (sm_arena (hw_mem w)) (hw_arena w) ss os regs" "arena_room (sm_arena (hw_mem w)) ss (flush_cost hm)"
      "strmap_rep (hw_hooks w) (hw_items w) (resp_headers resp) xs (\<lambda>k. map_option Some (hm k))" "\<forall>a\<in>set xs. (a, 64) \<in> set regs" "[] \<notin> ran hm"
    have "dom (mem_bytes heap) = dom (mem_bytes (hw_heap w))" using h(4) by (simp add: same_outside_def)
    with a show ?thesis
      using arena_inv_bytes [OF a(1) h(3)] unfolding response_ok_def
      by (intro conjI exI [of _ ss] exI [of _ os] exI [of _ regs] exI [of _ xs]) (simp_all add: with_heap_def arena_room_def)
  qed
  let ?size = "block_size resp (sent_headers resp hm)"
  have fit: "?size + length (concat [?bs]) \<le> room s1" using content(3) lb(1) s1(4) by simp
  have w1: "hw_os ?w1 = s1" by simp
  have "[?bs] \<noteq> []" "[] \<notin> set [?bs]" using lb(2) by auto
  from writev_first [OF r1 r(2) resp os(1,2) this, unfolded w1] obtain w2 resp2 m hdrs p q where
    f: "dfk_http_response_writev env S ?w1 resp [?bs] = Some (w2, resp2, m)" "snt (hw_os w2) = snt s1 @ p @ q"
      "map_of hdrs = sent_headers resp hm" "descending (map fst hdrs)"
      "resp_headers_flushed resp2" "resp_mock resp2 = None" "resp_socket resp2 = resp_socket resp"
      "p = header_block resp hdrs \<and> q = concat [?bs] \<and> m = int (length (concat [?bs])) \<and> room s1 \<le> room (hw_os w2) + ?size + length (concat [?bs])"
    using os(3) fit by blast
  then have 2: "dfk_http_response_writev env S ?w1 resp [?bs] = Some (w2, resp2, int ?n)"
      "snt (hw_os w2) = snt s1 @ header_block resp hdrs @ ?bs"
      "map_of hdrs = sent_headers resp hm" "descending (map fst hdrs)"
      "resp_headers_flushed resp2" "resp_mock resp2 = None" "resp_socket resp2 = resp_socket resp"
    and r2: "room (hw_os w) \<le> room (hw_os w2) + ?size + ?n" using lb(1) s1(4) by auto
  note k = writev_keeps [OF os(4) resp(3) ok 2(1)]
  have l2: "left (hw_os w2) = drop ?n ?l" using k(1) s1(2) by simp
  have b2: "block env (hw_heap w2) buffer (unat bsz)" by (rule grows_block [OF _ k(2)]) (use h(2) in \<open>simp add: with_heap_def\<close>)
  have small: "length (left (hw_os w2)) < 2 ^ 63" using content(2) l2 by (simp add: less_imp_diff_less)
  have fit2: "length (left (hw_os w2)) \<le> room (hw_os w2)" using content(3) r2 l2 by simp
  obtain w' where
    w': "send_file env S F bsz f buffer (of_nat (length (left (hw_os w2)))) resp2 w2 = Some (dfk_err_ok, resp2, w')"
      "snt (hw_os w') = snt (hw_os w2) @ left (hw_os w2)" "block env (hw_heap w') buffer (unat bsz)"
    using send_rest [where S = S and resp = resp2 and w = w2, OF ok bsz _ os(2) _ _ os(5) 2(5,6) small fit2 b2] os(1,3,4) 2(7) by auto
  have rest: "of_nat (length ?l) - of_int (int ?n) = (of_nat (length (left (hw_os w2))) :: size_t)"
    using l2 by (simp add: of_nat_diff)
  have sl: "sint (of_nat (length ?l) :: size_t) = int (length ?l)"
    using content(2) by (simp add: signed_of_nat signed_take_bit_int_eq_self)
  have "send_file env S F bsz f buffer (of_nat (length ?l)) resp w
      = send_file env S F bsz f buffer (of_nat (length (left (hw_os w2)))) resp2 w2"
    using nlt nz s1(1) h(1) 2(1) lb mn sl rest
    by (subst send_file.simps) (auto simp: Let_def dfk_http_response_write_def)
  then show ?thesis using w' 2(2-4) s1(3) l2 by (intro exI [of _ w'] exI [of _ resp2] exI [of _ hdrs]) simp
qed

section \<open>A directory is listed\<close>

text \<open>
  An open directory as the documentation of \<^verbatim>\<open>readdir_r\<close> has it: \<open>rest\<close> are the entries still to be read, which are given one by one; what
  has been sent on the socket and the room in its buffer, \<open>snt\<close>, is left alone.
\<close>

definition reads_directory :: "'o file_os \<Rightarrow> addr \<Rightarrow> ('o \<Rightarrow> dirent list) \<Rightarrow> ('o \<Rightarrow> 'b) \<Rightarrow> bool" where
  "reads_directory F dp rest snt \<longleftrightarrow> (\<forall>s. \<exists>s'. f_readdir F dp s = (0, case rest s of [] \<Rightarrow> None | de # _ \<Rightarrow> Some de, s')
     \<and> rest s' = tl (rest s) \<and> snt s' = snt s)"

definition listed :: "dirent list \<Rightarrow> dirent list" where
  "listed des = filter (\<lambda>de. \<not> ignore_file de) des"

text \<open>
  The entries to be listed, all but the directory itself and its parent. The code ignores these two only when their type is reported as that of
  a directory.
\<close>

definition proper_entries :: "dirent list \<Rightarrow> dirent list" where
  "proper_entries des = filter (\<lambda>de. de_name de \<noteq> str ''.'' \<and> de_name de \<noteq> str ''..'') des"

definition dots_are_directories :: "dirent list \<Rightarrow> bool" where
  "dots_are_directories des \<longleftrightarrow> (\<forall>de\<in>set des. de_name de = str ''.'' \<or> de_name de = str ''..'' \<longrightarrow> de_type de = DT_DIR)"

lemma listed_proper: "dots_are_directories des \<Longrightarrow> listed des = proper_entries des"
  unfolding listed_def proper_entries_def dots_are_directories_def
  by (rule filter_cong) (auto simp: ignore_file_def DT_DIR_def DT_REG_def)

lemma next_entry_ok:
  assumes "reads_directory F dp rest snt"
  shows "\<exists>s'. next_entry F dp s = Some (Inr (case listed (rest s) of [] \<Rightarrow> None | de # _ \<Rightarrow> Some de), s')
    \<and> listed (rest s') = tl (listed (rest s)) \<and> snt s' = snt s"
proof (induction "rest s" arbitrary: s)
  case Nil
  obtain s' where s': "f_readdir F dp s = (0, None, s')" "rest s' = []" "snt s' = snt s"
    using assms Nil [symmetric] unfolding reads_directory_def by (metis list.sel(2) list.simps(4))
  then show ?case using Nil [symmetric] by (subst next_entry.simps) (simp add: listed_def)
next
  case (Cons de des)
  obtain s' where s': "f_readdir F dp s = (0, Some de, s')" "rest s' = des" "snt s' = snt s"
    using assms Cons(2) [symmetric] unfolding reads_directory_def by (metis list.sel(3) list.simps(5))
  show ?case
  proof (cases "ignore_file de")
    case True
    obtain s2 where "next_entry F dp s' = Some (Inr (case listed (rest s') of [] \<Rightarrow> None | de # _ \<Rightarrow> Some de), s2)"
        "listed (rest s2) = tl (listed (rest s'))" "snt s2 = snt s'"
      using Cons(1) [of s'] s'(2) by auto
    moreover have "next_entry F dp s = next_entry F dp s'" using s'(1) True by (subst next_entry.simps) simp
    moreover have "listed (rest s) = listed (rest s')" using True Cons(2) [symmetric] s'(2) by (simp add: listed_def)
    ultimately show ?thesis using s'(3) by auto
  next
    case False
    then show ?thesis using s' Cons(2) [symmetric] by (subst next_entry.simps) (simp add: listed_def)
  qed
qed

text \<open>The items read so far: their addresses \<open>ys\<close>, in regions of the arena, and their entries \<open>des\<close>.\<close>

definition dir_state ::
  "dfk_env \<Rightarrow> 'o http_world \<Rightarrow> nat \<Rightarrow> map_value list \<Rightarrow> dfk_list_t \<Rightarrow> dirent mem \<Rightarrow> addr list \<Rightarrow> dirent list \<Rightarrow> bool" where
  "dir_state env w n ms l ents ys des \<longleftrightarrow> (\<exists>ss os regs xss. arena_inv env (sm_arena (hw_mem w)) (hw_arena w) ss os regs
     \<and> arena_room (sm_arena (hw_mem w)) ss n \<and> maps_in w regs ms xss \<and> (\<forall>y\<in>set ys. (y, 296) \<in> set regs) \<and> set ys \<inter> set os = {})
     \<and> list_rep (hw_lists w) l ys \<and> list_all2 (\<lambda>y de. ents y = Some de) ys des"

lemma dir_state_maps: "dir_state env w n ms l ents ys des \<Longrightarrow> maps_ok env w n ms"
  unfolding dir_state_def maps_ok_def by blast

lemma dir_state_world:
  "dir_state env w n ms l ents ys des \<Longrightarrow> hw_mem w' = hw_mem w \<Longrightarrow> hw_arena w' = hw_arena w \<Longrightarrow> dir_state env w' n ms l ents ys des"
  unfolding dir_state_def maps_in_def by simp

lemma dir_item:
  assumes d: "dir_state env w (296 + n) ms l ents ys des"
  obtains w1 p h1 h2 l' where "world_alloc env w sizeof_dirent_list_item = Some (w1, p)" "p \<noteq> NULL"
    "dfk_list_hook_init (fresh_hook (hw_lists w1) p) p = Some h1" "dfk_list_append h1 l p = Some (h2, l')"
    "same_but_maps w w1" "dir_state env (with_lists w1 h1) n ms l ents ys des"
    "\<And>de. dir_state env (with_lists w1 h2) n ms l' (ents(p \<mapsto> de)) (ys @ [p]) (des @ [de])"
proof -
  obtain ss os regs xss where a: "arena_inv env (sm_arena (hw_mem w)) (hw_arena w) ss os regs"
      "arena_room (sm_arena (hw_mem w)) ss (296 + n)" "maps_in w regs ms xss" "\<forall>y\<in>set ys. (y, 296) \<in> set regs" "set ys \<inter> set os = {}"
    and l: "list_rep (hw_lists w) l ys" "list_all2 (\<lambda>y de. ents y = Some de) ys des"
    using d unfolding dir_state_def by blast
  obtain am p where r: "dfk_arena_alloc env (sm_arena (hw_mem w)) (hw_arena w) sizeof_dirent_list_item = Some (am, hw_arena w, p)" "p \<noteq> NULL"
      "arena_inv env am (hw_arena w) ss os ((p, 296) # regs)" "arena_room am ss n"
      "am_heap am = hw_heap w" "am_hooks am = hw_lists w"
    using alloc_room [OF a(1), of sizeof_dirent_list_item n] a(2) by (auto simp: sizeof_dirent_list_item_def)
  have pin: "p \<in> range_of p 296" by (rule head_in_range) simp
  have fresh: "p \<notin> set ss" "p \<notin> set ys" "p \<notin> set os" "set ys \<inter> set ss = {}"
  proof -
    show "p \<notin> set ss" using regions_allocated(3) [OF r(3), of "(p, 296)"] pin by auto
    have new: "range_of p 296 \<inter> range_of b k = {}" if "(b, k) \<in> set regs" for b k
      using r(3) that by (force simp: arena_inv_def)
    show "p \<notin> set ys" using new a(4) pin by blast
    show "p \<notin> set os"
    proof
      assume "p \<in> set os"
      then obtain k where "k \<ge> 24" "(p, k) \<in> set regs" using a(1) by (auto simp: arena_inv_def)
      then show False using new [of p k] pin head_in_range [of k p] by auto
    qed
    show "set ys \<inter> set ss = {}"
      using regions_allocated(3) [OF a(1)] a(4) head_in_range [of 296] by fastforce
  qed
  have reps: "list_rep (hw_lists w) (arena_segments (hw_arena w)) ss" "list_rep (hw_lists w) (arena_owc (hw_arena w)) os"
    using a(1) by (simp_all add: arena_inv_def)
  obtain h1 h2 l' where h: "dfk_list_hook_init (fresh_hook (hw_lists w) p) p = Some h1" "dfk_list_append h1 l p = Some (h2, l')"
      "list_rep h2 l' (ys @ [p])" "list_rep h2 (arena_segments (hw_arena w)) ss"
    by (rule link_fresh [OF l(1) reps(1) r(2) fresh(2,1,4)])
  obtain g1 g2 m' where "dfk_list_hook_init (fresh_hook (hw_lists w) p) p = Some g1" "dfk_list_append g1 l p = Some (g2, m')"
      "list_rep g2 (arena_owc (hw_arena w)) os"
    by (rule link_fresh [OF l(1) reps(2) r(2) fresh(2,3) a(5)])
  then have h5: "list_rep h2 (arena_owc (hw_arena w)) os" using h(1,2) by simp
  have h1: "h1 = (hw_lists w)(p \<mapsto> \<lparr>hook_next = NULL, hook_prev = NULL\<rparr>)"
    using h(1) hook_init_spec [OF r(2), of "fresh_hook (hw_lists w) p"] by (simp add: fresh_hook_def)
  let ?w1 = "w\<lparr>hw_mem := (hw_mem w)\<lparr>sm_arena := am\<rparr>, hw_arena := hw_arena w\<rparr>"
  have inv: "arena_inv env (am\<lparr>am_hooks := hh\<rparr>) (hw_arena w) ss os ((p, 296) # regs)"
    if "list_rep hh (arena_segments (hw_arena w)) ss" "list_rep hh (arena_owc (hw_arena w)) os" for hh
    using r(3) that by (simp add: arena_inv_def segment_ok_def in_segment_def)
  have maps: "maps_in (with_lists ?w1 hh) ((p, 296) # regs) ms xss" for hh
    by (rule maps_in_more [OF maps_in_cong [OF a(3)]]) (auto simp: with_lists_def)
  have s1: "dir_state env (with_lists ?w1 h1) n ms l ents ys des"
    unfolding dir_state_def
    using inv [of h1] list_rep_upd [OF reps(1) fresh(1)] list_rep_upd [OF reps(2) fresh(3)] list_rep_upd [OF l(1) fresh(2)] l(2) maps [of h1] a(4,5) r(4)
    by (intro conjI exI [of _ ss] exI [of _ os] exI [of _ "(p, 296) # regs"] exI [of _ xss])
      (simp_all add: h1 with_lists_def arena_room_def)
  have "list_all2 (\<lambda>y de. (ents(p \<mapsto> d)) y = Some de) ys des" for d
    by (rule list.rel_mono_strong [OF l(2)]) (use fresh(2) in auto)
  then have s2: "dir_state env (with_lists ?w1 h2) n ms l' (ents(p \<mapsto> de)) (ys @ [p]) (des @ [de])" for de
    unfolding dir_state_def
    using inv [of h2] h(3,4) h5 maps [of h2] a(4,5) r(4) fresh(3)
    by (intro conjI exI [of _ ss] exI [of _ os] exI [of _ "(p, 296) # regs"] exI [of _ xss])
      (simp_all add: with_lists_def arena_room_def list_all2_appendI)
  show thesis
    by (rule that [of ?w1 p h1 h2 l']) (use r h s1 s2 in \<open>auto simp: world_alloc_def same_but_maps_def\<close>)
qed

lemma read_directory_ok:
  assumes F: "reads_directory F dp rest snt" "\<forall>s. snt (f_closedir F dp s) = snt s"
  shows "dir_state env w (296 * (length (listed (rest (hw_os w))) + 1) + n) ms l ents ys des \<Longrightarrow>
    \<exists>ents' l' ys' w'. read_directory env F dp ents l w = Some (True, ents', l', w')
      \<and> dir_state env w' n ms l' ents' ys' (des @ listed (rest (hw_os w))) \<and> hw_heap w' = hw_heap w \<and> snt (hw_os w') = snt (hw_os w)
      \<and> hw_ctx w' = hw_ctx w"
proof (induction "listed (rest (hw_os w))" arbitrary: w l ents ys des)
  case Nil
  have d: "dir_state env w (296 + n) ms l ents ys des" using Nil(2) Nil(1) [symmetric] by simp
  obtain w1 p h1 h2 l' where a: "world_alloc env w sizeof_dirent_list_item = Some (w1, p)" "p \<noteq> NULL"
      "dfk_list_hook_init (fresh_hook (hw_lists w1) p) p = Some h1" "same_but_maps w w1" "dir_state env (with_lists w1 h1) n ms l ents ys des"
    by (rule dir_item [OF d])
  have o: "hw_os w1 = hw_os w" "hw_heap w1 = hw_heap w" "hw_ctx w1 = hw_ctx w" using a(4) by (simp_all add: same_but_maps_def)
  obtain s' where s': "next_entry F dp (hw_os w) = Some (Inr None, s')" "snt s' = snt (hw_os w)"
    using next_entry_ok [OF F(1), of "hw_os w"] Nil(1) [symmetric] by auto
  let ?w = "(with_lists w1 h1)\<lparr>hw_os := f_closedir F dp s'\<rparr>"
  have "read_directory env F dp ents l w = Some (True, ents, l, ?w)"
    using a(1-3) s'(1) o by (subst read_directory.simps) (simp add: Let_def with_lists_def)
  moreover have "dir_state env ?w n ms l ents ys des" by (rule dir_state_world [OF a(5)]) simp_all
  moreover have "hw_heap ?w = hw_heap w" "snt (hw_os ?w) = snt (hw_os w)" "hw_ctx ?w = hw_ctx w" "des @ listed (rest (hw_os w)) = des"
    using Nil(1) [symmetric] s'(2) F(2) o by (simp_all add: with_lists_def)
  ultimately show ?case by metis
next
  case (Cons de todo)
  have d: "dir_state env w (296 + (296 * (length todo + 1) + n)) ms l ents ys des" using Cons(3) Cons(2) [symmetric] by (simp add: algebra_simps)
  obtain w1 p h1 h2 l' where a: "world_alloc env w sizeof_dirent_list_item = Some (w1, p)" "p \<noteq> NULL"
      "dfk_list_hook_init (fresh_hook (hw_lists w1) p) p = Some h1" "dfk_list_append h1 l p = Some (h2, l')" "same_but_maps w w1"
      "\<And>de. dir_state env (with_lists w1 h2) (296 * (length todo + 1) + n) ms l' (ents(p \<mapsto> de)) (ys @ [p]) (des @ [de])"
    by (rule dir_item [OF d]) blast
  have o: "hw_os w1 = hw_os w" "hw_heap w1 = hw_heap w" "hw_ctx w1 = hw_ctx w" using a(5) by (simp_all add: same_but_maps_def)
  obtain s' where s': "next_entry F dp (hw_os w) = Some (Inr (Some de), s')" "listed (rest s') = todo" "snt s' = snt (hw_os w)"
    using next_entry_ok [OF F(1), of "hw_os w"] Cons(2) [symmetric] by auto
  let ?w = "(with_lists w1 h2)\<lparr>hw_os := s'\<rparr>"
  have wl: "hw_lists (with_lists v h) = h" "hw_os (with_lists v h) = hw_os v" for v :: "'a http_world" and h by (simp_all add: with_lists_def)
  have eq: "with_lists ((with_lists w1 h1)\<lparr>hw_os := s'\<rparr>) h2 = ?w" by (simp add: with_lists_def)
  have st: "dir_state env ?w (296 * (length (listed (rest (hw_os ?w))) + 1) + n) ms l' (ents(p \<mapsto> de)) (ys @ [p]) (des @ [de])"
    by (rule dir_state_world [OF a(6) [of de], THEN back_subst [where P = "\<lambda>k. dir_state env ?w k ms l' (ents(p \<mapsto> de)) (ys @ [p]) (des @ [de])"]])
      (simp_all add: s'(2))
  have "todo = listed (rest (hw_os ?w))" using s'(2) by simp
  from Cons(1) [OF this st] obtain ents' l2 ys' w' where
    r: "read_directory env F dp (ents(p \<mapsto> de)) l' ?w = Some (True, ents', l2, w')"
      "dir_state env w' n ms l2 ents' ys' ((des @ [de]) @ listed (rest (hw_os ?w)))" "hw_heap w' = hw_heap ?w" "snt (hw_os w') = snt (hw_os ?w)"
      "hw_ctx w' = hw_ctx ?w" by blast
  have "read_directory env F dp ents l w = read_directory env F dp (ents(p \<mapsto> de)) l' ?w"
    using a(1-4) s'(1) o eq wl by (subst read_directory.simps) (simp add: Let_def)
  then show ?case using r Cons(2) [symmetric] s'(2,3) o
    by (intro exI [of _ ents'] exI [of _ l2] exI [of _ ys'] exI [of _ w']) (simp add: with_lists_def)
qed

lemma listing_iov_ok:
  assumes "list_rep h l (xs @ ys)" "list_all2 (\<lambda>y de. ents y = Some de) ys des"
    and "length iov + (6 + of_bool sep) * length des \<le> niov"
  shows "listing_iov h ents path sep niov \<lparr>it_value = hd_or ys NULL\<rparr> \<lparr>it_value = NULL\<rparr> iov
    = Some (iov @ concat (map (\<lambda>de. entry_iov path sep (take 256 (de_name de))) des))"
  using assms
proof (induction ys arbitrary: xs des iov)
  case Nil
  then show ?case using list_it_equal_spec [OF Nil.prems(1)] by (subst listing_iov.simps) simp
next
  case (Cons y ys)
  then obtain de des' where des: "des = de # des'" by (cases des) auto
  let ?e = "entry_iov path sep (take 256 (de_name de))"
  have y: "y \<noteq> NULL" using Cons.prems(1) by (auto simp: list_rep_def)
  have le: "length ?e = 6 + of_bool sep" by (simp add: entry_iov_def)
  have "listing_iov h ents path sep niov \<lparr>it_value = hd_or ys NULL\<rparr> \<lparr>it_value = NULL\<rparr> (iov @ ?e)
    = Some ((iov @ ?e) @ concat (map (\<lambda>de. entry_iov path sep (take 256 (de_name de))) des'))"
    by (rule Cons.IH [of "xs @ [y]"]) (use Cons.prems des le in auto)
  moreover have "dfk_list_it_equal h \<lparr>it_value = y\<rparr> \<lparr>it_value = NULL\<rparr> = Some False"
    using list_it_equal_spec [OF Cons.prems(1), of "\<lparr>it_value = y\<rparr>" "\<lparr>it_value = NULL\<rparr>"] y by simp
  moreover have "dfk_list_it_next h \<lparr>it_value = y\<rparr> = Some \<lparr>it_value = hd_or ys NULL\<rparr>"
    using list_it_next_spec [OF Cons.prems(1), of "\<lparr>it_value = y\<rparr>"] by simp
  moreover have "length iov + length ?e \<le> niov" using Cons.prems(3) des le by simp
  moreover have "load ents y = Some de" using Cons.prems(2) des y by (simp add: load_def)
  ultimately show ?case using des by (subst listing_iov.simps) (simp add: Let_def)
qed

text \<open>The page for a directory: the names in the order in which the directory has them.\<close>

definition index_link :: "byte list \<Rightarrow> byte list \<Rightarrow> byte list" where
  "index_link path name = link_start @ path @ (if last path \<noteq> 47 then str ''/'' else []) @ name @ link_middle @ name @ link_end"

definition index_page :: "byte list \<Rightarrow> byte list list \<Rightarrow> byte list" where
  "index_page path names = autoindex_header_1 @ path @ autoindex_header_2 @ path @ autoindex_header_3
     @ concat (map (index_link path) names) @ autoindex_footer"

definition index_vector :: "byte list \<Rightarrow> bool \<Rightarrow> dirent list \<Rightarrow> byte list list" where
  "index_vector path sep des = [autoindex_header_1, path, autoindex_header_2, path, autoindex_header_3]
     @ concat (map (\<lambda>de. entry_iov path sep (take 256 (de_name de))) des) @ [autoindex_footer]"

lemma index_vector_page:
  assumes "sep \<longleftrightarrow> last path \<noteq> 47" "\<forall>de\<in>set des. length (de_name de) \<le> 256"
  shows "concat (index_vector path sep des) = index_page path (map de_name des)"
proof -
  have "concat (concat (map (\<lambda>de. entry_iov path sep (take 256 (de_name de))) des)) = concat (map (index_link path) (map de_name des))"
    using assms by (induction des) (auto simp: entry_iov_def index_link_def)
  then show ?thesis by (simp add: index_vector_def index_page_def)
qed

lemma index_vector_parts:
  assumes "path \<noteq> []" "\<forall>de\<in>set des. de_name de \<noteq> []"
  shows "[] \<notin> set (index_vector path sep des)"
  using assms
  by (auto simp: index_vector_def entry_iov_def autoindex_header_1_def autoindex_header_2_def autoindex_header_3_def autoindex_footer_def
      link_start_def link_middle_def link_end_def newline_def str_def split: if_splits)

lemma index_vector_length: "length (index_vector path sep des) = 6 + (6 + of_bool sep) * length des"
  by (simp add: index_vector_def length_concat o_def entry_iov_def sum_list_triv algebra_simps)

text \<open>What a listing takes from the arena: the items with one more at the end, the vector, and the header block.\<close>

definition listing_cost :: "nat \<Rightarrow> (byte list \<rightharpoonup> byte list) \<Rightarrow> nat" where
  "listing_cost n hm = 296 * (n + 1) + (16 * (6 + 7 * n) + flush_cost hm)"

lemma tail_byte:
  assumes "bytes_at m a path" "path \<noteq> []"
  shows "load_bytes m (a + of_nat (length path) - 1) 1 = Some [last path]"
proof -
  obtain xs x where p: "path = xs @ [x]" using assms(2) by (cases path rule: rev_cases) auto
  have "bytes_at m (a + of_nat (length xs)) [x]" using assms(1) p by (simp add: bytes_at_append)
  moreover have "a + of_nat (length path) - 1 = a + of_nat (length xs)" using p by simp
  ultimately show ?thesis using p load_bytes_at [of m "a + of_nat (length xs)" "[x]"] by simp
qed

section \<open>Properties\<close>

text \<open>A request for a path: the server's base path and the path of the request are in memory, outside the arena.\<close>

definition path_request :: "'o http_world \<Rightarrow> dfk_fileserver_t \<Rightarrow> 'p dfk_http_request_t \<Rightarrow> byte list \<Rightarrow> byte list \<Rightarrow> bool" where
  "path_request w fs req base path \<longleftrightarrow> req_method req = method_code DFK_HTTP_GET
     \<and> safe_bytes w (fs_basepath fs) base \<and> fs_basepathlen fs = of_nat (length base)
     \<and> safe_bytes w (buf_data (req_path req)) path \<and> buf_size (req_path req) = of_nat (length path)
     \<and> length base + length path + 1 < 2 ^ 62"

text \<open>
  C22. What a GET of a regular file puts on the wire when the send buffer of the socket has room for all of it: the header block with
  the size of the file as \<^verbatim>\<open>Content-Length\<close>, and then exactly the bytes of the file. For an empty file the handler itself sends nothing
  and leaves the header block to the server. The file is that with the name of the base path followed by the path of the request,
  both taken as they are: nothing keeps \<^verbatim>\<open>..\<close> in the path from leaving the base path. The file has the size \<^verbatim>\<open>stat\<close> reports and can be
  opened and read; there is memory for the path, the header block and the I/O buffer; the names of the headers, \<^verbatim>\<open>Content-Length\<close>
  among them, are not proper prefixes of each other. A write that takes only a part of a piece is not covered: the handler
  drops the rest of it.
\<close>

theorem fileserver_sends_file:
  assumes ok: "alloc_ok env"
    and maps: "maps_ok env w (length base + length path + 1 + flush_cost hm) [(resp_headers resp, lifted hm)]"
    and headers: "[] \<notin> ran hm" "keys_ok (insert DFK_HTTP_CONTENT_LENGTH (dom hm))"
    and req: "path_request w fs req base path"
    and resp: "\<not> resp_headers_flushed resp" "c_int (resp_status resp)" "resp_mock resp = None"
    and stat: "f_stat F (c_string (base @ path)) (hw_os w) = (0, \<lparr>st_mode = mode, st_size = int (length content)\<rparr>, s1)" "mode AND S_IFDIR = 0"
    and fopen: "f_fopen F (c_string (base @ path)) s1 = (f, s2)" "f \<noteq> NULL" "left s2 = content" "snt s2 = snt (hw_os w)"
    and fread: "reads_file F f left (\<lambda>s. (snt s, room s))" "\<forall>s. snt (f_fclose F f s) = snt s"
    and buffer: "fs_io_buf_size fs \<noteq> 0" "\<forall>m. mem_blocks m = mem_blocks (hw_heap w) \<longrightarrow> dom (mem_bytes m) = dom (mem_bytes (hw_heap w))
      \<longrightarrow> dfk_malloc env m (fs_io_buf_size fs) \<noteq> None"
    and os: "sends S (t_socket (resp_socket resp)) snt" "polls_requested S" "buffered S (t_socket (resp_socket resp)) room"
      "untouched_by_writes S (t_socket (resp_socket resp)) left"
    and content: "length content < 2 ^ 63" "block_size resp (put_first DFK_HTTP_CONTENT_LENGTH (decimal (length content)) hm) + length content \<le> room s2"
  shows "\<exists>w' resp'. dfk_fileserver_handler env S F fs req resp w = Some (dfk_err_ok, resp', w')
    \<and> (if content = [] then resp' = resp\<lparr>resp_content_length := 0\<rparr> \<and> snt (hw_os w') = snt (hw_os w)
       else \<exists>hdrs. snt (hw_os w') = snt (hw_os w) @ header_block resp hdrs @ content
         \<and> map_of hdrs = put_first DFK_HTTP_CONTENT_LENGTH (decimal (length content)) hm \<and> descending (map fst hdrs))"
proof -
  let ?resp = "resp\<lparr>resp_content_length := of_nat (length content)\<rparr>" and ?bsz = "fs_io_buf_size fs"
  have p: "safe_bytes w (fs_basepath fs) base" "fs_basepathlen fs = of_nat (length base)"
      "safe_bytes w (buf_data (req_path req)) path" "buf_size (req_path req) = of_nat (length path)" "length base + length path + 1 < 2 ^ 62"
      "req_method req = method_code DFK_HTTP_GET" using req by (simp_all add: path_request_def)
  obtain w1 where w1: "fileserver_path env fs req w = Some (Some (c_string (base @ path)), w1)" "maps_ok env w1 (flush_cost hm) [(resp_headers resp, lifted hm)]"
      "hw_os w1 = hw_os w" "mem_blocks (hw_heap w1) = mem_blocks (hw_heap w)" "dom (mem_bytes (hw_heap w1)) = dom (mem_bytes (hw_heap w))"
    using fileserver_path_ok [OF maps p(1-5)] by auto
  obtain heap buffer where m: "user_malloc env (hw_heap w1) ?bsz = (heap, buffer)" by (cases "user_malloc env (hw_heap w1) ?bsz")
  have b0: "buffer \<noteq> NULL" using m buffer(2) w1(4,5) ok by (auto simp: user_malloc_def alloc_ok_def split: option.splits)
  let ?w2 = "with_heap (w1\<lparr>hw_os := s2\<rparr>) heap"
  have "dfk__malloc env (hw_heap (w1\<lparr>hw_os := s2\<rparr>)) ?bsz = Some (heap, buffer)" using user_malloc_wrapper [OF ok buffer(1)] m by simp
  from maps_ok_malloc [OF ok maps_ok_world [OF w1(2)] this b0]
  have w2: "maps_ok env ?w2 (flush_cost hm) [(resp_headers resp, lifted hm)]" "block env (hw_heap ?w2) buffer (unat ?bsz)"
    by (simp_all add: with_heap_def)
  have r2: "response_ok env ?w2 ?resp (flush_cost hm) hm" using response_from_maps [OF w2(1) headers(1)] by (simp add: response_ok_def)
  have os2: "hw_os ?w2 = s2" by (simp add: with_heap_def)
  have un: "unat (of_nat (length content) :: size_t) = length content" using content(1) by (simp add: unat_of_nat_addr)
  have "(of_nat (length content) :: size_t) \<noteq> -1"
  proof
    assume "(of_nat (length content) :: size_t) = -1"
    with un have "length content = unat (-1 :: size_t)" by metis
    moreover have "unat (-1 :: size_t) = 2 ^ 64 - 1" by (simp add: unsigned_minus_1_eq_mask mask_eq_exp_minus_1)
    ultimately show False using content(1) by simp
  qed
  then have sh: "sent_headers ?resp hm = put_first DFK_HTTP_CONTENT_LENGTH (decimal (length content)) hm"
    using un by (simp add: sent_headers_def)
  have same: "header_block ?resp = header_block resp" "block_size ?resp = block_size resp"
    by (simp_all add: header_block_def block_size_def status_line_def fun_eq_iff)
  obtain w3 resp3 where 3: "send_file env S F ?bsz f buffer (of_nat (length content)) ?resp ?w2 = Some (dfk_err_ok, resp3, w3)"
      "block env (hw_heap w3) buffer (unat ?bsz)"
    and sent: "if content = [] then resp3 = resp\<lparr>resp_content_length := 0\<rparr> \<and> snt (hw_os w3) = snt (hw_os w)
       else \<exists>hdrs. snt (hw_os w3) = snt (hw_os w) @ header_block resp hdrs @ content
         \<and> map_of hdrs = put_first DFK_HTTP_CONTENT_LENGTH (decimal (length content)) hm \<and> descending (map fst hdrs)"
  proof (cases "content = []")
    case True
    have "send_file env S F ?bsz f buffer (of_nat (length content)) ?resp ?w2 = Some (dfk_err_ok, ?resp, ?w2)"
      using True by (subst send_file.simps) simp
    moreover have "snt (hw_os ?w2) = snt (hw_os w)" unfolding os2 by (rule fopen(4))
    ultimately show ?thesis using that [of ?resp ?w2] w2(2) True by simp
  next
    case False
    have l: "left (hw_os ?w2) = content" "block_size ?resp (sent_headers ?resp hm) + length content \<le> room (hw_os ?w2)"
      unfolding os2 sh same by (rule fopen(3), rule content(2))
    have resp': "\<not> resp_headers_flushed ?resp" "c_int (resp_status ?resp)" "resp_mock ?resp = None" "resp_socket ?resp = resp_socket resp"
      using resp by simp_all
    obtain w3 resp3 hdrs where "send_file env S F ?bsz f buffer (of_nat (length content)) ?resp ?w2 = Some (dfk_err_ok, resp3, w3)"
        "snt (hw_os w3) = snt (hw_os ?w2) @ header_block ?resp hdrs @ content"
        "map_of hdrs = sent_headers ?resp hm" "descending (map fst hdrs)" "block env (hw_heap w3) buffer (unat ?bsz)"
      using send_all [where S = S and F = F and f = f and left = left and snt = snt and room = room, OF ok buffer(1) w2(2) r2 headers(2) resp'(1-3), unfolded l(1) resp'(4),
          OF os fread(1) False content(1) l(2)] by blast
    then show ?thesis using that [of resp3 w3] False fopen(4) unfolding os2 sh same by auto
  qed
  let ?w4 = "w3\<lparr>hw_os := f_fclose F f (hw_os w3)\<rparr>"
  obtain heap' where h': "user_free (hw_heap ?w4) buffer = Some heap'"
    using 3(2) user_free_block [OF 3(2)] free_block [OF 3(2)] by auto
  have "serve_file env S F fs resp (c_string (base @ path)) \<lparr>st_mode = mode, st_size = int (length content)\<rparr> (w1\<lparr>hw_os := s1\<rparr>)
      = Some (dfk_err_ok, resp3, with_heap ?w4 heap')"
    using fopen(1,2) m b0 3(1) h' by (simp add: serve_file_def Let_def)
  then have "dfk_fileserver_handler env S F fs req resp w = Some (dfk_err_ok, resp3, with_heap ?w4 heap')"
    using w1(1,3) stat p(6) by (simp add: dfk_fileserver_handler_def Let_def)
  moreover have "snt (hw_os (with_heap ?w4 heap')) = snt (hw_os w3)" using fread(2) by (simp add: with_heap_def)
  ultimately show ?thesis using sent by (intro exI [of _ "with_heap ?w4 heap'"] exI [of _ resp3]) simp
qed

text \<open>A sample file system, over the sample kernel: there is one file, outside the directory that is served.\<close>

definition sample_path :: "byte list" where
  "sample_path = str ''/srv/../key''"

definition sample_files :: "kernel file_os" where
  "sample_files = \<lparr>f_stat = (\<lambda>p k. if p = sample_path then (0, \<lparr>st_mode = 0x8000, st_size = 11\<rparr>, k)
       else (-1, \<lparr>st_mode = 0, st_size = 0\<rparr>, k\<lparr>k_errno := ENOENT\<rparr>)),
     f_opendir = (\<lambda>p k. (NULL, k)), f_readdir = (\<lambda>d k. (0, None, k)), f_closedir = (\<lambda>d k. k),
     f_fopen = (\<lambda>p k. if p = sample_path then (7, k\<lparr>k_input := str ''hello world''\<rparr>) else (NULL, k)),
     f_fread = (\<lambda>f n k. (take n (k_input k), k\<lparr>k_input := drop n (k_input k)\<rparr>)), f_fclose = (\<lambda>f k. k)\<rparr>"

abbreviation text_addr :: addr where "text_addr \<equiv> 0x2000000000"

definition sample_fs :: dfk_fileserver_t where
  "sample_fs = \<lparr>fs_basepath = text_addr, fs_basepathlen = 4, fs_io_buf_size = 4, fs_autoindex = True\<rparr>"

definition get_request :: "dfk_strmap_t \<Rightarrow> size_t \<Rightarrow> nat dfk_http_request_t" where
  "get_request smap n = (blank_request smap 5)\<lparr>req_method := method_code DFK_HTTP_GET, req_path := \<lparr>buf_data = text_addr + 4, buf_size = n\<rparr>\<rparr>"

lemma away_sub: "away w a n \<Longrightarrow> i + k \<le> n \<Longrightarrow> away w (a + of_nat i) k"
  unfolding away_def using range_of_sub [of i k n a] by blast

lemma small_dom:
  assumes "dfk_arena_alloc small_env fresh_arena_mem fresh_arena 1 = Some (st, arena, p)"
  shows "dom (mem_bytes (am_heap st)) = range_of 4096 40960"
proof -
  have e: "dfk_list_empty (am_hooks fresh_arena_mem) (arena_segments fresh_arena) = Some True"
    using list_empty_spec [of "am_hooks fresh_arena_mem" "arena_segments fresh_arena" "[]"] by (simp add: list_rep_Nil)
  have m: "max (DFK_ARENA_SEGMENT_SIZE small_env) (1 + sizeof_segment) = 40960" by (simp add: small_env_def sizeof_segment_def)
  obtain heap where h: "dfk__malloc small_env (am_heap fresh_arena_mem) 40960 = Some (heap, 4096)"
    using small_malloc [of 40960] by auto
  have "am_heap st = heap"
    using assms h e m by (auto simp: dfk_arena_alloc_def bind_eq_Some_conv Let_def)
  moreover have "mem_bytes heap = put_bytes (mem_bytes (am_heap fresh_arena_mem)) 4096 (replicate 40960 0)"
    using h by (auto simp: dfk__malloc_def small_env_def slot_alloc_def slots_def free_at_def ALIGNED_def Let_def bind_eq_Some_conv)
  ultimately show ?thesis by (simp add: put_bytes_dom)
qed

lemma fileserver_setup:
  assumes "length path < 0x1000"
  obtains w smap where "dfk_strmap_init (hw_hooks w) (hw_items w) = Some smap"
    "maps_ok small_env w 40000 [(smap, Map.empty)]" "hw_os w = sample_kernel"
    "path_request w sample_fs (get_request smap (of_nat (length path))) (str ''/srv'') path"
    "\<forall>m. mem_blocks m = mem_blocks (hw_heap w) \<longrightarrow> dom (mem_bytes m) = dom (mem_bytes (hw_heap w)) \<longrightarrow> dfk_malloc small_env m 4 \<noteq> None"
proof -
  let ?bs = "str ''/srv'' @ path"
  have l4: "length (str ''/srv'') = 4" by (simp add: str_def)
  have fits: "fits text_addr (length ?bs)" using assms l4 by (simp add: fits_def)
  have inv: "arena_inv small_env fresh_arena_mem fresh_arena [] [] []"
    using init_spec [OF fresh_arena_ok] fresh_arena_init by auto
  obtain st arena where a: "dfk_arena_alloc small_env fresh_arena_mem fresh_arena 1 = Some (st, arena, 4128)"
    using small_alloc [of 1] by auto
  then obtain s where s: "arena_inv small_env st arena ([] @ [s]) [] [(s + sizeof_segment, 1)]"
      "am_segs st s = Some \<lparr>seg_size = DFK_ARENA_SEGMENT_SIZE small_env - sizeof_segment, seg_used = sizeof_segment + 1\<rparr>"
    using alloc_new_segment [OF small_env_ok inv, of 1] by auto
  have room: "arena_room st [s] 40000" using s(2) by (simp add: arena_room_def small_env_def sizeof_segment_def)
  let ?start = "world_of st arena"
  let ?w = "with_text ?start text_addr ?bs"
  have "maps_ok small_env ?start 40000 []"
    using s(1) room unfolding maps_ok_def maps_in_def by (auto simp: world_of_def)
  from maps_ok_init [OF this] obtain smap where sm: "dfk_strmap_init (hw_hooks ?start) (hw_items ?start) = Some smap"
      "maps_ok small_env ?start 40000 [(smap, Map.empty)]" by auto
  have maps: "maps_ok small_env ?w 40000 [(smap, Map.empty)]"
    unfolding with_text_def by (rule maps_ok_more_bytes [OF sm(2)]) (simp_all add: put_bytes_dom)
  have at: "bytes_at (mem_bytes (hw_heap ?w)) text_addr ?bs"
    using put_bytes_at [OF fits] by (simp add: with_text_def with_heap_def)
  have heap: "mem_blocks (hw_heap ?w) = [4096 \<mapsto> 40960]" "dom (mem_bytes (hw_heap ?w)) = range_of 4096 40960 \<union> range_of text_addr (length ?bs)"
    using small_blocks [OF a] small_dom [OF a] by (simp_all add: with_text_def with_heap_def world_of_def put_bytes_dom)
  have "range_of text_addr (length ?bs) \<inter> range_of 4096 40960 = {}"
    by (rule range_of_disjoint [OF fits]) (auto simp: fits_def)
  then have aw: "away ?w text_addr (length ?bs)" using heap(1) by (auto simp: away_def split: if_splits)
  have req: "path_request ?w sample_fs (get_request smap (of_nat (length path))) (str ''/srv'') path"
    using at away_sub [OF aw, of 0 4] away_sub [OF aw, of 4 "length path"] l4 assms
    by (simp add: path_request_def safe_bytes_def sample_fs_def get_request_def bytes_at_append)
  have buf: "dfk_malloc small_env m 4 \<noteq> None" if m: "mem_blocks m = mem_blocks (hw_heap ?w)" "dom (mem_bytes m) = dom (mem_bytes (hw_heap ?w))" for m
  proof -
    have u: "unat (0x100000 + of_nat i :: addr) = 0x100000 + i" if "i < 4" for i
      by (rule unat_add_fits [of _ 4, THEN trans]) (use that in \<open>auto simp: fits_def\<close>)
    have "mem_bytes m (0x100000 + of_nat i) = None" if i: "i < 4" for i
    proof -
      have "0x100000 + of_nat i \<notin> range_of 4096 40960" using u [OF i] range_of_unat [of 4096 40960] i by (simp add: fits_def)
      moreover have "0x100000 + of_nat i \<notin> range_of text_addr (length ?bs)" using u [OF i] range_of_unat [OF fits] i by simp
      ultimately show ?thesis using m(2) heap(2) by blast
    qed
    then have "free_at m 4 0x100000" using m(1) heap(1) by (simp add: free_at_def)
    then have "filter (free_at m 4) slots \<noteq> []" by (auto simp: slots_def filter_empty_conv)
    then show ?thesis by (auto simp: small_env_def slot_alloc_def split: list.split)
  qed
  have "dfk_strmap_init (hw_hooks ?w) (hw_items ?w) = Some smap" "hw_os ?w = sample_kernel"
    using sm(1) by (simp_all add: with_text_def with_heap_def world_of_def)
  with maps req buf that show thesis by blast
qed

theorem fileserver_sends_file_witness:
  "\<exists>w resp w' resp' hdrs smap. dfk__http_response_init w 1 1 \<lparr>t_socket = 3\<rparr> 0 = Some resp
    \<and> path_request w sample_fs (get_request smap 7) (str ''/srv'') (str ''/../key'')
    \<and> dfk_fileserver_handler small_env reliable_os sample_files sample_fs (get_request smap 7) resp w = Some (dfk_err_ok, resp', w')
    \<and> k_sent (hw_os w') = header_block resp hdrs @ str ''hello world''
    \<and> map_of hdrs = [str ''Content-Length'' \<mapsto> str ''11'']"
proof -
  have lp: "length (str ''/../key'') = 7" "length (str ''/srv'') = 4" "length (str ''hello world'') = 11" by (simp_all add: str_def)
  obtain w smap where w: "dfk_strmap_init (hw_hooks w) (hw_items w) = Some smap"
      "maps_ok small_env w 40000 [(smap, Map.empty)]" "hw_os w = sample_kernel"
      "path_request w sample_fs (get_request smap (of_nat (length (str ''/../key'')))) (str ''/srv'') (str ''/../key'')"
      "\<forall>m. mem_blocks m = mem_blocks (hw_heap w) \<longrightarrow> dom (mem_bytes m) = dom (mem_bytes (hw_heap w)) \<longrightarrow> dfk_malloc small_env m 4 \<noteq> None"
    by (rule fileserver_setup [of "str ''/../key''"]) (simp_all add: lp)
  obtain resp where i: "dfk__http_response_init w 1 1 \<lparr>t_socket = 3\<rparr> 0 = Some resp" using w(1) by (auto simp: dfk__http_response_init_def)
  then have resp: "\<not> resp_headers_flushed resp" "c_int (resp_status resp)" "resp_mock resp = None" "resp_headers resp = smap" "resp_socket resp = \<lparr>t_socket = 3\<rparr>"
    using w(1) by (auto simp: dfk__http_response_init_def c_int_def)
  have maps: "maps_ok small_env w (length (str ''/srv'') + length (str ''/../key'') + 1 + flush_cost Map.empty) [(resp_headers resp, lifted Map.empty)]"
    using maps_ok_mono [OF w(2)] resp(4) lp by (simp add: flush_cost_def)
  have keys: "keys_ok (insert DFK_HTTP_CONTENT_LENGTH (dom Map.empty))"
    by (simp add: keys_ok_def DFK_HTTP_CONTENT_LENGTH_def str_def)
  have path: "c_string (str ''/srv'' @ str ''/../key'') = sample_path" by (simp add: c_string_def sample_path_def str_def)
  have stat: "f_stat sample_files (c_string (str ''/srv'' @ str ''/../key'')) (hw_os w)
      = (0, \<lparr>st_mode = 0x8000, st_size = int (length (str ''hello world''))\<rparr>, hw_os w)" "(0x8000 :: 32 word) AND S_IFDIR = 0"
    using path lp by (simp_all add: sample_files_def S_IFDIR_def)
  have fopen: "f_fopen sample_files (c_string (str ''/srv'' @ str ''/../key'')) (hw_os w) = (7, (hw_os w)\<lparr>k_input := str ''hello world''\<rparr>)"
    using path by (simp add: sample_files_def)
  have fread: "reads_file sample_files 7 k_input (\<lambda>s. (k_sent s, send_room s))" "\<forall>s. k_sent (f_fclose sample_files 7 s) = k_sent s"
    by (simp_all add: reads_file_def sample_files_def send_room_def)
  have os: "sends reliable_os (t_socket (resp_socket resp)) k_sent" "polls_requested reliable_os"
      "buffered reliable_os (t_socket (resp_socket resp)) send_room" "untouched_by_writes reliable_os (t_socket (resp_socket resp)) k_input"
    using reliable_os_writes reliable_os_buffered by (simp_all add: untouched_by_writes_def reliable_os_def sample_os_def buffered_write_def)
  have bsz: "fs_io_buf_size sample_fs \<noteq> 0" "fs_io_buf_size sample_fs = 4" by (simp_all add: sample_fs_def)
  have d: "decimal 11 = str ''11''" "DFK_HTTP_CONTENT_LENGTH = str ''Content-Length''"
    by (simp_all add: decimal.simps str_def DFK_HTTP_CONTENT_LENGTH_def)
  have content: "str ''hello world'' \<noteq> []" "length (str ''hello world'') < 2 ^ 63"
    "block_size resp (put_first DFK_HTTP_CONTENT_LENGTH (decimal (length (str ''hello world''))) Map.empty) + length (str ''hello world'')
      \<le> send_room ((hw_os w)\<lparr>k_input := str ''hello world''\<rparr>)"
    using status_line_length [OF resp(2)] w(3) d
    by (simp_all add: lp block_size_def put_first_def send_room_def sample_kernel_def) (simp_all add: str_def DFK_HTTP_CONTENT_LENGTH_def)
  obtain w' resp' hdrs where "dfk_fileserver_handler small_env reliable_os sample_files sample_fs (get_request smap 7) resp w = Some (dfk_err_ok, resp', w')"
      "k_sent (hw_os w') = k_sent (hw_os w) @ header_block resp hdrs @ str ''hello world''"
      "map_of hdrs = put_first DFK_HTTP_CONTENT_LENGTH (decimal 11) Map.empty"
    using fileserver_sends_file [where left = k_input and snt = k_sent and room = send_room, OF small_env_ok maps _ keys w(4) resp(1-3) stat fopen _ _ _ fread bsz(1) _ os content(2,3)] w(5) bsz(2) lp content(1)
    by auto
  then show ?thesis
    using i w(3,4) lp d by (intro exI [of _ w] exI [of _ resp] exI [of _ w'] exI [of _ resp'] exI [of _ hdrs] exI [of _ smap])
      (simp add: sample_kernel_def put_first_def)
qed

text \<open>
  C23. What a GET of a directory puts on the wire: a prefix of the header block with the length of the page, and a prefix of the page; all of it
  when the send buffer of the socket has room for all. The page has one link for each entry of the directory but \<^verbatim>\<open>.\<close> and \<^verbatim>\<open>..\<close>, in
  the order in which the directory has them; a link is the path of the request, a slash unless the path ends with one, and the
  name. The long strings of the page are sent with their terminating zeros. The path is not empty, the names are not empty and at most
  256 bytes long, the directory reports the type of \<^verbatim>\<open>.\<close> and \<^verbatim>\<open>..\<close> as that of a directory (they are listed otherwise), reading
  it does not fail, there is memory for the list, and the names of the headers, \<^verbatim>\<open>Content-Length\<close> among them, are not proper
  prefixes of each other.
\<close>

theorem fileserver_lists_directory:
  assumes maps: "maps_ok env w (length base + length path + 1 + listing_cost (length (proper_entries des)) hm) [(resp_headers resp, lifted hm)]"
    and headers: "[] \<notin> ran hm" "keys_ok (insert DFK_HTTP_CONTENT_LENGTH (dom hm))"
    and req: "path_request w fs req base path" "path \<noteq> []"
    and resp: "\<not> resp_headers_flushed resp" "c_int (resp_status resp)" "resp_mock resp = None"
    and stat: "f_stat F (c_string (base @ path)) (hw_os w) = (0, st, s1)" "st_mode st AND S_IFDIR \<noteq> 0" "fs_autoindex fs"
    and opendir: "f_opendir F (c_string (base @ path)) s1 = (dp, s2)" "dp \<noteq> NULL" "rest s2 = des" "snt s2 = snt (hw_os w)"
    and readdir: "reads_directory F dp rest snt" "\<forall>s. snt (f_closedir F dp s) = snt s" "dots_are_directories des"
    and os: "sends S (t_socket (resp_socket resp)) snt" "polls_requested S"
    and names: "\<forall>de\<in>set des. de_name de \<noteq> [] \<and> length (de_name de) \<le> 256"
    and small: "length (index_page path (map de_name (proper_entries des))) < 2 ^ 63"
  shows "\<exists>w' resp' hdrs page p q. dfk_fileserver_handler env S F fs req resp w = Some (dfk_err_ok, resp', w')
    \<and> page = index_page path (map de_name (proper_entries des))
    \<and> snt (hw_os w') = snt (hw_os w) @ p @ q \<and> prefix p (header_block resp hdrs) \<and> prefix q page
    \<and> map_of hdrs = put_first DFK_HTTP_CONTENT_LENGTH (decimal (length page)) hm \<and> descending (map fst hdrs)
    \<and> (\<forall>room. buffered S (t_socket (resp_socket resp)) room \<longrightarrow> reads_directory F dp rest room \<longrightarrow> (\<forall>s. room (f_closedir F dp s) = room s) \<longrightarrow>
        length (header_block resp hdrs @ page) \<le> room s2 \<longrightarrow> p @ q = header_block resp hdrs @ page)"
proof -
  have proper: "listed des = proper_entries des" by (rule listed_proper [OF readdir(3)])
  let ?des = "proper_entries des" and ?page = "index_page path (map de_name (proper_entries des))"
  let ?resp = "resp\<lparr>resp_content_length := of_nat (length ?page)\<rparr>"
  define sep where "sep \<longleftrightarrow> last path \<noteq> 47"
  let ?v = "index_vector path sep ?des" and ?n = "length ?des"
  have p: "safe_bytes w (fs_basepath fs) base" "fs_basepathlen fs = of_nat (length base)"
      "safe_bytes w (buf_data (req_path req)) path" "buf_size (req_path req) = of_nat (length path)" "length base + length path + 1 < 2 ^ 62"
      "req_method req = method_code DFK_HTTP_GET" using req by (simp_all add: path_request_def)
  obtain w1 where w1: "fileserver_path env fs req w = Some (Some (c_string (base @ path)), w1)"
      "maps_ok env w1 (listing_cost ?n hm) [(resp_headers resp, lifted hm)]" "hw_os w1 = hw_os w" "safe_bytes w1 (buf_data (req_path req)) path"
    using fileserver_path_ok [OF maps p(1-5)] by auto
  let ?w2 = "w1\<lparr>hw_os := s2\<rparr>" and ?m = "16 * (6 + 7 * ?n) + flush_cost hm"
  obtain l where l: "dfk_list_init (hw_lists w1) = Some l" "list_rep (hw_lists w1) l []"
    using list_init_spec by blast
  obtain ss os' regs xss where a: "arena_inv env (sm_arena (hw_mem w1)) (hw_arena w1) ss os' regs"
      "arena_room (sm_arena (hw_mem w1)) ss (listing_cost ?n hm)" "maps_in w1 regs [(resp_headers resp, lifted hm)] xss"
    using w1(2) by (rule maps_okE)
  have "dir_state env w1 (listing_cost ?n hm) [(resp_headers resp, lifted hm)] l (\<lambda>_. None) [] []"
    unfolding dir_state_def using a l(2) by auto
  then have st0: "dir_state env ?w2 (296 * (length (listed (rest (hw_os ?w2))) + 1) + ?m) [(resp_headers resp, lifted hm)] l (\<lambda>_. None) [] []"
    using opendir(3) proper by (simp add: listing_cost_def dir_state_def maps_in_def)
  obtain ents l' ys w3 where r: "read_directory env F dp (\<lambda>_. None) l ?w2 = Some (True, ents, l', w3)"
      "dir_state env w3 ?m [(resp_headers resp, lifted hm)] l' ents ys ?des" "hw_heap w3 = hw_heap w1" "snt (hw_os w3) = snt s2"
    using read_directory_ok [OF readdir(1,2) st0] opendir(3) proper by auto
  have r_room: "room (hw_os w3) = room s2" if "reads_directory F dp rest room" "\<forall>s. room (f_closedir F dp s) = room s" for room :: "'a \<Rightarrow> nat"
    using read_directory_ok [OF that st0] r(1) by auto
  have ls: "list_rep (hw_lists w3) l' ys" "list_all2 (\<lambda>y de. ents y = Some de) ys ?des" using r(2) by (simp_all add: dir_state_def)
  then have ly: "length ys = ?n" by (simp add: list_all2_lengthD)
  have bp: "bytes_at (mem_bytes (hw_heap w3)) (buf_data (req_path req)) path" using w1(4) r(3) by (simp add: safe_bytes_def)
  have tb: "mem_load (hw_heap w3) (buf_data (req_path req) + buf_size (req_path req) - 1) 1 = Some [last path]"
    using tail_byte [OF bp req(2)] p(4) by (simp add: mem_load_def)
  have lp: "length path < 2 ^ 62" using p(5) by simp
  obtain ss3 where "arena_room (sm_arena (hw_mem w3)) ss3 ?m" using dir_state_maps [OF r(2)] by (rule maps_okE)
  note room = arena_room_bound [OF this]
  let ?niov = "6 + 6 * of_nat ?n + (if sep then of_nat ?n else 0) :: size_t"
  have nv: "?niov = of_nat (length ?v)" "length ?v \<le> 6 + 7 * ?n" by (auto simp: index_vector_length algebra_simps)
  have un: "unat ?niov = length ?v" "unat (?niov * sizeof_iovec) = 16 * length ?v"
  proof -
    have b: "16 * length ?v < 2 ^ 64" by (rule le_less_trans [OF trans_le_add1 [OF mult_le_mono2 [OF nv(2)]] room])
    then show "unat ?niov = length ?v" using unat_of_nat_addr [of "length ?v"] by (simp only: nv(1))
    have "?niov * sizeof_iovec = of_nat (16 * length ?v)" by (simp add: nv(1) sizeof_iovec_def)
    then show "unat (?niov * sizeof_iovec) = 16 * length ?v" using unat_of_nat_addr [OF b] by simp
  qed
  have nz: "?niov * sizeof_iovec \<noteq> 0" using un(2) by (auto simp: index_vector_length unat_eq_0 [symmetric] simp del: unat_eq_0)
  obtain w4 iov where w4: "world_alloc env w3 (?niov * sizeof_iovec) = Some (w4, iov)" "iov \<noteq> NULL"
      "maps_ok env w4 (flush_cost hm) [(resp_headers resp, lifted hm)]" "same_but_maps w3 w4"
    using world_alloc_ok [of env w3 "?niov * sizeof_iovec" "flush_cost hm" "[(resp_headers resp, lifted hm)]"]
      maps_ok_mono [OF dir_state_maps [OF r(2)]] un(2) nv(2) nz by (auto simp: add.commute)
  have h4: "hw_lists w4 = hw_lists w3" "hw_heap w4 = hw_heap w3" "hw_os w4 = hw_os w3" using w4(4) by (simp_all add: same_but_maps_def)
  have ld: "mem_load (hw_heap w3) (buf_data (req_path req)) (unat (buf_size (req_path req))) = Some path"
    using load_bytes_at [OF bp] unat_of_nat_addr [of "length path"] lp p(4) by (simp add: mem_load_def)
  have li: "listing_iov (hw_lists w3) ents path sep (unat ?niov) \<lparr>it_value = hd_or ys NULL\<rparr> \<lparr>it_value = NULL\<rparr>
      [autoindex_header_1, path, autoindex_header_2, path, autoindex_header_3]
      = Some ([autoindex_header_1, path, autoindex_header_2, path, autoindex_header_3]
        @ concat (map (\<lambda>de. entry_iov path sep (take 256 (de_name de))) ?des))"
    by (rule listing_iov_ok [OF _ ls(2), of _ _ "[]"]) (use ls(1) un(1) in \<open>auto simp: index_vector_length\<close>)
  have names': "\<forall>de\<in>set ?des. de_name de \<noteq> []" "\<forall>de\<in>set ?des. length (de_name de) \<le> 256" using names by (auto simp: proper_entries_def)
  have vp: "concat ?v = ?page" using index_vector_page [OF sep_def names'(2)] .
  have ok: "response_ok env w4 ?resp (flush_cost hm) hm" using response_from_maps [OF w4(3) headers(1)] by (simp add: response_ok_def)
  have ne: "?v \<noteq> []" by (simp add: index_vector_def)
  have resp': "\<not> resp_headers_flushed ?resp" "c_int (resp_status ?resp)" "resp_mock ?resp = None" "resp_socket ?resp = resp_socket resp"
    using resp by simp_all
  have same: "header_block ?resp = header_block resp" "block_size ?resp = block_size resp"
    by (simp_all add: header_block_def block_size_def status_line_def fun_eq_iff)
  obtain w5 resp5 m hdrs pp qq where 5: "dfk_http_response_writev env S w4 ?resp ?v = Some (w5, resp5, m)"
      "snt (hw_os w5) = snt (hw_os w4) @ pp @ qq" "prefix pp (header_block resp hdrs)" "prefix qq ?page"
      "map_of hdrs = sent_headers ?resp hm" "descending (map fst hdrs)"
      "\<forall>room. buffered S (t_socket (resp_socket resp)) room \<longrightarrow> block_size ?resp (sent_headers ?resp hm) + length ?page \<le> room (hw_os w4) \<longrightarrow>
        pp = header_block resp hdrs \<and> qq = ?page"
    using writev_first [OF ok headers(2) resp'(1-3), unfolded resp'(4) same(1), OF os ne index_vector_parts [OF req(2) names'(1)], unfolded vp] by blast
  have all: "pp @ qq = header_block resp hdrs @ ?page"
    if b: "buffered S (t_socket (resp_socket resp)) room" "reads_directory F dp rest room" "\<forall>s. room (f_closedir F dp s) = room s"
      "length (header_block resp hdrs @ ?page) \<le> room s2" for room
  proof -
    have "block_size ?resp (sent_headers ?resp hm) + length ?page \<le> room (hw_os w4)"
      using b(4) header_block_size [OF 5(6,5), of resp] r_room [OF b(2,3)] h4(3) by (simp add: same)
    then show ?thesis using 5(7) b(1) by simp
  qed
  have un': "unat (of_nat (length ?page) :: size_t) = length ?page" using small by (simp add: unat_of_nat_addr)
  have "(of_nat (length ?page) :: size_t) \<noteq> -1"
  proof
    assume "(of_nat (length ?page) :: size_t) = -1"
    with un' have "length ?page = unat (-1 :: size_t)" by metis
    moreover have "unat (-1 :: size_t) = 2 ^ 64 - 1" by (simp add: unsigned_minus_1_eq_mask mask_eq_exp_minus_1)
    ultimately show False using small by simp
  qed
  then have sh: "sent_headers ?resp hm = put_first DFK_HTTP_CONTENT_LENGTH (decimal (length ?page)) hm"
    using un' by (simp add: sent_headers_def)
  have d: "serve_directory env S F req resp (c_string (base @ path)) (w1\<lparr>hw_os := s1\<rparr>)
      = Some (dfk_err_ok, resp5\<lparr>resp_status := status_code DFK_HTTP_OK\<rparr>, w5)"
    using opendir(1,2) l(1) r(1) list_size_spec [OF ls(1)] tb w4(1,2) ld h4 list_begin_spec [OF ls(1)] list_end_spec [OF ls(1)] li un(1) 5(1) vp ly sep_def
    by (simp add: serve_directory_def Let_def index_vector_def str_def)
  have "dfk_fileserver_handler env S F fs req resp w = Some (dfk_err_ok, resp5\<lparr>resp_status := status_code DFK_HTTP_OK\<rparr>, w5)"
    using w1(1,3) stat p(6) d by (simp add: dfk_fileserver_handler_def Let_def)
  moreover have "snt (hw_os w5) = snt (hw_os w) @ pp @ qq" using 5(2) h4(3) r(4) opendir(4) by simp
  moreover have "map_of hdrs = put_first DFK_HTTP_CONTENT_LENGTH (decimal (length ?page)) hm" unfolding 5(5) by (rule sh)
  ultimately show ?thesis using 5(3,4,6) all by blast
qed

text \<open>A directory on the sample file system; the number of descriptors spawned stands for the position in it.\<close>

definition sample_entries :: "dirent list" where
  "sample_entries = [\<lparr>de_type = DT_DIR, de_name = str ''.''\<rparr>, \<lparr>de_type = DT_REG, de_name = str ''b''\<rparr>,
     \<lparr>de_type = DT_DIR, de_name = str ''..''\<rparr>, \<lparr>de_type = DT_DIR, de_name = str ''a''\<rparr>]"

definition entries_left :: "kernel \<Rightarrow> dirent list" where
  "entries_left k = drop (length (k_sp k)) sample_entries"

definition sample_directory :: "kernel file_os" where
  "sample_directory = sample_files\<lparr>f_stat := (\<lambda>p k. (0, \<lparr>st_mode = 0x4000, st_size = 0\<rparr>, k)),
     f_opendir := (\<lambda>p k. (9, k\<lparr>k_sp := []\<rparr>)),
     f_readdir := (\<lambda>d k. (0, case entries_left k of [] \<Rightarrow> None | de # _ \<Rightarrow> Some de, k\<lparr>k_sp := k_sp k @ [(0, True)]\<rparr>))\<rparr>"

lemma sample_listed: "proper_entries sample_entries = [\<lparr>de_type = DT_REG, de_name = str ''b''\<rparr>, \<lparr>de_type = DT_DIR, de_name = str ''a''\<rparr>]"
  by (simp add: proper_entries_def sample_entries_def str_def)

theorem fileserver_lists_directory_witness:
  "\<exists>w resp w' resp' hdrs page smap. dfk__http_response_init w 1 1 \<lparr>t_socket = 3\<rparr> 0 = Some resp
    \<and> path_request w sample_fs (get_request smap 1) (str ''/srv'') (str ''/'')
    \<and> dfk_fileserver_handler small_env reliable_os sample_directory sample_fs (get_request smap 1) resp w = Some (dfk_err_ok, resp', w')
    \<and> page = index_page (str ''/'') [str ''b'', str ''a'']
    \<and> k_sent (hw_os w') = header_block resp hdrs @ page
    \<and> map_of hdrs = [str ''Content-Length'' \<mapsto> decimal (length page)]"
proof -
  have lp: "length (str ''/'') = 1" "length (str ''/srv'') = 4" "str ''/'' \<noteq> []" by (simp_all add: str_def)
  obtain w smap where w: "dfk_strmap_init (hw_hooks w) (hw_items w) = Some smap"
      "maps_ok small_env w 40000 [(smap, Map.empty)]" "hw_os w = sample_kernel"
      "path_request w sample_fs (get_request smap (of_nat (length (str ''/'')))) (str ''/srv'') (str ''/'')"
    by (rule fileserver_setup [of "str ''/''"]) (simp_all add: lp)
  obtain resp where i: "dfk__http_response_init w 1 1 \<lparr>t_socket = 3\<rparr> 0 = Some resp" using w(1) by (auto simp: dfk__http_response_init_def)
  then have resp: "\<not> resp_headers_flushed resp" "c_int (resp_status resp)" "resp_mock resp = None" "resp_headers resp = smap" "resp_socket resp = \<lparr>t_socket = 3\<rparr>"
    using w(1) by (auto simp: dfk__http_response_init_def c_int_def)
  have maps: "maps_ok small_env w (length (str ''/srv'') + length (str ''/'') + 1 + listing_cost (length (proper_entries sample_entries)) Map.empty)
      [(resp_headers resp, lifted Map.empty)]"
    using maps_ok_mono [OF w(2)] resp(4) lp by (simp add: flush_cost_def listing_cost_def sample_listed)
  have keys: "keys_ok (insert DFK_HTTP_CONTENT_LENGTH (dom Map.empty))"
    by (simp add: keys_ok_def DFK_HTTP_CONTENT_LENGTH_def str_def)
  have stat: "f_stat sample_directory (c_string (str ''/srv'' @ str ''/'')) (hw_os w) = (0, \<lparr>st_mode = 0x4000, st_size = 0\<rparr>, hw_os w)"
      "st_mode \<lparr>st_mode = 0x4000, st_size = 0\<rparr> AND S_IFDIR \<noteq> 0" "fs_autoindex sample_fs"
    by (simp_all add: sample_directory_def S_IFDIR_def sample_fs_def)
  have opendir: "f_opendir sample_directory (c_string (str ''/srv'' @ str ''/'')) (hw_os w) = (9, (hw_os w)\<lparr>k_sp := []\<rparr>)"
      "entries_left ((hw_os w)\<lparr>k_sp := []\<rparr>) = sample_entries"
    by (simp_all add: sample_directory_def entries_left_def)
  have readdir: "reads_directory sample_directory 9 entries_left k_sent" "\<forall>s. k_sent (f_closedir sample_directory 9 s) = k_sent s"
      "dots_are_directories sample_entries"
      "reads_directory sample_directory 9 entries_left send_room" "\<forall>s. send_room (f_closedir sample_directory 9 s) = send_room s"
    by (auto simp: reads_directory_def sample_directory_def sample_files_def entries_left_def drop_Suc tl_drop send_room_def
        dots_are_directories_def sample_entries_def str_def)
  have names: "\<forall>de\<in>set sample_entries. de_name de \<noteq> [] \<and> length (de_name de) \<le> 256" by (simp add: sample_entries_def str_def)
  have small: "length (index_page (str ''/'') (map de_name (proper_entries sample_entries))) < 2 ^ 63"
    by (simp add: sample_listed index_page_def index_link_def autoindex_header_1_def autoindex_header_2_def autoindex_header_3_def
        autoindex_footer_def link_start_def link_middle_def link_end_def newline_def str_def)
  have nm: "map de_name (proper_entries sample_entries) = [str ''b'', str ''a'']" by (simp add: sample_listed)
  let ?page = "index_page (str ''/'') [str ''b'', str ''a'']"
  obtain w' resp' hdrs p q where
    r: "dfk_fileserver_handler small_env reliable_os sample_directory sample_fs (get_request smap 1) resp w = Some (dfk_err_ok, resp', w')"
      "k_sent (hw_os w') = k_sent (hw_os w) @ p @ q"
      "map_of hdrs = put_first DFK_HTTP_CONTENT_LENGTH (decimal (length ?page)) Map.empty" "descending (map fst hdrs)"
      "\<forall>room. buffered reliable_os (t_socket (resp_socket resp)) room \<longrightarrow> reads_directory sample_directory 9 entries_left room \<longrightarrow>
        (\<forall>s. room (f_closedir sample_directory 9 s) = room s) \<longrightarrow>
        length (header_block resp hdrs @ ?page) \<le> room ((hw_os w)\<lparr>k_sp := []\<rparr>) \<longrightarrow> p @ q = header_block resp hdrs @ ?page"
    using fileserver_lists_directory [OF maps _ keys w(4) [unfolded lp(1)] lp(3) resp(1-3) stat opendir(1) _ opendir(2) _ readdir(1-3) reliable_os_writes names small,
        unfolded nm] by auto
  have sp: "length ?page < 1000"
    by (simp add: index_page_def index_link_def autoindex_header_1_def autoindex_header_2_def autoindex_header_3_def
        autoindex_footer_def link_start_def link_middle_def link_end_def newline_def str_def)
  have "length (decimal (length ?page)) \<le> 3" using length_decimal [of "length ?page" 3] sp by simp
  then have "block_size resp (put_first DFK_HTTP_CONTENT_LENGTH (decimal (length ?page)) Map.empty) < 200"
    using status_line_length [OF resp(2)] by (simp add: block_size_def put_first_def DFK_HTTP_CONTENT_LENGTH_def str_def)
  then have "length (header_block resp hdrs @ ?page) \<le> send_room ((hw_os w)\<lparr>k_sp := []\<rparr>)"
    unfolding length_append header_block_size [OF r(4,3)] using sp w(3) by (simp add: send_room_def sample_kernel_def)
  with r(5) readdir(4,5) reliable_os_buffered have "p @ q = header_block resp hdrs @ ?page" by blast
  with r(1-3) show ?thesis
    using i w(3,4) lp by (intro exI [of _ w] exI [of _ resp] exI [of _ w'] exI [of _ resp'] exI [of _ hdrs] exI [of _ ?page] exI [of _ smap])
      (simp add: sample_kernel_def put_first_def DFK_HTTP_CONTENT_LENGTH_def)
qed

text \<open>
  C40. The answers of the file server that carry no body. A request with another method than GET gets 405 and touches nothing. When
  \<^verbatim>\<open>stat\<close> fails, the answer is 404 for \<^verbatim>\<open>ENOENT\<close> and \<^verbatim>\<open>ENOTDIR\<close> and 500 for other errors; a directory gets 404 when listings are
  switched off. Nothing is sent and nothing else is asked of the file system; the maps of the request stay as they are.
\<close>

theorem fileserver_refuses:
  assumes maps: "maps_ok env w (length base + length path + 1 + n) ms"
    and req: "path_request w fs req base path" "req_method req2 \<noteq> method_code DFK_HTTP_GET"
    and stat: "f_stat F (c_string (base @ path)) (hw_os w) = (ret, st, s)"
    and none: "ret = -1 \<or> st_mode st AND S_IFDIR \<noteq> 0 \<and> \<not> fs_autoindex fs"
  shows "(\<exists>w'. dfk_fileserver_handler env S F fs req resp w = Some (dfk_err_ok, resp\<lparr>resp_status := status_code
        (if ret = -1 \<and> os_errno S s \<notin> {ENOENT, ENOTDIR} then DFK_HTTP_INTERNAL_SERVER_ERROR else DFK_HTTP_NOT_FOUND)\<rparr>, w')
      \<and> hw_os w' = s \<and> hw_ctx w' = hw_ctx w \<and> hw_lists w' = hw_lists w \<and> maps_ok env w' n ms)
    \<and> dfk_fileserver_handler env S F fs req2 resp w = Some (dfk_err_ok, resp\<lparr>resp_status := status_code DFK_HTTP_METHOD_NOT_ALLOWED\<rparr>, w)"
proof -
  have p: "safe_bytes w (fs_basepath fs) base" "fs_basepathlen fs = of_nat (length base)"
      "safe_bytes w (buf_data (req_path req)) path" "buf_size (req_path req) = of_nat (length path)" "length base + length path + 1 < 2 ^ 62"
      "req_method req = method_code DFK_HTTP_GET" using req by (simp_all add: path_request_def)
  obtain w1 where w1: "fileserver_path env fs req w = Some (Some (c_string (base @ path)), w1)" "maps_ok env w1 n ms"
      "hw_os w1 = hw_os w" "hw_ctx w1 = hw_ctx w" "hw_lists w1 = hw_lists w"
    using fileserver_path_ok [OF maps p(1-5)] by auto
  have "maps_ok env (w1\<lparr>hw_os := s\<rparr>) n ms" by (rule maps_ok_world [OF w1(2)]) simp_all
  then show ?thesis
    using w1 stat none p(6) req(2) by (intro conjI exI [of _ "w1\<lparr>hw_os := s\<rparr>"]) (auto simp: dfk_fileserver_handler_def Let_def)
qed

theorem fileserver_refuses_witness:
  "\<exists>w resp w' smap. path_request w sample_fs (get_request smap 2) (str ''/srv'') (str ''/x'')
    \<and> dfk_fileserver_handler small_env sample_os sample_files sample_fs (get_request smap 2) resp w
        = Some (dfk_err_ok, resp\<lparr>resp_status := 404\<rparr>, w') \<and> hw_os w' = sample_kernel\<lparr>k_errno := ENOENT\<rparr>
    \<and> dfk_fileserver_handler small_env sample_os sample_files sample_fs ((get_request smap 2)\<lparr>req_method := method_code DFK_HTTP_POST\<rparr>) resp w
        = Some (dfk_err_ok, resp\<lparr>resp_status := 405\<rparr>, w)"
proof -
  have lp: "length (str ''/x'') = 2" "length (str ''/srv'') = 4" by (simp_all add: str_def)
  obtain w smap where w: "dfk_strmap_init (hw_hooks w) (hw_items w) = Some smap"
      "maps_ok small_env w 40000 [(smap, Map.empty)]" "hw_os w = sample_kernel"
      "path_request w sample_fs (get_request smap (of_nat (length (str ''/x'')))) (str ''/srv'') (str ''/x'')"
    by (rule fileserver_setup [of "str ''/x''"]) (simp_all add: lp)
  obtain resp where i: "dfk__http_response_init w 1 1 \<lparr>t_socket = 3\<rparr> 0 = Some resp" using w(1) by (auto simp: dfk__http_response_init_def)
  have maps: "maps_ok small_env w (length (str ''/srv'') + length (str ''/x'') + 1 + 0) [(smap, Map.empty)]"
    using maps_ok_mono [OF w(2)] lp by simp
  have stat: "f_stat sample_files (c_string (str ''/srv'' @ str ''/x'')) (hw_os w)
      = (-1, \<lparr>st_mode = 0, st_size = 0\<rparr>, sample_kernel\<lparr>k_errno := ENOENT\<rparr>)"
    using w(3) by (simp add: sample_files_def sample_path_def c_string_def str_def)
  have m: "req_method ((get_request smap 2)\<lparr>req_method := method_code DFK_HTTP_POST\<rparr>) \<noteq> method_code DFK_HTTP_GET" by simp
  have e: "os_errno sample_os (sample_kernel\<lparr>k_errno := ENOENT\<rparr>) = ENOENT" by (simp add: sample_os_def)
  show ?thesis
    using fileserver_refuses [OF maps w(4) m stat, of sample_os resp] w(4) lp e by auto
qed

end
