(* ===== verification/Spec2Isabelle.thy ===== *)
theory Spec2Isabelle
  imports Dfk_List Dfk_List_Xor Dfk_Avl_Set Dfk_Strmap_Arena Dfk_Urlencoding Dfk_Sponge Dfk_Sched_Props Dfk_Memmem Dfk_Http_Protocol
    Dfk_Eventloop Dfk_Signal Dfk_Fileserver_Props
begin

text \<open>
  Verification of dfk, a C library of fibers, sockets and HTTP (\<^verbatim>\<open>src/src\<close>, public headers in
  \<^verbatim>\<open>src/include/dfk\<close>).

  \<^bold>\<open>The program.\<close> At the bottom are intrusive containers (a doubly linked list in two build
  configurations, an AVL tree, a string map on the tree), an arena allocator and a byte stream in
  memory on top of a user-provided allocator, and percent-encoding. On the containers stands the
  scheduler: fibers are coroutines that are linked into one list at a time, the scheduler's lists of pending
  and terminated fibers or the wait queues of mutexes and condition variables. Sockets do non-blocking
  system calls and wait through the event loop; HTTP requests are read from sockets, their headers and
  arguments are put into string maps whose items live in arenas, and responses are put together from such maps. A TCP
  server runs a handler per connection (which is lost, socket and all, when there is no memory for its fiber); the HTTP server is such a handler, which reads, answers and releases one request after
  the other, and the file server is a handler for requests.

  \<^bold>\<open>Conventions.\<close> A C function is a HOL function with explicit state. \<^term>\<open>None\<close> is a failed assertion, the use of
  a \<^verbatim>\<open>NULL\<close> or unallocated pointer, or (for a \<^theory_text>\<open>partial_function\<close>) a loop that does not end; so a theorem that a
  call gives \<^term>\<open>Some\<close> result says that it returns and that no assertion fails. Addresses and \<^verbatim>\<open>size_t\<close> are
  64-bit words with wrap-around. No fuel is used: every loop is structural, has a termination proof, or is a
  partial function proved to return. Log output is left out throughout.

  \<^bold>\<open>Theories.\<close>

  \<^item> \<^verbatim>\<open>Dfk_Prelude\<close>: words, \<open>c_assert\<close>, typed memories \<open>'a mem\<close> with \<open>load\<close> and \<open>modify\<close>, frame conditions
    \<open>same_outside\<close>, collections of simplification rules. \<^verbatim>\<open>Dfk_Memory\<close>: byte memory, the allocation table, \<^verbatim>\<open>malloc.c\<close>;
    the user's allocator is the parameter \<open>dfk_env\<close> with the hypothesis \<open>alloc_ok\<close>. \<^verbatim>\<open>Dfk_Error\<close>: \<^verbatim>\<open>error.c\<close>.
  \<^item> \<^verbatim>\<open>Dfk_List_Spec\<close>: the contract of a deque as a locale, with client programs of list operations.
    \<^verbatim>\<open>Dfk_List\<close>, \<^verbatim>\<open>Dfk_List_Xor\<close>: \<^verbatim>\<open>list.c\<close> with two pointers and with one XOR-ed pointer per hook, every function with its
    run-time checks; both are interpretations of the contract, so any client-respecting sequence of operations behaves as on a
    HOL list, and in both configurations alike.
  \<^item> \<^verbatim>\<open>Dfk_Avl_Spec\<close>: balanced trees as a data type, zippers, rotations. \<^verbatim>\<open>Dfk_Avltree\<close>: \<^verbatim>\<open>avltree.c\<close> on a heap of hooks.
    \<^verbatim>\<open>Dfk_Avltree_Refine\<close>, \<^verbatim>\<open>Dfk_Avltree_Erase\<close>: insertion and erasure refine the trees and keep balance factors, parents and
    order. \<^verbatim>\<open>Dfk_Avl_Set\<close>: the contract of an ordered set as a locale, lookup, iteration, size, height.
  \<^item> \<^verbatim>\<open>Dfk_Strmap\<close>: \<^verbatim>\<open>strmap.c\<close> as an associative array (a locale and its interpretation) for keys none of which is a
    proper prefix of another, and the defect for other keys. \<^verbatim>\<open>Dfk_Strmap_Arena\<close>: the constructors on an arena.
  \<^item> \<^verbatim>\<open>Dfk_Arena\<close>: \<^verbatim>\<open>arena.c\<close> over the list and byte memory; reachable arena states, objects stay intact, release.
    \<^verbatim>\<open>Dfk_Sponge\<close>: \<^verbatim>\<open>sponge.c\<close> as a byte queue (locale and interpretation). \<^verbatim>\<open>Dfk_Urlencoding\<close>: \<^verbatim>\<open>urlencoding.c\<close>, encoder and decoder
    against a reference, round trip.
  \<^item> \<^verbatim>\<open>Dfk_Scheduler\<close>: \<^verbatim>\<open>scheduler.c\<close>, \<^verbatim>\<open>fiber.c\<close>, \<^verbatim>\<open>mutex.c\<close>, \<^verbatim>\<open>cond.c\<close> and \<^verbatim>\<open>dfk_work\<close> of \<^verbatim>\<open>context.c\<close> as operations on one state
    record; a function that switches to another fiber is split at the switch. \<^verbatim>\<open>Dfk_Sched_Inv\<close>: executions as a step
    relation and the invariant of reachable states. \<^verbatim>\<open>Dfk_Sched_Props\<close>: fibers are conserved, no assertion fails, dispatch is round
    robin, mutexes are handed on in order, the scheduler ends only when nothing can run; stack layout of new fibers.
  \<^item> \<^verbatim>\<open>Dfk_Socket\<close>: \<^verbatim>\<open>tcp_socket.c\<close>, \<^verbatim>\<open>read.c\<close>, \<^verbatim>\<open>close.c\<close>, \<^verbatim>\<open>make_nonblock.c\<close>, \<^verbatim>\<open>eventloop.c\<close>, \<^verbatim>\<open>dfk__io\<close> of \<^verbatim>\<open>epoll.c\<close>. The
    operating system is the parameter \<open>os_ops\<close>; the hypotheses \<open>sends\<close>, \<open>receives\<close>, \<open>polls_requested\<close> and \<open>backlog_bound\<close> state what is
    relied on, and a sample kernel satisfies them.
  \<^item> \<^verbatim>\<open>Dfk_Eventloop\<close>: the loops of \<^verbatim>\<open>epoll.c\<close> and \<^verbatim>\<open>select.c\<close>, of which the scheduler model has only the abstract step \<open>io_ready\<close>:
    a round of either is such a step, for the fibers whose descriptors the kernel reports. \<^verbatim>\<open>Dfk_Signal\<close>: \<^verbatim>\<open>signal.c\<close>, the fibers
    that wait for signals in a list and their pipes.
  \<^item> \<^verbatim>\<open>Dfk_Strtoll\<close>, \<^verbatim>\<open>Dfk_Memmem\<close>: \<^verbatim>\<open>strtoll.c\<close> with the \<^verbatim>\<open>strtoll\<close> of the C library written out, \<^verbatim>\<open>portable/memmem.c\<close>.
  \<^item> \<^verbatim>\<open>Dfk_Tcp_Server\<close>: \<^verbatim>\<open>tcp_server.c\<close> and \<^verbatim>\<open>dfk_stop\<close>; serving and the handlers of connections as a step relation.
  \<^item> \<^verbatim>\<open>Dfk_Http_World\<close>: the state HTTP works on: byte memory, one arena, the hooks and items of string maps, buffers, the context
    and the operating system; \<open>maps_ok\<close> says which maps live in the arena and how much room is left.
    \<^verbatim>\<open>Dfk_Http_Constants\<close>: the enumerations and phrases of \<^verbatim>\<open>http/constants.h\<close> and \<^verbatim>\<open>http/constants.c\<close>.
  \<^item> \<^verbatim>\<open>http/request.c\<close> in four theories. \<^verbatim>\<open>Dfk_Http_Request\<close>: the callbacks that put header lines together, the parser of the
    query, \<^verbatim>\<open>dfk_buf_append\<close> of \<^verbatim>\<open>misc.c\<close>. \<^verbatim>\<open>Dfk_Http_Body\<close>: reading the body. \<^verbatim>\<open>Dfk_Http_Read\<close>: the life of a request, its buffers
    and \<^verbatim>\<open>dfk__http_request_read_headers\<close>. \<^verbatim>\<open>Dfk_Http_Header\<close>: a header that arrives in one piece is read correctly, one that does
    not makes the server abort, and a request gives all of its memory back.
  \<^item> \<^verbatim>\<open>Dfk_Http_Response\<close>: \<^verbatim>\<open>http/response.c\<close>, from the headers in a string map to the bytes on the wire.
    \<^verbatim>\<open>Dfk_Http_Protocol\<close>: \<^verbatim>\<open>http/server.c\<close> and the loop of a connection in \<^verbatim>\<open>http/protocol.c\<close> on top of all the others.
  \<^item> \<^verbatim>\<open>Dfk_Fileserver\<close>: \<^verbatim>\<open>middleware/fileserver.c\<close>, the handler over the request's arena, the list and the response.
    \<^verbatim>\<open>Dfk_Fileserver_Props\<close>: the bytes it sends for a file and for a directory, and its refusals. The file system is the parameter
    \<open>file_os\<close> with the hypotheses \<open>reads_file\<close> and \<open>reads_directory\<close>.
  \<^item> This theory: what spans the two list configurations.

  \<^bold>\<open>Hypotheses.\<close> Clients respect the documented preconditions (\<open>ops_ok\<close>, \<open>api_ok\<close>): hooks in one container only, locks released by
  their owner, no object freed while in use. The comparison callback of a tree is a strict order (\<open>cmp_ok\<close>).
  The scheduler model represents lists by sequences, which the list component justifies since a fiber is in one list at a
  time in every reachable state. The HTTP parser is a third-party library: \<open>reads_header\<close> and \<open>passes_body\<close> say what its
  callbacks report for a complete header and for bytes of the body, \<open>parser_total\<close> that it parses all bytes unless it stops;
  sample parsers satisfy them. When the parser reports the end of the header it has not consumed the line feed that ends it, so
  this byte is kept with the bytes of the body and given to the parser again. Non-blocking sockets may take a part of what they are
  given: the statements on responses say which prefix is sent, and \<open>buffered\<close>, a send buffer with room, is the condition for all of it.
  \<open>delivers\<close> is about a peer that sends a stream without errors. Keys of string maps are not proper prefixes of each other
  (\<open>keys_ok\<close>), because the map confuses those; this excludes every request with an \<^verbatim>\<open>Accept-Encoding\<close> header, as
  \<^verbatim>\<open>Accept\<close> is looked up in every request. A directory reports the type of \<^verbatim>\<open>.\<close> and \<^verbatim>\<open>..\<close> (\<open>dots_are_directories\<close>).

  \<^bold>\<open>Step relations made for the model.\<close> The scheduler's executions (\<open>dfk_reach\<close>) interleave whole functions of the code. The interleaving of a
  server (\<open>serve_step\<close>) is put together by hand from the pieces of \<^verbatim>\<open>dfk_tcp_serve\<close> and of the accept callback between two suspensions, with the arrival of
  connections as an abstract event; it records when a callback uses the stack of \<^verbatim>\<open>dfk_tcp_serve\<close> after its return, and what such a
  use of dead memory does is outside the model.

  \<^bold>\<open>Not modelled.\<close> Debug back pointers and printers, log output, fiber names, valgrind registration; the callbacks of
  \<^verbatim>\<open>request.c\<close> that only log; the socket mock of requests; a signal that arrives in the middle of an operation on the list of
  waiting fibers (the handler is modelled as running between operations); the C++ bindings, samples, tools and tests, and libcoro.
\<close>

text \<open>
  C29. The two build configurations of the intrusive list are interchangeable for clients without reverse iterators: starting
  from an initialised list, a sequence of appending, prepending, taking off at either end, reading both ends, size and emptiness, and inserting,
  erasing and reading at an iterator moved forward from the beginning, which respects the client rules, shows the
  same results with two link pointers per hook and with one XOR-ed pointer. Erasing through a reverse iterator differs: with one pointer
  it faults in the middle of a list.
\<close>

theorem list_configurations_agree:
  assumes "ops_ok (\<lambda>a. a \<in> A) [] ops" "dom h = A" "dom hx = A"
  shows "(dfk_list_init h \<bind> (\<lambda>l. deque_run dlist_impl h l ops))
       = (dfk_list_init_x hx \<bind> (\<lambda>l. deque_run xlist_impl hx l ops))"
proof -
  obtain l where l: "dfk_list_init h = Some l" "list_rep h l []"
    using list_init_spec by blast
  obtain lx where lx: "dfk_list_init_x hx = Some lx" "xlist_rep hx lx []"
    using xlist_init_spec by blast
  show ?thesis
    using l lx dlist.run_law [OF l(2)] xlist.run_law [OF lx(2)] assms by simp
qed

theorem list_configurations_agree_witness:
  "(dfk_list_init three_hooks \<bind>
      (\<lambda>l. deque_run dlist_impl three_hooks l [Append 8, Prepend 24, Pop_back, Front]))
   = (dfk_list_init_x [8 \<mapsto> \<lparr>hook_p = 1\<rparr>, 16 \<mapsto> \<lparr>hook_p = 1\<rparr>, 24 \<mapsto> \<lparr>hook_p = 2\<rparr>] \<bind>
      (\<lambda>l. deque_run xlist_impl [8 \<mapsto> \<lparr>hook_p = 1\<rparr>, 16 \<mapsto> \<lparr>hook_p = 1\<rparr>, 24 \<mapsto> \<lparr>hook_p = 2\<rparr>] l
             [Append 8, Prepend 24, Pop_back, Front]))"
  by (rule list_configurations_agree [of "{8, 16, 24}"]) auto

end
